(* ===== verification/Prelude.thy ===== *)
theory Prelude
  imports Main "HOL-Library.Word" "HOL-Library.AList"
begin

text \<open>
  Shared vocabulary of the development: the machine integers and byte buffers
  of the Rust sources, the result type of fallible code with the \<open>?\<close> operator,
  slices, big-endian conversion, and the predicate \<open>has_at\<close> that says which
  bytes a buffer holds at an offset.  The encoders and decoders of the later
  theories are related through \<open>has_at\<close>: an encoder writes a byte string, and
  a decoder run on any buffer that holds the string at its position returns
  the encoded value.
\<close>

unbundle bit_operations_syntax

section \<open>Types\<close>

type_synonym byte = "8 word"
type_synonym u16 = "16 word"
type_synonym u32 = "32 word"
type_synonym u64 = "64 word"
type_synonym u128 = "128 word"
type_synonym bytes = "byte list"

named_theorems wire_simps \<open>evaluation of decoders on encoded bytes\<close>
named_theorems inv_intros \<open>preservation of invariants\<close>

section \<open>Fallible code\<close>

text \<open>A Rust \<open>Result\<close> is a sum with the error on the left; \<open>and_then\<close> is the \<open>?\<close> operator.\<close>

definition and_then :: "'e + 'a \<Rightarrow> ('a \<Rightarrow> 'e + 'b) \<Rightarrow> 'e + 'b" where
  "and_then r f = (case r of Inl e \<Rightarrow> Inl e | Inr x \<Rightarrow> f x)"

lemma and_then_simps [simp]:
  "and_then (Inl e) f = Inl e"
  "and_then (Inr x) f = f x"
  by (simp_all add: and_then_def)

lemma and_then_eq_Inr_iff:
  "and_then r f = Inr y \<longleftrightarrow> (\<exists>x. r = Inr x \<and> f x = Inr y)"
  by (cases r) auto

lemma and_then_cong [fundef_cong]:
  "r = r' \<Longrightarrow> (\<And>x. r' = Inr x \<Longrightarrow> f x = f' x) \<Longrightarrow> and_then r f = and_then r' f'"
  by (cases r') auto

definition is_ok :: "'e + 'a \<Rightarrow> bool" where
  "is_ok r = (case r of Inl _ \<Rightarrow> False | Inr _ \<Rightarrow> True)"

lemma is_ok_simps [simp]: "\<not> is_ok (Inl e)" "is_ok (Inr x)"
  by (simp_all add: is_ok_def)

lemma is_ok_iff: "is_ok r \<longleftrightarrow> (\<exists>x. r = Inr x)"
  by (cases r) auto

section \<open>Slices\<close>

text \<open>\<open>buf.get(i)\<close> and \<open>buf.get(i..j)\<close>: out of range is \<open>None\<close>.\<close>

definition get_at :: "'a list \<Rightarrow> nat \<Rightarrow> 'a option" where
  "get_at xs i = (if i < length xs then Some (xs ! i) else None)"

definition get_range :: "'a list \<Rightarrow> nat \<Rightarrow> nat \<Rightarrow> 'a list option" where
  "get_range xs i j = (if i \<le> j \<and> j \<le> length xs then Some (take (j - i) (drop i xs)) else None)"

lemma get_at_None_iff [simp]: "get_at xs i = None \<longleftrightarrow> length xs \<le> i"
  by (simp add: get_at_def)

lemma get_at_Some_iff: "get_at xs i = Some x \<longleftrightarrow> i < length xs \<and> xs ! i = x"
  by (auto simp: get_at_def)

lemma get_range_Some_iff:
  "get_range xs i j = Some ys \<longleftrightarrow> i \<le> j \<and> j \<le> length xs \<and> ys = take (j - i) (drop i xs)"
  by (auto simp: get_range_def)

section \<open>Bytes held by a buffer at an offset\<close>

definition has_at :: "'a list \<Rightarrow> nat \<Rightarrow> 'a list \<Rightarrow> bool" where
  "has_at buf p bs \<longleftrightarrow> p + length bs \<le> length buf \<and> take (length bs) (drop p buf) = bs"

lemma has_at_append [simp]:
  "has_at buf p (as @ bs) \<longleftrightarrow> has_at buf p as \<and> has_at buf (p + length as) bs"
  by (auto simp: has_at_def take_add add.commute add.left_commute)

lemma has_at_Cons:
  "has_at buf p (x # xs) \<longleftrightarrow> p < length buf \<and> buf ! p = x \<and> has_at buf (Suc p) xs"
  by (auto simp: has_at_def take_Suc hd_drop_conv_nth drop_Suc tl_drop)

lemma has_at_single [simp]: "has_at buf p [x] \<longleftrightarrow> p < length buf \<and> buf ! p = x"
  by (auto simp: has_at_Cons) (simp add: has_at_def)

lemma has_at_Nil [simp]: "has_at buf p [] \<longleftrightarrow> p \<le> length buf"
  by (simp add: has_at_def)

lemma has_at_length: "has_at buf p bs \<Longrightarrow> p + length bs \<le> length buf"
  by (simp add: has_at_def)

lemma has_at_get_range: "has_at buf p bs \<Longrightarrow> get_range buf p (p + length bs) = Some bs"
  by (simp add: has_at_def get_range_def)

lemma has_at_get_at: "has_at buf p (x # xs) \<Longrightarrow> get_at buf p = Some x"
  by (simp add: has_at_Cons get_at_def)

lemma has_at_self: "has_at (pre @ bs @ post) (length pre) bs"
  by (simp add: has_at_def)

lemma has_at_whole [simp]: "has_at bs 0 bs"
  by (simp add: has_at_def)

lemma has_at_left: "has_at buf p bs \<Longrightarrow> has_at (buf @ more) p bs"
  by (auto simp: has_at_def)

section \<open>Big-endian conversion\<close>

text \<open>\<open>to_be_bytes\<close> and \<open>from_be_bytes\<close> of the integer types in use.\<close>

definition to_be16 :: "u16 \<Rightarrow> bytes" where
  "to_be16 w = [ucast (drop_bit 8 w), ucast w]"

definition from_be16 :: "byte \<Rightarrow> byte \<Rightarrow> u16" where
  "from_be16 a b = push_bit 8 (ucast a) OR ucast b"

definition to_be32 :: "u32 \<Rightarrow> bytes" where
  "to_be32 w = [ucast (drop_bit 24 w), ucast (drop_bit 16 w), ucast (drop_bit 8 w), ucast w]"

definition from_be32 :: "byte \<Rightarrow> byte \<Rightarrow> byte \<Rightarrow> byte \<Rightarrow> u32" where
  "from_be32 a b c d =
     push_bit 24 (ucast a) OR push_bit 16 (ucast b) OR push_bit 8 (ucast c) OR ucast d"

definition to_be64 :: "u64 \<Rightarrow> bytes" where
  "to_be64 w = to_be32 (ucast (drop_bit 32 w)) @ to_be32 (ucast w)"

lemma length_to_be [simp]:
  "length (to_be16 w) = 2" "length (to_be32 v) = 4" "length (to_be64 x) = 8"
  by (simp_all add: to_be16_def to_be32_def to_be64_def)

lemma from_be16_to_be16 [simp]:
  "from_be16 (ucast (drop_bit 8 w)) (ucast w) = w"
  by (rule bit_word_eqI) (auto simp: from_be16_def bit_simps)

lemma from_be32_to_be32 [simp]:
  "from_be32 (ucast (drop_bit 24 w)) (ucast (drop_bit 16 w)) (ucast (drop_bit 8 w)) (ucast w) = w"
proof (rule bit_word_eqI)
  fix n assume n: "n < LENGTH(32)"
  consider "n < 8" | "8 \<le> n" "n < 16" | "16 \<le> n" "n < 24" | "24 \<le> n"
    by linarith
  then show "bit (from_be32 (ucast (drop_bit 24 w)) (ucast (drop_bit 16 w)) (ucast (drop_bit 8 w)) (ucast w)) n
      = bit w n"
    using n by cases (auto simp: from_be32_def bit_simps)
qed

lemma to_be16_from_be16 [simp]: "to_be16 (from_be16 a b) = [a, b]"
proof -
  have high: "\<not> bit b (8 + n)" for n
    using bit_imp_le_length [of b "8 + n"] by auto
  have "ucast (drop_bit 8 (from_be16 a b)) = a"
    by (rule bit_word_eqI) (auto simp: from_be16_def bit_simps high)
  moreover have "ucast (from_be16 a b) = b"
    by (rule bit_word_eqI) (auto simp: from_be16_def bit_simps)
  ultimately show ?thesis by (simp add: to_be16_def)
qed

lemma to_be32_inj [simp]: "to_be32 a = to_be32 b \<longleftrightarrow> a = b"
proof
  assume "to_be32 a = to_be32 b"
  then have "from_be32 (ucast (drop_bit 24 a)) (ucast (drop_bit 16 a)) (ucast (drop_bit 8 a)) (ucast a) =
      from_be32 (ucast (drop_bit 24 b)) (ucast (drop_bit 16 b)) (ucast (drop_bit 8 b)) (ucast b)"
    by (simp add: to_be32_def del: from_be32_to_be32)
  then show "a = b" by (simp only: from_be32_to_be32)
qed simp

lemma to_be64_inj [simp]: "to_be64 a = to_be64 b \<longleftrightarrow> a = b"
proof
  assume "to_be64 a = to_be64 b"
  then have hl: "ucast (drop_bit 32 a) = (ucast (drop_bit 32 b) :: u32)" "ucast a = (ucast b :: u32)"
    by (auto simp: to_be64_def append_eq_append_conv)
  show "a = b"
  proof (rule bit_word_eqI)
    fix n assume "n < LENGTH(64)"
    then show "bit a n = bit b n"
      using arg_cong [OF hl(1), of "\<lambda>w. bit w (n - 32)"] arg_cong [OF hl(2), of "\<lambda>w. bit w n"]
      by (cases "n < 32") (auto simp: bit_simps)
  qed
qed simp

text \<open>\<open>u64\<close> values below \<open>2 ^ 48\<close> are the six low-order bytes of their encoding.\<close>

definition to_be48 :: "u64 \<Rightarrow> bytes" where
  "to_be48 w = drop 2 (to_be64 w)"

lemma length_to_be48 [simp]: "length (to_be48 w) = 6"
  by (simp add: to_be48_def)

lemma to_be48_split: "to_be48 w = to_be16 (ucast (drop_bit 32 w)) @ to_be32 (ucast w)"
proof -
  have "ucast (drop_bit 8 (ucast (drop_bit 32 w) :: u32)) = (ucast (drop_bit 8 (ucast (drop_bit 32 w) :: u16)) :: byte)"
    by (rule bit_word_eqI) (auto simp: bit_simps)
  moreover have "ucast (ucast (drop_bit 32 w) :: u32) = (ucast (ucast (drop_bit 32 w) :: u16) :: byte)"
    by (rule bit_word_eqI) (auto simp: bit_simps)
  ultimately show ?thesis
    by (simp add: to_be48_def to_be64_def to_be32_def to_be16_def)
qed

lemma from_be48:
  fixes w :: u64
  assumes "w < 2 ^ 48"
  shows "push_bit 32 (ucast (ucast (drop_bit 32 w) :: u16)) OR ucast (ucast w :: u32) = w"
proof (rule bit_word_eqI)
  fix n assume "n < LENGTH(64)"
  have "unat w < 2 ^ 48"
    using assms by (simp add: word_less_nat_alt)
  then have "unat (take_bit 48 w) = unat w"
    by (simp add: unsigned_take_bit_eq take_bit_nat_eq_self)
  then have "take_bit 48 w = w"
    by (simp only: unsigned_word_eqI)
  then have "bit w n \<Longrightarrow> n < 48"
    by (metis bit_take_bit_iff)
  then show "bit (push_bit 32 (ucast (ucast (drop_bit 32 w) :: u16)) OR ucast (ucast w :: u32) :: u64) n
      \<longleftrightarrow> bit w n"
    using \<open>n < LENGTH(64)\<close> by (auto simp: bit_simps)
qed

text \<open>Wider values, most significant byte first, by iteration over the bytes.\<close>

fun to_be :: "nat \<Rightarrow> 'a::len word \<Rightarrow> bytes" where
  "to_be 0 w = []"
| "to_be (Suc k) w = ucast (drop_bit (8 * k) w) # to_be k w"

definition from_be :: "bytes \<Rightarrow> 'a::len word" where
  "from_be bs = foldl (\<lambda>a b. push_bit 8 a OR ucast b) 0 bs"

lemma length_to_be_any [simp]: "length (to_be k w) = k"
  by (induction k) simp_all

lemma take_bit_8_Suc:
  "push_bit (8 * k) (take_bit 8 (drop_bit (8 * k) w)) OR take_bit (8 * k) w = take_bit (8 * Suc k) w"
  for w :: "'a::len word"
  by (rule bit_word_eqI) (auto simp: bit_simps)

lemma foldl_be:
  "foldl (\<lambda>a b. push_bit 8 a OR ucast b) (a :: 'a::len word) (to_be k (w :: 'a word)) =
     push_bit (8 * k) a OR take_bit (8 * k) w"
proof (induction k arbitrary: a)
  case (Suc k)
  have "ucast (ucast (drop_bit (8 * k) w) :: byte) = take_bit 8 (drop_bit (8 * k) w)"
    by (rule bit_word_eqI) (auto simp: bit_simps)
  then have "foldl (\<lambda>a b. push_bit 8 a OR ucast b) a (to_be (Suc k) w) =
      push_bit (8 * Suc k) a OR
      (push_bit (8 * k) (take_bit 8 (drop_bit (8 * k) w)) OR take_bit (8 * k) w)"
    using Suc [of "push_bit 8 a OR ucast (ucast (drop_bit (8 * k) w) :: byte)"]
    by (simp add: push_bit_or ac_simps)
  then show ?case
    by (simp only: take_bit_8_Suc)
qed simp

lemma from_be_to_be:
  "LENGTH('a) \<le> 8 * k \<Longrightarrow> from_be (to_be k w) = (w :: 'a::len word)"
  by (simp add: from_be_def foldl_be take_bit_word_eq_self)

section \<open>Casts\<close>

text \<open>\<open>x as u8\<close> and \<open>x as u16\<close> of a length keep it when it fits.\<close>

lemma unat_of_nat8: "n < 256 \<Longrightarrow> unat (word_of_nat n :: byte) = n"
  by (simp add: unat_of_nat take_bit_nat_eq_self_iff)

lemma unat_of_nat16: "n < 65536 \<Longrightarrow> unat (word_of_nat n :: u16) = n"
  by (simp add: unat_of_nat take_bit_nat_eq_self_iff)

lemma unat_lt_256 [simp]: "unat (b :: byte) < 256"
  using unsigned_less [of b] by simp

lemma unat_lt_65536 [simp]: "unat (w :: u16) < 65536"
  using unsigned_less [of w] by simp

section \<open>Lists\<close>

lemma length_filter_partition:
  "length (filter P xs) + length (filter (\<lambda>x. \<not> P x) xs) = length xs"
  by (induction xs) auto

text \<open>\<open>str::split\<close> on one separator: one more piece than there are separators.\<close>

fun split_on :: "'a \<Rightarrow> 'a list \<Rightarrow> 'a list list" where
  "split_on c [] = [[]]"
| "split_on c (x # xs) =
     (if x = c then [] # split_on c xs
      else (case split_on c xs of [] \<Rightarrow> [[x]] | y # ys \<Rightarrow> (x # y) # ys))"

lemma split_on_not_Nil [simp]: "split_on c xs \<noteq> []"
  by (cases xs) (auto split: list.splits)

lemma split_on_no_sep: "c \<notin> set xs \<Longrightarrow> split_on c xs = [xs]"
  by (induction xs) auto

lemma split_on_append:
  "c \<notin> set xs \<Longrightarrow> split_on c (xs @ c # ys) = xs # split_on c ys"
  by (induction xs) auto

lemma split_on_intersperse:
  assumes "xss \<noteq> []" and "\<forall>xs \<in> set xss. c \<notin> set xs"
  shows "split_on c (concat (map (\<lambda>xs. xs @ [c]) (butlast xss)) @ last xss) = xss"
  using assms
proof (induction xss)
  case (Cons xs xss)
  then show ?case
    by (cases xss) (auto simp: split_on_no_sep split_on_append)
qed simp

lemma split_on_elems: "ys \<in> set (split_on c xs) \<Longrightarrow> c \<notin> set ys \<and> set ys \<subseteq> set xs"
  by (induction xs arbitrary: ys) (auto split: if_splits list.splits, fastforce+)

text \<open>\<open>out[i..i + n].copy_from_slice(ys)\<close> for \<open>ys\<close> of length \<open>n\<close> inside the vector.\<close>

definition copy_from_slice :: "'a list \<Rightarrow> nat \<Rightarrow> 'a list \<Rightarrow> 'a list" where
  "copy_from_slice xs i ys = take i xs @ ys @ drop (i + length ys) xs"

lemma copy_from_slice_append:
  "length xs = length ys \<Longrightarrow> copy_from_slice (as @ xs @ bs) (length as) ys = as @ ys @ bs"
  by (simp add: copy_from_slice_def)

section \<open>Association lists\<close>

lemma map_of_update [simp]: "map_of (AList.update k v al) j = (if j = k then Some v else map_of al j)"
  by (simp add: update_conv')

lemma map_of_delete_if: "map_of (AList.delete k al) j = (if j = k then None else map_of al j)"
  by (simp add: delete_conv')

lemma distinct_filter_keys: "distinct (map fst recs) \<Longrightarrow> distinct (map fst (filter P recs))"
  by (induction recs) auto

lemma length_update:
  "length (AList.update k v al) = (if map_of al k = None then Suc (length al) else length al)"
  by (induction al) auto

lemma map_of_filter_distinct:
  "distinct (map fst al) \<Longrightarrow> map_of (filter P al) k = Some v \<Longrightarrow> map_of al k = Some v"
  by (metis (no_types, lifting) filter_is_subset map_of_SomeD map_of_eq_Some_iff subsetD)

section \<open>Chunks\<close>

text \<open>\<open>slice.chunks(n)\<close> for positive \<open>n\<close>.\<close>

fun chunks :: "nat \<Rightarrow> 'a list \<Rightarrow> 'a list list" where
  "chunks n xs = (if n = 0 \<or> xs = [] then [] else take n xs # chunks n (drop n xs))"

declare chunks.simps [simp del]

lemma chunks_Nil [simp]: "chunks n [] = []"
  by (simp add: chunks.simps)

lemma chunks_step: "0 < n \<Longrightarrow> xs \<noteq> [] \<Longrightarrow> chunks n xs = take n xs # chunks n (drop n xs)"
  by (subst chunks.simps) simp

lemma chunks_append: "0 < n \<Longrightarrow> length xs = n \<Longrightarrow> chunks n (xs @ ys) = xs # chunks n ys"
  by (subst chunks.simps) auto

lemma concat_chunks: "0 < n \<Longrightarrow> concat (chunks n xs) = xs"
  by (induction n xs rule: chunks.induct) (subst chunks.simps, auto)

lemma length_chunks: "0 < n \<Longrightarrow> ch \<in> set (chunks n xs) \<Longrightarrow> 0 < length ch \<and> length ch \<le> n"
  by (induction n xs rule: chunks.induct) (subst (asm) (2) chunks.simps, auto split: if_splits)

end
