(* ===== verification/Rust_Text.thy ===== *)
theory Rust_Text
  imports Prelude
begin

text \<open>
  The functions on strings and decimal numbers of the Rust standard library
  that the sources use.  A Rust string is modelled by its UTF-8 bytes, an
  Isabelle \<open>string\<close> (a list of 8-bit characters).
\<close>

definition as_bytes :: "string \<Rightarrow> bytes" where
  "as_bytes s = map of_char s"

definition strip_suffix :: "char \<Rightarrow> string \<Rightarrow> string option" where
  "strip_suffix c s = (if s \<noteq> [] \<and> last s = c then Some (butlast s) else None)"

fun strip_prefix :: "string \<Rightarrow> string \<Rightarrow> string option" where
  "strip_prefix [] s = Some s"
| "strip_prefix (c # cs) [] = None"
| "strip_prefix (c # cs) (d # ds) = (if c = d then strip_prefix cs ds else None)"

definition upper_char :: "char \<Rightarrow> char" where
  "upper_char c = (let n = of_char c :: nat in if 97 \<le> n \<and> n \<le> 122 then char_of (n - 32) else c)"

abbreviation to_ascii_uppercase :: "string \<Rightarrow> string" where
  "to_ascii_uppercase \<equiv> map upper_char"

definition lower_char :: "char \<Rightarrow> char" where
  "lower_char c = (let n = of_char c :: nat in if 65 \<le> n \<and> n \<le> 90 then char_of (n + 32) else c)"

definition digit_char :: "nat \<Rightarrow> char" where
  "digit_char d = char_of (48 + d)"

definition digit_val :: "char \<Rightarrow> nat option" where
  "digit_val c = (let n = of_char c :: nat in if 48 \<le> n \<and> n \<le> 57 then Some (n - 48) else None)"

text \<open>\<open>to_string\<close> and \<open>parse\<close> of an unsigned integer of maximum \<open>mx\<close>.\<close>

fun show_nat :: "nat \<Rightarrow> string" where
  "show_nat n = (if n < 10 then [digit_char n] else show_nat (n div 10) @ [digit_char (n mod 10)])"

fun parse_digits :: "nat \<Rightarrow> string \<Rightarrow> nat option" where
  "parse_digits acc [] = Some acc"
| "parse_digits acc (c # cs) =
     (case digit_val c of None \<Rightarrow> None | Some d \<Rightarrow> parse_digits (acc * 10 + d) cs)"

definition parse_uint :: "nat \<Rightarrow> string \<Rightarrow> nat option" where
  "parse_uint mx s =
     (let ds = (case s of c # cs \<Rightarrow> if c = CHR ''+'' then cs else s | [] \<Rightarrow> s) in
      if ds = [] then None
      else (case parse_digits 0 ds of Some v \<Rightarrow> if v \<le> mx then Some v else None | None \<Rightarrow> None))"

declare show_nat.simps [simp del]

lemma strip_suffix_snoc: "strip_suffix c (s @ [c]) = Some s"
  by (simp add: strip_suffix_def)

lemma strip_prefix_append [simp]: "strip_prefix p (p @ s) = Some s"
  by (induction p) simp_all

lemma of_char_digit: "d < 10 \<Longrightarrow> (of_char (digit_char d) :: nat) = 48 + d"
  by (simp add: digit_char_def)

lemma digit_val_digit_char: "d < 10 \<Longrightarrow> digit_val (digit_char d) = Some d"
  by (simp add: digit_val_def of_char_digit)

lemma upper_digit_char: "d < 10 \<Longrightarrow> upper_char (digit_char d) = digit_char d"
  by (simp add: upper_char_def of_char_digit)

lemma show_nat_not_Nil [simp]: "show_nat n \<noteq> []"
  by (subst show_nat.simps) simp

lemma upper_show_nat: "to_ascii_uppercase (show_nat n) = show_nat n"
  by (induction n rule: show_nat.induct) (subst (1 2) show_nat.simps, simp add: upper_digit_char)

lemma parse_digits_append:
  "parse_digits acc (s @ t) = (case parse_digits acc s of None \<Rightarrow> None | Some v \<Rightarrow> parse_digits v t)"
  by (induction s arbitrary: acc) (auto split: option.splits)

lemma parse_digits_show_nat: "parse_digits 0 (show_nat n) = Some n"
  by (induction n rule: show_nat.induct)
     (subst show_nat.simps, simp add: digit_val_digit_char parse_digits_append)

lemma hd_show_nat: "hd (show_nat n) \<noteq> CHR ''+''"
proof -
  have digit: "digit_char d \<noteq> CHR ''+''" if "d < 10" for d
    using of_char_digit [OF that] by auto
  show ?thesis
    by (induction n rule: show_nat.induct) (subst show_nat.simps, simp add: digit)
qed

lemma parse_uint_show_nat:
  assumes "n \<le> mx" shows "parse_uint mx (show_nat n) = Some n"
proof -
  obtain c cs where s: "show_nat n = c # cs" by (cases "show_nat n") auto
  then have "c \<noteq> CHR ''+''" using hd_show_nat [of n] by simp
  then have "parse_uint mx (show_nat n) =
      (case parse_digits 0 (show_nat n) of Some v \<Rightarrow> if v \<le> mx then Some v else None | None \<Rightarrow> None)"
    by (simp only: parse_uint_def s list.case Let_def if_False list.distinct)
  then show ?thesis using assms by (simp add: parse_digits_show_nat)
qed

lemma parse_uint_bound: "parse_uint mx s = Some n \<Longrightarrow> n \<le> mx"
  by (auto simp: parse_uint_def Let_def split: option.splits if_splits)

lemma unat_of_char: "unat (of_char c :: byte) = of_char c"
proof -
  have "unat (of_char c :: byte) = unat (of_nat (of_char c) :: byte)" by (simp only: of_nat_of_char)
  also have "\<dots> = take_bit 8 (of_char c)" by (simp only: unat_of_nat take_bit_eq_mod) simp
  also have "\<dots> = (of_char c :: nat)" by (simp add: take_bit_eq_mod)
  finally show ?thesis .
qed

lemma as_byte_inj: "(of_char c :: byte) = of_char d \<longleftrightarrow> c = d"
  using unat_of_char [of c] unat_of_char [of d] by (metis of_char_eq_iff)

end
