(* ===== verification/Dns_Name.thy ===== *)
theory Dns_Name
  imports Rust_Text
begin

text \<open>
  Domain names (\<open>dns-proto/src/name.rs\<close>).  A \<open>DnsName\<close> is its private vector
  of labels.  The wire decoder \<open>from_wire\<close> follows compression pointers with
  the three guards of the source (backward targets, at most 64 jumps, at most
  255 octets); the encoder \<open>to_wire\<close> emits a pointer for the longest suffix
  its compressor knows.  The relation \<open>name_at\<close> is the RFC 1035 grammar, with
  the jumps counted; decoder and encoder are both related to it.
\<close>

section \<open>Data\<close>

abbreviation (input) MAX_NAME_WIRE_LEN :: nat where "MAX_NAME_WIRE_LEN \<equiv> 255"
abbreviation (input) MAX_LABEL_LEN :: nat where "MAX_LABEL_LEN \<equiv> 63"
abbreviation (input) MAX_POINTER_JUMPS :: nat where "MAX_POINTER_JUMPS \<equiv> 64"

type_synonym label = bytes
type_synonym dns_name = "label list"

datatype name_error = EmptyLabel | LabelTooLong | NameTooLong

datatype wire_error = Truncated | BadLabel | WireNameTooLong | CompressionLoop | BadRdata

text \<open>The compressor maps label suffixes to the offset they were written at.\<close>

type_synonym compressor = "dns_name \<Rightarrow> u16 option"

abbreviation new_compressor :: compressor where "new_compressor \<equiv> (\<lambda>_. None)"

section \<open>Operations\<close>

definition to_lower :: "byte \<Rightarrow> byte" where
  "to_lower b = (if 0x41 \<le> b \<and> b \<le> 0x5A then b + 0x20 else b)"

abbreviation to_ascii_lowercase :: "bytes \<Rightarrow> bytes" where
  "to_ascii_lowercase \<equiv> map to_lower"

definition root :: dns_name where
  "root = []"

definition is_root :: "dns_name \<Rightarrow> bool" where
  "is_root n = (n = [])"

definition parent :: "dns_name \<Rightarrow> dns_name option" where
  "parent n = (case n of [] \<Rightarrow> None | _ # ls \<Rightarrow> Some ls)"

definition label_count :: "dns_name \<Rightarrow> nat" where
  "label_count n = length n"

definition wire_len :: "dns_name \<Rightarrow> nat" where
  "wire_len n = sum_list (map (\<lambda>l. length l + 1) n) + 1"

fun validate_labels :: "label list \<Rightarrow> name_error + unit" where
  "validate_labels [] = Inr ()"
| "validate_labels (l # ls) =
     (if l = [] then Inl EmptyLabel
      else if length l > MAX_LABEL_LEN then Inl LabelTooLong
      else validate_labels ls)"

definition validate :: "dns_name \<Rightarrow> name_error + unit" where
  "validate n = and_then (validate_labels n)
     (\<lambda>_. if wire_len n > MAX_NAME_WIRE_LEN then Inl NameTooLong else Inr ())"

definition from_labels :: "label list \<Rightarrow> name_error + dns_name" where
  "from_labels ls = and_then (validate ls) (\<lambda>_. Inr ls)"

definition parse_str :: "string \<Rightarrow> name_error + dns_name" where
  "parse_str s0 =
     (let s = (case strip_suffix (CHR ''.'') s0 of Some t \<Rightarrow> t | None \<Rightarrow> s0) in
      if s = [] then Inr root
      else from_labels (map (\<lambda>l. to_ascii_lowercase (as_bytes l)) (split_on (CHR ''.'') s)))"

definition concat_name :: "dns_name \<Rightarrow> dns_name \<Rightarrow> name_error + dns_name" where
  "concat_name n suffix = from_labels (n @ suffix)"

definition ends_with :: "dns_name \<Rightarrow> dns_name \<Rightarrow> bool" where
  "ends_with n suffix =
     (let k = length suffix in length n \<ge> k \<and> drop (length n - k) n = suffix)"

definition star_label :: label where
  "star_label = as_bytes ''*''"

definition wildcard_at :: "dns_name \<Rightarrow> nat \<Rightarrow> dns_name option" where
  "wildcard_at n skip =
     (if skip = 0 \<or> skip > length n then None else Some (star_label # drop skip n))"

function from_wire_loop ::
  "bytes \<Rightarrow> nat \<Rightarrow> label list \<Rightarrow> nat option \<Rightarrow> nat \<Rightarrow> nat \<Rightarrow> wire_error + (dns_name \<times> nat)" where
  "from_wire_loop buf cur labels end_of_name jumps wlen =
     (case get_at buf cur of
        None \<Rightarrow> Inl Truncated
      | Some b \<Rightarrow>
          let len = unat b in
          if len = 0 then Inr (labels, case end_of_name of Some e \<Rightarrow> e | None \<Rightarrow> cur + 1)
          else if len AND 0xC0 = 0xC0 then
            (case get_at buf (cur + 1) of
               None \<Rightarrow> Inl Truncated
             | Some b2 \<Rightarrow>
                 let target = push_bit 8 (len AND 0x3F) OR unat b2;
                     eon = (case end_of_name of None \<Rightarrow> Some (cur + 2) | Some e \<Rightarrow> Some e) in
                 if target \<ge> cur then Inl CompressionLoop
                 else if jumps + 1 > MAX_POINTER_JUMPS then Inl CompressionLoop
                 else from_wire_loop buf target labels eon (jumps + 1) wlen)
          else if len \<le> MAX_LABEL_LEN then
            (case get_range buf (cur + 1) (cur + 1 + len) of
               None \<Rightarrow> Inl Truncated
             | Some l \<Rightarrow>
                 if wlen + (len + 1) > MAX_NAME_WIRE_LEN then Inl WireNameTooLong
                 else from_wire_loop buf (cur + 1 + len) (labels @ [to_ascii_lowercase l])
                        end_of_name jumps (wlen + (len + 1)))
          else Inl BadLabel)"
  by pat_completeness auto

termination from_wire_loop
  by (relation "measures [\<lambda>(buf, cur, ls, e, jumps, w). 65 - jumps,
                          \<lambda>(buf, cur, ls, e, jumps, w). length buf - cur]")
     (auto simp: get_at_Some_iff)

definition from_wire :: "bytes \<Rightarrow> nat \<Rightarrow> wire_error + (dns_name \<times> nat)" where
  "from_wire buf pos = from_wire_loop buf pos [] None 0 1"

fun to_wire :: "dns_name \<Rightarrow> bytes \<Rightarrow> compressor option \<Rightarrow> bytes \<times> compressor option" where
  "to_wire [] out c = (out @ [0], c)"
| "to_wire (l # ls) out None =
     to_wire ls (out @ word_of_nat (length l) # l) None"
| "to_wire (l # ls) out (Some c) =
     (case c (l # ls) of
        Some off \<Rightarrow> (out @ to_be16 (0xC000 OR off), Some c)
      | None \<Rightarrow>
          let c' = (if length out \<le> 0x3FFF then c (l # ls \<mapsto> word_of_nat (length out)) else c) in
          to_wire ls (out @ word_of_nat (length l) # l) (Some c'))"

text \<open>\<open>Display\<close>: decimal escapes for bytes that are not printable, and \<open>\.\<close> for a dot.\<close>

definition display_byte :: "byte \<Rightarrow> string" where
  "display_byte b =
     (if b = 0x2E then [CHR 0x5C, CHR ''.'']
      else if 0x21 \<le> b \<and> b \<le> 0x7E then [char_of (unat b)]
      else [CHR 0x5C, digit_char (unat b div 100), digit_char (unat b div 10 mod 10),
            digit_char (unat b mod 10)])"

definition display_name :: "dns_name \<Rightarrow> string" where
  "display_name n =
     (if n = [] then ''.'' else concat (map (\<lambda>l. concat (map display_byte l) @ ''.'') n))"

section \<open>Well-formed names\<close>

definition lower_label :: "label \<Rightarrow> bool" where
  "lower_label l \<longleftrightarrow> to_ascii_lowercase l = l"

definition wf_label :: "label \<Rightarrow> bool" where
  "wf_label l \<longleftrightarrow> l \<noteq> [] \<and> length l \<le> MAX_LABEL_LEN \<and> lower_label l"

definition wf_name :: "dns_name \<Rightarrow> bool" where
  "wf_name n \<longleftrightarrow> list_all wf_label n \<and> wire_len n \<le> MAX_NAME_WIRE_LEN"

lemma to_lower_idem [simp]: "to_lower (to_lower b) = to_lower b"
proof (cases "0x41 \<le> b \<and> b \<le> 0x5A")
  case True
  then have "unat b + unat (0x20 :: byte) < 2 ^ LENGTH(8)"
    by (simp add: word_le_nat_alt)
  then have "unat (b + 0x20) = unat b + 0x20"
    by (simp add: unat_word_ariths)
  then have "\<not> b + 0x20 \<le> 0x5A"
    using True by (simp add: word_le_nat_alt)
  then show ?thesis
    using True by (simp add: to_lower_def)
qed (simp add: to_lower_def)

lemma lower_label_to_lower [simp]: "lower_label (to_ascii_lowercase l)"
  by (simp add: lower_label_def)

lemma wire_len_simps [simp]:
  "wire_len [] = 1" "wire_len (l # n) = length l + 1 + wire_len n"
  by (simp_all add: wire_len_def)

lemma wire_len_append: "wire_len (n @ m) + 1 = wire_len n + wire_len m"
  by (induction n) auto

lemma validate_labels_ok_iff:
  "validate_labels ls = Inr () \<longleftrightarrow> (\<forall>l \<in> set ls. l \<noteq> [] \<and> length l \<le> MAX_LABEL_LEN)"
  by (induction ls) auto

lemma from_labels_ok_iff:
  "from_labels ls = Inr n \<longleftrightarrow>
     n = ls \<and> (\<forall>l \<in> set ls. l \<noteq> [] \<and> length l \<le> MAX_LABEL_LEN) \<and> wire_len ls \<le> MAX_NAME_WIRE_LEN"
  by (auto simp: from_labels_def validate_def and_then_eq_Inr_iff validate_labels_ok_iff)

lemma wf_name_from_labels: "wf_name n \<Longrightarrow> from_labels n = Inr n"
  by (auto simp: from_labels_ok_iff wf_name_def list_all_iff wf_label_def)

lemma wf_name_label_count:
  assumes "wf_name n" shows "2 * length n + 1 \<le> MAX_NAME_WIRE_LEN"
proof -
  have "list_all wf_label n \<Longrightarrow> 2 * length n + 1 \<le> wire_len n"
  proof (induction n)
    case (Cons l n)
    then have "1 \<le> length l" by (cases l) (simp_all add: wf_label_def)
    with Cons show ?case by simp
  qed simp
  then show ?thesis
    using assms by (simp add: wf_name_def)
qed

lemma wf_name_suffix: "wf_name (m @ n) \<Longrightarrow> wf_name n"
  using wire_len_append [of m n] by (auto simp: wf_name_def wire_len_def)

lemma wf_name_Cons: "wf_name (l # n) \<Longrightarrow> wf_name n"
  using wf_name_suffix [of "[l]" n] by simp

lemma wf_root [simp]: "wf_name []"
  by (simp add: wf_name_def)

section \<open>Suffixes\<close>

lemma ends_with_iff: "ends_with n suffix \<longleftrightarrow> (\<exists>pre. n = pre @ suffix)"
  by (auto simp: ends_with_def Let_def) (metis append_take_drop_id)

lemma ends_with_refl [simp]: "ends_with n n"
  by (simp add: ends_with_iff)

lemma ends_with_trans: "ends_with a b \<Longrightarrow> ends_with b c \<Longrightarrow> ends_with a c"
  by (auto simp: ends_with_iff)

lemma ends_with_antisym: "ends_with a b \<Longrightarrow> ends_with b a \<Longrightarrow> a = b"
  by (auto simp: ends_with_iff)

section \<open>The wire grammar\<close>

text \<open>
  \<open>name_at buf p n j e\<close>: at offset \<open>p\<close> the buffer holds an encoding of the
  name \<open>n\<close> that follows \<open>j\<close> compression pointers and whose local part ends at
  \<open>e\<close>.
\<close>

abbreviation pointer_target :: "byte \<Rightarrow> byte \<Rightarrow> nat" where
  "pointer_target h b2 \<equiv> push_bit 8 (unat h AND 0x3F) OR unat b2"

inductive name_at :: "bytes \<Rightarrow> nat \<Rightarrow> dns_name \<Rightarrow> nat \<Rightarrow> nat \<Rightarrow> bool" for buf :: bytes where
  root: "has_at buf p [0] \<Longrightarrow> name_at buf p [] 0 (p + 1)"
| label: "has_at buf p (h # raw) \<Longrightarrow> unat h = length raw \<Longrightarrow> raw \<noteq> [] \<Longrightarrow>
    length raw \<le> MAX_LABEL_LEN \<Longrightarrow> name_at buf (p + 1 + length raw) n j e \<Longrightarrow>
    name_at buf p (to_ascii_lowercase raw # n) j e"
| pointer: "has_at buf p [h, b2] \<Longrightarrow> unat h AND 0xC0 = 0xC0 \<Longrightarrow>
    pointer_target h b2 < p \<Longrightarrow> name_at buf (pointer_target h b2) n j e' \<Longrightarrow>
    name_at buf p n (Suc j) (p + 2)"

lemma label_len_not_pointer:
  fixes k :: nat assumes "k < 128" shows "k AND 0xC0 \<noteq> 0xC0"
proof
  assume "k AND 0xC0 = 0xC0"
  then have "bit (k AND 0xC0) 7" by (simp add: bit_iff_odd)
  then have "bit k 7" by (simp add: bit_and_iff)
  then show False using assms by (simp add: bit_iff_odd)
qed

lemma name_at_in_buf: "name_at buf p n j e \<Longrightarrow> p < length buf"
  by (cases rule: name_at.cases) (auto simp: has_at_Cons)

lemma name_at_root_iff:
  assumes "p < length buf" "unat (buf ! p) = 0"
  shows "name_at buf p n j e \<longleftrightarrow> n = [] \<and> j = 0 \<and> e = p + 1"
  using assms by (subst name_at.simps) (auto simp: has_at_Cons unat_eq_0)

lemma name_at_pointer_iff:
  assumes "p < length buf" "unat (buf ! p) AND 0xC0 = 0xC0"
  shows "name_at buf p n j e \<longleftrightarrow> p + 1 < length buf \<and> pointer_target (buf ! p) (buf ! (p + 1)) < p \<and>
    e = p + 2 \<and> (\<exists>j' e'. j = Suc j' \<and> name_at buf (pointer_target (buf ! p) (buf ! (p + 1))) n j' e')"
proof -
  have "unat (buf ! p) \<ge> 128"
    using assms(2) label_len_not_pointer not_less by blast
  then show ?thesis
    using assms by (subst name_at.simps) (auto simp: has_at_Cons)
qed

lemma name_at_label_iff:
  assumes "p < length buf" "0 < unat (buf ! p)" "unat (buf ! p) \<le> MAX_LABEL_LEN"
  shows "name_at buf p n j e \<longleftrightarrow> p + 1 + unat (buf ! p) \<le> length buf \<and>
    (\<exists>n'. n = to_ascii_lowercase (take (unat (buf ! p)) (drop (p + 1) buf)) # n' \<and>
          name_at buf (p + 1 + unat (buf ! p)) n' j e)"
    (is "_ \<longleftrightarrow> ?R")
proof
  assume "name_at buf p n j e"
  then show ?R
    using assms label_len_not_pointer [of "unat (buf ! p)"]
    by (cases rule: name_at.cases) (auto simp: has_at_Cons, auto simp: has_at_def)
next
  let ?raw = "take (unat (buf ! p)) (drop (p + 1) buf)"
  assume R: ?R
  then have len: "length ?raw = unat (buf ! p)" by auto
  moreover have "has_at buf p (buf ! p # ?raw)"
    using assms R len by (simp add: has_at_Cons) (simp add: has_at_def)
  moreover have "?raw \<noteq> []"
    using assms(2) len by (metis list.size(3) less_numeral_extra(3))
  ultimately show "name_at buf p n j e"
    using name_at.label [of buf p "buf ! p" ?raw] assms(3) R by auto
qed

lemma name_at_bad_label:
  assumes "p < length buf" "MAX_LABEL_LEN < unat (buf ! p)" "unat (buf ! p) AND 0xC0 \<noteq> 0xC0"
  shows "\<not> name_at buf p n j e"
  using assms by (subst name_at.simps) (auto simp: has_at_Cons)

lemmas name_at_iffs = name_at_root_iff name_at_pointer_iff name_at_label_iff name_at_bad_label

text \<open>The decoding loop accepts exactly the grammar within its two budgets.\<close>

declare from_wire_loop.simps [simp del]

lemma from_wire_loop_pointer:
  assumes "cur < length buf" "unat (buf ! cur) AND 0xC0 = 0xC0"
  shows "from_wire_loop buf cur labels eon jumps wlen =
    (if cur + 1 < length buf then
       if pointer_target (buf ! cur) (buf ! (cur + 1)) \<ge> cur then Inl CompressionLoop
       else if jumps + 1 > MAX_POINTER_JUMPS then Inl CompressionLoop
       else from_wire_loop buf (pointer_target (buf ! cur) (buf ! (cur + 1))) labels
              (case eon of None \<Rightarrow> Some (cur + 2) | Some e \<Rightarrow> Some e) (jumps + 1) wlen
     else Inl Truncated)"
proof -
  have "unat (buf ! cur) \<noteq> 0"
    using assms(2) by (metis zero_neq_numeral and_zero_eq and.commute)
  then show ?thesis
    using assms by (subst from_wire_loop.simps)
      (simp only: get_at_def option.case Let_def if_True if_False split: if_splits, simp)
qed

lemma from_wire_loop_label:
  assumes "cur < length buf" "0 < unat (buf ! cur)" "unat (buf ! cur) \<le> MAX_LABEL_LEN"
  shows "from_wire_loop buf cur labels eon jumps wlen =
    (if cur + 1 + unat (buf ! cur) \<le> length buf then
       if wlen + (unat (buf ! cur) + 1) > MAX_NAME_WIRE_LEN then Inl WireNameTooLong
       else from_wire_loop buf (cur + 1 + unat (buf ! cur))
              (labels @ [to_ascii_lowercase (take (unat (buf ! cur)) (drop (cur + 1) buf))])
              eon jumps (wlen + (unat (buf ! cur) + 1))
     else Inl Truncated)"
  using assms label_len_not_pointer [of "unat (buf ! cur)"]
  by (subst from_wire_loop.simps) (simp add: get_at_def get_range_def Let_def)

lemma name_at_ex_pointer:
  assumes "cur + 1 < length buf" "unat (buf ! cur) AND 0xC0 = 0xC0"
    "pointer_target (buf ! cur) (buf ! (cur + 1)) < cur"
  shows "(\<exists>n j e. name_at buf cur n j e \<and> R n j e) \<longleftrightarrow>
    (\<exists>n j e. name_at buf (pointer_target (buf ! cur) (buf ! (cur + 1))) n j e \<and> R n (Suc j) (cur + 2))"
proof -
  have "cur < length buf" using assms(1) by simp
  from name_at_pointer_iff [OF this assms(2)] show ?thesis
    using assms(1,3) by metis
qed

lemma name_at_ex_label:
  assumes "cur + 1 + unat (buf ! cur) \<le> length buf" "0 < unat (buf ! cur)"
    "unat (buf ! cur) \<le> MAX_LABEL_LEN"
  shows "(\<exists>n j e. name_at buf cur n j e \<and> R n j e) \<longleftrightarrow>
    (\<exists>n j e. name_at buf (cur + 1 + unat (buf ! cur)) n j e \<and>
       R (to_ascii_lowercase (take (unat (buf ! cur)) (drop (cur + 1) buf)) # n) j e)"
proof -
  have "cur < length buf" using assms(1) by simp
  from name_at_label_iff [OF this assms(2,3)] show ?thesis
    using assms(1) by metis
qed

abbreviation decodes_within ::
  "bytes \<Rightarrow> nat \<Rightarrow> label list \<Rightarrow> nat option \<Rightarrow> nat \<Rightarrow> nat \<Rightarrow> dns_name \<Rightarrow> nat \<Rightarrow> bool" where
  "decodes_within buf cur labels eon jumps wlen ls pos \<equiv>
    (\<exists>n j e. name_at buf cur n j e \<and> jumps + j \<le> MAX_POINTER_JUMPS \<and>
       wlen + wire_len n \<le> MAX_NAME_WIRE_LEN + 1 \<and> ls = labels @ n \<and>
       pos = (case eon of Some x \<Rightarrow> x | None \<Rightarrow> e))"

lemma decodes_within_pointer:
  assumes "cur + 1 < length buf" "unat (buf ! cur) AND 0xC0 = 0xC0"
    "pointer_target (buf ! cur) (buf ! (cur + 1)) < cur"
  shows "decodes_within buf cur labels eon jumps wlen ls pos \<longleftrightarrow>
    decodes_within buf (pointer_target (buf ! cur) (buf ! (cur + 1))) labels
      (case eon of None \<Rightarrow> Some (cur + 2) | Some e \<Rightarrow> Some e) (jumps + 1) wlen ls pos"
  unfolding name_at_ex_pointer [OF assms] by (cases eon) simp_all

lemma decodes_within_label:
  assumes "cur + 1 + unat (buf ! cur) \<le> length buf" "0 < unat (buf ! cur)"
    "unat (buf ! cur) \<le> MAX_LABEL_LEN"
  shows "decodes_within buf cur labels eon jumps wlen ls pos \<longleftrightarrow>
    decodes_within buf (cur + 1 + unat (buf ! cur))
      (labels @ [to_ascii_lowercase (take (unat (buf ! cur)) (drop (cur + 1) buf))])
      eon jumps (wlen + (unat (buf ! cur) + 1)) ls pos"
proof -
  have "length (take (unat (buf ! cur)) (drop (cur + 1) buf)) = unat (buf ! cur)"
    using assms(1) by auto
  then show ?thesis
    unfolding name_at_ex_label [OF assms] by (simp add: add.assoc)
qed

lemma from_wire_loop_iff:
  assumes "jumps \<le> MAX_POINTER_JUMPS" "wlen \<le> MAX_NAME_WIRE_LEN"
  shows "from_wire_loop buf cur labels eon jumps wlen = Inr (ls, pos) \<longleftrightarrow>
    decodes_within buf cur labels eon jumps wlen ls pos"
  using assms
proof (induction buf cur labels eon jumps wlen rule: from_wire_loop.induct)
  case (1 buf cur labels eon jumps wlen)
  let ?len = "unat (buf ! cur)"
  show ?case
  proof (cases "cur < length buf")
    case False
    then show ?thesis
      by (subst from_wire_loop.simps) (auto simp: get_at_def dest: name_at_in_buf)
  next
    case True
    then have get: "get_at buf cur = Some (buf ! cur)"
      by (simp add: get_at_def)
    consider "?len = 0" | "?len AND 0xC0 = 0xC0" "?len \<noteq> 0"
      | "0 < ?len" "?len \<le> MAX_LABEL_LEN" | "MAX_LABEL_LEN < ?len" "?len AND 0xC0 \<noteq> 0xC0"
      by fastforce
    then show ?thesis
    proof cases
      case 1
      then show ?thesis
        using True "1.prems"
        by (subst from_wire_loop.simps) (auto simp: get name_at_iffs split: option.splits)
    next
      case 2
      show ?thesis
      proof (cases "cur + 1 < length buf \<and> pointer_target (buf ! cur) (buf ! (cur + 1)) < cur \<and>
          jumps + 1 \<le> MAX_POINTER_JUMPS")
        case go: True
        then have b2: "get_at buf (cur + 1) = Some (buf ! (cur + 1))"
          by (simp add: get_at_def)
        from go have ok: "cur + 1 < length buf" "pointer_target (buf ! cur) (buf ! (cur + 1)) < cur"
            "\<not> cur \<le> pointer_target (buf ! cur) (buf ! (cur + 1))"
            "jumps + 1 \<le> MAX_POINTER_JUMPS" "\<not> MAX_POINTER_JUMPS < jumps + 1"
          by (simp_all only: not_le not_less)
        show ?thesis
          unfolding from_wire_loop_pointer [OF True 2(1)] decodes_within_pointer [OF ok(1) 2(1) ok(2)]
          using "1.IH"(1) [OF get refl 2(2,1) b2 refl refl ok(3,5,4) "1.prems"(2)] ok
          by (simp only: if_True if_False)
      next
        case False
        then show ?thesis
          unfolding from_wire_loop_pointer [OF True 2(1)] name_at_pointer_iff [OF True 2(1)]
          by auto
      qed
    next
      case 3
      show ?thesis
      proof (cases "cur + 1 + ?len \<le> length buf \<and> wlen + (?len + 1) \<le> MAX_NAME_WIRE_LEN")
        case go: True
        then have l: "get_range buf (cur + 1) (cur + 1 + ?len) = Some (take ?len (drop (cur + 1) buf))"
          by (simp add: get_range_def)
        have np: "?len AND 0xC0 \<noteq> 0xC0"
          using 3(2) by (simp add: label_len_not_pointer)
        from go 3 have ok: "cur + 1 + ?len \<le> length buf" "\<not> MAX_NAME_WIRE_LEN < wlen + (?len + 1)"
            "wlen + (?len + 1) \<le> MAX_NAME_WIRE_LEN" "?len \<noteq> 0"
          by (simp_all only: not_less neq0_conv)
        show ?thesis
          unfolding from_wire_loop_label [OF True 3] decodes_within_label [OF ok(1) 3]
          using "1.IH"(2) [OF get refl ok(4) np 3(2) l ok(2) "1.prems"(1) ok(3)] ok
          by (simp only: if_True if_False)
      next
        case False
        then show ?thesis
          unfolding from_wire_loop_label [OF True 3] name_at_label_iff [OF True 3]
          by (auto simp: Suc_le_eq wire_len_def)
      qed
    next
      case 4
      then show ?thesis
        using True by (subst from_wire_loop.simps) (auto simp: get name_at_iffs)
    qed
  qed
qed

section \<open>What the decoder guarantees\<close>

lemma name_at_wf: "name_at buf p n j e \<Longrightarrow> list_all wf_label n"
  by (induction rule: name_at.induct) (auto simp: wf_label_def)

lemma name_at_progress: "name_at buf p n j e \<Longrightarrow> p < e \<and> e \<le> length buf"
  by (induction rule: name_at.induct) (auto simp: has_at_def)

lemma from_wire_iff:
  "from_wire buf p = Inr (n, e) \<longleftrightarrow>
     (\<exists>j \<le> MAX_POINTER_JUMPS. name_at buf p n j e) \<and> wire_len n \<le> MAX_NAME_WIRE_LEN"
  by (auto simp: from_wire_def from_wire_loop_iff)

lemma from_wire_wf: "from_wire buf p = Inr (n, e) \<Longrightarrow> wf_name n \<and> p < e \<and> e \<le> length buf"
  by (auto simp: from_wire_iff wf_name_def dest: name_at_wf name_at_progress)

section \<open>The encoder\<close>

text \<open>
  \<open>to_wire\<close> only looks at the length of the buffer it appends to, so what it
  appends is a function of that length: \<open>name_bytes\<close> gives it.
\<close>

fun name_bytes :: "dns_name \<Rightarrow> nat \<Rightarrow> compressor option \<Rightarrow> bytes \<times> compressor option" where
  "name_bytes [] p c = ([0], c)"
| "name_bytes (l # ls) p c =
     (case c of
        None \<Rightarrow> apfst (append (word_of_nat (length l) # l)) (name_bytes ls (p + 1 + length l) None)
      | Some m \<Rightarrow>
          (case m (l # ls) of
             Some off \<Rightarrow> (to_be16 (0xC000 OR off), Some m)
           | None \<Rightarrow>
               apfst (append (word_of_nat (length l) # l))
                 (name_bytes ls (p + 1 + length l)
                    (Some (if p \<le> 0x3FFF then m (l # ls \<mapsto> word_of_nat p) else m)))))"

lemma to_wire_bytes:
  "to_wire n out c = apfst (append out) (name_bytes n (length out) c)"
  by (induction n out c rule: to_wire.induct)
     (auto simp: Let_def prod_eq_iff split: option.splits)

lemma to_wire_None:
  "to_wire n out None = (out @ concat (map (\<lambda>l. word_of_nat (length l) # l) n) @ [0], None)"
  by (induction n arbitrary: out) simp_all

lemma wire_len_encoded:
  "length (concat (map (\<lambda>l. (word_of_nat (length l) :: byte) # l) n)) + 1 = wire_len n"
  by (induction n) simp_all

text \<open>A pointer written for an offset below \<open>2 ^ 14\<close> is read back as that offset.\<close>

lemma pointer_bytes:
  assumes "unat off \<le> 0x3FFF"
  shows "\<exists>h b2. to_be16 (0xC000 OR off) = [h, b2] \<and> unat h AND 0xC0 = 0xC0 \<and>
    pointer_target h b2 = unat off"
proof -
  let ?h = "ucast (drop_bit 8 (0xC000 OR off)) :: byte" and ?b = "ucast (0xC000 OR off) :: byte"
  have "take_bit 14 (unat off) = unat off"
    using assms by (simp add: take_bit_nat_eq_self)
  then have "bit (unat off) k \<Longrightarrow> k < 14" for k
    by (metis bit_take_bit_iff)
  then have high: "bit off k \<Longrightarrow> k < 14" for k
    using bit_imp_le_length [of off k] by (simp add: bit_unsigned_iff)
  have masks: "(0xC000 :: u16) = push_bit 14 (mask 2)" "(0xC0 :: nat) = push_bit 6 (mask 2)"
      "(0x3F :: nat) = mask 6"
    by (simp_all add: mask_eq_exp_minus_1)
  have "unat ?h AND 0xC0 = 0xC0"
    unfolding masks by (rule bit_eqI) (auto simp: bit_simps)
  moreover have "pointer_target ?h ?b = unat off"
    unfolding masks by (rule bit_eqI) (auto simp: bit_simps dest: high)
  ultimately show ?thesis
    by (auto simp: to_be16_def)
qed

text \<open>
  The compressor invariant, over the buffer that is finally read: a registered
  suffix is not the root, lies before the write position within pointer range,
  and decodes from there with fewer jumps than it has labels (its first label
  is written out).
\<close>

definition entry_ok :: "bytes \<Rightarrow> nat \<Rightarrow> dns_name \<Rightarrow> u16 \<Rightarrow> bool" where
  "entry_ok buf p s off \<longleftrightarrow> unat off < p \<and> unat off \<le> 0x3FFF \<and>
     (\<exists>j e. j < length s \<and> name_at buf (unat off) s j e)"

definition comp_ok :: "bytes \<Rightarrow> nat \<Rightarrow> compressor option \<Rightarrow> bool" where
  "comp_ok buf p c \<longleftrightarrow>
     (case c of None \<Rightarrow> True | Some m \<Rightarrow> \<forall>s off. m s = Some off \<longrightarrow> entry_ok buf p s off)"

lemma entry_ok_mono: "entry_ok buf p s off \<Longrightarrow> p \<le> q \<Longrightarrow> entry_ok buf q s off"
  by (auto simp: entry_ok_def)

lemma comp_ok_mono: "comp_ok buf p c \<Longrightarrow> p \<le> q \<Longrightarrow> comp_ok buf q c"
  by (auto simp: comp_ok_def split: option.splits intro: entry_ok_mono)

lemma comp_ok_new [simp]: "comp_ok buf p (Some new_compressor)" "comp_ok buf p None"
  by (simp_all add: comp_ok_def)

lemma name_at_written_label:
  assumes "has_at buf p (word_of_nat (length l) # l)" "wf_label l"
    "name_at buf (p + 1 + length l) n j e"
  shows "name_at buf p (l # n) j e"
  using name_at.label [OF assms(1) _ _ _ assms(3)] assms(2)
  by (auto simp: wf_label_def lower_label_def unat_of_nat8)

lemma name_at_written_pointer:
  assumes "has_at buf p (to_be16 (0xC000 OR off))" "entry_ok buf p n off"
  shows "\<exists>j \<le> length n. name_at buf p n j (p + 2)"
proof -
  from assms(2) obtain j e where off: "unat off < p" "unat off \<le> 0x3FFF"
    and j: "j < length n" "name_at buf (unat off) n j e"
    by (auto simp: entry_ok_def)
  from pointer_bytes [OF off(2)] obtain h b2 where "to_be16 (0xC000 OR off) = [h, b2]"
    "unat h AND 0xC0 = 0xC0" "pointer_target h b2 = unat off" by blast
  then have "name_at buf p n (Suc j) (p + 2)"
    using assms(1) off(1) j(2) name_at.pointer [of buf p h b2] by simp
  then show ?thesis using j(1) Suc_le_eq by blast
qed

lemma name_bytes_None_at:
  assumes "has_at buf p (fst (name_bytes n p None))" "list_all wf_label n"
  shows "name_at buf p n 0 (p + length (fst (name_bytes n p None)))"
  using assms
proof (induction n arbitrary: p)
  case Nil
  then show ?case using name_at.root [of buf p] by simp
next
  case (Cons l n)
  then have "name_at buf (p + 1 + length l) n 0
      (p + 1 + length l + length (fst (name_bytes n (p + 1 + length l) None)))"
    using Cons.IH [of "p + 1 + length l"] by (simp add: has_at_Cons)
  then show ?case
    using name_at_written_label [of buf p l n] Cons.prems
    by (simp add: has_at_Cons add.assoc)
qed

text \<open>Encoding with a compressor: the name is there, and the new entries are good.\<close>

lemma name_bytes_Some_at:
  assumes "has_at buf p (fst (name_bytes n p (Some m)))" "list_all wf_label n"
    and "\<And>s off. length s \<le> length n \<Longrightarrow> m s = Some off \<Longrightarrow> entry_ok buf p s off"
  defines "q \<equiv> p + length (fst (name_bytes n p (Some m)))"
  shows "(\<exists>j \<le> length n. name_at buf p n j q) \<and>
    (\<exists>m'. snd (name_bytes n p (Some m)) = Some m' \<and>
       (\<forall>s off. m' s = Some off \<longrightarrow> m s = Some off \<or> entry_ok buf q s off))"
  using assms(1-3) unfolding q_def
proof (induction n arbitrary: p m)
  case Nil
  then show ?case using name_at.root [of buf p] by auto
next
  case (Cons l n)
  show ?case
  proof (cases "m (l # n)")
    case (Some off)
    with Cons.prems show ?thesis
      using name_at_written_pointer [of buf p off "l # n"] by auto
  next
    case None
    let ?m = "if p \<le> 0x3FFF then m (l # n \<mapsto> word_of_nat p) else m"
    let ?r = "name_bytes n (p + 1 + length l) (Some ?m)"
    let ?q = "p + 1 + length l + length (fst ?r)"
    have at: "has_at buf p (word_of_nat (length l) # l)" "has_at buf (p + 1 + length l) (fst ?r)"
      using Cons.prems(1) None by (simp_all add: has_at_Cons)
    have "(\<exists>j \<le> length n. name_at buf (p + 1 + length l) n j ?q) \<and>
        (\<exists>m'. snd ?r = Some m' \<and>
          (\<forall>s off. m' s = Some off \<longrightarrow> ?m s = Some off \<or> entry_ok buf ?q s off))"
    proof (rule Cons.IH [OF at(2)])
      fix s off assume "length s \<le> length n" "?m s = Some off"
      then have "m s = Some off" by (auto split: if_splits)
      then have "entry_ok buf p s off" using Cons.prems(3) \<open>length s \<le> length n\<close> by simp
      then show "entry_ok buf (p + 1 + length l) s off" by (rule entry_ok_mono) simp
    qed (use Cons.prems(2) in simp)
    then obtain j m' where j: "j \<le> length n" "name_at buf (p + 1 + length l) n j ?q"
      and m': "snd ?r = Some m'" "\<And>s off. m' s = Some off \<Longrightarrow> ?m s = Some off \<or> entry_ok buf ?q s off"
      by blast
    have here: "name_at buf p (l # n) j ?q"
      using name_at_written_label [OF at(1) _ j(2)] Cons.prems(2) by simp
    have new: "p \<le> 0x3FFF \<Longrightarrow> entry_ok buf ?q (l # n) (word_of_nat p)"
      using here le_imp_less_Suc [OF j(1)] by (auto simp: entry_ok_def unat_of_nat16)
    have "m' s = Some off \<Longrightarrow> m s = Some off \<or> entry_ok buf ?q s off" for s off
      using m'(2) [of s off] new by (auto split: if_splits)
    then show ?thesis
      using None here j(1) m'(1) by (auto simp: add.assoc intro: le_SucI)
  qed
qed

lemma name_bytes_at:
  assumes "has_at buf p (fst (name_bytes n p c))" "list_all wf_label n" "comp_ok buf p c"
  defines "q \<equiv> p + length (fst (name_bytes n p c))"
  shows "\<exists>j \<le> length n. name_at buf p n j q" and "comp_ok buf q (snd (name_bytes n p c))"
proof -
  have "(\<exists>j \<le> length n. name_at buf p n j q) \<and> comp_ok buf q (snd (name_bytes n p c))"
  proof (cases c)
    case None
    have "snd (name_bytes n p' None) = None" for p' by (induction n arbitrary: p') simp_all
    then show ?thesis
      using name_bytes_None_at [of buf p n] assms None by auto
  next
    case (Some m)
    with assms(3) have "\<And>s off. m s = Some off \<Longrightarrow> entry_ok buf p s off"
      by (simp add: comp_ok_def)
    moreover have "p \<le> q" by (simp add: q_def)
    ultimately show ?thesis
      using name_bytes_Some_at [of buf p n m] assms Some entry_ok_mono [of buf p _ _ q]
      by (fastforce simp: comp_ok_def)
  qed
  then show "\<exists>j \<le> length n. name_at buf p n j q" "comp_ok buf q (snd (name_bytes n p c))" by auto
qed

text \<open>The two directions meet: what \<open>to_wire\<close> writes, \<open>from_wire\<close> reads.\<close>

lemma from_wire_written:
  assumes "has_at buf p (fst (name_bytes n p c))" "wf_name n" "length n \<le> MAX_POINTER_JUMPS"
    "comp_ok buf p c"
  shows "from_wire buf p = Inr (n, p + length (fst (name_bytes n p c)))"
    and "comp_ok buf (p + length (fst (name_bytes n p c))) (snd (name_bytes n p c))"
proof -
  have wf: "list_all wf_label n" "wire_len n \<le> MAX_NAME_WIRE_LEN"
    using assms(2) by (simp_all add: wf_name_def)
  from name_bytes_at(1) [OF assms(1) wf(1) assms(4)] assms(3) wf(2)
  show "from_wire buf p = Inr (n, p + length (fst (name_bytes n p c)))"
    unfolding from_wire_iff by (meson le_trans)
  show "comp_ok buf (p + length (fst (name_bytes n p c))) (snd (name_bytes n p c))"
    by (rule name_bytes_at(2) [OF assms(1) wf(1) assms(4)])
qed

lemma name_bytes_None_snd [simp]: "snd (name_bytes n p None) = None"
  by (induction n arbitrary: p) simp_all

text \<open>Without compression no pointer is followed, so the label count does not matter.\<close>

lemma from_wire_uncompressed:
  assumes "has_at buf p (fst (name_bytes n p None))" "wf_name n"
  shows "from_wire buf p = Inr (n, p + length (fst (name_bytes n p None)))"
  using name_bytes_None_at [OF assms(1)] assms(2) unfolding from_wire_iff wf_name_def by blast

section \<open>Sequences of names\<close>

fun write_names :: "dns_name list \<Rightarrow> bytes \<Rightarrow> compressor option \<Rightarrow> bytes \<times> compressor option" where
  "write_names [] out c = (out, c)"
| "write_names (n # ns) out c = (case to_wire n out c of (out', c') \<Rightarrow> write_names ns out' c')"

fun read_names :: "nat \<Rightarrow> bytes \<Rightarrow> nat \<Rightarrow> wire_error + (dns_name list \<times> nat)" where
  "read_names 0 buf p = Inr ([], p)"
| "read_names (Suc k) buf p =
     and_then (from_wire buf p) (\<lambda>(n, p'). and_then (read_names k buf p') (\<lambda>(ns, e). Inr (n # ns, e)))"

lemma write_names_extends: "\<exists>more. fst (write_names ns out c) = out @ more"
proof (induction ns arbitrary: out c)
  case (Cons n ns)
  obtain out' c' where w: "to_wire n out c = (out', c')" by fastforce
  then have "\<exists>bs. out' = out @ bs" by (auto simp: to_wire_bytes prod_eq_iff)
  then show ?case using Cons.IH [of out' c'] w by auto
qed simp

lemma read_names_written:
  assumes "list_all (\<lambda>n. wf_name n \<and> length n \<le> MAX_POINTER_JUMPS) ns"
    and "fst (write_names ns out c) = buf" and "comp_ok buf (length out) c"
  shows "read_names (length ns) buf (length out) = Inr (ns, length buf)"
  using assms
proof (induction ns arbitrary: out c)
  case (Cons n ns)
  let ?bs = "fst (name_bytes n (length out) c)" and ?c = "snd (name_bytes n (length out) c)"
  have w: "to_wire n out c = (out @ ?bs, ?c)" by (simp add: to_wire_bytes prod_eq_iff)
  then have buf: "fst (write_names ns (out @ ?bs) ?c) = buf" using Cons.prems(2) by simp
  then obtain more where more: "buf = out @ ?bs @ more"
    using write_names_extends [of ns "out @ ?bs" ?c] by auto
  then have "has_at buf (length out) ?bs" by (simp only: has_at_self)
  from from_wire_written [OF this _ _ Cons.prems(3)] Cons.prems(1)
  show ?case using Cons.IH [OF _ buf] by simp
qed simp

text \<open>
  Round trip of compressed names.  Any list of well-formed names of at
  most 64 labels, written one after the other with a fresh shared compressor
  behind any prefix, is read back unchanged, and reading ends exactly at the
  end of the buffer.
\<close>
theorem names_roundtrip:
  assumes "list_all (\<lambda>n. wf_name n \<and> length n \<le> MAX_POINTER_JUMPS) ns"
    and "write_names ns out (Some new_compressor) = (buf, c)"
  shows "read_names (length ns) buf (length out) = Inr (ns, length buf)"
  using read_names_written [OF assms(1), of out "Some new_compressor" buf] assms(2) by simp

theorem names_roundtrip_witness:
  "read_names (length [[[119], [97]], [[109], [97 :: byte]]])
       (fst (write_names [[[119], [97]], [[109], [97]]] [7] (Some new_compressor))) (length [7 :: byte]) =
     Inr ([[[119], [97]], [[109], [97]]],
       length (fst (write_names [[[119], [97]], [[109], [97]]] [7] (Some new_compressor))))"
  by (rule names_roundtrip [OF _ prod.collapse [symmetric]])
     (simp add: wf_name_def wf_label_def lower_label_def to_lower_def)

text \<open>
  C6: The decoder accepts exactly the names of the RFC 1035 wire grammar whose
  pointers all go backwards, within 64 jumps and 255 octets, and returns the
  name with the offset behind its local part; every other buffer is rejected.
\<close>
theorem from_wire_spec:
  "from_wire buf p = Inr (n, e) \<longleftrightarrow>
     (\<exists>j. j \<le> MAX_POINTER_JUMPS \<and> name_at buf p n j e) \<and> wire_len n \<le> MAX_NAME_WIRE_LEN"
  by (simp add: from_wire_iff)

text \<open>
  Every decoded name is well formed (non-empty lower-case labels of at
  most 63 octets, at most 255 octets in all), and the decoder consumes at
  least one byte and stays inside the buffer.
\<close>
theorem from_wire_bounds:
  assumes "from_wire buf p = Inr (n, e)"
  shows "wf_name n \<and> p < e \<and> e \<le> length buf"
  by (rule from_wire_wf [OF assms])

theorem from_wire_bounds_witness:
  "wf_name [[97]] \<and> (0::nat) < 3 \<and> 3 \<le> length [1, 0x41, 0 :: byte]"
  using from_wire_bounds [of "[1, 0x41, 0]" 0 "[[97]]" 3]
  by (simp add: from_wire_def from_wire_loop.simps get_at_def get_range_def Let_def to_lower_def
        label_len_not_pointer)

section \<open>Names as text\<close>

definition plain_byte :: "byte \<Rightarrow> bool" where
  "plain_byte b \<longleftrightarrow> 0x21 \<le> b \<and> b \<le> 0x7E \<and> b \<noteq> 0x2E"

lemma as_bytes_char_of [simp]: "(of_char (char_of (unat b)) :: byte) = b"
proof -
  have "(of_char (char_of (unat b)) :: byte) = of_nat (of_char (char_of (unat b)))"
    by (rule of_nat_of_char [symmetric])
  also have "\<dots> = of_nat (unat b mod 256)"
    by (simp only: of_char_of)
  finally show ?thesis by simp
qed

lemma char_of_dot_iff: "CHR ''.'' = char_of (unat b) \<longleftrightarrow> b = 0x2E" for b :: byte
proof -
  have "char_of (unat b) = CHR ''.'' \<longleftrightarrow> unat b = 46"
    by (simp add: char_of_eq_iff take_bit_nat_eq_self)
  also have "\<dots> \<longleftrightarrow> b = word_of_nat 46"
    by (simp add: word_unat_eq_iff)
  finally show ?thesis by (simp add: eq_commute)
qed

lemma display_plain:
  "list_all plain_byte l \<Longrightarrow> concat (map display_byte l) = map (\<lambda>b. char_of (unat b)) l"
  by (induction l) (auto simp: plain_byte_def display_byte_def)

lemma concat_dots:
  "xss \<noteq> [] \<Longrightarrow> concat (map (\<lambda>xs. xs @ [c]) xss) =
     (concat (map (\<lambda>xs. xs @ [c]) (butlast xss)) @ last xss) @ [c]"
  by (induction xss) auto

lemma parse_display:
  assumes "wf_name n" "list_all (list_all plain_byte) n"
  shows "parse_str (display_name n) = Inr n"
proof (cases "n = []")
  case True
  then show ?thesis by (simp add: display_name_def parse_str_def strip_suffix_def root_def)
next
  case False
  let ?dot = "CHR ''.''"
  define xss where "xss = map (map (\<lambda>b. char_of (unat b))) n"
  let ?s = "concat (map (\<lambda>xs. xs @ [?dot]) (butlast xss)) @ last xss"
  have ne: "xss \<noteq> []" using False by (simp add: xss_def)
  have "map (\<lambda>l. concat (map display_byte l) @ ''.'') n = map (\<lambda>xs. xs @ ''.'') xss"
    using assms(2) by (auto simp: xss_def list_all_iff display_plain)
  then have disp: "display_name n = ?s @ [?dot]"
    using False concat_dots [OF ne, of ?dot] by (simp add: display_name_def)
  have "last n \<noteq> []"
    using assms(1) False by (simp add: wf_name_def wf_label_def list_all_iff)
  then have "?s \<noteq> []"
    using False by (simp add: xss_def last_map)
  moreover have "split_on ?dot ?s = xss"
    using assms(2)
    by (intro split_on_intersperse ne) (auto simp: xss_def list_all_iff plain_byte_def char_of_dot_iff)
  moreover have "map (\<lambda>l. to_ascii_lowercase (as_bytes l)) xss = n"
    using assms(1)
    by (auto simp: xss_def as_bytes_def o_def wf_name_def wf_label_def lower_label_def list_all_iff
          intro!: map_idI dest!: bspec map_eq_conv [THEN iffD1, of _ _ id, simplified])
  moreover have "strip_suffix ?dot (display_name n) = Some ?s"
    unfolding disp by (rule strip_suffix_snoc)
  ultimately show ?thesis
    using wf_name_from_labels [OF assms(1)]
    by (simp add: parse_str_def Let_def del: map_map append_is_Nil_conv)
qed

text \<open>
  Names of printable labels without dots survive the trip through their
  text form: \<open>parse_str\<close> inverts \<open>Display\<close>.
\<close>
theorem name_text_roundtrip:
  assumes "wf_name n" "list_all (list_all plain_byte) n"
  shows "parse_str (display_name n) = Inr n"
  by (rule parse_display [OF assms])

theorem name_text_roundtrip_witness:
  "parse_str (display_name [[119, 119], [99, 45]]) = Inr [[119, 119], [99, 45]]"
  by (rule name_text_roundtrip)
     (simp_all add: wf_name_def wf_label_def lower_label_def to_lower_def plain_byte_def)

lemma parse_str_wf: "parse_str s = Inr n \<Longrightarrow> wf_name n"
  by (auto simp: parse_str_def Let_def from_labels_ok_iff wf_name_def wf_label_def list_all_iff
        root_def split: if_splits)

end
