(* ===== verification/Codec.thy ===== *)
theory Codec
  imports Dns_Name
begin

text \<open>
  The contract between the encoders and the decoders of the wire format.  An
  encoder appends to a buffer and threads the compressor; what it appends may
  depend on the buffer only through its length, because pointers are offsets.
  A decoder reads a buffer at a position.  The contract says that decoding the
  bytes an encoder wrote, in whatever buffer they finally stand, gives the
  value back and keeps the compressor invariant.  Sequences of encoded values
  inherit the contract, once and for all.
\<close>

type_synonym 'a encoder = "'a \<Rightarrow> bytes \<Rightarrow> compressor \<Rightarrow> bytes \<times> compressor"
type_synonym 'a decoder = "bytes \<Rightarrow> nat \<Rightarrow> wire_error + ('a \<times> nat)"

text \<open>The \<open>for\<close> loops of the sources over encoders and decoders.\<close>

fun encode_all :: "'a encoder \<Rightarrow> 'a list \<Rightarrow> bytes \<Rightarrow> compressor \<Rightarrow> bytes \<times> compressor" where
  "encode_all enc [] out c = (out, c)"
| "encode_all enc (x # xs) out c = (case enc x out c of (out', c') \<Rightarrow> encode_all enc xs out' c')"

fun decode_n :: "'b decoder \<Rightarrow> nat \<Rightarrow> bytes \<Rightarrow> nat \<Rightarrow> wire_error + ('b list \<times> nat)" where
  "decode_n dec 0 buf p = Inr ([], p)"
| "decode_n dec (Suc k) buf p =
     and_then (dec buf p) (\<lambda>(x, p'). and_then (decode_n dec k buf p') (\<lambda>(xs, e). Inr (x # xs, e)))"

lemma encode_all_append:
  "encode_all enc (xs @ ys) out c =
     (case encode_all enc xs out c of (out', c') \<Rightarrow> encode_all enc ys out' c')"
  by (induction xs arbitrary: out c) (auto split: prod.splits)

locale codec =
  fixes enc :: "'a encoder"
    and dec :: "'b decoder"
    and ok :: "'a \<Rightarrow> bool"
    and val :: "'a \<Rightarrow> 'b"
  assumes positional: "\<exists>bs c'. \<forall>out. length out = p \<longrightarrow> enc x out c = (out @ bs, c')"
    and dec_enc: "ok x \<Longrightarrow> enc x out c = (out @ bs, c') \<Longrightarrow> has_at buf (length out) bs \<Longrightarrow>
      comp_ok buf (length out) (Some c) \<Longrightarrow>
      dec buf (length out) = Inr (val x, length out + length bs) \<and>
      comp_ok buf (length out + length bs) (Some c')"
begin

lemma all_positional: "\<exists>bs c'. \<forall>out. length out = p \<longrightarrow> encode_all enc xs out c = (out @ bs, c')"
proof (induction xs arbitrary: p c)
  case (Cons x xs)
  obtain bs c' where e: "\<And>out. length out = p \<Longrightarrow> enc x out c = (out @ bs, c')"
    using positional by blast
  obtain bs' c'' where es: "\<And>out. length out = p + length bs \<Longrightarrow>
      encode_all enc xs out c' = (out @ bs', c'')"
    using Cons.IH by blast
  show ?case
    by (rule exI [of _ "bs @ bs'"], rule exI [of _ c'']) (simp add: e es)
qed simp

lemma enc_appends: "\<exists>bs c'. enc x out c = (out @ bs, c')"
  using positional by blast

lemma all_appends: "\<exists>bs c'. encode_all enc xs out c = (out @ bs, c')"
  using all_positional by blast

lemma all_dec_enc:
  assumes "list_all ok xs" "encode_all enc xs out c = (out @ bs, c')"
    "has_at buf (length out) bs" "comp_ok buf (length out) (Some c)"
  shows "decode_n dec (length xs) buf (length out) = Inr (map val xs, length out + length bs) \<and>
    comp_ok buf (length out + length bs) (Some c')"
  using assms
proof (induction xs arbitrary: out c bs c')
  case (Cons x xs)
  obtain b1 c1 where e1: "enc x out c = (out @ b1, c1)"
    using enc_appends by blast
  obtain b2 c2 where e2: "encode_all enc xs (out @ b1) c1 = ((out @ b1) @ b2, c2)"
    using all_appends by blast
  have bs: "bs = b1 @ b2" "c' = c2"
    using Cons.prems(2) e1 e2 by simp_all
  then have at: "has_at buf (length out) b1" "has_at buf (length (out @ b1)) b2"
    using Cons.prems(3) by simp_all
  have d1: "dec buf (length out) = Inr (val x, length out + length b1)"
    "comp_ok buf (length (out @ b1)) (Some c1)"
    using dec_enc [OF _ e1 at(1) Cons.prems(4)] Cons.prems(1) by simp_all
  from Cons.IH [OF _ e2 at(2) d1(2)] Cons.prems(1) show ?case
    by (simp add: d1(1) bs add.assoc)
qed simp

end

section \<open>Names\<close>

text \<open>\<open>name.to_wire(out, Some(comp))\<close>: the compressor is borrowed and stays there.\<close>

definition to_wire_with :: "dns_name encoder" where
  "to_wire_with n out c =
     (case to_wire n out (Some c) of (out', Some c') \<Rightarrow> (out', c') | (out', None) \<Rightarrow> (out', c))"

definition name_ok :: "dns_name \<Rightarrow> bool" where
  "name_ok n \<longleftrightarrow> wf_name n \<and> length n \<le> MAX_POINTER_JUMPS"

lemma name_bytes_keeps_comp: "\<exists>c'. snd (name_bytes n p (Some c)) = Some c'"
  by (induction n arbitrary: p c) (auto split: option.splits)

lemma to_wire_with_bytes:
  "to_wire_with n out c =
     (out @ fst (name_bytes n (length out) (Some c)), the (snd (name_bytes n (length out) (Some c))))"
  using name_bytes_keeps_comp [of n "length out" c]
  by (auto simp: to_wire_with_def to_wire_bytes apfst_def map_prod_def split: prod.splits option.splits)

interpretation name_codec: codec to_wire_with from_wire name_ok id
proof unfold_locales
  fix p n c
  show "\<exists>bs c'. \<forall>out. length out = p \<longrightarrow> to_wire_with n out c = (out @ bs, c')"
    by (rule exI [of _ "fst (name_bytes n p (Some c))"],
        rule exI [of _ "the (snd (name_bytes n p (Some c)))"])
       (simp add: to_wire_with_bytes)
next
  fix n out c bs c' buf
  assume "name_ok n" "to_wire_with n out c = (out @ bs, c')" "has_at buf (length out) bs"
    "comp_ok buf (length out) (Some c)"
  then show "from_wire buf (length out) = Inr (id n, length out + length bs) \<and>
      comp_ok buf (length out + length bs) (Some c')"
    using from_wire_written [of buf "length out" n "Some c"] name_bytes_keeps_comp [of n "length out" c]
    by (auto simp: to_wire_with_bytes name_ok_def)
qed

end
