(* ===== verification/Dns_Record.thy ===== *)
theory Dns_Record
  imports Codec
begin

text \<open>
  Header flags, type codes, resource data and resource records
  (\<open>dns-proto/src/message.rs\<close>, up to \<open>Record\<close>): the data types, the typed
  rdata parser and the encoders with their back-patched length field.
\<close>

section \<open>Constants\<close>

abbreviation (input) CLASS_IN :: u16 where "CLASS_IN \<equiv> 1"
abbreviation (input) CLASS_CH :: u16 where "CLASS_CH \<equiv> 3"
abbreviation (input) CLASS_NONE :: u16 where "CLASS_NONE \<equiv> 254"
abbreviation (input) CLASS_ANY :: u16 where "CLASS_ANY \<equiv> 255"

abbreviation (input) OPCODE_QUERY :: byte where "OPCODE_QUERY \<equiv> 0"
abbreviation (input) OPCODE_NOTIFY :: byte where "OPCODE_NOTIFY \<equiv> 4"
abbreviation (input) OPCODE_UPDATE :: byte where "OPCODE_UPDATE \<equiv> 5"

abbreviation (input) TYPE_A :: u16 where "TYPE_A \<equiv> 1"
abbreviation (input) TYPE_NS :: u16 where "TYPE_NS \<equiv> 2"
abbreviation (input) TYPE_CNAME :: u16 where "TYPE_CNAME \<equiv> 5"
abbreviation (input) TYPE_SOA :: u16 where "TYPE_SOA \<equiv> 6"
abbreviation (input) TYPE_PTR :: u16 where "TYPE_PTR \<equiv> 12"
abbreviation (input) TYPE_MX :: u16 where "TYPE_MX \<equiv> 15"
abbreviation (input) TYPE_TXT :: u16 where "TYPE_TXT \<equiv> 16"
abbreviation (input) TYPE_AAAA :: u16 where "TYPE_AAAA \<equiv> 28"
abbreviation (input) TYPE_SRV :: u16 where "TYPE_SRV \<equiv> 33"
abbreviation (input) TYPE_NAPTR :: u16 where "TYPE_NAPTR \<equiv> 35"
abbreviation (input) TYPE_OPT :: u16 where "TYPE_OPT \<equiv> 41"
abbreviation (input) TYPE_DS :: u16 where "TYPE_DS \<equiv> 43"
abbreviation (input) TYPE_RRSIG :: u16 where "TYPE_RRSIG \<equiv> 46"
abbreviation (input) TYPE_NSEC :: u16 where "TYPE_NSEC \<equiv> 47"
abbreviation (input) TYPE_DNSKEY :: u16 where "TYPE_DNSKEY \<equiv> 48"
abbreviation (input) TYPE_NSEC3 :: u16 where "TYPE_NSEC3 \<equiv> 50"
abbreviation (input) TYPE_NSEC3PARAM :: u16 where "TYPE_NSEC3PARAM \<equiv> 51"
abbreviation (input) TYPE_TLSA :: u16 where "TYPE_TLSA \<equiv> 52"
abbreviation (input) TYPE_SVCB :: u16 where "TYPE_SVCB \<equiv> 64"
abbreviation (input) TYPE_HTTPS :: u16 where "TYPE_HTTPS \<equiv> 65"
abbreviation (input) TYPE_TSIG :: u16 where "TYPE_TSIG \<equiv> 250"
abbreviation (input) TYPE_IXFR :: u16 where "TYPE_IXFR \<equiv> 251"
abbreviation (input) TYPE_AXFR :: u16 where "TYPE_AXFR \<equiv> 252"
abbreviation (input) TYPE_ANY :: u16 where "TYPE_ANY \<equiv> 255"
abbreviation (input) TYPE_CAA :: u16 where "TYPE_CAA \<equiv> 257"

abbreviation (input) RCODE_NOERROR :: byte where "RCODE_NOERROR \<equiv> 0"
abbreviation (input) RCODE_FORMERR :: byte where "RCODE_FORMERR \<equiv> 1"
abbreviation (input) RCODE_SERVFAIL :: byte where "RCODE_SERVFAIL \<equiv> 2"
abbreviation (input) RCODE_NXDOMAIN :: byte where "RCODE_NXDOMAIN \<equiv> 3"
abbreviation (input) RCODE_NOTIMP :: byte where "RCODE_NOTIMP \<equiv> 4"
abbreviation (input) RCODE_REFUSED :: byte where "RCODE_REFUSED \<equiv> 5"
abbreviation (input) RCODE_YXDOMAIN :: byte where "RCODE_YXDOMAIN \<equiv> 6"
abbreviation (input) RCODE_YXRRSET :: byte where "RCODE_YXRRSET \<equiv> 7"
abbreviation (input) RCODE_NXRRSET :: byte where "RCODE_NXRRSET \<equiv> 8"
abbreviation (input) RCODE_NOTAUTH :: byte where "RCODE_NOTAUTH \<equiv> 9"

abbreviation (input) TSIG_BADSIG :: u16 where "TSIG_BADSIG \<equiv> 16"
abbreviation (input) TSIG_BADKEY :: u16 where "TSIG_BADKEY \<equiv> 17"
abbreviation (input) TSIG_BADTIME :: u16 where "TSIG_BADTIME \<equiv> 18"

section \<open>Mnemonics\<close>

text \<open>The arms of \<open>type_name\<close> and of \<open>type_code\<close>, in source order.\<close>

definition type_names :: "(u16 \<times> string) list" where
  "type_names =
     [(TYPE_A, ''A''), (TYPE_NS, ''NS''), (TYPE_CNAME, ''CNAME''), (TYPE_SOA, ''SOA''),
      (TYPE_PTR, ''PTR''), (TYPE_MX, ''MX''), (TYPE_TXT, ''TXT''), (TYPE_AAAA, ''AAAA''),
      (TYPE_SRV, ''SRV''), (TYPE_OPT, ''OPT''), (TYPE_DS, ''DS''), (TYPE_RRSIG, ''RRSIG''),
      (TYPE_NSEC, ''NSEC''), (TYPE_DNSKEY, ''DNSKEY''), (TYPE_NSEC3, ''NSEC3''),
      (TYPE_NSEC3PARAM, ''NSEC3PARAM''), (TYPE_NAPTR, ''NAPTR''), (TYPE_TLSA, ''TLSA''),
      (TYPE_SVCB, ''SVCB''), (TYPE_HTTPS, ''HTTPS''), (TYPE_CAA, ''CAA''), (TYPE_IXFR, ''IXFR''),
      (TYPE_AXFR, ''AXFR''), (TYPE_TSIG, ''TSIG''), (TYPE_ANY, ''ANY'')]"

definition type_name :: "u16 \<Rightarrow> string" where
  "type_name t =
     (case map_of type_names t of Some s \<Rightarrow> s | None \<Rightarrow> ''TYPE'' @ show_nat (unat t))"

definition type_codes :: "(string \<times> u16) list" where
  "type_codes =
     [(''A'', TYPE_A), (''NS'', TYPE_NS), (''CNAME'', TYPE_CNAME), (''SOA'', TYPE_SOA),
      (''PTR'', TYPE_PTR), (''MX'', TYPE_MX), (''TXT'', TYPE_TXT), (''AAAA'', TYPE_AAAA),
      (''SRV'', TYPE_SRV), (''NAPTR'', TYPE_NAPTR), (''TLSA'', TYPE_TLSA), (''SVCB'', TYPE_SVCB),
      (''HTTPS'', TYPE_HTTPS), (''CAA'', TYPE_CAA), (''DS'', TYPE_DS), (''DNSKEY'', TYPE_DNSKEY),
      (''NSEC'', TYPE_NSEC), (''NSEC3'', TYPE_NSEC3), (''NSEC3PARAM'', TYPE_NSEC3PARAM),
      (''RRSIG'', TYPE_RRSIG)]"

definition type_code :: "string \<Rightarrow> u16 option" where
  "type_code s =
     (let up = to_ascii_uppercase s in
      case map_of type_codes up of
        Some t \<Rightarrow> Some t
      | None \<Rightarrow>
          (case strip_prefix ''TYPE'' up of
             None \<Rightarrow> None
           | Some n \<Rightarrow> map_option word_of_nat (parse_uint 65535 n)))"

definition rcode_name :: "byte \<Rightarrow> string" where
  "rcode_name rc =
     (if rc = RCODE_NOERROR then ''NOERROR''
      else if rc = RCODE_FORMERR then ''FORMERR''
      else if rc = RCODE_SERVFAIL then ''SERVFAIL''
      else if rc = RCODE_NXDOMAIN then ''NXDOMAIN''
      else if rc = RCODE_NOTIMP then ''NOTIMP''
      else if rc = RCODE_REFUSED then ''REFUSED''
      else ''RCODE'' @ show_nat (unat rc))"

section \<open>Header flags\<close>

record flags =
  fl_qr :: bool
  fl_opcode :: byte
  fl_aa :: bool
  fl_tc :: bool
  fl_rd :: bool
  fl_ra :: bool
  fl_ad :: bool
  fl_cd :: bool
  fl_rcode :: byte

definition flags_default :: flags where
  "flags_default = \<lparr>fl_qr = False, fl_opcode = 0, fl_aa = False, fl_tc = False, fl_rd = False,
     fl_ra = False, fl_ad = False, fl_cd = False, fl_rcode = 0\<rparr>"

definition flags_from_u16 :: "u16 \<Rightarrow> flags" where
  "flags_from_u16 v =
     \<lparr>fl_qr = (v AND 0x8000 \<noteq> 0),
      fl_opcode = ucast (drop_bit 11 v AND 0xF),
      fl_aa = (v AND 0x0400 \<noteq> 0),
      fl_tc = (v AND 0x0200 \<noteq> 0),
      fl_rd = (v AND 0x0100 \<noteq> 0),
      fl_ra = (v AND 0x0080 \<noteq> 0),
      fl_ad = (v AND 0x0020 \<noteq> 0),
      fl_cd = (v AND 0x0010 \<noteq> 0),
      fl_rcode = ucast (v AND 0xF)\<rparr>"

definition flags_to_u16 :: "flags \<Rightarrow> u16" where
  "flags_to_u16 f =
     push_bit 15 (of_bool (fl_qr f))
     OR push_bit 11 (ucast (fl_opcode f AND 0xF))
     OR push_bit 10 (of_bool (fl_aa f))
     OR push_bit 9 (of_bool (fl_tc f))
     OR push_bit 8 (of_bool (fl_rd f))
     OR push_bit 7 (of_bool (fl_ra f))
     OR push_bit 5 (of_bool (fl_ad f))
     OR push_bit 4 (of_bool (fl_cd f))
     OR ucast (fl_rcode f AND 0xF)"

section \<open>Readers\<close>

definition read_bytes :: "bytes \<Rightarrow> nat \<Rightarrow> nat \<Rightarrow> wire_error + (bytes \<times> nat)" where
  "read_bytes buf pos n =
     (case get_range buf pos (pos + n) of None \<Rightarrow> Inl Truncated | Some s \<Rightarrow> Inr (s, pos + n))"

definition read_u8 :: "byte decoder" where
  "read_u8 buf pos = (case get_at buf pos of None \<Rightarrow> Inl Truncated | Some b \<Rightarrow> Inr (b, pos + 1))"

definition read_u16 :: "u16 decoder" where
  "read_u16 buf pos =
     and_then (read_bytes buf pos 2) (\<lambda>(s, p). Inr (from_be16 (s ! 0) (s ! 1), p))"

definition read_u32 :: "u32 decoder" where
  "read_u32 buf pos =
     and_then (read_bytes buf pos 4) (\<lambda>(s, p). Inr (from_be32 (s ! 0) (s ! 1) (s ! 2) (s ! 3), p))"

section \<open>Resource data\<close>

type_synonym ipv4 = u32
type_synonym ipv6 = u128

record soa =
  soa_mname :: dns_name
  soa_rname :: dns_name
  soa_serial :: u32
  soa_refresh :: u32
  soa_retry :: u32
  soa_expire :: u32
  soa_minimum :: u32

datatype rdata =
    RD_A ipv4
  | RD_Aaaa ipv6
  | RD_Ns dns_name
  | RD_Cname dns_name
  | RD_Ptr dns_name
  | RD_Soa soa
  | RD_Mx u16 dns_name
  | RD_Txt "bytes list"
  | RD_Srv u16 u16 u16 dns_name
  | RD_Unknown u16 bytes

fun rdata_rtype :: "rdata \<Rightarrow> u16" where
  "rdata_rtype (RD_A _) = TYPE_A"
| "rdata_rtype (RD_Aaaa _) = TYPE_AAAA"
| "rdata_rtype (RD_Ns _) = TYPE_NS"
| "rdata_rtype (RD_Cname _) = TYPE_CNAME"
| "rdata_rtype (RD_Ptr _) = TYPE_PTR"
| "rdata_rtype (RD_Soa _) = TYPE_SOA"
| "rdata_rtype (RD_Mx _ _) = TYPE_MX"
| "rdata_rtype (RD_Txt _) = TYPE_TXT"
| "rdata_rtype (RD_Srv _ _ _ _) = TYPE_SRV"
| "rdata_rtype (RD_Unknown t _) = t"

text \<open>The \<open>while *pos < end\<close> loop over the character strings of a TXT record.\<close>

function parse_txt :: "bytes \<Rightarrow> nat \<Rightarrow> nat \<Rightarrow> bytes list \<Rightarrow> wire_error + (bytes list \<times> nat)" where
  "parse_txt buf pos fin strings =
     (if pos < fin then
        (case read_u8 buf pos of
           Inl e \<Rightarrow> Inl e
         | Inr (b, p) \<Rightarrow>
             if p + unat b > fin then Inl BadRdata
             else (case read_bytes buf p (unat b) of
                     Inl e \<Rightarrow> Inl e
                   | Inr (s, p') \<Rightarrow> parse_txt buf p' fin (strings @ [s])))
      else Inr (strings, pos))"
  by pat_completeness auto

termination parse_txt
  by (relation "measure (\<lambda>(buf, pos, fin, _). fin - pos)")
     (auto simp: read_u8_def read_bytes_def split: option.splits)

definition parse_soa :: "soa decoder" where
  "parse_soa buf pos =
     and_then (from_wire buf pos) (\<lambda>(mname, p1).
     and_then (from_wire buf p1) (\<lambda>(rname, p2).
     and_then (read_u32 buf p2) (\<lambda>(serial, p3).
     and_then (read_u32 buf p3) (\<lambda>(refresh, p4).
     and_then (read_u32 buf p4) (\<lambda>(retry, p5).
     and_then (read_u32 buf p5) (\<lambda>(expire, p6).
     and_then (read_u32 buf p6) (\<lambda>(minimum, p7).
       Inr (\<lparr>soa_mname = mname, soa_rname = rname, soa_serial = serial, soa_refresh = refresh,
             soa_retry = retry, soa_expire = expire, soa_minimum = minimum\<rparr>, p7))))))))"

definition parse_typed :: "u16 \<Rightarrow> bytes \<Rightarrow> nat \<Rightarrow> nat \<Rightarrow> nat \<Rightarrow> wire_error + (rdata \<times> nat)" where
  "parse_typed rtype buf pos rdlen fin =
     (if rtype = TYPE_A then
        and_then (read_bytes buf pos 4)
          (\<lambda>(b, p). Inr (RD_A (from_be32 (b ! 0) (b ! 1) (b ! 2) (b ! 3)), p))
      else if rtype = TYPE_AAAA then
        and_then (read_bytes buf pos 16) (\<lambda>(b, p). Inr (RD_Aaaa (from_be b), p))
      else if rtype = TYPE_NS then
        and_then (from_wire buf pos) (\<lambda>(n, p). Inr (RD_Ns n, p))
      else if rtype = TYPE_CNAME then
        and_then (from_wire buf pos) (\<lambda>(n, p). Inr (RD_Cname n, p))
      else if rtype = TYPE_PTR then
        and_then (from_wire buf pos) (\<lambda>(n, p). Inr (RD_Ptr n, p))
      else if rtype = TYPE_SOA then
        and_then (parse_soa buf pos) (\<lambda>(s, p). Inr (RD_Soa s, p))
      else if rtype = TYPE_MX then
        and_then (read_u16 buf pos) (\<lambda>(pref, p1).
        and_then (from_wire buf p1) (\<lambda>(exch, p2). Inr (RD_Mx pref exch, p2)))
      else if rtype = TYPE_TXT then
        and_then (parse_txt buf pos fin []) (\<lambda>(ss, p). Inr (RD_Txt ss, p))
      else if rtype = TYPE_SRV then
        and_then (read_u16 buf pos) (\<lambda>(prio, p1).
        and_then (read_u16 buf p1) (\<lambda>(weight, p2).
        and_then (read_u16 buf p2) (\<lambda>(port, p3).
        and_then (from_wire buf p3) (\<lambda>(target, p4). Inr (RD_Srv prio weight port target, p4)))))
      else
        and_then (read_bytes buf pos rdlen) (\<lambda>(d, p). Inr (RD_Unknown rtype d, p)))"

definition rdata_parse :: "u16 \<Rightarrow> bytes \<Rightarrow> nat \<Rightarrow> nat \<Rightarrow> wire_error + (rdata \<times> nat)" where
  "rdata_parse rtype buf pos rdlen =
     (let fin = pos + rdlen in
      if fin > length buf then Inl Truncated
      else if rdlen = 0 then Inr (RD_Unknown rtype [], pos)
      else and_then (parse_typed rtype buf pos rdlen fin)
             (\<lambda>(rd, p). if p \<noteq> fin then Inl BadRdata else Inr (rd, p)))"

definition soa_numbers :: "soa \<Rightarrow> bytes" where
  "soa_numbers s = to_be32 (soa_serial s) @ to_be32 (soa_refresh s) @ to_be32 (soa_retry s) @
     to_be32 (soa_expire s) @ to_be32 (soa_minimum s)"

definition txt_bytes :: "bytes list \<Rightarrow> bytes" where
  "txt_bytes ss = concat (map (\<lambda>s. word_of_nat (length s) # s) ss)"

fun rdata_encode :: "rdata encoder" where
  "rdata_encode (RD_A ip) out c = (out @ to_be32 ip, c)"
| "rdata_encode (RD_Aaaa ip) out c = (out @ to_be 16 ip, c)"
| "rdata_encode (RD_Ns n) out c = to_wire_with n out c"
| "rdata_encode (RD_Cname n) out c = to_wire_with n out c"
| "rdata_encode (RD_Ptr n) out c = to_wire_with n out c"
| "rdata_encode (RD_Soa s) out c =
     (let (out1, c1) = to_wire_with (soa_mname s) out c;
          (out2, c2) = to_wire_with (soa_rname s) out1 c1
      in (out2 @ soa_numbers s, c2))"
| "rdata_encode (RD_Mx pref exch) out c = to_wire_with exch (out @ to_be16 pref) c"
| "rdata_encode (RD_Txt ss) out c = (out @ txt_bytes ss, c)"
| "rdata_encode (RD_Srv prio weight port target) out c =
     (fst (to_wire target (out @ to_be16 prio @ to_be16 weight @ to_be16 port) None), c)"
| "rdata_encode (RD_Unknown _ d) out c = (out @ d, c)"

text \<open>Canonical form for DNSSEC: no compression.\<close>

definition name_out :: "dns_name \<Rightarrow> bytes \<Rightarrow> bytes" where
  "name_out n out = fst (to_wire n out None)"

fun rdata_encode_canonical :: "rdata \<Rightarrow> bytes \<Rightarrow> bytes" where
  "rdata_encode_canonical (RD_Ns n) out = name_out n out"
| "rdata_encode_canonical (RD_Cname n) out = name_out n out"
| "rdata_encode_canonical (RD_Ptr n) out = name_out n out"
| "rdata_encode_canonical (RD_Soa s) out =
     name_out (soa_rname s) (name_out (soa_mname s) out) @ soa_numbers s"
| "rdata_encode_canonical (RD_Mx pref exch) out = name_out exch (out @ to_be16 pref)"
| "rdata_encode_canonical (RD_Srv prio weight port target) out =
     name_out target (out @ to_be16 prio @ to_be16 weight @ to_be16 port)"
| "rdata_encode_canonical rd out = fst (rdata_encode rd out new_compressor)"

section \<open>Records\<close>

record rr =
  rr_name :: dns_name
  rr_class :: u16
  rr_ttl :: u32
  rr_rdata :: rdata

definition rr_rtype :: "rr \<Rightarrow> u16" where
  "rr_rtype r = rdata_rtype (rr_rdata r)"

definition rr_encode :: "rr encoder" where
  "rr_encode r out c =
     (let (out1, c1) = to_wire_with (rr_name r) out c;
          out2 = out1 @ to_be16 (rr_rtype r) @ to_be16 (rr_class r) @ to_be32 (rr_ttl r);
          len_at = length out2;
          (out3, c2) = rdata_encode (rr_rdata r) (out2 @ [0, 0]) c1;
          rdlen = word_of_nat (length out3 - len_at - 2) :: u16
      in (copy_from_slice out3 len_at (to_be16 rdlen), c2))"

definition rr_encode_canonical :: "rr \<Rightarrow> bytes \<Rightarrow> u32 \<Rightarrow> bytes" where
  "rr_encode_canonical r out original_ttl =
     (let out1 = name_out (rr_name r) out;
          out2 = out1 @ to_be16 (rr_rtype r) @ to_be16 (rr_class r) @ to_be32 original_ttl;
          len_at = length out2;
          out3 = rdata_encode_canonical (rr_rdata r) (out2 @ [0, 0]);
          rdlen = word_of_nat (length out3 - len_at - 2) :: u16
      in copy_from_slice out3 len_at (to_be16 rdlen))"

section \<open>Flags and mnemonics\<close>

lemma and_bit_flags:
  fixes v :: u16
  shows "v AND 0x8000 \<noteq> 0 \<longleftrightarrow> bit v 15" "v AND 0x0400 \<noteq> 0 \<longleftrightarrow> bit v 10"
    "v AND 0x0200 \<noteq> 0 \<longleftrightarrow> bit v 9" "v AND 0x0100 \<noteq> 0 \<longleftrightarrow> bit v 8"
    "v AND 0x0080 \<noteq> 0 \<longleftrightarrow> bit v 7" "v AND 0x0020 \<noteq> 0 \<longleftrightarrow> bit v 5"
    "v AND 0x0010 \<noteq> 0 \<longleftrightarrow> bit v 4"
  by (simp_all add: bit_iff_and_push_bit_not_eq_0)

lemma and_0xF: "(v :: 'a::len word) AND 0xF = take_bit 4 v"
  by (simp add: take_bit_eq_mask mask_eq_exp_minus_1)

lemma nibble_eq: "unat (v :: byte) < 16 \<Longrightarrow> take_bit 4 v = v"
proof -
  assume "unat v < 16"
  then have "unat (take_bit 4 v) = unat v"
    by (simp add: unsigned_take_bit_eq take_bit_nat_eq_self)
  then show ?thesis by (simp only: unsigned_word_eqI)
qed

lemma bit_flag: "bit (push_bit n (of_bool b) :: u16) k \<longleftrightarrow> n < 16 \<and> k = n \<and> b"
  by (auto simp: bit_simps)

lemma bit_opcode_field:
  "bit (push_bit 11 (ucast (take_bit 4 (x :: byte))) :: u16) k \<longleftrightarrow> 11 \<le> k \<and> k < 15 \<and> bit x (k - 11)"
  by (auto simp: bit_simps)

lemma bit_rcode_field: "bit (ucast (take_bit 4 (x :: byte)) :: u16) k \<longleftrightarrow> k < 4 \<and> bit x k"
  by (auto simp: bit_simps)

lemma bit_flags_to_u16:
  "bit (flags_to_u16 f) k \<longleftrightarrow>
     (k = 15 \<and> fl_qr f \<or> 11 \<le> k \<and> k < 15 \<and> bit (fl_opcode f) (k - 11) \<or> k = 10 \<and> fl_aa f \<or>
      k = 9 \<and> fl_tc f \<or> k = 8 \<and> fl_rd f \<or> k = 7 \<and> fl_ra f \<or> k = 5 \<and> fl_ad f \<or> k = 4 \<and> fl_cd f \<or>
      k < 4 \<and> bit (fl_rcode f) k)"
  unfolding flags_to_u16_def and_0xF
  by (simp add: bit_or_iff bit_flag bit_opcode_field bit_rcode_field)

lemma flags_roundtrip:
  assumes "unat (fl_opcode f) < 16" "unat (fl_rcode f) < 16"
  shows "flags_from_u16 (flags_to_u16 f) = f"
proof -
  have "ucast (take_bit 4 (drop_bit 11 (flags_to_u16 f))) = take_bit 4 (fl_opcode f)"
    by (rule bit_word_eqI) (auto simp: bit_simps bit_flags_to_u16)
  moreover have "ucast (take_bit 4 (flags_to_u16 f)) = take_bit 4 (fl_rcode f)"
    by (rule bit_word_eqI) (auto simp: bit_simps bit_flags_to_u16)
  ultimately show ?thesis
    using assms unfolding flags_from_u16_def and_bit_flags and_0xF
    by (simp add: bit_flags_to_u16 nibble_eq)
qed

lemma flags_reencode: "flags_to_u16 (flags_from_u16 v) = v AND 0xFFBF"
proof (rule bit_word_eqI)
  fix k assume "k < LENGTH(16)"
  then have "k < 16" by simp
  then consider "k = 15" | "11 \<le> k" "k < 15" | "k = 10" | "k = 9" | "k = 8" | "k = 7" | "k = 6"
    | "k = 5" | "k = 4" | "k < 4"
    by linarith
  moreover have "(0xFFBF :: u16) = NOT (push_bit 6 1)" by simp
  then have "bit (v AND 0xFFBF) k \<longleftrightarrow> bit v k \<and> k \<noteq> 6"
    using \<open>k < 16\<close> by (simp only: bit_and_iff bit_not_iff bit_push_bit_iff bit_1_iff) auto
  ultimately show "bit (flags_to_u16 (flags_from_u16 v)) k = bit (v AND 0xFFBF) k"
    unfolding bit_flags_to_u16 flags_from_u16_def and_bit_flags and_0xF
    by cases (auto simp: bit_simps)
qed

lemma type_code_type_name:
  "type_code (type_name t) =
     (if t \<in> {TYPE_OPT, TYPE_IXFR, TYPE_AXFR, TYPE_TSIG, TYPE_ANY} then None else Some t)"
proof (cases "map_of type_names t")
  case (Some s)
  have "list_all (\<lambda>(t, s). type_code s =
      (if t \<in> {TYPE_OPT, TYPE_IXFR, TYPE_AXFR, TYPE_TSIG, TYPE_ANY} then None else Some t)) type_names"
    by code_simp
  then show ?thesis
    using map_of_SomeD [OF Some] Some by (auto simp: list_all_iff type_name_def)
next
  case None
  then have t: "t \<notin> {TYPE_OPT, TYPE_IXFR, TYPE_AXFR, TYPE_TSIG, TYPE_ANY}"
    by (auto simp: type_names_def split: if_splits)
  have up: "to_ascii_uppercase (''TYPE'' @ show_nat (unat t)) = ''TYPE'' @ show_nat (unat t)"
    by (simp add: upper_show_nat upper_char_def)
  moreover have "map_of type_codes (''TYPE'' @ s) = None" for s
    by (simp add: type_codes_def)
  moreover have "parse_uint 65535 (show_nat (unat t)) = Some (unat t)"
    by (rule parse_uint_show_nat) (use unat_lt_65536 [of t] in linarith)
  ultimately show ?thesis
    using None t by (simp add: type_name_def type_code_def Let_def del: map_append)
qed

section \<open>Readers on written bytes\<close>

lemma read_bytes_at [wire_simps]:
  "has_at buf p bs \<Longrightarrow> length bs = n \<Longrightarrow> read_bytes buf p n = Inr (bs, p + n)"
  using has_at_get_range [of buf p bs] by (simp add: read_bytes_def)

lemma read_u8_at [wire_simps]: "has_at buf p [b] \<Longrightarrow> read_u8 buf p = Inr (b, p + 1)"
  by (simp add: read_u8_def get_at_def)

lemma read_u16_at [wire_simps]: "has_at buf p (to_be16 w) \<Longrightarrow> read_u16 buf p = Inr (w, p + 2)"
  by (simp add: read_u16_def read_bytes_at) (simp add: to_be16_def)

lemma read_u32_at [wire_simps]: "has_at buf p (to_be32 w) \<Longrightarrow> read_u32 buf p = Inr (w, p + 4)"
  by (simp add: read_u32_def read_bytes_at) (simp add: to_be32_def)

lemma parse_txt_at:
  assumes "has_at buf p (txt_bytes ss)" "\<forall>s \<in> set ss. length s \<le> 255"
  shows "parse_txt buf p (p + length (txt_bytes ss)) acc = Inr (acc @ ss, p + length (txt_bytes ss))"
  using assms
proof (induction ss arbitrary: p acc)
  case Nil
  then show ?case by (subst parse_txt.simps) (simp add: txt_bytes_def)
next
  case (Cons s ss)
  have bs: "txt_bytes (s # ss) = word_of_nat (length s) # s @ txt_bytes ss"
    by (simp add: txt_bytes_def)
  have len: "unat (word_of_nat (length s) :: byte) = length s"
    using Cons.prems(2) by (simp add: unat_of_nat8)
  have at: "has_at buf p [word_of_nat (length s)]" "has_at buf (p + 1) s"
    "has_at buf (p + 1 + length s) (txt_bytes ss)"
    using Cons.prems(1) by (simp_all add: bs has_at_Cons)
  have "parse_txt buf p (p + length (txt_bytes (s # ss))) acc =
      parse_txt buf (p + 1 + length s) (p + length (txt_bytes (s # ss))) (acc @ [s])"
    by (subst parse_txt.simps)
       (simp add: read_u8_at [OF at(1)] read_bytes_at [OF at(2) refl, simplified] len bs
          del: parse_txt.simps)
  then show ?case
    using Cons.IH [OF at(3), of "acc @ [s]"] Cons.prems(2) by (simp add: bs add.assoc)
qed

section \<open>Resource data: round trip\<close>

definition typed_rtype :: "u16 \<Rightarrow> bool" where
  "typed_rtype t \<longleftrightarrow> t \<in> {TYPE_A, TYPE_AAAA, TYPE_NS, TYPE_CNAME, TYPE_PTR, TYPE_SOA, TYPE_MX, TYPE_TXT, TYPE_SRV}"

text \<open>
  Resource data the encoder can represent: names of at most 64 labels,
  character strings of at most 255 bytes, a payload that fits the 16-bit
  length, and the generic form only for types without a typed reader (or
  with an empty payload).
\<close>

fun rdata_ok :: "rdata \<Rightarrow> bool" where
  "rdata_ok (RD_A _) = True"
| "rdata_ok (RD_Aaaa _) = True"
| "rdata_ok (RD_Ns n) = name_ok n"
| "rdata_ok (RD_Cname n) = name_ok n"
| "rdata_ok (RD_Ptr n) = name_ok n"
| "rdata_ok (RD_Soa s) = (name_ok (soa_mname s) \<and> name_ok (soa_rname s))"
| "rdata_ok (RD_Mx _ n) = name_ok n"
| "rdata_ok (RD_Txt ss) = (ss \<noteq> [] \<and> list_all (\<lambda>s. length s \<le> 255) ss \<and> length (txt_bytes ss) < 65536)"
| "rdata_ok (RD_Srv _ _ _ n) = wf_name n"
| "rdata_ok (RD_Unknown t d) =
     (length d < 65536 \<and> t \<noteq> TYPE_OPT \<and> t \<noteq> TYPE_TSIG \<and> (d = [] \<or> \<not> typed_rtype t))"

fun rdata_bytes :: "rdata \<Rightarrow> nat \<Rightarrow> compressor \<Rightarrow> bytes \<times> compressor" where
  "rdata_bytes (RD_A ip) p c = (to_be32 ip, c)"
| "rdata_bytes (RD_Aaaa ip) p c = (to_be 16 ip, c)"
| "rdata_bytes (RD_Ns n) p c = apsnd the (name_bytes n p (Some c))"
| "rdata_bytes (RD_Cname n) p c = apsnd the (name_bytes n p (Some c))"
| "rdata_bytes (RD_Ptr n) p c = apsnd the (name_bytes n p (Some c))"
| "rdata_bytes (RD_Soa s) p c =
     (let (b1, c1) = apsnd the (name_bytes (soa_mname s) p (Some c));
          (b2, c2) = apsnd the (name_bytes (soa_rname s) (p + length b1) (Some c1))
      in (b1 @ b2 @ soa_numbers s, c2))"
| "rdata_bytes (RD_Mx pref n) p c = apfst (append (to_be16 pref)) (apsnd the (name_bytes n (p + 2) (Some c)))"
| "rdata_bytes (RD_Txt ss) p c = (txt_bytes ss, c)"
| "rdata_bytes (RD_Srv prio weight port n) p c =
     (to_be16 prio @ to_be16 weight @ to_be16 port @ fst (name_bytes n (p + 6) None), c)"
| "rdata_bytes (RD_Unknown _ d) p c = (d, c)"

lemma rdata_encode_bytes: "rdata_encode rd out c = apfst (append out) (rdata_bytes rd (length out) c)"
  by (cases rd) (simp_all add: to_wire_with_bytes to_wire_bytes Let_def split_beta prod_eq_iff add.commute)

lemma wire_len_pos: "Suc 0 \<le> k + wire_len n"
  by (simp add: wire_len_def)

lemma length_name_bytes: "length (fst (name_bytes n p c)) \<le> wire_len n"
  by (induction n p c rule: name_bytes.induct)
     (auto simp: to_be16_def wire_len_pos split: option.splits)

lemma length_rdata_bytes: "rdata_ok rd \<Longrightarrow> length (fst (rdata_bytes rd p c)) < 65536"
proof (cases rd)
  case (RD_Soa s)
  moreover assume "rdata_ok rd"
  ultimately have "wire_len (soa_mname s) \<le> 255" "wire_len (soa_rname s) \<le> 255"
    by (simp_all add: name_ok_def wf_name_def)
  moreover have "length (soa_numbers s) = 20" by (simp add: soa_numbers_def)
  ultimately show ?thesis
    using length_name_bytes [of "soa_mname s" p "Some c"] RD_Soa
      length_name_bytes [of "soa_rname s" "p + length (fst (name_bytes (soa_mname s) p (Some c)))"
        "Some (the (snd (name_bytes (soa_mname s) p (Some c))))"]
    by (simp add: Let_def split_beta)
qed (use length_name_bytes [of _ p "Some c"] length_name_bytes [of _ "p + 2" "Some c"] length_name_bytes [of _ "p + 6" None] in
      \<open>fastforce simp: name_ok_def wf_name_def intro: le_less_trans\<close>)+

text \<open>Names inside resource data.\<close>

lemma name_in_rdata:
  assumes "has_at buf p (fst (name_bytes n p (Some c)))" "name_ok n" "comp_ok buf p (Some c)"
  shows "from_wire buf p = Inr (n, p + length (fst (name_bytes n p (Some c))))"
    and "comp_ok buf (p + length (fst (name_bytes n p (Some c)))) (Some (the (snd (name_bytes n p (Some c)))))"
proof -
  have "wf_name n" "length n \<le> 64" using assms(2) by (simp_all add: name_ok_def)
  from from_wire_written [OF assms(1) this assms(3)] name_bytes_keeps_comp [of n p c]
  show "from_wire buf p = Inr (n, p + length (fst (name_bytes n p (Some c))))"
    and "comp_ok buf (p + length (fst (name_bytes n p (Some c)))) (Some (the (snd (name_bytes n p (Some c)))))"
    by auto
qed

lemma comp_ok_skip: "comp_ok buf p c \<Longrightarrow> comp_ok buf (p + k) c"
  by (erule comp_ok_mono) simp

lemma parse_soa_at:
  assumes "has_at buf p (fst (rdata_bytes (RD_Soa s) p c))" "rdata_ok (RD_Soa s)" "comp_ok buf p (Some c)"
  shows "parse_soa buf p = Inr (s, p + length (fst (rdata_bytes (RD_Soa s) p c)))"
    and "comp_ok buf (p + length (fst (rdata_bytes (RD_Soa s) p c))) (Some (snd (rdata_bytes (RD_Soa s) p c)))"
proof -
  let ?b1 = "fst (name_bytes (soa_mname s) p (Some c))"
  let ?c1 = "the (snd (name_bytes (soa_mname s) p (Some c)))"
  let ?q = "p + length ?b1"
  let ?b2 = "fst (name_bytes (soa_rname s) ?q (Some ?c1))"
  let ?r = "?q + length ?b2"
  have at: "has_at buf p ?b1" "has_at buf ?q ?b2" "has_at buf ?r (soa_numbers s)"
    using assms(1) by (simp_all add: Let_def split_beta add.assoc)
  have ok: "name_ok (soa_mname s)" "name_ok (soa_rname s)" using assms(2) by simp_all
  note n1 = name_in_rdata [OF at(1) ok(1) assms(3)]
  note n2 = name_in_rdata [OF at(2) ok(2) n1(2)]
  have nums: "has_at buf ?r (to_be32 (soa_serial s))" "has_at buf (?r + 4) (to_be32 (soa_refresh s))"
    "has_at buf (?r + 4 + 4) (to_be32 (soa_retry s))" "has_at buf (?r + 4 + 4 + 4) (to_be32 (soa_expire s))"
    "has_at buf (?r + 4 + 4 + 4 + 4) (to_be32 (soa_minimum s))"
    using at(3) by (simp_all add: soa_numbers_def add.assoc)
  have len: "length (soa_numbers s) = 20" by (simp add: soa_numbers_def)
  show "parse_soa buf p = Inr (s, p + length (fst (rdata_bytes (RD_Soa s) p c)))"
    by (simp only: parse_soa_def n1(1) n2(1) nums [THEN read_u32_at] and_then_simps prod.case)
       (simp add: Let_def split_beta len)
  show "comp_ok buf (p + length (fst (rdata_bytes (RD_Soa s) p c))) (Some (snd (rdata_bytes (RD_Soa s) p c)))"
    using comp_ok_skip [OF n2(2), of 20] by (simp add: Let_def split_beta len add.assoc)
qed

lemma parse_typed_srv:
  "parse_typed TYPE_SRV buf pos k f =
     and_then (read_u16 buf pos) (\<lambda>(prio, p1).
     and_then (read_u16 buf p1) (\<lambda>(weight, p2).
     and_then (read_u16 buf p2) (\<lambda>(port, p3).
     and_then (from_wire buf p3) (\<lambda>(target, p4). Inr (RD_Srv prio weight port target, p4)))))"
  by (simp add: parse_typed_def)

lemma to_be_Nil_iff: "to_be k w = [] \<longleftrightarrow> k = 0"
  using length_to_be_any [of k w] by (metis length_0_conv)

lemma parse_typed_mx_at:
  assumes "has_at buf p (fst (rdata_bytes (RD_Mx pref n) p c))" "name_ok n" "comp_ok buf p (Some c)"
  defines "q \<equiv> p + length (fst (rdata_bytes (RD_Mx pref n) p c))"
  shows "parse_typed TYPE_MX buf p k f = Inr (RD_Mx pref n, q)"
    and "comp_ok buf q (Some (snd (rdata_bytes (RD_Mx pref n) p c)))"
proof -
  have at: "has_at buf p (to_be16 pref)" "has_at buf (p + 2) (fst (name_bytes n (p + 2) (Some c)))"
    using assms(1) by simp_all
  note n = name_in_rdata [OF at(2) assms(2) comp_ok_skip [OF assms(3)]]
  show "parse_typed TYPE_MX buf p k f = Inr (RD_Mx pref n, q)"
    using n(1) by (simp only: parse_typed_def read_u16_at [OF at(1)]) (simp add: q_def)
  show "comp_ok buf q (Some (snd (rdata_bytes (RD_Mx pref n) p c)))"
    using n(2) by (simp add: q_def)
qed

lemma parse_typed_srv_at:
  assumes "has_at buf p (fst (rdata_bytes (RD_Srv prio weight port n) p c))" "wf_name n"
  shows "parse_typed TYPE_SRV buf p k f = Inr (RD_Srv prio weight port n,
    p + length (fst (rdata_bytes (RD_Srv prio weight port n) p c)))"
proof -
  have at: "has_at buf p (to_be16 prio)" "has_at buf (p + 2) (to_be16 weight)"
    "has_at buf (p + 2 + 2) (to_be16 port)" "has_at buf (p + 6) (fst (name_bytes n (p + 6) None))"
    using assms(1) by (simp_all add: numeral_eq_Suc)
  have sum: "p + 2 + 2 + 2 = p + 6" by simp
  from from_wire_uncompressed [OF at(4) assms(2)] show ?thesis
    by (simp only: parse_typed_srv at(1-3) [THEN read_u16_at] sum and_then_simps prod.case) simp
qed

lemma parse_typed_at:
  assumes "has_at buf p (fst (rdata_bytes rd p c))" "rdata_ok rd" "comp_ok buf p (Some c)"
    "fst (rdata_bytes rd p c) \<noteq> []"
  defines "k \<equiv> length (fst (rdata_bytes rd p c))"
  shows "parse_typed (rdata_rtype rd) buf p k (p + k) = Inr (rd, p + k) \<and>
      comp_ok buf (p + k) (Some (snd (rdata_bytes rd p c)))"
proof (cases rd)
  case (RD_A ip)
  then show ?thesis
    using assms(1) comp_ok_skip [OF assms(3)]
    by (simp add: parse_typed_def read_bytes_at k_def) (simp add: to_be32_def)
next
  case (RD_Aaaa ip)
  then show ?thesis
    using assms(1) comp_ok_skip [OF assms(3)]
    by (simp add: parse_typed_def read_bytes_at from_be_to_be k_def del: to_be.simps)
next
  case (RD_Soa s)
  then show ?thesis
    using parse_soa_at [of buf p s c] assms(1-3)
    by (simp add: parse_typed_def k_def del: rdata_bytes.simps rdata_ok.simps)
next
  case (RD_Mx pref n)
  then show ?thesis
    using parse_typed_mx_at [of buf p pref n c] assms(1-3) by (simp del: rdata_bytes.simps add: k_def)
next
  case (RD_Txt ss)
  then show ?thesis
    using assms(1-3) comp_ok_skip [OF assms(3)]
    by (simp add: parse_typed_def parse_txt_at list_all_iff k_def del: parse_txt.simps)
next
  case (RD_Srv prio weight port n)
  then have "snd (rdata_bytes rd p c) = c" "wf_name n" using assms(2) by simp_all
  then show ?thesis
    using parse_typed_srv_at [of buf p prio weight port n c] assms(1) comp_ok_skip [OF assms(3), of k] RD_Srv
    by (simp del: rdata_bytes.simps add: k_def)
next
  case (RD_Unknown t d)
  then show ?thesis
    using assms comp_ok_skip [OF assms(3)] by (simp add: parse_typed_def typed_rtype_def read_bytes_at)
qed (use assms(1,2) name_in_rdata [OF _ _ assms(3)] in \<open>simp_all add: parse_typed_def k_def\<close>)

lemma rdata_bytes_Nil:
  assumes "fst (rdata_bytes rd p c) = []" "rdata_ok rd"
  shows "\<exists>t. rd = RD_Unknown t []"
proof -
  have "fst (name_bytes n q k) \<noteq> []" for n q k
    by (cases n) (auto simp: to_be16_def split: option.splits)
  then show ?thesis
    using assms
    by (cases rd) (auto simp: to_be32_def to_be_Nil_iff Let_def split_beta txt_bytes_def soa_numbers_def)
qed

lemma rdata_parse_at:
  assumes "has_at buf p (fst (rdata_bytes rd p c))" "rdata_ok rd" "comp_ok buf p (Some c)"
  defines "k \<equiv> length (fst (rdata_bytes rd p c))"
  shows "rdata_parse (rdata_rtype rd) buf p k = Inr (rd, p + k) \<and>
    comp_ok buf (p + k) (Some (snd (rdata_bytes rd p c)))"
proof (cases "fst (rdata_bytes rd p c) = []")
  case True
  then show ?thesis
    using rdata_bytes_Nil [OF True assms(2)] has_at_length [OF assms(1)] assms(3)
    by (auto simp: rdata_parse_def k_def)
next
  case False
  then show ?thesis
    using parse_typed_at [OF assms(1-3) False] has_at_length [OF assms(1)]
    by (simp add: rdata_parse_def Let_def k_def)
qed

section \<open>Records: round trip\<close>

definition rr_ok :: "rr \<Rightarrow> bool" where
  "rr_ok r \<longleftrightarrow> name_ok (rr_name r) \<and> rdata_ok (rr_rdata r)"

definition rr_header :: "rr \<Rightarrow> bytes" where
  "rr_header r = to_be16 (rr_rtype r) @ to_be16 (rr_class r) @ to_be32 (rr_ttl r)"

text \<open>What \<open>rr_encode\<close> appends, with the length field in place.\<close>

definition rr_bytes :: "rr \<Rightarrow> nat \<Rightarrow> compressor \<Rightarrow> bytes \<times> compressor" where
  "rr_bytes r p c =
     (let (b1, c1) = apsnd the (name_bytes (rr_name r) p (Some c));
          (b2, c2) = rdata_bytes (rr_rdata r) (p + length b1 + 10) c1
      in (b1 @ rr_header r @ to_be16 (word_of_nat (length b2)) @ b2, c2))"

lemma length_rr_header [simp]: "length (rr_header r) = 8"
  by (simp add: rr_header_def)

text \<open>The back-patching of the length field produces exactly those bytes.\<close>

lemma rr_encode_bytes: "rr_encode r out c = apfst (append out) (rr_bytes r (length out) c)"
proof -
  let ?b1 = "fst (name_bytes (rr_name r) (length out) (Some c))"
  let ?c1 = "the (snd (name_bytes (rr_name r) (length out) (Some c)))"
  let ?pre = "out @ ?b1 @ rr_header r"
  let ?r = "rdata_bytes (rr_rdata r) (length ?pre + 2) ?c1"
  have w: "to_wire_with (rr_name r) out c = (out @ ?b1, ?c1)"
    by (simp add: to_wire_with_bytes)
  have rd: "rdata_encode (rr_rdata r) (?pre @ [0, 0]) ?c1 = (?pre @ [0, 0] @ fst ?r, snd ?r)"
    by (simp add: rdata_encode_bytes prod_eq_iff ac_simps)
  have patch: "copy_from_slice (?pre @ [0, 0] @ fst ?r) (length ?pre) (to_be16 x) = ?pre @ to_be16 x @ fst ?r" for x
    by (rule copy_from_slice_append) simp
  have "rr_encode r out c = (?pre @ to_be16 (word_of_nat (length (fst ?r))) @ fst ?r, snd ?r)"
    using rd patch unfolding rr_encode_def w rr_header_def Let_def prod.case
    by (simp only: append.assoc append_Cons append_Nil prod.case length_append) simp
  also have "\<dots> = apfst (append out) (rr_bytes r (length out) c)"
    by (simp add: rr_bytes_def Let_def split_beta prod_eq_iff ac_simps)
  finally show ?thesis .
qed

section \<open>Properties\<close>

text \<open>
  The header flag word.  Unpacking a packed flag record gives it back when
  opcode and rcode fit their four bits; packing an unpacked word gives the
  word with the reserved Z bit cleared, for every 16-bit word.
\<close>
theorem flags_word_roundtrip:
  "(unat (fl_opcode f) < 16 \<and> unat (fl_rcode f) < 16 \<longrightarrow> flags_from_u16 (flags_to_u16 f) = f) \<and>
   flags_to_u16 (flags_from_u16 v) = v AND 0xFFBF"
  using flags_roundtrip flags_reencode by blast

theorem flags_word_roundtrip_witness:
  "flags_from_u16 (flags_to_u16 (flags_default\<lparr>fl_qr := True, fl_rcode := 3\<rparr>)) =
     flags_default\<lparr>fl_qr := True, fl_rcode := 3\<rparr>"
  using flags_word_roundtrip [of "flags_default\<lparr>fl_qr := True, fl_rcode := 3\<rparr>" 0]
  by (simp add: flags_default_def)

text \<open>
  \<open>type_code\<close> inverts \<open>type_name\<close> on every record type except the five
  meta types OPT, IXFR, AXFR, TSIG and ANY, whose mnemonics it does not know.
\<close>
theorem type_mnemonic_roundtrip:
  "type_code (type_name t) =
     (if t \<in> {TYPE_OPT, TYPE_IXFR, TYPE_AXFR, TYPE_TSIG, TYPE_ANY} then None else Some t)"
  by (rule type_code_type_name)

end
