(* ===== verification/Dns_Message.thy ===== *)
theory Dns_Message
  imports Dns_Record
begin

text \<open>
  Messages (\<open>dns-proto/src/message.rs\<close>, from \<open>Edns\<close> on): the EDNS option
  list, the TSIG record, whole-message parsing and encoding, truncation.
\<close>

section \<open>EDNS\<close>

record edns =
  ed_udp_payload :: u16
  ed_ext_rcode :: byte
  ed_version :: byte
  ed_do_bit :: bool
  ed_options :: bytes

abbreviation (input) EDNS_COOKIE :: u16 where "EDNS_COOKIE \<equiv> 10"
abbreviation (input) EDNS_EDE :: u16 where "EDNS_EDE \<equiv> 15"

definition ede_option :: "u16 \<Rightarrow> string \<Rightarrow> bytes" where
  "ede_option info_code txt_s = to_be16 info_code @ as_bytes txt_s"

definition edns_ours :: edns where
  "edns_ours = \<lparr>ed_udp_payload = 1232, ed_ext_rcode = 0, ed_version = 0, ed_do_bit = False,
     ed_options = []\<rparr>"

text \<open>The loop of \<open>get_option\<close>, on the options from index \<open>i\<close> on.\<close>

function get_option_loop :: "bytes \<Rightarrow> u16 \<Rightarrow> nat \<Rightarrow> bytes option" where
  "get_option_loop opts code i =
     (if i + 4 \<le> length opts then
        let c = from_be16 (opts ! i) (opts ! (i + 1));
            len = unat (from_be16 (opts ! (i + 2)) (opts ! (i + 3)));
            start = i + 4;
            fin = start + len in
        if fin > length opts then None
        else if c = code then Some (take (fin - start) (drop start opts))
        else get_option_loop opts code fin
      else None)"
  by pat_completeness auto

termination get_option_loop
  by (relation "measure (\<lambda>(opts, _, i). length opts - i)") (auto simp: Let_def)

definition get_option :: "edns \<Rightarrow> u16 \<Rightarrow> bytes option" where
  "get_option e code = get_option_loop (ed_options e) code 0"

function remove_option_loop :: "bytes \<Rightarrow> u16 \<Rightarrow> nat \<Rightarrow> bytes \<Rightarrow> bytes" where
  "remove_option_loop opts code i out =
     (if i + 4 \<le> length opts then
        let c = from_be16 (opts ! i) (opts ! (i + 1));
            len = unat (from_be16 (opts ! (i + 2)) (opts ! (i + 3)));
            fin = min (i + 4 + len) (length opts) in
        remove_option_loop opts code fin
          (if c \<noteq> code then out @ take (fin - i) (drop i opts) else out)
      else out)"
  by pat_completeness auto

termination remove_option_loop
  by (relation "measure (\<lambda>(opts, _, i, _). length opts - i)") (auto simp: Let_def)

definition remove_option :: "edns \<Rightarrow> u16 \<Rightarrow> edns" where
  "remove_option e code = e\<lparr>ed_options := remove_option_loop (ed_options e) code 0 []\<rparr>"

definition set_option :: "edns \<Rightarrow> u16 \<Rightarrow> bytes \<Rightarrow> edns" where
  "set_option e code data =
     (let e' = remove_option e code in
      e'\<lparr>ed_options := ed_options e' @ to_be16 code @ to_be16 (word_of_nat (length data)) @ data\<rparr>)"

section \<open>TSIG\<close>

record tsig =
  ts_key_name :: dns_name
  ts_algorithm :: dns_name
  ts_time_signed :: u64
  ts_fudge :: u16
  ts_mac :: bytes
  ts_original_id :: u16
  ts_error :: u16
  ts_other :: bytes

definition tsig_variables :: "tsig \<Rightarrow> bytes" where
  "tsig_variables t =
     (let v = name_out (ts_key_name t) [];
          v = v @ to_be16 CLASS_ANY @ to_be32 0;
          v = name_out (ts_algorithm t) v
      in v @ to_be48 (ts_time_signed t) @ to_be16 (ts_fudge t) @ to_be16 (ts_error t) @
         to_be16 (word_of_nat (length (ts_other t))) @ ts_other t)"

definition tsig_encode_rr :: "tsig \<Rightarrow> bytes \<Rightarrow> bytes" where
  "tsig_encode_rr t out0 =
     (let out1 = name_out (ts_key_name t) out0 @ to_be16 TYPE_TSIG @ to_be16 CLASS_ANY @ to_be32 0;
          len_at = length out1;
          out2 = name_out (ts_algorithm t) (out1 @ [0, 0]);
          out3 = out2 @ to_be48 (ts_time_signed t) @ to_be16 (ts_fudge t) @
            to_be16 (word_of_nat (length (ts_mac t))) @ ts_mac t @ to_be16 (ts_original_id t) @
            to_be16 (ts_error t) @ to_be16 (word_of_nat (length (ts_other t))) @ ts_other t;
          rdlen = word_of_nat (length out3 - len_at - 2) :: u16
      in copy_from_slice out3 len_at (to_be16 rdlen))"

definition tsig_parse_rdata :: "dns_name \<Rightarrow> tsig decoder" where
  "tsig_parse_rdata key_name buf pos =
     and_then (from_wire buf pos) (\<lambda>(algorithm, p1).
     and_then (read_u16 buf p1) (\<lambda>(hi, p2).
     and_then (read_u32 buf p2) (\<lambda>(lo, p3).
     and_then (read_u16 buf p3) (\<lambda>(fudge, p4).
     and_then (read_u16 buf p4) (\<lambda>(mac_size, p5).
     and_then (read_bytes buf p5 (unat mac_size)) (\<lambda>(mac, p6).
     and_then (read_u16 buf p6) (\<lambda>(original_id, p7).
     and_then (read_u16 buf p7) (\<lambda>(error, p8).
     and_then (read_u16 buf p8) (\<lambda>(other_len, p9).
     and_then (read_bytes buf p9 (unat other_len)) (\<lambda>(other, p10).
       Inr (\<lparr>ts_key_name = key_name, ts_algorithm = algorithm,
             ts_time_signed = push_bit 32 (ucast hi) OR ucast lo, ts_fudge = fudge, ts_mac = mac,
             ts_original_id = original_id, ts_error = error, ts_other = other\<rparr>, p10)))))))))))"

section \<open>Messages\<close>

record question =
  q_name :: dns_name
  q_type :: u16
  q_class :: u16

record message =
  m_id :: u16
  m_flags :: flags
  m_questions :: "question list"
  m_answers :: "rr list"
  m_authorities :: "rr list"
  m_additionals :: "rr list"
  m_edns :: "edns option"
  m_tsig :: "tsig option"
  m_tsig_start :: "nat option"

definition message_new :: "u16 \<Rightarrow> flags \<Rightarrow> message" where
  "message_new i f =
     \<lparr>m_id = i, m_flags = f, m_questions = [], m_answers = [], m_authorities = [],
      m_additionals = [], m_edns = None, m_tsig = None, m_tsig_start = None\<rparr>"

definition response_to :: "message \<Rightarrow> message" where
  "response_to query =
     (message_new (m_id query)
        (flags_default\<lparr>fl_qr := True, fl_opcode := fl_opcode (m_flags query), fl_rd := fl_rd (m_flags query)\<rparr>))
     \<lparr>m_questions := m_questions query,
      m_edns := map_option (\<lambda>_. edns_ours) (m_edns query)\<rparr>"

datatype entry = Entry_Rr rr | Entry_Opt edns | Entry_Tsig tsig

definition parse_entry :: "entry decoder" where
  "parse_entry buf pos =
     and_then (from_wire buf pos) (\<lambda>(name, p1).
     and_then (read_u16 buf p1) (\<lambda>(rtype, p2).
     and_then (read_u16 buf p2) (\<lambda>(cls, p3).
     and_then (read_u32 buf p3) (\<lambda>(ttl, p4).
     and_then (read_u16 buf p4) (\<lambda>(rdlen16, p5).
       let rdlen = unat rdlen16 in
       if rtype = TYPE_TSIG then
         let fin = p5 + rdlen in
         and_then (tsig_parse_rdata name buf p5)
           (\<lambda>(t, p6). if p6 \<noteq> fin then Inl BadRdata else Inr (Entry_Tsig t, p6))
       else if rtype = TYPE_OPT then
         and_then (read_bytes buf p5 rdlen) (\<lambda>(data, p6).
           Inr (Entry_Opt \<lparr>ed_udp_payload = cls, ed_ext_rcode = ucast (drop_bit 24 ttl),
                  ed_version = ucast (drop_bit 16 ttl), ed_do_bit = (ttl AND 0x8000 \<noteq> 0),
                  ed_options = data\<rparr>, p6))
       else
         and_then (rdata_parse rtype buf p5 rdlen) (\<lambda>(rdata, p6).
           Inr (Entry_Rr \<lparr>rr_name = name, rr_class = cls, rr_ttl = ttl, rr_rdata = rdata\<rparr>, p6)))))))"

definition parse_question :: "question decoder" where
  "parse_question buf pos =
     and_then (from_wire buf pos) (\<lambda>(qname, p1).
     and_then (read_u16 buf p1) (\<lambda>(qtype, p2).
     and_then (read_u16 buf p2) (\<lambda>(qclass, p3).
       Inr (\<lparr>q_name = qname, q_type = qtype, q_class = qclass\<rparr>, p3))))"

text \<open>The answer and authority loops keep records and drop misplaced pseudo-records.\<close>

fun parse_section :: "nat \<Rightarrow> bytes \<Rightarrow> nat \<Rightarrow> rr list \<Rightarrow> wire_error + (rr list \<times> nat)" where
  "parse_section 0 buf pos acc = Inr (acc, pos)"
| "parse_section (Suc k) buf pos acc =
     and_then (parse_entry buf pos) (\<lambda>(e, p).
       parse_section k buf p (case e of Entry_Rr r \<Rightarrow> acc @ [r] | _ \<Rightarrow> acc))"

fun parse_additional :: "nat \<Rightarrow> bytes \<Rightarrow> nat \<Rightarrow> message \<Rightarrow> wire_error + (message \<times> nat)" where
  "parse_additional 0 buf pos msg = Inr (msg, pos)"
| "parse_additional (Suc k) buf pos msg =
     and_then (parse_entry buf pos) (\<lambda>(e, p).
       parse_additional k buf p
         (case e of
            Entry_Rr r \<Rightarrow> msg\<lparr>m_additionals := m_additionals msg @ [r]\<rparr>
          | Entry_Opt ed \<Rightarrow> (if m_edns msg = None then msg\<lparr>m_edns := Some ed\<rparr> else msg)
          | Entry_Tsig t \<Rightarrow> msg\<lparr>m_tsig := Some t, m_tsig_start := Some pos\<rparr>))"

definition message_parse :: "bytes \<Rightarrow> wire_error + message" where
  "message_parse buf =
     and_then (read_u16 buf 0) (\<lambda>(i, p1).
     and_then (read_u16 buf p1) (\<lambda>(fl, p2).
     and_then (read_u16 buf p2) (\<lambda>(qd, p3).
     and_then (read_u16 buf p3) (\<lambda>(an, p4).
     and_then (read_u16 buf p4) (\<lambda>(ns, p5).
     and_then (read_u16 buf p5) (\<lambda>(ar, p6).
     and_then (decode_n parse_question (unat qd) buf p6) (\<lambda>(questions, p7).
     and_then (parse_section (unat an) buf p7 []) (\<lambda>(answers, p8).
     and_then (parse_section (unat ns) buf p8 []) (\<lambda>(authorities, p9).
     and_then (parse_additional (unat ar) buf p9
        ((message_new i (flags_from_u16 fl))
         \<lparr>m_questions := questions, m_answers := answers, m_authorities := authorities\<rparr>)) (\<lambda>(msg, _).
       Inr msg))))))))))"

definition question_encode :: "question encoder" where
  "question_encode q out c =
     (case to_wire_with (q_name q) out c of (out', c') \<Rightarrow>
        (out' @ to_be16 (q_type q) @ to_be16 (q_class q), c'))"

definition edns_encode :: "edns \<Rightarrow> bytes" where
  "edns_encode e =
     [0] @ to_be16 TYPE_OPT @ to_be16 (ed_udp_payload e) @
     to_be32 (push_bit 24 (ucast (ed_ext_rcode e)) OR push_bit 16 (ucast (ed_version e))
              OR (if ed_do_bit e then 0x8000 else 0)) @
     to_be16 (word_of_nat (length (ed_options e))) @ ed_options e"

definition header_bytes :: "message \<Rightarrow> bytes" where
  "header_bytes m =
     to_be16 (m_id m) @ to_be16 (flags_to_u16 (m_flags m)) @
     to_be16 (word_of_nat (length (m_questions m))) @
     to_be16 (word_of_nat (length (m_answers m))) @
     to_be16 (word_of_nat (length (m_authorities m))) @
     to_be16 (word_of_nat (length (m_additionals m) + (if m_edns m = None then 0 else 1)))"

definition message_encode :: "message \<Rightarrow> bytes" where
  "message_encode m =
     (let (out1, c1) = encode_all question_encode (m_questions m) (header_bytes m) new_compressor;
          (out2, c2) = encode_all rr_encode (m_answers m @ m_authorities m @ m_additionals m) out1 c1
      in case m_edns m of None \<Rightarrow> out2 | Some e \<Rightarrow> out2 @ edns_encode e)"

definition encode_with_tsig :: "message \<Rightarrow> tsig \<Rightarrow> bytes" where
  "encode_with_tsig m t =
     (let out = tsig_encode_rr t (message_encode m);
          arcount = from_be16 (out ! 10) (out ! 11) + 1
      in copy_from_slice out 10 (to_be16 arcount))"

definition encode_limited :: "message \<Rightarrow> nat \<Rightarrow> bytes" where
  "encode_limited m limit =
     (let full = message_encode m in
      if length full \<le> limit then full
      else message_encode
             (m\<lparr>m_flags := (m_flags m)\<lparr>fl_tc := True\<rparr>, m_answers := [], m_authorities := [],
                m_additionals := []\<rparr>))"

section \<open>Records and questions as codecs\<close>

lemma rr_rtype_not_pseudo: "rdata_ok (rr_rdata r) \<Longrightarrow> rr_rtype r \<noteq> TYPE_TSIG \<and> rr_rtype r \<noteq> TYPE_OPT"
  by (cases "rr_rdata r") (simp_all add: rr_rtype_def)

lemma parse_entry_rr_at:
  assumes "has_at buf p (fst (rr_bytes r p c))" "rr_ok r" "comp_ok buf p (Some c)"
  defines "k \<equiv> length (fst (rr_bytes r p c))"
  shows "parse_entry buf p = Inr (Entry_Rr r, p + k) \<and> comp_ok buf (p + k) (Some (snd (rr_bytes r p c)))"
proof -
  let ?b1 = "fst (name_bytes (rr_name r) p (Some c))"
  let ?c1 = "the (snd (name_bytes (rr_name r) p (Some c)))"
  let ?q = "p + length ?b1"
  let ?r = "rdata_bytes (rr_rdata r) (?q + 10) ?c1"
  have ok: "name_ok (rr_name r)" "rdata_ok (rr_rdata r)"
    using assms(2) by (simp_all add: rr_ok_def)
  have bytes: "rr_bytes r p c = (?b1 @ rr_header r @ to_be16 (word_of_nat (length (fst ?r))) @ fst ?r, snd ?r)"
    by (simp add: rr_bytes_def Let_def split_beta)
  have at: "has_at buf p ?b1" "has_at buf ?q (to_be16 (rr_rtype r))" "has_at buf (?q + 2) (to_be16 (rr_class r))"
    "has_at buf (?q + 2 + 2) (to_be32 (rr_ttl r))"
    "has_at buf (?q + 2 + 2 + 4) (to_be16 (word_of_nat (length (fst ?r))))" "has_at buf (?q + 10) (fst ?r)"
    using assms(1) by (simp_all add: bytes rr_header_def ac_simps)
  note n = name_in_rdata [OF at(1) ok(1) assms(3)]
  have len: "unat (word_of_nat (length (fst ?r)) :: u16) = length (fst ?r)"
    using length_rdata_bytes [OF ok(2)] by (rule unat_of_nat16)
  have sum: "?q + 2 + 2 + 4 + 2 = ?q + 10" by simp
  from rdata_parse_at [OF at(6) ok(2) comp_ok_skip [OF n(2)]]
  have rd: "rdata_parse (rr_rtype r) buf (?q + 10) (length (fst ?r)) = Inr (rr_rdata r, ?q + 10 + length (fst ?r))"
    and c: "comp_ok buf (?q + 10 + length (fst ?r)) (Some (snd ?r))"
    by (simp_all only: rr_rtype_def)
  have "parse_entry buf p = Inr (Entry_Rr r, ?q + 10 + length (fst ?r))"
    using rr_rtype_not_pseudo [OF ok(2)]
    by (simp only: parse_entry_def n(1) at(2,3,5) [THEN read_u16_at] read_u32_at [OF at(4)] sum len rd
          and_then_simps prod.case Let_def if_False) simp
  moreover have "p + k = ?q + 10 + length (fst ?r)"
    by (simp add: k_def bytes)
  moreover have "snd (rr_bytes r p c) = snd ?r" by (simp add: bytes)
  ultimately show ?thesis using c by (simp only: simp_thms)
qed

interpretation rr_codec: codec rr_encode parse_entry rr_ok Entry_Rr
proof unfold_locales
  fix p r c
  show "\<exists>bs c'. \<forall>out. length out = p \<longrightarrow> rr_encode r out c = (out @ bs, c')"
    by (rule exI [of _ "fst (rr_bytes r p c)"], rule exI [of _ "snd (rr_bytes r p c)"])
       (simp add: rr_encode_bytes prod_eq_iff)
next
  fix r out c bs c' buf
  assume "rr_ok r" "rr_encode r out c = (out @ bs, c')" "has_at buf (length out) bs"
    "comp_ok buf (length out) (Some c)"
  then show "parse_entry buf (length out) = Inr (Entry_Rr r, length out + length bs) \<and>
      comp_ok buf (length out + length bs) (Some c')"
    using parse_entry_rr_at [of buf "length out" r c] by (auto simp: rr_encode_bytes prod_eq_iff)
qed

definition question_ok :: "question \<Rightarrow> bool" where
  "question_ok q \<longleftrightarrow> name_ok (q_name q)"

interpretation question_codec: codec question_encode parse_question question_ok id
proof unfold_locales
  fix p c and q :: question
  obtain bs c' where "\<And>out. length out = p \<Longrightarrow> to_wire_with (q_name q) out c = (out @ bs, c')"
    using name_codec.positional [of p "q_name q" c] by blast
  then show "\<exists>bs c'. \<forall>out. length out = p \<longrightarrow> question_encode q out c = (out @ bs, c')"
    by (intro exI [of _ "bs @ to_be16 (q_type q) @ to_be16 (q_class q)"] exI [of _ c'])
       (simp add: question_encode_def)
next
  fix out c bs c' buf and q :: question
  assume ok: "question_ok q" and enc: "question_encode q out c = (out @ bs, c')"
    and at: "has_at buf (length out) bs" and c: "comp_ok buf (length out) (Some c)"
  obtain b1 where w: "to_wire_with (q_name q) out c = (out @ b1, c')"
    and bs: "bs = b1 @ to_be16 (q_type q) @ to_be16 (q_class q)"
    using name_codec.enc_appends [of "q_name q" out c] enc by (auto simp: question_encode_def)
  have at': "has_at buf (length out) b1" "has_at buf (length out + length b1) (to_be16 (q_type q))"
    "has_at buf (length out + length b1 + 2) (to_be16 (q_class q))"
    using at by (simp_all add: bs)
  from name_codec.dec_enc [OF _ w at'(1) c] ok
  have n: "from_wire buf (length out) = Inr (q_name q, length out + length b1)"
    "comp_ok buf (length out + length b1) (Some c')"
    by (simp_all add: question_ok_def)
  have "parse_question buf (length out) = Inr (q, length out + length b1 + 2 + 2)"
    by (simp only: parse_question_def n(1) at'(2,3) [THEN read_u16_at] and_then_simps prod.case) simp
  then show "parse_question buf (length out) = Inr (id q, length out + length bs) \<and>
      comp_ok buf (length out + length bs) (Some c')"
    using comp_ok_skip [OF n(2), of 4] by (simp add: bs add.assoc)
qed

section \<open>Pseudo-records\<close>

lemma has_at_root: "has_at buf p [0] \<Longrightarrow> from_wire buf p = Inr ([], p + 1)"
  unfolding from_wire_iff using name_at.root [of buf p] by auto

lemma edns_trestfields:
  fixes e v :: byte and d :: bool
  defines "w \<equiv> push_bit 24 (ucast e) OR push_bit 16 (ucast v) OR (if d then 0x8000 else 0) :: u32"
  shows "ucast (drop_bit 24 w) = e" "ucast (drop_bit 16 w) = v" "w AND 0x8000 \<noteq> 0 \<longleftrightarrow> d"
proof -
  have d: "(if d then 0x8000 else 0 :: u32) = push_bit 15 (of_bool d)" by simp
  have high: "bit b k \<Longrightarrow> k < 8" for b :: byte and k
    using bit_imp_le_length [of b k] by simp
  show "ucast (drop_bit 24 w) = e" "ucast (drop_bit 16 w) = v"
    unfolding w_def d by (rule bit_word_eqI, auto simp: bit_simps dest: high)+
  have "w AND 0x8000 \<noteq> 0 \<longleftrightarrow> bit w 15"
    by (simp add: bit_iff_and_push_bit_not_eq_0)
  then show "w AND 0x8000 \<noteq> 0 \<longleftrightarrow> d"
    unfolding w_def d by (auto simp: bit_simps)
qed

lemma parse_entry_edns_at:
  assumes "has_at buf p (edns_encode e)" "length (ed_options e) < 65536"
  shows "parse_entry buf p = Inr (Entry_Opt e, p + length (edns_encode e))"
proof -
  let ?ttl = "push_bit 24 (ucast (ed_ext_rcode e)) OR push_bit 16 (ucast (ed_version e))
              OR (if ed_do_bit e then 0x8000 else 0) :: u32"
  have at: "has_at buf p [0]" "has_at buf (p + 1) (to_be16 TYPE_OPT)"
    "has_at buf (p + 1 + 2) (to_be16 (ed_udp_payload e))" "has_at buf (p + 1 + 2 + 2) (to_be32 ?ttl)"
    "has_at buf (p + 1 + 2 + 2 + 4) (to_be16 (word_of_nat (length (ed_options e))))"
    "has_at buf (p + 1 + 2 + 2 + 4 + 2) (ed_options e)"
    using assms(1) by (simp_all only: edns_encode_def has_at_append length_to_be length_append
        list.size add.assoc) (simp_all add: numeral_eq_Suc)
  have len: "unat (word_of_nat (length (ed_options e)) :: u16) = length (ed_options e)"
    using assms(2) by (rule unat_of_nat16)
  have "parse_entry buf p = Inr (Entry_Opt e, p + 1 + 2 + 2 + 4 + 2 + length (ed_options e))"
    by (simp only: parse_entry_def has_at_root [OF at(1)] at(2,3,5) [THEN read_u16_at] read_u32_at [OF at(4)]
          len read_bytes_at [OF at(6) refl] edns_trestfields and_then_simps prod.case Let_def) simp
  then show ?thesis by (simp add: edns_encode_def)
qed

text \<open>What \<open>tsig_encode_rr\<close> appends.\<close>

definition tsig_rdata :: "tsig \<Rightarrow> bytes" where
  "tsig_rdata t = fst (name_bytes (ts_algorithm t) 0 None) @ to_be48 (ts_time_signed t) @
     to_be16 (ts_fudge t) @ to_be16 (word_of_nat (length (ts_mac t))) @ ts_mac t @
     to_be16 (ts_original_id t) @ to_be16 (ts_error t) @
     to_be16 (word_of_nat (length (ts_other t))) @ ts_other t"

definition tsig_bytes :: "tsig \<Rightarrow> bytes" where
  "tsig_bytes t = fst (name_bytes (ts_key_name t) 0 None) @ to_be16 TYPE_TSIG @ to_be16 CLASS_ANY @
     to_be32 0 @ to_be16 (word_of_nat (length (tsig_rdata t))) @ tsig_rdata t"

definition tsig_ok :: "tsig \<Rightarrow> bool" where
  "tsig_ok t \<longleftrightarrow> wf_name (ts_key_name t) \<and> wf_name (ts_algorithm t) \<and> ts_time_signed t < 2 ^ 48 \<and>
     length (ts_mac t) < 65536 \<and> length (ts_other t) < 65536 \<and> length (tsig_rdata t) < 65536"

lemma name_bytes_None_pos: "fst (name_bytes n p None) = fst (name_bytes n q None)"
proof (induction n arbitrary: p q)
  case (Cons l n)
  then show ?case using Cons.IH [of "p + 1 + length l" "q + 1 + length l"] by simp
qed simp

lemma name_out_bytes: "name_out n out = out @ fst (name_bytes n 0 None)"
  using name_bytes_None_pos [of n "length out" 0] by (simp add: name_out_def to_wire_bytes)

lemma tsig_encode_rr_bytes: "tsig_encode_rr t out = out @ tsig_bytes t"
proof -
  let ?pre = "out @ fst (name_bytes (ts_key_name t) 0 None) @ to_be16 TYPE_TSIG @ to_be16 CLASS_ANY @ to_be32 0"
  have patch: "copy_from_slice (?pre @ [0, 0] @ tsig_rdata t) (length ?pre) (to_be16 x) =
      ?pre @ to_be16 x @ tsig_rdata t" for x
    by (rule copy_from_slice_append) simp
  have "tsig_encode_rr t out = copy_from_slice (?pre @ [0, 0] @ tsig_rdata t) (length ?pre)
      (to_be16 (word_of_nat (length (tsig_rdata t))))"
    by (simp add: tsig_encode_rr_def Let_def name_out_bytes tsig_rdata_def ac_simps)
  also have "\<dots> = out @ tsig_bytes t"
    unfolding patch by (simp add: tsig_bytes_def)
  finally show ?thesis .
qed

lemma from_wire_plain_at:
  assumes "has_at buf p (fst (name_bytes n 0 None))" "wf_name n"
  shows "from_wire buf p = Inr (n, p + length (fst (name_bytes n 0 None)))"
  using from_wire_uncompressed [of buf p n] assms name_bytes_None_pos [of n p 0] by simp

lemma tsig_parse_rdata_at:
  assumes "has_at buf p (tsig_rdata t)" "tsig_ok t"
  shows "tsig_parse_rdata (ts_key_name t) buf p = Inr (t, p + length (tsig_rdata t))"
proof -
  let ?a = "fst (name_bytes (ts_algorithm t) 0 None)"
  let ?q = "p + length ?a" let ?m = "length (ts_mac t)" and ?o = "length (ts_other t)"
  have at: "has_at buf p ?a" "has_at buf ?q (to_be16 (ucast (drop_bit 32 (ts_time_signed t))))"
    "has_at buf (?q + 2) (to_be32 (ucast (ts_time_signed t)))"
    "has_at buf (?q + 2 + 4) (to_be16 (ts_fudge t))"
    "has_at buf (?q + 2 + 4 + 2) (to_be16 (word_of_nat ?m))"
    "has_at buf (?q + 2 + 4 + 2 + 2) (ts_mac t)"
    "has_at buf (?q + 2 + 4 + 2 + 2 + ?m) (to_be16 (ts_original_id t))"
    "has_at buf (?q + 2 + 4 + 2 + 2 + ?m + 2) (to_be16 (ts_error t))"
    "has_at buf (?q + 2 + 4 + 2 + 2 + ?m + 2 + 2) (to_be16 (word_of_nat ?o))"
    "has_at buf (?q + 2 + 4 + 2 + 2 + ?m + 2 + 2 + 2) (ts_other t)"
    using assms(1) by (simp_all add: tsig_rdata_def to_be48_split ac_simps)
  have ok: "wf_name (ts_algorithm t)" "ts_time_signed t < 2 ^ 48"
    "unat (word_of_nat ?m :: u16) = ?m" "unat (word_of_nat ?o :: u16) = ?o"
    using assms(2) by (simp_all only: tsig_ok_def unat_of_nat16)
  have "tsig_parse_rdata (ts_key_name t) buf p =
      Inr (t, ?q + 2 + 4 + 2 + 2 + ?m + 2 + 2 + 2 + ?o)"
    by (simp only: tsig_parse_rdata_def from_wire_plain_at [OF at(1) ok(1)] at(2,4,5,7-9) [THEN read_u16_at]
          read_u32_at [OF at(3)] ok(3,4) read_bytes_at [OF at(6) refl] read_bytes_at [OF at(10) refl]
          from_be48 [OF ok(2)] and_then_simps prod.case) simp
  then show ?thesis by (simp add: tsig_rdata_def)
qed

lemma parse_entry_tsig_at:
  assumes "has_at buf p (tsig_bytes t)" "tsig_ok t"
  shows "parse_entry buf p = Inr (Entry_Tsig t, p + length (tsig_bytes t))"
proof -
  let ?b = "fst (name_bytes (ts_key_name t) 0 None)"
  let ?q = "p + length ?b" and ?l = "length (tsig_rdata t)"
  have at: "has_at buf p ?b" "has_at buf ?q (to_be16 TYPE_TSIG)" "has_at buf (?q + 2) (to_be16 CLASS_ANY)"
    "has_at buf (?q + 2 + 2) (to_be32 0)" "has_at buf (?q + 2 + 2 + 4) (to_be16 (word_of_nat ?l))"
    "has_at buf (?q + 2 + 2 + 4 + 2) (tsig_rdata t)"
    using assms(1) by (simp_all add: tsig_bytes_def ac_simps)
  have ok: "wf_name (ts_key_name t)" "unat (word_of_nat ?l :: u16) = ?l"
    using assms(2) by (simp_all only: tsig_ok_def unat_of_nat16)
  have "parse_entry buf p = Inr (Entry_Tsig t, ?q + 2 + 2 + 4 + 2 + ?l)"
    by (simp only: parse_entry_def from_wire_plain_at [OF at(1) ok(1)] at(2,3,5) [THEN read_u16_at]
          read_u32_at [OF at(4)] ok(2) tsig_parse_rdata_at [OF at(6) assms(2)] and_then_simps prod.case Let_def) simp
  then show ?thesis by (simp add: tsig_bytes_def)
qed

section \<open>Sections of a message\<close>

lemma parse_section_records:
  "decode_n parse_entry k buf p = Inr (map Entry_Rr rs, q) \<Longrightarrow>
     parse_section k buf p acc = Inr (acc @ rs, q)"
  by (induction k arbitrary: p rs acc) (auto simp: and_then_eq_Inr_iff)

lemma parse_additional_records:
  "decode_n parse_entry k buf p = Inr (map Entry_Rr rs, q) \<Longrightarrow>
     parse_additional k buf p msg = Inr (msg\<lparr>m_additionals := m_additionals msg @ rs\<rparr>, q)"
  by (induction k arbitrary: p rs msg) (auto simp: and_then_eq_Inr_iff)

lemma parse_additional_add:
  "parse_additional (j + k) buf p msg =
     and_then (parse_additional j buf p msg) (\<lambda>(msg', p'). parse_additional k buf p' msg')"
proof (induction j arbitrary: p msg)
  case (Suc j)
  then show ?case by (cases "parse_entry buf p") (auto split: prod.splits)
qed simp

definition message_ok :: "message \<Rightarrow> bool" where
  "message_ok m \<longleftrightarrow>
     unat (fl_opcode (m_flags m)) < 16 \<and> unat (fl_rcode (m_flags m)) < 16 \<and>
     length (m_questions m) < 65536 \<and> length (m_answers m) < 65536 \<and>
     length (m_authorities m) < 65536 \<and> length (m_additionals m) + 1 < 65536 \<and>
     list_all question_ok (m_questions m) \<and> list_all rr_ok (m_answers m) \<and>
     list_all rr_ok (m_authorities m) \<and> list_all rr_ok (m_additionals m) \<and>
     (case m_edns m of None \<Rightarrow> True | Some e \<Rightarrow> length (ed_options e) < 65536) \<and>
     m_tsig m = None \<and> m_tsig_start m = None"

text \<open>
  The encoder in sections, for a buffer that continues behind the records:
  every section is read back where it was written.
\<close>

definition edns_bytes :: "message \<Rightarrow> bytes" where
  "edns_bytes m = (case m_edns m of None \<Rightarrow> [] | Some e \<Rightarrow> edns_encode e)"

lemma length_header_bytes [simp]: "length (header_bytes m) = 12"
  by (simp add: header_bytes_def)

lemma message_encode_sections:
  obtains bq ba bn br cq ca cn cr where
    "message_encode m = header_bytes m @ bq @ ba @ bn @ br @ edns_bytes m"
    "encode_all question_encode (m_questions m) (header_bytes m) new_compressor = (header_bytes m @ bq, cq)"
    "encode_all rr_encode (m_answers m) (header_bytes m @ bq) cq = (header_bytes m @ bq @ ba, ca)"
    "encode_all rr_encode (m_authorities m) (header_bytes m @ bq @ ba) ca = (header_bytes m @ bq @ ba @ bn, cn)"
    "encode_all rr_encode (m_additionals m) (header_bytes m @ bq @ ba @ bn) cn =
       (header_bytes m @ bq @ ba @ bn @ br, cr)"
proof -
  let ?h = "header_bytes m"
  obtain bq cq where q: "encode_all question_encode (m_questions m) ?h new_compressor = (?h @ bq, cq)"
    using question_codec.all_appends by blast
  obtain ba ca where a: "encode_all rr_encode (m_answers m) (?h @ bq) cq = ((?h @ bq) @ ba, ca)"
    using rr_codec.all_appends by blast
  obtain bn cn where n: "encode_all rr_encode (m_authorities m) ((?h @ bq) @ ba) ca = (((?h @ bq) @ ba) @ bn, cn)"
    using rr_codec.all_appends by blast
  obtain br cr where r: "encode_all rr_encode (m_additionals m) (((?h @ bq) @ ba) @ bn) cn =
      ((((?h @ bq) @ ba) @ bn) @ br, cr)"
    using rr_codec.all_appends by blast
  have "message_encode m = ?h @ bq @ ba @ bn @ br @ edns_bytes m"
    using q a n r
    by (simp add: message_encode_def encode_all_append edns_bytes_def split: option.splits)
  then show ?thesis using that q a n r by simp
qed

text \<open>The header up to the ARCOUNT field, which TSIG signing increments in place.\<close>

definition header_front :: "message \<Rightarrow> bytes" where
  "header_front m =
     to_be16 (m_id m) @ to_be16 (flags_to_u16 (m_flags m)) @
     to_be16 (word_of_nat (length (m_questions m))) @
     to_be16 (word_of_nat (length (m_answers m))) @
     to_be16 (word_of_nat (length (m_authorities m)))"

definition arcount :: "message \<Rightarrow> nat" where
  "arcount m = length (m_additionals m) + (if m_edns m = None then 0 else 1)"

lemma header_split: "header_bytes m = header_front m @ to_be16 (word_of_nat (arcount m))"
  by (simp add: header_bytes_def header_front_def arcount_def)

lemma length_header_front [simp]: "length (header_front m) = 10"
  by (simp add: header_front_def)

lemma header_at:
  assumes "has_at buf 0 (header_front m)" "message_ok m"
  shows "read_u16 buf 0 = Inr (m_id m, 2)" "read_u16 buf 2 = Inr (flags_to_u16 (m_flags m), 4)"
    "read_u16 buf 4 = Inr (word_of_nat (length (m_questions m)), 6)"
    "read_u16 buf 6 = Inr (word_of_nat (length (m_answers m)), 8)"
    "read_u16 buf 8 = Inr (word_of_nat (length (m_authorities m)), 10)"
proof -
  have "has_at buf 0 (to_be16 (m_id m))" "has_at buf 2 (to_be16 (flags_to_u16 (m_flags m)))"
    "has_at buf 4 (to_be16 (word_of_nat (length (m_questions m))))"
    "has_at buf 6 (to_be16 (word_of_nat (length (m_answers m))))"
    "has_at buf 8 (to_be16 (word_of_nat (length (m_authorities m))))"
    using assms(1) by (simp_all only: header_front_def has_at_append length_to_be add_0_left
        numeral_plus_numeral add_num_simps)
  from this [THEN read_u16_at]
  show "read_u16 buf 0 = Inr (m_id m, 2)" "read_u16 buf 2 = Inr (flags_to_u16 (m_flags m), 4)"
    "read_u16 buf 4 = Inr (word_of_nat (length (m_questions m)), 6)"
    "read_u16 buf 6 = Inr (word_of_nat (length (m_answers m)), 8)"
    "read_u16 buf 8 = Inr (word_of_nat (length (m_authorities m)), 10)"
    by simp_all
qed

lemma message_ok_counts:
  assumes "message_ok m"
  shows "flags_from_u16 (flags_to_u16 (m_flags m)) = m_flags m"
    "unat (word_of_nat (length (m_questions m)) :: u16) = length (m_questions m)"
    "unat (word_of_nat (length (m_answers m)) :: u16) = length (m_answers m)"
    "unat (word_of_nat (length (m_authorities m)) :: u16) = length (m_authorities m)"
    "unat (word_of_nat (arcount m) :: u16) = arcount m"
proof -
  have "arcount m < 65536" using assms by (simp add: arcount_def message_ok_def)
  then show "unat (word_of_nat (arcount m) :: u16) = arcount m" by (rule unat_of_nat16)
qed (use assms in \<open>simp_all add: message_ok_def flags_roundtrip unat_of_nat16\<close>)

text \<open>
  Reading back the questions and records of an encoded message from a buffer
  with the same header front and some ARCOUNT: what is left is the additional
  section.
\<close>

lemma message_parse_sections:
  assumes ok: "message_ok m"
    and q: "encode_all question_encode (m_questions m) h new_compressor = (h @ bq, cq)"
    and a: "encode_all rr_encode (m_answers m) (h @ bq) cq = (h @ bq @ ba, ca)"
    and n: "encode_all rr_encode (m_authorities m) (h @ bq @ ba) ca = (h @ bq @ ba @ bn, cn)"
    and r: "encode_all rr_encode (m_additionals m) (h @ bq @ ba @ bn) cn = (h @ bq @ ba @ bn @ br, cr)"
    and h: "length h = 12" and front: "has_at buf 0 (header_front m)" and ar: "read_u16 buf 10 = Inr (ar, 12)"
    and at: "has_at buf 12 (bq @ ba @ bn @ br)"
  shows "message_parse buf = and_then (parse_additional (unat ar) buf (length (h @ bq @ ba @ bn))
        (m\<lparr>m_additionals := [], m_edns := None\<rparr>)) (\<lambda>(msg, _). Inr msg)"
    and "decode_n parse_entry (length (m_additionals m)) buf (length (h @ bq @ ba @ bn)) =
      Inr (map Entry_Rr (m_additionals m), length (h @ bq @ ba @ bn @ br))"
proof -
  have oks: "list_all question_ok (m_questions m)" "list_all rr_ok (m_answers m)"
    "list_all rr_ok (m_authorities m)" "list_all rr_ok (m_additionals m)"
    using ok by (simp_all add: message_ok_def)
  have at': "has_at buf (length h) bq" "has_at buf (length (h @ bq)) ba"
    "has_at buf (length (h @ bq @ ba)) bn" "has_at buf (length (h @ bq @ ba @ bn)) br"
    using at h by (simp_all add: add.assoc)
  note dq = question_codec.all_dec_enc [OF oks(1) q at'(1) comp_ok_new(1)]
  have 1: "comp_ok buf (length (h @ bq)) (Some cq)" using dq by simp
  have da: "decode_n parse_entry (length (m_answers m)) buf (length (h @ bq)) =
      Inr (map Entry_Rr (m_answers m), length (h @ bq @ ba))"
    "comp_ok buf (length (h @ bq @ ba)) (Some ca)"
    using rr_codec.all_dec_enc [OF oks(2) _ at'(2) 1, of ca] a by (simp_all add: add.assoc)
  have dn: "decode_n parse_entry (length (m_authorities m)) buf (length (h @ bq @ ba)) =
      Inr (map Entry_Rr (m_authorities m), length (h @ bq @ ba @ bn))"
    "comp_ok buf (length (h @ bq @ ba @ bn)) (Some cn)"
    using rr_codec.all_dec_enc [OF oks(3) _ at'(3) da(2), of cn] n by (simp_all add: add.assoc)
  show "decode_n parse_entry (length (m_additionals m)) buf (length (h @ bq @ ba @ bn)) =
      Inr (map Entry_Rr (m_additionals m), length (h @ bq @ ba @ bn @ br))"
    using rr_codec.all_dec_enc [OF oks(4) _ at'(4) dn(2), of cr] r by (simp add: add.assoc)
  have q': "decode_n parse_question (length (m_questions m)) buf 12 = Inr (m_questions m, length (h @ bq))"
    using dq h by simp
  have m: "(message_new (m_id m) (m_flags m))\<lparr>m_questions := m_questions m, m_answers := m_answers m,
      m_authorities := m_authorities m\<rparr> = m\<lparr>m_additionals := [], m_edns := None\<rparr>"
    using ok by (simp add: message_new_def message_ok_def)
  show "message_parse buf = and_then (parse_additional (unat ar) buf (length (h @ bq @ ba @ bn))
        (m\<lparr>m_additionals := [], m_edns := None\<rparr>)) (\<lambda>(msg, _). Inr msg)"
    by (simp only: message_parse_def header_at [OF front ok] ar message_ok_counts [OF ok] q' m
          parse_section_records [OF da(1)] parse_section_records [OF dn(1)] and_then_simps prod.case append_Nil)
qed

section \<open>Round trips of whole messages\<close>

lemma parse_additional_edns:
  assumes "parse_additional k buf p msg = Inr (m\<lparr>m_edns := None\<rparr>, q)" "has_at buf q (edns_bytes m)" "message_ok m"
  shows "parse_additional (k + (if m_edns m = None then 0 else 1)) buf p msg = Inr (m, q + length (edns_bytes m))"
proof (cases "m_edns m")
  case None
  then have "m\<lparr>m_edns := None\<rparr> = m" by simp
  then show ?thesis using assms(1) None by (simp add: edns_bytes_def)
next
  case (Some e)
  with assms(3) have "length (ed_options e) < 65536" by (simp add: message_ok_def)
  with parse_entry_edns_at [of buf q e] assms(2) Some
  have "parse_entry buf q = Inr (Entry_Opt e, q + length (edns_bytes m))" by (simp add: edns_bytes_def)
  moreover have "m\<lparr>m_edns := Some e\<rparr> = m" using Some by simp
  ultimately show ?thesis
    using assms(1) Some parse_additional_add [of k 1 buf p msg] by simp
qed

lemma message_encode_parse:
  assumes "message_ok m"
  shows "message_parse (message_encode m) = Inr m"
proof -
  obtain bq ba bn br cq ca cn cr where
    m: "message_encode m = header_bytes m @ bq @ ba @ bn @ br @ edns_bytes m" (is "?buf = _") and
    enc: "encode_all question_encode (m_questions m) (header_bytes m) new_compressor = (header_bytes m @ bq, cq)"
    "encode_all rr_encode (m_answers m) (header_bytes m @ bq) cq = (header_bytes m @ bq @ ba, ca)"
    "encode_all rr_encode (m_authorities m) (header_bytes m @ bq @ ba) ca = (header_bytes m @ bq @ ba @ bn, cn)"
    "encode_all rr_encode (m_additionals m) (header_bytes m @ bq @ ba @ bn) cn =
       (header_bytes m @ bq @ ba @ bn @ br, cr)"
    by (rule message_encode_sections)
  have at: "has_at ?buf 0 (header_front m)" "has_at ?buf 10 (to_be16 (word_of_nat (arcount m)))"
    "has_at ?buf 12 (bq @ ba @ bn @ br)" "has_at ?buf (length (header_bytes m @ bq @ ba @ bn @ br)) (edns_bytes m)"
    using has_at_whole [of ?buf] m by (simp_all add: header_split add.assoc)
  note sec = message_parse_sections [OF assms enc length_header_bytes at(1) _ at(3)]
  have ar: "read_u16 ?buf 10 = Inr (word_of_nat (arcount m), 12)"
    using read_u16_at [OF at(2)] by simp
  let ?p = "length (header_bytes m @ bq @ ba @ bn)"
  have rec: "parse_additional (length (m_additionals m)) ?buf ?p (m\<lparr>m_additionals := [], m_edns := None\<rparr>) =
      Inr (m\<lparr>m_edns := None\<rparr>, length (header_bytes m @ bq @ ba @ bn @ br))"
    using parse_additional_records [OF sec(2) [OF ar]] by simp
  have "parse_additional (arcount m) ?buf ?p (m\<lparr>m_additionals := [], m_edns := None\<rparr>) = Inr (m, length ?buf)"
    using parse_additional_edns [OF rec at(4) assms] by (simp add: arcount_def m)
  then show ?thesis
    using sec(1) [OF ar] by (simp add: message_ok_counts [OF assms])
qed

lemma message_tsig_parse:
  assumes "message_ok m" "tsig_ok t" "arcount m + 1 < 65536"
  shows "message_parse (encode_with_tsig m t) =
    Inr (m\<lparr>m_tsig := Some t, m_tsig_start := Some (length (message_encode m))\<rparr>)"
proof -
  obtain bq ba bn br cq ca cn cr where
    m: "message_encode m = header_bytes m @ bq @ ba @ bn @ br @ edns_bytes m" and
    enc: "encode_all question_encode (m_questions m) (header_bytes m) new_compressor = (header_bytes m @ bq, cq)"
    "encode_all rr_encode (m_answers m) (header_bytes m @ bq) cq = (header_bytes m @ bq @ ba, ca)"
    "encode_all rr_encode (m_authorities m) (header_bytes m @ bq @ ba) ca = (header_bytes m @ bq @ ba @ bn, cn)"
    "encode_all rr_encode (m_additionals m) (header_bytes m @ bq @ ba @ bn) cn =
       (header_bytes m @ bq @ ba @ bn @ br, cr)"
    by (rule message_encode_sections)
  let ?rest = "bq @ ba @ bn @ br @ edns_bytes m @ tsig_bytes t"
  let ?buf = "header_front m @ to_be16 (word_of_nat (arcount m + 1)) @ ?rest"
  have "encode_with_tsig m t = copy_from_slice (header_front m @ to_be16 (word_of_nat (arcount m)) @ ?rest)
      (length (header_front m)) (to_be16 (word_of_nat (arcount m + 1)))"
    by (simp add: encode_with_tsig_def tsig_encode_rr_bytes m header_split nth_append to_be16_def Let_def
          add.commute)
  then have buf: "encode_with_tsig m t = ?buf"
    by (simp only: copy_from_slice_append length_to_be)
  have at: "has_at ?buf 0 (header_front m)" "has_at ?buf 10 (to_be16 (word_of_nat (arcount m + 1)))"
    "has_at ?buf 12 (bq @ ba @ bn @ br)" "has_at ?buf (length (header_bytes m @ bq @ ba @ bn @ br)) (edns_bytes m)"
    "has_at ?buf (length (message_encode m)) (tsig_bytes t)"
    using has_at_whole [of ?buf] m by (simp_all add: add.assoc)
  note sec = message_parse_sections [OF assms(1) enc length_header_bytes at(1) _ at(3)]
  have ar: "read_u16 ?buf 10 = Inr (word_of_nat (arcount m + 1), 12)"
    using read_u16_at [OF at(2)] by simp
  let ?p = "length (header_bytes m @ bq @ ba @ bn)"
  have "parse_additional (length (m_additionals m)) ?buf ?p (m\<lparr>m_additionals := [], m_edns := None\<rparr>) =
      Inr (m\<lparr>m_edns := None\<rparr>, length (header_bytes m @ bq @ ba @ bn @ br))"
    using parse_additional_records [OF sec(2) [OF ar]] by simp
  from parse_additional_edns [OF this at(4) assms(1)]
  have "parse_additional (arcount m) ?buf ?p (m\<lparr>m_additionals := [], m_edns := None\<rparr>) =
      Inr (m, length (message_encode m))"
    by (simp add: arcount_def m)
  then have "parse_additional (arcount m + 1) ?buf ?p (m\<lparr>m_additionals := [], m_edns := None\<rparr>) =
      Inr (m\<lparr>m_tsig := Some t, m_tsig_start := Some (length (message_encode m))\<rparr>,
        length (message_encode m) + length (tsig_bytes t))"
    using parse_entry_tsig_at [OF at(5) assms(2)] by (simp only: parse_additional_add and_then_simps prod.case) simp
  then show ?thesis
    unfolding buf sec(1) [OF ar] using assms(3) by (simp only: unat_of_nat16 and_then_simps prod.case)
qed

section \<open>The EDNS option list\<close>

text \<open>A well-formed option area is the concatenation of its (code, value) pairs.\<close>

definition option_bytes :: "u16 \<times> bytes \<Rightarrow> bytes" where
  "option_bytes cv = to_be16 (fst cv) @ to_be16 (word_of_nat (length (snd cv))) @ snd cv"

definition options_bytes :: "(u16 \<times> bytes) list \<Rightarrow> bytes" where
  "options_bytes os = concat (map option_bytes os)"

definition options_ok :: "(u16 \<times> bytes) list \<Rightarrow> bool" where
  "options_ok os \<longleftrightarrow> list_all (\<lambda>cv. length (snd cv) < 65536) os"

lemma option_header:
  assumes "opts = pre @ option_bytes (c, v) @ post" "length v < 65536"
  shows "from_be16 (opts ! length pre) (opts ! (length pre + 1)) = c"
    "unat (from_be16 (opts ! (length pre + 2)) (opts ! (length pre + 3))) = length v"
    "length pre + 4 + length v \<le> length opts"
    "take (length v) (drop (length pre + 4) opts) = v"
  using assms by (simp_all add: option_bytes_def to_be16_def nth_append unat_of_nat16)

declare get_option_loop.simps [simp del] remove_option_loop.simps [simp del]

lemma get_option_loop_at:
  assumes "options_ok os" "opts = pre @ options_bytes os"
  shows "get_option_loop opts code (length pre) = map_of os code"
  using assms
proof (induction os arbitrary: pre)
  case Nil
  then show ?case by (subst get_option_loop.simps) (simp add: options_bytes_def)
next
  case (Cons cv os)
  obtain c v where cv: "cv = (c, v)" by fastforce
  have opts: "opts = pre @ option_bytes (c, v) @ options_bytes os" and v: "length v < 65536"
    using Cons.prems cv by (simp_all add: options_bytes_def options_ok_def)
  note hd = option_header [OF opts v]
  have len: "length (pre @ option_bytes (c, v)) = length pre + 4 + length v"
    by (simp add: option_bytes_def)
  have "get_option_loop opts code (length (pre @ option_bytes (c, v))) = map_of os code"
    by (rule Cons.IH) (use Cons.prems(1) opts in \<open>simp_all add: options_ok_def\<close>)
  then show ?case
    using hd unfolding len by (subst get_option_loop.simps) (simp add: Let_def cv)
qed

lemma remove_option_loop_at:
  assumes "options_ok os" "opts = pre @ options_bytes os"
  shows "remove_option_loop opts code (length pre) out =
    out @ options_bytes (filter (\<lambda>cv. fst cv \<noteq> code) os)"
  using assms
proof (induction os arbitrary: pre out)
  case Nil
  then show ?case by (subst remove_option_loop.simps) (simp add: options_bytes_def)
next
  case (Cons cv os)
  obtain c v where cv: "cv = (c, v)" by fastforce
  have opts: "opts = pre @ option_bytes (c, v) @ options_bytes os" and v: "length v < 65536"
    using Cons.prems cv by (simp_all add: options_bytes_def options_ok_def)
  note hd = option_header [OF opts v]
  have len: "length (pre @ option_bytes (c, v)) = length pre + 4 + length v"
    by (simp add: option_bytes_def)
  have this_opt: "take (4 + length v) (drop (length pre) opts) = option_bytes (c, v)"
    using opts by (simp add: option_bytes_def)
  have "remove_option_loop opts code (length (pre @ option_bytes (c, v))) out' =
      out' @ options_bytes (filter (\<lambda>cv. fst cv \<noteq> code) os)" for out'
    by (rule Cons.IH) (use Cons.prems(1) opts in \<open>simp_all add: options_ok_def\<close>)
  then show ?case
    using hd this_opt unfolding len
    by (subst remove_option_loop.simps) (simp add: Let_def cv options_bytes_def min_absorb1 add.assoc)
qed

text \<open>Options as a store: an interface with the laws its clients rely on.\<close>

locale option_store =
  fixes get :: "'s \<Rightarrow> 'k \<Rightarrow> 'v option"
    and put :: "'s \<Rightarrow> 'k \<Rightarrow> 'v \<Rightarrow> 's"
    and del :: "'s \<Rightarrow> 'k \<Rightarrow> 's"
    and inv :: "'s \<Rightarrow> bool"
    and fits :: "'v \<Rightarrow> bool"
  assumes inv_put: "inv s \<Longrightarrow> fits v \<Longrightarrow> inv (put s k v)"
    and inv_del: "inv s \<Longrightarrow> inv (del s k)"
    and get_put: "inv s \<Longrightarrow> fits v \<Longrightarrow> get (put s k v) j = (if j = k then Some v else get s j)"
    and get_del: "inv s \<Longrightarrow> get (del s k) j = (if j = k then None else get s j)"
begin

lemma get_put_put: "inv s \<Longrightarrow> fits v \<Longrightarrow> fits w \<Longrightarrow> get (put (put s k v) k w) j = get (put s k w) j"
  by (simp add: get_put inv_put)

lemma puts_inv: "inv s \<Longrightarrow> list_all (\<lambda>(k, v). fits v) kvs \<Longrightarrow> inv (fold (\<lambda>(k, v) s. put s k v) kvs s)"
  by (induction kvs arbitrary: s) (auto simp: inv_put)

lemma get_puts:
  "inv s \<Longrightarrow> list_all (\<lambda>(k, v). fits v) kvs \<Longrightarrow>
     get (fold (\<lambda>(k, v) s. put s k v) kvs s) j =
       (case map_of (rev kvs) j of Some v \<Rightarrow> Some v | None \<Rightarrow> get s j)"
  by (induction kvs arbitrary: s) (auto simp: inv_put get_put map_add_def split: option.splits)

end

definition edns_ok :: "edns \<Rightarrow> bool" where
  "edns_ok e \<longleftrightarrow> (\<exists>os. options_ok os \<and> ed_options e = options_bytes os)"

lemma edns_ok_ops:
  assumes "options_ok os" "ed_options e = options_bytes os"
  shows "get_option e code = map_of os code"
    and "ed_options (remove_option e code) = options_bytes (filter (\<lambda>cv. fst cv \<noteq> code) os)"
    and "ed_options (set_option e code v) = options_bytes (filter (\<lambda>cv. fst cv \<noteq> code) os @ [(code, v)])"
proof -
  have rm: "remove_option_loop (ed_options e) code 0 [] = options_bytes (filter (\<lambda>cv. fst cv \<noteq> code) os)"
    using remove_option_loop_at [OF assms(1), of "ed_options e" "[]"] assms(2) by simp
  show "get_option e code = map_of os code"
    using get_option_loop_at [OF assms(1), of "ed_options e" "[]"] assms(2) by (simp add: get_option_def)
  show "ed_options (remove_option e code) = options_bytes (filter (\<lambda>cv. fst cv \<noteq> code) os)"
    by (simp add: remove_option_def rm)
  then show "ed_options (set_option e code v) = options_bytes (filter (\<lambda>cv. fst cv \<noteq> code) os @ [(code, v)])"
    by (simp add: set_option_def Let_def options_bytes_def option_bytes_def)
qed

lemma map_of_filter_ne:
  "map_of (filter (\<lambda>cv. fst cv \<noteq> k) os @ rest) j = (if j = k then map_of rest j else map_of (os @ rest) j)"
  by (induction os) auto

interpretation edns_store: option_store get_option set_option remove_option edns_ok "\<lambda>v. length v < 65536"
proof unfold_locales
  fix e code j and v :: bytes
  assume "edns_ok e"
  then obtain os where os: "options_ok os" "ed_options e = options_bytes os"
    by (auto simp: edns_ok_def)
  let ?del = "filter (\<lambda>cv. fst cv \<noteq> code) os"
  have del: "options_ok ?del" using os(1) by (auto simp: options_ok_def list_all_iff)
  note ops = edns_ok_ops [OF os]
  show "edns_ok (remove_option e code)"
    using del ops(2) by (auto simp: edns_ok_def)
  show "get_option (remove_option e code) j = (if j = code then None else get_option e j)"
    using edns_ok_ops(1) [OF del ops(2)] ops(1) map_of_filter_ne [of code os "[]" j] by simp
  assume "length v < 65536"
  then have put: "options_ok (?del @ [(code, v)])" using del by (simp add: options_ok_def)
  show "edns_ok (set_option e code v)"
    using put ops(3) by (auto simp: edns_ok_def)
  show "get_option (set_option e code v) j = (if j = code then Some v else get_option e j)"
    using edns_ok_ops(1) [OF put ops(3)] ops(1) map_of_filter_ne [of code os "[(code, v)]" j]
    by (auto simp: map_add_def split: option.splits)
qed

lemma edns_ours_ok [simp]: "edns_ok edns_ours"
  unfolding edns_ok_def by (rule exI [of _ "[]"]) (simp add: edns_ours_def options_ok_def options_bytes_def)

section \<open>Truncation\<close>

definition truncated :: "message \<Rightarrow> message" where
  "truncated m = m\<lparr>m_flags := (m_flags m)\<lparr>fl_tc := True\<rparr>, m_answers := [], m_authorities := [],
     m_additionals := []\<rparr>"

lemma truncated_ok: "message_ok m \<Longrightarrow> message_ok (truncated m)"
  by (simp add: message_ok_def truncated_def)

lemma encode_limited_eq:
  "encode_limited m limit =
     (if length (message_encode m) \<le> limit then message_encode m else message_encode (truncated m))"
  by (simp add: encode_limited_def truncated_def Let_def)

lemma length_question: "question_ok q \<Longrightarrow> question_encode q out c = (out @ bs, c') \<Longrightarrow> length bs \<le> 259"
  using length_name_bytes [of "q_name q" "length out" "Some c"]
  by (auto simp: question_encode_def to_wire_with_bytes question_ok_def name_ok_def wf_name_def)

lemma length_truncated:
  assumes "message_ok m" "length (m_questions m) \<le> 1"
  shows "length (message_encode (truncated m)) \<le>
    271 + (case m_edns m of None \<Rightarrow> 0 | Some e \<Rightarrow> 11 + length (ed_options e))"
proof -
  have "\<exists>bs c. encode_all question_encode (m_questions m) out new_compressor = (out @ bs, c) \<and> length bs \<le> 259" for out
  proof (cases "m_questions m")
    case (Cons q qs)
    with assms obtain bs c where "question_encode q out new_compressor = (out @ bs, c)" "question_ok q" "qs = []"
      using question_codec.enc_appends [of q out new_compressor] by (auto simp: message_ok_def)
    with length_question Cons show ?thesis by auto
  qed simp
  from this [of "header_bytes (truncated m)"] obtain bs c where
    "encode_all question_encode (m_questions m) (header_bytes (truncated m)) new_compressor =
      (header_bytes (truncated m) @ bs, c)" "length bs \<le> 259" by blast
  then show ?thesis
    by (simp add: message_encode_def truncated_def edns_encode_def split: option.splits)
qed

section \<open>Properties\<close>

definition sample_message :: message where
  "sample_message =
     (message_new 0x1234 (flags_default\<lparr>fl_qr := True, fl_aa := True, fl_rd := True\<rparr>))
     \<lparr>m_questions := [\<lparr>q_name = [[119], [101]], q_type = TYPE_A, q_class = CLASS_IN\<rparr>],
      m_answers := [\<lparr>rr_name = [[119], [101]], rr_class = CLASS_IN, rr_ttl = 300, rr_rdata = RD_Cname [[118], [101]]\<rparr>,
                    \<lparr>rr_name = [[118], [101]], rr_class = CLASS_IN, rr_ttl = 300, rr_rdata = RD_A 0x0A000001\<rparr>],
      m_additionals := [\<lparr>rr_name = [[101]], rr_class = CLASS_IN, rr_ttl = 60, rr_rdata = RD_Mx 10 [[109], [101]]\<rparr>],
      m_edns := Some edns_ours\<rparr>"

lemma sample_message_ok [simp]: "message_ok sample_message"
  by (simp add: message_ok_def sample_message_def message_new_def flags_default_def question_ok_def rr_ok_def
        name_ok_def wf_name_def wf_label_def lower_label_def to_lower_def edns_ours_def)

text \<open>
  C1: Encoding a message and parsing the bytes gives the message back, for
  every message whose names have at most 64 labels and whose counts and
  payloads fit their 16-bit fields: name compression, back-patched lengths,
  the OPT record and the header flags included.
\<close>
theorem message_roundtrip:
  assumes "message_ok m"
  shows "message_parse (message_encode m) = Inr m"
  by (rule message_encode_parse [OF assms])

theorem message_roundtrip_witness:
  "message_parse (message_encode sample_message) = Inr sample_message"
  by (rule message_roundtrip) simp

definition sample_tsig :: tsig where
  "sample_tsig = \<lparr>ts_key_name = [[107]], ts_algorithm = [[104]], ts_time_signed = 1700000000, ts_fudge = 300,
     ts_mac = [1, 2, 3], ts_original_id = 7, ts_error = 0, ts_other = []\<rparr>"

lemma sample_tsig_ok [simp]: "tsig_ok sample_tsig"
  by (simp add: tsig_ok_def sample_tsig_def tsig_rdata_def wf_name_def wf_label_def lower_label_def to_lower_def)

text \<open>
  A message with an appended TSIG record parses back to the same message
  with the TSIG record and, as \<open>tsig_start\<close>, the length of the message that
  was signed; the in-place increment of ARCOUNT is accounted for.
\<close>
theorem tsig_message_roundtrip:
  assumes "message_ok m" "tsig_ok t" "arcount m + 1 < 65536"
  shows "message_parse (encode_with_tsig m t) =
    Inr (m\<lparr>m_tsig := Some t, m_tsig_start := Some (length (message_encode m))\<rparr>)"
  by (rule message_tsig_parse [OF assms])

theorem tsig_message_roundtrip_witness:
  "message_parse (encode_with_tsig sample_message sample_tsig) =
    Inr (sample_message\<lparr>m_tsig := Some sample_tsig, m_tsig_start := Some (length (message_encode sample_message))\<rparr>)"
  by (rule tsig_message_roundtrip, simp, simp, simp add: arcount_def sample_message_def)

text \<open>
  C38: \<open>encode_limited\<close> sends the whole message when it fits, and otherwise a
  message that parses to the header (with TC set), the questions and the OPT
  record alone.  When the limit is at least 512, there is at most one question
  and the option area has at most 230 bytes, what is sent fits the limit.
\<close>
theorem encode_limited_spec:
  assumes "message_ok m"
  shows "message_parse (encode_limited m limit) =
      Inr (if length (message_encode m) \<le> limit then m else truncated m) \<and>
    (length (m_questions m) \<le> 1 \<and> (\<forall>e. m_edns m = Some e \<longrightarrow> length (ed_options e) \<le> 230) \<and> 512 \<le> limit \<longrightarrow>
       length (encode_limited m limit) \<le> limit)"
proof -
  have "message_parse (encode_limited m limit) =
      Inr (if length (message_encode m) \<le> limit then m else truncated m)"
    using message_encode_parse [OF assms] message_encode_parse [OF truncated_ok [OF assms]]
    by (simp add: encode_limited_eq)
  then show ?thesis
    using length_truncated [OF assms] by (auto simp: encode_limited_eq split: option.splits)
qed

theorem encode_limited_spec_witness:
  "message_parse (encode_limited sample_message 20) =
      Inr (if length (message_encode sample_message) \<le> 20 then sample_message else truncated sample_message) \<and>
    length (encode_limited sample_message 512) \<le> 512"
  using encode_limited_spec [OF sample_message_ok, of 20] encode_limited_spec [OF sample_message_ok, of 512]
  by (simp add: sample_message_def edns_ours_def)

text \<open>
  With many questions the limit is exceeded: the reply to a query of 101
  questions repeats them all, and its truncated form has more than 512 bytes.
\<close>
theorem many_questions_exceed:
  "length (encode_limited (response_to ((message_new 7 flags_default)
     \<lparr>m_questions := replicate 101 \<lparr>q_name = [], q_type = TYPE_A, q_class = CLASS_IN\<rparr>\<rparr>)) 512) = 517"
  by code_simp

text \<open>
  EDNS options behave as a map.  On a well-formed option area, setting an
  option makes exactly that option read back with the new value and leaves all
  others, removing it makes it absent, and both keep the area well formed.
\<close>
theorem edns_options_map:
  assumes "edns_ok e" "length v < 65536"
  shows "get_option (set_option e code v) j = (if j = code then Some v else get_option e j) \<and>
    get_option (remove_option e code) j = (if j = code then None else get_option e j) \<and>
    edns_ok (set_option e code v) \<and> edns_ok (remove_option e code)"
  using assms edns_store.get_put edns_store.get_del edns_store.inv_put edns_store.inv_del by blast

theorem edns_options_map_witness:
  "get_option (set_option edns_ours EDNS_COOKIE [1, 2]) EDNS_COOKIE = Some [1, 2]"
  using edns_options_map [OF edns_ours_ok, of "[1, 2]" EDNS_COOKIE EDNS_COOKIE] by simp

end
