(* ===== verification/Dns_Zone.thy ===== *)
theory Dns_Zone
  imports Dns_Record "HOL-Library.Multiset"
begin

text \<open>
  Authoritative zones (\<open>dns-zone/src/lib.rs\<close>): lookup with wildcards and
  in-zone CNAME chains, assembly from records, the record-set edits of the
  management API and RFC 2136 dynamic updates.

  The hash map of the source is an association list with distinct keys; its
  order stands for the unspecified iteration order, and no statement below
  depends on it.
\<close>

section \<open>Data\<close>

type_synonym nodes = "(dns_name \<times> rr list) list"

record zone =
  z_origin :: dns_name
  z_soa :: rr
  z_record_count :: nat
  z_records :: nodes

record lookup_result =
  lk_rcode :: byte
  lk_answers :: "rr list"
  lk_negative :: bool
  lk_offsite :: "dns_name option"

datatype edit_error =
    OutsideZone dns_name dns_name
  | SoaOwnerNotOrigin
  | DuplicateSoa
  | NoSoa
  | SoaNotSingle
  | HasOtherRecords dns_name
  | IsCname dns_name
  | CnameNotSingle
  | CannotDeleteSoa

section \<open>Lookup\<close>

fun wildcard_search :: "nodes \<Rightarrow> dns_name \<Rightarrow> nat list \<Rightarrow> rr list option" where
  "wildcard_search recs name [] = None"
| "wildcard_search recs name (skip # skips) =
     (case wildcard_at name skip of
        None \<Rightarrow> None
      | Some wildcard \<Rightarrow>
          (case map_of recs wildcard of
             Some rrs \<Rightarrow> Some (map (\<lambda>r. r\<lparr>rr_name := name\<rparr>) rrs)
           | None \<Rightarrow> wildcard_search recs name skips))"

definition find_node :: "zone \<Rightarrow> dns_name \<Rightarrow> rr list option" where
  "find_node z name =
     (case map_of (z_records z) name of
        Some rrs \<Rightarrow> Some rrs
      | None \<Rightarrow>
          if label_count name < label_count (z_origin z) then None
          else wildcard_search (z_records z) name
                 [1..<Suc (label_count name - label_count (z_origin z))])"

definition has_names_below :: "zone \<Rightarrow> dns_name \<Rightarrow> bool" where
  "has_names_below z name = list_ex (\<lambda>k. k \<noteq> name \<and> ends_with k name) (map fst (z_records z))"

definition type_matches :: "u16 \<Rightarrow> rr \<Rightarrow> bool" where
  "type_matches qtype r \<longleftrightarrow> qtype = TYPE_ANY \<or> rr_rtype r = qtype"

text \<open>
  The loop over at most 8 links of a CNAME chain.  \<open>None\<close> is the
  \<open>unreachable!()\<close> panic on a record of type CNAME whose rdata is not a name.
\<close>

fun lookup_loop :: "nat \<Rightarrow> zone \<Rightarrow> dns_name \<Rightarrow> u16 \<Rightarrow> rr list \<Rightarrow> lookup_result option" where
  "lookup_loop 0 z name qtype answers =
     Some \<lparr>lk_rcode = RCODE_SERVFAIL, lk_answers = answers, lk_negative = False, lk_offsite = None\<rparr>"
| "lookup_loop (Suc k) z name qtype answers =
     (case find_node z name of
        None \<Rightarrow>
          Some \<lparr>lk_rcode = (if has_names_below z name \<or> answers \<noteq> [] then RCODE_NOERROR else RCODE_NXDOMAIN),
                lk_answers = answers, lk_negative = True, lk_offsite = None\<rparr>
      | Some node \<Rightarrow>
          let matched = filter (type_matches qtype) node in
          if matched \<noteq> [] then
            Some \<lparr>lk_rcode = RCODE_NOERROR, lk_answers = answers @ matched, lk_negative = False,
                  lk_offsite = None\<rparr>
          else
            (case find (\<lambda>r. rr_rtype r = TYPE_CNAME) node of
               Some cname \<Rightarrow>
                 (case rr_rdata cname of
                    RD_Cname target \<Rightarrow>
                      if ends_with target (z_origin z) then
                        lookup_loop k z target qtype (answers @ [cname])
                      else
                        Some \<lparr>lk_rcode = RCODE_NOERROR, lk_answers = answers @ [cname],
                              lk_negative = False, lk_offsite = Some target\<rparr>
                  | _ \<Rightarrow> None)
             | None \<Rightarrow>
                 Some \<lparr>lk_rcode = RCODE_NOERROR, lk_answers = answers, lk_negative = True,
                       lk_offsite = None\<rparr>))"

definition lookup :: "zone \<Rightarrow> dns_name \<Rightarrow> u16 \<Rightarrow> lookup_result option" where
  "lookup z qname qtype = lookup_loop 8 z qname qtype []"

section \<open>Assembly\<close>

text \<open>\<open>records.entry(name).or_default().push(r)\<close>.\<close>

definition node_or_default :: "nodes \<Rightarrow> dns_name \<Rightarrow> rr list" where
  "node_or_default recs name = (case map_of recs name of Some rrs \<Rightarrow> rrs | None \<Rightarrow> [])"

definition push_record :: "rr \<Rightarrow> nodes \<Rightarrow> nodes" where
  "push_record r recs = AList.update (rr_name r) (node_or_default recs (rr_name r) @ [r]) recs"

fun collect_records ::
  "dns_name \<Rightarrow> rr list \<Rightarrow> rr option \<Rightarrow> nodes \<Rightarrow> nat \<Rightarrow> edit_error + (rr option \<times> nodes \<times> nat)" where
  "collect_records origin [] soa recs cnt = Inr (soa, recs, cnt)"
| "collect_records origin (r # rs) soa recs cnt =
     (if \<not> ends_with (rr_name r) origin then Inl (OutsideZone (rr_name r) origin)
      else if rr_rtype r = TYPE_SOA then
        if rr_name r \<noteq> origin then Inl SoaOwnerNotOrigin
        else if soa \<noteq> None then Inl DuplicateSoa
        else collect_records origin rs (Some r) (push_record r recs) (cnt + 1)
      else collect_records origin rs soa (push_record r recs) (cnt + 1))"

definition from_records :: "dns_name \<Rightarrow> rr list \<Rightarrow> edit_error + zone" where
  "from_records origin all =
     and_then (collect_records origin all None [] 0) (\<lambda>(soa, recs, cnt).
       case soa of
         None \<Rightarrow> Inl NoSoa
       | Some s \<Rightarrow> Inr \<lparr>z_origin = origin, z_soa = s, z_record_count = cnt, z_records = recs\<rparr>)"

section \<open>Edits\<close>

definition recount :: "zone \<Rightarrow> zone" where
  "recount z = z\<lparr>z_record_count := sum_list (map (\<lambda>kv. length (snd kv)) (z_records z))\<rparr>"

text \<open>
  \<open>replace_rrset\<close> behind the parsing of its textual contents: the checks and
  the edit, for the type code and the new records.  The zone is returned in
  the error case too, because the source has already touched it there.
\<close>

definition replace_records ::
  "dns_name \<Rightarrow> u16 \<Rightarrow> rr list \<Rightarrow> zone \<Rightarrow> zone \<times> (edit_error + unit)" where
  "replace_records name code new_records z =
     (if code = TYPE_SOA \<and> name \<noteq> z_origin z then (z, Inl SoaOwnerNotOrigin)
      else if code = TYPE_SOA \<and> length new_records \<noteq> 1 then (z, Inl SoaNotSingle)
      else
        let z1 = (if code = TYPE_SOA then z\<lparr>z_soa := new_records ! 0\<rparr> else z);
            node = node_or_default (z_records z1) name;
            z2 = z1\<lparr>z_records := AList.update name node (z_records z1)\<rparr> in
        if code = TYPE_CNAME \<and> list_ex (\<lambda>r. rr_rtype r \<noteq> code) node then (z2, Inl (HasOtherRecords name))
        else if code \<noteq> TYPE_CNAME \<and> list_ex (\<lambda>r. rr_rtype r = TYPE_CNAME) node then (z2, Inl (IsCname name))
        else if length new_records > 1 \<and> code = TYPE_CNAME then (z2, Inl CnameNotSingle)
        else
          (recount (z2\<lparr>z_records :=
             AList.update name (filter (\<lambda>r. rr_rtype r \<noteq> code) node @ new_records) (z_records z2)\<rparr>),
           Inr ()))"

text \<open>\<open>delete_rrset\<close> behind the parsing of its type mnemonic.\<close>

definition delete_type :: "dns_name \<Rightarrow> u16 \<Rightarrow> zone \<Rightarrow> edit_error + zone" where
  "delete_type name code z =
     (if code = TYPE_SOA then Inl CannotDeleteSoa
      else
        Inr (recount
          (case map_of (z_records z) name of
             None \<Rightarrow> z
           | Some node \<Rightarrow>
               let node' = filter (\<lambda>r. rr_rtype r \<noteq> code) node in
               if node' = [] then z\<lparr>z_records := AList.delete name (z_records z)\<rparr>
               else z\<lparr>z_records := AList.update name node' (z_records z)\<rparr>)))"

definition bump_serial :: "zone \<Rightarrow> zone" where
  "bump_serial z =
     (case rr_rdata (z_soa z) of
        RD_Soa s \<Rightarrow>
          let fresh = (z_soa z)\<lparr>rr_rdata := RD_Soa (s\<lparr>soa_serial := soa_serial s + 1\<rparr>)\<rparr>;
              z' = z\<lparr>z_soa := fresh\<rparr> in
          (case map_of (z_records z) (z_origin z) of
             None \<Rightarrow> z'
           | Some node \<Rightarrow>
               z'\<lparr>z_records := AList.update (z_origin z)
                    (map (\<lambda>r. if rr_rtype r = TYPE_SOA then fresh else r) node) (z_records z)\<rparr>)
      | _ \<Rightarrow> z)"

definition all_records :: "zone \<Rightarrow> rr list" where
  "all_records z =
     z_soa z # concat (map (\<lambda>kv. filter (\<lambda>r. rr_rtype r \<noteq> TYPE_SOA) (snd kv)) (z_records z))"

section \<open>Dynamic update\<close>

fun check_prereqs :: "zone \<Rightarrow> rr list \<Rightarrow> byte option" where
  "check_prereqs z [] = None"
| "check_prereqs z (p # ps) =
     (let node = map_of (z_records z) (rr_name p);
          exists_name = (node \<noteq> None);
          exists_type = (case node of None \<Rightarrow> False | Some rrs \<Rightarrow> list_ex (\<lambda>r. rr_rtype r = rr_rtype p) rrs);
          matches = (case node of None \<Rightarrow> False
            | Some rrs \<Rightarrow> list_ex (\<lambda>r. rr_rtype r = rr_rtype p \<and> rr_rdata r = rr_rdata p) rrs) in
      if \<not> ends_with (rr_name p) (z_origin z) then Some RCODE_NOTAUTH
      else if rr_class p = CLASS_ANY \<and> rr_rtype p \<noteq> TYPE_ANY then
        if \<not> exists_type then Some RCODE_NXRRSET else check_prereqs z ps
      else if rr_class p = CLASS_ANY then
        if \<not> exists_name then Some RCODE_NXDOMAIN else check_prereqs z ps
      else if rr_class p = CLASS_NONE \<and> rr_rtype p \<noteq> TYPE_ANY then
        if exists_type then Some RCODE_YXRRSET else check_prereqs z ps
      else if rr_class p = CLASS_NONE then
        if exists_name then Some RCODE_YXDOMAIN else check_prereqs z ps
      else if rr_class p = CLASS_IN then
        if \<not> matches then Some RCODE_NXRRSET else check_prereqs z ps
      else Some RCODE_FORMERR)"

abbreviation same_rr :: "rr \<Rightarrow> rr \<Rightarrow> bool" where
  "same_rr u r \<equiv> rr_rtype r = rr_rtype u \<and> rr_rdata r = rr_rdata u"

fun refresh_first :: "rr \<Rightarrow> rr list \<Rightarrow> rr list" where
  "refresh_first u [] = []"
| "refresh_first u (r # rs) =
     (if same_rr u r then r\<lparr>rr_ttl := rr_ttl u\<rparr> # rs else r # refresh_first u rs)"

definition edit_node :: "dns_name \<Rightarrow> (rr list \<Rightarrow> rr list) \<Rightarrow> nodes \<Rightarrow> nodes" where
  "edit_node name f recs =
     (case map_of recs name of None \<Rightarrow> recs | Some node \<Rightarrow> AList.update name (f node) recs)"

text \<open>One update record, or \<open>None\<close> for a class that is a format error.\<close>

definition update_one :: "dns_name \<Rightarrow> rr \<Rightarrow> nodes \<Rightarrow> nodes option" where
  "update_one origin u recs =
     (if rr_class u = CLASS_IN then
        let node = node_or_default recs (rr_name u) in
        Some (AList.update (rr_name u)
          (if \<not> list_ex (same_rr u) node then node @ [u] else refresh_first u node) recs)
      else if rr_class u = CLASS_ANY then
        if rr_rtype u = TYPE_ANY then
          if rr_name u = origin then
            Some (edit_node (rr_name u)
              (filter (\<lambda>r. rr_rtype r = TYPE_SOA \<or> rr_rtype r = TYPE_NS)) recs)
          else Some (AList.delete (rr_name u) recs)
        else if rr_name u = origin \<and> rr_rtype u = TYPE_SOA then Some recs
        else Some (edit_node (rr_name u) (filter (\<lambda>r. rr_rtype r \<noteq> rr_rtype u)) recs)
      else if rr_class u = CLASS_NONE then
        Some (edit_node (rr_name u) (filter (\<lambda>r. \<not> same_rr u r)) recs)
      else None)"

fun apply_updates :: "zone \<Rightarrow> rr list \<Rightarrow> zone \<times> byte" where
  "apply_updates z [] = (recount z, RCODE_NOERROR)"
| "apply_updates z (u # us) =
     (case update_one (z_origin z) u (z_records z) of
        None \<Rightarrow> (z, RCODE_FORMERR)
      | Some recs \<Rightarrow>
          apply_updates (z\<lparr>z_records := filter (\<lambda>kv. snd kv \<noteq> []) recs\<rparr>) us)"

definition apply_update :: "rr list \<Rightarrow> rr list \<Rightarrow> zone \<Rightarrow> zone \<times> byte" where
  "apply_update prereqs updates z =
     (case check_prereqs z prereqs of
        Some rc \<Rightarrow> (z, rc)
      | None \<Rightarrow>
          if list_ex (\<lambda>u. \<not> ends_with (rr_name u) (z_origin z)) updates then (z, RCODE_NOTAUTH)
          else apply_updates z updates)"

section \<open>Node maps\<close>

lemma map_of_filter_nonempty:
  "distinct (map fst recs) \<Longrightarrow> map_of (filter (\<lambda>kv. snd kv \<noteq> []) recs) k =
     (case map_of recs k of Some [] \<Rightarrow> None | x \<Rightarrow> x)"
proof (induction recs)
  case (Cons kv recs)
  have "map_of (filter (\<lambda>kv. snd kv \<noteq> []) recs) (fst kv) = None"
    using Cons.prems by (auto simp: map_of_eq_None_iff)
  then show ?case using Cons by (cases kv) (auto split: list.splits)
qed simp

text \<open>All records of the map, as a multiset.\<close>

definition records_mset :: "nodes \<Rightarrow> rr multiset" where
  "records_mset recs = mset (concat (map snd recs))"

lemma records_mset_simps [simp]:
  "records_mset [] = {#}" "records_mset ((k, v) # recs) = mset v + records_mset recs"
  by (simp_all add: records_mset_def)

lemma node_or_default_simps [simp]:
  "node_or_default [] k = []"
  "node_or_default ((j, w) # recs) k = (if j = k then w else node_or_default recs k)"
  by (simp_all add: node_or_default_def)

lemma records_mset_update:
  "distinct (map fst recs) \<Longrightarrow>
     records_mset (AList.update k v recs) + mset (node_or_default recs k) = records_mset recs + mset v"
  by (induction recs) auto

lemma records_mset_push:
  assumes "distinct (map fst recs)"
  shows "records_mset (push_record r recs) = records_mset recs + {#r#}"
  using records_mset_update [OF assms, of "rr_name r" "node_or_default recs (rr_name r) @ [r]"]
  by (simp add: push_record_def)

lemma size_records_mset: "size (records_mset recs) = sum_list (map (\<lambda>kv. length (snd kv)) recs)"
  by (induction recs) auto

section \<open>Invariants\<close>

text \<open>Every node is at or under the origin, is not empty and holds records of its own name.\<close>

definition node_ok :: "dns_name \<Rightarrow> dns_name \<Rightarrow> rr list \<Rightarrow> bool" where
  "node_ok origin k rrs \<longleftrightarrow> ends_with k origin \<and> rrs \<noteq> [] \<and> list_all (\<lambda>r. rr_name r = k) rrs"

definition nodes_ok :: "dns_name \<Rightarrow> nodes \<Rightarrow> bool" where
  "nodes_ok origin recs \<longleftrightarrow> distinct (map fst recs) \<and>
     (\<forall>k rrs. map_of recs k = Some rrs \<longrightarrow> node_ok origin k rrs)"

text \<open>The SOA records of the map: only the given ones, only at the origin.\<close>

definition soas_at :: "dns_name \<Rightarrow> rr list \<Rightarrow> nodes \<Rightarrow> bool" where
  "soas_at origin soas recs \<longleftrightarrow>
     (\<forall>k. filter (\<lambda>r. rr_rtype r = TYPE_SOA) (node_or_default recs k) = (if k = origin then soas else []))"

definition wf_zone :: "zone \<Rightarrow> bool" where
  "wf_zone z \<longleftrightarrow> nodes_ok (z_origin z) (z_records z) \<and> soas_at (z_origin z) [z_soa z] (z_records z) \<and>
     z_record_count z = size (records_mset (z_records z))"

lemma nodes_ok_Nil [simp]: "nodes_ok origin []"
  by (simp add: nodes_ok_def)

lemma nodes_okD: "nodes_ok origin recs \<Longrightarrow> map_of recs k = Some rrs \<Longrightarrow> node_ok origin k rrs"
  by (simp add: nodes_ok_def)

lemma node_or_default_owner:
  "nodes_ok origin recs \<Longrightarrow> list_all (\<lambda>r. rr_name r = k) (node_or_default recs k)"
  by (auto simp: node_or_default_def nodes_ok_def node_ok_def split: option.splits)

lemma nodes_ok_update [inv_intros]:
  "nodes_ok origin recs \<Longrightarrow> node_ok origin k v \<Longrightarrow> nodes_ok origin (AList.update k v recs)"
  by (auto simp: nodes_ok_def distinct_update)

lemma nodes_ok_delete [inv_intros]: "nodes_ok origin recs \<Longrightarrow> nodes_ok origin (AList.delete k recs)"
  by (auto simp: nodes_ok_def distinct_delete map_of_delete_if split: if_splits)

lemma node_ok_push:
  assumes "nodes_ok origin recs" "ends_with (rr_name r) origin"
  shows "nodes_ok origin (push_record r recs)"
  unfolding push_record_def
  using assms node_or_default_owner [OF assms(1), of "rr_name r"]
  by (intro nodes_ok_update) (auto simp: node_ok_def)

lemma node_or_default_update [simp]:
  "node_or_default (AList.update k v recs) j = (if j = k then v else node_or_default recs j)"
  by (simp add: node_or_default_def)

lemma soas_at_push:
  assumes "soas_at origin soas recs"
  shows "rr_rtype r \<noteq> TYPE_SOA \<Longrightarrow> soas_at origin soas (push_record r recs)"
    and "rr_rtype r = TYPE_SOA \<Longrightarrow> rr_name r = origin \<Longrightarrow> soas_at origin (soas @ [r]) (push_record r recs)"
  using assms by (auto simp: soas_at_def push_record_def)

lemma wf_zone_soa:
  assumes "wf_zone z"
  shows "rr_rtype (z_soa z) = TYPE_SOA" "rr_name (z_soa z) = z_origin z"
    "\<exists>node. map_of (z_records z) (z_origin z) = Some node \<and> filter (\<lambda>r. rr_rtype r = TYPE_SOA) node = [z_soa z]"
proof -
  let ?node = "node_or_default (z_records z) (z_origin z)"
  have f: "filter (\<lambda>r. rr_rtype r = TYPE_SOA) ?node = [z_soa z]"
    using assms by (simp add: wf_zone_def soas_at_def)
  then have "z_soa z \<in> set (filter (\<lambda>r. rr_rtype r = TYPE_SOA) ?node)" by simp
  then have mem: "z_soa z \<in> set ?node" "rr_rtype (z_soa z) = TYPE_SOA" by auto
  then show "rr_rtype (z_soa z) = TYPE_SOA" by simp
  show "rr_name (z_soa z) = z_origin z"
    using mem(1) node_or_default_owner [of "z_origin z" "z_records z" "z_origin z"] assms
    by (simp add: wf_zone_def list_all_iff)
  show "\<exists>node. map_of (z_records z) (z_origin z) = Some node \<and> filter (\<lambda>r. rr_rtype r = TYPE_SOA) node = [z_soa z]"
    using f by (auto simp: node_or_default_def split: option.splits)
qed

section \<open>Assembly\<close>

lemma collect_records_ok:
  assumes "collect_records origin rs soa recs n = Inr (soa', recs', n')"
    and "nodes_ok origin recs" "soas_at origin (case soa of None \<Rightarrow> [] | Some s \<Rightarrow> [s]) recs"
  shows "nodes_ok origin recs' \<and> soas_at origin (case soa' of None \<Rightarrow> [] | Some s \<Rightarrow> [s]) recs' \<and>
    records_mset recs' = records_mset recs + mset rs \<and> n' = n + length rs"
  using assms
proof (induction rs arbitrary: soa recs n)
  case (Cons r rs)
  then have under: "ends_with (rr_name r) origin" by (auto split: if_splits)
  have push: "nodes_ok origin (push_record r recs)"
    "records_mset (push_record r recs) = records_mset recs + {#r#}"
    using node_ok_push [OF Cons.prems(2) under] records_mset_push [of recs r] Cons.prems(2)
    by (simp_all add: nodes_ok_def)
  show ?case
  proof (cases "rr_rtype r = TYPE_SOA")
    case True
    with Cons.prems(1) have "soa = None" "rr_name r = origin"
      and rec: "collect_records origin rs (Some r) (push_record r recs) (n + 1) = Inr (soa', recs', n')"
      by (auto split: if_splits)
    with soas_at_push(2) [OF Cons.prems(3) True] have "soas_at origin [r] (push_record r recs)" by simp
    with Cons.IH [OF rec push(1)] push(2) show ?thesis by simp
  next
    case False
    with Cons.prems(1) have rec: "collect_records origin rs soa (push_record r recs) (n + 1) = Inr (soa', recs', n')"
      by (auto split: if_splits)
    from Cons.IH [OF this push(1) soas_at_push(1) [OF Cons.prems(3) False]] push(2) show ?thesis by simp
  qed
qed simp

lemma from_records_wf:
  assumes "from_records origin all = Inr z"
  shows "wf_zone z" "z_origin z = origin" "records_mset (z_records z) = mset all"
proof -
  obtain s recs n where c: "collect_records origin all None [] 0 = Inr (Some s, recs, n)"
    and z: "z = \<lparr>z_origin = origin, z_soa = s, z_record_count = n, z_records = recs\<rparr>"
    using assms by (auto simp: from_records_def and_then_eq_Inr_iff split: option.splits)
  from collect_records_ok [OF c] show "wf_zone z" "z_origin z = origin" "records_mset (z_records z) = mset all"
    by (simp_all add: z wf_zone_def soas_at_def node_or_default_def)
qed

lemma collect_records_iff:
  "(\<exists>soa' recs' n'. collect_records origin rs soa recs n = Inr (soa', recs', n') \<and> soa' \<noteq> None) \<longleftrightarrow>
     list_all (\<lambda>r. ends_with (rr_name r) origin) rs \<and>
     (\<exists>s. (case soa of None \<Rightarrow> [] | Some s \<Rightarrow> [s]) @ filter (\<lambda>r. rr_rtype r = TYPE_SOA) rs = [s]) \<and>
     list_all (\<lambda>r. rr_rtype r = TYPE_SOA \<longrightarrow> rr_name r = origin) rs"
  by (induction rs arbitrary: soa recs n) (auto split: option.splits)

lemma single_elem: "(\<exists>s. xs = [s]) \<and> (\<forall>x \<in> set xs. Q x) \<longleftrightarrow> (\<exists>s. xs = [s] \<and> Q s)"
  by auto

lemma from_records_succeeds_iff:
  "is_ok (from_records origin all) \<longleftrightarrow>
     list_all (\<lambda>r. ends_with (rr_name r) origin) all \<and>
     (\<exists>s. filter (\<lambda>r. rr_rtype r = TYPE_SOA) all = [s] \<and> rr_name s = origin)"
proof -
  have "is_ok (from_records origin all) \<longleftrightarrow>
      (\<exists>soa' recs' n'. collect_records origin all None [] 0 = Inr (soa', recs', n') \<and> soa' \<noteq> None)"
    by (cases "collect_records origin all None [] 0") (auto simp: from_records_def split: option.splits)
  also have "\<dots> \<longleftrightarrow> list_all (\<lambda>r. ends_with (rr_name r) origin) all \<and>
      (\<exists>s. filter (\<lambda>r. rr_rtype r = TYPE_SOA) all = [s]) \<and>
      list_all (\<lambda>r. rr_rtype r = TYPE_SOA \<longrightarrow> rr_name r = origin) all"
    unfolding collect_records_iff by simp
  also have "list_all (\<lambda>r. rr_rtype r = TYPE_SOA \<longrightarrow> rr_name r = origin) all \<longleftrightarrow>
      (\<forall>r \<in> set (filter (\<lambda>r. rr_rtype r = TYPE_SOA) all). rr_name r = origin)"
    by (auto simp: list_all_iff)
  finally show ?thesis
    by (simp only: single_elem)
qed

section \<open>Edits\<close>

lemma recount_simps [simp]:
  "z_origin (recount z) = z_origin z" "z_soa (recount z) = z_soa z" "z_records (recount z) = z_records z"
  "z_record_count (recount z) = size (records_mset (z_records z))"
  by (simp_all add: recount_def size_records_mset)

lemma wf_zone_recount:
  "nodes_ok (z_origin z) (z_records z) \<Longrightarrow> soas_at (z_origin z) [z_soa z] (z_records z) \<Longrightarrow> wf_zone (recount z)"
  by (simp add: wf_zone_def)

lemma filter_none: "(\<And>x. x \<in> set xs \<Longrightarrow> \<not> P x) \<Longrightarrow> filter P xs = []"
  by (induction xs) auto

lemma filter_all: "(\<And>x. x \<in> set xs \<Longrightarrow> P x) \<Longrightarrow> filter P xs = xs"
  by (induction xs) auto

text \<open>The records a replacement installs: of the given owner and type, and at least one.\<close>

definition rrset_ok :: "dns_name \<Rightarrow> u16 \<Rightarrow> rr list \<Rightarrow> bool" where
  "rrset_ok name code rrs \<longleftrightarrow> rrs \<noteq> [] \<and> list_all (\<lambda>r. rr_name r = name \<and> rr_rtype r = code) rrs"

lemma replace_records_success:
  assumes "replace_records name code new z = (z', Inr ())"
  shows "z_origin z' = z_origin z"
    "z_records z' = AList.update name
       (filter (\<lambda>r. rr_rtype r \<noteq> code) (node_or_default (z_records z) name) @ new) (z_records z)"
    "z_soa z' = (if code = TYPE_SOA then new ! 0 else z_soa z)"
    "z_record_count z' = size (records_mset (z_records z'))"
    "code = TYPE_SOA \<Longrightarrow> name = z_origin z \<and> length new = 1"
  using assms by (auto simp: replace_records_def Let_def split: if_splits)

lemma replace_records_wf:
  assumes z: "wf_zone z" and under: "ends_with name (z_origin z)" and new: "rrset_ok name code new"
    and ok: "replace_records name code new z = (z', Inr ())"
  shows "wf_zone z'"
proof -
  note s = replace_records_success [OF ok]
  let ?old = "node_or_default (z_records z) name"
  let ?node = "filter (\<lambda>r. rr_rtype r \<noteq> code) ?old @ new"
  have nodes: "nodes_ok (z_origin z) (z_records z)" and soas: "soas_at (z_origin z) [z_soa z] (z_records z)"
    using z by (simp_all add: wf_zone_def)
  have "node_ok (z_origin z) name ?node"
    using under new node_or_default_owner [OF nodes, of name]
    by (auto simp: node_ok_def rrset_ok_def list_all_iff)
  then have nodes': "nodes_ok (z_origin z) (z_records z')"
    using nodes by (simp add: s(2) nodes_ok_update)
  have soas': "soas_at (z_origin z) [z_soa z'] (z_records z')"
  proof (cases "code = TYPE_SOA")
    case True
    then obtain r where r: "new = [r]" "name = z_origin z" "rr_rtype r = TYPE_SOA"
      using s(5) new by (cases new) (auto simp: rrset_ok_def)
    then show ?thesis
      using soas True by (auto simp: soas_at_def s(2,3) filter_none)
  next
    case False
    have "filter (\<lambda>r. rr_rtype r = TYPE_SOA) new = []"
      using new False by (intro filter_none) (auto simp: rrset_ok_def list_all_iff)
    moreover have "filter (\<lambda>r. rr_rtype r \<noteq> code \<and> rr_rtype r = TYPE_SOA) ?old =
        filter (\<lambda>r. rr_rtype r = TYPE_SOA) ?old"
      using False by (intro filter_cong) auto
    ultimately show ?thesis
      using soas False by (auto simp: soas_at_def s(2,3))
  qed
  show ?thesis
    using nodes' soas' by (simp add: wf_zone_def s(1,4))
qed

lemma delete_type_wf:
  assumes z: "wf_zone z" and ok: "delete_type name code z = Inr z'"
  shows "wf_zone z'" "z_origin z' = z_origin z" "z_soa z' = z_soa z"
    "node_or_default (z_records z') k =
       (if k = name then filter (\<lambda>r. rr_rtype r \<noteq> code) (node_or_default (z_records z) k)
        else node_or_default (z_records z) k)"
proof -
  let ?old = "node_or_default (z_records z) name"
  let ?new = "filter (\<lambda>r. rr_rtype r \<noteq> code) ?old"
  have code: "code \<noteq> TYPE_SOA" using ok by (auto simp: delete_type_def split: if_splits)
  have nodes: "nodes_ok (z_origin z) (z_records z)" and soas: "soas_at (z_origin z) [z_soa z] (z_records z)"
    using z by (simp_all add: wf_zone_def)
  have frame: "z_origin z' = z_origin z" "z_soa z' = z_soa z" "z_record_count z' = size (records_mset (z_records z'))"
    using ok by (auto simp: delete_type_def Let_def split: if_splits option.splits)
  have recs: "node_or_default (z_records z') k =
      (if k = name then ?new else node_or_default (z_records z) k)" for k
    using ok code
    by (auto simp: delete_type_def Let_def node_or_default_def map_of_delete_if split: if_splits option.splits)
  have "nodes_ok (z_origin z) (z_records z')"
  proof (cases "map_of (z_records z) name")
    case (Some node)
    then have "filter (\<lambda>r. rr_rtype r \<noteq> code) node \<noteq> [] \<Longrightarrow>
        node_ok (z_origin z) name (filter (\<lambda>r. rr_rtype r \<noteq> code) node)"
      using nodes_okD [OF nodes Some] by (auto simp: node_ok_def list_all_iff)
    then show ?thesis
      using ok Some nodes code by (auto simp: delete_type_def Let_def nodes_ok_update nodes_ok_delete)
  qed (use ok nodes code in \<open>auto simp: delete_type_def\<close>)
  moreover have "soas_at (z_origin z) [z_soa z] (z_records z')"
  proof -
    have "filter (\<lambda>r. rr_rtype r \<noteq> code \<and> rr_rtype r = TYPE_SOA) ?old = filter (\<lambda>r. rr_rtype r = TYPE_SOA) ?old"
      using code by (intro filter_cong) auto
    then show ?thesis using soas by (simp add: soas_at_def recs)
  qed
  ultimately show "wf_zone z'" using frame by (simp add: wf_zone_def)
  show "z_origin z' = z_origin z" "z_soa z' = z_soa z" using frame by simp_all
  show "node_or_default (z_records z') k =
      (if k = name then filter (\<lambda>r. rr_rtype r \<noteq> code) (node_or_default (z_records z) k)
       else node_or_default (z_records z) k)" by (simp add: recs)
qed

lemma bump_serial_soa:
  assumes "rr_rdata (z_soa z) = RD_Soa s"
  defines "fresh \<equiv> (z_soa z)\<lparr>rr_rdata := RD_Soa (s\<lparr>soa_serial := soa_serial s + 1\<rparr>)\<rparr>"
  shows "z_soa (bump_serial z) = fresh" "z_origin (bump_serial z) = z_origin z"
    "z_record_count (bump_serial z) = z_record_count z"
    "node_or_default (z_records (bump_serial z)) k =
       (if k = z_origin z then map (\<lambda>r. if rr_rtype r = TYPE_SOA then fresh else r) (node_or_default (z_records z) k)
        else node_or_default (z_records z) k)"
  using assms by (auto simp: bump_serial_def Let_def node_or_default_def split: option.splits)

lemma filter_soa_bumped:
  "rr_rtype fresh = TYPE_SOA \<Longrightarrow>
     filter (\<lambda>r. rr_rtype r = TYPE_SOA) (map (\<lambda>r. if rr_rtype r = TYPE_SOA then fresh else r) rrs) =
     map (\<lambda>_. fresh) (filter (\<lambda>r. rr_rtype r = TYPE_SOA) rrs)"
  by (induction rrs) auto

lemma bump_serial_wf:
  assumes z: "wf_zone z"
  shows "wf_zone (bump_serial z)" "z_origin (bump_serial z) = z_origin z"
proof -
  have "wf_zone (bump_serial z) \<and> z_origin (bump_serial z) = z_origin z"
  proof (cases "rr_rdata (z_soa z)")
    case (RD_Soa s)
    define fresh where "fresh = (z_soa z)\<lparr>rr_rdata := RD_Soa (s\<lparr>soa_serial := soa_serial s + 1\<rparr>)\<rparr>"
    note b = bump_serial_soa [OF RD_Soa, folded fresh_def]
    obtain node where node: "map_of (z_records z) (z_origin z) = Some node"
      "filter (\<lambda>r. rr_rtype r = TYPE_SOA) node = [z_soa z]"
      using wf_zone_soa(3) [OF z] by blast
    let ?node = "map (\<lambda>r. if rr_rtype r = TYPE_SOA then fresh else r) node"
    have recs: "z_records (bump_serial z) = AList.update (z_origin z) ?node (z_records z)"
      unfolding fresh_def using RD_Soa node(1) by (simp add: bump_serial_def Let_def)
    have fresh: "rr_rtype fresh = TYPE_SOA" "rr_name fresh = z_origin z"
      using wf_zone_soa(2) [OF z] by (simp_all add: fresh_def rr_rtype_def)
    have nodes: "nodes_ok (z_origin z) (z_records z)" and soas: "soas_at (z_origin z) [z_soa z] (z_records z)"
      and cnt: "z_record_count z = size (records_mset (z_records z))"
      using z by (simp_all add: wf_zone_def)
    have "node_ok (z_origin z) (z_origin z) ?node"
      using nodes_okD [OF nodes node(1)] fresh(2) by (auto simp: node_ok_def list_all_iff)
    then have "nodes_ok (z_origin z) (z_records (bump_serial z))"
      using nodes by (simp add: recs nodes_ok_update)
    moreover have "soas_at (z_origin z) [fresh] (z_records (bump_serial z))"
      using soas node(2) fresh(1) by (auto simp: soas_at_def recs filter_soa_bumped)
    moreover have "size (records_mset (z_records (bump_serial z))) = size (records_mset (z_records z))"
    proof -
      have "records_mset (AList.update (z_origin z) ?node (z_records z)) + mset node =
          records_mset (z_records z) + mset ?node"
        using records_mset_update [of "z_records z" "z_origin z" ?node] nodes node(1)
        by (simp add: nodes_ok_def node_or_default_def)
      then have "size (records_mset (AList.update (z_origin z) ?node (z_records z)) + mset node) =
          size (records_mset (z_records z) + mset ?node)" by simp
      then show ?thesis by (simp add: recs)
    qed
    ultimately show ?thesis
      using cnt by (simp add: wf_zone_def b(1-3))
  qed (use z in \<open>simp_all add: bump_serial_def\<close>)
  then show "wf_zone (bump_serial z)" "z_origin (bump_serial z) = z_origin z" by simp_all
qed

section \<open>Transfer order\<close>

lemma mset_filter_records:
  "mset (concat (map (\<lambda>kv. filter P (snd kv)) recs)) = filter_mset P (records_mset recs)"
  by (induction recs) auto

lemma filter_soas_mset:
  "distinct (map fst recs) \<Longrightarrow> soas_at origin soas recs \<Longrightarrow>
     filter_mset (\<lambda>r. rr_rtype r = TYPE_SOA) (records_mset recs) = mset soas"
proof (induction recs arbitrary: soas)
  case Nil
  then have "soas = []" by (simp add: soas_at_def split: if_splits)
  then show ?case by simp
next
  case (Cons kv recs)
  obtain k v where kv: "kv = (k, v)" by fastforce
  have k: "node_or_default recs k = []"
    using Cons.prems(1) kv by (simp add: node_or_default_def map_of_eq_None_iff [THEN iffD2])
  have v: "filter (\<lambda>r. rr_rtype r = TYPE_SOA) v = (if k = origin then soas else [])"
    using Cons.prems(2) [unfolded soas_at_def, THEN spec, of k] kv by simp
  have "soas_at origin (if k = origin then [] else soas) recs"
    unfolding soas_at_def
  proof
    fix j
    show "filter (\<lambda>r. rr_rtype r = TYPE_SOA) (node_or_default recs j) =
        (if j = origin then if k = origin then [] else soas else [])"
      using Cons.prems(2) [unfolded soas_at_def, THEN spec, of j] kv k by (auto split: if_splits)
  qed
  from Cons.IH [OF _ this] Cons.prems(1) kv v show ?case
    by (auto simp flip: mset_filter)
qed

lemma all_records_mset:
  assumes "wf_zone z"
  shows "mset (all_records z) = records_mset (z_records z)"
proof -
  have "filter_mset (\<lambda>r. rr_rtype r = TYPE_SOA) (records_mset (z_records z)) = {#z_soa z#}"
    using filter_soas_mset [of "z_records z" "z_origin z" "[z_soa z]"] assms
    by (simp add: wf_zone_def nodes_ok_def)
  then show ?thesis
    using multiset_partition [of "records_mset (z_records z)" "\<lambda>r. rr_rtype r = TYPE_SOA"]
    by (simp add: all_records_def mset_filter_records del: mset_concat)
qed

section \<open>Sequences of edits\<close>

text \<open>
  The contract of an edit as the management API uses it: applied to a copy,
  it keeps the zone well formed and its origin.  Sequences of edits inherit it.
\<close>

locale zone_edit =
  fixes step :: "'a \<Rightarrow> zone \<Rightarrow> zone"
    and pre :: "dns_name \<Rightarrow> 'a \<Rightarrow> bool"
  assumes step_wf: "wf_zone z \<Longrightarrow> pre (z_origin z) a \<Longrightarrow> wf_zone (step a z)"
    and step_origin: "wf_zone z \<Longrightarrow> pre (z_origin z) a \<Longrightarrow> z_origin (step a z) = z_origin z"
begin

lemma steps_wf:
  "wf_zone z \<Longrightarrow> list_all (pre (z_origin z)) as \<Longrightarrow>
     wf_zone (fold step as z) \<and> z_origin (fold step as z) = z_origin z"
proof (induction as arbitrary: z)
  case (Cons a as)
  then show ?case using step_wf [of z a] step_origin [of z a] Cons.IH [of "step a z"] by simp
qed simp

end

text \<open>One change of the API, committed only if it succeeds.\<close>

datatype rrset_change = Replace dns_name u16 "rr list" | Delete dns_name u16

fun commit_change :: "rrset_change \<Rightarrow> zone \<Rightarrow> zone" where
  "commit_change (Replace name code new) z =
     (case replace_records name code new z of (z', r) \<Rightarrow> if is_ok r then z' else z)"
| "commit_change (Delete name code) z =
     (case delete_type name code z of Inr z' \<Rightarrow> z' | Inl _ \<Rightarrow> z)"

fun change_ok :: "dns_name \<Rightarrow> rrset_change \<Rightarrow> bool" where
  "change_ok origin (Replace name code new) = (ends_with name origin \<and> rrset_ok name code new)"
| "change_ok origin (Delete name code) = True"

interpretation change: zone_edit commit_change change_ok
proof unfold_locales
  fix z :: zone and a
  assume z: "wf_zone z" and a: "change_ok (z_origin z) a"
  have "wf_zone (commit_change a z) \<and> z_origin (commit_change a z) = z_origin z"
  proof (cases a)
    case (Replace name code new)
    obtain z' r where r: "replace_records name code new z = (z', r)" by fastforce
    show ?thesis
    proof (cases r)
      case (Inr u)
      then have ok: "replace_records name code new z = (z', Inr ())" using r by simp
      then show ?thesis
        using z a Replace replace_records_wf [OF z _ _ ok] replace_records_success(1) [OF ok] by simp
    qed (use z Replace r in simp)
  next
    case (Delete name code)
    show ?thesis
    proof (cases "delete_type name code z")
      case (Inr z')
      then show ?thesis using Delete delete_type_wf(1,2) [OF z Inr] by simp
    qed (use z Delete in simp)
  qed
  then show "wf_zone (commit_change a z)" "z_origin (commit_change a z) = z_origin z" by simp_all
qed

interpretation bump: zone_edit "\<lambda>_ :: unit. bump_serial" "\<lambda>_ _. True"
  by unfold_locales (simp_all add: bump_serial_wf)

section \<open>Dynamic update\<close>

lemma refresh_first_props:
  "length (refresh_first u rrs) = length rrs"
  "list_all (\<lambda>r. rr_name r = k) (refresh_first u rrs) = list_all (\<lambda>r. rr_name r = k) rrs"
  by (induction rrs) auto

text \<open>Nodes may become empty in the course of an update, until the next sweep.\<close>

definition nodes_pre :: "dns_name \<Rightarrow> nodes \<Rightarrow> bool" where
  "nodes_pre origin recs \<longleftrightarrow> distinct (map fst recs) \<and>
     (\<forall>k rrs. map_of recs k = Some rrs \<longrightarrow> ends_with k origin \<and> list_all (\<lambda>r. rr_name r = k) rrs)"

lemma nodes_ok_pre: "nodes_ok origin recs \<Longrightarrow> nodes_pre origin recs"
  by (auto simp: nodes_ok_def nodes_pre_def node_ok_def)

lemma nodes_pre_sweep: "nodes_pre origin recs \<Longrightarrow> nodes_ok origin (filter (\<lambda>kv. snd kv \<noteq> []) recs)"
  by (auto simp: nodes_pre_def nodes_ok_def node_ok_def distinct_filter_keys map_of_filter_nonempty
        split: option.splits list.splits)

lemma nodes_pre_edit:
  assumes "nodes_pre origin recs" "\<And>rrs. set (f rrs) \<subseteq> set rrs"
  shows "nodes_pre origin (edit_node k f recs)"
proof (cases "map_of recs k")
  case (Some rrs)
  then have "list_all (\<lambda>r. rr_name r = k) (f rrs)" "ends_with k origin"
    using assms(1) assms(2) [of rrs] by (auto simp: nodes_pre_def list_all_iff)
  then show ?thesis using assms(1) Some by (auto simp: nodes_pre_def edit_node_def distinct_update)
qed (use assms(1) in \<open>simp add: edit_node_def\<close>)

lemma update_one_pre:
  assumes "nodes_ok origin recs" "ends_with (rr_name u) origin" "update_one origin u recs = Some recs'"
  shows "nodes_pre origin recs'"
proof -
  have pre: "nodes_pre origin recs" using assms(1) by (rule nodes_ok_pre)
  have own: "list_all (\<lambda>r. rr_name r = rr_name u) (node_or_default recs (rr_name u))"
    using assms(1) by (rule node_or_default_owner)
  have add: "nodes_pre origin (AList.update (rr_name u) v recs)"
    if "list_all (\<lambda>r. rr_name r = rr_name u) v" for v
    using pre assms(2) that by (auto simp: nodes_pre_def distinct_update)
  have del: "nodes_pre origin (AList.delete (rr_name u) recs)"
    using pre by (auto simp: nodes_pre_def distinct_delete map_of_delete_if split: if_splits)
  show ?thesis
    using assms(3) pre own add del
    by (auto simp: update_one_def Let_def refresh_first_props intro!: nodes_pre_edit split: if_splits)
qed

lemma apply_updates_nodes:
  "nodes_ok (z_origin z) (z_records z) \<Longrightarrow> list_all (\<lambda>u. ends_with (rr_name u) (z_origin z)) us \<Longrightarrow>
     apply_updates z us = (z', rc) \<Longrightarrow> nodes_ok (z_origin z) (z_records z') \<and> z_origin z' = z_origin z"
proof (induction us arbitrary: z)
  case (Cons u us)
  show ?case
  proof (cases "update_one (z_origin z) u (z_records z)")
    case (Some recs)
    let ?z = "z\<lparr>z_records := filter (\<lambda>kv. snd kv \<noteq> []) recs\<rparr>"
    have "nodes_ok (z_origin ?z) (z_records ?z)"
      using nodes_pre_sweep [OF update_one_pre [OF Cons.prems(1) _ Some]] Cons.prems(2) by simp
    from Cons.IH [OF this] Cons.prems(2,3) Some show ?thesis by simp
  qed (use Cons.prems in auto)
qed auto

lemma apply_updates_rcode: "apply_updates z us = (z', rc) \<Longrightarrow> rc = RCODE_NOERROR \<or> rc = RCODE_FORMERR"
  by (induction us arbitrary: z) (auto split: option.splits)

lemma apply_updates_formerr:
  "snd (apply_updates z us) = RCODE_NOERROR \<longleftrightarrow>
     list_all (\<lambda>u. rr_class u \<in> {CLASS_IN, CLASS_ANY, CLASS_NONE}) us"
proof (induction us arbitrary: z)
  case (Cons u us)
  have "update_one (z_origin z) u (z_records z) = None \<longleftrightarrow> rr_class u \<notin> {CLASS_IN, CLASS_ANY, CLASS_NONE}"
    by (auto simp: update_one_def Let_def)
  then show ?case using Cons by (auto split: option.splits)
qed simp

text \<open>
  RFC 2136 over sets: a zone is the set of the types and data its names hold,
  whatever the nodes and the lifetimes.
\<close>

type_synonym rr_set = "(dns_name \<times> u16 \<times> rdata) set"

definition node_data :: "rr list \<Rightarrow> (u16 \<times> rdata) set" where
  "node_data rrs = (\<lambda>r. (rr_rtype r, rr_rdata r)) ` set rrs"

definition held :: "nodes \<Rightarrow> rr_set" where
  "held recs = {(n, t, rd). (t, rd) \<in> node_data (node_or_default recs n)}"

text \<open>Section 3.2.5: the prerequisites, with the code of each that is not met.\<close>

definition prereq_met :: "rr_set \<Rightarrow> rr \<Rightarrow> bool" where
  "prereq_met R p \<longleftrightarrow>
     (let in_use = (\<exists>t rd. (rr_name p, t, rd) \<in> R); has_type = (\<exists>rd. (rr_name p, rr_rtype p, rd) \<in> R) in
      rr_class p = CLASS_ANY \<and> (if rr_rtype p = TYPE_ANY then in_use else has_type) \<or>
      rr_class p = CLASS_NONE \<and> (if rr_rtype p = TYPE_ANY then \<not> in_use else \<not> has_type) \<or>
      rr_class p = CLASS_IN \<and> (rr_name p, rr_rtype p, rr_rdata p) \<in> R)"

definition prereq_code :: "dns_name \<Rightarrow> rr \<Rightarrow> byte" where
  "prereq_code origin p =
     (if \<not> ends_with (rr_name p) origin then RCODE_NOTAUTH
      else if rr_class p = CLASS_ANY then if rr_rtype p = TYPE_ANY then RCODE_NXDOMAIN else RCODE_NXRRSET
      else if rr_class p = CLASS_NONE then if rr_rtype p = TYPE_ANY then RCODE_YXDOMAIN else RCODE_YXRRSET
      else if rr_class p = CLASS_IN then RCODE_NXRRSET
      else RCODE_FORMERR)"

text \<open>Section 3.4.2: the effect of one update record.\<close>

definition set_update :: "dns_name \<Rightarrow> rr \<Rightarrow> rr_set \<Rightarrow> rr_set" where
  "set_update origin u R =
     (let n = rr_name u; t = rr_rtype u in
      if rr_class u = CLASS_IN then insert (n, t, rr_rdata u) R
      else if rr_class u = CLASS_NONE then R - {(n, t, rr_rdata u)}
      else if t = TYPE_ANY then R - {(n', t', rd). n' = n \<and> \<not> (n = origin \<and> t' \<in> {TYPE_SOA, TYPE_NS})}
      else R - {(n', t', rd). n' = n \<and> t' = t \<and> \<not> (n = origin \<and> t = TYPE_SOA)})"

lemma held_at: "(n, t, rd) \<in> held recs \<longleftrightarrow> (t, rd) \<in> node_data (node_or_default recs n)"
  by (simp add: held_def)

lemma node_data_simps [simp]:
  "node_data [] = {}" "node_data (rrs @ [u]) = insert (rr_rtype u, rr_rdata u) (node_data rrs)"
  "node_data (refresh_first u rrs) = node_data rrs"
proof -
  show "node_data (refresh_first u rrs) = node_data rrs" by (induction rrs) (auto simp: node_data_def rr_rtype_def)
qed (auto simp: node_data_def)

lemma node_data_ex:
  "list_ex (same_rr u) rrs \<longleftrightarrow> (rr_rtype u, rr_rdata u) \<in> node_data rrs"
  "list_ex (\<lambda>r. rr_rtype r = t) rrs \<longleftrightarrow> (\<exists>rd. (t, rd) \<in> node_data rrs)"
  by (induction rrs) (auto simp: node_data_def)

lemma node_or_default_sweep:
  "distinct (map fst recs) \<Longrightarrow> node_or_default (filter (\<lambda>kv. snd kv \<noteq> []) recs) n = node_or_default recs n"
  by (auto simp: node_or_default_def map_of_filter_nonempty split: option.splits list.splits)

lemma held_sweep: "distinct (map fst recs) \<Longrightarrow> held (filter (\<lambda>kv. snd kv \<noteq> []) recs) = held recs"
  by (simp add: held_def node_or_default_sweep)

lemma node_or_default_edit:
  "f [] = [] \<Longrightarrow> node_or_default (edit_node k f recs) n = (if n = k then f (node_or_default recs n) else node_or_default recs n)"
  by (auto simp: node_or_default_def edit_node_def split: option.splits)

lemma check_prereqs_spec:
  assumes "nodes_ok (z_origin z) (z_records z)"
  shows "check_prereqs z ps = map_option (prereq_code (z_origin z))
    (find (\<lambda>p. \<not> (ends_with (rr_name p) (z_origin z) \<and> prereq_met (held (z_records z)) p)) ps)"
proof (induction ps)
  case (Cons p ps)
  let ?node = "node_or_default (z_records z) (rr_name p)"
  have "(map_of (z_records z) (rr_name p) \<noteq> None) = (\<exists>t rd. (rr_name p, t, rd) \<in> held (z_records z))"
  proof (cases "map_of (z_records z) (rr_name p)")
    case (Some node)
    then have "node \<noteq> []" using nodes_okD [OF assms Some] by (simp add: node_ok_def)
    then show ?thesis using Some by (cases node) (auto simp: held_at node_data_def node_or_default_def)
  qed (simp add: held_at node_or_default_def)
  moreover have "(case map_of (z_records z) (rr_name p) of None \<Rightarrow> False | Some rrs \<Rightarrow> list_ex Q rrs) = list_ex Q ?node" for Q
    by (simp add: node_or_default_def split: option.splits)
  ultimately show ?case
    using Cons node_data_ex(1) [of p ?node] by (simp add: Let_def prereq_met_def prereq_code_def held_at node_data_ex(2))
qed simp

lemma held_change:
  "(\<And>n. node_data (node_or_default recs' n) = (if n = k then D else node_data (node_or_default recs n))) \<Longrightarrow>
     held recs' = {(n, t, rd). if n = k then (t, rd) \<in> D else (n, t, rd) \<in> held recs}"
  by (auto simp: held_def)

lemma update_one_held:
  assumes "update_one origin u recs = Some recs'"
  shows "held recs' = set_update origin u (held recs)"
proof -
  let ?D = "node_data (node_or_default recs (rr_name u))"
  let ?D' = "{(t, rd). (rr_name u, t, rd) \<in> set_update origin u (held recs)}"
  have upd: "node_or_default (AList.update k v recs) n = (if n = k then v else node_or_default recs n)" for k v n
    by (simp add: node_or_default_def)
  have del: "node_or_default (AList.delete k recs) n = (if n = k then [] else node_or_default recs n)" for k n
    by (simp add: node_or_default_def map_of_delete_if)
  have "node_data (node_or_default recs' n) = (if n = rr_name u then ?D' else node_data (node_or_default recs n))" for n
  proof (cases "rr_class u = CLASS_IN")
    case True
    then show ?thesis
      using assms by (auto simp: update_one_def set_update_def Let_def held_at upd node_data_ex(1) split: if_splits)
  next
    case False
    then show ?thesis
      using assms
      by (auto simp: update_one_def set_update_def Let_def held_at del node_or_default_edit node_data_def split: if_splits)
  qed
  from held_change [OF this] show ?thesis
    by (auto simp: set_update_def Let_def split: if_splits)
qed

lemma apply_updates_held:
  assumes "nodes_ok (z_origin z) (z_records z)" "list_all (\<lambda>u. ends_with (rr_name u) (z_origin z)) us"
    and "apply_updates z us = (z', rc)"
  shows "held (z_records z') =
      fold (set_update (z_origin z)) (takeWhile (\<lambda>u. rr_class u \<in> {CLASS_IN, CLASS_ANY, CLASS_NONE}) us) (held (z_records z))"
  using assms
proof (induction us arbitrary: z)
  case (Cons u us)
  have adm: "update_one (z_origin z) u (z_records z) = None \<longleftrightarrow> rr_class u \<notin> {CLASS_IN, CLASS_ANY, CLASS_NONE}"
    by (auto simp: update_one_def Let_def)
  show ?case
  proof (cases "update_one (z_origin z) u (z_records z)")
    case (Some recs)
    let ?z = "z\<lparr>z_records := filter (\<lambda>kv. snd kv \<noteq> []) recs\<rparr>"
    have pre: "nodes_pre (z_origin z) recs" using update_one_pre [OF Cons.prems(1) _ Some] Cons.prems(2) by simp
    then have "held (z_records ?z) = set_update (z_origin z) u (held (z_records z))"
      using held_sweep [of recs] update_one_held [OF Some] by (simp add: nodes_pre_def)
    moreover have "nodes_ok (z_origin ?z) (z_records ?z)" using nodes_pre_sweep [OF pre] by simp
    ultimately show ?thesis using Cons.IH [of ?z] Cons.prems(2,3) Some adm by simp
  qed (use Cons.prems(3) adm in auto)
qed auto

section \<open>Lookup\<close>

text \<open>The node a name is answered from: its own, or the first wildcard above it.\<close>

lemma wildcard_at_Some: "1 \<le> skip \<Longrightarrow> skip \<le> length name \<Longrightarrow> wildcard_at name skip = Some (star_label # drop skip name)"
  by (simp add: wildcard_at_def)

lemma wildcard_search_iff:
  assumes "k \<le> length name" "1 \<le> i"
  shows "wildcard_search recs name [i..<Suc k] = Some node \<longleftrightarrow>
    (\<exists>skip rrs. i \<le> skip \<and> skip \<le> k \<and> map_of recs (star_label # drop skip name) = Some rrs \<and>
      (\<forall>s. i \<le> s \<and> s < skip \<longrightarrow> map_of recs (star_label # drop s name) = None) \<and>
      node = map (\<lambda>r. r\<lparr>rr_name := name\<rparr>) rrs)"
  using assms
proof (induction "Suc k - i" arbitrary: i)
  case (Suc d)
  then have i: "i \<le> k" by simp
  then have upt: "[i..<Suc k] = i # [Suc i..<Suc k]" by (simp add: upt_conv_Cons)
  have w: "wildcard_at name i = Some (star_label # drop i name)"
    using Suc.prems i by (intro wildcard_at_Some) auto
  show ?case
  proof (cases "map_of recs (star_label # drop i name)")
    case None
    have "wildcard_search recs name [i..<Suc k] = Some node \<longleftrightarrow>
        wildcard_search recs name [Suc i..<Suc k] = Some node"
      by (simp only: upt wildcard_search.simps w None option.case)
    also have "\<dots> \<longleftrightarrow> (\<exists>skip rrs. Suc i \<le> skip \<and> skip \<le> k \<and> map_of recs (star_label # drop skip name) = Some rrs \<and>
        (\<forall>s. Suc i \<le> s \<and> s < skip \<longrightarrow> map_of recs (star_label # drop s name) = None) \<and>
        node = map (\<lambda>r. r\<lparr>rr_name := name\<rparr>) rrs)"
      using Suc.hyps(1) [of "Suc i"] Suc.hyps(2) Suc.prems by simp
    also have "\<dots> \<longleftrightarrow> (\<exists>skip rrs. i \<le> skip \<and> skip \<le> k \<and> map_of recs (star_label # drop skip name) = Some rrs \<and>
        (\<forall>s. i \<le> s \<and> s < skip \<longrightarrow> map_of recs (star_label # drop s name) = None) \<and>
        node = map (\<lambda>r. r\<lparr>rr_name := name\<rparr>) rrs)"
      using None by (metis Suc_leD Suc_leI le_neq_implies_less option.distinct(1))
    finally show ?thesis .
  next
    case (Some rrs)
    have "wildcard_search recs name [i..<Suc k] = Some node \<longleftrightarrow> node = map (\<lambda>r. r\<lparr>rr_name := name\<rparr>) rrs"
      unfolding upt using w Some by auto
    moreover have "map_of recs (star_label # drop skip name) = Some rrs' \<and> i \<le> skip \<and>
        (\<forall>s. i \<le> s \<and> s < skip \<longrightarrow> map_of recs (star_label # drop s name) = None) \<Longrightarrow> skip = i" for skip rrs'
      using Some by (metis le_neq_implies_less option.distinct(1) order_refl)
    ultimately show ?thesis using Some i by (metis leD option.inject order_refl)
  qed
qed simp

definition covers :: "dns_name \<Rightarrow> dns_name \<Rightarrow> bool" where
  "covers k name \<longleftrightarrow> k = name \<or> (\<exists>skip. 1 \<le> skip \<and> skip \<le> length name \<and> k = star_label # drop skip name)"

text \<open>A record that an answer may contain: a record of the zone, its owner possibly synthesized.\<close>

definition in_zone :: "zone \<Rightarrow> rr \<Rightarrow> bool" where
  "in_zone z r \<longleftrightarrow> (\<exists>k rrs r0. map_of (z_records z) k = Some rrs \<and> r0 \<in> set rrs \<and> covers k (rr_name r) \<and>
     r = r0\<lparr>rr_name := rr_name r\<rparr>)"

lemma find_node_records:
  assumes "nodes_pre (z_origin z) (z_records z)" "find_node z name = Some node" "r \<in> set node"
  shows "rr_name r = name \<and> in_zone z r"
proof (cases "map_of (z_records z) name")
  case (Some rrs)
  then have "rr_name r = name" "node = rrs"
    using assms by (auto simp: find_node_def nodes_pre_def list_all_iff)
  then show ?thesis
    using Some assms(3) unfolding in_zone_def
    by (intro conjI exI [of _ name] exI [of _ rrs] exI [of _ r]) (simp_all add: covers_def)
next
  case None
  let ?k = "label_count name - label_count (z_origin z)"
  from None assms(2) have "wildcard_search (z_records z) name [1..<Suc ?k] = Some node"
    by (auto simp: find_node_def split: if_splits)
  then obtain skip rrs where s: "1 \<le> skip" "skip \<le> ?k" "map_of (z_records z) (star_label # drop skip name) = Some rrs"
    "node = map (\<lambda>r. r\<lparr>rr_name := name\<rparr>) rrs"
    by (subst (asm) wildcard_search_iff) (auto simp: label_count_def)
  then obtain r0 where "r0 \<in> set rrs" "r = r0\<lparr>rr_name := name\<rparr>" using assms(3) by auto
  moreover have "covers (star_label # drop skip name) name"
    unfolding covers_def using s(1,2) by (auto simp: label_count_def intro!: exI [of _ skip])
  ultimately show ?thesis using s(3) by (auto simp: in_zone_def)
qed

text \<open>
  The CNAME records a lookup follows: each is the first CNAME of the node its
  owner is answered from, that node has no record of the queried type, and its
  target is the owner of the next one.
\<close>

fun cname_chain :: "zone \<Rightarrow> u16 \<Rightarrow> dns_name \<Rightarrow> rr list \<Rightarrow> dns_name \<Rightarrow> bool" where
  "cname_chain z qtype name [] tgt \<longleftrightarrow> tgt = name"
| "cname_chain z qtype name (r # rs) tgt \<longleftrightarrow>
     (\<exists>node target. find_node z name = Some node \<and> filter (type_matches qtype) node = [] \<and>
        find (\<lambda>r. rr_rtype r = TYPE_CNAME) node = Some r \<and> rr_rdata r = RD_Cname target \<and>
        (rs \<noteq> [] \<longrightarrow> ends_with target (z_origin z)) \<and> cname_chain z qtype target rs tgt)"

text \<open>What a lookup answers once the chain has reached \<open>tgt\<close>.\<close>

definition outcome :: "zone \<Rightarrow> u16 \<Rightarrow> rr list \<Rightarrow> dns_name \<Rightarrow> lookup_result \<Rightarrow> bool" where
  "outcome z qtype chain tgt res \<longleftrightarrow>
     (if chain \<noteq> [] \<and> \<not> ends_with tgt (z_origin z) then
        res = \<lparr>lk_rcode = RCODE_NOERROR, lk_answers = chain, lk_negative = False, lk_offsite = Some tgt\<rparr>
      else if length chain = 8 then
        res = \<lparr>lk_rcode = RCODE_SERVFAIL, lk_answers = chain, lk_negative = False, lk_offsite = None\<rparr>
      else
        (case find_node z tgt of
           None \<Rightarrow>
             res = \<lparr>lk_rcode = (if has_names_below z tgt \<or> chain \<noteq> [] then RCODE_NOERROR else RCODE_NXDOMAIN),
                    lk_answers = chain, lk_negative = True, lk_offsite = None\<rparr>
         | Some node \<Rightarrow>
             if filter (type_matches qtype) node \<noteq> [] then
               res = \<lparr>lk_rcode = RCODE_NOERROR, lk_answers = chain @ filter (type_matches qtype) node,
                      lk_negative = False, lk_offsite = None\<rparr>
             else find (\<lambda>r. rr_rtype r = TYPE_CNAME) node = None \<and>
               res = \<lparr>lk_rcode = RCODE_NOERROR, lk_answers = chain, lk_negative = True, lk_offsite = None\<rparr>))"

lemma cname_chain_snoc:
  assumes "cname_chain z qtype qname chain name" "chain \<noteq> [] \<longrightarrow> ends_with name (z_origin z)"
    "find_node z name = Some node" "filter (type_matches qtype) node = []"
    "find (\<lambda>r. rr_rtype r = TYPE_CNAME) node = Some r" "rr_rdata r = RD_Cname target"
  shows "cname_chain z qtype qname (chain @ [r]) target"
  using assms
proof (induction chain arbitrary: qname)
  case (Cons c cs)
  then obtain node' t where c: "find_node z qname = Some node'" "filter (type_matches qtype) node' = []"
    "find (\<lambda>r. rr_rtype r = TYPE_CNAME) node' = Some c" "rr_rdata c = RD_Cname t"
    "cs \<noteq> [] \<longrightarrow> ends_with t (z_origin z)" "cname_chain z qtype t cs name" by auto
  have "ends_with t (z_origin z)"
    using c(5,6) Cons.prems(2) by (cases "cs = []") auto
  moreover have "cname_chain z qtype t (cs @ [r]) target"
    using Cons.IH [OF c(6)] Cons.prems(2-) by simp
  ultimately show ?case using c(1-4) by simp
qed auto

text \<open>
  Where a lookup panics: the chain has reached a name whose CNAME is held in
  generic form.
\<close>

definition stuck :: "zone \<Rightarrow> u16 \<Rightarrow> rr list \<Rightarrow> dns_name \<Rightarrow> bool" where
  "stuck z qtype chain tgt \<longleftrightarrow> length chain < 8 \<and> (chain \<noteq> [] \<longrightarrow> ends_with tgt (z_origin z)) \<and>
     (\<exists>node r. find_node z tgt = Some node \<and> filter (type_matches qtype) node = [] \<and>
        find (\<lambda>r. rr_rtype r = TYPE_CNAME) node = Some r \<and> (\<forall>t. rr_rdata r \<noteq> RD_Cname t))"

lemma lookup_loop_spec:
  assumes "cname_chain z qtype qname chain name" "chain \<noteq> [] \<longrightarrow> ends_with name (z_origin z)"
    and "length chain + k = 8"
  shows "\<exists>chain' tgt. cname_chain z qtype qname chain' tgt \<and> length chain' \<le> 8 \<and>
    (case lookup_loop k z name qtype chain of
       Some res \<Rightarrow> outcome z qtype chain' tgt res
     | None \<Rightarrow> stuck z qtype chain' tgt)"
  using assms
proof (induction k arbitrary: name chain)
  case 0
  then show ?case by (intro exI [of _ chain] exI [of _ name]) (auto simp: outcome_def)
next
  case (Suc k)
  show ?case
  proof (cases "find_node z name")
    case None
    then show ?thesis
      using Suc.prems by (intro exI [of _ chain] exI [of _ name]) (auto simp: outcome_def)
  next
    case (Some node)
    show ?thesis
    proof (cases "filter (type_matches qtype) node = [] \<and> find (\<lambda>r. rr_rtype r = TYPE_CNAME) node \<noteq> None")
      case False
      then show ?thesis
        using Suc.prems Some by (intro exI [of _ chain] exI [of _ name]) (auto simp: outcome_def Let_def)
    next
      case True
      then obtain r where r: "find (\<lambda>r. rr_rtype r = TYPE_CNAME) node = Some r" by blast
      show ?thesis
      proof (cases "\<exists>t. rr_rdata r = RD_Cname t")
        case False
        then have "lookup_loop (Suc k) z name qtype chain = None"
          using Some True r by (auto simp: Let_def split: rdata.splits)
        then show ?thesis
          using Suc.prems Some True r False by (intro exI [of _ chain] exI [of _ name]) (auto simp: stuck_def)
      next
        case t: True
        then obtain t where t: "rr_rdata r = RD_Cname t" by blast
        have snoc: "cname_chain z qtype qname (chain @ [r]) t"
          using cname_chain_snoc [OF Suc.prems(1,2) Some _ r t] True by blast
        show ?thesis
        proof (cases "ends_with t (z_origin z)")
          case under: True
          from Suc.IH [OF snoc] under Suc.prems(3) Some True r t show ?thesis by simp
        next
          case out: False
          then show ?thesis
            using Suc.prems Some True r t snoc
            by (intro exI [of _ "chain @ [r]"] exI [of _ t]) (simp add: outcome_def)
        qed
      qed
    qed
  qed
qed

text \<open>CNAME records carry a name; then no lookup panics.\<close>

definition cnames_typed :: "zone \<Rightarrow> bool" where
  "cnames_typed z \<longleftrightarrow> (\<forall>k rrs. map_of (z_records z) k = Some rrs \<longrightarrow>
     list_all (\<lambda>r. rr_rtype r = TYPE_CNAME \<longrightarrow> (\<exists>t. rr_rdata r = RD_Cname t)) rrs)"

lemma in_zone_cname:
  assumes "cnames_typed z" "in_zone z r" "rr_rtype r = TYPE_CNAME"
  shows "\<exists>t. rr_rdata r = RD_Cname t"
proof -
  from assms(2) obtain k rrs r0 where "map_of (z_records z) k = Some rrs" "r0 \<in> set rrs" "rr_rdata r = rr_rdata r0"
    by (metis in_zone_def rr.select_convs(4) rr.surjective rr.update_convs(1))
  then show ?thesis using assms(1,3) by (auto simp: cnames_typed_def list_all_iff rr_rtype_def)
qed

lemma lookup_loop_total:
  assumes "nodes_pre (z_origin z) (z_records z)" "cnames_typed z"
  shows "\<exists>res. lookup_loop k z name qtype answers = Some res"
proof (induction k arbitrary: name answers)
  case (Suc k)
  have "\<exists>t. rr_rdata r = RD_Cname t"
    if "find_node z name = Some node" "find (\<lambda>r. rr_rtype r = TYPE_CNAME) node = Some r" for node r
    using that find_node_records [OF assms(1) that(1), of r] in_zone_cname [OF assms(2), of r]
    by (auto simp: find_Some_iff)
  then show ?case using Suc by (fastforce simp: Let_def split: option.splits)
qed simp

lemma cname_chain_in_zone:
  assumes "nodes_pre (z_origin z) (z_records z)" "cname_chain z qtype name chain tgt"
  shows "list_all (in_zone z) chain"
  using assms(2)
proof (induction chain arbitrary: name)
  case (Cons r rs)
  then obtain node where "find_node z name = Some node" "r \<in> set node" "list_all (in_zone z) rs"
    by (auto simp: find_Some_iff)
  then show ?case using find_node_records [OF assms(1)] by simp
qed simp

lemma outcome_in_zone:
  assumes "nodes_pre (z_origin z) (z_records z)" "outcome z qtype chain tgt res" "list_all (in_zone z) chain"
  shows "list_all (in_zone z) (lk_answers res)"
  using assms(2,3) find_node_records [OF assms(1), of tgt]
  by (auto simp: outcome_def list_all_iff split: if_splits option.splits)

section \<open>Properties\<close>

definition sample_soa :: rr where
  "sample_soa = \<lparr>rr_name = [[101]], rr_class = CLASS_IN, rr_ttl = 3600, rr_rdata = RD_Soa
     \<lparr>soa_mname = [[110], [101]], soa_rname = [[104], [101]], soa_serial = 1, soa_refresh = 7200,
      soa_retry = 3600, soa_expire = 1209600, soa_minimum = 300\<rparr>\<rparr>"

definition sample_rr :: "byte \<Rightarrow> rdata \<Rightarrow> rr" where
  "sample_rr b rd = \<lparr>rr_name = [[b], [101]], rr_class = CLASS_IN, rr_ttl = 300, rr_rdata = rd\<rparr>"

definition sample_zone :: zone where
  "sample_zone = \<lparr>z_origin = [[101]], z_soa = sample_soa, z_record_count = 3, z_records =
     [([[101]], [sample_soa]), ([[119], [101]], [sample_rr 119 (RD_A 0x0A000001)]),
      ([[99], [101]], [sample_rr 99 (RD_Cname [[119], [101]])])]\<rparr>"

lemmas sample_defs = sample_soa_def sample_rr_def rr_rtype_def ends_with_def

lemma sample_zone_from_records:
  "from_records [[101]] [sample_soa, sample_rr 119 (RD_A 0x0A000001), sample_rr 99 (RD_Cname [[119], [101]])] =
     Inr sample_zone"
  by (simp add: from_records_def push_record_def sample_zone_def sample_defs)

lemma sample_zone_wf [simp]: "wf_zone sample_zone"
  by (rule from_records_wf(1) [OF sample_zone_from_records])

lemma wf_zone_nodes: "wf_zone z \<Longrightarrow> nodes_pre (z_origin z) (z_records z)"
  by (simp add: wf_zone_def nodes_ok_pre)

lemma sample_zone_typed [simp]: "cnames_typed sample_zone"
  by (simp add: cnames_typed_def sample_zone_def sample_defs)

text \<open>
  C2: An authoritative lookup in any zone whose nodes are in order, as assembly,
  edits and dynamic updates leave them, follows an in-zone CNAME chain of at
  most 8 links from the queried name, and either answers with the records of
  the chain followed by the outcome at its end (the records of the queried
  type, NODATA, NXDOMAIN only without a chain and without names below, the
  off-zone target, or SERVFAIL after 8 links), or panics, when the CNAME at the
  end of the chain is held in generic form.  It does not panic when every CNAME
  of the zone carries a name.  Every answer is a record of the zone, its owner
  synthesized from a covering wildcard at most.
\<close>
theorem lookup_correct:
  assumes "nodes_ok (z_origin z) (z_records z)"
  shows "(\<exists>chain tgt. cname_chain z qtype qname chain tgt \<and> length chain \<le> 8 \<and>
      (case lookup z qname qtype of
         Some res \<Rightarrow> outcome z qtype chain tgt res \<and> list_all (in_zone z) (lk_answers res)
       | None \<Rightarrow> stuck z qtype chain tgt)) \<and>
    (cnames_typed z \<longrightarrow> lookup z qname qtype \<noteq> None)"
proof -
  note pre = nodes_ok_pre [OF assms]
  obtain chain tgt where c: "cname_chain z qtype qname chain tgt" "length chain \<le> 8"
    "case lookup z qname qtype of Some res \<Rightarrow> outcome z qtype chain tgt res | None \<Rightarrow> stuck z qtype chain tgt"
    using lookup_loop_spec [of z qtype qname "[]" qname 8] unfolding lookup_def by auto
  have "list_all (in_zone z) (lk_answers res)" if "lookup z qname qtype = Some res" for res
    using c(3) that outcome_in_zone [OF pre _ cname_chain_in_zone [OF pre c(1)]] by simp
  then have "case lookup z qname qtype of
      Some res \<Rightarrow> outcome z qtype chain tgt res \<and> list_all (in_zone z) (lk_answers res) | None \<Rightarrow> stuck z qtype chain tgt"
    using c(3) by (simp split: option.splits)
  then show ?thesis using c(1,2) lookup_loop_total [OF pre] unfolding lookup_def by blast
qed

theorem lookup_correct_witness:
  "\<exists>res chain tgt. lookup sample_zone [[99], [101]] TYPE_A = Some res \<and>
    cname_chain sample_zone TYPE_A [[99], [101]] chain tgt \<and> length chain \<le> 8 \<and>
    outcome sample_zone TYPE_A chain tgt res \<and> list_all (in_zone sample_zone) (lk_answers res)"
proof -
  have "nodes_ok (z_origin sample_zone) (z_records sample_zone)" using sample_zone_wf by (simp add: wf_zone_def)
  from lookup_correct [OF this, of TYPE_A "[[99], [101]]"] show ?thesis by (auto split: option.splits)
qed

text \<open>
  Assembling a zone succeeds exactly when every owner is at or under the
  origin and there is exactly one SOA record, owned by the origin; the result
  is well formed and holds exactly the given records.
\<close>
theorem from_records_spec:
  "(is_ok (from_records origin all) \<longleftrightarrow>
     list_all (\<lambda>r. ends_with (rr_name r) origin) all \<and>
     (\<exists>s. filter (\<lambda>r. rr_rtype r = TYPE_SOA) all = [s] \<and> rr_name s = origin)) \<and>
   (\<forall>z. from_records origin all = Inr z \<longrightarrow>
     wf_zone z \<and> z_origin z = origin \<and> records_mset (z_records z) = mset all)"
  using from_records_succeeds_iff from_records_wf by blast

theorem from_records_spec_witness:
  "wf_zone sample_zone \<and> records_mset (z_records sample_zone) =
     mset [sample_soa, sample_rr 119 (RD_A 0x0A000001), sample_rr 99 (RD_Cname [[119], [101]])]"
  using from_records_spec [of "[[101]]" "[sample_soa, sample_rr 119 (RD_A 0x0A000001), sample_rr 99 (RD_Cname [[119], [101]])]"]
    sample_zone_from_records by blast

text \<open>
  Any sequence of successful record-set changes followed by a serial bump
  keeps a zone well formed under its origin: owners under the origin, no empty
  node, exactly one SOA which is the cached one, and a true record count.
\<close>
theorem edits_preserve_wf:
  assumes "wf_zone z" "list_all (change_ok (z_origin z)) changes"
  shows "wf_zone (bump_serial (fold commit_change changes z)) \<and>
    z_origin (bump_serial (fold commit_change changes z)) = z_origin z"
  using change.steps_wf [OF assms] bump_serial_wf by simp

theorem edits_preserve_wf_witness:
  "wf_zone (bump_serial (fold commit_change
      [Replace [[119], [101]] TYPE_A [sample_rr 119 (RD_A 0x0A000002)], Delete [[99], [101]] TYPE_CNAME] sample_zone))"
  using edits_preserve_wf [OF sample_zone_wf, of
      "[Replace [[119], [101]] TYPE_A [sample_rr 119 (RD_A 0x0A000002)], Delete [[99], [101]] TYPE_CNAME]"]
  by (simp add: rrset_ok_def sample_zone_def sample_defs)

text \<open>
  A successful replacement installs exactly the new record set at its name
  beside the records of other types there, touches no other node, and makes
  the cached SOA the new one when the SOA was replaced.
\<close>
theorem replace_records_effect:
  assumes "replace_records name code new z = (z', Inr ())"
  shows "node_or_default (z_records z') k =
      (if k = name then filter (\<lambda>r. rr_rtype r \<noteq> code) (node_or_default (z_records z) k) @ new
       else node_or_default (z_records z) k) \<and>
    z_soa z' = (if code = TYPE_SOA then new ! 0 else z_soa z) \<and> z_origin z' = z_origin z"
  using replace_records_success [OF assms] by simp

theorem replace_records_effect_witness:
  "\<exists>z'. replace_records [[119], [101]] TYPE_TXT [sample_rr 119 (RD_Txt [[1]])] sample_zone = (z', Inr ()) \<and>
     node_or_default (z_records z') [[119], [101]] =
       [sample_rr 119 (RD_A 0x0A000001), sample_rr 119 (RD_Txt [[1]])]"
proof -
  obtain z' where z': "replace_records [[119], [101]] TYPE_TXT [sample_rr 119 (RD_Txt [[1]])] sample_zone = (z', Inr ())"
    by (simp add: replace_records_def sample_zone_def sample_defs)
  show ?thesis
    using z' replace_records_effect [OF z', of "[[119], [101]]"] by (simp add: sample_zone_def sample_defs)
qed

text \<open>
  Serial bump: the cached SOA and the SOA in the apex node get the serial
  incremented modulo \<open>2 ^ 32\<close>, and nothing else changes.
\<close>
theorem bump_serial_effect:
  assumes "wf_zone z" "rr_rdata (z_soa z) = RD_Soa s"
  shows "let fresh = (z_soa z)\<lparr>rr_rdata := RD_Soa (s\<lparr>soa_serial := soa_serial s + 1\<rparr>)\<rparr> in
    z_soa (bump_serial z) = fresh \<and>
    filter (\<lambda>r. rr_rtype r = TYPE_SOA) (node_or_default (z_records (bump_serial z)) (z_origin z)) = [fresh] \<and>
    (k \<noteq> z_origin z \<longrightarrow> node_or_default (z_records (bump_serial z)) k = node_or_default (z_records z) k) \<and>
    filter (\<lambda>r. rr_rtype r \<noteq> TYPE_SOA) (node_or_default (z_records (bump_serial z)) k) =
      filter (\<lambda>r. rr_rtype r \<noteq> TYPE_SOA) (node_or_default (z_records z) k)"
proof -
  define fresh where "fresh = (z_soa z)\<lparr>rr_rdata := RD_Soa (s\<lparr>soa_serial := soa_serial s + 1\<rparr>)\<rparr>"
  note b = bump_serial_soa [OF assms(2), folded fresh_def]
  have fresh: "rr_rtype fresh = TYPE_SOA" by (simp add: fresh_def rr_rtype_def)
  then have "filter (\<lambda>r. rr_rtype r \<noteq> TYPE_SOA) (map (\<lambda>r. if rr_rtype r = TYPE_SOA then fresh else r) rrs) =
      filter (\<lambda>r. rr_rtype r \<noteq> TYPE_SOA) rrs" for rrs
    by (induction rrs) auto
  moreover have "filter (\<lambda>r. rr_rtype r = TYPE_SOA) (node_or_default (z_records (bump_serial z)) (z_origin z)) = [z_soa (bump_serial z)]"
    using bump_serial_wf(1) [OF assms(1)] b(2) by (simp add: wf_zone_def soas_at_def)
  ultimately show ?thesis
    unfolding fresh_def [symmetric] Let_def using b by auto
qed

theorem bump_serial_effect_witness:
  "\<exists>r. z_soa (bump_serial sample_zone) = r \<and>
    filter (\<lambda>r. rr_rtype r = TYPE_SOA) (node_or_default (z_records (bump_serial sample_zone)) [[101]]) = [r]"
proof -
  obtain s where s: "rr_rdata (z_soa sample_zone) = RD_Soa s" "z_origin sample_zone = [[101]]"
    by (simp add: sample_zone_def sample_soa_def)
  from bump_serial_effect [OF sample_zone_wf s(1)] s(2) show ?thesis
    by (simp add: Let_def)
qed

text \<open>
  The AXFR payload starts with the SOA and is, as a multiset, exactly the
  records of the zone.
\<close>
theorem all_records_complete:
  assumes "wf_zone z"
  shows "hd (all_records z) = z_soa z \<and> mset (all_records z) = records_mset (z_records z) \<and>
    length (all_records z) = z_record_count z"
  using all_records_mset [OF assms] assms size_mset [of "all_records z"]
  by (simp add: all_records_def wf_zone_def)

theorem all_records_complete_witness: "length (all_records sample_zone) = z_record_count sample_zone"
  using all_records_complete [OF sample_zone_wf] by simp

text \<open>
  C27: A dynamic update has a plain effect on the set of names, types and data a
  zone holds, after sections 3.2 and 3.4 of RFC 2136.  The first prerequisite that is outside the zone or not
  met stops it with its code, an owner outside the zone with NOTAUTH, and the
  zone is unchanged.  Otherwise the records are applied in turn: additions,
  deletions of a name, a type or a record, where the SOA and NS of the apex
  survive the deletion of the whole apex and the SOA that of its type.  The
  result is NOERROR when every class is known; the first unknown class ends
  the update with FORMERR and the effect of the records before it.  The nodes
  stay in order under the same origin.  (Lifetimes are not part of the set.  The
  code is more lenient than the RFC: a prerequisite of class IN is taken record
  by record, a CNAME may be added beside other data, an SOA beside the one there
  is, and single records of the apex may go, its SOA and NS too.)
\<close>
theorem apply_update_spec:
  assumes "nodes_ok (z_origin z) (z_records z)"
  shows "case find (\<lambda>p. \<not> (ends_with (rr_name p) (z_origin z) \<and> prereq_met (held (z_records z)) p)) prereqs of
      Some p \<Rightarrow> apply_update prereqs updates z = (z, prereq_code (z_origin z) p)
    | None \<Rightarrow>
        if \<not> list_all (\<lambda>u. ends_with (rr_name u) (z_origin z)) updates then apply_update prereqs updates z = (z, RCODE_NOTAUTH)
        else
          let good = takeWhile (\<lambda>u. rr_class u \<in> {CLASS_IN, CLASS_ANY, CLASS_NONE}) updates;
              (z', rc) = apply_update prereqs updates z
          in held (z_records z') = fold (set_update (z_origin z)) good (held (z_records z)) \<and>
             rc = (if good = updates then RCODE_NOERROR else RCODE_FORMERR) \<and>
             nodes_ok (z_origin z) (z_records z') \<and> z_origin z' = z_origin z"
proof -
  have ex: "list_ex (\<lambda>u. \<not> ends_with (rr_name u) (z_origin z)) updates \<longleftrightarrow>
      \<not> list_all (\<lambda>u. ends_with (rr_name u) (z_origin z)) updates"
    by (simp add: list_ex_iff list_all_iff)
  obtain z' rc where a: "apply_updates z updates = (z', rc)" by fastforce
  have "rc = (if takeWhile (\<lambda>u. rr_class u \<in> {CLASS_IN, CLASS_ANY, CLASS_NONE}) updates = updates then RCODE_NOERROR else RCODE_FORMERR)"
    using apply_updates_rcode [OF a] apply_updates_formerr [of z updates] a
    by (simp only: takeWhile_eq_all_conv list_all_iff snd_conv) auto
  note rc = this
  let ?bad = "find (\<lambda>p. \<not> (ends_with (rr_name p) (z_origin z) \<and> prereq_met (held (z_records z)) p)) prereqs"
  show ?thesis
  proof (cases ?bad)
    case None
    then have "apply_update prereqs updates z =
        (if \<not> list_all (\<lambda>u. ends_with (rr_name u) (z_origin z)) updates then (z, RCODE_NOTAUTH) else (z', rc))"
      using a unfolding apply_update_def check_prereqs_spec [OF assms] ex by (simp only: option.case option.map)
    then show ?thesis
      using apply_updates_held [OF assms _ a] apply_updates_nodes [OF assms _ a] rc
      by (cases "list_all (\<lambda>u. ends_with (rr_name u) (z_origin z)) updates")
         (simp_all only: None Let_def option.case prod.case if_True if_False not_True_eq_False not_False_eq_True)
  qed (simp add: apply_update_def check_prereqs_spec [OF assms])
qed

theorem apply_update_spec_witness:
  "held (z_records (fst (apply_update [] [sample_rr 120 (RD_A 1)] sample_zone))) =
    insert ([[120], [101]], TYPE_A, RD_A 1) (held (z_records sample_zone))"
proof -
  have "nodes_ok (z_origin sample_zone) (z_records sample_zone)" using sample_zone_wf by (simp add: wf_zone_def)
  note spec = apply_update_spec [OF this, where prereqs = "[]" and updates = "[sample_rr 120 (RD_A 1)]"]
  obtain z' rc where a: "apply_update [] [sample_rr 120 (RD_A 1)] sample_zone = (z', rc)" by fastforce
  have "ends_with [[120], [101]] (z_origin sample_zone)" by (simp add: sample_zone_def sample_defs)
  with spec a show ?thesis by (simp add: set_update_def sample_rr_def rr_rtype_def)
qed

text \<open>
  A prerequisite of class IN is met by any one record of the set: a
  set with a further record passes, although the set asked for is not the
  exact one.
\<close>
theorem prereq_subset_accepted:
  "let z = fst (apply_update [] [sample_rr 119 (RD_A 7)] sample_zone) in
   map_of (z_records z) [[119], [101]] = Some [sample_rr 119 (RD_A 0x0A000001), sample_rr 119 (RD_A 7)] \<and>
   check_prereqs z [sample_rr 119 (RD_A 7)] = None"
  by code_simp

text \<open>
  The SOA of the apex can be deleted as a single record, although it is
  protected from the deletion of its set.
\<close>
theorem apex_soa_deleted:
  "let (z', rc) = apply_update [] [sample_soa\<lparr>rr_class := CLASS_NONE\<rparr>] sample_zone in
   rc = RCODE_NOERROR \<and> map_of (z_records z') [[101]] = None"
  by code_simp

text \<open>
  A zone file may give the data of a CNAME in the generic form, and
  assembly accepts it; a lookup of another type at that name then reaches
  \<open>unreachable!()\<close>, so the server panics on the query.
\<close>
theorem generic_cname_panics:
  "\<exists>z. from_records [[101]] [sample_soa, sample_rr 120 (RD_Unknown TYPE_CNAME [0])] = Inr z \<and> wf_zone z \<and>
     lookup z [[120], [101]] TYPE_A = None"
proof -
  let ?z = "\<lparr>z_origin = [[101]], z_soa = sample_soa, z_record_count = 2, z_records =
     [([[101]], [sample_soa]), ([[120], [101]], [sample_rr 120 (RD_Unknown TYPE_CNAME [0])])]\<rparr>"
  have z: "from_records [[101]] [sample_soa, sample_rr 120 (RD_Unknown TYPE_CNAME [0])] = Inr ?z"
    by (simp add: from_records_def push_record_def sample_defs)
  moreover have "lookup_loop (Suc k) ?z [[120], [101]] TYPE_A [] = None" for k
    by (simp add: find_node_def type_matches_def sample_defs)
  from this [of 7] have "lookup ?z [[120], [101]] TYPE_A = None"
    by (simp add: lookup_def)
  ultimately show ?thesis using from_records_wf(1) by blast
qed

text \<open>
  A dynamic update that stops with FORMERR at a record of unknown class
  keeps the changes of the records before it: the zone passed in is not left
  untouched.
\<close>
theorem formerr_update_keeps_changes:
  "let u = sample_rr 120 (RD_A 1); bad = (sample_rr 121 (RD_A 1))\<lparr>rr_class := CLASS_CH\<rparr> in
   snd (apply_update [] [u, bad] sample_zone) = RCODE_FORMERR \<and>
   map_of (z_records sample_zone) [[120], [101]] = None \<and>
   map_of (z_records (fst (apply_update [] [u, bad] sample_zone))) [[120], [101]] = Some [u]"
  by code_simp

text \<open>
  Adding an SOA record by dynamic update does not replace the SOA of the
  zone: afterwards the apex holds two SOA records and the cached SOA is stale,
  so the zone is no longer well formed.
\<close>
theorem soa_update_breaks_wf:
  "let u = sample_soa\<lparr>rr_rdata := RD_Soa \<lparr>soa_mname = [], soa_rname = [], soa_serial = 9, soa_refresh = 0,
       soa_retry = 0, soa_expire = 0, soa_minimum = 0\<rparr>\<rparr>;
       z = fst (apply_update [] [u] sample_zone) in
   snd (apply_update [] [u] sample_zone) = RCODE_NOERROR \<and> z_soa z = sample_soa \<and>
   node_or_default (z_records z) [[101]] = [sample_soa, u] \<and> \<not> wf_zone z"
proof -
  define u where "u = sample_soa\<lparr>rr_rdata := RD_Soa \<lparr>soa_mname = [], soa_rname = [], soa_serial = 9, soa_refresh = 0,
       soa_retry = 0, soa_expire = 0, soa_minimum = 0\<rparr>\<rparr>"
  define z where "z = fst (apply_update [] [u] sample_zone)"
  have r: "snd (apply_update [] [u] sample_zone) = RCODE_NOERROR" "z_soa z = sample_soa"
    "z_origin z = [[101]]" "node_or_default (z_records z) [[101]] = [sample_soa, u]"
    by (simp_all add: z_def u_def apply_update_def update_one_def sample_zone_def sample_defs)
  have "filter (\<lambda>r. rr_rtype r = TYPE_SOA) [sample_soa, u] = [sample_soa, u]"
    by (simp add: u_def sample_defs)
  then have "\<not> soas_at [[101]] [sample_soa] (z_records z)"
    using r(4) by (metis soas_at_def list.inject not_Cons_self2)
  then show ?thesis
    unfolding u_def [symmetric] Let_def z_def [symmetric] using r by (simp add: wf_zone_def)
qed

end
