(* ===== verification/Dns_Cache.thy ===== *)
theory Dns_Cache
  imports Dns_Record
begin

text \<open>
  The response cache (\<open>dns-cache/src/lib.rs\<close>).  Time is the monotonic clock in
  nanoseconds, read once per operation and passed in.  The hash map is an
  association list with distinct keys, its order being the unspecified
  iteration order that the eviction of arbitrary victims uses.
\<close>

section \<open>Data\<close>

abbreviation (input) MAX_POSITIVE_TTL :: u32 where "MAX_POSITIVE_TTL \<equiv> 86400"
abbreviation (input) MAX_NEGATIVE_TTL :: u32 where "MAX_NEGATIVE_TTL \<equiv> 3600"
abbreviation (input) DEFAULT_NEGATIVE_TTL :: u32 where "DEFAULT_NEGATIVE_TTL \<equiv> 60"
abbreviation (input) STALE_TTL :: u32 where "STALE_TTL \<equiv> 30"

definition secs :: "nat \<Rightarrow> nat" where
  "secs n = n * 1000000000"

definition STALE_WINDOW :: nat where
  "STALE_WINDOW = secs (24 * 3600)"

record cache_key =
  ck_qname :: dns_name
  ck_qtype :: u16

record cache_entry =
  ce_rcode :: byte
  ce_answers :: "rr list"
  ce_authorities :: "rr list"
  ce_secure :: bool
  ce_stored :: nat
  ce_expires :: nat

record hit =
  hit_rcode :: byte
  hit_answers :: "rr list"
  hit_authorities :: "rr list"
  hit_secure :: bool

record cache =
  ca_inner :: "(cache_key \<times> cache_entry) list"
  ca_max_entries :: nat

section \<open>Operations\<close>

definition cache_new :: "nat \<Rightarrow> cache" where
  "cache_new max_entries = \<lparr>ca_inner = [], ca_max_entries = max max_entries 1\<rparr>"

definition saturating_sub :: "u32 \<Rightarrow> u32 \<Rightarrow> u32" where
  "saturating_sub a b = (if b \<le> a then a - b else 0)"

definition age_record :: "u32 \<Rightarrow> rr \<Rightarrow> rr" where
  "age_record elapsed r = r\<lparr>rr_ttl := max (saturating_sub (rr_ttl r) elapsed) 1\<rparr>"

definition cache_get :: "cache \<Rightarrow> cache_key \<Rightarrow> nat \<Rightarrow> cache \<times> hit option" where
  "cache_get c key now =
     (case map_of (ca_inner c) key of
        None \<Rightarrow> (c, None)
      | Some e \<Rightarrow>
          if ce_expires e > now then
            let elapsed = word_of_nat ((now - ce_stored e) div 1000000000) :: u32 in
            (c, Some \<lparr>hit_rcode = ce_rcode e,
                      hit_answers = map (age_record elapsed) (ce_answers e),
                      hit_authorities = map (age_record elapsed) (ce_authorities e),
                      hit_secure = ce_secure e\<rparr>)
          else if now > ce_expires e + STALE_WINDOW then
            (c\<lparr>ca_inner := AList.delete key (ca_inner c)\<rparr>, None)
          else (c, None))"

definition stale_record :: "rr \<Rightarrow> rr" where
  "stale_record r = r\<lparr>rr_ttl := STALE_TTL\<rparr>"

definition cache_get_stale :: "cache \<Rightarrow> cache_key \<Rightarrow> nat \<Rightarrow> hit option" where
  "cache_get_stale c key now =
     (case map_of (ca_inner c) key of
        None \<Rightarrow> None
      | Some e \<Rightarrow>
          if now \<le> ce_expires e \<or> now > ce_expires e + STALE_WINDOW then None
          else Some \<lparr>hit_rcode = ce_rcode e,
                     hit_answers = map stale_record (ce_answers e),
                     hit_authorities = map stale_record (ce_authorities e),
                     hit_secure = ce_secure e\<rparr>)"

fun soa_ttl :: "rr list \<Rightarrow> u32 option" where
  "soa_ttl [] = None"
| "soa_ttl (r # rs) = (case rr_rdata r of RD_Soa s \<Rightarrow> Some (min (soa_minimum s) (rr_ttl r)) | _ \<Rightarrow> soa_ttl rs)"

fun min_ttl :: "rr list \<Rightarrow> u32 option" where
  "min_ttl [] = None"
| "min_ttl (r # rs) = (case min_ttl rs of None \<Rightarrow> Some (rr_ttl r) | Some t \<Rightarrow> Some (min (rr_ttl r) t))"

definition response_ttl :: "rr list \<Rightarrow> rr list \<Rightarrow> u32" where
  "response_ttl answers authorities =
     (if answers = [] then
        min (case soa_ttl authorities of Some t \<Rightarrow> t | None \<Rightarrow> DEFAULT_NEGATIVE_TTL) MAX_NEGATIVE_TTL
      else min (case min_ttl answers of Some t \<Rightarrow> t | None \<Rightarrow> 0) MAX_POSITIVE_TTL)"

definition make_room :: "cache \<Rightarrow> cache_key \<Rightarrow> nat \<Rightarrow> (cache_key \<times> cache_entry) list" where
  "make_room c key now =
     (let inner = ca_inner c in
      if length inner \<ge> ca_max_entries c \<and> map_of inner key = None then
        let kept = filter (\<lambda>kv. now \<le> ce_expires (snd kv) + STALE_WINDOW) inner in
        if length kept \<ge> ca_max_entries c then
          let victims = take (ca_max_entries c div 10 + 1) (map fst kept) in
          fold AList.delete victims kept
        else kept
      else inner)"

definition cache_insert ::
  "cache \<Rightarrow> cache_key \<Rightarrow> byte \<Rightarrow> rr list \<Rightarrow> rr list \<Rightarrow> bool \<Rightarrow> nat \<Rightarrow> cache" where
  "cache_insert c key rcode answers authorities secure now =
     (if rcode \<noteq> RCODE_NOERROR \<and> rcode \<noteq> RCODE_NXDOMAIN then c
      else
        let ttl = response_ttl answers authorities in
        if ttl = 0 then c
        else
          let entry = \<lparr>ce_rcode = rcode, ce_answers = answers, ce_authorities = authorities,
                       ce_secure = secure, ce_stored = now, ce_expires = now + secs (unat ttl)\<rparr> in
          c\<lparr>ca_inner := AList.update key entry (make_room c key now)\<rparr>)"

definition cache_len :: "cache \<Rightarrow> nat" where
  "cache_len c = length (ca_inner c)"

section \<open>Time to live\<close>

lemma min_ttl_None [simp]: "min_ttl rs = None \<longleftrightarrow> rs = []"
  by (induction rs) (auto split: option.splits)

lemma min_ttl_le: "min_ttl rs = Some t \<Longrightarrow> r \<in> set rs \<Longrightarrow> t \<le> rr_ttl r"
  by (induction rs arbitrary: t) (auto split: option.splits simp: min_le_iff_disj)

lemma response_ttl_bounds:
  "answers \<noteq> [] \<Longrightarrow> response_ttl answers authorities \<le> MAX_POSITIVE_TTL"
  "answers = [] \<Longrightarrow> response_ttl answers authorities \<le> MAX_NEGATIVE_TTL"
  "r \<in> set answers \<Longrightarrow> response_ttl answers authorities \<le> rr_ttl r"
  "answers = [] \<Longrightarrow> soa_ttl authorities = Some t \<Longrightarrow> response_ttl answers authorities \<le> t"
  by (auto simp: response_ttl_def min_le_iff_disj min_ttl_le split: option.splits)

lemma age_record_ttl:
  "unat (rr_ttl (age_record elapsed r)) = max (unat (rr_ttl r) - unat elapsed) 1"
  by (auto simp: age_record_def saturating_sub_def max_def word_le_nat_alt unat_sub)

section \<open>The map under a capacity\<close>

definition cache_ok :: "cache \<Rightarrow> bool" where
  "cache_ok c \<longleftrightarrow> 1 \<le> ca_max_entries c \<and> distinct (map fst (ca_inner c)) \<and>
     length (ca_inner c) \<le> ca_max_entries c"

lemma distinct_fold_delete: "distinct (map fst al) \<Longrightarrow> distinct (map fst (fold AList.delete ks al))"
  by (induction ks arbitrary: al) (simp_all add: distinct_delete)

lemma map_of_fold_delete:
  "map_of (fold AList.delete ks al) j = (if j \<in> set ks then None else map_of al j)"
  by (induction ks arbitrary: al) (auto simp: delete_conv')

lemma length_delete_member:
  "distinct (map fst al) \<Longrightarrow> k \<in> fst ` set al \<Longrightarrow> Suc (length (AList.delete k al)) = length al"
proof (induction al)
  case (Cons kv al)
  then show ?case
  proof (cases "fst kv = k")
    case True
    then have "k \<notin> fst ` set al" using Cons.prems by auto
    then show ?thesis using True by (cases kv) simp
  next
    case False
    then show ?thesis using Cons by (cases kv) auto
  qed
qed simp

lemma length_fold_delete:
  "distinct (map fst al) \<Longrightarrow> distinct ks \<Longrightarrow> set ks \<subseteq> fst ` set al \<Longrightarrow>
     length (fold AList.delete ks al) + length ks = length al"
proof (induction ks arbitrary: al)
  case (Cons k ks)
  have "length (fold AList.delete ks (AList.delete k al)) + length ks = length (AList.delete k al)"
  proof (rule Cons.IH)
    show "distinct (map fst (AList.delete k al))" using Cons.prems(1) by (rule distinct_delete)
    have "fst ` set (AList.delete k al) = fst ` set al - {k}"
      by (simp add: AList.delete_eq image_iff set_eq_iff) force
    then show "set ks \<subseteq> fst ` set (AList.delete k al)" using Cons.prems(2,3) by auto
  qed (use Cons.prems(2) in simp)
  then show ?case
    using length_delete_member [OF Cons.prems(1), of k] Cons.prems(3) by simp
qed simp

lemma make_room_props:
  assumes "cache_ok c"
  shows "distinct (map fst (make_room c key now))"
    and "map_of (make_room c key now) j = None \<or> map_of (make_room c key now) j = map_of (ca_inner c) j"
    and "map_of (ca_inner c) key \<noteq> None \<or> length (make_room c key now) < ca_max_entries c"
    and "length (make_room c key now) \<le> ca_max_entries c"
proof -
  let ?kept = "filter (\<lambda>kv. now \<le> ce_expires (snd kv) + STALE_WINDOW) (ca_inner c)"
  let ?victims = "take (ca_max_entries c div 10 + 1) (map fst ?kept)"
  have d: "distinct (map fst ?kept)"
    using assms by (auto simp: cache_ok_def distinct_map intro: inj_on_subset)
  have kept: "map_of ?kept j = None \<or> map_of ?kept j = map_of (ca_inner c) j"
    using assms d by (cases "map_of ?kept j") (auto simp: cache_ok_def dest: map_of_SomeD)
  have dv: "distinct ?victims" using d by (rule distinct_take)
  have sub: "set ?victims \<subseteq> fst ` set ?kept"
    using set_take_subset [of "ca_max_entries c div 10 + 1" "map fst ?kept"] by (metis list.set_map)
  have len: "length (fold AList.delete ?victims ?kept) + length ?victims = length ?kept"
    by (rule length_fold_delete [OF d dv sub])
  have le: "length ?kept \<le> length (ca_inner c)" by simp
  have small: "ca_max_entries c \<le> length ?kept \<Longrightarrow> length (fold AList.delete ?victims ?kept) < ca_max_entries c"
  proof -
    assume full: "ca_max_entries c \<le> length ?kept"
    then have "1 \<le> length ?victims" using assms by (cases ?kept) (auto simp: cache_ok_def)
    moreover have "length ?kept \<le> ca_max_entries c" using le assms unfolding cache_ok_def by (meson le_trans)
    ultimately show ?thesis using len by linarith
  qed
  note defs = make_room_def Let_def
  show "distinct (map fst (make_room c key now))"
    using assms d by (auto simp: defs cache_ok_def intro: distinct_fold_delete)
  show "map_of (make_room c key now) j = None \<or> map_of (make_room c key now) j = map_of (ca_inner c) j"
    using kept by (auto simp: defs map_of_fold_delete)
  show "map_of (ca_inner c) key \<noteq> None \<or> length (make_room c key now) < ca_max_entries c"
    using small by (auto simp: defs)
  show "length (make_room c key now) \<le> ca_max_entries c"
    using assms small by (auto simp: defs cache_ok_def less_imp_le)
qed

lemma cache_insert_ok:
  assumes "cache_ok c"
  shows "cache_ok (cache_insert c key rcode answers authorities secure now)"
proof -
  note m = make_room_props [OF assms, of key now]
  have "map_of (make_room c key now) key = None \<Longrightarrow> length (make_room c key now) < ca_max_entries c"
    using m(3) assms by (auto simp: make_room_def)
  then have "cache_ok (c\<lparr>ca_inner := AList.update key e (make_room c key now)\<rparr>)" for e
    using assms m(1,4) by (auto simp: cache_ok_def distinct_update length_update)
  then show ?thesis using assms by (simp add: cache_insert_def Let_def)
qed

lemma cache_get_ok: "cache_ok c \<Longrightarrow> cache_ok (fst (cache_get c key now))"
  using length_delete_le [of key "ca_inner c"]
  by (auto simp: cache_get_def cache_ok_def distinct_delete Let_def split: option.splits)

section \<open>A cache forgets, but never invents\<close>

text \<open>
  The contract towards the resolver: a store may drop any entry at any time,
  except the one just stored, and an entry that is present is the one stored
  last under its key.
\<close>

locale lossy_store =
  fixes entry :: "'s \<Rightarrow> 'k \<Rightarrow> 'e option"
    and store :: "'s \<Rightarrow> 'k \<Rightarrow> 'e \<Rightarrow> 's"
    and touch :: "'s \<Rightarrow> 't \<Rightarrow> 's"
    and inv :: "'s \<Rightarrow> bool"
  assumes inv_store: "inv s \<Longrightarrow> inv (store s k e)"
    and inv_touch: "inv s \<Longrightarrow> inv (touch s t)"
    and entry_store_same: "inv s \<Longrightarrow> entry (store s k e) k = Some e"
    and entry_store_other: "inv s \<Longrightarrow> j \<noteq> k \<Longrightarrow> entry (store s k e) j = None \<or> entry (store s k e) j = entry s j"
    and entry_touch: "inv s \<Longrightarrow> entry (touch s t) j = None \<or> entry (touch s t) j = entry s j"
begin

text \<open>A history is a list of stores (left) and other operations (right).\<close>

definition run :: "('k \<times> 'e + 't) list \<Rightarrow> 's \<Rightarrow> 's" where
  "run ops s = fold (\<lambda>op s. case op of Inl (k, e) \<Rightarrow> store s k e | Inr t \<Rightarrow> touch s t) ops s"

definition latest :: "('k \<times> 'e + 't) list \<Rightarrow> ('k \<Rightarrow> 'e option) \<Rightarrow> 'k \<Rightarrow> 'e option" where
  "latest ops m = fold (\<lambda>op m. case op of Inl (k, e) \<Rightarrow> m(k \<mapsto> e) | Inr t \<Rightarrow> m) ops m"

lemma run_simps [simp]:
  "run [] s = s" "run (Inl (k, e) # ops) s = run ops (store s k e)" "run (Inr t # ops) s = run ops (touch s t)"
  by (simp_all add: run_def)

lemma latest_simps [simp]:
  "latest [] m = m" "latest (Inl (k, e) # ops) m = latest ops (m(k \<mapsto> e))" "latest (Inr t # ops) m = latest ops m"
  by (simp_all add: latest_def)

lemma run_inv: "inv s \<Longrightarrow> inv (run ops s)"
  by (induction ops arbitrary: s) (auto simp: run_def inv_store inv_touch split: sum.splits)

lemma run_latest:
  assumes "inv s" "\<And>j e. entry s j = Some e \<Longrightarrow> m j = Some e" "entry (run ops s) j = Some e"
  shows "latest ops m j = Some e"
  using assms
proof (induction ops arbitrary: s m)
  case (Cons op ops)
  show ?case
  proof (cases op)
    case (Inl ke)
    obtain k e' where ke: "ke = (k, e')" by fastforce
    have st: "entry (store s k e') i = Some x \<Longrightarrow> (m(k \<mapsto> e')) i = Some x" for i x
      using entry_store_same [OF Cons.prems(1), of k e'] entry_store_other [OF Cons.prems(1), of i k e']
        Cons.prems(2) [of i x] by (cases "i = k") auto
    from Cons.IH [of "store s k e'" "m(k \<mapsto> e')", OF inv_store [OF Cons.prems(1)] st] Cons.prems(3) Inl ke
    show ?thesis by (simp add: fun_upd_def)
  next
    case (Inr t)
    have tc: "entry (touch s t) i = Some x \<Longrightarrow> m i = Some x" for i x
      using entry_touch [OF Cons.prems(1), of t i] Cons.prems(2) [of i x] by auto
    from Cons.IH [of "touch s t" m, OF inv_touch [OF Cons.prems(1)] tc] Cons.prems(3) Inr show ?thesis by simp
  qed
qed simp

end

text \<open>The cacheable insertions and the lookups of the cache fit the contract.\<close>

definition put_entry :: "cache \<Rightarrow> cache_key \<Rightarrow> cache_entry \<Rightarrow> cache" where
  "put_entry c key e = c\<lparr>ca_inner := AList.update key e (make_room c key (ce_stored e))\<rparr>"

lemma put_entry_ok: "cache_ok c \<Longrightarrow> cache_ok (put_entry c key e)"
proof -
  assume c: "cache_ok c"
  note m = make_room_props [OF c, of key "ce_stored e"]
  have "map_of (make_room c key (ce_stored e)) key = None \<Longrightarrow> length (make_room c key (ce_stored e)) < ca_max_entries c"
    using m(3) c by (auto simp: make_room_def)
  then show ?thesis using c m(1,4) by (auto simp: put_entry_def cache_ok_def distinct_update length_update)
qed

interpretation cache_store: lossy_store "\<lambda>c. map_of (ca_inner c)" put_entry "\<lambda>c kt. fst (cache_get c (fst kt) (snd kt))" cache_ok
proof unfold_locales
  fix c k e j
  assume c: "cache_ok c"
  show "cache_ok (put_entry c k e)" using c by (rule put_entry_ok)
  show "map_of (ca_inner (put_entry c k e)) k = Some e"
    by (simp add: put_entry_def update_conv')
  assume "j \<noteq> k"
  then show "map_of (ca_inner (put_entry c k e)) j = None \<or>
      map_of (ca_inner (put_entry c k e)) j = map_of (ca_inner c) j"
    using make_room_props(2) [OF c, of k "ce_stored e" j] by (simp add: put_entry_def update_conv')
next
  fix c :: cache and kt j
  assume c: "cache_ok c"
  show "cache_ok (fst (cache_get c (fst kt) (snd kt)))" using c by (rule cache_get_ok)
  show "map_of (ca_inner (fst (cache_get c (fst kt) (snd kt)))) j = None \<or>
      map_of (ca_inner (fst (cache_get c (fst kt) (snd kt)))) j = map_of (ca_inner c) j"
    by (auto simp: cache_get_def Let_def delete_conv' split: option.splits)
qed

text \<open>What one insertion stores.\<close>

definition new_entry :: "byte \<Rightarrow> rr list \<Rightarrow> rr list \<Rightarrow> bool \<Rightarrow> nat \<Rightarrow> cache_entry" where
  "new_entry rcode answers authorities secure now =
     \<lparr>ce_rcode = rcode, ce_answers = answers, ce_authorities = authorities, ce_secure = secure, ce_stored = now,
      ce_expires = now + secs (unat (response_ttl answers authorities))\<rparr>"

definition cacheable :: "byte \<Rightarrow> rr list \<Rightarrow> rr list \<Rightarrow> bool" where
  "cacheable rcode answers authorities \<longleftrightarrow>
     (rcode = RCODE_NOERROR \<or> rcode = RCODE_NXDOMAIN) \<and> response_ttl answers authorities \<noteq> 0"

lemma cache_insert_eq:
  "cache_insert c key rcode answers authorities secure now =
     (if cacheable rcode answers authorities then put_entry c key (new_entry rcode answers authorities secure now) else c)"
  by (auto simp: cache_insert_def cacheable_def put_entry_def new_entry_def Let_def)

text \<open>Histories of the cache and the entries they should remember.\<close>

datatype cache_op =
    Op_Get cache_key nat
  | Op_Insert cache_key byte "rr list" "rr list" bool nat

fun cache_step :: "cache_op \<Rightarrow> cache \<Rightarrow> cache" where
  "cache_step (Op_Get key now) c = fst (cache_get c key now)"
| "cache_step (Op_Insert key rcode answers authorities secure now) c =
     cache_insert c key rcode answers authorities secure now"

fun remember :: "cache_op \<Rightarrow> (cache_key \<Rightarrow> cache_entry option) \<Rightarrow> cache_key \<Rightarrow> cache_entry option" where
  "remember (Op_Get key now) m = m"
| "remember (Op_Insert key rcode answers authorities secure now) m =
     (if cacheable rcode answers authorities then m(key \<mapsto> new_entry rcode answers authorities secure now) else m)"

fun op_trace :: "cache_op \<Rightarrow> (cache_key \<times> cache_entry + cache_key \<times> nat) list" where
  "op_trace (Op_Get key now) = [Inr (key, now)]"
| "op_trace (Op_Insert key rcode answers authorities secure now) =
     (if cacheable rcode answers authorities then [Inl (key, new_entry rcode answers authorities secure now)] else [])"

lemma cache_steps_run: "fold cache_step ops c = cache_store.run (concat (map op_trace ops)) c"
proof (induction ops arbitrary: c)
  case (Cons op ops)
  then show ?case by (cases op) (simp_all add: cache_insert_eq)
qed simp

lemma remember_latest: "fold remember ops m = cache_store.latest (concat (map op_trace ops)) m"
proof (induction ops arbitrary: m)
  case (Cons op ops)
  then show ?case by (cases op) (simp_all add: fun_upd_def)
qed simp

section \<open>Properties\<close>

lemma cache_new_ok [simp]: "cache_ok (cache_new n)"
  by (simp add: cache_new_def cache_ok_def)

text \<open>
  C25: After any history of lookups and insertions on a new cache, the number
  of entries is at most the configured maximum (at least 1), and every entry
  present is exactly the latest cacheable response stored under its key.
\<close>
theorem cache_history:
  "cache_len (fold cache_step ops (cache_new n)) \<le> max n 1 \<and>
   (map_of (ca_inner (fold cache_step ops (cache_new n))) key = Some e \<longrightarrow>
      fold remember ops (\<lambda>_. None) key = Some e)"
proof -
  have "ca_max_entries (cache_step op c) = ca_max_entries c" for op c
    by (cases op) (auto simp: cache_get_def cache_insert_def Let_def split: option.splits)
  then have "ca_max_entries (fold cache_step ops c) = ca_max_entries c" for c
    by (induction ops arbitrary: c) simp_all
  then have max: "ca_max_entries (fold cache_step ops (cache_new n)) = max n 1"
    by (simp add: cache_new_def)
  have "cache_ok (fold cache_step ops (cache_new n))"
    unfolding cache_steps_run by (rule cache_store.run_inv) simp
  then have "cache_len (fold cache_step ops (cache_new n)) \<le> max n 1"
    by (simp add: cache_len_def cache_ok_def max)
  moreover have "fold remember ops (\<lambda>_. None) key = Some e"
    if "map_of (ca_inner (fold cache_step ops (cache_new n))) key = Some e"
    unfolding remember_latest
    by (rule cache_store.run_latest [of "cache_new n"])
       (use that in \<open>simp_all add: cache_steps_run\<close>, simp add: cache_new_def)
  ultimately show ?thesis by blast
qed

definition sample_key :: cache_key where
  "sample_key = \<lparr>ck_qname = [[119]], ck_qtype = TYPE_A\<rparr>"

definition sample_answer :: rr where
  "sample_answer = \<lparr>rr_name = [[119]], rr_class = CLASS_IN, rr_ttl = 300, rr_rdata = RD_A 1\<rparr>"

theorem cache_history_witness:
  "fold remember [Op_Insert sample_key 0 [sample_answer] [] True 5] (\<lambda>_. None) sample_key =
     Some (new_entry 0 [sample_answer] [] True 5)"
  using cache_history [of "[Op_Insert sample_key 0 [sample_answer] [] True 5]" 3 sample_key
      "new_entry 0 [sample_answer] [] True 5"]
  by (simp add: cache_insert_eq cacheable_def put_entry_def update_conv' response_ttl_def sample_answer_def)

text \<open>
  A response just stored is served until its lifetime has passed, with
  every TTL reduced by the whole seconds spent in the cache but at least 1 and
  never above its original value (if not 0); after its lifetime it is not
  served fresh, and served stale with TTL 30 for 24 hours only.
\<close>
theorem cache_get_after_insert:
  fixes key :: cache_key and secure :: bool
  assumes "cache_ok c" "cacheable rcode answers authorities" "now \<le> t"
  defines "c' \<equiv> cache_insert c key rcode answers authorities secure now"
    and "ttl \<equiv> unat (response_ttl answers authorities)"
  shows "snd (cache_get c' key t) =
      (if t < now + secs ttl then
         Some \<lparr>hit_rcode = rcode,
               hit_answers = map (age_record (word_of_nat ((t - now) div 1000000000))) answers,
               hit_authorities = map (age_record (word_of_nat ((t - now) div 1000000000))) authorities,
               hit_secure = secure\<rparr>
       else None) \<and>
    cache_get_stale c' key t =
      (if now + secs ttl < t \<and> t \<le> now + secs ttl + STALE_WINDOW then
         Some \<lparr>hit_rcode = rcode, hit_answers = map stale_record answers,
               hit_authorities = map stale_record authorities, hit_secure = secure\<rparr>
       else None)"
proof -
  have e: "map_of (ca_inner c') key = Some (new_entry rcode answers authorities secure now)"
    using assms(1,2) by (simp add: c'_def cache_insert_eq cache_store.entry_store_same)
  show ?thesis
    by (auto simp: cache_get_def cache_get_stale_def e new_entry_def ttl_def Let_def)
qed

theorem cache_get_after_insert_witness:
  "snd (cache_get (cache_insert (cache_new 10) sample_key 0 [sample_answer] [] True 0) sample_key (secs 100)) =
     Some \<lparr>hit_rcode = 0, hit_answers = [age_record 100 sample_answer], hit_authorities = [], hit_secure = True\<rparr>"
proof -
  have "cacheable 0 [sample_answer] []" "unat (response_ttl [sample_answer] []) = 300"
    by (simp_all add: cacheable_def response_ttl_def sample_answer_def)
  from cache_get_after_insert [OF cache_new_ok this(1), of 0 "secs 100" 10 sample_key True] this(2)
  show ?thesis by (simp add: secs_def)
qed

text \<open>
  Lifetimes are bounded: a positive response lives at most the smallest
  answer TTL and at most a day; a negative one at most the SOA minimum and SOA
  TTL and at most an hour.  An aged TTL is the original one minus the elapsed
  seconds, and at least 1.
\<close>
theorem cache_ttl_bounds:
  "(r \<in> set answers \<longrightarrow> response_ttl answers authorities \<le> rr_ttl r \<and>
      response_ttl answers authorities \<le> MAX_POSITIVE_TTL) \<and>
   (answers = [] \<longrightarrow> response_ttl answers authorities \<le> MAX_NEGATIVE_TTL) \<and>
   (answers = [] \<and> soa_ttl authorities = Some t \<longrightarrow> response_ttl answers authorities \<le> t) \<and>
   unat (rr_ttl (age_record elapsed r)) = max (unat (rr_ttl r) - unat elapsed) 1"
proof -
  have "r \<in> set answers \<Longrightarrow> answers \<noteq> []" by auto
  then show ?thesis
    by (auto simp: response_ttl_bounds age_record_ttl)
qed

theorem cache_ttl_bounds_witness: "response_ttl [sample_answer] [] \<le> rr_ttl sample_answer"
  using cache_ttl_bounds [of sample_answer "[sample_answer]" "[]" 0 0] by simp

end
