(* ===== verification/Guard.thy ===== *)
theory Guard
  imports Dns_Record Complex_Main
begin

text \<open>
  Access control (\<open>dns-guard\<close>): CIDR membership and the allowlist, the
  per-client token bucket, and DNS cookies.  The f64 arithmetic of the bucket
  is exact arithmetic followed by a rounding function, an argument of the
  model; the keyed hash of the cookies (SipHash, a third-party crate) is an
  argument too.
\<close>

section \<open>Networks\<close>

datatype ip_addr = V4 ipv4 | V6 ipv6

record cidr =
  ci_net :: ip_addr
  ci_prefix :: byte

definition prefix_mask_u32 :: "byte \<Rightarrow> u32" where
  "prefix_mask_u32 p = (if p = 0 then 0 else push_bit (32 - unat p) (- 1))"

definition prefix_mask_u128 :: "byte \<Rightarrow> u128" where
  "prefix_mask_u128 p = (if p = 0 then 0 else push_bit (128 - unat p) (- 1))"

fun cidr_contains :: "cidr \<Rightarrow> ip_addr \<Rightarrow> bool" where
  "cidr_contains c ip =
     (case (ci_net c, ip) of
        (V4 net, V4 a) \<Rightarrow> net AND prefix_mask_u32 (ci_prefix c) = a AND prefix_mask_u32 (ci_prefix c)
      | (V6 net, V6 a) \<Rightarrow> net AND prefix_mask_u128 (ci_prefix c) = a AND prefix_mask_u128 (ci_prefix c)
      | _ \<Rightarrow> False)"

type_synonym acl = "cidr list"

definition is_allowed :: "acl \<Rightarrow> ip_addr \<Rightarrow> bool" where
  "is_allowed nets ip = list_ex (\<lambda>n. cidr_contains n ip) nets"

text \<open>The prefix length that \<open>FromStr\<close> admits.\<close>

definition cidr_ok :: "cidr \<Rightarrow> bool" where
  "cidr_ok c \<longleftrightarrow> unat (ci_prefix c) \<le> (case ci_net c of V4 _ \<Rightarrow> 32 | V6 _ \<Rightarrow> 128)"

lemma and_high_mask_eq_iff:
  fixes a b :: "'a::len word"
  assumes "k \<le> LENGTH('a)"
  shows "a AND push_bit k (- 1) = b AND push_bit k (- 1) \<longleftrightarrow> drop_bit k a = drop_bit k b"
proof
  assume eq: "a AND push_bit k (- 1) = b AND push_bit k (- 1)"
  show "drop_bit k a = drop_bit k b"
  proof (rule bit_word_eqI)
    fix n assume "n < LENGTH('a)"
    from eq have "bit (a AND push_bit k (- 1)) (k + n) = bit (b AND push_bit k (- 1)) (k + n)" by simp
    then show "bit (drop_bit k a) n = bit (drop_bit k b) n"
      by (auto simp: bit_simps dest: bit_imp_le_length)
  qed
next
  assume eq: "drop_bit k a = drop_bit k b"
  show "a AND push_bit k (- 1) = b AND push_bit k (- 1)"
  proof (rule bit_word_eqI)
    fix n assume "n < LENGTH('a)"
    show "bit (a AND push_bit k (- 1)) n = bit (b AND push_bit k (- 1)) n"
    proof (cases "k \<le> n")
      case True
      from eq have "bit (drop_bit k a) (n - k) = bit (drop_bit k b) (n - k)" by simp
      then show ?thesis using True by (auto simp: bit_simps)
    qed (auto simp: bit_simps)
  qed
qed

lemma drop_bit_full: "drop_bit LENGTH('a) (a :: 'a::len word) = 0"
  by (rule bit_word_eqI) (auto simp: bit_simps dest: bit_imp_le_length)

lemma mask_u32_iff: "unat p \<le> 32 \<Longrightarrow>
  a AND prefix_mask_u32 p = b AND prefix_mask_u32 p \<longleftrightarrow> drop_bit (32 - unat p) a = drop_bit (32 - unat p) b"
  using and_high_mask_eq_iff [of "32 - unat p" a b] drop_bit_full [of a] drop_bit_full [of b]
  by (auto simp: prefix_mask_u32_def)

lemma mask_u128_iff: "unat p \<le> 128 \<Longrightarrow>
  a AND prefix_mask_u128 p = b AND prefix_mask_u128 p \<longleftrightarrow> drop_bit (128 - unat p) a = drop_bit (128 - unat p) b"
  using and_high_mask_eq_iff [of "128 - unat p" a b] drop_bit_full [of a] drop_bit_full [of b]
  by (auto simp: prefix_mask_u128_def)

section \<open>Rate limiting\<close>

record bucket =
  bk_tokens :: real
  bk_last :: nat

record rate_limiter =
  rl_qps :: real
  rl_burst :: real
  rl_buckets :: "(ip_addr \<times> bucket) list"

abbreviation (input) CLEANUP_THRESHOLD :: nat where "CLEANUP_THRESHOLD \<equiv> 65536"

definition limiter_new :: "u32 \<Rightarrow> u32 \<Rightarrow> rate_limiter" where
  "limiter_new qps burst =
     \<lparr>rl_qps = real (unat qps), rl_burst = real (unat (max burst qps)), rl_buckets = []\<rparr>"

text \<open>
  \<open>allow\<close> at clock \<open>now\<close> (nanoseconds); \<open>rnd\<close> is the rounding of f64 results.
\<close>

definition allow :: "(real \<Rightarrow> real) \<Rightarrow> rate_limiter \<Rightarrow> ip_addr \<Rightarrow> nat \<Rightarrow> rate_limiter \<times> bool" where
  "allow rnd rl ip now =
     (let buckets0 = (if length (rl_buckets rl) > CLEANUP_THRESHOLD
            then filter (\<lambda>kv. (now - bk_last (snd kv)) div 1000000000 < 60) (rl_buckets rl)
            else rl_buckets rl);
          bucket = (case map_of buckets0 ip of
             Some b \<Rightarrow> b | None \<Rightarrow> \<lparr>bk_tokens = rl_burst rl, bk_last = now\<rparr>);
          dt = rnd (real (now - bk_last bucket) / 1000000000);
          tokens = min (rnd (bk_tokens bucket + rnd (dt * rl_qps rl))) (rl_burst rl)
      in if tokens \<ge> 1 then
           (rl\<lparr>rl_buckets := AList.update ip \<lparr>bk_tokens = rnd (tokens - 1), bk_last = now\<rparr> buckets0\<rparr>, True)
         else
           (rl\<lparr>rl_buckets := AList.update ip \<lparr>bk_tokens = tokens, bk_last = now\<rparr> buckets0\<rparr>, False))"

text \<open>What IEEE 754 guarantees of rounding: monotone, exact on small integers.\<close>

definition f64_rounding :: "(real \<Rightarrow> real) \<Rightarrow> bool" where
  "f64_rounding rnd \<longleftrightarrow> mono rnd \<and> (\<forall>n. n \<le> 2 ^ 53 \<longrightarrow> rnd (real n) = real n)"

definition limiter_ok :: "rate_limiter \<Rightarrow> bool" where
  "limiter_ok rl \<longleftrightarrow> 0 \<le> rl_qps rl \<and> (\<exists>n \<le> 2 ^ 53. rl_burst rl = real n) \<and>
     (\<forall>ip b. map_of (rl_buckets rl) ip = Some b \<longrightarrow> 0 \<le> bk_tokens b \<and> bk_tokens b \<le> rl_burst rl) \<and>
     distinct (map fst (rl_buckets rl))"

lemma rounding_nonneg: "f64_rounding rnd \<Longrightarrow> 0 \<le> x \<Longrightarrow> 0 \<le> rnd x"
proof -
  assume rnd: "f64_rounding rnd" and "0 \<le> x"
  then have "rnd 0 \<le> rnd x" by (intro monoD [of rnd]) (auto simp: f64_rounding_def)
  moreover have "rnd (real 0) = real 0" using rnd unfolding f64_rounding_def by blast
  ultimately show ?thesis by simp
qed

lemma rounding_nat: "f64_rounding rnd \<Longrightarrow> n \<le> 2 ^ 53 \<Longrightarrow> rnd (real n) = real n"
  by (simp add: f64_rounding_def)

lemma limiter_new_ok: "limiter_ok (limiter_new qps burst)"
proof -
  have "unat (max burst qps) < 2 ^ 32" using unsigned_less [of "max burst qps"] by simp
  then show ?thesis
    by (auto simp: limiter_ok_def limiter_new_def intro!: exI [of _ "unat (max burst qps)"] simp del: of_nat_unat)
qed

lemma allow_ok:
  assumes rnd: "f64_rounding rnd" and ok: "limiter_ok rl"
  shows "limiter_ok (fst (allow rnd rl ip now)) \<and> rl_burst (fst (allow rnd rl ip now)) = rl_burst rl \<and>
    rl_qps (fst (allow rnd rl ip now)) = rl_qps rl"
proof -
  define bs where "bs = (if length (rl_buckets rl) > CLEANUP_THRESHOLD
      then filter (\<lambda>kv. (now - bk_last (snd kv)) div 1000000000 < 60) (rl_buckets rl) else rl_buckets rl)"
  define b where "b = (case map_of bs ip of Some b \<Rightarrow> b | None \<Rightarrow> \<lparr>bk_tokens = rl_burst rl, bk_last = now\<rparr>)"
  define t where "t = min (rnd (bk_tokens b + rnd (rnd (real (now - bk_last b) / 1000000000) * rl_qps rl))) (rl_burst rl)"
  obtain n where n: "n \<le> 2 ^ 53" "rl_burst rl = real n" using ok by (auto simp: limiter_ok_def)
  have d: "distinct (map fst bs)"
    using ok by (auto simp: bs_def limiter_ok_def distinct_map intro: inj_on_subset)
  have bs: "map_of bs j = Some x \<Longrightarrow> 0 \<le> bk_tokens x \<and> bk_tokens x \<le> rl_burst rl" for j x
    using ok map_of_filter_distinct [of "rl_buckets rl" _ j x]
    by (auto simp: bs_def limiter_ok_def split: if_splits)
  have "0 \<le> bk_tokens b" using bs n by (auto simp: b_def split: option.splits)
  moreover have "0 \<le> rnd (rnd (real (now - bk_last b) / 1000000000) * rl_qps rl)"
    using ok by (intro rounding_nonneg [OF rnd] mult_nonneg_nonneg) (auto simp: limiter_ok_def)
  ultimately have t: "0 \<le> t" "t \<le> rl_burst rl"
    using rounding_nonneg [OF rnd] n by (simp_all add: t_def)
  have sub: "1 \<le> t \<Longrightarrow> 0 \<le> rnd (t - 1) \<and> rnd (t - 1) \<le> rl_burst rl"
  proof -
    assume "1 \<le> t"
    moreover have "rnd (t - 1) \<le> rnd (rl_burst rl)"
      using rnd t(2) by (intro monoD [of rnd]) (auto simp: f64_rounding_def)
    ultimately show ?thesis
      using rounding_nonneg [OF rnd, of "t - 1"] rounding_nat [OF rnd n(1)] n(2) by simp
  qed
  have "allow rnd rl ip now =
      (rl\<lparr>rl_buckets := AList.update ip \<lparr>bk_tokens = (if t \<ge> 1 then rnd (t - 1) else t), bk_last = now\<rparr> bs\<rparr>, t \<ge> 1)"
    unfolding allow_def Let_def bs_def [symmetric] b_def [symmetric] t_def [symmetric] by simp
  then show ?thesis
    using ok d bs t sub by (auto simp: limiter_ok_def update_conv' distinct_update)
qed

text \<open>Repeated queries of one client at one instant.\<close>

fun allow_n :: "(real \<Rightarrow> real) \<Rightarrow> nat \<Rightarrow> rate_limiter \<Rightarrow> ip_addr \<Rightarrow> nat \<Rightarrow> bool list" where
  "allow_n rnd 0 rl ip now = []"
| "allow_n rnd (Suc k) rl ip now =
     (case allow rnd rl ip now of (rl', r) \<Rightarrow> r # allow_n rnd k rl' ip now)"

lemma allow_same_instant:
  assumes rnd: "f64_rounding rnd" and small: "length (rl_buckets rl) \<le> CLEANUP_THRESHOLD"
    and b: "rl_burst rl = real n" "n \<le> 2 ^ 53" and m: "m \<le> n"
    and tok: "map_of (rl_buckets rl) ip = Some \<lparr>bk_tokens = real m, bk_last = now\<rparr> \<or>
      map_of (rl_buckets rl) ip = None \<and> m = n"
  shows "\<exists>rl'. allow rnd rl ip now = (rl', m \<ge> 1) \<and> rl_burst rl' = rl_burst rl \<and>
    map_of (rl_buckets rl') ip = Some \<lparr>bk_tokens = real (m - 1), bk_last = now\<rparr> \<and>
    (map_of (rl_buckets rl) ip \<noteq> None \<longrightarrow> length (rl_buckets rl') = length (rl_buckets rl)) \<and>
    length (rl_buckets rl') \<le> Suc (length (rl_buckets rl))"
proof -
  have z: "rnd 0 = 0" using rounding_nat [OF rnd, of 0] by simp
  have m': "rnd (real m) = real m" "m \<ge> 1 \<Longrightarrow> rnd (real m - 1) = real (m - 1)"
    using rounding_nat [OF rnd, of m] rounding_nat [OF rnd, of "m - 1"] m b(2) by (auto simp: of_nat_diff)
  have bk: "(case map_of (rl_buckets rl) ip of Some b \<Rightarrow> b | None \<Rightarrow> \<lparr>bk_tokens = rl_burst rl, bk_last = now\<rparr>) =
      \<lparr>bk_tokens = real m, bk_last = now\<rparr>"
    using tok b(1) by auto
  have tokens: "min (rnd (real m + rnd (rnd (real (now - now) / 1000000000) * rl_qps rl))) (rl_burst rl) = real m"
    using m b(1) by (simp add: z m'(1))
  have "allow rnd rl ip now = (rl\<lparr>rl_buckets := AList.update ip
      \<lparr>bk_tokens = real (m - 1), bk_last = now\<rparr> (rl_buckets rl)\<rparr>, m \<ge> 1)"
    using small m'(2) unfolding allow_def Let_def
    by (auto simp only: bk bucket.select_convs tokens if_False not_less [symmetric] split: if_splits)
       (auto simp: Suc_le_eq)
  then show ?thesis by (simp add: length_update)
qed

lemma allow_n_known:
  assumes "f64_rounding rnd" "length (rl_buckets rl) \<le> CLEANUP_THRESHOLD" "rl_burst rl = real n" "n \<le> 2 ^ 53" "m \<le> n"
    "map_of (rl_buckets rl) ip = Some \<lparr>bk_tokens = real m, bk_last = now\<rparr>"
  shows "allow_n rnd k rl ip now = replicate (min k m) True @ replicate (k - m) False"
  using assms(2-)
proof (induction k arbitrary: rl m)
  case (Suc k)
  from allow_same_instant [OF assms(1) Suc.prems(1-4), of ip now] Suc.prems(5)
  obtain rl' where r: "allow rnd rl ip now = (rl', m \<ge> 1)" "rl_burst rl' = rl_burst rl"
    "map_of (rl_buckets rl') ip = Some \<lparr>bk_tokens = real (m - 1), bk_last = now\<rparr>"
    "length (rl_buckets rl') = length (rl_buckets rl)" by auto
  have "allow_n rnd k rl' ip now = replicate (min k (m - 1)) True @ replicate (k - (m - 1)) False"
    by (rule Suc.IH) (use Suc.prems r in simp_all)
  then show ?case using r(1) by (cases m) (auto simp: replicate_app_Cons_same)
qed simp

section \<open>Cookies\<close>

abbreviation (input) COOKIE_VERSION :: byte where "COOKIE_VERSION \<equiv> 1"
abbreviation (input) COOKIE_LIFETIME :: u32 where "COOKIE_LIFETIME \<equiv> 3600"

record cookie_key =
  ck_k0 :: u64
  ck_k1 :: u64

text \<open>The key of a process: \<open>drawn\<close> are the 16 bytes of the system's random numbers, unless it fails.\<close>

definition from_le64 :: "bytes \<Rightarrow> u64" where
  "from_le64 bs = foldr (\<lambda>b acc. acc * 256 + ucast b) bs 0"

definition cookie_random :: "bytes option \<Rightarrow> cookie_key" where
  "cookie_random drawn =
     (let bs = (case drawn of Some b \<Rightarrow> b | None \<Rightarrow> replicate 16 0x5A) in
      \<lparr>ck_k0 = from_le64 (take 8 bs), ck_k1 = from_le64 (drop 8 bs)\<rparr>)"

datatype cookie_status = Absent | ClientOnly | Valid | Stale | Invalid

text \<open>The writes into the hasher; \<open>sip k0 k1 writes\<close> is its \<open>finish()\<close>.\<close>

datatype hash_write = Write_Bytes bytes | Write_U8 byte | Write_U32 u32

fun ip_octets :: "ip_addr \<Rightarrow> bytes" where
  "ip_octets (V4 a) = to_be32 a"
| "ip_octets (V6 a) = to_be 16 a"

type_synonym sip_hash = "u64 \<Rightarrow> u64 \<Rightarrow> hash_write list \<Rightarrow> u64"

definition cookie_hash :: "sip_hash \<Rightarrow> cookie_key \<Rightarrow> bytes \<Rightarrow> ip_addr \<Rightarrow> u32 \<Rightarrow> u64" where
  "cookie_hash sip k client_cookie ip timestamp =
     sip (ck_k0 k) (ck_k1 k)
       [Write_Bytes client_cookie, Write_U8 COOKIE_VERSION, Write_U32 timestamp, Write_Bytes (ip_octets ip)]"

definition cookie_build :: "sip_hash \<Rightarrow> cookie_key \<Rightarrow> bytes \<Rightarrow> ip_addr \<Rightarrow> u32 \<Rightarrow> bytes" where
  "cookie_build sip k client_cookie ip now =
     client_cookie @ [COOKIE_VERSION] @ [0, 0, 0] @ to_be32 now @
     to_be64 (cookie_hash sip k client_cookie ip now)"

definition cookie_verify :: "sip_hash \<Rightarrow> cookie_key \<Rightarrow> bytes \<Rightarrow> ip_addr \<Rightarrow> u32 \<Rightarrow> cookie_status" where
  "cookie_verify sip k cookie ip now =
     (if length cookie = 0 then Absent
      else if length cookie = 8 then ClientOnly
      else if length cookie = 24 then
        let client = take 8 cookie in
        if cookie ! 8 \<noteq> COOKIE_VERSION then Invalid
        else
          let ts = from_be32 (cookie ! 12) (cookie ! 13) (cookie ! 14) (cookie ! 15);
              expected = to_be64 (cookie_hash sip k client ip ts) in
          if take 8 (drop 16 cookie) \<noteq> expected then Invalid
          else
            let age = now - ts in
            if age > 2 * COOKIE_LIFETIME \<and> ts \<le> now then Invalid
            else if age > COOKIE_LIFETIME then Stale
            else Valid
      else Invalid)"

definition client_cookie :: "bytes \<Rightarrow> bytes option" where
  "client_cookie cookie = get_range cookie 0 8"

lemma cookie_layout:
  fixes sip :: sip_hash and k :: cookie_key and ip :: ip_addr and ts :: u32
  assumes "length client = 8"
  defines "ck \<equiv> cookie_build sip k client ip ts"
  shows "length ck = 24" "take 8 ck = client" "ck ! 8 = COOKIE_VERSION"
    "from_be32 (ck ! 12) (ck ! 13) (ck ! 14) (ck ! 15) = ts"
    "take 8 (drop 16 ck) = to_be64 (cookie_hash sip k client ip ts)"
  using assms by (simp_all add: cookie_build_def nth_append to_be32_def)

lemma cookie_verify_built:
  assumes "length client = 8"
  shows "cookie_verify sip k (cookie_build sip k client ip ts) ip' now =
    (if cookie_hash sip k client ip' ts \<noteq> cookie_hash sip k client ip ts then Invalid
     else if now - ts > 2 * COOKIE_LIFETIME \<and> ts \<le> now then Invalid
     else if now - ts > COOKIE_LIFETIME then Stale else Valid)"
proof -
  note l = cookie_layout [OF assms, of sip k ip ts]
  show ?thesis unfolding cookie_verify_def Let_def l by auto
qed

section \<open>Properties\<close>

text \<open>
  A CIDR block contains exactly the addresses of its own family that agree
  with the network in the first \<open>prefix\<close> bits, for every admissible prefix
  including 0 and the full length, so the allowlist admits a client exactly
  when one of its networks has the client's leading bits.
\<close>
theorem acl_membership:
  assumes "list_all cidr_ok nets"
  shows "is_allowed nets ip \<longleftrightarrow>
    (\<exists>c \<in> set nets. case (ci_net c, ip) of
       (V4 net, V4 a) \<Rightarrow> drop_bit (32 - unat (ci_prefix c)) net = drop_bit (32 - unat (ci_prefix c)) a
     | (V6 net, V6 a) \<Rightarrow> drop_bit (128 - unat (ci_prefix c)) net = drop_bit (128 - unat (ci_prefix c)) a
     | _ \<Rightarrow> False)"
proof -
  have "cidr_contains c ip \<longleftrightarrow> (case (ci_net c, ip) of
       (V4 net, V4 a) \<Rightarrow> drop_bit (32 - unat (ci_prefix c)) net = drop_bit (32 - unat (ci_prefix c)) a
     | (V6 net, V6 a) \<Rightarrow> drop_bit (128 - unat (ci_prefix c)) net = drop_bit (128 - unat (ci_prefix c)) a
     | _ \<Rightarrow> False)" if "cidr_ok c" for c
    using that by (auto simp: cidr_ok_def mask_u32_iff mask_u128_iff split: ip_addr.splits)
  then show ?thesis
    using assms by (auto simp: is_allowed_def list_ex_iff list_all_iff simp del: cidr_contains.simps)
qed

theorem acl_membership_witness:
  "is_allowed [\<lparr>ci_net = V4 0x0A000000, ci_prefix = 8\<rparr>] (V4 0x0A010203)"
  using acl_membership [of "[\<lparr>ci_net = V4 0x0A000000, ci_prefix = 8\<rparr>]" "V4 0x0A010203"]
  by (simp add: cidr_ok_def)

text \<open>
  The token bucket never holds fewer than 0 or more than \<open>burst\<close> tokens,
  whatever the clock and the rounding of f64 do, and a client seen for the
  first time is allowed exactly \<open>burst\<close> queries at one instant: the first
  \<open>burst\<close> pass, every further one is dropped.
\<close>
theorem rate_limit_burst:
  assumes "f64_rounding rnd" "limiter_ok rl"
  shows "limiter_ok (fst (allow rnd rl ip now)) \<and>
    (length (rl_buckets rl) < CLEANUP_THRESHOLD \<and> map_of (rl_buckets rl) ip = None \<and> rl_burst rl = real n \<and> n \<le> 2 ^ 53 \<longrightarrow>
       allow_n rnd k rl ip now = replicate (min k n) True @ replicate (k - n) False)"
proof -
  have "allow_n rnd k rl ip now = replicate (min k n) True @ replicate (k - n) False"
    if "length (rl_buckets rl) < CLEANUP_THRESHOLD" "map_of (rl_buckets rl) ip = None" "rl_burst rl = real n" "n \<le> 2 ^ 53"
  proof (cases k)
    case (Suc k')
    from that(1) have "length (rl_buckets rl) \<le> CLEANUP_THRESHOLD" by simp
    from allow_same_instant [OF assms(1) this that(3,4) order_refl, of ip now] that(2)
    obtain rl' where r: "allow rnd rl ip now = (rl', n \<ge> 1)" "rl_burst rl' = rl_burst rl"
      "map_of (rl_buckets rl') ip = Some \<lparr>bk_tokens = real (n - 1), bk_last = now\<rparr>"
      "length (rl_buckets rl') \<le> Suc (length (rl_buckets rl))" by auto
    have "allow_n rnd k' rl' ip now = replicate (min k' (n - 1)) True @ replicate (k' - (n - 1)) False"
      by (rule allow_n_known [OF assms(1), of rl' n "n - 1"]) (use that r in auto)
    then show ?thesis using r(1) Suc by (cases n) (auto simp: replicate_app_Cons_same)
  qed simp
  then show ?thesis using allow_ok [OF assms] by blast
qed

theorem rate_limit_burst_witness:
  "allow_n (\<lambda>x. x) 3 (limiter_new 2 2) (V4 1) 0 = [True, True, False]"
proof -
  have rnd: "f64_rounding (\<lambda>x. x)" by (simp add: f64_rounding_def mono_def)
  have "rl_burst (limiter_new 2 2) = real 2" by (simp add: limiter_new_def)
  then have "allow_n (\<lambda>x. x) 3 (limiter_new 2 2) (V4 1) 0 = replicate 2 True @ replicate 1 False"
    using rate_limit_burst [OF rnd limiter_new_ok, of 2 2 "V4 1" 0 2 3] by (simp add: limiter_new_def)
  then show ?thesis by (simp add: numeral_2_eq_2)
qed

text \<open>
  Cookie life cycle.  A cookie built for a client and presented by the
  same address is valid for an hour, stale for a second hour and then
  rejected; presented from an address with a different keyed hash it is
  rejected at any time; and whatever is classified as valid or stale carries
  the server's own keyed hash of its client half, timestamp and address.
\<close>
theorem cookie_lifecycle:
  assumes "length client = 8" "ts \<le> now"
  shows "cookie_verify sip k (cookie_build sip k client ip ts) ip now =
      (if now - ts \<le> 3600 then Valid else if now - ts \<le> 7200 then Stale else Invalid) \<and>
    (cookie_hash sip k client ip' ts \<noteq> cookie_hash sip k client ip ts \<longrightarrow>
       cookie_verify sip k (cookie_build sip k client ip ts) ip' t = Invalid) \<and>
    (cookie_verify sip k ck ip t \<in> {Valid, Stale} \<longrightarrow>
       length ck = 24 \<and> take 8 (drop 16 ck) =
         to_be64 (cookie_hash sip k (take 8 ck) ip (from_be32 (ck ! 12) (ck ! 13) (ck ! 14) (ck ! 15))))"
proof -
  have "cookie_verify sip k (cookie_build sip k client ip ts) ip now =
      (if now - ts \<le> 3600 then Valid else if now - ts \<le> 7200 then Stale else Invalid)"
  proof -
    have "7200 < now - ts \<Longrightarrow> 3600 < now - ts" using less_trans [of "3600 :: u32" 7200] by simp
    then show ?thesis
      using assms(2) by (auto simp: cookie_verify_built [OF assms(1)] not_le)
  qed
  moreover have "cookie_verify sip k ck ip t \<in> {Valid, Stale} \<Longrightarrow>
       length ck = 24 \<and> take 8 (drop 16 ck) =
         to_be64 (cookie_hash sip k (take 8 ck) ip (from_be32 (ck ! 12) (ck ! 13) (ck ! 14) (ck ! 15)))"
    by (auto simp: cookie_verify_def Let_def split: if_splits)
  moreover have "cookie_hash sip k client ip' ts \<noteq> cookie_hash sip k client ip ts \<Longrightarrow>
       cookie_verify sip k (cookie_build sip k client ip ts) ip' t = Invalid"
    by (simp add: cookie_verify_built [OF assms(1)])
  ultimately show ?thesis by blast
qed

theorem cookie_lifecycle_witness:
  "cookie_verify (\<lambda>_ _ _. 7) \<lparr>ck_k0 = 1, ck_k1 = 2\<rparr>
     (cookie_build (\<lambda>_ _ _. 7) \<lparr>ck_k0 = 1, ck_k1 = 2\<rparr> [1,2,3,4,5,6,7,8] (V4 1) 1000) (V4 1) 5000 = Stale"
  using cookie_lifecycle [of "[1,2,3,4,5,6,7,8]" 1000 5000 "\<lambda>_ _ _. 7" "\<lparr>ck_k0 = 1, ck_k1 = 2\<rparr>" "V4 1" "V4 1" 0 "[]"]
  by simp

text \<open>
  A cookie whose timestamp lies in the future is not rejected: it counts
  as stale, and as valid when the 32-bit age wraps around to at most an hour.
\<close>
theorem future_cookie_accepted:
  assumes "length client = 8" "now < ts"
  shows "cookie_verify sip k (cookie_build sip k client ip ts) ip now =
    (if now - ts \<le> 3600 then Valid else Stale)"
  using assms(2) by (auto simp: cookie_verify_built [OF assms(1)] not_le)

theorem future_cookie_accepted_witness:
  "cookie_verify (\<lambda>_ _ _. 7) \<lparr>ck_k0 = 1, ck_k1 = 2\<rparr>
     (cookie_build (\<lambda>_ _ _. 7) \<lparr>ck_k0 = 1, ck_k1 = 2\<rparr> [1,2,3,4,5,6,7,8] (V4 1) 900000) (V4 1) 5000 = Stale"
  using future_cookie_accepted [of "[1,2,3,4,5,6,7,8]" 5000 900000 "\<lambda>_ _ _. 7" "\<lparr>ck_k0 = 1, ck_k1 = 2\<rparr>" "V4 1"]
  by simp

text \<open>
  When the system has no random numbers the key is a constant, and anyone can
  compute the cookies of the server.
\<close>
theorem cookie_key_fallback:
  "cookie_random None = \<lparr>ck_k0 = 0x5A5A5A5A5A5A5A5A, ck_k1 = 0x5A5A5A5A5A5A5A5A\<rparr>"
  by code_simp

end
