(* ===== verification/Dns_Tsig.thy ===== *)
theory Dns_Tsig
  imports Dns_Message
begin

text \<open>
  Transaction signatures (\<open>dns-tsig/src/lib.rs\<close>).  The HMAC of the ring crate
  is an argument of the model: \<open>sign alg secret data\<close> is the tag, and
  \<open>check alg secret data tag\<close> its verification.
\<close>

section \<open>Data\<close>

abbreviation (input) MAX_CLOCK_SKEW :: u64 where "MAX_CLOCK_SKEW \<equiv> 300"

datatype algorithm = HmacSha256 | HmacSha512

fun alg_wire_name :: "algorithm \<Rightarrow> string" where
  "alg_wire_name HmacSha256 = ''hmac-sha256.''"
| "alg_wire_name HmacSha512 = ''hmac-sha512.''"

definition alg_from_wire_name :: "dns_name \<Rightarrow> algorithm option" where
  "alg_from_wire_name name =
     (let s = map lower_char (display_name name) in
      if s = ''hmac-sha256.'' then Some HmacSha256
      else if s = ''hmac-sha512.'' then Some HmacSha512
      else None)"

record tsig_key =
  tk_name :: dns_name
  tk_algorithm :: algorithm
  tk_secret :: bytes

datatype tsig_error = BadKey | BadSig | BadTime | Missing

fun tsig_code :: "tsig_error \<Rightarrow> u16" where
  "tsig_code BadKey = TSIG_BADKEY"
| "tsig_code Missing = TSIG_BADKEY"
| "tsig_code BadSig = TSIG_BADSIG"
| "tsig_code BadTime = TSIG_BADTIME"

type_synonym key_ring = "dns_name \<Rightarrow> tsig_key option"

definition ring_insert :: "tsig_key \<Rightarrow> key_ring \<Rightarrow> key_ring" where
  "ring_insert key ring = ring(tk_name key \<mapsto> key)"

type_synonym hmac_sign = "algorithm \<Rightarrow> bytes \<Rightarrow> bytes \<Rightarrow> bytes"
type_synonym hmac_check = "algorithm \<Rightarrow> bytes \<Rightarrow> bytes \<Rightarrow> bytes \<Rightarrow> bool"

section \<open>Operations\<close>

definition digest_input :: "bytes \<Rightarrow> tsig \<Rightarrow> bytes option \<Rightarrow> bytes" where
  "digest_input message_bytes t prior_mac =
     (case prior_mac of Some mac \<Rightarrow> to_be16 (word_of_nat (length mac)) @ mac | None \<Rightarrow> []) @
     message_bytes @ tsig_variables t"

definition compute_mac :: "hmac_sign \<Rightarrow> tsig_key \<Rightarrow> bytes \<Rightarrow> tsig \<Rightarrow> bytes option \<Rightarrow> bytes" where
  "compute_mac sign key message_bytes t prior_mac =
     sign (tk_algorithm key) (tk_secret key) (digest_input message_bytes t prior_mac)"

text \<open>\<open>DnsName::parse_str(wire_name).unwrap()\<close>; the parse of the two constants succeeds.\<close>

definition alg_name :: "algorithm \<Rightarrow> dns_name" where
  "alg_name a = (case parse_str (alg_wire_name a) of Inr n \<Rightarrow> n | Inl _ \<Rightarrow> [])"

definition make_tsig :: "tsig_key \<Rightarrow> u64 \<Rightarrow> u16 \<Rightarrow> u16 \<Rightarrow> tsig" where
  "make_tsig key now original_id error =
     \<lparr>ts_key_name = tk_name key, ts_algorithm = alg_name (tk_algorithm key), ts_time_signed = now,
      ts_fudge = ucast MAX_CLOCK_SKEW, ts_mac = [], ts_original_id = original_id, ts_error = error,
      ts_other = []\<rparr>"

definition sign_request :: "hmac_sign \<Rightarrow> message \<Rightarrow> tsig_key \<Rightarrow> u64 \<Rightarrow> bytes \<times> bytes" where
  "sign_request sign msg key now =
     (let t = make_tsig key now (m_id msg) 0;
          body = message_encode msg;
          mac = compute_mac sign key body t None
      in (encode_with_tsig msg (t\<lparr>ts_mac := mac\<rparr>), mac))"

definition sign_response :: "hmac_sign \<Rightarrow> message \<Rightarrow> tsig_key \<Rightarrow> bytes \<Rightarrow> u64 \<Rightarrow> bytes" where
  "sign_response sign msg key request_mac now =
     (let t = make_tsig key now (m_id msg) 0;
          body = message_encode msg;
          mac = compute_mac sign key body t (Some request_mac)
      in encode_with_tsig msg (t\<lparr>ts_mac := mac\<rparr>))"

definition sign_error :: "message \<Rightarrow> tsig_key \<Rightarrow> u16 \<Rightarrow> u64 \<Rightarrow> bytes" where
  "sign_error msg key error now = encode_with_tsig msg (make_tsig key now (m_id msg) error)"

definition abs_diff :: "u64 \<Rightarrow> u64 \<Rightarrow> u64" where
  "abs_diff a b = (if b \<le> a then a - b else b - a)"

text \<open>
  \<open>None\<close> is the panic of slicing \<open>raw[..start]\<close> or indexing the ARCOUNT bytes
  out of range.
\<close>

definition tsig_verify ::
  "hmac_check \<Rightarrow> message \<Rightarrow> bytes \<Rightarrow> key_ring \<Rightarrow> u64 \<Rightarrow> bytes option \<Rightarrow> (tsig_error + bytes) option" where
  "tsig_verify check msg raw keyring now prior_mac =
     (case (m_tsig msg, m_tsig_start msg) of
        (Some t, Some start) \<Rightarrow>
          (case keyring (ts_key_name t) of
             None \<Rightarrow> Some (Inl BadKey)
           | Some key \<Rightarrow>
               if alg_from_wire_name (ts_algorithm t) \<noteq> Some (tk_algorithm key) then Some (Inl BadKey)
               else if start > length raw \<or> start < 12 then None
               else
                 let body0 = take start raw;
                     arcount = from_be16 (body0 ! 10) (body0 ! 11) - 1;
                     body = copy_from_slice body0 10 (to_be16 arcount);
                     data = digest_input body t prior_mac in
                 if \<not> check (tk_algorithm key) (tk_secret key) data (ts_mac t) then Some (Inl BadSig)
                 else if abs_diff now (ts_time_signed t) > ucast (ts_fudge t) then Some (Inl BadTime)
                 else Some (Inr (ts_mac t)))
      | _ \<Rightarrow> Some (Inl Missing))"

section \<open>Where a TSIG record can start\<close>

lemma read_bytes_pos: "read_bytes buf p n = Inr (x, q) \<Longrightarrow> q = p + n \<and> q \<le> length buf"
  by (auto simp: read_bytes_def get_range_def split: option.splits if_splits)

lemma read_u16_pos: "read_u16 buf p = Inr (x, q) \<Longrightarrow> q = p + 2 \<and> q \<le> length buf"
  by (auto simp: read_u16_def and_then_eq_Inr_iff dest: read_bytes_pos)

lemma read_u32_pos: "read_u32 buf p = Inr (x, q) \<Longrightarrow> q = p + 4 \<and> q \<le> length buf"
  by (auto simp: read_u32_def and_then_eq_Inr_iff dest: read_bytes_pos)

lemma decode_n_pos:
  assumes "\<And>p x q. dec buf p = Inr (x, q) \<Longrightarrow> p \<le> q"
  shows "decode_n dec k buf p = Inr (xs, q) \<Longrightarrow> p \<le> q"
  by (induction k arbitrary: p xs) (auto simp: and_then_eq_Inr_iff dest!: assms intro: le_trans)

lemma parse_question_pos: "parse_question buf p = Inr (x, q) \<Longrightarrow> p \<le> q"
  by (auto simp: parse_question_def and_then_eq_Inr_iff dest!: from_wire_wf read_u16_pos)

lemma rdata_parse_pos: "rdata_parse t buf p k = Inr (x, q) \<Longrightarrow> q = p + k"
  by (auto simp: rdata_parse_def Let_def and_then_eq_Inr_iff split: if_splits)

lemma parse_entry_pos:
  assumes "parse_entry buf p = Inr (e, q)"
  shows "p < length buf \<and> p \<le> q"
proof -
  from assms obtain n p1 rt p2 cl p3 ttl p4 len p5 where
    r: "from_wire buf p = Inr (n, p1)" "read_u16 buf p1 = Inr (rt, p2)" "read_u16 buf p2 = Inr (cl, p3)"
    "read_u32 buf p3 = Inr (ttl, p4)" "read_u16 buf p4 = Inr (len, p5)" and "p5 \<le> q"
    by (auto simp: parse_entry_def and_then_eq_Inr_iff Let_def dest: rdata_parse_pos read_bytes_pos split: if_splits)
  moreover have "p < p1" using from_wire_wf [OF r(1)] by simp
  ultimately show ?thesis
    using from_wire_wf [OF r(1)] read_u16_pos [OF r(2)] read_u16_pos [OF r(3)] read_u32_pos [OF r(4)] read_u16_pos [OF r(5)]
    by auto
qed

lemma parse_section_pos: "parse_section k buf p acc = Inr (rs, q) \<Longrightarrow> p \<le> q"
  by (induction k arbitrary: p acc) (auto simp: and_then_eq_Inr_iff dest!: parse_entry_pos intro: le_trans)

lemma parse_additional_tsig:
  assumes "parse_additional k buf p msg = Inr (m, q)" "12 \<le> p"
    "\<And>s. m_tsig_start msg = Some s \<Longrightarrow> 12 \<le> s \<and> s < length buf"
  shows "\<forall>s. m_tsig_start m = Some s \<longrightarrow> 12 \<le> s \<and> s < length buf"
  using assms
proof (induction k arbitrary: p msg)
  case (Suc k)
  from Suc.prems(1) obtain e p' where e: "parse_entry buf p = Inr (e, p')"
    and rec: "parse_additional k buf p' (case e of
            Entry_Rr r \<Rightarrow> msg\<lparr>m_additionals := m_additionals msg @ [r]\<rparr>
          | Entry_Opt ed \<Rightarrow> (if m_edns msg = None then msg\<lparr>m_edns := Some ed\<rparr> else msg)
          | Entry_Tsig t \<Rightarrow> msg\<lparr>m_tsig := Some t, m_tsig_start := Some p\<rparr>) = Inr (m, q)"
    by (auto simp: and_then_eq_Inr_iff)
  from parse_entry_pos [OF e] Suc.prems(2,3) show ?case
    by (intro Suc.IH [OF rec]) (auto split: entry.splits if_splits)
qed simp

lemma message_parse_tsig_start:
  assumes "message_parse buf = Inr m" "m_tsig_start m = Some s"
  shows "12 \<le> s \<and> s < length buf"
proof -
  obtain i fl qs an ns p6 p7 p8 p9 q ar qd an' ns' where
    p: "p6 = 12" "decode_n parse_question qd buf p6 = Inr (qs, p7)" "parse_section an' buf p7 [] = Inr (an, p8)"
    "parse_section ns' buf p8 [] = Inr (ns, p9)"
    "parse_additional ar buf p9 ((message_new i (flags_from_u16 fl))
       \<lparr>m_questions := qs, m_answers := an, m_authorities := ns\<rparr>) = Inr (m, q)"
    using assms(1) by (auto simp: message_parse_def and_then_eq_Inr_iff numeral_eq_Suc dest!: read_u16_pos)
  have "12 \<le> p9"
    using decode_n_pos [where dec = parse_question, OF _ p(2)] parse_question_pos [of buf] parse_section_pos [OF p(3)] parse_section_pos [OF p(4)] p(1) by simp
  from parse_additional_tsig [OF p(5) this] assms(2) show ?thesis by (simp add: message_new_def)
qed

section \<open>Signing and verifying\<close>

lemma alg_name_ok:
  "wf_name (alg_name a)" "alg_from_wire_name (alg_name a) = Some a" "length (fst (name_bytes (alg_name a) 0 None)) = 13"
proof -
  have n: "alg_name HmacSha256 = [as_bytes ''hmac-sha256'']" "alg_name HmacSha512 = [as_bytes ''hmac-sha512'']"
    by (simp_all add: alg_name_def parse_str_def strip_suffix_def from_labels_def validate_def as_bytes_def to_lower_def)
  show "wf_name (alg_name a)"
    by (cases a) (simp_all add: n wf_name_def wf_label_def lower_label_def as_bytes_def to_lower_def)
  show "alg_from_wire_name (alg_name a) = Some a"
    unfolding n by (cases a; simp only: n; code_simp)
  show "length (fst (name_bytes (alg_name a) 0 None)) = 13"
    by (cases a) (simp_all add: n as_bytes_def)
qed

lemma tsig_variables_mac: "tsig_variables (t\<lparr>ts_mac := mac\<rparr>) = tsig_variables t"
  by (simp add: tsig_variables_def)

text \<open>The verifier reconstructs the signed bytes: cutting at \<open>tsig_start\<close> and undoing the ARCOUNT increment.\<close>

lemma signed_body:
  fixes m :: message and t :: tsig
  defines "raw \<equiv> encode_with_tsig m t" and "start \<equiv> length (message_encode m)"
  shows "start \<le> length raw" "12 \<le> start"
    "copy_from_slice (take start raw) 10 (to_be16 (from_be16 (take start raw ! 10) (take start raw ! 11) - 1)) =
       message_encode m"
proof -
  obtain rest where m: "message_encode m = header_front m @ to_be16 (word_of_nat (arcount m)) @ rest"
    by (rule message_encode_sections [where m = m]) (simp add: header_split)
  have raw: "raw = header_front m @ to_be16 (word_of_nat (arcount m) + 1) @ rest @ tsig_bytes t"
    by (simp add: raw_def encode_with_tsig_def tsig_encode_rr_bytes m nth_append to_be16_def Let_def copy_from_slice_def)
  have start: "start = 12 + length rest" by (simp add: start_def m)
  show "12 \<le> start" "start \<le> length raw" by (simp_all add: start raw)
  have take: "take start raw = header_front m @ to_be16 (word_of_nat (arcount m) + 1) @ rest"
    by (simp add: start raw)
  have "from_be16 (take start raw ! 10) (take start raw ! 11) = word_of_nat (arcount m) + 1"
    unfolding take by (simp add: nth_append to_be16_def)
  then show "copy_from_slice (take start raw) 10 (to_be16 (from_be16 (take start raw ! 10) (take start raw ! 11) - 1)) =
       message_encode m"
    unfolding take m by (simp add: copy_from_slice_def)
qed

lemma signed_message_verifies:
  fixes prior :: "bytes option"
  assumes m: "message_ok m" "arcount m + 1 < 65536"
    and key: "wf_name (tk_name key)" "keyring (tk_name key) = Some key"
    and now: "now < 2 ^ 48" "abs_diff t now \<le> 300"
    and sign: "\<And>a s d tag. check a s d tag \<longleftrightarrow> tag = sign a s d" "\<And>a s d. length (sign a s d) \<le> 64"
  defines "ts \<equiv> make_tsig key now (m_id m) 0"
  defines "mac \<equiv> compute_mac sign key (message_encode m) ts prior"
  defines "raw \<equiv> encode_with_tsig m (ts\<lparr>ts_mac := mac\<rparr>)"
  shows "\<exists>m'. message_parse raw = Inr m' \<and> m' = m\<lparr>m_tsig := Some (ts\<lparr>ts_mac := mac\<rparr>), m_tsig_start := Some (length (message_encode m))\<rparr> \<and>
    tsig_verify check m' raw keyring t prior = Some (Inr mac)"
proof -
  let ?t = "ts\<lparr>ts_mac := mac\<rparr>"
  have len: "length mac \<le> 64" using sign(2) by (simp add: mac_def compute_mac_def)
  have tok: "tsig_ok ?t"
    using key(1) now(1) len alg_name_ok(1,3) [of "tk_algorithm key"]
    by (simp add: tsig_ok_def ts_def make_tsig_def tsig_rdata_def)
  have f: "ts_key_name ts = tk_name key" "ts_algorithm ts = alg_name (tk_algorithm key)" "ts_time_signed ts = now"
    "ts_fudge ts = 300"
    by (simp_all add: ts_def make_tsig_def)
  have mac: "check (tk_algorithm key) (tk_secret key) (digest_input (message_encode m) ?t prior) mac"
    unfolding mac_def compute_mac_def sign(1) by (simp add: digest_input_def tsig_variables_mac)
  have "tsig_verify check (m\<lparr>m_tsig := Some ?t, m_tsig_start := Some (length (message_encode m))\<rparr>) raw keyring t prior = Some (Inr mac)"
    using signed_body(1) [of m ?t, folded raw_def] signed_body(2) [of m] mac now(2)
    by (simp add: tsig_verify_def f key(2) alg_name_ok(2) signed_body(3) [of m ?t, folded raw_def] not_less Let_def
          del: nth_take)
  then show ?thesis
    using message_tsig_parse [OF m(1) tok m(2)] by (simp add: raw_def)
qed

text \<open>The verifier's branches in order: what each error means, and what acceptance implies.\<close>

lemma tsig_verify_cases:
  fixes check :: hmac_check and keyring :: key_ring and now :: u64 and prior :: "bytes option" and raw :: bytes
  assumes t: "m_tsig m = Some t" "m_tsig_start m = Some start" and start: "12 \<le> start" "start \<le> length raw"
  defines "body \<equiv> copy_from_slice (take start raw) 10 (to_be16 (from_be16 (raw ! 10) (raw ! 11) - 1))"
  defines "known key \<equiv> keyring (ts_key_name t) = Some key \<and> alg_from_wire_name (ts_algorithm t) = Some (tk_algorithm key)"
  defines "genuine key \<equiv> check (tk_algorithm key) (tk_secret key) (digest_input body t prior) (ts_mac t)"
  defines "fresh \<equiv> abs_diff now (ts_time_signed t) \<le> ucast (ts_fudge t)"
  shows "tsig_verify check m raw keyring now prior = Some r \<longleftrightarrow>
    (case r of
       Inr mac \<Rightarrow> mac = ts_mac t \<and> (\<exists>key. known key \<and> genuine key) \<and> fresh
     | Inl e \<Rightarrow> (e = BadKey \<and> (\<nexists>key. known key)) \<or>
               (e = BadSig \<and> (\<exists>key. known key \<and> \<not> genuine key)) \<or>
               (e = BadTime \<and> (\<exists>key. known key \<and> genuine key) \<and> \<not> fresh))"
  using start
  by (cases "keyring (ts_key_name t)"; cases r)
    (auto simp: tsig_verify_def t known_def genuine_def fresh_def body_def Let_def not_le)

text \<open>
  A signed exchange verifies.  When the HMAC verifier accepts exactly the tag
  the signer computes (the contract of the ring crate), a request signed by
  \<open>sign_request\<close> is parsed back to the same message carrying its TSIG
  record, and \<open>verify\<close> accepts it with the request's MAC whenever the
  verifier's clock is within 300 seconds; a response signed with that MAC is in
  turn accepted by the requester.  No step panics.
\<close>

theorem sign_verify_exchange:
  assumes "message_ok req" "arcount req + 1 < 65536" "message_ok resp" "arcount resp + 1 < 65536"
    and "wf_name (tk_name key)" "keyring (tk_name key) = Some key"
    and "now < 2 ^ 48" "abs_diff t now \<le> 300" "now' < 2 ^ 48" "abs_diff t' now' \<le> 300"
    and hmac_accepts: "\<And>a s d tag. check a s d tag \<longleftrightarrow> tag = sign a s d"
    and hmac_length: "\<And>a s d. length (sign a s d) \<le> 64"
  shows "\<exists>raw mac req' resp'.
    sign_request sign req key now = (raw, mac) \<and>
    message_parse raw = Inr req' \<and> req'\<lparr>m_tsig := m_tsig req, m_tsig_start := m_tsig_start req\<rparr> = req \<and>
    tsig_verify check req' raw keyring t None = Some (Inr mac) \<and>
    message_parse (sign_response sign resp key mac now') = Inr resp' \<and>
    resp'\<lparr>m_tsig := m_tsig resp, m_tsig_start := m_tsig_start resp\<rparr> = resp \<and>
    (\<exists>mac'. tsig_verify check resp' (sign_response sign resp key mac now') keyring t' (Some mac) = Some (Inr mac'))"
proof -
  note v = signed_message_verifies [where check = check and sign = sign and key = key and keyring = keyring, OF _ _ assms(5,6)
      _ _ hmac_accepts hmac_length]
  obtain raw mac where r: "sign_request sign req key now = (raw, mac)" by fastforce
  then have raw: "raw = encode_with_tsig req ((make_tsig key now (m_id req) 0)\<lparr>ts_mac := mac\<rparr>)"
    and mac: "mac = compute_mac sign key (message_encode req) (make_tsig key now (m_id req) 0) None"
    by (auto simp: sign_request_def Let_def)
  show ?thesis
    using v [OF assms(1,2,7,8), of None] v [OF assms(3,4,9,10), of "Some mac"]
    unfolding r raw [symmetric] mac [symmetric] sign_response_def Let_def by auto
qed

definition sample_tsig_key :: tsig_key where
  "sample_tsig_key = \<lparr>tk_name = [[107]], tk_algorithm = HmacSha256, tk_secret = [1, 2, 3]\<rparr>"

theorem sign_verify_exchange_witness:
  "\<exists>raw mac req' resp'.
    sign_request (\<lambda>a s d. take 32 (s @ d)) sample_message sample_tsig_key 1000 = (raw, mac) \<and>
    message_parse raw = Inr req' \<and>
    req'\<lparr>m_tsig := m_tsig sample_message, m_tsig_start := m_tsig_start sample_message\<rparr> = sample_message \<and>
    tsig_verify (\<lambda>a s d tag. tag = take 32 (s @ d)) req' raw (ring_insert sample_tsig_key Map.empty) 1200 None =
      Some (Inr mac) \<and>
    message_parse (sign_response (\<lambda>a s d. take 32 (s @ d)) sample_message sample_tsig_key mac 1200) = Inr resp' \<and>
    resp'\<lparr>m_tsig := m_tsig sample_message, m_tsig_start := m_tsig_start sample_message\<rparr> = sample_message \<and>
    (\<exists>mac'. tsig_verify (\<lambda>a s d tag. tag = take 32 (s @ d)) resp'
       (sign_response (\<lambda>a s d. take 32 (s @ d)) sample_message sample_tsig_key mac 1200)
       (ring_insert sample_tsig_key Map.empty) 1000 (Some mac) = Some (Inr mac'))"
  by (rule sign_verify_exchange)
    (simp_all add: arcount_def sample_message_def [THEN arg_cong [of _ _ m_additionals]]
      sample_message_def [THEN arg_cong [of _ _ m_edns]] sample_tsig_key_def ring_insert_def abs_diff_def
      wf_name_def wf_label_def lower_label_def to_lower_def)

text \<open>
  C36: What \<open>verify\<close> accepts.  On any message that \<open>Message::parse\<close>
  returned together with the bytes it came from, \<open>verify\<close> does not panic,
  and it accepts exactly when the message carries a TSIG whose key is in the ring
  under the algorithm the record names, the HMAC matches the bytes before the TSIG
  record (with ARCOUNT decremented), the prior MAC and the signed variables, and the
  clock is within the record's fudge; it then returns that record's MAC.  Without a
  TSIG record the answer is \<open>Missing\<close>.
\<close>

theorem tsig_verify_accepts:
  assumes "message_parse raw = Inr m"
  shows "tsig_verify check m raw keyring now prior \<noteq> None \<and>
    (m_tsig m = None \<longrightarrow> tsig_verify check m raw keyring now prior = Some (Inl Missing)) \<and>
    (tsig_verify check m raw keyring now prior = Some (Inr mac) \<longleftrightarrow>
      (\<exists>t start key. m_tsig m = Some t \<and> m_tsig_start m = Some start \<and> keyring (ts_key_name t) = Some key \<and>
         alg_from_wire_name (ts_algorithm t) = Some (tk_algorithm key) \<and>
         check (tk_algorithm key) (tk_secret key)
           (digest_input (copy_from_slice (take start raw) 10 (to_be16 (from_be16 (raw ! 10) (raw ! 11) - 1))) t prior)
           (ts_mac t) \<and>
         abs_diff now (ts_time_signed t) \<le> ucast (ts_fudge t) \<and> mac = ts_mac t))"
proof (cases "m_tsig m = None \<or> m_tsig_start m = None")
  case True
  then show ?thesis by (auto simp: tsig_verify_def split: option.splits)
next
  case False
  then obtain t start where t: "m_tsig m = Some t" "m_tsig_start m = Some start" by auto
  have start: "12 \<le> start" "start \<le> length raw"
    using message_parse_tsig_start [OF assms t(2)] by auto
  have "tsig_verify check m raw keyring now prior \<noteq> None"
    using start by (simp add: tsig_verify_def t Let_def split: option.split)
  then show ?thesis
    using tsig_verify_cases [OF t start, of check keyring now prior "Inr mac"] by (simp add: t) blast
qed

theorem tsig_verify_accepts_witness:
  "tsig_verify (\<lambda>a s d tag. tag = [1, 2, 3])
     (sample_message\<lparr>m_tsig := Some sample_tsig, m_tsig_start := Some (length (message_encode sample_message))\<rparr>)
     (encode_with_tsig sample_message sample_tsig) (ring_insert sample_tsig_key Map.empty) 0 None \<noteq> None"
  using tsig_verify_accepts [OF message_tsig_parse [OF sample_message_ok sample_tsig_ok],
    of "\<lambda>a s d tag. tag = [1, 2, 3]" "ring_insert sample_tsig_key Map.empty" 0 None]
  by (simp add: arcount_def sample_message_def [THEN arg_cong [of _ _ m_additionals]]
      sample_message_def [THEN arg_cong [of _ _ m_edns]])

end
