(* ===== verification/Base_N.thy ===== *)
theory Base_N
  imports Rust_Text
begin

text \<open>
  The text encodings of binary data: base64 of key material
  (\<open>dns-dnssec/src/lib.rs\<close> \<open>b64\<close>, \<open>unb64\<close>), of TSIG secrets
  (\<open>dns-tsig/src/lib.rs\<close> \<open>base64_decode\<close>) and of DNS-over-HTTPS queries
  (\<open>dns-tls/src/lib.rs\<close> \<open>base64url_decode\<close>), and the base32hex of NSEC3
  owner labels (\<open>dns-dnssec/src/nsec3.rs\<close> \<open>base32hex\<close>,
  \<open>dns-resolver/src/validator.rs\<close> \<open>base32hex_decode\<close>).  The encoders and
  decoders work on 32-bit accumulators with shifts, as the sources do.
\<close>

section \<open>base64\<close>

definition b64_alphabet :: string where
  "b64_alphabet = ''ABCDEFGHIJKLMNOPQRSTUVWXYZabcdefghijklmnopqrstuvwxyz0123456789+/''"

definition b64_group :: "byte \<Rightarrow> byte \<Rightarrow> byte \<Rightarrow> u32" where
  "b64_group b0 b1 b2 = push_bit 16 (ucast b0) OR push_bit 8 (ucast b1) OR ucast b2"

definition sextet :: "u32 \<Rightarrow> nat \<Rightarrow> char" where
  "sextet n k = b64_alphabet ! unat (drop_bit k n AND 63)"

definition b64_chunk :: "bytes \<Rightarrow> string" where
  "b64_chunk chunk =
     (let n = b64_group (chunk ! 0) (if 1 < length chunk then chunk ! 1 else 0)
                (if 2 < length chunk then chunk ! 2 else 0) in
      [sextet n 18, sextet n 12,
       if length chunk > 1 then sextet n 6 else CHR ''='',
       if length chunk > 2 then sextet n 0 else CHR ''=''])"

definition b64 :: "bytes \<Rightarrow> string" where
  "b64 data = concat (map b64_chunk (chunks 3 data))"

text \<open>The value of a character; \<open>c62\<close> and \<open>c63\<close> are the last two of the alphabet.\<close>

definition b64_val :: "byte \<Rightarrow> byte \<Rightarrow> byte \<Rightarrow> byte option" where
  "b64_val c62 c63 c =
     (if 65 \<le> c \<and> c \<le> 90 then Some (c - 65)
      else if 97 \<le> c \<and> c \<le> 122 then Some (c - 97 + 26)
      else if 48 \<le> c \<and> c \<le> 57 then Some (c - 48 + 52)
      else if c = c62 then Some 62
      else if c = c63 then Some 63
      else None)"

fun b64_acc :: "(byte \<Rightarrow> byte option) \<Rightarrow> bytes \<Rightarrow> u32 \<Rightarrow> nat \<Rightarrow> (u32 \<times> nat) option" where
  "b64_acc val [] acc bits = Some (acc, bits)"
| "b64_acc val (c # cs) acc bits =
     (case val c of
        None \<Rightarrow> None
      | Some v \<Rightarrow> b64_acc val cs (push_bit 6 acc OR ucast v) (bits + 6))"

definition unb64_chunk :: "(byte \<Rightarrow> byte option) \<Rightarrow> bytes \<Rightarrow> bytes option" where
  "unb64_chunk val chunk =
     (case b64_acc val chunk 0 0 of
        None \<Rightarrow> None
      | Some (acc, bits) \<Rightarrow>
          let acc' = drop_bit (bits mod 8) acc;
              bits' = bits - bits mod 8
          in Some (map (\<lambda>k. ucast (drop_bit (8 * k) acc')) (rev [0..<bits' div 8])))"

fun unb64_chunks :: "(byte \<Rightarrow> byte option) \<Rightarrow> bytes list \<Rightarrow> bytes option" where
  "unb64_chunks val [] = Some []"
| "unb64_chunks val (ch # chs) =
     (case unb64_chunk val ch of
        None \<Rightarrow> None
      | Some bs \<Rightarrow> (case unb64_chunks val chs of None \<Rightarrow> None | Some rest \<Rightarrow> Some (bs @ rest)))"

definition is_ascii_whitespace :: "byte \<Rightarrow> bool" where
  "is_ascii_whitespace b \<longleftrightarrow> b = 32 \<or> b = 9 \<or> b = 10 \<or> b = 12 \<or> b = 13"

definition unb64 :: "string \<Rightarrow> bytes option" where
  "unb64 s =
     unb64_chunks (b64_val 43 47)
       (chunks 4 (filter (\<lambda>b. b \<noteq> 61 \<and> \<not> is_ascii_whitespace b) (as_bytes s)))"

definition base64_decode :: "string \<Rightarrow> bytes option" where
  "base64_decode s =
     unb64_chunks (b64_val 43 47)
       (chunks 4 (filter (\<lambda>b. b \<noteq> 61 \<and> \<not> is_ascii_whitespace b) (as_bytes s)))"

definition base64url_decode :: "string \<Rightarrow> bytes option" where
  "base64url_decode s =
     unb64_chunks (b64_val 45 95) (chunks 4 (filter (\<lambda>b. b \<noteq> 61) (as_bytes s)))"

section \<open>base32hex\<close>

definition b32_alphabet :: string where
  "b32_alphabet = ''0123456789abcdefghijklmnopqrstuv''"

fun b32_emit :: "u32 \<Rightarrow> nat \<Rightarrow> string \<times> nat" where
  "b32_emit buf bits =
     (if bits \<ge> 5
      then let (cs, r) = b32_emit buf (bits - 5)
           in (b32_alphabet ! unat (drop_bit (bits - 5) buf AND 0x1F) # cs, r)
      else ([], bits))"

fun b32_loop :: "bytes \<Rightarrow> u32 \<Rightarrow> nat \<Rightarrow> string" where
  "b32_loop [] buf bits =
     (if bits > 0 then [b32_alphabet ! unat (push_bit (5 - bits) buf AND 0x1F)] else [])"
| "b32_loop (b # bs) buf bits =
     (let buf' = push_bit 8 buf OR ucast b;
          (cs, bits') = b32_emit buf' (bits + 8)
      in cs @ b32_loop bs buf' bits')"

definition base32hex :: "bytes \<Rightarrow> string" where
  "base32hex data = b32_loop data 0 0"

definition b32_val :: "char \<Rightarrow> u32 option" where
  "b32_val c =
     (let l = of_char (lower_char c) :: u32 in
      if 48 \<le> l \<and> l \<le> 57 then Some (of_char c - 48)
      else if 97 \<le> l \<and> l \<le> 118 then Some (l - 97 + 10)
      else None)"

fun unb32_loop :: "string \<Rightarrow> u32 \<Rightarrow> nat \<Rightarrow> bytes \<Rightarrow> bytes option" where
  "unb32_loop [] buf bits out = Some out"
| "unb32_loop (c # cs) buf bits out =
     (case b32_val c of
        None \<Rightarrow> None
      | Some v \<Rightarrow>
          let buf' = push_bit 5 buf OR v;
              bits' = bits + 5
          in if bits' \<ge> 8 then unb32_loop cs buf' (bits' - 8) (out @ [ucast (drop_bit (bits' - 8) buf')])
             else unb32_loop cs buf' bits' out)"

definition base32hex_decode :: "string \<Rightarrow> bytes option" where
  "base32hex_decode s = unb32_loop s 0 0 []"

section \<open>The alphabets\<close>

text \<open>The characters of an alphabet have consecutive values.\<close>

fun values_from :: "(char \<Rightarrow> 'a::len word option) \<Rightarrow> string \<Rightarrow> 'a word \<Rightarrow> bool" where
  "values_from val [] k = True"
| "values_from val (c # cs) k = (val c = Some k \<and> values_from val cs (k + 1))"

lemma values_from_nth:
  "values_from val cs k \<Longrightarrow> i < length cs \<Longrightarrow> val (cs ! i) = Some (k + word_of_nat i)"
  by (induction cs arbitrary: k i) (auto simp: nth_Cons algebra_simps split: nat.split)

lemma b64_values: "values_from (\<lambda>c. b64_val 43 47 (of_char c)) b64_alphabet 0"
  by (simp add: b64_val_def b64_alphabet_def)

lemma b32_values: "values_from b32_val b32_alphabet 0"
  by (simp add: b32_val_def b32_alphabet_def lower_char_def)

lemma b64_val_alphabet: "i < 64 \<Longrightarrow> b64_val 43 47 (of_char (b64_alphabet ! i)) = Some (word_of_nat i)"
  using values_from_nth [OF b64_values] by (simp add: b64_alphabet_def)

lemma b32_val_alphabet: "i < 32 \<Longrightarrow> b32_val (b32_alphabet ! i) = Some (word_of_nat i)"
  using values_from_nth [OF b32_values] by (simp add: b32_alphabet_def)

section \<open>base64 round trip\<close>

lemma sextet_value: "b64_val 43 47 (of_char (sextet n k)) = Some (ucast (take_bit 6 (drop_bit k n)))"
proof -
  have m: "drop_bit k n AND 63 = take_bit 6 (drop_bit k n)"
    by (simp add: take_bit_eq_mask mask_numeral)
  have "unat (take_bit 6 (drop_bit k n)) < 64"
    by (simp add: take_bit_eq_mod unat_mod)
  then show ?thesis by (simp add: sextet_def m b64_val_alphabet)
qed

lemma sextet_clean: "sextet n k \<noteq> CHR ''='' \<and> \<not> is_ascii_whitespace (of_char (sextet n k)) \<and> of_char (sextet n k) \<noteq> (61::byte)"
  using sextet_value [of n k] by (auto simp: b64_val_def is_ascii_whitespace_def split: if_splits)

lemma shift_in: "push_bit 6 (drop_bit (k + 6) n) OR take_bit 6 (drop_bit k n) = drop_bit k n" for n :: u32
  by (rule bit_eqI) (auto simp: bit_simps algebra_simps)

lemma group_bytes:
  fixes b0 b1 b2 :: byte
  defines "n \<equiv> b64_group b0 b1 b2"
  shows "drop_bit 24 n = 0" "ucast (drop_bit 16 n) = b0" "ucast (drop_bit 8 n) = b1" "ucast n = b2"
  unfolding n_def b64_group_def
  by (rule bit_word_eqI; auto simp: bit_simps not_less dest: bit_imp_le_length)+

text \<open>The characters of a chunk that are not padding.\<close>

definition sextets :: "bytes \<Rightarrow> bytes" where
  "sextets ch = map of_char (filter (\<lambda>c. c \<noteq> CHR ''='') (b64_chunk ch))"

abbreviation (input) b64_clean :: "byte \<Rightarrow> bool" where
  "b64_clean b \<equiv> b \<noteq> 61 \<and> \<not> is_ascii_whitespace b"

lemma clean_b64_chunk: "filter b64_clean (as_bytes (b64_chunk ch)) = sextets ch"
  by (simp add: sextets_def b64_chunk_def Let_def as_bytes_def sextet_clean)

lemma short_chunk_cases:
  assumes "0 < length ch" "length ch \<le> 3"
  obtains b0 where "ch = [b0]" | b0 b1 where "ch = [b0, b1]" | b0 b1 b2 where "ch = [b0, b1, b2]"
proof -
  from assms obtain b0 xs where ch: "ch = b0 # xs" "length xs \<le> 2" by (cases ch) auto
  show thesis
  proof (cases xs)
    case (Cons b1 ys)
    then show thesis using ch that by (cases ys) auto
  qed (use ch that in auto)
qed

lemma length_sextets: "0 < length ch \<Longrightarrow> length ch \<le> 3 \<Longrightarrow> length (sextets ch) = length ch + 1"
  by (erule (1) short_chunk_cases) (simp_all add: sextets_def b64_chunk_def Let_def sextet_clean)

lemma b64_acc_sextet:
  "b64_acc (b64_val 43 47) (of_char (sextet n k) # cs) acc bits =
     b64_acc (b64_val 43 47) cs (push_bit 6 acc OR take_bit 6 (drop_bit k n)) (bits + 6)"
proof -
  have "ucast (ucast (take_bit 6 x) :: byte) = take_bit 6 x" for x :: u32
    by (rule bit_word_eqI) (auto simp: bit_simps)
  then show ?thesis by (simp add: sextet_value)
qed

lemma unb64_sextets:
  assumes "0 < length ch" "length ch \<le> 3"
  shows "unb64_chunk (b64_val 43 47) (sextets ch) = Some ch"
proof -
  have s18: "take_bit 6 (drop_bit 18 (b64_group b0 b1 b2)) = drop_bit 18 (b64_group b0 b1 b2)" for b0 b1 b2
    using shift_in [of 18 "b64_group b0 b1 b2"] by (simp add: group_bytes)
  have sh: "push_bit 6 (drop_bit 18 n) OR take_bit 6 (drop_bit 12 n) = drop_bit 12 n"
    "push_bit 6 (drop_bit 12 n) OR take_bit 6 (drop_bit 6 n) = drop_bit 6 n"
    "push_bit 6 (drop_bit 6 n) OR take_bit 6 n = n" for n :: u32
    using shift_in [of 12 n] shift_in [of 6 n] shift_in [of 0 n] by simp_all
  from assms show ?thesis
    by (rule short_chunk_cases)
      (simp_all add: sextets_def b64_chunk_def sextet_clean unb64_chunk_def b64_acc_sextet s18 sh
        group_bytes upt_rec drop_bit_drop_bit Let_def del: b64_acc.simps(2))
qed

text \<open>The cleaned characters of an encoding fall into the chunks of the encoder.\<close>

lemma chunks_sextets:
  "chunks 4 (concat (map sextets (chunks 3 data))) = map sextets (chunks 3 data)"
proof (induction "3 :: nat" data rule: chunks.induct)
  case (1 data)
  show ?case
  proof (cases "length data \<le> 3")
    case True
    then have "chunks 4 (sextets data) = [sextets data]" if "data \<noteq> []"
      using length_sextets [of data] that by (subst chunks_step) auto
    with True show ?thesis by (cases "data = []") (simp_all add: chunks_step)
  next
    case False
    then have "data \<noteq> []" "length (sextets (take 3 data)) = 4" by (auto simp: length_sextets)
    with 1 show ?thesis by (simp add: chunks_step [of 3 data] chunks_append)
  qed
qed

lemma unb64_chunks_sextets:
  "\<forall>ch \<in> set chs. 0 < length ch \<and> length ch \<le> 3 \<Longrightarrow>
     unb64_chunks (b64_val 43 47) (map sextets chs) = Some (concat chs)"
  by (induction chs) (simp_all add: unb64_sextets)

lemma clean_b64: "filter b64_clean (as_bytes (b64 data)) = concat (map sextets (chunks 3 data))"
proof -
  have "filter b64_clean (as_bytes (concat (map b64_chunk chs))) = concat (map sextets chs)" for chs
    by (induction chs) (simp_all add: as_bytes_def clean_b64_chunk [unfolded as_bytes_def])
  then show ?thesis by (simp add: b64_def)
qed

lemma unb64_b64: "unb64 (b64 data) = Some data"
  unfolding unb64_def clean_b64 chunks_sextets
  by (subst unb64_chunks_sextets) (auto simp: concat_chunks dest: length_chunks [rotated])

text \<open>The URL alphabet differs in its last two characters only.\<close>

definition to_url :: "char \<Rightarrow> char" where
  "to_url c = (if c = CHR ''+'' then CHR ''-'' else if c = CHR ''/'' then CHR ''_'' else c)"

definition url_byte :: "byte \<Rightarrow> byte" where
  "url_byte b = (if b = 43 then 45 else if b = 47 then 95 else b)"

lemma of_char_to_url: "of_char (to_url c) = url_byte (of_char c)"
proof -
  have "c = CHR ''+'' \<longleftrightarrow> (of_char c :: byte) = 43" "c = CHR ''/'' \<longleftrightarrow> (of_char c :: byte) = 47"
    using as_byte_inj [of c "CHR ''+''"] as_byte_inj [of c "CHR ''/''"] by auto
  then show ?thesis by (simp add: to_url_def url_byte_def)
qed

lemma b64_val_url: "b64_val 43 47 b = Some v \<Longrightarrow> b64_val 45 95 (url_byte b) = Some v"
  by (auto simp: b64_val_def url_byte_def split: if_splits)

lemma b64_acc_url: "b64_acc (b64_val 43 47) cs acc bits = Some r \<Longrightarrow> b64_acc (b64_val 45 95) (map url_byte cs) acc bits = Some r"
  by (induction cs arbitrary: acc bits) (auto dest: b64_val_url split: option.splits)

lemma unb64_chunks_url:
  "unb64_chunks (b64_val 43 47) chs = Some r \<Longrightarrow> unb64_chunks (b64_val 45 95) (map (map url_byte) chs) = Some r"
  by (induction chs arbitrary: r) (auto simp: unb64_chunk_def dest!: b64_acc_url split: option.splits)

lemma chunks_map: "chunks n (map f xs) = map (map f) (chunks n xs)"
  by (induction n xs rule: chunks.induct) (subst (1 2) chunks.simps, auto simp: take_map drop_map)

section \<open>base32hex round trip\<close>

lemma quintet_value: "b32_val (b32_alphabet ! unat (n AND 0x1F)) = Some (take_bit 5 n)" for n :: u32
proof -
  have m: "n AND 31 = take_bit 5 n"
    by (simp add: take_bit_eq_mask mask_numeral)
  have "unat (take_bit 5 n) < 32"
    by (simp add: take_bit_eq_mod unat_mod)
  then show ?thesis by (simp add: m b32_val_alphabet)
qed

lemma unb32_quintet:
  "unb32_loop (b32_alphabet ! unat (n AND 0x1F) # cs) buf bits out =
     (let buf' = push_bit 5 buf OR take_bit 5 n in
      if bits \<ge> 3 then unb32_loop cs buf' (bits - 3) (out @ [ucast (drop_bit (bits - 3) buf')])
      else unb32_loop cs buf' (bits + 5) out)"
  by (auto simp: quintet_value Let_def)

text \<open>
  The encoder is ahead of the decoder by the low \<open>bits\<close> bits of the byte
  \<open>p\<close> whose upper \<open>dbits\<close> bits the decoder holds.
\<close>

definition b32_sync :: "byte \<Rightarrow> u32 \<Rightarrow> nat \<Rightarrow> u32 \<Rightarrow> nat \<Rightarrow> bool" where
  "b32_sync p buf bits dbuf dbits \<longleftrightarrow>
     (bits, dbits) \<in> {(0, 0), (3, 5), (1, 7), (4, 4), (2, 6)} \<and>
     (\<forall>i < bits. bit buf i = bit p i) \<and> (\<forall>i < dbits. bit dbuf i = bit p (bits + i))"

lemma b32_sync_cases:
  assumes "b32_sync p buf bits dbuf dbits"
  obtains "bits = 0" "dbits = 0" | "bits = 3" "dbits = 5" | "bits = 1" "dbits = 7" | "bits = 4" "dbits = 4"
    | "bits = 2" "dbits = 6"
  using assms by (auto simp: b32_sync_def)

lemma all_less_numeral: "(\<forall>i < numeral k. P i) \<longleftrightarrow> (\<forall>i < pred_numeral k. P i) \<and> P (pred_numeral k)"
  by (auto simp: numeral_eq_Suc less_Suc_eq)

lemma bit_times_two: "bit (x * 2) n \<longleftrightarrow> 0 < n \<and> n < 32 \<and> bit x (n - 1)" for x :: u32
  using bit_double_iff [of x n] by (auto simp: mult.commute)

lemma bit_byte_high: "8 \<le> n \<Longrightarrow> bit b n = False" for b :: byte
  by (auto dest: bit_imp_le_length)

lemmas sync_simps = bit_byte_high b32_sync_def bit_simps bit_times_two all_less_numeral less_Suc_eq

lemma byte_eqI: "(\<forall>i < 8. bit a i = bit b i) \<Longrightarrow> a = b" for a b :: byte
  by (rule bit_word_eqI) simp

lemma b32_flush:
  assumes "b32_sync p buf bits dbuf dbits"
  shows "unb32_loop (b32_loop [] buf bits) dbuf dbits out = Some (out @ (if bits = 0 then [] else [p]))"
  by (rule b32_sync_cases [OF assms]; insert assms;
      simp add: unb32_quintet Let_def del: unb32_loop.simps(2); intro byte_eqI; simp add: sync_simps; simp add: numeral_eq_Suc)

lemma b32_roundtrip:
  "b32_sync p buf bits dbuf dbits \<Longrightarrow>
     unb32_loop (b32_loop data buf bits) dbuf dbits out = Some (out @ (if bits = 0 then [] else [p]) @ data)"
proof (induction data arbitrary: p buf bits dbuf dbits out)
  case (Cons b data)
  show ?case
    by (rule b32_sync_cases [OF Cons.prems]; insert Cons.prems;
      simp add: unb32_quintet Let_def del: unb32_loop.simps(2);
      subst Cons.IH [where p = b]; (simp; intro conjI byte_eqI)?; simp add: sync_simps; simp add: numeral_eq_Suc)
qed (simp only: b32_flush append_Nil2)

lemma b64_chars: "c \<in> set (b64 data) \<Longrightarrow> c = CHR ''='' \<or> \<not> is_ascii_whitespace (of_char c)"
proof -
  have "set (b64_chunk ch) \<subseteq> {CHR ''=''} \<union> range (\<lambda>(n, k). sextet n k)" for ch
    unfolding b64_chunk_def Let_def by (simp, blast?)
  then show "c \<in> set (b64 data) \<Longrightarrow> c = CHR ''='' \<or> \<not> is_ascii_whitespace (of_char c)"
    using sextet_clean by (fastforce simp: b64_def)
qed

lemma url_clean:
  assumes "\<forall>c \<in> set s. c = CHR ''='' \<or> \<not> is_ascii_whitespace (of_char c)"
  shows "filter (\<lambda>b. b \<noteq> 61) (as_bytes (map to_url (filter (\<lambda>c. c \<noteq> CHR ''='') s))) =
    map url_byte (filter b64_clean (as_bytes s))"
proof -
  have "url_byte b = 61 \<longleftrightarrow> b = 61" for b by (simp add: url_byte_def)
  moreover have "c = CHR ''='' \<longleftrightarrow> (of_char c :: byte) = 61" for c
    using as_byte_inj [of c "CHR ''=''"] by auto
  ultimately show ?thesis
    using assms by (induction s) (auto simp: as_bytes_def of_char_to_url)
qed

lemma alphabet_length: "length b64_alphabet = 64"
  by code_simp

lemma b64_in_alphabet: "c \<in> set (b64 data) \<Longrightarrow> c = CHR ''='' \<or> c \<in> set b64_alphabet"
proof -
  have "unat (n AND 63 :: u32) < 64" for n
  proof -
    have "unat (n AND 63) = unat n AND 63" by (simp add: unsigned_and_eq)
    also have "unat n AND 63 = take_bit 6 (unat n)" by (simp add: take_bit_eq_mask mask_eq_exp_minus_1)
    also have "\<dots> < 64" by (simp add: take_bit_eq_mod)
    finally show ?thesis .
  qed
  then have sextet: "sextet n k \<in> set b64_alphabet" for n k
    unfolding sextet_def by (intro nth_mem) (simp add: alphabet_length)
  have "set (b64_chunk ch) \<subseteq> {CHR ''=''} \<union> range (\<lambda>(n, k). sextet n k)" for ch
    unfolding b64_chunk_def Let_def by (simp, blast?)
  then show "c \<in> set (b64 data) \<Longrightarrow> c = CHR ''='' \<or> c \<in> set b64_alphabet"
    using sextet by (fastforce simp: b64_def)
qed

section \<open>Properties\<close>

text \<open>
  Key material survives its text form: \<open>unb64\<close> and the TSIG
  \<open>base64_decode\<close> recover every byte string from \<open>b64\<close>, and
  \<open>base64url_decode\<close> recovers it from the unpadded URL-safe variant of the
  same text.
\<close>
theorem base64_roundtrip:
  "unb64 (b64 data) = Some data \<and> base64_decode (b64 data) = Some data \<and>
   base64url_decode (map to_url (filter (\<lambda>c. c \<noteq> CHR ''='') (b64 data))) = Some data"
proof (intro conjI)
  show u: "unb64 (b64 data) = Some data" by (rule unb64_b64)
  then show "base64_decode (b64 data) = Some data" by (simp add: unb64_def base64_decode_def)
  have "filter (\<lambda>b. b \<noteq> 61) (as_bytes (map to_url (filter (\<lambda>c. c \<noteq> CHR ''='') (b64 data)))) =
      map url_byte (filter b64_clean (as_bytes (b64 data)))"
    by (rule url_clean) (use b64_chars in blast)
  then show "base64url_decode (map to_url (filter (\<lambda>c. c \<noteq> CHR ''='') (b64 data))) = Some data"
    using unb64_chunks_url [of "chunks 4 (filter b64_clean (as_bytes (b64 data)))" data] u
    by (simp add: base64url_decode_def unb64_def chunks_map)
qed

text \<open>The text of a hash: its length, and the characters it has.\<close>

lemma b32_char: "b32_alphabet ! unat (n AND 0x1F) \<in> set b32_alphabet" for n :: u32
proof -
  have "n AND 31 = take_bit 5 n" by (simp add: take_bit_eq_mask mask_numeral)
  then have "unat (n AND 31) < 32" by (simp add: take_bit_eq_mod unat_mod)
  then show ?thesis by (intro nth_mem) (simp add: b32_alphabet_def)
qed

lemma b32_emit_spec:
  "b32_emit buf bits = (cs, r) \<Longrightarrow> r = bits mod 5 \<and> length cs = bits div 5 \<and> set cs \<subseteq> set b32_alphabet"
proof (induction buf bits arbitrary: cs r rule: b32_emit.induct)
  case (1 buf bits)
  show ?case
  proof (cases "bits \<ge> 5")
    case True
    obtain cs' r' where e: "b32_emit buf (bits - 5) = (cs', r')" by fastforce
    then have "cs = b32_alphabet ! unat (drop_bit (bits - 5) buf AND 0x1F) # cs'" "r = r'"
      using "1.prems" True by (simp_all add: b32_emit.simps [of buf bits])
    then show ?thesis using "1.IH" [OF True e] b32_char True by (simp add: le_mod_geq le_div_geq)
  next
    case False
    then show ?thesis using "1.prems" by simp
  qed
qed

lemma b32_loop_chars:
  "bits < 5 \<Longrightarrow> length (b32_loop bs buf bits) = (8 * length bs + bits + 4) div 5 \<and> set (b32_loop bs buf bits) \<subseteq> set b32_alphabet"
proof (induction bs buf bits rule: b32_loop.induct)
  case (1 buf bits)
  then show ?case by (auto simp: b32_char)
next
  case (2 b bs buf bits)
  obtain cs bits' where e: "b32_emit (push_bit 8 buf OR ucast b) (bits + 8) = (cs, bits')" by fastforce
  note spec = b32_emit_spec [OF e]
  then have "length (b32_loop bs (push_bit 8 buf OR ucast b) bits') = (8 * length bs + bits' + 4) div 5 \<and>
      set (b32_loop bs (push_bit 8 buf OR ucast b) bits') \<subseteq> set b32_alphabet"
    using "2.IH" [OF refl e [symmetric] refl] by simp
  moreover have "(bits + 8) div 5 + (8 * length bs + (bits + 8) mod 5 + 4) div 5 = (8 * length (b # bs) + bits + 4) div 5"
    by simp presburger
  ultimately show ?case using spec by (simp add: e del: b32_emit.simps)
qed

lemma base32hex_chars:
  "length (base32hex data) = (8 * length data + 4) div 5" "set (base32hex data) \<subseteq> set b32_alphabet"
  using b32_loop_chars [of 0 data 0] by (simp_all add: base32hex_def)

text \<open>
  The NSEC3 owner label is faithful: decoding the base32hex text of a hash
  gives the hash back, for byte strings of every length.
\<close>
theorem base32hex_roundtrip: "base32hex_decode (base32hex data) = Some data"
  using b32_roundtrip [of 0 0 0 0 0 data "[]"]
  by (simp add: base32hex_decode_def base32hex_def b32_sync_def)

end
