(* ===== verification/Dnssec_Rr.thy ===== *)
theory Dnssec_Rr
  imports Dns_Message Base_N "HOL-Library.List_Lexorder" "HOL-Library.Multiset"
begin

text \<open>
  The record formats of DNSSEC and the cryptographic checks on them: the signer
  of \<open>dns-dnssec/src/lib.rs\<close>, the verifier of \<open>dns-dnssec/src/validate.rs\<close>,
  the NSEC3 formats of \<open>dns-dnssec/src/nsec3.rs\<close> and the NSEC parsers of
  \<open>dns-resolver/src/validator.rs\<close>.

  The primitives of the ring crate are the fields of \<open>crypto\<close>, an argument of
  everything that verifies; the signing operation of a private key is a field of
  the key.
\<close>

section \<open>Primitives\<close>

datatype rsa_hash = RsaSha1 | RsaSha256 | RsaSha512

record crypto =
  cr_ed25519 :: "bytes \<Rightarrow> bytes \<Rightarrow> bytes \<Rightarrow> bool"
  cr_p256 :: "bytes \<Rightarrow> bytes \<Rightarrow> bytes \<Rightarrow> bool"
  cr_p384 :: "bytes \<Rightarrow> bytes \<Rightarrow> bytes \<Rightarrow> bool"
  cr_rsa :: "rsa_hash \<Rightarrow> bytes \<Rightarrow> bytes \<Rightarrow> bytes \<Rightarrow> bytes \<Rightarrow> bool"
  cr_sha1 :: "bytes \<Rightarrow> bytes"
  cr_sha256 :: "bytes \<Rightarrow> bytes"

abbreviation (input) ALG_RSASHA1 :: byte where "ALG_RSASHA1 \<equiv> 5"
abbreviation (input) ALG_RSASHA1_NSEC3 :: byte where "ALG_RSASHA1_NSEC3 \<equiv> 7"
abbreviation (input) ALG_RSASHA256 :: byte where "ALG_RSASHA256 \<equiv> 8"
abbreviation (input) ALG_RSASHA512 :: byte where "ALG_RSASHA512 \<equiv> 10"
abbreviation (input) ALG_ECDSAP256 :: byte where "ALG_ECDSAP256 \<equiv> 13"
abbreviation (input) ALG_ECDSAP384 :: byte where "ALG_ECDSAP384 \<equiv> 14"
abbreviation (input) ALG_ED25519 :: byte where "ALG_ED25519 \<equiv> 15"

abbreviation (input) FLAG_ZONE_KEY :: u16 where "FLAG_ZONE_KEY \<equiv> 0x0100"
abbreviation (input) FLAG_SEP :: u16 where "FLAG_SEP \<equiv> 0x0001"

section \<open>Keys\<close>

definition rsa_dnskey_public :: "bytes \<Rightarrow> bytes \<Rightarrow> bytes" where
  "rsa_dnskey_public e modulus =
     (if length e \<le> 255 then [word_of_nat (length e)]
      else 0 # to_be16 (word_of_nat (length e))) @ e @ modulus"

definition dnskey_rdata :: "u16 \<Rightarrow> byte \<Rightarrow> bytes \<Rightarrow> bytes" where
  "dnskey_rdata fl algorithm public = to_be16 fl @ [3, algorithm] @ public"

fun key_tag_sum :: "bytes \<Rightarrow> nat \<Rightarrow> u32 \<Rightarrow> u32" where
  "key_tag_sum [] i ac = ac"
| "key_tag_sum (b # bs) i ac =
     key_tag_sum bs (i + 1) (ac + (if even i then push_bit 8 (ucast b) else ucast b))"

definition key_tag :: "bytes \<Rightarrow> u16" where
  "key_tag rdata =
     (let ac = key_tag_sum rdata 0 0;
          ac' = ac + (drop_bit 16 ac AND 0xFFFF)
      in ucast (ac' AND 0xFFFF))"

record dnssec_key =
  dk_sign :: "bytes \<Rightarrow> bytes"
  dk_algorithm :: byte
  dk_flags :: u16
  dk_public :: bytes
  dk_signer :: dns_name
  dk_tag :: u16

definition finish_key :: "(bytes \<Rightarrow> bytes) \<Rightarrow> byte \<Rightarrow> bool \<Rightarrow> dns_name \<Rightarrow> bytes \<Rightarrow> dnssec_key" where
  "finish_key material algorithm ksk signer public =
     (let fl = FLAG_ZONE_KEY OR (if ksk then FLAG_SEP else 0) in
      \<lparr>dk_sign = material, dk_algorithm = algorithm, dk_flags = fl, dk_public = public, dk_signer = signer,
       dk_tag = key_tag (dnskey_rdata fl algorithm public)\<rparr>)"

definition is_ksk :: "dnssec_key \<Rightarrow> bool" where
  "is_ksk k \<longleftrightarrow> dk_flags k AND FLAG_SEP \<noteq> 0"

definition key_rdata :: "dnssec_key \<Rightarrow> bytes" where
  "key_rdata k = dnskey_rdata (dk_flags k) (dk_algorithm k) (dk_public k)"

definition dnskey_record :: "dnssec_key \<Rightarrow> u32 \<Rightarrow> rr" where
  "dnskey_record k ttl =
     \<lparr>rr_name = dk_signer k, rr_class = CLASS_IN, rr_ttl = ttl, rr_rdata = RD_Unknown TYPE_DNSKEY (key_rdata k)\<rparr>"

text \<open>The digest field of the DS record that \<open>ds_presentation\<close> prints, with its three numbers.\<close>

definition ds_rdata :: "crypto \<Rightarrow> dnssec_key \<Rightarrow> bytes" where
  "ds_rdata cr k =
     to_be16 (dk_tag k) @ [dk_algorithm k, 2] @ cr_sha256 cr (name_out (dk_signer k) [] @ key_rdata k)"

section \<open>Signing\<close>

definition rrsig_prefix :: "dnssec_key \<Rightarrow> dns_name \<Rightarrow> u16 \<Rightarrow> u32 \<Rightarrow> u32 \<Rightarrow> u32 \<Rightarrow> bytes" where
  "rrsig_prefix key owner rtype original_ttl inception expiration =
     name_out (dk_signer key)
       (to_be16 rtype @ [dk_algorithm key, word_of_nat (label_count owner)] @ to_be32 original_ttl @
        to_be32 expiration @ to_be32 inception @ to_be16 (dk_tag key))"

text \<open>\<open>None\<close> is the panic of indexing the first record of an empty set.\<close>

fun sign_rrset :: "dnssec_key \<Rightarrow> dns_name \<Rightarrow> u16 \<Rightarrow> rr list \<Rightarrow> u32 \<Rightarrow> u32 \<Rightarrow> rr option" where
  "sign_rrset key owner rtype [] inception expiration = None"
| "sign_rrset key owner rtype (r0 # rs) inception expiration =
     (let original_ttl = rr_ttl r0;
          prefix = rrsig_prefix key owner rtype original_ttl inception expiration;
          canon = sort (map (\<lambda>r. rr_encode_canonical r [] original_ttl) (r0 # rs));
          signature = dk_sign key (prefix @ concat canon)
      in Some \<lparr>rr_name = owner, rr_class = CLASS_IN, rr_ttl = original_ttl,
               rr_rdata = RD_Unknown TYPE_RRSIG (prefix @ signature)\<rparr>)"

section \<open>Verification\<close>

record rrsig_fields =
  sf_type_covered :: u16
  sf_algorithm :: byte
  sf_labels :: byte
  sf_original_ttl :: u32
  sf_expiration :: u32
  sf_inception :: u32
  sf_key_tag :: u16
  sf_signer :: dns_name
  sf_prefix :: bytes
  sf_signature :: bytes

definition parse_rrsig :: "bytes \<Rightarrow> rrsig_fields option" where
  "parse_rrsig rdata =
     (if length rdata < 18 then None
      else case from_wire rdata 18 of
        Inl _ \<Rightarrow> None
      | Inr (signer, pos) \<Rightarrow>
          Some \<lparr>sf_type_covered = from_be16 (rdata ! 0) (rdata ! 1),
                sf_algorithm = rdata ! 2,
                sf_labels = rdata ! 3,
                sf_original_ttl = from_be32 (rdata ! 4) (rdata ! 5) (rdata ! 6) (rdata ! 7),
                sf_expiration = from_be32 (rdata ! 8) (rdata ! 9) (rdata ! 10) (rdata ! 11),
                sf_inception = from_be32 (rdata ! 12) (rdata ! 13) (rdata ! 14) (rdata ! 15),
                sf_key_tag = from_be16 (rdata ! 16) (rdata ! 17),
                sf_signer = signer,
                sf_prefix = take pos rdata,
                sf_signature = drop pos rdata\<rparr>)"

record dnskey_fields =
  kf_flags :: u16
  kf_algorithm :: byte
  kf_public :: bytes

definition parse_dnskey :: "bytes \<Rightarrow> dnskey_fields option" where
  "parse_dnskey rdata =
     (if length rdata < 4 then None
      else Some \<lparr>kf_flags = from_be16 (rdata ! 0) (rdata ! 1), kf_algorithm = rdata ! 3,
                 kf_public = drop 4 rdata\<rparr>)"

definition wildcard_owner :: "dns_name \<Rightarrow> byte \<Rightarrow> dns_name" where
  "wildcard_owner owner rrsig_labels =
     (if unat rrsig_labels \<ge> label_count owner then owner
      else case wildcard_at owner (label_count owner - unat rrsig_labels) of
        Some w \<Rightarrow> w
      | None \<Rightarrow> owner)"

definition signed_data :: "rrsig_fields \<Rightarrow> rr list \<Rightarrow> bytes" where
  "signed_data f rrset =
     sf_prefix f @
     concat (sort (map (\<lambda>r. rr_encode_canonical (r\<lparr>rr_name := wildcard_owner (rr_name r) (sf_labels f)\<rparr>) []
                              (sf_original_ttl f)) rrset))"

definition rsa_parts :: "bytes \<Rightarrow> (bytes \<times> bytes) option" where
  "rsa_parts public =
     (if public = [] then None
      else
        case (if public ! 0 = 0 then
                (case (get_at public 1, get_at public 2) of
                   (Some a, Some b) \<Rightarrow> Some (unat (from_be16 a b), 3)
                 | _ \<Rightarrow> None)
              else Some (unat (public ! 0), 1)) of
          None \<Rightarrow> None
        | Some (exp_len, off) \<Rightarrow>
            (case get_range public off (off + exp_len) of
               None \<Rightarrow> None
             | Some e \<Rightarrow> Some (drop (off + exp_len) public, e)))"

definition verify_signature :: "crypto \<Rightarrow> byte \<Rightarrow> bytes \<Rightarrow> bytes \<Rightarrow> bytes \<Rightarrow> bool" where
  "verify_signature cr algorithm public data sig =
     (if algorithm = ALG_ED25519 then cr_ed25519 cr public data sig
      else if algorithm = ALG_ECDSAP256 then cr_p256 cr (0x04 # public) data sig
      else if algorithm = ALG_ECDSAP384 then cr_p384 cr (0x04 # public) data sig
      else if algorithm \<in> {ALG_RSASHA1, ALG_RSASHA1_NSEC3, ALG_RSASHA256, ALG_RSASHA512} then
        (case rsa_parts public of
           None \<Rightarrow> False
         | Some (n, e) \<Rightarrow>
             cr_rsa cr (if algorithm = ALG_RSASHA1 \<or> algorithm = ALG_RSASHA1_NSEC3 then RsaSha1
                        else if algorithm = ALG_RSASHA512 then RsaSha512 else RsaSha256) n e data sig)
      else False)"

definition verify_rrsig :: "crypto \<Rightarrow> rr list \<Rightarrow> bytes \<Rightarrow> bytes \<Rightarrow> bool" where
  "verify_rrsig cr rrset rrsig_rdata dnskey =
     (case (parse_rrsig rrsig_rdata, parse_dnskey dnskey) of
        (Some f, Some key) \<Rightarrow>
          sf_algorithm f = kf_algorithm key \<and> sf_key_tag f = key_tag dnskey \<and>
          verify_signature cr (kf_algorithm key) (kf_public key) (signed_data f rrset) (sf_signature f)
      | _ \<Rightarrow> False)"

definition verify_ds :: "crypto \<Rightarrow> dns_name \<Rightarrow> bytes \<Rightarrow> bytes \<Rightarrow> bool" where
  "verify_ds cr owner dnskey ds =
     (if length ds < 4 then False
      else case parse_dnskey dnskey of
        None \<Rightarrow> False
      | Some key \<Rightarrow>
          from_be16 (ds ! 0) (ds ! 1) = key_tag dnskey \<and> ds ! 2 = kf_algorithm key \<and>
          (let input = name_out owner [] @ dnskey in
           if ds ! 3 = 1 then cr_sha1 cr input = drop 4 ds
           else if ds ! 3 = 2 then cr_sha256 cr input = drop 4 ds
           else False))"

section \<open>Denial formats\<close>

definition bitmap_set :: "bytes \<Rightarrow> u16 \<Rightarrow> bytes" where
  "bitmap_set bitmap t = bitmap[unat t div 8 := bitmap ! (unat t div 8) OR drop_bit (unat t mod 8) 0x80]"

text \<open>\<open>types.iter().copied().max().unwrap_or(0)\<close>.\<close>

definition max_type :: "u16 list \<Rightarrow> u16" where
  "max_type types = foldl max 0 types"

definition type_bitmap :: "u16 list \<Rightarrow> bytes" where
  "type_bitmap types =
     (let bitmap = foldl bitmap_set (replicate (unat (max_type types) div 8 + 1) 0) types
      in [0, word_of_nat (length bitmap)] @ bitmap)"

definition nsec_rdata :: "dns_name \<Rightarrow> u16 list \<Rightarrow> bytes" where
  "nsec_rdata nxt types = name_out nxt [] @ type_bitmap types"

definition bitmap_byte :: "u16 \<Rightarrow> nat \<Rightarrow> byte \<Rightarrow> u16 list" where
  "bitmap_byte window i b =
     map (\<lambda>k. window * 256 + word_of_nat i * 8 + word_of_nat k)
       (filter (\<lambda>k. b AND drop_bit k 0x80 \<noteq> 0) [0..<8])"

function parse_type_bitmap :: "bytes \<Rightarrow> u16 list" where
  "parse_type_bitmap data =
     (if length data \<ge> 2 then
        let len = unat (data ! 1) in
        if length data < 2 + len then []
        else concat (map (\<lambda>i. bitmap_byte (ucast (data ! 0)) i (data ! (2 + i))) [0..<len]) @
             parse_type_bitmap (drop (2 + len) data)
      else [])"
  by auto
termination by (relation "measure length") auto

declare parse_type_bitmap.simps [simp del]

definition parse_nsec :: "bytes \<Rightarrow> (dns_name \<times> u16 list) option" where
  "parse_nsec rdata =
     (case from_wire rdata 0 of
        Inl _ \<Rightarrow> None
      | Inr (nxt, pos) \<Rightarrow> Some (nxt, parse_type_bitmap (drop pos rdata)))"

abbreviation (input) HASH_SHA1 :: byte where "HASH_SHA1 \<equiv> 1"

record nsec3_params =
  n3_iterations :: u16
  n3_salt :: bytes

fun iterate_hash :: "nat \<Rightarrow> (bytes \<Rightarrow> bytes) \<Rightarrow> bytes \<Rightarrow> bytes \<Rightarrow> bytes" where
  "iterate_hash 0 sha salt digest = digest"
| "iterate_hash (Suc k) sha salt digest = iterate_hash k sha salt (sha (digest @ salt))"

definition hash_name :: "crypto \<Rightarrow> dns_name \<Rightarrow> nsec3_params \<Rightarrow> bytes" where
  "hash_name cr name params =
     iterate_hash (unat (n3_iterations params)) (cr_sha1 cr) (n3_salt params)
       (cr_sha1 cr (name_out name [] @ n3_salt params))"

definition nsec3_rdata :: "nsec3_params \<Rightarrow> bytes \<Rightarrow> u16 list \<Rightarrow> bytes" where
  "nsec3_rdata params next_hash types =
     [HASH_SHA1, 0] @ to_be16 (n3_iterations params) @ [word_of_nat (length (n3_salt params))] @ n3_salt params @
     [word_of_nat (length next_hash)] @ next_hash @ type_bitmap types"

definition nsec3param_rdata :: "nsec3_params \<Rightarrow> bytes" where
  "nsec3param_rdata params =
     [HASH_SHA1, 0] @ to_be16 (n3_iterations params) @ [word_of_nat (length (n3_salt params))] @ n3_salt params"

definition parse_nsec3 :: "bytes \<Rightarrow> (nsec3_params \<times> bytes \<times> u16 list) option" where
  "parse_nsec3 rdata =
     (if length rdata < 5 then None
      else
        let salt_len = unat (rdata ! 4); hash_pos = 5 + salt_len in
        case get_range rdata 5 (5 + salt_len) of
          None \<Rightarrow> None
        | Some salt \<Rightarrow>
            (case get_at rdata hash_pos of
               None \<Rightarrow> None
             | Some h \<Rightarrow>
                 (case get_range rdata (hash_pos + 1) (hash_pos + 1 + unat h) of
                    None \<Rightarrow> None
                  | Some nxt \<Rightarrow>
                      Some (\<lparr>n3_iterations = from_be16 (rdata ! 2) (rdata ! 3), n3_salt = salt\<rparr>, nxt,
                            parse_type_bitmap (drop (hash_pos + 1 + unat h) rdata)))))"

text \<open>The key of the canonical name order, compared lexicographically.\<close>

definition canonical_key :: "dns_name \<Rightarrow> bytes list" where
  "canonical_key name = rev name"

section \<open>Signatures\<close>

definition plain_name :: "dns_name \<Rightarrow> bytes" where
  "plain_name n = fst (name_bytes n 0 None)"

lemma name_out_plain: "name_out n out = out @ plain_name n"
  by (simp add: name_out_bytes plain_name_def)

definition rrsig_head :: "dnssec_key \<Rightarrow> dns_name \<Rightarrow> u16 \<Rightarrow> u32 \<Rightarrow> u32 \<Rightarrow> u32 \<Rightarrow> bytes" where
  "rrsig_head key owner rtype ttl inception expiration =
     to_be16 rtype @ [dk_algorithm key, word_of_nat (label_count owner)] @ to_be32 ttl @
     to_be32 expiration @ to_be32 inception @ to_be16 (dk_tag key)"

lemma length_rrsig_head [simp]: "length (rrsig_head key owner rtype ttl inception expiration) = 18"
  by (simp add: rrsig_head_def)

lemma rrsig_prefix_split:
  "rrsig_prefix key owner rtype ttl inception expiration =
     rrsig_head key owner rtype ttl inception expiration @ plain_name (dk_signer key)"
  by (simp add: rrsig_prefix_def rrsig_head_def name_out_plain)

lemma parse_rrsig_signed:
  assumes "wf_name (dk_signer key)"
  shows "parse_rrsig (rrsig_prefix key owner rtype ttl inception expiration @ sig) =
    Some \<lparr>sf_type_covered = rtype, sf_algorithm = dk_algorithm key, sf_labels = word_of_nat (label_count owner),
          sf_original_ttl = ttl, sf_expiration = expiration, sf_inception = inception, sf_key_tag = dk_tag key,
          sf_signer = dk_signer key, sf_prefix = rrsig_prefix key owner rtype ttl inception expiration,
          sf_signature = sig\<rparr>"
proof -
  let ?h = "rrsig_head key owner rtype ttl inception expiration"
  let ?buf = "?h @ plain_name (dk_signer key) @ sig"
  have "from_wire ?buf 18 = Inr (dk_signer key, 18 + length (plain_name (dk_signer key)))"
    unfolding plain_name_def using assms
    by (intro from_wire_plain_at) (auto simp: has_at_def)
  moreover have "?buf ! i = ?h ! i" if "i < 18" for i
    using that by (simp add: nth_append)
  moreover have "take (18 + k) ?buf = ?h @ take k (plain_name (dk_signer key) @ sig)"
    "drop (18 + k) ?buf = drop k (plain_name (dk_signer key) @ sig)" for k
    by simp_all
  ultimately show ?thesis
    by (simp add: parse_rrsig_def rrsig_prefix_split rrsig_head_def [THEN arg_cong [of _ _ "\<lambda>x. x ! _"]]
       to_be16_def to_be32_def)
qed

section \<open>Canonical form\<close>

lemma rdata_encode_canonical_append:
  "rdata_encode_canonical rd out = out @ rdata_encode_canonical rd []"
  by (cases rd) (simp_all add: name_out_plain)

abbreviation canonical_rdata :: "rdata \<Rightarrow> bytes" where
  "canonical_rdata rd \<equiv> rdata_encode_canonical rd []"

definition canon_bytes :: "dns_name \<Rightarrow> bytes \<Rightarrow> bytes \<Rightarrow> bytes" where
  "canon_bytes n h rd = plain_name n @ h @ to_be16 (word_of_nat (length rd)) @ rd"

definition canon_head :: "rr \<Rightarrow> u32 \<Rightarrow> bytes" where
  "canon_head r ttl = to_be16 (rr_rtype r) @ to_be16 (rr_class r) @ to_be32 ttl"

lemma length_canon_head [simp]: "length (canon_head r ttl) = 8"
  by (simp add: canon_head_def)

lemma rr_encode_canonical_bytes:
  "rr_encode_canonical r [] ttl = canon_bytes (rr_name r) (canon_head r ttl) (canonical_rdata (rr_rdata r))"
proof -
  let ?pre = "plain_name (rr_name r) @ canon_head r ttl"
  let ?rd = "canonical_rdata (rr_rdata r)"
  have patch: "copy_from_slice (?pre @ [0, 0] @ ?rd) (length ?pre) (to_be16 x) = ?pre @ to_be16 x @ ?rd" for x
    by (rule copy_from_slice_append) simp
  have "rr_encode_canonical r [] ttl =
      copy_from_slice (?pre @ [0, 0] @ ?rd) (length ?pre) (to_be16 (word_of_nat (length ?rd)))"
    by (subst rr_encode_canonical_def)
      (simp add: rdata_encode_canonical_append [where out = "_ @ _"] name_out_plain canon_head_def ac_simps Let_def)
  then show ?thesis
    unfolding patch by (simp add: canon_bytes_def)
qed

text \<open>The canonical form of a record is self-delimiting.\<close>

lemma plain_name_unique:
  assumes "plain_name n @ x = plain_name m @ y" "wf_name n" "wf_name m"
  shows "n = m \<and> x = y"
proof -
  have "from_wire (plain_name n @ x) 0 = Inr (n, length (plain_name n))"
    using from_wire_plain_at [of "plain_name n @ x" 0 n] assms(2) by (simp add: plain_name_def has_at_def)
  moreover have "from_wire (plain_name m @ y) 0 = Inr (m, length (plain_name m))"
    using from_wire_plain_at [of "plain_name m @ y" 0 m] assms(3) by (simp add: plain_name_def has_at_def)
  ultimately show ?thesis using assms(1) by simp
qed

lemma to_be16_inj: "to_be16 a = to_be16 b \<longleftrightarrow> a = b"
  by (metis from_be16_to_be16 list.inject to_be16_def)

lemma canon_bytes_unique:
  assumes "canon_bytes n h rd @ x = canon_bytes m k rd' @ y" "wf_name n" "wf_name m" "length h = 8" "length k = 8"
    "length rd < 65536" "length rd' < 65536"
  shows "n = m \<and> h = k \<and> rd = rd' \<and> x = y"
proof -
  have nm: "n = m" and rest: "h @ to_be16 (word_of_nat (length rd)) @ rd @ x = k @ to_be16 (word_of_nat (length rd')) @ rd' @ y"
    using plain_name_unique [of n _ m] assms(1-3) unfolding canon_bytes_def append_assoc by blast+
  then have hk: "h = k" and "to_be16 (word_of_nat (length rd)) @ rd @ x = to_be16 (word_of_nat (length rd')) @ rd' @ y"
    using assms(4,5) by (auto simp: append_eq_append_conv)
  then have "(word_of_nat (length rd) :: u16) = word_of_nat (length rd')" and r: "rd @ x = rd' @ y"
    by (auto simp: append_eq_append_conv to_be16_inj)
  then have "length rd = length rd'"
    using assms(6,7) by (metis unat_of_nat16)
  with r nm hk show ?thesis by auto
qed

definition canonical_ok :: "rr \<Rightarrow> bool" where
  "canonical_ok r \<longleftrightarrow> wf_name (rr_name r) \<and> length (canonical_rdata (rr_rdata r)) < 65536"

text \<open>What a signature covers of a record: the owner it was signed under, class, type and canonical data.\<close>

definition covered_fields :: "rrsig_fields \<Rightarrow> rr \<Rightarrow> dns_name \<times> u16 \<times> u16 \<times> bytes" where
  "covered_fields f r =
     (wildcard_owner (rr_name r) (sf_labels f), rr_rtype r, rr_class r, canonical_rdata (rr_rdata r))"

definition covered_bytes :: "u32 \<Rightarrow> dns_name \<times> u16 \<times> u16 \<times> bytes \<Rightarrow> bytes" where
  "covered_bytes ttl = (\<lambda>(n, t, c, rd). canon_bytes n (to_be16 t @ to_be16 c @ to_be32 ttl) rd)"

definition covered_ok :: "dns_name \<times> u16 \<times> u16 \<times> bytes \<Rightarrow> bool" where
  "covered_ok = (\<lambda>(n, t, c, rd). wf_name n \<and> length rd < 65536)"

lemma signed_data_covered:
  "signed_data f rrset =
     sf_prefix f @ concat (sort (map (\<lambda>r. covered_bytes (sf_original_ttl f) (covered_fields f r)) rrset))"
  by (simp add: signed_data_def rr_encode_canonical_bytes covered_bytes_def covered_fields_def canon_head_def
        rr_rtype_def)

lemma wildcard_owner_wf:
  assumes "wf_name n" shows "wf_name (wildcard_owner n k)"
proof -
  have "wf_name (star_label # drop skip n)" if s: "0 < skip" "skip \<le> length n" for skip
  proof -
    obtain l ls where n: "drop (skip - 1) n = l # ls" using s by (cases "drop (skip - 1) n") auto
    then have d: "drop skip n = ls" using s by (metis drop_Suc Suc_diff_1 tl_drop list.sel(3))
    have "n = take (skip - 1) n @ l # ls" using n by (metis append_take_drop_id)
    then have "list_all wf_label n" "wire_len n \<le> MAX_NAME_WIRE_LEN" "wire_len n = wire_len (take (skip - 1) n @ l # ls)"
      using assms by (auto simp: wf_name_def)
    moreover have "wf_label l" "list_all wf_label ls"
      using n calculation(1) by (metis in_set_dropD list.set_intros list_all_iff)+
    moreover have "1 \<le> length l" using calculation(4) by (cases l) (auto simp: wf_label_def)
    moreover have "1 \<le> wire_len (take (skip - 1) n)" by (simp add: wire_len_def)
    ultimately show ?thesis
      using wire_len_append [of "take (skip - 1) n" "l # ls"]
      by (simp add: wf_name_def d wf_label_def star_label_def as_bytes_def lower_label_def to_lower_def)
  qed
  then show ?thesis
    using assms by (auto simp: wildcard_owner_def wildcard_at_def)
qed

lemma covered_fields_ok: "canonical_ok r \<Longrightarrow> covered_ok (covered_fields f r)"
  by (simp add: canonical_ok_def covered_ok_def covered_fields_def wildcard_owner_wf)

lemma covered_bytes_unique:
  assumes "covered_ok x" "covered_ok y" "covered_bytes ttl x @ u = covered_bytes ttl y @ v"
  shows "x = y \<and> u = v"
proof -
  obtain n t c rd m t' c' rd' where x: "x = (n, t, c, rd)" and y: "y = (m, t', c', rd')"
    by (cases x, cases y) auto
  from canon_bytes_unique [of n _ rd u m _ rd' v] assms
  have "n = m" "rd = rd'" "u = v" "to_be16 t @ to_be16 c @ to_be32 ttl = to_be16 t' @ to_be16 c' @ to_be32 ttl"
    by (auto simp: x y covered_ok_def covered_bytes_def)
  then show ?thesis by (simp add: x y append_eq_append_conv to_be16_inj)
qed

lemma covered_concat_unique:
  assumes "\<forall>x \<in> set xs. covered_ok x" "\<forall>x \<in> set ys. covered_ok x"
    "concat (map (covered_bytes ttl) xs) = concat (map (covered_bytes ttl) ys)"
  shows "xs = ys"
  using assms
proof (induction xs arbitrary: ys)
  case Nil
  have "covered_bytes ttl y \<noteq> []" for y
    by (cases y) (simp add: covered_bytes_def canon_bytes_def to_be16_def)
  with Nil show ?case by (cases ys) auto
next
  case (Cons x xs)
  have "covered_bytes ttl x \<noteq> []"
    by (cases x) (simp add: covered_bytes_def canon_bytes_def to_be16_def)
  with Cons.prems obtain y ys' where ys: "ys = y # ys'" by (cases ys) auto
  with covered_bytes_unique [of x y ttl "concat (map (covered_bytes ttl) xs)" "concat (map (covered_bytes ttl) ys')"]
    Cons.prems have "x = y" "concat (map (covered_bytes ttl) xs) = concat (map (covered_bytes ttl) ys')" by auto
  with Cons.IH [of ys'] Cons.prems ys show ?case by auto
qed

lemma covered_mset:
  assumes "\<forall>x \<in> set xs. covered_ok x" "\<forall>x \<in> set ys. covered_ok x"
    "concat (sort (map (covered_bytes ttl) xs)) = concat (sort (map (covered_bytes ttl) ys))"
  shows "mset xs = mset ys"
proof -
  have sort: "sort (map (covered_bytes ttl) zs) = map (covered_bytes ttl) (sort_key (covered_bytes ttl) zs)" for zs
    by (rule properties_for_sort) simp_all
  have "sort_key (covered_bytes ttl) xs = sort_key (covered_bytes ttl) ys"
    using assms by (intro covered_concat_unique [of _ _ ttl]) (auto simp: sort)
  then show ?thesis by (metis mset_sort)
qed

section \<open>Properties of signatures\<close>

lemma sort_mset_cong: "mset xs = mset ys \<Longrightarrow> sort xs = sort ys"
  by (rule properties_for_sort) simp_all

abbreviation ttl_free :: "rr \<Rightarrow> rr" where
  "ttl_free r \<equiv> r\<lparr>rr_ttl := 0\<rparr>"

lemma covered_fields_ttl_free: "covered_fields f (ttl_free r) = covered_fields f r"
  by (simp add: covered_fields_def rr_rtype_def)

lemma signed_data_cong:
  assumes "mset (map ttl_free rs) = mset (map ttl_free rs')"
  shows "signed_data f rs = signed_data f rs'"
proof -
  let ?g = "\<lambda>r. covered_bytes (sf_original_ttl f) (covered_fields f r)"
  have "image_mset ?g (mset (map ttl_free rs)) = image_mset ?g (mset (map ttl_free rs'))"
    using assms by simp
  then have "mset (map ?g rs) = mset (map ?g rs')"
    by (simp add: covered_fields_ttl_free image_mset.compositionality comp_def)
  from sort_mset_cong [OF this] show ?thesis by (simp add: signed_data_covered)
qed

lemma wildcard_owner_own: "wf_name n \<Longrightarrow> wildcard_owner n (word_of_nat (label_count n)) = n"
  using wf_name_label_count [of n] by (simp add: wildcard_owner_def label_count_def unat_of_nat8)

lemma parse_dnskey_rdata:
  "parse_dnskey (key_rdata k) =
     Some \<lparr>kf_flags = dk_flags k, kf_algorithm = dk_algorithm k, kf_public = dk_public k\<rparr>"
  by (simp add: parse_dnskey_def key_rdata_def dnskey_rdata_def to_be16_def)

lemma finish_key_simps [simp]:
  "dk_sign (finish_key m a ksk s p) = m" "dk_algorithm (finish_key m a ksk s p) = a"
  "dk_public (finish_key m a ksk s p) = p" "dk_signer (finish_key m a ksk s p) = s"
  "dk_tag (finish_key m a ksk s p) = key_tag (key_rdata (finish_key m a ksk s p))"
  by (simp_all add: finish_key_def key_rdata_def Let_def)

lemma sign_rrset_accepted:
  fixes ksk :: bool
  assumes "rrset \<noteq> []" "\<forall>r \<in> set rrset. rr_name r = owner" "wf_name owner" "wf_name signer"
    and signature_correct: "\<And>d. verify_signature cr algorithm public d (material d)"
    and received: "mset (map ttl_free received) = mset (map ttl_free rrset)"
  defines "key \<equiv> finish_key material algorithm ksk signer public"
  shows "\<exists>sig d f. sign_rrset key owner rtype rrset inception expiration = Some sig \<and>
    sig = \<lparr>rr_name = owner, rr_class = CLASS_IN, rr_ttl = rr_ttl (hd rrset), rr_rdata = RD_Unknown TYPE_RRSIG d\<rparr> \<and>
    parse_rrsig d = Some f \<and> sf_type_covered f = rtype \<and> sf_signer f = signer \<and>
    sf_inception f = inception \<and> sf_expiration f = expiration \<and>
    verify_rrsig cr received d (key_rdata key)"
proof -
  obtain r0 rs where rrset: "rrset = r0 # rs" using assms(1) by (cases rrset) auto
  let ?ttl = "rr_ttl r0"
  let ?prefix = "rrsig_prefix key owner rtype ?ttl inception expiration"
  let ?sig = "material (?prefix @ concat (sort (map (\<lambda>r. rr_encode_canonical r [] ?ttl) rrset)))"
  obtain f where p: "parse_rrsig (?prefix @ ?sig) = Some f"
    and f: "f = \<lparr>sf_type_covered = rtype, sf_algorithm = algorithm, sf_labels = word_of_nat (label_count owner),
          sf_original_ttl = ?ttl, sf_expiration = expiration, sf_inception = inception, sf_key_tag = dk_tag key,
          sf_signer = signer, sf_prefix = ?prefix, sf_signature = ?sig\<rparr>"
    using parse_rrsig_signed [of key owner rtype ?ttl inception expiration ?sig] assms(4) by (simp add: key_def)
  have own: "r\<lparr>rr_name := wildcard_owner (rr_name r) (sf_labels f)\<rparr> = r" if "r \<in> set rrset" for r
    using assms(2,3) that by (auto simp: f wildcard_owner_own)
  have "signed_data f rrset = ?prefix @ concat (sort (map (\<lambda>r. rr_encode_canonical r [] ?ttl) rrset))"
    unfolding signed_data_def using own by (simp add: f cong: map_cong)
  then have "verify_rrsig cr received (?prefix @ ?sig) (key_rdata key)"
    unfolding verify_rrsig_def p parse_dnskey_rdata signed_data_cong [OF received]
    by (simp add: f key_def signature_correct)
  then show ?thesis
    using p by (simp add: rrset f key_def Let_def)
qed

text \<open>A toy instance of the primitives: the signature of a message is the public key followed by the message.\<close>

definition sample_crypto :: crypto where
  "sample_crypto =
     \<lparr>cr_ed25519 = (\<lambda>p d s. s = p @ d), cr_p256 = (\<lambda>p d s. s = p @ d), cr_p384 = (\<lambda>p d s. s = p @ d),
      cr_rsa = (\<lambda>h n e d s. s = n @ e @ d), cr_sha1 = (\<lambda>d. take 20 (d @ replicate 20 0)),
      cr_sha256 = (\<lambda>d. take 32 (d @ replicate 32 0))\<rparr>"

definition sample_rrset :: "rr list" where
  "sample_rrset =
     [\<lparr>rr_name = [[119], [101]], rr_class = CLASS_IN, rr_ttl = 300, rr_rdata = RD_A 0x0A000002\<rparr>,
      \<lparr>rr_name = [[119], [101]], rr_class = CLASS_IN, rr_ttl = 300, rr_rdata = RD_A 0x0A000001\<rparr>]"

lemma sample_names_wf [simp]: "wf_name [[101]]" "wf_name [[119], [101]]" "wf_name [[42], [101]]" "wf_name [[120], [101]]"
  by (simp_all add: wf_name_def wf_label_def lower_label_def to_lower_def)

lemma sample_signature [simp]: "verify_signature sample_crypto ALG_ED25519 [7] d s \<longleftrightarrow> s = 7 # d"
  by (simp add: verify_signature_def sample_crypto_def)

text \<open>
  C23: What the signer signs, the verifier accepts.  For a key whose private
  operation matches its public half, \<open>sign_rrset\<close> does not panic on a
  non-empty RRset; its RRSIG parses to the type, signer and validity it was made
  with, and \<open>verify_rrsig\<close> accepts it with the key's DNSKEY data for the same
  records received in any order and with any TTLs.
\<close>
theorem sign_rrset_verifies:
  fixes ksk :: bool
  assumes "rrset \<noteq> []" "\<forall>r \<in> set rrset. rr_name r = owner" "wf_name owner" "wf_name signer"
    and signature_correct: "\<And>d. verify_signature cr algorithm public d (material d)"
    and received: "mset (map ttl_free received) = mset (map ttl_free rrset)"
  defines "key \<equiv> finish_key material algorithm ksk signer public"
  shows "\<exists>sig d f. sign_rrset key owner rtype rrset inception expiration = Some sig \<and>
    sig = \<lparr>rr_name = owner, rr_class = CLASS_IN, rr_ttl = rr_ttl (hd rrset), rr_rdata = RD_Unknown TYPE_RRSIG d\<rparr> \<and>
    parse_rrsig d = Some f \<and> sf_type_covered f = rtype \<and> sf_signer f = signer \<and>
    sf_inception f = inception \<and> sf_expiration f = expiration \<and>
    verify_rrsig cr received d (key_rdata key)"
  unfolding key_def by (rule sign_rrset_accepted [OF assms(1-4) signature_correct received])

theorem sign_rrset_verifies_witness:
  "\<exists>sig d f. sign_rrset (finish_key (\<lambda>d. 7 # d) ALG_ED25519 False [[101]] [7]) [[119], [101]] TYPE_A sample_rrset 5 9 = Some sig \<and>
    sig = \<lparr>rr_name = [[119], [101]], rr_class = CLASS_IN, rr_ttl = rr_ttl (hd sample_rrset), rr_rdata = RD_Unknown TYPE_RRSIG d\<rparr> \<and>
    parse_rrsig d = Some f \<and> sf_type_covered f = TYPE_A \<and> sf_signer f = [[101]] \<and>
    sf_inception f = 5 \<and> sf_expiration f = 9 \<and>
    verify_rrsig sample_crypto (map (\<lambda>r. r\<lparr>rr_ttl := 17\<rparr>) (rev sample_rrset)) d
      (key_rdata (finish_key (\<lambda>d. 7 # d) ALG_ED25519 False [[101]] [7]))"
  by (rule sign_rrset_verifies) (simp_all add: sample_rrset_def)

lemma verify_rrsig_iff:
  "verify_rrsig cr rrset d k \<longleftrightarrow>
     (\<exists>f key. parse_rrsig d = Some f \<and> parse_dnskey k = Some key \<and> sf_algorithm f = kf_algorithm key \<and>
        sf_key_tag f = key_tag k \<and>
        verify_signature cr (kf_algorithm key) (kf_public key) (signed_data f rrset) (sf_signature f))"
  by (auto simp: verify_rrsig_def split: option.splits)

lemma signed_data_unique:
  assumes "signed_data f rrset = signed_data f rrset'" "\<forall>r \<in> set rrset \<union> set rrset'. canonical_ok r"
  shows "mset (map (covered_fields f) rrset) = mset (map (covered_fields f) rrset')"
proof (rule covered_mset [where ttl = "sf_original_ttl f"])
  show "concat (sort (map (covered_bytes (sf_original_ttl f)) (map (covered_fields f) rrset))) =
      concat (sort (map (covered_bytes (sf_original_ttl f)) (map (covered_fields f) rrset')))"
    using assms(1) by (simp add: signed_data_covered comp_def)
qed (use assms(2) covered_fields_ok in auto)

text \<open>
  A signature authenticates one RRset only.  When no signature of the
  scheme is valid for two different inputs, two sets of well-formed records
  accepted under the same RRSIG and key agree, as multisets, on owner (in the
  wildcard form the RRSIG's label count implies), type, class and canonical data
  of every record: nothing can be added, dropped or altered, only TTLs and order
  are left open.
\<close>
theorem verified_rrset_unique:
  assumes "verify_rrsig cr rrset d k" "verify_rrsig cr rrset' d k"
    and signature_binding: "\<And>a p x y s. verify_signature cr a p x s \<Longrightarrow> verify_signature cr a p y s \<Longrightarrow> x = y"
    and "\<forall>r \<in> set rrset \<union> set rrset'. canonical_ok r"
  shows "\<exists>f. parse_rrsig d = Some f \<and> mset (map (covered_fields f) rrset) = mset (map (covered_fields f) rrset')"
  using assms(1,2) signature_binding signed_data_unique [OF _ assms(4)] unfolding verify_rrsig_iff by fastforce

lemma sample_binding:
  "verify_signature sample_crypto a p x s \<Longrightarrow> verify_signature sample_crypto a p y s \<Longrightarrow> x = y"
  by (auto simp: verify_signature_def sample_crypto_def split: if_splits option.splits)

theorem verified_rrset_unique_witness:
  "\<exists>d. (\<exists>f. parse_rrsig d = Some f \<and>
     mset (map (covered_fields f) (rev sample_rrset)) = mset (map (covered_fields f) (map (\<lambda>r. r\<lparr>rr_ttl := 17\<rparr>) sample_rrset)))"
proof -
  let ?key = "finish_key (\<lambda>d. 7 # d) ALG_ED25519 False [[101]] [7]"
  obtain sig d where "sign_rrset ?key [[119], [101]] TYPE_A sample_rrset 5 9 = Some sig"
    and sig: "rr_rdata sig = RD_Unknown TYPE_RRSIG d"
    and v: "verify_rrsig sample_crypto (rev sample_rrset) d (key_rdata ?key)"
    using sign_rrset_accepted [of sample_rrset "[[119], [101]]" "[[101]]" sample_crypto ALG_ED25519 "[7]" "\<lambda>d. 7 # d"
        "rev sample_rrset" False TYPE_A 5 9] by (fastforce simp: sample_rrset_def)
  then obtain sig' d' where "sign_rrset ?key [[119], [101]] TYPE_A sample_rrset 5 9 = Some sig'"
    and "rr_rdata sig' = RD_Unknown TYPE_RRSIG d'"
    and v': "verify_rrsig sample_crypto (map (\<lambda>r. r\<lparr>rr_ttl := 17\<rparr>) sample_rrset) d' (key_rdata ?key)"
    using sign_rrset_accepted [of sample_rrset "[[119], [101]]" "[[101]]" sample_crypto ALG_ED25519 "[7]" "\<lambda>d. 7 # d"
        "map (\<lambda>r. r\<lparr>rr_ttl := 17\<rparr>) sample_rrset" False TYPE_A 5 9] by (fastforce simp: sample_rrset_def)
  with \<open>sign_rrset ?key [[119], [101]] TYPE_A sample_rrset 5 9 = Some sig\<close> sig have "d' = d" by simp
  have "\<exists>f. parse_rrsig d = Some f \<and>
     mset (map (covered_fields f) (rev sample_rrset)) = mset (map (covered_fields f) (map (\<lambda>r. r\<lparr>rr_ttl := 17\<rparr>) sample_rrset))"
    by (rule verified_rrset_unique [OF v v' [unfolded \<open>d' = d\<close>] sample_binding])
      (auto simp: sample_rrset_def canonical_ok_def)
  then show ?thesis by blast
qed

text \<open>
  An RRSIG over a wildcard RRset does not authenticate the answers expanded
  from it: \<open>sign_rrset\<close> counts the asterisk as a label (RFC 4034 section
  3.1.3 does not), so the verifier takes the expanded owner as it is and the
  signature, valid for the wildcard itself, is rejected.
\<close>
theorem wildcard_expansion_rejected:
  assumes "rr_name r = star_label # apex" "canonical_ok r" "wf_name (l # apex)" "l \<noteq> star_label" "wf_name signer"
    and signature_correct: "\<And>d. verify_signature cr algorithm public d (material d)"
    and signature_binding: "\<And>a p x y s. verify_signature cr a p x s \<Longrightarrow> verify_signature cr a p y s \<Longrightarrow> x = y"
  shows "\<exists>sig d. sign_rrset (finish_key material algorithm ksk signer public) (star_label # apex) rtype [r] inception expiration = Some sig \<and>
    rr_rdata sig = RD_Unknown TYPE_RRSIG d \<and>
    verify_rrsig cr [r] d (key_rdata (finish_key material algorithm ksk signer public)) \<and>
    \<not> verify_rrsig cr [r\<lparr>rr_name := l # apex\<rparr>] d (key_rdata (finish_key material algorithm ksk signer public))"
proof -
  let ?key = "finish_key material algorithm ksk signer public"
  let ?e = "r\<lparr>rr_name := l # apex\<rparr>"
  let ?n = "star_label # apex"
  have wf: "wf_name ?n" using assms(1,2) by (simp add: canonical_ok_def)
  obtain sig d where s: "sign_rrset ?key ?n rtype [r] inception expiration = Some sig"
    "rr_rdata sig = RD_Unknown TYPE_RRSIG d" "verify_rrsig cr [r] d (key_rdata ?key)"
    using sign_rrset_accepted [of "[r]" ?n signer cr algorithm public material "[r]" ksk rtype inception expiration]
      assms(1) wf assms(5) signature_correct by fastforce
  obtain f where f: "parse_rrsig d = Some f" "sf_labels f = word_of_nat (label_count ?n)"
    using s(1,2) parse_rrsig_signed [of ?key ?n rtype "rr_ttl r" inception expiration] assms(5) by (auto simp: Let_def)
  have "\<not> verify_rrsig cr [?e] d (key_rdata ?key)"
  proof
    assume v: "verify_rrsig cr [?e] d (key_rdata ?key)"
    have "signed_data f [r] = signed_data f [?e]"
      using s(3) v f(1) signature_binding unfolding verify_rrsig_iff by fastforce
    moreover have "canonical_ok ?e" using assms(2,3) by (simp add: canonical_ok_def)
    ultimately have "covered_fields f r = covered_fields f ?e"
      using signed_data_unique [of f "[r]" "[?e]"] assms(2) by simp
    then show False
      using wildcard_owner_own [OF wf] wildcard_owner_own [OF assms(3)] assms(1,4)
      by (simp add: covered_fields_def f(2) label_count_def)
  qed
  with s show ?thesis by blast
qed

theorem wildcard_expansion_rejected_witness:
  "\<exists>sig d. sign_rrset (finish_key (\<lambda>d. 7 # d) ALG_ED25519 False [[101]] [7]) (star_label # [[101]]) TYPE_A
       [\<lparr>rr_name = star_label # [[101]], rr_class = CLASS_IN, rr_ttl = 300, rr_rdata = RD_A 1\<rparr>] 5 9 = Some sig \<and>
    rr_rdata sig = RD_Unknown TYPE_RRSIG d \<and>
    verify_rrsig sample_crypto [\<lparr>rr_name = star_label # [[101]], rr_class = CLASS_IN, rr_ttl = 300, rr_rdata = RD_A 1\<rparr>] d
      (key_rdata (finish_key (\<lambda>d. 7 # d) ALG_ED25519 False [[101]] [7])) \<and>
    \<not> verify_rrsig sample_crypto
      [\<lparr>rr_name = star_label # [[101]], rr_class = CLASS_IN, rr_ttl = 300, rr_rdata = RD_A 1\<rparr>\<lparr>rr_name := [120] # [[101]]\<rparr>] d
      (key_rdata (finish_key (\<lambda>d. 7 # d) ALG_ED25519 False [[101]] [7]))"
  by (rule wildcard_expansion_rejected)
    (simp_all add: canonical_ok_def star_label_def as_bytes_def sample_binding)

section \<open>Type bitmaps\<close>

lemma mask_bit: "k < 8 \<Longrightarrow> j < 8 \<Longrightarrow> bit (drop_bit k 0x80 :: byte) (7 - j) \<longleftrightarrow> j = k"
  by (auto simp: less_Suc_eq numeral_eq_Suc bit_simps)

lemma bitmap_mask:
  fixes b :: byte
  assumes "k < 8" shows "b AND drop_bit k 0x80 \<noteq> 0 \<longleftrightarrow> bit b (7 - k)"
proof -
  have "bit (drop_bit k 0x80 :: byte) j \<longleftrightarrow> j = 7 - k" for j
    using mask_bit [OF assms, of "7 - j"] assms bit_imp_le_length [of "drop_bit k 0x80 :: byte" j]
    by (cases "j < 8") auto
  then have "bit (b AND drop_bit k 0x80) j \<longleftrightarrow> j = 7 - k \<and> bit b (7 - k)" for j
    by (auto simp: bit_and_iff)
  then show ?thesis by (metis bit_0_eq bit_word_eqI bot_apply bot_bool_def)
qed

definition type_in :: "bytes \<Rightarrow> nat \<Rightarrow> bool" where
  "type_in bm t \<longleftrightarrow> bit (bm ! (t div 8)) (7 - t mod 8)"

lemma type_in_set:
  assumes "unat u div 8 < length bm" "t div 8 < length bm"
  shows "type_in (bitmap_set bm u) t \<longleftrightarrow> t = unat u \<or> type_in bm t"
proof -
  have "t = unat u \<longleftrightarrow> t div 8 = unat u div 8 \<and> t mod 8 = unat u mod 8"
    by (metis mult_div_mod_eq)
  then show ?thesis
    using assms by (auto simp: type_in_def bitmap_set_def nth_list_update bit_or_iff mask_bit)
qed

lemma type_in_zero: "t div 8 < n \<Longrightarrow> \<not> type_in (replicate n 0) t"
  by (simp add: type_in_def)

lemma length_bitmap_fold [simp]: "length (foldl bitmap_set bm types) = length bm"
  by (induction types arbitrary: bm) (simp_all add: bitmap_set_def)

lemma type_in_fold:
  assumes "\<forall>u \<in> set types. unat u div 8 < length bm" "t div 8 < length bm"
  shows "type_in (foldl bitmap_set bm types) t \<longleftrightarrow> t \<in> unat ` set types \<or> type_in bm t"
  using assms
proof (induction types arbitrary: bm)
  case (Cons u types)
  then have "type_in (foldl bitmap_set (bitmap_set bm u) types) t \<longleftrightarrow> t \<in> unat ` set types \<or> type_in (bitmap_set bm u) t"
    by (intro Cons.IH) (simp_all add: bitmap_set_def)
  with Cons.prems type_in_set [of u bm t] show ?case by auto
qed simp

lemma max_type_ge: "t \<in> set types \<Longrightarrow> t \<le> max_type types"
proof -
  have "acc \<le> foldl max acc types \<and> (\<forall>t \<in> set types. t \<le> foldl max acc types)" for acc :: u16
  proof (induction types arbitrary: acc)
    case (Cons a types)
    from Cons.IH [of "max acc a"] show ?case by (simp add: max.bounded_iff)
  qed simp
  then show "t \<in> set types \<Longrightarrow> t \<le> max_type types" by (simp add: max_type_def)
qed

lemma max_type_less: "\<forall>t \<in> set types. t < b \<Longrightarrow> 0 < b \<Longrightarrow> max_type types < b"
proof -
  have "acc < b \<Longrightarrow> \<forall>t \<in> set types. t < b \<Longrightarrow> foldl max acc types < b" for acc :: u16
    by (induction types arbitrary: acc) auto
  then show "\<forall>t \<in> set types. t < b \<Longrightarrow> 0 < b \<Longrightarrow> max_type types < b" by (simp add: max_type_def)
qed

lemma parse_single_window:
  assumes "length bm < 256"
  shows "set (parse_type_bitmap ([0, word_of_nat (length bm)] @ bm)) = word_of_nat ` {t. t < 8 * length bm \<and> type_in bm t}"
proof -
  have rest: "parse_type_bitmap [] = []" by (simp add: parse_type_bitmap.simps)
  have "parse_type_bitmap ([0, word_of_nat (length bm)] @ bm) = concat (map (\<lambda>i. bitmap_byte 0 i (bm ! i)) [0..<length bm])"
    by (subst parse_type_bitmap.simps) (simp add: unat_of_nat8 assms rest)
  moreover have "set (bitmap_byte 0 i b) = {word_of_nat (8 * i + k) | k. k < 8 \<and> bit b (7 - k)}" for i b
    by (auto simp: bitmap_byte_def image_def mult.commute) (metis bitmap_mask)+
  ultimately have "set (parse_type_bitmap ([0, word_of_nat (length bm)] @ bm)) =
      (\<Union>i \<in> {0..<length bm}. {word_of_nat (8 * i + k) | k. k < 8 \<and> bit (bm ! i) (7 - k)})"
    by (simp only: set_concat set_map set_upt image_image)
  also have "\<dots> = {word_of_nat (8 * i + k) | i k. i < length bm \<and> k < 8 \<and> bit (bm ! i) (7 - k)}"
    unfolding atLeast0LessThan lessThan_iff UN_iff set_eq_iff mem_Collect_eq by blast
  also have "\<dots> = word_of_nat ` {t. t < 8 * length bm \<and> type_in bm t}"
  proof (intro equalityI subsetI)
    fix x :: u16
    assume "x \<in> word_of_nat ` {t. t < 8 * length bm \<and> type_in bm t}"
    then obtain t where t: "x = word_of_nat t" "t < 8 * length bm" "type_in bm t" by auto
    have "t = 8 * (t div 8) + t mod 8" "t div 8 < length bm" using t(2) by auto
    with t show "x \<in> {word_of_nat (8 * i + k) | i k. i < length bm \<and> k < 8 \<and> bit (bm ! i) (7 - k)}"
      unfolding type_in_def by (metis (mono_tags, lifting) mem_Collect_eq mod_less_divisor zero_less_numeral)
  next
    fix x :: u16
    assume "x \<in> {word_of_nat (8 * i + k) | i k. i < length bm \<and> k < 8 \<and> bit (bm ! i) (7 - k)}"
    then obtain i k where ik: "x = word_of_nat (8 * i + k)" "i < length bm" "k < 8" "bit (bm ! i) (7 - k)" by blast
    then have "8 * i + k < 8 * length bm" "type_in bm (8 * i + k)" by (auto simp: type_in_def)
    with ik(1) show "x \<in> word_of_nat ` {t. t < 8 * length bm \<and> type_in bm t}" by blast
  qed
  finally show ?thesis .
qed

lemma parse_type_bitmap_roundtrip:
  assumes "\<forall>t \<in> set types. t < 2040"
  shows "set (parse_type_bitmap (type_bitmap types)) = set types"
proof -
  let ?n = "unat (max_type types) div 8 + 1"
  let ?bm = "foldl bitmap_set (replicate ?n 0) types"
  have n: "?n < 256"
    using max_type_less [of types 2040] assms by (simp add: word_less_nat_alt)
  have small: "unat t div 8 < ?n" if "t \<in> set types" for t
    using max_type_ge [OF that] by (simp add: word_le_nat_alt div_le_mono less_Suc_eq_le)
  have "type_in ?bm t \<longleftrightarrow> t \<in> unat ` set types" if "t < 8 * ?n" for t
    using type_in_fold [of types "replicate ?n 0" t] small that type_in_zero [of t ?n]
    by (simp only: length_replicate less_mult_imp_div_less mult.commute ball_simps) blast
  moreover have "unat t < 8 * ?n" if "t \<in> set types" for t
    using small [OF that] by (simp add: div_less_iff_less_mult mult.commute)
  ultimately have "word_of_nat ` {t. t < 8 * length ?bm \<and> type_in ?bm t} = (word_of_nat ` unat ` set types :: u16 set)"
    by (auto simp: image_def)
  also have "\<dots> = set types" by (simp add: image_image)
  finally show ?thesis
    using parse_single_window [of ?bm] n by (simp add: type_bitmap_def Let_def)
qed

lemma parse_nsec_rdata:
  assumes "wf_name nxt" "\<forall>t \<in> set types. t < 2040"
  shows "\<exists>ts. parse_nsec (nsec_rdata nxt types) = Some (nxt, ts) \<and> set ts = set types"
proof -
  have "from_wire (plain_name nxt @ type_bitmap types) 0 = Inr (nxt, length (plain_name nxt))"
    using from_wire_plain_at [of "plain_name nxt @ type_bitmap types" 0 nxt] assms(1)
    by (simp add: plain_name_def has_at_def)
  then show ?thesis
    using parse_type_bitmap_roundtrip [OF assms(2)] by (simp add: parse_nsec_def nsec_rdata_def name_out_plain)
qed

lemma parse_nsec3_rdata:
  assumes "length (n3_salt params) < 256" "length h < 256" "\<forall>t \<in> set types. t < 2040"
  shows "\<exists>ts. parse_nsec3 (nsec3_rdata params h types) = Some (params, h, ts) \<and> set ts = set types"
proof -
  let ?s = "n3_salt params"
  have "parse_nsec3 (nsec3_rdata params h types) = Some (params, h, parse_type_bitmap (type_bitmap types))"
    by (simp add: parse_nsec3_def nsec3_rdata_def to_be16_def nth_append unat_of_nat8 assms(1,2) get_range_def
          get_at_def Let_def drop_Cons')
  then show ?thesis using parse_type_bitmap_roundtrip [OF assms(3)] by simp
qed

section \<open>Key data\<close>

lemma rsa_parts_public:
  assumes "e \<noteq> []" "length e < 65536"
  shows "rsa_parts (rsa_dnskey_public e n) = Some (n, e)"
proof (cases "length e \<le> 255")
  case True
  then have "(word_of_nat (length e) :: byte) \<noteq> 0"
    using unat_of_nat8 [of "length e"] assms(1) by (auto simp: unat_eq_0 [symmetric])
  with True show ?thesis
    using unat_of_nat8 [of "length e"] by (simp add: rsa_dnskey_public_def rsa_parts_def get_range_def)
next
  case False
  then show ?thesis
    using unat_of_nat16 [OF assms(2)]
    by (simp add: rsa_dnskey_public_def rsa_parts_def get_range_def get_at_def to_be16_def drop_Cons')
qed

fun tag_sum :: "bytes \<Rightarrow> nat \<Rightarrow> nat" where
  "tag_sum [] i = 0"
| "tag_sum (b # bs) i = (if even i then 256 * unat b else unat b) + tag_sum bs (i + 1)"

lemma tag_sum_bound: "tag_sum bs i \<le> 65280 * length bs"
proof (induction bs arbitrary: i)
  case (Cons b bs)
  have "unat b \<le> 255" using unat_lt_256 [of b] by linarith
  with Cons [of "i + 1"] show ?case by auto
qed simp

lemma unat_key_tag_step:
  "unat (if even i then push_bit 8 (ucast b) else ucast b :: u32) = (if even i then 256 * unat b else unat b)"
  for b :: byte
proof -
  have "unat b \<le> 255" using unat_lt_256 [of b] by linarith
  then have "unat (push_bit 8 (ucast b :: u32)) = 256 * unat b"
    by (simp add: push_bit_eq_mult unat_word_ariths unsigned_ucast_eq take_bit_eq_mod)
  then show ?thesis using \<open>unat b \<le> 255\<close> by (simp add: unsigned_ucast_eq take_bit_eq_mod)
qed

lemma unat_key_tag_sum:
  "unat ac + tag_sum bs i < 2 ^ 32 \<Longrightarrow> unat (key_tag_sum bs i ac) = unat ac + tag_sum bs i"
proof (induction bs arbitrary: i ac)
  case (Cons b bs)
  let ?x = "if even i then push_bit 8 (ucast b) else ucast b :: u32"
  have "unat (ac + ?x) = unat ac + unat ?x"
    using Cons.prems unat_key_tag_step [of i b] by (subst unat_plus_simple [symmetric], simp add: no_olen_add_nat)
  then show ?case
    using Cons.IH [of "ac + ?x" "i + 1"] Cons.prems unat_key_tag_step [of i b] by simp
qed simp

lemma key_tag_spec:
  assumes "length rdata \<le> 65535"
  shows "unat (key_tag rdata) = (tag_sum rdata 0 + tag_sum rdata 0 div 65536) mod 65536"
proof -
  have b: "tag_sum rdata 0 \<le> 65280 * 65535"
    using tag_sum_bound [of rdata 0] assms by (meson le_trans mult_le_mono2)
  define ac where "ac = key_tag_sum rdata 0 0"
  have ac: "unat ac = tag_sum rdata 0"
    using unat_key_tag_sum [of 0 rdata 0] b by (simp add: ac_def)
  have m: "x AND 0xFFFF = take_bit 16 x" for x :: u32
    by (simp add: take_bit_eq_mask mask_numeral)
  have "unat ac < 2 ^ 32" using unsigned_less [of ac] by simp
  then have d: "unat (take_bit 16 (drop_bit 16 ac)) = unat ac div 65536"
    by (simp add: take_bit_eq_mod unat_mod drop_bit_eq_div unat_div)
  have "unat (ac + take_bit 16 (drop_bit 16 ac)) = unat ac + unat ac div 65536"
    using b ac by (simp add: unat_word_ariths d)
  then show ?thesis
    by (simp add: key_tag_def Let_def m ac_def [symmetric] ac unsigned_ucast_eq take_bit_eq_mod unat_mod)
qed

section \<open>Properties of the formats\<close>

text \<open>
  Denial records survive the wire: the resolver's parsers recover from the
  signer's NSEC data the next owner and exactly the set of types, and from NSEC3
  data the hash parameters, the next hash and the types.  Types below 2040 are
  covered; above, the one-byte length of the single bitmap window wraps.
\<close>
theorem nsec_formats_roundtrip:
  assumes "wf_name nxt" "\<forall>t \<in> set types. t < 2040" "length (n3_salt params) < 256" "length h < 256"
  shows "(\<exists>ts. parse_nsec (nsec_rdata nxt types) = Some (nxt, ts) \<and> set ts = set types) \<and>
    (\<exists>ts. parse_nsec3 (nsec3_rdata params h types) = Some (params, h, ts) \<and> set ts = set types)"
  using parse_nsec_rdata [OF assms(1,2)] parse_nsec3_rdata [OF assms(3,4,2)] by blast

theorem nsec_formats_roundtrip_witness:
  "(\<exists>ts. parse_nsec (nsec_rdata [[119], [101]] [TYPE_A, TYPE_RRSIG]) = Some ([[119], [101]], ts) \<and>
      set ts = set [TYPE_A, TYPE_RRSIG]) \<and>
   (\<exists>ts. parse_nsec3 (nsec3_rdata \<lparr>n3_iterations = 10, n3_salt = [1, 2]\<rparr> [9, 8, 7] [TYPE_A, TYPE_RRSIG]) =
      Some (\<lparr>n3_iterations = 10, n3_salt = [1, 2]\<rparr>, [9, 8, 7], ts) \<and> set ts = set [TYPE_A, TYPE_RRSIG])"
  by (rule nsec_formats_roundtrip) simp_all

text \<open>
  Key data.  An RSA key published by \<open>rsa_dnskey_public\<close> is split back
  into its modulus and exponent; the key tag is the RFC 4034 sum with its carry
  folded in, with no 32-bit overflow for any DNSKEY that fits a record; and the
  DS record the signer prints for a key is accepted by \<open>verify_ds\<close>.
\<close>
theorem dnskey_formats:
  assumes "e \<noteq> []" "length e < 65536" "length rdata \<le> 65535"
  shows "rsa_parts (rsa_dnskey_public e modulus) = Some (modulus, e) \<and>
    unat (key_tag rdata) = (tag_sum rdata 0 + tag_sum rdata 0 div 65536) mod 65536 \<and> tag_sum rdata 0 + 65535 < 2 ^ 32 \<and>
    verify_ds cr signer (key_rdata (finish_key material algorithm ksk signer public))
      (ds_rdata cr (finish_key material algorithm ksk signer public))"
proof (intro conjI)
  show "tag_sum rdata 0 + 65535 < 2 ^ 32"
    using tag_sum_bound [of rdata 0] mult_le_mono2 [OF assms(3), of 65280] by simp
  let ?k = "finish_key material algorithm ksk signer public"
  show "verify_ds cr signer (key_rdata ?k) (ds_rdata cr ?k)"
    by (simp add: verify_ds_def ds_rdata_def parse_dnskey_rdata to_be16_def)
qed (use rsa_parts_public [OF assms(1,2)] key_tag_spec [OF assms(3)] in simp_all)

theorem dnskey_formats_witness:
  "rsa_parts (rsa_dnskey_public [1, 0, 1] [200, 7]) = Some ([200, 7], [1, 0, 1]) \<and>
    unat (key_tag [1, 1, 3, 15, 9]) = (tag_sum [1, 1, 3, 15, 9] 0 + tag_sum [1, 1, 3, 15, 9] 0 div 65536) mod 65536 \<and>
    tag_sum [1, 1, 3, 15, 9] 0 + 65535 < 2 ^ 32 \<and>
    verify_ds sample_crypto [[101]] (key_rdata (finish_key (\<lambda>d. 7 # d) ALG_ED25519 True [[101]] [7]))
      (ds_rdata sample_crypto (finish_key (\<lambda>d. 7 # d) ALG_ED25519 True [[101]] [7]))"
  by (rule dnskey_formats) simp_all

end
