(* ===== verification/Signed_Zone.thy ===== *)
theory Signed_Zone
  imports Dnssec_Rr Dns_Zone "HOL-Library.Monad_Syntax"
begin

text \<open>
  Online signing of a zone and authenticated denial (\<open>SignedZone\<close> of
  \<open>dns-dnssec/src/lib.rs\<close>, \<open>build_chain\<close> of \<open>dns-dnssec/src/nsec3.rs\<close>).
  The hash maps keyed by owner and type are association lists, as in the zone;
  \<open>None\<close> stands for a panic (an index out of range or an \<open>unwrap\<close>).
\<close>

section \<open>Data\<close>

type_synonym rrset_key = "dns_name \<times> u16"
type_synonym groups = "(rrset_key \<times> rr list) list"

datatype denial =
    Denial_Nsec "(dns_name \<times> rr \<times> rr list) list"
  | Denial_Nsec3 nsec3_params "(bytes \<times> rr \<times> rr list) list" "dns_name list"

record signed_zone =
  sz_origin :: dns_name
  sz_rrsigs :: groups
  sz_denial :: denial
  sz_dnskey_rrset :: "rr list"
  sz_dnskey_rrsigs :: "rr list"
  sz_nsec3param :: "rr option"

section \<open>Signing\<close>

definition group_push :: "rrset_key \<Rightarrow> rr \<Rightarrow> groups \<Rightarrow> groups" where
  "group_push k r g = AList.update k ((case map_of g k of Some rs \<Rightarrow> rs | None \<Rightarrow> []) @ [r]) g"

definition group_records :: "rr list \<Rightarrow> groups" where
  "group_records rs = foldl (\<lambda>g r. group_push (rr_name r, rr_rtype r) r g) [] rs"

definition nsec3param_record :: "zone \<Rightarrow> nsec3_params \<Rightarrow> rr" where
  "nsec3param_record z params =
     \<lparr>rr_name = z_origin z, rr_class = CLASS_IN, rr_ttl = rr_ttl (z_soa z),
      rr_rdata = RD_Unknown TYPE_NSEC3PARAM (nsec3param_rdata params)\<rparr>"

definition zone_groups :: "zone \<Rightarrow> nsec3_params option \<Rightarrow> groups" where
  "zone_groups z nsec3 =
     (let g = group_records (all_records z) in
      case nsec3 of
        None \<Rightarrow> g
      | Some params \<Rightarrow> group_push (z_origin z, TYPE_NSEC3PARAM) (nsec3param_record z params) g)"

text \<open>One signature per key.\<close>

definition sign_all :: "dnssec_key list \<Rightarrow> dns_name \<Rightarrow> u16 \<Rightarrow> rr list \<Rightarrow> u32 \<Rightarrow> u32 \<Rightarrow> rr list option" where
  "sign_all keys owner rtype rrset inception expiration =
     those (map (\<lambda>k. sign_rrset k owner rtype rrset inception expiration) keys)"

definition sign_groups :: "dnssec_key list \<Rightarrow> groups \<Rightarrow> u32 \<Rightarrow> u32 \<Rightarrow> groups option" where
  "sign_groups zsks g inception expiration =
     those (map (\<lambda>((owner, rtype), rrset).
       map_option (Pair (owner, rtype)) (sign_all zsks owner rtype rrset inception expiration)) g)"

definition zone_owners :: "groups \<Rightarrow> dns_name list" where
  "zone_owners g = remdups_adj (sort_key canonical_key (map (\<lambda>kv. fst (fst kv)) g))"

definition types_at :: "groups \<Rightarrow> dns_name \<Rightarrow> dns_name \<Rightarrow> u16 list" where
  "types_at g origin owner =
     map snd (filter (\<lambda>k. fst k = owner) (map fst g)) @ [TYPE_RRSIG] @
     (if owner = origin then [TYPE_DNSKEY] else [])"

definition nsec_types :: "groups \<Rightarrow> dns_name \<Rightarrow> dns_name \<Rightarrow> u16 list" where
  "nsec_types g origin owner = remdups_adj (sort (types_at g origin owner @ [TYPE_NSEC]))"

definition nsec_record :: "groups \<Rightarrow> dns_name \<Rightarrow> u32 \<Rightarrow> dns_name \<Rightarrow> dns_name \<Rightarrow> rr" where
  "nsec_record g origin ttl owner nxt =
     \<lparr>rr_name = owner, rr_class = CLASS_IN, rr_ttl = ttl,
      rr_rdata = RD_Unknown TYPE_NSEC (nsec_rdata nxt (nsec_types g origin owner))\<rparr>"

definition nsec_chain ::
  "dnssec_key list \<Rightarrow> groups \<Rightarrow> dns_name \<Rightarrow> u32 \<Rightarrow> u32 \<Rightarrow> u32 \<Rightarrow> (dns_name \<times> rr \<times> rr list) list option" where
  "nsec_chain zsks g origin ttl inception expiration =
     (let owners = zone_owners g in
      those (map (\<lambda>i.
        let owner = owners ! i;
            rec = nsec_record g origin ttl owner (owners ! ((i + 1) mod length owners))
        in map_option (\<lambda>sigs. (owner, rec, sigs))
             (sign_all zsks owner TYPE_NSEC [rec] inception expiration)) [0..<length owners]))"

text \<open>\<open>dedup_by\<close> on the first component: of a run of equal keys the first entry stays.\<close>

fun dedup_fst :: "('a \<times> 'b) list \<Rightarrow> ('a \<times> 'b) list" where
  "dedup_fst [] = []"
| "dedup_fst [x] = [x]"
| "dedup_fst (x # y # zs) = (if fst x = fst y then dedup_fst (x # zs) else x # dedup_fst (y # zs))"

record nsec3_node =
  nn_hash :: bytes
  nn_owner :: dns_name
  nn_record :: rr

definition hashed_owners :: "crypto \<Rightarrow> (dns_name \<times> u16 list) list \<Rightarrow> nsec3_params \<Rightarrow> (bytes \<times> u16 list) list" where
  "hashed_owners cr owner_types params =
     dedup_fst (sort_key fst (map (\<lambda>(name, types). (hash_name cr name params, types)) owner_types))"

definition build_chain ::
  "crypto \<Rightarrow> dns_name \<Rightarrow> (dns_name \<times> u16 list) list \<Rightarrow> nsec3_params \<Rightarrow> u32 \<Rightarrow> nsec3_node list option" where
  "build_chain cr apex owner_types params ttl =
     (let hashed = hashed_owners cr owner_types params; n = length hashed in
      those (map (\<lambda>i.
        let (hash, types) = hashed ! i;
            nxt = fst (hashed ! ((i + 1) mod n))
        in (case parse_str (base32hex hash @ ''.'' @ display_name apex) of
              Inl _ \<Rightarrow> None
            | Inr owner \<Rightarrow>
                Some \<lparr>nn_hash = hash, nn_owner = owner,
                      nn_record = \<lparr>rr_name = owner, rr_class = CLASS_IN, rr_ttl = ttl,
                                   rr_rdata = RD_Unknown TYPE_NSEC3 (nsec3_rdata params nxt types)\<rparr>\<rparr>)) [0..<n]))"

definition nsec3_chain ::
  "crypto \<Rightarrow> dnssec_key list \<Rightarrow> groups \<Rightarrow> dns_name \<Rightarrow> nsec3_params \<Rightarrow> u32 \<Rightarrow> u32 \<Rightarrow> u32 \<Rightarrow>
     (bytes \<times> rr \<times> rr list) list option" where
  "nsec3_chain cr zsks g origin params ttl inception expiration =
     (let owner_types = map (\<lambda>o'. (o', remdups_adj (sort (types_at g origin o')))) (zone_owners g) in
      do {
        chain \<leftarrow> build_chain cr origin owner_types params ttl;
        those (map (\<lambda>node.
          map_option (\<lambda>sigs. (nn_hash node, nn_record node, sigs))
            (sign_all zsks (nn_owner node) TYPE_NSEC3 [nn_record node] inception expiration)) chain)
      })"

text \<open>The keys that sign the DNSKEY set and those that sign zone data.\<close>

definition ksks_of :: "dnssec_key list \<Rightarrow> dnssec_key list" where
  "ksks_of keys = filter (\<lambda>k. is_ksk k \<or> \<not> list_ex is_ksk keys) keys"

definition zsks_of :: "dnssec_key list \<Rightarrow> dnssec_key list" where
  "zsks_of keys = filter (\<lambda>k. \<not> is_ksk k \<or> \<not> list_ex (\<lambda>k. \<not> is_ksk k) keys) keys"

definition sign_zone ::
  "crypto \<Rightarrow> zone \<Rightarrow> dnssec_key list \<Rightarrow> u64 \<Rightarrow> u64 \<Rightarrow> nsec3_params option \<Rightarrow> signed_zone option" where
  "sign_zone cr z keys now validity_secs nsec3 =
     (let inception = ucast (if now < 3600 then 0 else now - 3600) :: u32;
          expiration = ucast (now + validity_secs) :: u32;
          apex_ttl = rr_ttl (z_soa z);
          ksks = ksks_of keys;
          zsks = zsks_of keys;
          g = zone_groups z nsec3;
          dnskey_rrset = map (\<lambda>k. dnskey_record k apex_ttl) keys
      in do {
        rrsigs \<leftarrow> sign_groups zsks g inception expiration;
        denial \<leftarrow> (case nsec3 of
            None \<Rightarrow> map_option Denial_Nsec (nsec_chain zsks g (z_origin z) apex_ttl inception expiration)
          | Some params \<Rightarrow>
              map_option (\<lambda>nodes. Denial_Nsec3 params nodes (zone_owners g))
                (nsec3_chain cr zsks g (z_origin z) params apex_ttl inception expiration));
        dnskey_rrsigs \<leftarrow> sign_all ksks (z_origin z) TYPE_DNSKEY dnskey_rrset inception expiration;
        Some \<lparr>sz_origin = z_origin z, sz_rrsigs = rrsigs, sz_denial = denial, sz_dnskey_rrset = dnskey_rrset,
              sz_dnskey_rrsigs = dnskey_rrsigs, sz_nsec3param = map_option (nsec3param_record z) nsec3\<rparr>
      })"

section \<open>Queries on a signed zone\<close>

definition dnskey_records :: "signed_zone \<Rightarrow> rr list \<times> rr list" where
  "dnskey_records sz = (sz_dnskey_rrset sz, sz_dnskey_rrsigs sz)"

definition rrsigs_for :: "signed_zone \<Rightarrow> dns_name \<Rightarrow> u16 \<Rightarrow> rr list" where
  "rrsigs_for sz owner rtype = (case map_of (sz_rrsigs sz) (owner, rtype) of Some rs \<Rightarrow> rs | None \<Rightarrow> [])"

definition nsec_denial :: "(dns_name \<times> rr \<times> rr list) list \<Rightarrow> dns_name \<Rightarrow> bool \<Rightarrow> rr list" where
  "nsec_denial chain qname nxdomain =
     (let pick = (\<lambda>(n, rec, sigs). rec # sigs);
          exact = find (\<lambda>e. fst e = qname) chain;
          below = takeWhile (\<lambda>e. canonical_key (fst e) \<le> canonical_key qname) chain
      in if \<not> nxdomain \<and> exact \<noteq> None then pick (the exact)
         else if below \<noteq> [] then pick (last below)
         else if chain \<noteq> [] then pick (last chain)
         else [])"

definition next_hash_of :: "bytes \<Rightarrow> bytes option" where
  "next_hash_of rdata =
     do {
       s \<leftarrow> get_at rdata 4;
       let pos = 5 + unat s;
       h \<leftarrow> get_at rdata pos;
       get_range rdata (pos + 1) (pos + 1 + unat h)
     }"

definition hash_covers :: "bytes \<Rightarrow> bytes \<Rightarrow> bytes \<Rightarrow> bool" where
  "hash_covers cur nxt h \<longleftrightarrow> (if cur < nxt then cur < h \<and> h \<le> nxt else h > cur \<or> h \<le> nxt)"

text \<open>The outer \<open>None\<close> is a panic, the inner one \"no such node\".\<close>

fun covering :: "(bytes \<times> rr \<times> rr list) list \<Rightarrow> bytes \<Rightarrow> (bytes \<times> rr \<times> rr list) option option" where
  "covering [] h = Some None"
| "covering ((cur, rec, sigs) # nodes) h =
     (case rr_rdata rec of
        RD_Unknown t d \<Rightarrow>
          (case next_hash_of d of
             None \<Rightarrow> None
           | Some nxt \<Rightarrow> if hash_covers cur nxt h then Some (Some (cur, rec, sigs)) else covering nodes h)
      | _ \<Rightarrow> covering nodes h)"

fun closest_encloser_from :: "dns_name \<Rightarrow> dns_name list \<Rightarrow> dns_name \<Rightarrow> nat list \<Rightarrow> dns_name" where
  "closest_encloser_from qname names apex [] = apex"
| "closest_encloser_from qname names apex (skip # skips) =
     (case from_labels (drop skip qname) of
        Inr cand \<Rightarrow> if cand \<in> set names then cand else closest_encloser_from qname names apex skips
      | Inl _ \<Rightarrow> closest_encloser_from qname names apex skips)"

definition closest_encloser :: "dns_name \<Rightarrow> dns_name list \<Rightarrow> dns_name \<Rightarrow> dns_name" where
  "closest_encloser qname names apex =
     closest_encloser_from qname names apex [0..<length qname - label_count apex]"

definition next_closer :: "dns_name \<Rightarrow> dns_name \<Rightarrow> dns_name" where
  "next_closer qname ce =
     (let k = label_count ce + 1 in
      if length qname \<le> k then qname
      else case from_labels (drop (length qname - k) qname) of Inr n \<Rightarrow> n | Inl _ \<Rightarrow> qname)"

definition prepend_star :: "dns_name \<Rightarrow> dns_name option" where
  "prepend_star name = (case from_labels (star_label # name) of Inr n \<Rightarrow> Some n | Inl _ \<Rightarrow> None)"

definition dedup_records :: "rr list \<Rightarrow> rr list" where
  "dedup_records records = foldl (\<lambda>out r. if r \<in> set out then out else out @ [r]) [] records"

definition emit_node :: "(bytes \<times> rr \<times> rr list) option \<Rightarrow> rr list" where
  "emit_node node = (case node of None \<Rightarrow> [] | Some (h, rec, sigs) \<Rightarrow> rec # sigs)"

definition nsec3_denial ::
  "crypto \<Rightarrow> dns_name \<Rightarrow> nsec3_params \<Rightarrow> (bytes \<times> rr \<times> rr list) list \<Rightarrow> dns_name list \<Rightarrow> dns_name \<Rightarrow> bool \<Rightarrow>
     rr list option" where
  "nsec3_denial cr origin params nodes names qname nxdomain =
     (let matching = (\<lambda>h. find (\<lambda>node. fst node = h) nodes) in
      if \<not> nxdomain then Some (emit_node (matching (hash_name cr qname params)))
      else
        let ce = closest_encloser qname names origin;
            nc = next_closer qname ce
        in do {
          c2 \<leftarrow> covering nodes (hash_name cr nc params);
          c3 \<leftarrow> (case prepend_star ce of None \<Rightarrow> Some None | Some w \<Rightarrow> covering nodes (hash_name cr w params));
          Some (dedup_records (emit_node (matching (hash_name cr ce params)) @ emit_node c2 @ emit_node c3))
        })"

definition denial_records :: "crypto \<Rightarrow> signed_zone \<Rightarrow> dns_name \<Rightarrow> bool \<Rightarrow> rr list option" where
  "denial_records cr sz qname nxdomain =
     (case sz_denial sz of
        Denial_Nsec chain \<Rightarrow> Some (nsec_denial chain qname nxdomain)
      | Denial_Nsec3 params nodes names \<Rightarrow> nsec3_denial cr (sz_origin sz) params nodes names qname nxdomain)"

section \<open>Groups\<close>

lemma those_map_Some: "those (map f xs) = Some ys \<longleftrightarrow> list_all2 (\<lambda>x y. f x = Some y) xs ys"
proof (induction xs arbitrary: ys)
  case (Cons x xs)
  then show ?case by (cases ys) (auto split: option.splits)
qed auto

lemma those_map_total: "(\<And>x. x \<in> set xs \<Longrightarrow> \<exists>y. f x = Some y) \<Longrightarrow> \<exists>ys. those (map f xs) = Some ys"
  by (induction xs) (auto split: option.splits)

abbreviation rr_key :: "rr \<Rightarrow> rrset_key" where
  "rr_key r \<equiv> (rr_name r, rr_rtype r)"

definition group_of :: "groups \<Rightarrow> rrset_key \<Rightarrow> rr list" where
  "group_of g k = (case map_of g k of Some rs \<Rightarrow> rs | None \<Rightarrow> [])"

definition groups_ok :: "groups \<Rightarrow> rr list \<Rightarrow> bool" where
  "groups_ok g rs \<longleftrightarrow> distinct (map fst g) \<and> (\<forall>k. group_of g k = filter (\<lambda>r. rr_key r = k) rs) \<and>
     (\<forall>k l. map_of g k = Some l \<longrightarrow> l \<noteq> [])"

lemma groups_ok_push:
  assumes "groups_ok g rs" "k = rr_key r"
  shows "groups_ok (group_push k r g) (rs @ [r])"
  using assms by (auto simp: groups_ok_def group_push_def group_of_def distinct_update split: option.splits if_splits)

lemma group_records_ok: "groups_ok (group_records rs) rs"
proof -
  have "groups_ok g as \<Longrightarrow> groups_ok (foldl (\<lambda>g r. group_push (rr_key r) r g) g bs) (as @ bs)" for g as bs
  proof (induction bs arbitrary: g as)
    case (Cons b bs)
    from Cons.IH [OF groups_ok_push [OF Cons.prems refl, of b]] show ?case by simp
  qed simp
  from this [of "[]" "[]" rs] show ?thesis
    by (simp add: group_records_def groups_ok_def group_of_def)
qed

text \<open>The records a zone signs: its own and the synthesised NSEC3PARAM.\<close>

definition signed_records :: "zone \<Rightarrow> nsec3_params option \<Rightarrow> rr list" where
  "signed_records z nsec3 = all_records z @ (case nsec3 of None \<Rightarrow> [] | Some p \<Rightarrow> [nsec3param_record z p])"

lemma zone_groups_ok: "groups_ok (zone_groups z nsec3) (signed_records z nsec3)"
proof (cases nsec3)
  case None
  then show ?thesis using group_records_ok by (simp add: zone_groups_def signed_records_def)
next
  case (Some p)
  have "groups_ok (group_push (z_origin z, TYPE_NSEC3PARAM) (nsec3param_record z p) (group_records (all_records z)))
      (all_records z @ [nsec3param_record z p])"
    by (rule groups_ok_push [OF group_records_ok]) (simp add: nsec3param_record_def rr_rtype_def)
  then show ?thesis by (simp add: zone_groups_def signed_records_def Some Let_def)
qed

lemma groups_okD:
  assumes "groups_ok g rs" "(k, l) \<in> set g"
  shows "l = filter (\<lambda>r. rr_key r = k) rs" "l \<noteq> []"
proof -
  have m: "map_of g k = Some l"
    using assms map_of_is_SomeI [of g k l] unfolding groups_ok_def by blast
  then have "group_of g k = l" by (simp add: group_of_def)
  with assms(1) show "l = filter (\<lambda>r. rr_key r = k) rs" unfolding groups_ok_def by blast
  show "l \<noteq> []" using assms(1) m unfolding groups_ok_def by blast
qed

lemma groups_keys:
  assumes "groups_ok g rs" shows "fst ` set g = rr_key ` set rs"
proof (intro equalityI subsetI)
  fix k
  assume "k \<in> fst ` set g"
  then obtain l where "(k, l) \<in> set g" by auto
  from groups_okD [OF assms this] show "k \<in> rr_key ` set rs"
    by (metis (mono_tags, lifting) filter_False image_eqI)
next
  fix k
  assume "k \<in> rr_key ` set rs"
  then have "group_of g k \<noteq> []"
    using assms unfolding groups_ok_def by (metis (mono_tags, lifting) filter_empty_conv imageE)
  then show "k \<in> fst ` set g"
    by (metis group_of_def map_of_eq_None_iff option.simps(4))
qed

section \<open>Every RRset is signed\<close>

text \<open>A key of the zone whose private operation matches its public half.\<close>

definition key_ok :: "crypto \<Rightarrow> dns_name \<Rightarrow> dnssec_key \<Rightarrow> bool" where
  "key_ok cr signer k \<longleftrightarrow> (\<exists>m a ksk p. k = finish_key m a ksk signer p \<and> (\<forall>d. verify_signature cr a p d (m d)))"

definition sig_ok :: "crypto \<Rightarrow> rr list \<Rightarrow> dnssec_key \<Rightarrow> rr \<Rightarrow> bool" where
  "sig_ok cr rrset k s \<longleftrightarrow>
     (\<exists>d. rr_rdata s = RD_Unknown TYPE_RRSIG d \<and> rr_name s = rr_name (hd rrset) \<and>
        (\<exists>f. parse_rrsig d = Some f \<and> sf_type_covered f = rr_rtype (hd rrset) \<and> sf_signer f = dk_signer k) \<and>
        verify_rrsig cr rrset d (key_rdata k))"

lemma sign_all_ok:
  assumes "rrset \<noteq> []" "\<forall>r \<in> set rrset. rr_key r = (owner, t)" "wf_name owner" "wf_name signer"
    "\<forall>k \<in> set keys. key_ok cr signer k"
  shows "\<exists>sigs. sign_all keys owner t rrset inc ex = Some sigs \<and> list_all2 (sig_ok cr rrset) keys sigs"
  using assms(5)
proof (induction keys)
  case Nil
  then show ?case by (simp add: sign_all_def)
next
  case (Cons k keys)
  obtain m a ksk p where k: "k = finish_key m a ksk signer p" "\<And>d. verify_signature cr a p d (m d)"
    using Cons.prems by (auto simp: key_ok_def)
  have "\<forall>r \<in> set rrset. rr_name r = owner" "rr_name (hd rrset) = owner" "rr_rtype (hd rrset) = t"
    using assms(1,2) by auto
  with sign_rrset_accepted [OF assms(1) this(1) assms(3,4) k(2) refl, of ksk t inc ex]
  obtain s where "sign_rrset k owner t rrset inc ex = Some s" "sig_ok cr rrset k s"
    by (auto simp: sig_ok_def k(1))
  with Cons show ?case by (auto simp: sign_all_def)
qed

lemma sign_groups_ok:
  assumes "wf_name signer" "\<forall>k \<in> set zsks. key_ok cr signer k"
    "\<forall>(k, l) \<in> set g. l \<noteq> [] \<and> (\<forall>r \<in> set l. rr_key r = k) \<and> wf_name (fst k)"
  shows "\<exists>sigs. sign_groups zsks g inc ex = Some sigs \<and>
    list_all2 (\<lambda>kl ks. fst ks = fst kl \<and> list_all2 (sig_ok cr (snd kl)) zsks (snd ks)) g sigs"
  using assms(3)
proof (induction g)
  case Nil
  then show ?case by (simp add: sign_groups_def)
next
  case (Cons kl g)
  obtain owner t l where kl: "kl = ((owner, t), l)" by (cases kl) auto
  have "\<exists>sigs. sign_all zsks owner t l inc ex = Some sigs \<and> list_all2 (sig_ok cr l) zsks sigs"
    using Cons.prems by (intro sign_all_ok [OF _ _ _ assms(1,2)]) (auto simp: kl)
  then obtain s where s: "sign_all zsks owner t l inc ex = Some s" "list_all2 (sig_ok cr l) zsks s" by blast
  obtain sigs where "sign_groups zsks g inc ex = Some sigs"
    "list_all2 (\<lambda>kl ks. fst ks = fst kl \<and> list_all2 (sig_ok cr (snd kl)) zsks (snd ks)) g sigs"
    using Cons by auto
  with s show ?case by (auto simp: sign_groups_def kl)
qed

lemma signed_groups_lookup:
  assumes "list_all2 (\<lambda>kl ks. fst ks = fst kl \<and> P (snd kl) (snd ks)) g sigs" "map_of g k = Some l"
  shows "\<exists>ss. map_of sigs k = Some ss \<and> P l ss"
  using assms
proof (induction g sigs rule: list_all2_induct)
  case (Cons x xs y ys)
  then show ?case by (cases x, cases y) (auto split: if_splits)
qed simp

section \<open>The order of owner names\<close>

lemma canonical_key_inj: "inj canonical_key"
  by (auto simp: inj_def canonical_key_def)

lemma sorted_remdups_adj_distinct: "sorted xs \<Longrightarrow> distinct (remdups_adj xs)"
proof (induction xs rule: remdups_adj.induct)
  case (3 x y xs)
  then show ?case by (auto simp: less_le dest: antisym)
qed simp_all

lemma sorted_remdups_adj': "sorted xs \<Longrightarrow> sorted (remdups_adj xs)"
  by (induction xs rule: remdups_adj.induct) auto

lemma zone_owners_sorted: "sorted_wrt (<) (map canonical_key (zone_owners g))"
proof -
  let ?xs = "sort_key canonical_key (map (\<lambda>kv. fst (fst kv)) g)"
  have "map canonical_key (zone_owners g) = remdups_adj (map canonical_key ?xs)"
    by (simp add: zone_owners_def remdups_adj_map_injective [OF canonical_key_inj])
  then show ?thesis
    by (simp add: strict_sorted_iff sorted_remdups_adj_distinct sorted_remdups_adj')
qed

lemma set_zone_owners: "set (zone_owners g) = (fst \<circ> fst) ` set g"
  by (auto simp: zone_owners_def)

lemma set_nsec_types:
  assumes "groups_ok g rs"
  shows "set (nsec_types g origin owner) =
    {rr_rtype r | r. r \<in> set rs \<and> rr_name r = owner} \<union> {TYPE_RRSIG, TYPE_NSEC} \<union> (if owner = origin then {TYPE_DNSKEY} else {})"
proof -
  have "set (map snd (filter (\<lambda>k. fst k = owner) (map fst g))) = snd ` {k \<in> fst ` set g. fst k = owner}" by auto
  also have "\<dots> = {rr_rtype r | r. r \<in> set rs \<and> rr_name r = owner}"
    unfolding groups_keys [OF assms] by force
  finally show ?thesis by (auto simp: nsec_types_def types_at_def)
qed

section \<open>The NSEC chain\<close>

text \<open>The chain of a list of owners: each entry names the next owner, the last one the first.\<close>

definition chain_ok :: "crypto \<Rightarrow> dnssec_key list \<Rightarrow> (dns_name \<Rightarrow> u16 list) \<Rightarrow> dns_name list \<Rightarrow> (dns_name \<times> rr \<times> rr list) list \<Rightarrow> bool" where
  "chain_ok cr zsks types owners chain \<longleftrightarrow> length chain = length owners \<and>
     (\<forall>i < length owners. \<exists>rec sigs. chain ! i = (owners ! i, rec, sigs) \<and> rr_name rec = owners ! i \<and>
        rr_rdata rec = RD_Unknown TYPE_NSEC (nsec_rdata (owners ! ((i + 1) mod length owners)) (types (owners ! i))) \<and>
        list_all2 (sig_ok cr [rec]) zsks sigs)"

lemma nsec_chain_ok:
  assumes "wf_name signer" "\<forall>k \<in> set zsks. key_ok cr signer k" "\<forall>n \<in> set (zone_owners g). wf_name n"
  shows "\<exists>chain. nsec_chain zsks g origin ttl inc ex = Some chain \<and>
    chain_ok cr zsks (nsec_types g origin) (zone_owners g) chain"
proof -
  let ?o = "zone_owners g"
  let ?rec = "\<lambda>i. nsec_record g origin ttl (?o ! i) (?o ! ((i + 1) mod length ?o))"
  let ?f = "\<lambda>i. map_option (\<lambda>sigs. (?o ! i, ?rec i, sigs)) (sign_all zsks (?o ! i) TYPE_NSEC [?rec i] inc ex)"
  have step: "\<exists>sigs. ?f i = Some (?o ! i, ?rec i, sigs) \<and> list_all2 (sig_ok cr [?rec i]) zsks sigs" if "i < length ?o" for i
  proof -
    have "\<exists>sigs. sign_all zsks (?o ! i) TYPE_NSEC [?rec i] inc ex = Some sigs \<and> list_all2 (sig_ok cr [?rec i]) zsks sigs"
      using that assms(3) by (intro sign_all_ok [OF _ _ _ assms(1,2)]) (auto simp: nsec_record_def rr_rtype_def)
    then show ?thesis by auto
  qed
  then obtain chain where c: "those (map ?f [0..<length ?o]) = Some chain"
    using those_map_total [of "[0..<length ?o]" ?f] by fastforce
  then have l: "list_all2 (\<lambda>i y. ?f i = Some y) [0..<length ?o] chain" by (simp only: those_map_Some)
  then have "length chain = length ?o" by (auto dest: list_all2_lengthD)
  moreover have f: "?f i = Some (chain ! i)" if "i < length ?o" for i
    using list_all2_nthD [OF l, of i] that by simp
  moreover have "\<exists>rec sigs. chain ! i = (?o ! i, rec, sigs) \<and> rr_name rec = ?o ! i \<and>
      rr_rdata rec = RD_Unknown TYPE_NSEC (nsec_rdata (?o ! ((i + 1) mod length ?o)) (nsec_types g origin (?o ! i))) \<and>
      list_all2 (sig_ok cr [rec]) zsks sigs" if i: "i < length ?o" for i
  proof -
    from step [OF i] f [OF i] obtain sigs where "chain ! i = (?o ! i, ?rec i, sigs)" "list_all2 (sig_ok cr [?rec i]) zsks sigs"
      by (metis option.inject)
    then show ?thesis by (intro exI [of _ "?rec i"] exI [of _ sigs]) (simp add: nsec_record_def)
  qed
  ultimately have "chain_ok cr zsks (nsec_types g origin) ?o chain"
    unfolding chain_ok_def by blast
  with c show ?thesis by (simp add: nsec_chain_def Let_def)
qed

text \<open>Which entry answers a name: around the circle, the owners before and after it.\<close>

definition circle_covers :: "'a::linorder \<Rightarrow> 'a \<Rightarrow> 'a \<Rightarrow> bool" where
  "circle_covers owner nxt target \<longleftrightarrow>
     (if owner < nxt then owner < target \<and> target < nxt else target > owner \<or> target < nxt)"

lemma circle_gap:
  fixes ks :: "'a::linorder list"
  assumes "sorted_wrt (<) ks" "i < length ks" "j < length ks" "i \<noteq> j"
  shows "\<not> circle_covers (ks ! i) (ks ! ((i + 1) mod length ks)) (ks ! j)"
proof -
  have lt: "ks ! a < ks ! b" if "a < b" "b < length ks" for a b
    using sorted_wrt_nth_less [OF assms(1) that] .
  show ?thesis
  proof (cases "i + 1 < length ks")
    case True
    then show ?thesis
      using lt [of i "i + 1"] lt [of j i] lt [of "i + 1" j] assms(2-4) lt [of i j]
      by (cases "j < i"; cases "j = i + 1") (auto simp: circle_covers_def)
  next
    case False
    then have i: "i + 1 = length ks" using assms(2) by simp
    have "ks ! 0 \<le> ks ! j" "ks ! j < ks ! i" "ks ! 0 < ks ! i"
      using lt [of 0 j] lt [of j i] lt [of 0 i] assms i by (cases "j = 0"; auto)+
    moreover have "(i + 1) mod length ks = 0" using i by simp
    ultimately show ?thesis unfolding circle_covers_def by auto
  qed
qed

lemma circle_found:
  fixes ks :: "'a::linorder list"
  assumes "sorted_wrt (<) ks" "ks \<noteq> []" "target \<notin> set ks"
  defines "below \<equiv> takeWhile (\<lambda>k. k \<le> target) ks"
  defines "i \<equiv> (if below = [] then length ks - 1 else length below - 1)"
  shows "i < length ks \<and> circle_covers (ks ! i) (ks ! ((i + 1) mod length ks)) target"
proof -
  have lt: "ks ! a < ks ! b" if "a < b" "b < length ks" for a b
    using sorted_wrt_nth_less [OF assms(1) that] .
  have len: "length below \<le> length ks" by (simp add: below_def length_takeWhile_le)
  have in_below: "ks ! a < target" if "a < length below" for a
    using that assms(3) len takeWhile_nth [of a "\<lambda>k. k \<le> target" ks] set_takeWhileD [of "ks ! a" "\<lambda>k. k \<le> target" ks]
    unfolding below_def by (metis less_le nth_mem order_less_le_trans)
  have after: "target < ks ! length below" if "length below < length ks"
    using nth_length_takeWhile [of "\<lambda>k. k \<le> target" ks] that by (simp add: below_def not_le)
  show ?thesis
  proof (cases "below = []")
    case True
    then have "target < ks ! 0" using after assms(2) by simp
    moreover have "\<not> ks ! (length ks - 1) < ks ! 0"
      using lt [of 0 "length ks - 1"] assms(2) by (cases "length ks - 1 = 0") auto
    ultimately show ?thesis using True assms(2) by (simp add: i_def circle_covers_def)
  next
    case False
    then have lb: "0 < length below" by simp
    show ?thesis
    proof (cases "length below < length ks")
      case True
      then show ?thesis
        using in_below [of "length below - 1"] after lb by (auto simp: i_def False circle_covers_def)
    next
      case f: False
      then have e: "length below = length ks" using len by simp
      have "\<not> ks ! (length ks - 1) < ks ! 0"
        using lt [of 0 "length ks - 1"] assms(2) by (cases "length ks - 1 = 0") auto
      then show ?thesis
        using in_below [of "length below - 1"] lb by (auto simp: i_def False circle_covers_def e)
    qed
  qed
qed

section \<open>The NSEC3 chain\<close>

text \<open>
  The owner of a hash in the zone.  It is a name the server can write and read
  again when the origin is not the root, has only plain bytes and leaves 33
  bytes for a label of 32 characters, the length of a SHA-1 hash in base32hex.
\<close>

definition hash_owner :: "bytes \<Rightarrow> dns_name \<Rightarrow> dns_name" where
  "hash_owner h origin = as_bytes (base32hex h) # origin"

definition nsec3_ready :: "crypto \<Rightarrow> dns_name \<Rightarrow> bool" where
  "nsec3_ready cr origin \<longleftrightarrow> origin \<noteq> [] \<and> list_all (list_all plain_byte) origin \<and>
     wire_len origin + 33 \<le> MAX_NAME_WIRE_LEN \<and> (\<forall>d. length (cr_sha1 cr d) = 20)"

lemma hash_name_length: "nsec3_ready cr origin \<Longrightarrow> length (hash_name cr n params) = 20"
proof -
  assume "nsec3_ready cr origin"
  then have "length (iterate_hash k (cr_sha1 cr) salt d) = 20" if "length d = 20" for k salt d
    using that by (induction k arbitrary: d) (simp_all add: nsec3_ready_def)
  then show ?thesis using \<open>nsec3_ready cr origin\<close> by (simp add: hash_name_def nsec3_ready_def)
qed

lemma b32_plain:
  assumes "c \<in> set b32_alphabet"
  shows "plain_byte (of_char c)" "to_lower (of_char c :: byte) = of_char c"
  using assms by (auto simp: b32_alphabet_def plain_byte_def to_lower_def)

lemma char_of_byte_back: "char_of (unat (of_char c :: byte)) = c"
proof -
  have "unat (of_char c :: byte) = unat (of_nat (of_char c) :: byte)" by (simp only: of_nat_of_char)
  also have "\<dots> = of_char c mod 256" by (simp only: unat_of_nat) simp
  finally show ?thesis by simp
qed

lemma parse_hash_owner:
  assumes "nsec3_ready cr origin" "wf_name origin" "length h = 20"
  shows "parse_str (base32hex h @ ''.'' @ display_name origin) = Inr (hash_owner h origin)" "wf_name (hash_owner h origin)"
proof -
  let ?l = "as_bytes (base32hex h)"
  have len: "length ?l = 32" using base32hex_chars(1) [of h] assms(3) by (simp add: as_bytes_def)
  have plain: "list_all plain_byte ?l" and lower: "lower_label ?l"
    using base32hex_chars(2) [of h] b32_plain by (auto simp: as_bytes_def list_all_iff lower_label_def intro!: map_idI)
  have "wf_label ?l" using len lower by (auto simp: wf_label_def)
  then show wf: "wf_name (hash_owner h origin)"
    using assms(1,2) len by (auto simp: wf_name_def hash_owner_def nsec3_ready_def wire_len_def)
  have "map (\<lambda>b. char_of (unat b)) ?l = base32hex h" by (simp add: as_bytes_def o_def char_of_byte_back)
  then have "display_name (hash_owner h origin) = base32hex h @ ''.'' @ display_name origin"
    using display_plain [OF plain] assms(1) by (simp add: display_name_def hash_owner_def nsec3_ready_def)
  then show "parse_str (base32hex h @ ''.'' @ display_name origin) = Inr (hash_owner h origin)"
    using parse_display [OF wf] assms(1) plain by (simp add: hash_owner_def nsec3_ready_def)
qed

lemma dedup_fst_keys: "map fst (dedup_fst xs) = remdups_adj (map fst xs)"
  by (induction xs rule: dedup_fst.induct) auto

lemma dedup_fst_subset: "set (dedup_fst xs) \<subseteq> set xs"
  by (induction xs rule: dedup_fst.induct) auto

lemma hashed_owners_sorted: "sorted_wrt (<) (map fst (hashed_owners cr ots params))"
  by (simp add: hashed_owners_def dedup_fst_keys strict_sorted_iff sorted_remdups_adj_distinct sorted_remdups_adj')

lemma set_hashed_owners: "fst ` set (hashed_owners cr ots params) = (\<lambda>(n, ts). hash_name cr n params) ` set ots"
proof -
  have "fst ` set (hashed_owners cr ots params) = set (map fst (hashed_owners cr ots params))" by simp
  then show ?thesis by (simp add: hashed_owners_def dedup_fst_keys image_image split_def)
qed

lemma hashed_ownersD:
  "(h, ts) \<in> set (hashed_owners cr ots params) \<Longrightarrow> \<exists>n. (n, ts) \<in> set ots \<and> h = hash_name cr n params"
  unfolding hashed_owners_def using dedup_fst_subset by fastforce

text \<open>
  The chain of the owners of a zone: strictly in the order of the hashes, one
  entry for every owner's hash, with the types of an owner that has this hash,
  naming the next hash, the last one the first, signed by every key.
\<close>

definition nsec3_types :: "groups \<Rightarrow> dns_name \<Rightarrow> dns_name \<Rightarrow> u16 list" where
  "nsec3_types g origin owner = remdups_adj (sort (types_at g origin owner))"

definition chain3_ok ::
  "crypto \<Rightarrow> dnssec_key list \<Rightarrow> (dns_name \<Rightarrow> u16 list) \<Rightarrow> dns_name \<Rightarrow> dns_name set \<Rightarrow> nsec3_params \<Rightarrow>
     (bytes \<times> rr \<times> rr list) list \<Rightarrow> bool" where
  "chain3_ok cr zsks types origin owners params chain \<longleftrightarrow>
     sorted_wrt (<) (map fst chain) \<and> fst ` set chain = (\<lambda>n. hash_name cr n params) ` owners \<and>
     (\<forall>i < length chain. \<exists>h rec sigs n. chain ! i = (h, rec, sigs) \<and> rr_name rec = hash_owner h origin \<and>
        n \<in> owners \<and> h = hash_name cr n params \<and>
        rr_rdata rec = RD_Unknown TYPE_NSEC3 (nsec3_rdata params (fst (chain ! ((i + 1) mod length chain))) (types n)) \<and>
        list_all2 (sig_ok cr [rec]) zsks sigs)"

lemma build_chain_ok:
  assumes "nsec3_ready cr origin" "wf_name origin" "\<forall>(h, ts) \<in> set hashed. length h = 20"
    "hashed = hashed_owners cr ots params"
  shows "build_chain cr origin ots params ttl = Some (map (\<lambda>i.
    \<lparr>nn_hash = fst (hashed ! i), nn_owner = hash_owner (fst (hashed ! i)) origin,
     nn_record = \<lparr>rr_name = hash_owner (fst (hashed ! i)) origin, rr_class = CLASS_IN, rr_ttl = ttl,
       rr_rdata = RD_Unknown TYPE_NSEC3 (nsec3_rdata params (fst (hashed ! ((i + 1) mod length hashed))) (snd (hashed ! i)))\<rparr>\<rparr>)
      [0..<length hashed])"
proof -
  have "parse_str (base32hex (fst (hashed ! i)) @ ''.'' @ display_name origin) = Inr (hash_owner (fst (hashed ! i)) origin)"
    if "i < length hashed" for i
    using parse_hash_owner(1) [OF assms(1,2)] assms(3) nth_mem [OF that] by (auto simp: split_def)
  then show ?thesis
    unfolding build_chain_def Let_def assms(4) [symmetric] those_map_Some
    by (simp add: list_all2_conv_all_nth split_def)
qed

lemma nsec3_chain_ok:
  assumes "wf_name signer" "\<forall>k \<in> set zsks. key_ok cr signer k" "nsec3_ready cr origin" "wf_name origin"
  shows "\<exists>chain. nsec3_chain cr zsks g origin params ttl inc ex = Some chain \<and>
    chain3_ok cr zsks (nsec3_types g origin) origin (set (zone_owners g)) params chain"
proof -
  let ?ots = "map (\<lambda>n. (n, nsec3_types g origin n)) (zone_owners g)"
  define hs where "hs = hashed_owners cr ?ots params"
  let ?n = "length hs"
  let ?rec = "\<lambda>i. \<lparr>rr_name = hash_owner (fst (hs ! i)) origin, rr_class = CLASS_IN, rr_ttl = ttl,
     rr_rdata = RD_Unknown TYPE_NSEC3 (nsec3_rdata params (fst (hs ! ((i + 1) mod ?n))) (snd (hs ! i)))\<rparr>"
  let ?f = "\<lambda>i. map_option (\<lambda>sigs. (fst (hs ! i), ?rec i, sigs))
     (sign_all zsks (hash_owner (fst (hs ! i)) origin) TYPE_NSEC3 [?rec i] inc ex)"
  have owner: "\<exists>n \<in> set (zone_owners g). fst (hs ! i) = hash_name cr n params \<and> snd (hs ! i) = nsec3_types g origin n"
    if "i < ?n" for i
    using hashed_ownersD [of "fst (hs ! i)" "snd (hs ! i)" cr ?ots params] nth_mem [OF that] by (auto simp: hs_def)
  have len: "\<forall>(h, ts) \<in> set hs. length h = 20"
    using hashed_ownersD [where ots = ?ots] hash_name_length [OF assms(3)] by (fastforce simp: hs_def)
  have step: "\<exists>sigs. ?f i = Some (fst (hs ! i), ?rec i, sigs) \<and> list_all2 (sig_ok cr [?rec i]) zsks sigs" if "i < ?n" for i
  proof -
    have "wf_name (hash_owner (fst (hs ! i)) origin)"
      using parse_hash_owner(2) [OF assms(3,4)] len nth_mem [OF that] by (auto simp: split_def)
    then have "\<exists>sigs. sign_all zsks (hash_owner (fst (hs ! i)) origin) TYPE_NSEC3 [?rec i] inc ex = Some sigs \<and>
        list_all2 (sig_ok cr [?rec i]) zsks sigs"
      by (intro sign_all_ok [OF _ _ _ assms(1,2)]) (auto simp: rr_rtype_def)
    then show ?thesis by auto
  qed
  then obtain chain where c: "those (map ?f [0..<?n]) = Some chain"
    using those_map_total [of "[0..<?n]" ?f] by fastforce
  then have l: "list_all2 (\<lambda>i y. ?f i = Some y) [0..<?n] chain" by (simp only: those_map_Some)
  then have n: "length chain = ?n" by (auto dest: list_all2_lengthD)
  have at: "\<exists>sigs. chain ! i = (fst (hs ! i), ?rec i, sigs) \<and> list_all2 (sig_ok cr [?rec i]) zsks sigs" if "i < ?n" for i
    using list_all2_nthD [OF l, of i] step [OF that] that by (auto simp del: map_option_eq_Some)
  then have fsts: "map fst chain = map fst hs" using n by (simp add: list_eq_iff_nth_eq) (metis fst_conv)
  have "fst ` set chain = (\<lambda>n. hash_name cr n params) ` set (zone_owners g)"
    using arg_cong [OF fsts, of set] set_hashed_owners [of cr ?ots params] by (simp add: hs_def image_image)
  moreover have "sorted_wrt (<) (map fst chain)" using hashed_owners_sorted fsts by (simp add: hs_def)
  moreover have "\<exists>h rec sigs m. chain ! i = (h, rec, sigs) \<and> rr_name rec = hash_owner h origin \<and>
      m \<in> set (zone_owners g) \<and> h = hash_name cr m params \<and>
      rr_rdata rec = RD_Unknown TYPE_NSEC3 (nsec3_rdata params (fst (chain ! ((i + 1) mod length chain))) (nsec3_types g origin m)) \<and>
      list_all2 (sig_ok cr [rec]) zsks sigs" if i: "i < length chain" for i
  proof -
    have "(i + 1) mod ?n < ?n" using i n by (intro mod_less_divisor) auto
    from at [OF this] have nxt: "fst (chain ! ((i + 1) mod ?n)) = fst (hs ! ((i + 1) mod ?n))" by auto
    from at [of i] owner [of i] i n obtain sigs m where
      "chain ! i = (fst (hs ! i), ?rec i, sigs)" "list_all2 (sig_ok cr [?rec i]) zsks sigs"
      "m \<in> set (zone_owners g)" "fst (hs ! i) = hash_name cr m params" "snd (hs ! i) = nsec3_types g origin m" by metis
    then show ?thesis using nxt n by (intro exI [of _ "fst (hs ! i)"] exI [of _ "?rec i"] exI [of _ sigs] exI [of _ m]) simp
  qed
  ultimately have "chain3_ok cr zsks (nsec3_types g origin) origin (set (zone_owners g)) params chain"
    unfolding chain3_ok_def by blast
  moreover have "nsec3_chain cr zsks g origin params ttl inc ex = Some chain"
    using build_chain_ok [OF assms(3,4) len hs_def, of ttl] c
    by (simp add: nsec3_chain_def nsec3_types_def Let_def o_def)
  ultimately show ?thesis by blast
qed

section \<open>Properties\<close>

lemma signing_keys_nonempty: "keys \<noteq> [] \<Longrightarrow> ksks_of keys \<noteq> [] \<and> zsks_of keys \<noteq> []"
  by (cases keys) (auto simp: ksks_of_def zsks_of_def filter_empty_conv list_ex_iff)

lemma signing_keys_subset: "set (ksks_of keys) \<subseteq> set keys" "set (zsks_of keys) \<subseteq> set keys"
  by (auto simp: ksks_of_def zsks_of_def)

lemma zone_owners_wf:
  assumes "\<forall>r \<in> set (signed_records z nsec3). wf_name (rr_name r)"
  shows "\<forall>n \<in> set (zone_owners (zone_groups z nsec3)). wf_name n"
  using assms groups_keys [OF zone_groups_ok [of z nsec3]] unfolding set_zone_owners image_comp [symmetric] by auto

lemma groups_sign_ready:
  assumes "groups_ok g rs" "\<forall>r \<in> set rs. wf_name (rr_name r)"
  shows "\<forall>(k, l) \<in> set g. l \<noteq> [] \<and> (\<forall>r \<in> set l. rr_key r = k) \<and> wf_name (fst k)"
proof clarify
  fix a b l
  assume "((a, b), l) \<in> set g"
  from groups_okD [OF assms(1) this] have l: "l = filter (\<lambda>r. rr_key r = (a, b)) rs" "l \<noteq> []" by auto
  then obtain r where "r \<in> set rs" "rr_key r = (a, b)" using hd_in_set [of l] by (metis (mono_tags, lifting) filter_is_subset mem_Collect_eq set_filter)
  with assms(2) l show "l \<noteq> [] \<and> (\<forall>r \<in> set l. rr_key r = (a, b)) \<and> wf_name (fst (a, b))" by auto
qed

lemma dnskey_set_ok:
  assumes "keys \<noteq> []" "\<forall>k \<in> set keys. key_ok cr signer k" "wf_name signer"
  shows "\<exists>sigs. sign_all (ksks_of keys) signer TYPE_DNSKEY (map (\<lambda>k. dnskey_record k ttl) keys) inc ex = Some sigs \<and>
    list_all2 (sig_ok cr (map (\<lambda>k. dnskey_record k ttl) keys)) (ksks_of keys) sigs"
  using assms signing_keys_subset(1) [of keys]
  by (intro sign_all_ok [where signer = signer]) (auto simp: dnskey_record_def rr_rtype_def key_ok_def subset_iff)

text \<open>The denial records of a signed zone, and what holds of every signed zone.\<close>

fun denial_ok :: "crypto \<Rightarrow> dnssec_key list \<Rightarrow> zone \<Rightarrow> nsec3_params option \<Rightarrow> denial \<Rightarrow> bool" where
  "denial_ok cr zsks z nsec3 (Denial_Nsec chain) \<longleftrightarrow> nsec3 = None \<and>
     chain_ok cr zsks (nsec_types (zone_groups z None) (z_origin z)) (zone_owners (zone_groups z None)) chain"
| "denial_ok cr zsks z nsec3 (Denial_Nsec3 params chain names) \<longleftrightarrow> nsec3 = Some params \<and>
     names = zone_owners (zone_groups z nsec3) \<and>
     chain3_ok cr zsks (nsec3_types (zone_groups z nsec3) (z_origin z)) (z_origin z) (set names) params chain"

lemma signed_records_wf:
  assumes "wf_name (z_origin z)" "\<forall>r \<in> set (all_records z). wf_name (rr_name r)"
  shows "\<forall>r \<in> set (signed_records z nsec3). wf_name (rr_name r)"
  using assms by (auto simp: signed_records_def nsec3param_record_def split: option.splits)

lemma sign_zone_ok:
  assumes "wf_name (z_origin z)" "\<forall>r \<in> set (all_records z). wf_name (rr_name r)"
    "\<forall>k \<in> set keys. key_ok cr (z_origin z) k" "keys \<noteq> []"
    "nsec3 = None \<or> nsec3_ready cr (z_origin z)"
  shows "\<exists>sz. sign_zone cr z keys now validity nsec3 = Some sz \<and> denial_ok cr (zsks_of keys) z nsec3 (sz_denial sz) \<and>
    (\<forall>r \<in> set (signed_records z nsec3).
       list_all2 (sig_ok cr (filter (\<lambda>r'. rr_key r' = rr_key r) (signed_records z nsec3))) (zsks_of keys)
         (rrsigs_for sz (rr_name r) (rr_rtype r))) \<and>
    sz_nsec3param sz = map_option (nsec3param_record z) nsec3 \<and>
    sz_dnskey_rrset sz = map (\<lambda>k. dnskey_record k (rr_ttl (z_soa z))) keys \<and>
    list_all2 (sig_ok cr (sz_dnskey_rrset sz)) (ksks_of keys) (sz_dnskey_rrsigs sz)"
proof -
  let ?g = "zone_groups z nsec3"
  let ?inc = "ucast (if now < 3600 then 0 else now - 3600) :: u32"
  let ?ex = "ucast (now + validity) :: u32"
  note ok = zone_groups_ok [of z nsec3]
  note wf = signed_records_wf [OF assms(1,2), of nsec3]
  have zk: "\<forall>k \<in> set (zsks_of keys). key_ok cr (z_origin z) k" using assms(3) signing_keys_subset(2) by blast
  obtain sigs where sigs: "sign_groups (zsks_of keys) ?g ?inc ?ex = Some sigs"
    "list_all2 (\<lambda>kl ks. fst ks = fst kl \<and> list_all2 (sig_ok cr (snd kl)) (zsks_of keys) (snd ks)) ?g sigs"
    using sign_groups_ok [OF assms(1) zk groups_sign_ready [OF ok wf]] by blast
  obtain denial where c: "denial_ok cr (zsks_of keys) z nsec3 denial" "(case nsec3 of
        None \<Rightarrow> map_option Denial_Nsec (nsec_chain (zsks_of keys) ?g (z_origin z) (rr_ttl (z_soa z)) ?inc ?ex)
      | Some params \<Rightarrow> map_option (\<lambda>nodes. Denial_Nsec3 params nodes (zone_owners ?g))
          (nsec3_chain cr (zsks_of keys) ?g (z_origin z) params (rr_ttl (z_soa z)) ?inc ?ex)) = Some denial"
  proof (cases nsec3)
    case None
    obtain chain where "nsec_chain (zsks_of keys) ?g (z_origin z) (rr_ttl (z_soa z)) ?inc ?ex = Some chain"
      "chain_ok cr (zsks_of keys) (nsec_types ?g (z_origin z)) (zone_owners ?g) chain"
      using nsec_chain_ok [OF assms(1) zk zone_owners_wf [OF wf]] by blast
    with None show ?thesis by (intro that [of "Denial_Nsec chain"]) simp_all
  next
    case (Some params)
    then have ready: "nsec3_ready cr (z_origin z)" using assms(5) by simp
    obtain chain where "nsec3_chain cr (zsks_of keys) ?g (z_origin z) params (rr_ttl (z_soa z)) ?inc ?ex = Some chain"
      "chain3_ok cr (zsks_of keys) (nsec3_types ?g (z_origin z)) (z_origin z) (set (zone_owners ?g)) params chain"
      using nsec3_chain_ok [OF assms(1) zk ready assms(1)] by blast
    with Some show ?thesis by (intro that [of "Denial_Nsec3 params chain (zone_owners ?g)"]) simp_all
  qed
  obtain dk where d: "sign_all (ksks_of keys) (z_origin z) TYPE_DNSKEY (map (\<lambda>k. dnskey_record k (rr_ttl (z_soa z))) keys) ?inc ?ex = Some dk"
    "list_all2 (sig_ok cr (map (\<lambda>k. dnskey_record k (rr_ttl (z_soa z))) keys)) (ksks_of keys) dk"
    using dnskey_set_ok [OF assms(4,3,1)] by blast
  have "list_all2 (sig_ok cr (filter (\<lambda>r'. rr_key r' = rr_key r) (signed_records z nsec3))) (zsks_of keys)
      (case map_of sigs (rr_key r) of Some rs \<Rightarrow> rs | None \<Rightarrow> [])" if "r \<in> set (signed_records z nsec3)" for r
  proof -
    have "rr_key r \<in> fst ` set ?g" using that groups_keys [OF ok] by blast
    then obtain l where l: "map_of ?g (rr_key r) = Some l"
      by (metis map_of_eq_None_iff not_Some_eq)
    from signed_groups_lookup [OF sigs(2) l] groups_okD(1) [OF ok map_of_SomeD [OF l]] show ?thesis by auto
  qed
  with sigs c d show ?thesis
    by (simp add: sign_zone_def Let_def rrsigs_for_def)
qed

lemma sign_zone_nsec:
  assumes "wf_name (z_origin z)" "\<forall>r \<in> set (all_records z). wf_name (rr_name r)"
    "\<forall>k \<in> set keys. key_ok cr (z_origin z) k" "keys \<noteq> []"
  shows "\<exists>sz chain. sign_zone cr z keys now validity None = Some sz \<and> sz_denial sz = Denial_Nsec chain \<and>
    chain_ok cr (zsks_of keys) (nsec_types (zone_groups z None) (z_origin z)) (zone_owners (zone_groups z None)) chain"
proof -
  obtain sz where sz: "sign_zone cr z keys now validity None = Some sz" "denial_ok cr (zsks_of keys) z None (sz_denial sz)"
    using sign_zone_ok [OF assms, of None] by blast
  then show ?thesis by (cases "sz_denial sz") auto
qed

text \<open>
  C26: Signing a zone leaves nothing unsigned, with NSEC as with NSEC3.  Take at
  least one key of the zone, each with a matching public half, and for NSEC3 an
  origin other than the root, of plain bytes, with 33 bytes left for a hash.
  Then \<open>SignedZone::sign\<close> does not panic.  Every record, the NSEC3PARAM too, has
  its RRset signed by every zone-signing key, each signature accepted by
  \<open>verify_rrsig\<close> with that key; the denial records form the closed chain over
  all owners (NSEC) or over the hashes of all owners (NSEC3), each with one
  accepted signature per zone-signing key; the DNSKEY set holds every key and is
  signed by every key-signing key; and there is at least one key in both roles.
\<close>
theorem signed_zone_complete:
  assumes "wf_name (z_origin z)" "\<forall>r \<in> set (all_records z). wf_name (rr_name r)"
    "\<forall>k \<in> set keys. key_ok cr (z_origin z) k" "keys \<noteq> []"
    "nsec3 = None \<or> nsec3_ready cr (z_origin z)"
  shows "\<exists>sz. sign_zone cr z keys now validity nsec3 = Some sz \<and> denial_ok cr (zsks_of keys) z nsec3 (sz_denial sz) \<and>
    (\<forall>r \<in> set (signed_records z nsec3).
       list_all2 (sig_ok cr (filter (\<lambda>r'. rr_key r' = rr_key r) (signed_records z nsec3))) (zsks_of keys)
         (rrsigs_for sz (rr_name r) (rr_rtype r))) \<and>
    sz_nsec3param sz = map_option (nsec3param_record z) nsec3 \<and>
    sz_dnskey_rrset sz = map (\<lambda>k. dnskey_record k (rr_ttl (z_soa z))) keys \<and>
    list_all2 (sig_ok cr (sz_dnskey_rrset sz)) (ksks_of keys) (sz_dnskey_rrsigs sz) \<and>
    ksks_of keys \<noteq> [] \<and> zsks_of keys \<noteq> []"
  using sign_zone_ok [OF assms] signing_keys_nonempty [OF assms(4)] by blast

definition sample_zone_key :: dnssec_key where
  "sample_zone_key = finish_key (\<lambda>d. 7 # d) ALG_ED25519 True [[101]] [7]"

lemma sample_zone_key_ok: "key_ok sample_crypto [[101]] sample_zone_key"
  using sample_signature unfolding key_ok_def sample_zone_key_def by blast

lemma sample_zone_records_wf: "\<forall>r \<in> set (all_records sample_zone). wf_name (rr_name r)"
  by (simp add: all_records_def sample_zone_def sample_defs wf_name_def wf_label_def lower_label_def to_lower_def)

theorem signed_zone_complete_witness:
  "\<exists>sz. sign_zone sample_crypto sample_zone [sample_zone_key] 1000000 86400 (Some \<lparr>n3_iterations = 2, n3_salt = [1]\<rparr>) = Some sz \<and>
    denial_ok sample_crypto (zsks_of [sample_zone_key]) sample_zone (Some \<lparr>n3_iterations = 2, n3_salt = [1]\<rparr>) (sz_denial sz) \<and>
    ksks_of [sample_zone_key] \<noteq> [] \<and> zsks_of [sample_zone_key] \<noteq> []"
proof -
  have "nsec3_ready sample_crypto (z_origin sample_zone)"
    by (simp add: nsec3_ready_def sample_crypto_def sample_zone_def plain_byte_def wire_len_def min_def)
  then show ?thesis
    using signed_zone_complete [of sample_zone "[sample_zone_key]" sample_crypto "Some \<lparr>n3_iterations = 2, n3_salt = [1]\<rparr>"]
      sample_zone_records_wf sample_zone_key_ok sample_zone_def [THEN arg_cong [of _ _ z_origin]] by fastforce
qed

text \<open>
  Signing the root zone with NSEC3 panics: \<open>build_chain\<close> parses the label and a
  dot followed by the text of the origin, which for the root is a dot again, and
  unwraps the error for the empty label.
\<close>
theorem nsec3_root_panics:
  assumes "z_origin z = root"
  shows "sign_zone cr z keys now validity (Some params) = None"
proof -
  let ?g = "zone_groups z (Some params)"
  have "(root, TYPE_NSEC3PARAM) \<in> fst ` set ?g"
    using groups_keys [OF zone_groups_ok [of z "Some params"]] assms
    by (force simp: signed_records_def nsec3param_record_def rr_rtype_def)
  then have "zone_owners ?g \<noteq> []" using set_zone_owners [of ?g] by fastforce
  let ?ots = "map (\<lambda>o'. (o', remdups_adj (sort (types_at ?g root o')))) (zone_owners ?g)"
  have "hashed_owners cr ?ots params \<noteq> []"
    using set_hashed_owners [of cr ?ots params] \<open>zone_owners ?g \<noteq> []\<close> by auto
  moreover have "\<exists>e. parse_str (base32hex h @ ''.'' @ display_name root) = Inl e" for h
  proof -
    have "CHR ''.'' \<notin> set (base32hex h)" using base32hex_chars(2) [of h] by (auto simp: b32_alphabet_def)
    then have "split_on CHR ''.'' (base32hex h @ ''.'') = [base32hex h, []]" using split_on_append [of "CHR ''.''" "base32hex h" "[]"] by simp
    moreover have "strip_suffix CHR ''.'' (base32hex h @ ''..'') = Some (base32hex h @ ''.'')"
      by (simp add: strip_suffix_def butlast_append)
    ultimately show ?thesis
      by (simp add: parse_str_def display_name_def root_def from_labels_def validate_def as_bytes_def)
  qed
  then have fails: "(case parse_str (base32hex h @ ''.'' @ display_name root) of Inl e \<Rightarrow> None | Inr n \<Rightarrow> f n) = None" for h and f :: "dns_name \<Rightarrow> nsec3_node option"
    by (metis sum.simps(5))
  ultimately have "build_chain cr root ?ots params ttl = None" for ttl
    unfolding build_chain_def Let_def split_def fails by (simp add: upt_rec)
  then show ?thesis using assms by (simp add: sign_zone_def Let_def nsec3_chain_def)
qed

end
