(* ===== verification/Validator.thy ===== *)
theory Validator
  imports Signed_Zone "HOL-Library.Char_ord" "HOL-Library.Product_Lexorder"
begin

text \<open>
  The validating resolver (\<open>dns-resolver/src/validator.rs\<close>): the chain of
  trust from the anchors to the signer of an RRset, the authentication of the
  sections of a response, and the denial proofs.

  The fetcher is an argument: \<open>fetch name qtype\<close> is the message it returns,
  \<open>None\<close> an error.  One validation asks for each name and type at most once
  (the DNSKEY results are memoised and the DS of a zone is asked for by the
  memoised step only), so a function of the question is enough.
\<close>

section \<open>Data\<close>

record trust_anchor =
  ta_zone :: dns_name
  ta_ds :: bytes

datatype security = Secure | Insecure | Bogus

datatype ds_result = DsSecure "bytes list" | DsInsecure | DsBogus

type_synonym fetcher = "dns_name \<Rightarrow> u16 \<Rightarrow> message option"

text \<open>Per-zone results: \<open>Some None\<close> is insecure, \<open>Some (Some [])\<close> bogus.\<close>

type_synonym key_memo = "dns_name \<Rightarrow> bytes list option option"

abbreviation (input) MAX_DEPTH :: nat where "MAX_DEPTH \<equiv> 20"
abbreviation (input) MAX_NSEC3_ITERATIONS :: u16 where "MAX_NSEC3_ITERATIONS \<equiv> 100"

section \<open>Denial proofs\<close>

definition nsec3_iterations_exceed :: "rr list \<Rightarrow> u16 \<Rightarrow> bool" where
  "nsec3_iterations_exceed records mx =
     list_ex (\<lambda>r. case rr_rdata r of
         RD_Unknown t d \<Rightarrow> length d \<ge> 4 \<and> from_be16 (d ! 2) (d ! 3) > mx
       | _ \<Rightarrow> False) (filter (\<lambda>r. rr_rtype r = TYPE_NSEC3) records)"

definition nsec_covers :: "dns_name \<Rightarrow> dns_name \<Rightarrow> dns_name \<Rightarrow> bool" where
  "nsec_covers owner nxt qname \<longleftrightarrow>
     (if canonical_key owner < canonical_key nxt
      then canonical_key owner < canonical_key qname \<and> canonical_key qname < canonical_key nxt
      else canonical_key qname > canonical_key owner \<or> canonical_key qname < canonical_key nxt)"

fun nsec_proves :: "dns_name \<Rightarrow> u16 \<Rightarrow> rr list \<Rightarrow> bool" where
  "nsec_proves qname qtype [] = False"
| "nsec_proves qname qtype (rec # recs) =
     (case rr_rdata rec of
        RD_Unknown t d \<Rightarrow>
          (case parse_nsec d of
             None \<Rightarrow> nsec_proves qname qtype recs
           | Some (nxt, types) \<Rightarrow>
               if rr_name rec = qname then
                 if qtype \<notin> set types then True else nsec_proves qname qtype recs
               else if nsec_covers (rr_name rec) nxt qname then True
               else nsec_proves qname qtype recs)
      | _ \<Rightarrow> nsec_proves qname qtype recs)"

text \<open>A label is UTF-8 text for the decoder only if it is base32hex, which is ASCII.\<close>

definition nsec3_owner_hash :: "dns_name \<Rightarrow> bytes option" where
  "nsec3_owner_hash name =
     (case name of [] \<Rightarrow> None | label # _ \<Rightarrow> base32hex_decode (map (\<lambda>b. char_of (unat b)) label))"

definition first_params :: "rr list \<Rightarrow> nsec3_params option" where
  "first_params nsec3 =
     (case List.map_filter (\<lambda>r. case rr_rdata r of
           RD_Unknown t d \<Rightarrow> map_option fst (parse_nsec3 d) | _ \<Rightarrow> None) nsec3 of
        [] \<Rightarrow> None | p # _ \<Rightarrow> Some p)"

definition nsec3_entry :: "rr \<Rightarrow> (bytes \<times> bytes) option" where
  "nsec3_entry r =
     (case nsec3_owner_hash (rr_name r) of
        None \<Rightarrow> None
      | Some owner \<Rightarrow>
          (case rr_rdata r of
             RD_Unknown t d \<Rightarrow> map_option (\<lambda>(p, nxt, ts). (owner, nxt)) (parse_nsec3 d)
           | _ \<Rightarrow> None))"

definition nsec3_proves :: "crypto \<Rightarrow> dns_name \<Rightarrow> rr list \<Rightarrow> bool" where
  "nsec3_proves cr qname nsec3 =
     (case first_params nsec3 of
        None \<Rightarrow> False
      | Some params \<Rightarrow>
          let entries = List.map_filter nsec3_entry nsec3;
              matches = (\<lambda>h. list_ex (\<lambda>(ow, nxt). ow = h) entries);
              covers = (\<lambda>h. list_ex (\<lambda>(ow, nxt). hash_covers ow nxt h) entries)
          in matches (hash_name cr qname params) \<or>
             list_ex (\<lambda>skip.
               case from_labels (drop skip qname) of
                 Inl _ \<Rightarrow> False
               | Inr ce \<Rightarrow>
                   matches (hash_name cr ce params) \<and>
                   (case from_labels (drop (skip - 1) qname) of
                      Inl _ \<Rightarrow> False
                    | Inr nc \<Rightarrow> covers (hash_name cr nc params))) [1..<length qname])"

definition denial_proven :: "crypto \<Rightarrow> message \<Rightarrow> bool" where
  "denial_proven cr msg =
     (case m_questions msg of
        [] \<Rightarrow> False
      | q # _ \<Rightarrow>
          let nsec3 = filter (\<lambda>r. rr_rtype r = TYPE_NSEC3) (m_authorities msg);
              nsec = filter (\<lambda>r. rr_rtype r = TYPE_NSEC) (m_authorities msg)
          in if nsec3 \<noteq> [] then nsec3_proves cr (q_name q) nsec3
             else if nsec \<noteq> [] then nsec_proves (q_name q) (q_type q) nsec
             else False)"

definition has_nsec :: "rr list \<Rightarrow> bool" where
  "has_nsec records = list_ex (\<lambda>r. rr_rtype r = TYPE_NSEC \<or> rr_rtype r = TYPE_NSEC3) records"

section \<open>Sections\<close>

definition unknown_data :: "rr \<Rightarrow> bytes option" where
  "unknown_data r = (case rr_rdata r of RD_Unknown t d \<Rightarrow> Some d | _ \<Rightarrow> None)"

definition data_of_type :: "u16 \<Rightarrow> rr list \<Rightarrow> bytes list" where
  "data_of_type t records = List.map_filter unknown_data (filter (\<lambda>r. rr_rtype r = t) records)"

definition section_sets :: "rr list \<Rightarrow> rrset_key list" where
  "section_sets records =
     remdups_adj (sort_key (\<lambda>(n, t). (display_name n, t)) (map (\<lambda>r. (rr_name r, rr_rtype r)) records))"

definition rrset_of :: "rr list \<Rightarrow> rrset_key \<Rightarrow> rr list" where
  "rrset_of records k = filter (\<lambda>r. rr_name r = fst k \<and> rr_rtype r = snd k) records"

definition sigs_of :: "rr list \<Rightarrow> rrset_key \<Rightarrow> bytes list" where
  "sigs_of records k =
     filter (\<lambda>d. map_option sf_type_covered (parse_rrsig d) = Some (snd k))
       (data_of_type TYPE_RRSIG (filter (\<lambda>r. rr_name r = fst k) records))"

definition authority_signed_by :: "crypto \<Rightarrow> rr list \<Rightarrow> bytes list \<Rightarrow> bool" where
  "authority_signed_by cr authority keys =
     (let sets = section_sets (filter (\<lambda>r. rr_rtype r = TYPE_NSEC \<or> rr_rtype r = TYPE_NSEC3) authority) in
      sets \<noteq> [] \<and>
      list_all (\<lambda>k. list_ex (\<lambda>sig. list_ex (verify_rrsig cr (rrset_of authority k) sig) keys) (sigs_of authority k)) sets)"

text \<open>The NSEC loop of \<open>authenticated_no_ds\<close>, then its NSEC3 loop.\<close>

definition nsec_no_ds :: "dns_name \<Rightarrow> rr \<Rightarrow> bool" where
  "nsec_no_ds zone r \<longleftrightarrow> rr_name r = zone \<and>
     (case unknown_data r of
        None \<Rightarrow> False
      | Some d \<Rightarrow>
          (case parse_nsec d of
             None \<Rightarrow> False
           | Some (nxt, types) \<Rightarrow> TYPE_NS \<in> set types \<and> TYPE_DS \<notin> set types))"

definition nsec3_no_ds :: "bytes \<Rightarrow> rr \<Rightarrow> bool" where
  "nsec3_no_ds want r \<longleftrightarrow>
     (case (nsec3_owner_hash (rr_name r), unknown_data r) of
        (Some ow, Some d) \<Rightarrow>
          (case parse_nsec3 d of
             None \<Rightarrow> False
           | Some (p, nxt, types) \<Rightarrow>
               (ow = want \<and> TYPE_NS \<in> set types \<and> TYPE_DS \<notin> set types) \<or>
               (case get_at d 1 of None \<Rightarrow> False | Some f \<Rightarrow> f AND 0x01 \<noteq> 0 \<and> hash_covers ow nxt want))
      | _ \<Rightarrow> False)"

definition authenticated_no_ds :: "crypto \<Rightarrow> dns_name \<Rightarrow> rr list \<Rightarrow> bool" where
  "authenticated_no_ds cr zone authority =
     (list_ex (nsec_no_ds zone) (filter (\<lambda>r. rr_rtype r = TYPE_NSEC) authority) \<or>
      (let nsec3 = filter (\<lambda>r. rr_rtype r = TYPE_NSEC3) authority in
       case first_params nsec3 of
         None \<Rightarrow> False
       | Some params \<Rightarrow> list_ex (nsec3_no_ds (hash_name cr zone params)) nsec3))"

section \<open>The chain of trust\<close>

text \<open>\<open>delegated_ds\<close> once the parent's keys are known.\<close>

definition delegated_ds :: "crypto \<Rightarrow> fetcher \<Rightarrow> dns_name \<Rightarrow> bytes list option \<Rightarrow> ds_result" where
  "delegated_ds cr fetch zone parent_keys =
     (case parent_keys of
        None \<Rightarrow> DsInsecure
      | Some keys \<Rightarrow>
          if keys = [] then DsBogus
          else
            (case fetch zone TYPE_DS of
               None \<Rightarrow> DsBogus
             | Some msg \<Rightarrow>
                 let ds_records = filter (\<lambda>r. rr_rtype r = TYPE_DS) (m_answers msg) in
                 if ds_records = [] then
                   if authority_signed_by cr (m_authorities msg) keys \<and> authenticated_no_ds cr zone (m_authorities msg)
                   then DsInsecure else DsBogus
                 else if list_ex (\<lambda>sig. list_ex (verify_rrsig cr ds_records sig) keys)
                           (data_of_type TYPE_RRSIG (m_answers msg))
                 then DsSecure (data_of_type TYPE_DS (m_answers msg))
                 else DsBogus))"

definition anchor_for :: "trust_anchor list \<Rightarrow> dns_name \<Rightarrow> trust_anchor option" where
  "anchor_for anchors zone = find (\<lambda>a. ta_zone a = zone) anchors"

text \<open>The end of \<open>dnskeys\<close>: the keys of the zone under the DS set that must vouch for one of them.\<close>

definition vouched_keys :: "crypto \<Rightarrow> dns_name \<Rightarrow> rr list \<Rightarrow> bytes list \<Rightarrow> bytes list" where
  "vouched_keys cr zone answers ds_set =
     (let dnskeys = data_of_type TYPE_DNSKEY answers;
          trusted = filter (\<lambda>k. list_ex (verify_ds cr zone k) ds_set) dnskeys;
          dnskey_records = filter (\<lambda>r. rr_rtype r = TYPE_DNSKEY) answers
      in if trusted = [] then []
         else if list_ex (\<lambda>sig. list_ex (verify_rrsig cr dnskey_records sig) trusted) (data_of_type TYPE_RRSIG answers)
         then dnskeys else [])"

definition settle_keys ::
  "crypto \<Rightarrow> dns_name \<Rightarrow> rr list \<Rightarrow> ds_result \<Rightarrow> key_memo \<Rightarrow> bytes list option \<times> key_memo" where
  "settle_keys cr zone answers ds memo =
     (case ds of
        DsInsecure \<Rightarrow> (None, memo(zone \<mapsto> None))
      | DsBogus \<Rightarrow> (Some [], memo(zone \<mapsto> Some []))
      | DsSecure ds_set \<Rightarrow>
          let result = vouched_keys cr zone answers ds_set
          in (Some result, memo(zone \<mapsto> Some result)))"

function dnskeys ::
  "crypto \<Rightarrow> fetcher \<Rightarrow> trust_anchor list \<Rightarrow> key_memo \<Rightarrow> dns_name \<Rightarrow> nat \<Rightarrow> bytes list option \<times> key_memo" where
  "dnskeys cr fetch anchors memo zone depth =
     (if depth > MAX_DEPTH then (None, memo)
      else case memo zone of
        Some cached \<Rightarrow> (cached, memo)
      | None \<Rightarrow>
          let memo1 = memo(zone \<mapsto> None) in
          (case fetch zone TYPE_DNSKEY of
             None \<Rightarrow> (None, memo1)
           | Some msg \<Rightarrow>
               if data_of_type TYPE_DNSKEY (m_answers msg) = [] then (None, memo1)
               else
                 let (ds, memo2) =
                   (case anchor_for anchors zone of
                      Some a \<Rightarrow> (DsSecure [ta_ds a], memo1)
                    | None \<Rightarrow>
                        (case parent zone of
                           None \<Rightarrow> (DsBogus, memo1)
                         | Some p \<Rightarrow>
                             let (pk, memo') = dnskeys cr fetch anchors memo1 p (depth + 1)
                             in (delegated_ds cr fetch zone pk, memo')))
                 in settle_keys cr zone (m_answers msg) ds memo2))"
  by pat_completeness auto
termination by (relation "measure (\<lambda>(cr, fetch, anchors, memo, zone, depth). 21 - depth)") auto

declare dnskeys.simps [simp del]

section \<open>Validation\<close>

text \<open>The signatures of one set, in order: whether it passed, whether securely, and the memo.\<close>

fun verify_sigs ::
  "crypto \<Rightarrow> fetcher \<Rightarrow> trust_anchor list \<Rightarrow> rr list \<Rightarrow> bytes list \<Rightarrow> key_memo \<Rightarrow> bool \<times> bool \<times> key_memo" where
  "verify_sigs cr fetch anchors rrset [] memo = (False, False, memo)"
| "verify_sigs cr fetch anchors rrset (sig # sigs) memo =
     (case parse_rrsig sig of
        None \<Rightarrow> verify_sigs cr fetch anchors rrset sigs memo
      | Some f \<Rightarrow>
          (case dnskeys cr fetch anchors memo (sf_signer f) 0 of
             (None, memo') \<Rightarrow> (True, False, memo')
           | (Some keys, memo') \<Rightarrow>
               if keys \<noteq> [] \<and> list_ex (verify_rrsig cr rrset sig) keys then (True, True, memo')
               else verify_sigs cr fetch anchors rrset sigs memo'))"

fun verify_sets ::
  "crypto \<Rightarrow> fetcher \<Rightarrow> trust_anchor list \<Rightarrow> rr list \<Rightarrow> rrset_key list \<Rightarrow> bool \<Rightarrow> key_memo \<Rightarrow> bool \<times> bool \<times> key_memo" where
  "verify_sets cr fetch anchors records [] any_secure memo = (any_secure, False, memo)"
| "verify_sets cr fetch anchors records (k # ks) any_secure memo =
     (let sigs = sigs_of records k in
      if sigs = [] then verify_sets cr fetch anchors records ks any_secure memo
      else
        (case verify_sigs cr fetch anchors (rrset_of records k) sigs memo of
           (verified, secure, memo') \<Rightarrow>
             if \<not> verified then (any_secure, True, memo')
             else verify_sets cr fetch anchors records ks (any_secure \<or> secure) memo'))"

definition verify_section ::
  "crypto \<Rightarrow> fetcher \<Rightarrow> trust_anchor list \<Rightarrow> rr list \<Rightarrow> key_memo \<Rightarrow> bool \<times> bool \<times> key_memo" where
  "verify_section cr fetch anchors records memo =
     verify_sets cr fetch anchors records
       (section_sets (filter (\<lambda>r. rr_rtype r \<noteq> TYPE_RRSIG) records)) False memo"

definition validate_msg :: "crypto \<Rightarrow> fetcher \<Rightarrow> trust_anchor list \<Rightarrow> message \<Rightarrow> security" where
  "validate_msg cr fetch anchors msg =
     (case verify_section cr fetch anchors (m_answers msg) Map.empty of
        (answer_secure, answer_bogus, memo) \<Rightarrow>
          if answer_bogus then Bogus
          else if nsec3_iterations_exceed (m_authorities msg) MAX_NSEC3_ITERATIONS then
            if answer_secure then Secure else Insecure
          else
            let is_denial = (list_all (\<lambda>r. rr_rtype r = TYPE_RRSIG) (m_answers msg) \<or>
                             fl_rcode (m_flags msg) = RCODE_NXDOMAIN)
            in if is_denial \<and> m_authorities msg \<noteq> [] then
                 (case verify_section cr fetch anchors (m_authorities msg) memo of
                    (auth_secure, auth_bogus, _) \<Rightarrow>
                      if auth_bogus then Bogus
                      else if auth_secure \<and> denial_proven cr msg then Secure
                      else if auth_secure \<and> has_nsec (m_authorities msg) then Bogus
                      else if answer_secure then Secure else Insecure)
               else if answer_secure then Secure else Insecure)"

section \<open>What the keys rest on\<close>

text \<open>
  A key set is authentic for a zone when it is the DNSKEY set the fetcher
  returned, one of its keys is vouched for by a DS digest and signs the whole
  set, and the DS digest is a trust anchor or comes from a DS set signed by
  an authentic key of the parent.
\<close>

definition entry_point :: "crypto \<Rightarrow> dns_name \<Rightarrow> rr list \<Rightarrow> bytes list \<Rightarrow> bytes \<Rightarrow> bool" where
  "entry_point cr zone answers ds_set k \<longleftrightarrow> k \<in> set (data_of_type TYPE_DNSKEY answers) \<and>
     (\<exists>ds \<in> set ds_set. verify_ds cr zone k ds) \<and>
     (\<exists>sig \<in> set (data_of_type TYPE_RRSIG answers).
        verify_rrsig cr (filter (\<lambda>r. rr_rtype r = TYPE_DNSKEY) answers) sig k)"

inductive authentic :: "crypto \<Rightarrow> fetcher \<Rightarrow> trust_anchor list \<Rightarrow> dns_name \<Rightarrow> bytes list \<Rightarrow> bool"
  for cr fetch anchors where
  anchored: "a \<in> set anchors \<Longrightarrow> ta_zone a = zone \<Longrightarrow> fetch zone TYPE_DNSKEY = Some msg \<Longrightarrow>
    entry_point cr zone (m_answers msg) [ta_ds a] k \<Longrightarrow>
    authentic cr fetch anchors zone (data_of_type TYPE_DNSKEY (m_answers msg))"
| delegated: "parent zone = Some p \<Longrightarrow> authentic cr fetch anchors p pkeys \<Longrightarrow>
    fetch zone TYPE_DS = Some ds_msg \<Longrightarrow>
    sig \<in> set (data_of_type TYPE_RRSIG (m_answers ds_msg)) \<Longrightarrow> pk \<in> set pkeys \<Longrightarrow>
    verify_rrsig cr (filter (\<lambda>r. rr_rtype r = TYPE_DS) (m_answers ds_msg)) sig pk \<Longrightarrow>
    fetch zone TYPE_DNSKEY = Some msg \<Longrightarrow>
    entry_point cr zone (m_answers msg) (data_of_type TYPE_DS (m_answers ds_msg)) k \<Longrightarrow>
    authentic cr fetch anchors zone (data_of_type TYPE_DNSKEY (m_answers msg))"

inductive_cases authenticE: "authentic cr fetch anchors zone keys"

definition memo_ok :: "crypto \<Rightarrow> fetcher \<Rightarrow> trust_anchor list \<Rightarrow> key_memo \<Rightarrow> bool" where
  "memo_ok cr fetch anchors memo \<longleftrightarrow>
     (\<forall>zone keys. memo zone = Some (Some keys) \<longrightarrow> keys \<noteq> [] \<longrightarrow> authentic cr fetch anchors zone keys)"

lemma memo_ok_empty [simp]: "memo_ok cr fetch anchors Map.empty"
  by (simp add: memo_ok_def)

lemma memo_ok_upd [inv_intros]:
  "memo_ok cr fetch anchors memo \<Longrightarrow> (\<And>keys. r = Some keys \<Longrightarrow> keys \<noteq> [] \<Longrightarrow> authentic cr fetch anchors zone keys) \<Longrightarrow>
     memo_ok cr fetch anchors (memo(zone \<mapsto> r))"
  by (auto simp: memo_ok_def)

lemma vouched_keys_entry:
  assumes "vouched_keys cr zone answers ds_set \<noteq> []"
  shows "\<exists>k. entry_point cr zone answers ds_set k \<and> vouched_keys cr zone answers ds_set = data_of_type TYPE_DNSKEY answers"
  using assms by (auto simp: vouched_keys_def entry_point_def Let_def list_ex_iff split: if_splits)

lemma delegated_ds_secure:
  assumes "delegated_ds cr fetch zone pk = DsSecure ds_set"
  shows "\<exists>keys msg sig k. pk = Some keys \<and> keys \<noteq> [] \<and> fetch zone TYPE_DS = Some msg \<and>
    sig \<in> set (data_of_type TYPE_RRSIG (m_answers msg)) \<and> k \<in> set keys \<and>
    verify_rrsig cr (filter (\<lambda>r. rr_rtype r = TYPE_DS) (m_answers msg)) sig k \<and>
    ds_set = data_of_type TYPE_DS (m_answers msg)"
  using assms by (auto simp: delegated_ds_def Let_def list_ex_iff split: option.splits if_splits)

lemma dnskeys_trivial:
  assumes "depth > MAX_DEPTH \<or> memo zone \<noteq> None \<or>
    (\<forall>msg. fetch zone TYPE_DNSKEY = Some msg \<longrightarrow> data_of_type TYPE_DNSKEY (m_answers msg) = [])"
  shows "dnskeys cr fetch anchors memo zone depth =
    (if depth > MAX_DEPTH then (None, memo)
     else case memo zone of Some cached \<Rightarrow> (cached, memo) | None \<Rightarrow> (None, memo(zone \<mapsto> None)))"
  using assms by (subst dnskeys.simps) (auto simp: Let_def split: option.splits)

lemma dnskeys_step:
  assumes "depth \<le> MAX_DEPTH" "memo zone = None" "fetch zone TYPE_DNSKEY = Some msg"
    "data_of_type TYPE_DNSKEY (m_answers msg) \<noteq> []"
  shows "dnskeys cr fetch anchors memo zone depth =
    (let (ds, memo2) =
       (case anchor_for anchors zone of
          Some a \<Rightarrow> (DsSecure [ta_ds a], memo(zone \<mapsto> None))
        | None \<Rightarrow>
            (case parent zone of
               None \<Rightarrow> (DsBogus, memo(zone \<mapsto> None))
             | Some p \<Rightarrow>
                 let (pk, memo') = dnskeys cr fetch anchors (memo(zone \<mapsto> None)) p (depth + 1)
                 in (delegated_ds cr fetch zone pk, memo')))
     in settle_keys cr zone (m_answers msg) ds memo2)"
  using assms by (subst dnskeys.simps) (simp add: Let_def)

lemma settle_keys_sound:
  assumes "settle_keys cr zone (m_answers msg) ds memo = (r, memo')" "memo_ok cr fetch anchors memo"
    "\<And>ds_set k. ds = DsSecure ds_set \<Longrightarrow> entry_point cr zone (m_answers msg) ds_set k \<Longrightarrow>
       authentic cr fetch anchors zone (data_of_type TYPE_DNSKEY (m_answers msg))"
  shows "memo_ok cr fetch anchors memo' \<and> (\<forall>keys. r = Some keys \<longrightarrow> keys \<noteq> [] \<longrightarrow> authentic cr fetch anchors zone keys)"
proof (cases ds)
  case (DsSecure ds_set)
  let ?v = "vouched_keys cr zone (m_answers msg) ds_set"
  have "authentic cr fetch anchors zone ?v" if "?v \<noteq> []"
    using vouched_keys_entry [OF that] assms(3) [OF DsSecure] by auto
  then show ?thesis using assms(1,2) by (auto simp: settle_keys_def DsSecure Let_def intro!: memo_ok_upd)
qed (use assms(1,2) in \<open>auto simp: settle_keys_def intro!: memo_ok_upd\<close>)

lemma dnskeys_sound:
  assumes "dnskeys cr fetch anchors memo zone depth = (r, memo')" "memo_ok cr fetch anchors memo"
  shows "memo_ok cr fetch anchors memo' \<and> (\<forall>keys. r = Some keys \<longrightarrow> keys \<noteq> [] \<longrightarrow> authentic cr fetch anchors zone keys)"
  using assms
proof (induction cr fetch anchors memo zone depth arbitrary: r memo' rule: dnskeys.induct)
  case (1 cr fetch anchors memo zone depth)
  show ?case
  proof (cases "depth > MAX_DEPTH \<or> memo zone \<noteq> None \<or>
      (\<forall>msg. fetch zone TYPE_DNSKEY = Some msg \<longrightarrow> data_of_type TYPE_DNSKEY (m_answers msg) = [])")
    case True
    with 1(2,3) show ?thesis
      by (auto simp: dnskeys_trivial memo_ok_def split: if_splits option.splits)
  next
    case False
    then obtain msg where hyps: "depth \<le> MAX_DEPTH" "memo zone = None" "fetch zone TYPE_DNSKEY = Some msg"
      "data_of_type TYPE_DNSKEY (m_answers msg) \<noteq> []" by (auto simp: not_less)
    note step = dnskeys_step [where memo = memo and zone = zone and fetch = fetch, OF hyps]
    have memo1: "memo_ok cr fetch anchors (memo(zone \<mapsto> None))" using 1(3) by (auto intro: inv_intros)
    show ?thesis
    proof (cases "anchor_for anchors zone")
      case (Some a)
      then have a: "a \<in> set anchors" "ta_zone a = zone"
        by (auto simp: anchor_for_def find_Some_iff)
      show ?thesis
        using 1(2) unfolding step Some
        by (intro settle_keys_sound [OF _ memo1, of zone msg "DsSecure [ta_ds a]"]) (auto intro: authentic.anchored [where fetch = fetch and zone = zone, OF a hyps(3)])
    next
      case None
      show ?thesis
      proof (cases "parent zone")
        case None': None
        show ?thesis
          using 1(2) unfolding step None None'
          by (intro settle_keys_sound [OF _ memo1, of zone msg DsBogus]) auto
      next
        case (Some p)
        obtain pk memo2 where rec: "dnskeys cr fetch anchors (memo(zone \<mapsto> None)) p (depth + 1) = (pk, memo2)"
          by fastforce
        have IH: "memo_ok cr fetch anchors memo2" "\<And>keys. pk = Some keys \<Longrightarrow> keys \<noteq> [] \<Longrightarrow> authentic cr fetch anchors p keys"
          using 1(1) [OF _ hyps(2) refl hyps(3,4) None Some rec memo1] hyps(1) by auto
        show ?thesis
          using 1(2) unfolding step None Some rec
          by (intro settle_keys_sound [OF _ IH(1), of zone msg "delegated_ds cr fetch zone pk"])
            (auto simp: rec [simplified] dest!: delegated_ds_secure intro: authentic.delegated [where fetch = fetch and zone = zone, OF Some IH(2) _ _ _ _ hyps(3)])
      qed
    qed
  qed
qed

section \<open>What a verified section rests on\<close>

text \<open>An RRset of a section that an authentic key of its signer signs.\<close>

definition authenticated_set :: "crypto \<Rightarrow> fetcher \<Rightarrow> trust_anchor list \<Rightarrow> rr list \<Rightarrow> rrset_key \<Rightarrow> bool" where
  "authenticated_set cr fetch anchors records k \<longleftrightarrow> rrset_of records k \<noteq> [] \<and>
     (\<exists>sig \<in> set (sigs_of records k). \<exists>f keys. \<exists>key \<in> set keys. parse_rrsig sig = Some f \<and>
        authentic cr fetch anchors (sf_signer f) keys \<and> verify_rrsig cr (rrset_of records k) sig key)"

lemma verify_sigs_sound:
  assumes "verify_sigs cr fetch anchors rrset sigs memo = (verified, secure, memo')" "memo_ok cr fetch anchors memo"
  shows "memo_ok cr fetch anchors memo' \<and>
    (secure \<longrightarrow> verified \<and> (\<exists>sig \<in> set sigs. \<exists>f keys. \<exists>key \<in> set keys. parse_rrsig sig = Some f \<and>
       authentic cr fetch anchors (sf_signer f) keys \<and> verify_rrsig cr rrset sig key))"
  using assms
proof (induction sigs arbitrary: memo)
  case (Cons sig sigs)
  show ?case
  proof (cases "parse_rrsig sig")
    case None
    with Cons.prems Cons.IH [of memo] show ?thesis by auto
  next
    case (Some f)
    obtain r memo1 where d: "dnskeys cr fetch anchors memo (sf_signer f) 0 = (r, memo1)" by fastforce
    note s = dnskeys_sound [OF d Cons.prems(2)]
    show ?thesis
    proof (cases "\<exists>keys. r = Some keys \<and> \<not> (keys \<noteq> [] \<and> list_ex (verify_rrsig cr rrset sig) keys)")
      case True
      then have "verify_sigs cr fetch anchors rrset sigs memo1 = (verified, secure, memo')"
        using Cons.prems(1) by (auto simp: Some d)
      with Cons.IH [of memo1] s show ?thesis by auto
    next
      case False
      with Cons.prems(1) s show ?thesis
        by (cases r) (auto simp: Some d list_ex_iff split: if_splits)
    qed
  qed
qed simp

lemma verify_sets_sound:
  assumes "verify_sets cr fetch anchors records ks any memo = (secure, bogus, memo')" "memo_ok cr fetch anchors memo"
    "\<forall>k \<in> set ks. rrset_of records k \<noteq> []"
  shows "memo_ok cr fetch anchors memo' \<and>
    (secure \<longrightarrow> any \<or> (\<exists>k \<in> set ks. authenticated_set cr fetch anchors records k))"
  using assms
proof (induction ks arbitrary: any memo)
  case (Cons k ks)
  show ?case
  proof (cases "sigs_of records k = []")
    case True
    with Cons.prems Cons.IH [of any memo] show ?thesis by auto
  next
    case False
    obtain verified sec memo1 where v: "verify_sigs cr fetch anchors (rrset_of records k) (sigs_of records k) memo = (verified, sec, memo1)"
      by (metis prod_cases3)
    note s = verify_sigs_sound [OF v Cons.prems(2)]
    have sec: "sec \<Longrightarrow> authenticated_set cr fetch anchors records k"
      using s Cons.prems(3) by (auto simp: authenticated_set_def)
    show ?thesis
    proof (cases verified)
      case True
      then have "verify_sets cr fetch anchors records ks (any \<or> sec) memo1 = (secure, bogus, memo')"
        using Cons.prems(1) False by (simp add: v)
      with Cons.IH [of "any \<or> sec" memo1] s sec Cons.prems(3) show ?thesis by auto
    next
      case f: False
      then show ?thesis using Cons.prems(1) False s by (simp add: v)
    qed
  qed
qed simp

lemma section_sets_set: "set (section_sets records) = (\<lambda>r. (rr_name r, rr_rtype r)) ` set records"
  by (simp add: section_sets_def)

lemma verify_section_sound:
  assumes "verify_section cr fetch anchors records memo = (secure, bogus, memo')" "memo_ok cr fetch anchors memo"
  shows "memo_ok cr fetch anchors memo' \<and> (secure \<longrightarrow> (\<exists>k. snd k \<noteq> TYPE_RRSIG \<and> authenticated_set cr fetch anchors records k))"
proof -
  let ?ks = "section_sets (filter (\<lambda>r. rr_rtype r \<noteq> TYPE_RRSIG) records)"
  have "\<forall>k \<in> set ?ks. rrset_of records k \<noteq> [] \<and> snd k \<noteq> TYPE_RRSIG"
    by (auto simp: section_sets_set rrset_of_def filter_empty_conv)
  then show ?thesis
    using verify_sets_sound [of cr fetch anchors records ?ks False memo secure bogus memo'] assms
    unfolding verify_section_def by blast
qed

section \<open>NSEC: signer and validator agree\<close>

lemma nsec_covers_circle: "nsec_covers owner nxt qname \<longleftrightarrow> circle_covers (canonical_key owner) (canonical_key nxt) (canonical_key qname)"
  by (simp add: nsec_covers_def circle_covers_def)

text \<open>The single record of a chain entry, as the validator reads it.\<close>

lemma nsec_proves_entry:
  assumes "rr_rdata rec = RD_Unknown t (nsec_rdata nxt types)" "wf_name nxt" "\<forall>t \<in> set types. t < 2040"
  shows "nsec_proves qname qtype [rec] \<longleftrightarrow>
    (if rr_name rec = qname then qtype \<notin> set types else nsec_covers (rr_name rec) nxt qname)"
  using parse_nsec_rdata [OF assms(2,3)] assms(1) by auto

text \<open>A ring of owners: the chain of the owners in canonical order, with well-formed names and small types.\<close>

definition ring_ok ::
  "crypto \<Rightarrow> dnssec_key list \<Rightarrow> (dns_name \<Rightarrow> u16 list) \<Rightarrow> dns_name list \<Rightarrow> (dns_name \<times> rr \<times> rr list) list \<Rightarrow> bool" where
  "ring_ok cr zsks types owners chain \<longleftrightarrow> chain_ok cr zsks types owners chain \<and>
     sorted_wrt (<) (map canonical_key owners) \<and> owners \<noteq> [] \<and> (\<forall>n \<in> set owners. wf_name n) \<and>
     (\<forall>n \<in> set owners. \<forall>t \<in> set (types n). t < 2040)"

lemma ring_okD:
  assumes "ring_ok cr zsks types owners chain"
  shows "chain_ok cr zsks types owners chain" "sorted_wrt (<) (map canonical_key owners)" "owners \<noteq> []"
    "\<forall>n \<in> set owners. wf_name n" "\<forall>n \<in> set owners. \<forall>t \<in> set (types n). t < 2040"
  using assms by (simp_all add: ring_ok_def)

lemma ring_entry:
  assumes ring: "ring_ok cr zsks types owners chain" and i: "i < length owners"
  obtains rec sigs where "chain ! i = (owners ! i, rec, sigs)" "rr_name rec = owners ! i"
    "\<And>qname qtype. nsec_proves qname qtype [rec] \<longleftrightarrow>
       (if owners ! i = qname then qtype \<notin> set (types qname)
        else circle_covers (canonical_key (owners ! i)) (canonical_key (owners ! ((i + 1) mod length owners)))
               (canonical_key qname))"
    "list_all2 (sig_ok cr [rec]) zsks sigs"
proof -
  obtain rec sigs where e: "chain ! i = (owners ! i, rec, sigs)" "rr_name rec = owners ! i"
    "rr_rdata rec = RD_Unknown TYPE_NSEC (nsec_rdata (owners ! ((i + 1) mod length owners)) (types (owners ! i)))"
    "list_all2 (sig_ok cr [rec]) zsks sigs"
    using ring_okD(1) [OF ring] i by (auto simp: chain_ok_def)
  have "owners ! ((i + 1) mod length owners) \<in> set owners"
    using ring_okD(3) [OF ring] by (intro nth_mem mod_less_divisor) auto
  then have "wf_name (owners ! ((i + 1) mod length owners))" "\<forall>t \<in> set (types (owners ! i)). t < 2040"
    using ring_okD(4,5) [OF ring] i by auto
  from nsec_proves_entry [OF e(3) this] show thesis
    using e by (intro that [OF e(1,2) _ e(4)]) (auto simp: nsec_covers_circle)
qed

lemma ring_length: "ring_ok cr zsks types owners chain \<Longrightarrow> length chain = length owners"
  by (simp add: ring_ok_def chain_ok_def)

lemma ring_fst:
  assumes ring: "ring_ok cr zsks types owners chain"
  shows "map fst chain = owners"
proof (rule nth_equalityI)
  fix i
  assume "i < length (map fst chain)"
  then have "i < length owners" by (simp add: ring_length [OF ring])
  with ring_entry [OF ring this] show "map fst chain ! i = owners ! i" by (metis fst_conv ring_length [OF ring] nth_map)
qed (simp add: ring_length [OF ring])

lemma canonical_key_mem: "canonical_key n \<in> canonical_key ` set owners \<longleftrightarrow> n \<in> set owners"
  by (simp add: inj_image_mem_iff [OF canonical_key_inj])

text \<open>A name that does not exist is denied by a record the validator accepts.\<close>

lemma absent_name_denied:
  assumes ring: "ring_ok cr zsks types owners chain" and absent: "qname \<notin> set owners"
  shows "\<exists>rec sigs. nsec_denial chain qname nxdomain = rec # sigs \<and> list_all2 (sig_ok cr [rec]) zsks sigs \<and>
    nsec_proves qname qtype [rec]"
proof -
  let ?ks = "map canonical_key owners"
  let ?t = "canonical_key qname"
  let ?b = "takeWhile (\<lambda>e. canonical_key (fst e) \<le> ?t) chain"
  define i where "i = (if takeWhile (\<lambda>k. k \<le> ?t) ?ks = [] then length ?ks - 1 else length (takeWhile (\<lambda>k. k \<le> ?t) ?ks) - 1)"
  have ks: "?ks = map (\<lambda>e. canonical_key (fst e)) chain" by (simp flip: ring_fst [OF ring])
  have b: "takeWhile (\<lambda>k. k \<le> ?t) ?ks = map (\<lambda>e. canonical_key (fst e)) ?b"
    unfolding ks by (simp add: takeWhile_map comp_def)
  have "?ks \<noteq> []" "?t \<notin> set ?ks" using ring_okD(3) [OF ring] absent canonical_key_mem [of qname] by simp_all
  then have found: "i < length owners" "circle_covers (?ks ! i) (?ks ! ((i + 1) mod length ?ks)) ?t"
    using circle_found [OF ring_okD(2) [OF ring], of ?t] unfolding i_def by auto
  have pick: "(if ?b \<noteq> [] then last ?b else last chain) = chain ! i"
  proof (cases "?b = []")
    case True
    moreover have "chain \<noteq> []" using ring_okD(3) [OF ring] ring_length [OF ring] by auto
    ultimately show ?thesis using ring_length [OF ring] by (simp add: i_def b last_conv_nth)
  next
    case False
    then have "last ?b = ?b ! (length ?b - 1)" by (simp add: last_conv_nth)
    also have "\<dots> = chain ! (length ?b - 1)" using False by (intro takeWhile_nth) simp
    finally show ?thesis using False by (simp add: b i_def)
  qed
  obtain rec sigs where e: "chain ! i = (owners ! i, rec, sigs)" "rr_name rec = owners ! i"
    "\<And>qname qtype. nsec_proves qname qtype [rec] \<longleftrightarrow>
       (if owners ! i = qname then qtype \<notin> set (types qname)
        else circle_covers (canonical_key (owners ! i)) (canonical_key (owners ! ((i + 1) mod length owners)))
               (canonical_key qname))"
    "list_all2 (sig_ok cr [rec]) zsks sigs"
    using ring_entry [OF ring found(1)] by metis
  have "owners ! i \<noteq> qname" using absent found(1) by auto
  moreover have "(i + 1) mod length owners < length owners" using ring_okD(3) [OF ring] by simp
  ultimately have "nsec_proves qname qtype [rec]"
    using found unfolding e(3) by simp
  moreover have "find (\<lambda>e. fst e = qname) chain = None"
    using absent by (force simp: find_None_iff simp flip: ring_fst [OF ring])
  then have "nsec_denial chain qname nxdomain = rec # sigs"
    using pick e(1) ring_okD(3) [OF ring] ring_length [OF ring] by (auto simp: nsec_denial_def Let_def split: if_splits)
  ultimately show ?thesis using e(4) by blast
qed

text \<open>A type that does not exist at an existing name is denied too.\<close>

lemma absent_type_denied:
  assumes ring: "ring_ok cr zsks types owners chain" and q: "qname \<in> set owners" "qtype \<notin> set (types qname)"
  shows "\<exists>rec sigs. nsec_denial chain qname False = rec # sigs \<and> list_all2 (sig_ok cr [rec]) zsks sigs \<and>
    nsec_proves qname qtype [rec]"
proof -
  have "\<exists>e \<in> set chain. fst e = qname"
  proof -
    obtain i where i: "i < length owners" "owners ! i = qname" using q(1) by (auto simp: in_set_conv_nth)
    then show ?thesis using ring_entry [OF ring i(1)] ring_length [OF ring] by (metis fst_conv nth_mem)
  qed
  then obtain e where f: "find (\<lambda>e. fst e = qname) chain = Some e"
    by (metis (mono_tags, lifting) find_None_iff not_Some_eq)
  then obtain i where i: "i < length owners" "chain ! i = e" "fst e = qname"
    using ring_length [OF ring] by (auto simp: find_Some_iff)
  obtain rec sigs where e: "chain ! i = (owners ! i, rec, sigs)"
    "nsec_proves qname qtype [rec] \<longleftrightarrow>
       (if owners ! i = qname then qtype \<notin> set (types qname)
        else circle_covers (canonical_key (owners ! i)) (canonical_key (owners ! ((i + 1) mod length owners)))
               (canonical_key qname))"
    "list_all2 (sig_ok cr [rec]) zsks sigs"
    using ring_entry [OF ring i(1)] by metis
  then show ?thesis using f i q(2) by (auto simp: nsec_denial_def)
qed

text \<open>No record of the chain denies what exists.\<close>

lemma existing_not_denied:
  assumes ring: "ring_ok cr zsks types owners chain" and e: "n \<in> set owners" "t \<in> set (types n)" "e \<in> set chain"
  shows "\<not> nsec_proves n t [fst (snd e)]"
proof -
  obtain i j where i: "i < length owners" "chain ! i = e" and j: "j < length owners" "owners ! j = n"
    using e(1,3) ring_length [OF ring] by (metis in_set_conv_nth)
  obtain rec sigs where c: "chain ! i = (owners ! i, rec, sigs)"
    "nsec_proves n t [rec] \<longleftrightarrow>
       (if owners ! i = n then t \<notin> set (types n)
        else circle_covers (canonical_key (owners ! i)) (canonical_key (owners ! ((i + 1) mod length owners)))
               (canonical_key n))"
    using ring_entry [OF ring i(1)] by metis
  have "\<not> circle_covers (canonical_key (owners ! i)) (canonical_key (owners ! ((i + 1) mod length owners))) (canonical_key n)"
    if "owners ! i \<noteq> n"
  proof -
    have "i \<noteq> j" using that j by auto
    moreover have "(i + 1) mod length owners < length owners" using ring_okD(3) [OF ring] by (intro mod_less_divisor) simp
    ultimately show ?thesis
      using circle_gap [OF ring_okD(2) [OF ring], of i j] i(1) j by simp
  qed
  then show ?thesis using c i(2) e(2) by auto
qed

section \<open>Properties\<close>

lemma zone_ring:
  assumes "chain_ok cr zsks (nsec_types (zone_groups z None) (z_origin z)) (zone_owners (zone_groups z None)) chain"
    "\<forall>r \<in> set (all_records z). wf_name (rr_name r) \<and> rr_rtype r < 2040"
  shows "ring_ok cr zsks (nsec_types (zone_groups z None) (z_origin z)) (zone_owners (zone_groups z None)) chain"
    "set (zone_owners (zone_groups z None)) = rr_name ` set (all_records z)"
    "set (nsec_types (zone_groups z None) (z_origin z) n) =
      {rr_rtype r | r. r \<in> set (all_records z) \<and> rr_name r = n} \<union> {TYPE_RRSIG, TYPE_NSEC} \<union>
      (if n = z_origin z then {TYPE_DNSKEY} else {})"
proof -
  let ?g = "zone_groups z None"
  have rs: "signed_records z None = all_records z" by (simp add: signed_records_def)
  note ok = zone_groups_ok [of z None, unfolded rs]
  show owners: "set (zone_owners ?g) = rr_name ` set (all_records z)"
    unfolding set_zone_owners image_comp [symmetric] groups_keys [OF ok] by (simp add: image_image)
  have types: "set (nsec_types ?g (z_origin z) n) =
      {rr_rtype r | r. r \<in> set (all_records z) \<and> rr_name r = n} \<union> {TYPE_RRSIG, TYPE_NSEC} \<union>
      (if n = z_origin z then {TYPE_DNSKEY} else {})" for n
    by (rule set_nsec_types [OF ok])
  then show "set (nsec_types ?g (z_origin z) n) =
      {rr_rtype r | r. r \<in> set (all_records z) \<and> rr_name r = n} \<union> {TYPE_RRSIG, TYPE_NSEC} \<union>
      (if n = z_origin z then {TYPE_DNSKEY} else {})" .
  have "zone_owners ?g \<noteq> []" using owners by (auto simp: all_records_def)
  then show "ring_ok cr zsks (nsec_types ?g (z_origin z)) (zone_owners ?g) chain"
    using assms zone_owners_sorted [of ?g] unfolding ring_ok_def types owners by auto
qed

lemma nsec_denial_in_chain:
  assumes "chain \<noteq> []"
  shows "\<exists>e \<in> set chain. nsec_denial chain qname nx = fst (snd e) # snd (snd e)"
proof -
  let ?b = "takeWhile (\<lambda>e. canonical_key (fst e) \<le> canonical_key qname) chain"
  have "last ?b \<in> set chain" if "?b \<noteq> []" using last_in_set [OF that] by (rule set_takeWhileD [THEN conjunct1])
  moreover have "e \<in> set chain" if "find (\<lambda>e. fst e = qname) chain = Some e" for e
    using that by (auto simp: find_Some_iff)
  moreover have "(\<lambda>(n, rec, sigs). rec # sigs) e = fst (snd e) # snd (snd e)" for e :: "dns_name \<times> rr \<times> rr list"
    by (cases e) simp
  ultimately show ?thesis
    unfolding nsec_denial_def Let_def using assms last_in_set [OF assms] by (metis (no_types, lifting) option.collapse)
qed

text \<open>
  C24: The signer's NSEC proofs and the validator agree.  In a zone signed with
  NSEC (whose types are below 2040), for every name with no records the denial
  records are an NSEC record with one valid signature per zone-signing key,
  which the validator's \<open>nsec_proves\<close> accepts as proof for that name and any
  type; the same holds for an existing name and a type it does not have; and no
  denial the zone ever hands out proves an existing record absent.
\<close>
theorem nsec_denial_agreement:
  assumes "wf_name (z_origin z)" "\<forall>r \<in> set (all_records z). wf_name (rr_name r) \<and> rr_rtype r < 2040"
    "\<forall>k \<in> set keys. key_ok cr (z_origin z) k" "keys \<noteq> []"
  shows "\<exists>sz. sign_zone cr z keys now validity None = Some sz \<and>
    (\<forall>qname qtype nx. qname \<notin> rr_name ` set (all_records z) \<longrightarrow>
       (\<exists>rec sigs. denial_records cr sz qname nx = Some (rec # sigs) \<and> list_all2 (sig_ok cr [rec]) (zsks_of keys) sigs \<and>
          nsec_proves qname qtype [rec])) \<and>
    (\<forall>qname qtype. qname \<in> rr_name ` set (all_records z) \<longrightarrow> qtype \<notin> {TYPE_RRSIG, TYPE_NSEC, TYPE_DNSKEY} \<longrightarrow>
       (\<forall>r \<in> set (all_records z). rr_name r = qname \<longrightarrow> rr_rtype r \<noteq> qtype) \<longrightarrow>
       (\<exists>rec sigs. denial_records cr sz qname False = Some (rec # sigs) \<and> list_all2 (sig_ok cr [rec]) (zsks_of keys) sigs \<and>
          nsec_proves qname qtype [rec])) \<and>
    (\<forall>qname nx recs. \<forall>r \<in> set (all_records z). denial_records cr sz qname nx = Some recs \<longrightarrow>
       \<not> nsec_proves (rr_name r) (rr_rtype r) [hd recs])"
proof -
  let ?g = "zone_groups z None"
  let ?types = "nsec_types ?g (z_origin z)"
  obtain sz chain where sz: "sign_zone cr z keys now validity None = Some sz" "sz_denial sz = Denial_Nsec chain"
    and c: "chain_ok cr (zsks_of keys) ?types (zone_owners ?g) chain"
    using sign_zone_nsec [OF assms(1) _ assms(3,4)] assms(2) by blast
  note ring = zone_ring(1) [OF c assms(2)]
  note owners = zone_ring(2) [OF c assms(2)]
  note types = zone_ring(3) [OF c assms(2)]
  have d: "denial_records cr sz qname nx = Some (nsec_denial chain qname nx)" for qname nx
    by (simp add: denial_records_def sz)
  have ne: "chain \<noteq> []" using ring_okD(3) [OF ring] ring_length [OF ring] by auto
  have sound: "\<not> nsec_proves (rr_name r) (rr_rtype r) [hd (nsec_denial chain qname nx)]" if "r \<in> set (all_records z)" for qname nx r
  proof -
    obtain e where "e \<in> set chain" "nsec_denial chain qname nx = fst (snd e) # snd (snd e)"
      using nsec_denial_in_chain [OF ne] by blast
    moreover have "rr_name r \<in> set (zone_owners ?g)" "rr_rtype r \<in> set (?types (rr_name r))"
      using that owners types by auto
    ultimately show ?thesis using existing_not_denied [OF ring] by simp
  qed
  have nodata: "qtype \<notin> set (?types qname)"
    if "qtype \<notin> {TYPE_RRSIG, TYPE_NSEC, TYPE_DNSKEY}" "\<forall>r \<in> set (all_records z). rr_name r = qname \<longrightarrow> rr_rtype r \<noteq> qtype" for qname qtype
    using that unfolding types by auto
  show ?thesis
  proof (intro exI [of _ sz] conjI allI impI ballI)
    fix qname qtype nx
    assume "qname \<notin> rr_name ` set (all_records z)"
    then show "\<exists>rec sigs. denial_records cr sz qname nx = Some (rec # sigs) \<and> list_all2 (sig_ok cr [rec]) (zsks_of keys) sigs \<and>
          nsec_proves qname qtype [rec]"
      unfolding d option.inject using absent_name_denied [OF ring] owners by simp
  next
    fix qname qtype
    assume "qname \<in> rr_name ` set (all_records z)" "qtype \<notin> {TYPE_RRSIG, TYPE_NSEC, TYPE_DNSKEY}"
      "\<forall>r \<in> set (all_records z). rr_name r = qname \<longrightarrow> rr_rtype r \<noteq> qtype"
    then show "\<exists>rec sigs. denial_records cr sz qname False = Some (rec # sigs) \<and> list_all2 (sig_ok cr [rec]) (zsks_of keys) sigs \<and>
          nsec_proves qname qtype [rec]"
      unfolding d option.inject using absent_type_denied [OF ring _ nodata] owners by blast
  next
    fix qname nx recs r
    assume "r \<in> set (all_records z)" "denial_records cr sz qname nx = Some recs"
    then show "\<not> nsec_proves (rr_name r) (rr_rtype r) [hd recs]" using sound unfolding d by blast
  qed (rule sz(1))
qed

theorem nsec_denial_agreement_witness:
  "\<exists>sz rec sigs. sign_zone sample_crypto sample_zone [sample_zone_key] 1000000 86400 None = Some sz \<and>
     denial_records sample_crypto sz [[122], [101]] True = Some (rec # sigs) \<and> nsec_proves [[122], [101]] TYPE_A [rec]"
proof -
  let ?rs = "all_records sample_zone"
  have origin: "z_origin sample_zone = [[101]]" by (simp add: sample_zone_def)
  have h: "wf_name (z_origin sample_zone)" "\<forall>r \<in> set ?rs. wf_name (rr_name r) \<and> rr_rtype r < 2040"
    "\<forall>k \<in> set [sample_zone_key]. key_ok sample_crypto (z_origin sample_zone) k" "[sample_zone_key] \<noteq> []"
    using sample_zone_records_wf sample_zone_key_ok unfolding origin
    by (simp_all add: all_records_def sample_zone_def sample_defs)
  have "[[122], [101]] \<notin> rr_name ` set ?rs"
    by (simp add: all_records_def sample_zone_def sample_defs)
  moreover obtain sz where "sign_zone sample_crypto sample_zone [sample_zone_key] 1000000 86400 None = Some sz"
    "\<forall>qname qtype nx. qname \<notin> rr_name ` set ?rs \<longrightarrow>
       (\<exists>rec sigs. denial_records sample_crypto sz qname nx = Some (rec # sigs) \<and>
          list_all2 (sig_ok sample_crypto [rec]) (zsks_of [sample_zone_key]) sigs \<and> nsec_proves qname qtype [rec])"
    using nsec_denial_agreement [OF h] by metis
  ultimately show ?thesis by metis
qed

text \<open>
  C5: \<open>Secure\<close> is never a guess.  When \<open>validate\<close> calls a response secure,
  the answer section holds an RRset, or the authority section holds one and
  proves the denial of the queried name, that is signed by a key of its signer,
  and that key set goes back link by link (DNSKEY set self-signed by a key a DS
  vouches for, DS set signed by the parent's keys) to a configured trust anchor.
\<close>
theorem validate_secure_sound:
  assumes "validate_msg cr fetch anchors msg = Secure"
  shows "(\<exists>k. snd k \<noteq> TYPE_RRSIG \<and> authenticated_set cr fetch anchors (m_answers msg) k) \<or>
    (\<exists>k. snd k \<noteq> TYPE_RRSIG \<and> authenticated_set cr fetch anchors (m_authorities msg) k) \<and> denial_proven cr msg"
proof -
  obtain s b memo where a: "verify_section cr fetch anchors (m_answers msg) Map.empty = (s, b, memo)"
    by (metis prod_cases3)
  obtain s' b' memo' where u: "verify_section cr fetch anchors (m_authorities msg) memo = (s', b', memo')"
    by (metis prod_cases3)
  note sa = verify_section_sound [OF a memo_ok_empty]
  note su = verify_section_sound [OF u]
  have "s \<or> (s' \<and> denial_proven cr msg)"
    using assms by (auto simp: validate_msg_def a u Let_def split: if_splits)
  with sa su show ?thesis by blast
qed

text \<open>An answer of one RRset with one signature, where the three verdicts are told apart.\<close>

lemma section_single:
  assumes "section_sets (filter (\<lambda>r. rr_rtype r \<noteq> TYPE_RRSIG) records) = [k]" "sigs_of records k = [sig]" "parse_rrsig sig = Some f"
    "dnskeys cr fetch anchors memo (sf_signer f) 0 = (r, memo')"
  shows "verify_section cr fetch anchors records memo =
    (case r of
       None \<Rightarrow> (False, False, memo')
     | Some keys \<Rightarrow>
         let good = list_ex (verify_rrsig cr (rrset_of records k) sig) keys in (good, \<not> good, memo'))"
  using assms by (auto simp: verify_section_def Let_def split: option.split)

text \<open>
  The verdict on a positive answer of one RRset with one RRSIG: secure when
  a key of the signer's validated set verifies the signature, bogus when the
  set is there (or its chain is broken) and no key does, insecure when the
  chain walk finds the signer unsigned.
\<close>
theorem validate_single_rrset:
  assumes "section_sets (filter (\<lambda>r. rr_rtype r \<noteq> TYPE_RRSIG) (m_answers msg)) = [k]"
    "sigs_of (m_answers msg) k = [sig]" "parse_rrsig sig = Some f" "m_authorities msg = []"
  shows "validate_msg cr fetch anchors msg =
    (case fst (dnskeys cr fetch anchors Map.empty (sf_signer f) 0) of
       None \<Rightarrow> Insecure
     | Some keys \<Rightarrow> if list_ex (verify_rrsig cr (rrset_of (m_answers msg) k) sig) keys then Secure else Bogus)"
proof -
  obtain r memo' where d: "dnskeys cr fetch anchors Map.empty (sf_signer f) 0 = (r, memo')" by fastforce
  show ?thesis
    using section_single [OF assms(1-3) d] assms(4)
    by (auto simp: validate_msg_def d nsec3_iterations_exceed_def Let_def split: option.split)
qed

text \<open>
  An unreachable DNSKEY downgrades instead of failing.  If the fetch of the
  signer's DNSKEY set errs, a signed answer is passed as \<open>Insecure\<close>, whatever
  its signature: whoever can suppress that one response can have forged data
  accepted from a zone the anchors cover.
\<close>
theorem dnskey_outage_insecure:
  assumes "section_sets (filter (\<lambda>r. rr_rtype r \<noteq> TYPE_RRSIG) (m_answers msg)) = [k]"
    "sigs_of (m_answers msg) k = [sig]" "parse_rrsig sig = Some f" "m_authorities msg = []"
    "fetch (sf_signer f) TYPE_DNSKEY = None"
  shows "validate_msg cr fetch anchors msg = Insecure"
proof -
  have "dnskeys cr fetch anchors Map.empty (sf_signer f) 0 = (None, Map.empty(sf_signer f \<mapsto> None))"
    using assms(5) by (subst dnskeys_trivial) auto
  from section_single [OF assms(1-3) this] assms(4) show ?thesis
    by (auto simp: validate_msg_def nsec3_iterations_exceed_def)
qed

lemma verify_sets_skip:
  "sigs_of records k = [] \<Longrightarrow>
     verify_sets cr fetch anchors records (as @ k # bs) any memo = verify_sets cr fetch anchors records (as @ bs) any memo"
  by (induction as arbitrary: any memo) (auto simp: Let_def split: prod.split)

lemma verify_sets_cong:
  assumes "\<forall>k \<in> set ks. sigs_of rs k = sigs_of rs' k \<and> rrset_of rs k = rrset_of rs' k"
  shows "verify_sets cr fetch anchors rs ks any memo = verify_sets cr fetch anchors rs' ks any memo"
  using assms by (induction ks arbitrary: any memo) (auto simp: Let_def split: prod.split)

lemma remdups_adj_insert:
  assumes "x \<notin> set as" "x \<notin> set bs" "as = [] \<or> bs = [] \<or> last as \<noteq> hd bs"
  shows "\<exists>cs ds. remdups_adj (as @ x # bs) = cs @ x # ds \<and> remdups_adj (as @ bs) = cs @ ds"
proof -
  have app: "remdups_adj (us @ vs) = remdups_adj us @ remdups_adj vs" if "us = [] \<or> vs = [] \<or> last us \<noteq> hd vs" for us vs :: "'a list"
    using that
  proof (cases us rule: rev_cases)
    case (snoc us' u)
    show ?thesis
    proof (cases vs)
      case (Cons v vs')
      then have "u \<noteq> v" using that snoc by simp
      then show ?thesis
        using remdups_adj_append [of us' u vs] Cons snoc by simp
    qed simp
  qed simp
  have "remdups_adj (as @ x # bs) = remdups_adj as @ remdups_adj (x # bs)"
    using assms(1) by (intro app) (metis last_in_set list.sel(1))
  also have "remdups_adj (x # bs) = remdups_adj [x] @ remdups_adj bs"
    using app [of "[x]" bs] assms(2) by (metis append_Cons append_Nil hd_in_set last.simps)
  finally show ?thesis using app [OF assms(3)] by auto
qed

section \<open>Unsigned data in an answer\<close>

lemma data_of_type_append: "data_of_type t (rs @ rs') = data_of_type t rs @ data_of_type t rs'"
  by (simp add: data_of_type_def List.map_filter_def)

lemma sigs_of_append_unsigned: "rr_rtype r \<noteq> TYPE_RRSIG \<Longrightarrow> sigs_of (rs @ [r]) k = sigs_of rs k"
  by (simp add: sigs_of_def data_of_type_append) (simp add: data_of_type_def List.map_filter_def)

lemma sorted_split:
  assumes "sorted (map f xs)"
  shows "xs = filter (\<lambda>y. f y < v) xs @ filter (\<lambda>y. f y = v) xs @ filter (\<lambda>y. v < f y) xs"
  using assms
proof (induction xs)
  case (Cons z zs)
  have ge: "\<forall>y \<in> set zs. f z \<le> f y" using Cons.prems by auto
  show ?case
  proof (cases "f z < v")
    case False
    then have "filter (\<lambda>y. f y < v) zs = []" using ge by (force simp: filter_empty_conv)
    moreover have "filter (\<lambda>y. f y = v) zs = []" if "v < f z" using ge that by (force simp: filter_empty_conv)
    ultimately show ?thesis using Cons False by (auto simp: not_less_iff_gr_or_eq)
  qed (use Cons in auto)
qed simp

lemma sort_key_insert:
  assumes "\<forall>y \<in> set ys. f y \<noteq> f x"
  shows "\<exists>as bs. sort_key f (ys @ [x]) = as @ x # bs \<and> sort_key f ys = as @ bs \<and>
    (\<forall>a \<in> set as. f a < f x) \<and> (\<forall>b \<in> set bs. f x < f b)"
proof -
  let ?as = "sort_key f (filter (\<lambda>y. f y < f x) ys)" and ?bs = "sort_key f (filter (\<lambda>y. f x < f y) ys)"
  have "filter (\<lambda>y. f y = f x) ys = []" using assms by (auto simp: filter_empty_conv)
  then have "sort_key f (ys @ [x]) = ?as @ x # ?bs" "sort_key f ys = ?as @ ?bs"
    using sorted_split [OF sorted_sort_key [of f "ys @ [x]"], of "f x"] sorted_split [OF sorted_sort_key [of f ys], of "f x"]
    by (simp_all add: filter_sort sort_key_stable)
  then show ?thesis by (intro exI [of _ ?as] exI [of _ ?bs]) simp
qed

text \<open>The set of an appended unsigned record is one more, skipped, element.\<close>

lemma verify_section_unsigned:
  assumes r: "rr_rtype r \<noteq> TYPE_RRSIG" "sigs_of rs (rr_key r) = []"
    and fresh: "\<forall>r' \<in> set rs. (display_name (rr_name r'), rr_rtype r') \<noteq> (display_name (rr_name r), rr_rtype r)"
  shows "verify_section cr fetch anchors (rs @ [r]) memo = verify_section cr fetch anchors rs memo"
proof -
  let ?f = "\<lambda>(n, t). (display_name n, t) :: string \<times> u16"
  let ?ys = "map rr_key (filter (\<lambda>r. rr_rtype r \<noteq> TYPE_RRSIG) rs)"
  have "\<forall>y \<in> set ?ys. ?f y \<noteq> ?f (rr_key r)" using fresh by auto
  from sort_key_insert [OF this] obtain as bs where s: "sort_key ?f (?ys @ [rr_key r]) = as @ rr_key r # bs" "sort_key ?f ?ys = as @ bs"
    "\<forall>a \<in> set as. ?f a < ?f (rr_key r)" "\<forall>b \<in> set bs. ?f (rr_key r) < ?f b"
    by (elim exE conjE) (rule that)
  have ne: "rr_key r \<notin> set as" "rr_key r \<notin> set bs" using s(3,4) by (metis less_irrefl)+
  have "as = [] \<or> bs = [] \<or> last as \<noteq> hd bs"
    using s(3,4) by (metis hd_in_set last_in_set less_asym)
  from remdups_adj_insert [OF ne this] obtain cs ds where
    c: "remdups_adj (as @ rr_key r # bs) = cs @ rr_key r # ds" "remdups_adj (as @ bs) = cs @ ds" by blast
  have sets: "section_sets (filter (\<lambda>r. rr_rtype r \<noteq> TYPE_RRSIG) (rs @ [r])) = cs @ rr_key r # ds"
    "section_sets (filter (\<lambda>r. rr_rtype r \<noteq> TYPE_RRSIG) rs) = cs @ ds"
    using s(1,2) c r(1) by (simp_all add: section_sets_def)
  have "set (cs @ ds) = set (as @ bs)" by (metis c(2) remdups_adj_set)
  then have "rr_key r \<notin> set (cs @ ds)" using ne by auto
  then have "\<forall>k \<in> set (cs @ ds). sigs_of (rs @ [r]) k = sigs_of rs k \<and> rrset_of (rs @ [r]) k = rrset_of rs k"
    using sigs_of_append_unsigned [OF r(1)] by (auto simp: rrset_of_def)
  then show ?thesis
    unfolding verify_section_def sets
    using r verify_sets_skip [of "rs @ [r]" "rr_key r" cr fetch anchors cs ds False memo] sigs_of_append_unsigned [OF r(1)]
    by (simp add: verify_sets_cong)
qed

text \<open>
  Unsigned data rides along with a secure answer.  Appending a record of a
  new owner and type, with no signature, to a response that already answers
  does not change the verdict: a forged RRset beside a genuine signed one is
  still returned as \<open>Secure\<close> and reaches the client with the AD bit.
\<close>
theorem unsigned_rrset_keeps_verdict:
  assumes "rr_rtype r \<noteq> TYPE_RRSIG" "sigs_of (m_answers msg) (rr_name r, rr_rtype r) = []"
    "\<forall>r' \<in> set (m_answers msg). (display_name (rr_name r'), rr_rtype r') \<noteq> (display_name (rr_name r), rr_rtype r)"
    "\<exists>r' \<in> set (m_answers msg). rr_rtype r' \<noteq> TYPE_RRSIG"
  shows "validate_msg cr fetch anchors (msg\<lparr>m_answers := m_answers msg @ [r]\<rparr>) = validate_msg cr fetch anchors msg"
proof -
  let ?m = "msg\<lparr>m_answers := m_answers msg @ [r]\<rparr>"
  have all: "list_all (\<lambda>r. rr_rtype r = TYPE_RRSIG) (m_answers msg @ [r]) = list_all (\<lambda>r. rr_rtype r = TYPE_RRSIG) (m_answers msg)"
    using assms(1,4) by (auto simp: list_all_iff)
  have denial: "denial_proven cr ?m = denial_proven cr msg"
    by (cases "m_questions msg") (simp_all add: denial_proven_def Let_def)
  have eqs: "m_answers ?m = m_answers msg @ [r]" "m_authorities ?m = m_authorities msg" "m_flags ?m = m_flags msg"
    by simp_all
  show ?thesis
    unfolding validate_msg_def eqs all denial verify_section_unsigned [OF assms(1-3)] ..
qed

section \<open>A signed sample\<close>

definition sample_dnskey_set :: "rr list" where
  "sample_dnskey_set = [dnskey_record sample_zone_key 300]"

definition sample_fetch :: fetcher where
  "sample_fetch n t =
     (if n = [[101]] \<and> t = TYPE_DNSKEY then
        Some ((message_new 0 flags_default)\<lparr>m_answers := sample_dnskey_set @
          [the (sign_rrset sample_zone_key [[101]] TYPE_DNSKEY sample_dnskey_set 5 9)]\<rparr>)
      else None)"

definition sample_anchors :: "trust_anchor list" where
  "sample_anchors = [\<lparr>ta_zone = [[101]], ta_ds = ds_rdata sample_crypto sample_zone_key\<rparr>]"

definition sample_response :: message where
  "sample_response = (message_new 0 flags_default)\<lparr>m_answers := sample_rrset @
     [the (sign_rrset sample_zone_key [[119], [101]] TYPE_A sample_rrset 5 9)]\<rparr>"

lemma sample_signed:
  assumes "rrset \<noteq> []" "\<forall>r \<in> set rrset. rr_name r = owner" "wf_name owner"
  obtains d f where "sign_rrset sample_zone_key owner t rrset 5 9 =
      Some \<lparr>rr_name = owner, rr_class = CLASS_IN, rr_ttl = rr_ttl (hd rrset), rr_rdata = RD_Unknown TYPE_RRSIG d\<rparr>"
    "parse_rrsig d = Some f" "sf_type_covered f = t" "sf_signer f = [[101]]"
    "verify_rrsig sample_crypto rrset d (key_rdata sample_zone_key)"
  using sign_rrset_accepted [OF assms, of "[[101]]" sample_crypto ALG_ED25519 "[7]" "\<lambda>d. 7 # d" rrset True t 5 9]
  unfolding sample_zone_key_def by auto

lemma sample_dnskeys: "fst (dnskeys sample_crypto sample_fetch sample_anchors Map.empty [[101]] 0) = Some [key_rdata sample_zone_key]"
proof -
  obtain d f where s: "sign_rrset sample_zone_key [[101]] TYPE_DNSKEY sample_dnskey_set 5 9 =
      Some \<lparr>rr_name = [[101]], rr_class = CLASS_IN, rr_ttl = rr_ttl (hd sample_dnskey_set), rr_rdata = RD_Unknown TYPE_RRSIG d\<rparr>"
    "verify_rrsig sample_crypto sample_dnskey_set d (key_rdata sample_zone_key)"
    by (rule sample_signed [of sample_dnskey_set "[[101]]" TYPE_DNSKEY])
      (simp_all add: sample_dnskey_set_def dnskey_record_def sample_zone_key_def)
  let ?ans = "sample_dnskey_set @
    [\<lparr>rr_name = [[101]], rr_class = CLASS_IN, rr_ttl = rr_ttl (hd sample_dnskey_set), rr_rdata = RD_Unknown TYPE_RRSIG d\<rparr>]"
  have ds: "verify_ds sample_crypto [[101]] (key_rdata sample_zone_key) (ds_rdata sample_crypto sample_zone_key)"
    by (simp add: sample_zone_key_def verify_ds_def ds_rdata_def parse_dnskey_rdata to_be16_def)
  have data: "data_of_type TYPE_DNSKEY ?ans = [key_rdata sample_zone_key]"
    "data_of_type TYPE_RRSIG ?ans = [d]" "filter (\<lambda>r. rr_rtype r = TYPE_DNSKEY) ?ans = sample_dnskey_set"
    by (simp_all add: data_of_type_def sample_dnskey_set_def dnskey_record_def rr_rtype_def unknown_data_def List.map_filter_def)
  have "vouched_keys sample_crypto [[101]] ?ans [ds_rdata sample_crypto sample_zone_key] = [key_rdata sample_zone_key]"
    unfolding vouched_keys_def data using s(2) ds by (simp add: Let_def)
  moreover have "sample_fetch [[101]] TYPE_DNSKEY = Some ((message_new 0 flags_default)\<lparr>m_answers := ?ans\<rparr>)" by (simp add: sample_fetch_def s(1))
  ultimately show ?thesis
    by (subst dnskeys_step [where msg = "(message_new 0 flags_default)\<lparr>m_answers := ?ans\<rparr>"]) (simp_all add: data settle_keys_def sample_anchors_def anchor_for_def Let_def)
qed

lemma sample_response_parts:
  obtains d f where "section_sets (filter (\<lambda>r. rr_rtype r \<noteq> TYPE_RRSIG) (m_answers sample_response)) = [([[119], [101]], TYPE_A)]"
    "sigs_of (m_answers sample_response) ([[119], [101]], TYPE_A) = [d]" "parse_rrsig d = Some f" "sf_signer f = [[101]]"
    "verify_rrsig sample_crypto (rrset_of (m_answers sample_response) ([[119], [101]], TYPE_A)) d (key_rdata sample_zone_key)"
proof -
  obtain d f where s: "sign_rrset sample_zone_key [[119], [101]] TYPE_A sample_rrset 5 9 =
      Some \<lparr>rr_name = [[119], [101]], rr_class = CLASS_IN, rr_ttl = rr_ttl (hd sample_rrset), rr_rdata = RD_Unknown TYPE_RRSIG d\<rparr>"
    "parse_rrsig d = Some f" "sf_type_covered f = TYPE_A" "sf_signer f = [[101]]"
    "verify_rrsig sample_crypto sample_rrset d (key_rdata sample_zone_key)"
    by (rule sample_signed [of sample_rrset "[[119], [101]]" TYPE_A]) (simp_all add: sample_rrset_def)
  have ans: "m_answers sample_response = sample_rrset @
      [\<lparr>rr_name = [[119], [101]], rr_class = CLASS_IN, rr_ttl = rr_ttl (hd sample_rrset), rr_rdata = RD_Unknown TYPE_RRSIG d\<rparr>]"
    by (simp add: sample_response_def s(1))
  have "rrset_of (m_answers sample_response) ([[119], [101]], TYPE_A) = sample_rrset"
    unfolding ans by (simp add: rrset_of_def sample_rrset_def rr_rtype_def)
  then show thesis
    using s(2-5) unfolding ans by (intro that [of d f])
      (simp_all add: ans section_sets_def sigs_of_def data_of_type_def sample_rrset_def rr_rtype_def
        unknown_data_def List.map_filter_def)
qed

theorem validate_single_rrset_witness: "validate_msg sample_crypto sample_fetch sample_anchors sample_response = Secure"
proof -
  obtain d f where p: "section_sets (filter (\<lambda>r. rr_rtype r \<noteq> TYPE_RRSIG) (m_answers sample_response)) = [([[119], [101]], TYPE_A)]"
    "sigs_of (m_answers sample_response) ([[119], [101]], TYPE_A) = [d]" "parse_rrsig d = Some f" "sf_signer f = [[101]]"
    "verify_rrsig sample_crypto (rrset_of (m_answers sample_response) ([[119], [101]], TYPE_A)) d (key_rdata sample_zone_key)"
    by (rule sample_response_parts)
  have "m_authorities sample_response = []" by (simp add: sample_response_def message_new_def)
  from validate_single_rrset [OF p(1-3) this, of sample_crypto sample_fetch sample_anchors] p(4,5) sample_dnskeys
  show ?thesis by simp
qed

lemma sample_response_secure: "validate_msg sample_crypto sample_fetch sample_anchors sample_response = Secure"
proof -
  obtain d f where p: "section_sets (filter (\<lambda>r. rr_rtype r \<noteq> TYPE_RRSIG) (m_answers sample_response)) = [([[119], [101]], TYPE_A)]"
    "sigs_of (m_answers sample_response) ([[119], [101]], TYPE_A) = [d]" "parse_rrsig d = Some f" "sf_signer f = [[101]]"
    "verify_rrsig sample_crypto (rrset_of (m_answers sample_response) ([[119], [101]], TYPE_A)) d (key_rdata sample_zone_key)"
    by (rule sample_response_parts)
  obtain memo' where k: "dnskeys sample_crypto sample_fetch sample_anchors Map.empty (sf_signer f) 0 = (Some [key_rdata sample_zone_key], memo')"
    using sample_dnskeys unfolding p(4) by (metis prod.collapse)
  have "m_authorities sample_response = []" by (simp add: sample_response_def message_new_def)
  then show ?thesis
    using section_single [OF p(1-3) k] p(5) by (auto simp: validate_msg_def nsec3_iterations_exceed_def Let_def)
qed

theorem validate_secure_sound_witness:
  "(\<exists>k. snd k \<noteq> TYPE_RRSIG \<and> authenticated_set sample_crypto sample_fetch sample_anchors (m_answers sample_response) k) \<or>
   (\<exists>k. snd k \<noteq> TYPE_RRSIG \<and> authenticated_set sample_crypto sample_fetch sample_anchors (m_authorities sample_response) k) \<and>
     denial_proven sample_crypto sample_response"
  by (rule validate_secure_sound [OF sample_response_secure])

theorem dnskey_outage_insecure_witness:
  "validate_msg sample_crypto (\<lambda>n t. None) sample_anchors sample_response = Insecure"
proof -
  obtain d f where p: "section_sets (filter (\<lambda>r. rr_rtype r \<noteq> TYPE_RRSIG) (m_answers sample_response)) = [([[119], [101]], TYPE_A)]"
    "sigs_of (m_answers sample_response) ([[119], [101]], TYPE_A) = [d]" "parse_rrsig d = Some f"
    by (rule sample_response_parts)
  have "m_authorities sample_response = []" by (simp add: sample_response_def message_new_def)
  from dnskey_outage_insecure [OF p this] show ?thesis by simp
qed

text \<open>The forged record of the sample: an unsigned A record for another name.\<close>

definition sample_forged :: rr where
  "sample_forged = \<lparr>rr_name = [[120], [101]], rr_class = CLASS_IN, rr_ttl = 300, rr_rdata = RD_A 0x06060606\<rparr>"

theorem unsigned_rrset_keeps_verdict_witness:
  "validate_msg sample_crypto sample_fetch sample_anchors
     (sample_response\<lparr>m_answers := m_answers sample_response @ [sample_forged]\<rparr>) = Secure"
proof -
  obtain d f where s: "sign_rrset sample_zone_key [[119], [101]] TYPE_A sample_rrset 5 9 =
      Some \<lparr>rr_name = [[119], [101]], rr_class = CLASS_IN, rr_ttl = rr_ttl (hd sample_rrset), rr_rdata = RD_Unknown TYPE_RRSIG d\<rparr>"
    by (rule sample_signed [of sample_rrset "[[119], [101]]" TYPE_A]) (simp_all add: sample_rrset_def)
  have ans: "m_answers sample_response = sample_rrset @
      [\<lparr>rr_name = [[119], [101]], rr_class = CLASS_IN, rr_ttl = rr_ttl (hd sample_rrset), rr_rdata = RD_Unknown TYPE_RRSIG d\<rparr>]"
    by (simp add: sample_response_def s)
  have "validate_msg sample_crypto sample_fetch sample_anchors
      (sample_response\<lparr>m_answers := m_answers sample_response @ [sample_forged]\<rparr>) =
    validate_msg sample_crypto sample_fetch sample_anchors sample_response"
    by (rule unsigned_rrset_keeps_verdict)
      (simp_all add: ans sample_forged_def sample_rrset_def rr_rtype_def sigs_of_def data_of_type_def List.map_filter_def
        display_name_def display_byte_def)
  then show ?thesis by (simp add: sample_response_secure)
qed

end
