(* ===== verification/Dns_Xfr.thy ===== *)
theory Dns_Xfr
  imports Dns_Zone Dns_Tsig
begin

unbundle bit_operations_syntax

text \<open>
  Zone transfers (\<open>dns-xfr/src/lib.rs\<close>): the framing of AXFR and IXFR answers,
  the change journal behind IXFR, the client side of an AXFR with its TSIG
  chain, and the decisions of the secondary's refresh loop.  Sockets are
  replaced by their bytes: a pull is a function of what the primary answers
  to the request, and the end of the stream stands for every i/o failure.
\<close>

section \<open>Answers\<close>

abbreviation (input) JOURNAL_DEPTH :: nat where "JOURNAL_DEPTH \<equiv> 64"
abbreviation (input) AXFR_CHUNK :: nat where "AXFR_CHUNK \<equiv> 100"
abbreviation (input) REFRESH_MIN :: u64 where "REFRESH_MIN \<equiv> 15"
abbreviation (input) REFRESH_MAX :: u64 where "REFRESH_MAX \<equiv> 86400"
abbreviation (input) RETRY :: u64 where "RETRY \<equiv> 60"

text \<open>A message behind its two-byte length; the length is cast to 16 bits.\<close>

definition frame_one :: "bytes \<Rightarrow> bytes" where
  "frame_one wire = to_be16 (word_of_nat (length wire)) @ wire"

definition transfer_message :: "message \<Rightarrow> rr list \<Rightarrow> message" where
  "transfer_message query chunk =
     (let m = response_to query in m\<lparr>m_flags := (m_flags m)\<lparr>fl_aa := True\<rparr>, m_answers := chunk\<rparr>)"

definition frame_transfer :: "rr list \<Rightarrow> message \<Rightarrow> bytes list" where
  "frame_transfer records query =
     map (\<lambda>chunk. frame_one (message_encode (transfer_message query chunk))) (chunks AXFR_CHUNK records)"

definition axfr_messages :: "zone \<Rightarrow> message \<Rightarrow> bytes list" where
  "axfr_messages z query = frame_transfer (all_records z @ [z_soa z]) query"

definition zone_serial :: "zone \<Rightarrow> u32" where
  "zone_serial z = (case rr_rdata (z_soa z) of RD_Soa s \<Rightarrow> soa_serial s | _ \<Rightarrow> 0)"

section \<open>The journal\<close>

record diff =
  df_from :: u32
  df_to :: u32
  df_deleted :: "rr list"
  df_added :: "rr list"

type_synonym journal = "dns_name \<rightharpoonup> diff list"

definition zone_diff :: "zone \<Rightarrow> zone \<Rightarrow> diff" where
  "zone_diff old new =
     \<lparr>df_from = zone_serial old, df_to = zone_serial new,
      df_deleted = filter (\<lambda>r. r \<notin> set (all_records new)) (all_records old),
      df_added = filter (\<lambda>r. r \<notin> set (all_records old)) (all_records new)\<rparr>"

text \<open>\<open>Journal::record\<close> in memory; the copy it appends on disk is in \<open>Journal_File\<close>.\<close>

definition journal_record :: "zone \<Rightarrow> zone \<Rightarrow> journal \<Rightarrow> journal" where
  "journal_record old new j =
     (if zone_serial old = zone_serial new then j
      else
        let log = (case j (z_origin new) of Some l \<Rightarrow> l | None \<Rightarrow> []) @ [zone_diff old new]
        in j(z_origin new \<mapsto> drop (length log - JOURNAL_DEPTH) log))"

function chain_loop :: "diff list \<Rightarrow> u32 \<Rightarrow> u32 \<Rightarrow> diff list \<Rightarrow> diff list option" where
  "chain_loop log serial current out =
     (if serial = current then Some out
      else case find (\<lambda>d. df_from d = serial) log of
        None \<Rightarrow> None
      | Some d \<Rightarrow>
          if length (out @ [d]) > JOURNAL_DEPTH then None
          else chain_loop log (df_to d) current (out @ [d]))"
  by pat_completeness auto
termination by (relation "measure (\<lambda>(log, serial, current, out). 65 - length out)") auto

declare chain_loop.simps [simp del]

definition journal_chain :: "journal \<Rightarrow> dns_name \<Rightarrow> u32 \<Rightarrow> u32 \<Rightarrow> diff list option" where
  "journal_chain j origin from_serial current =
     (if from_serial = current then Some []
      else case j origin of None \<Rightarrow> None | Some log \<Rightarrow> chain_loop log from_serial current [])"

definition soa_with_serial :: "zone \<Rightarrow> u32 \<Rightarrow> rr" where
  "soa_with_serial z serial =
     (case rr_rdata (z_soa z) of
        RD_Soa s \<Rightarrow> (z_soa z)\<lparr>rr_rdata := RD_Soa (s\<lparr>soa_serial := serial\<rparr>)\<rparr>
      | _ \<Rightarrow> z_soa z)"

definition ixfr_records :: "zone \<Rightarrow> diff list \<Rightarrow> rr list" where
  "ixfr_records z ds =
     z_soa z # concat (map (\<lambda>d. soa_with_serial z (df_from d) # df_deleted d @
                                soa_with_serial z (df_to d) # df_added d) ds) @ [z_soa z]"

definition ixfr_messages :: "zone \<Rightarrow> message \<Rightarrow> u32 \<Rightarrow> journal \<Rightarrow> bytes list" where
  "ixfr_messages z query client_serial j =
     (case journal_chain j (z_origin z) client_serial (zone_serial z) of
        None \<Rightarrow> axfr_messages z query
      | Some ds \<Rightarrow>
          if ds = [] then frame_transfer [z_soa z] query
          else frame_transfer (ixfr_records z ds) query)"

section \<open>The client of a transfer\<close>

datatype xfr_error =
    XfrIo | BadAxfrMessage wire_error | AxfrMismatch | AxfrRefused byte | AxfrTsigFailed tsig_error
  | AxfrNoRecords | AxfrBadZone edit_error | SoaMismatch | NoSoaInReply

definition encode_signed :: "hmac_sign \<Rightarrow> message \<Rightarrow> tsig_key option \<Rightarrow> u64 \<Rightarrow> bytes \<times> bytes" where
  "encode_signed sign query key now =
     (case key of Some k \<Rightarrow> sign_request sign query k now | None \<Rightarrow> (message_encode query, []))"

definition xfr_query :: "u16 \<Rightarrow> dns_name \<Rightarrow> u16 \<Rightarrow> message" where
  "xfr_query i origin qtype =
     (message_new i flags_default)\<lparr>m_questions := [\<lparr>q_name = origin, q_type = qtype, q_class = CLASS_IN\<rparr>]\<rparr>"

text \<open>
  One framed message off the stream, as \<open>read_exact\<close> twice; \<open>None\<close> when the
  stream ends first.
\<close>

definition read_frame :: "bytes \<Rightarrow> (bytes \<times> bytes) option" where
  "read_frame stream =
     (if length stream < 2 then None
      else
        let len = unat (from_be16 (stream ! 0) (stream ! 1)); rest = drop 2 stream in
        if length rest < len then None else Some (take len rest, drop len rest))"

lemma read_frame_shorter: "read_frame stream = Some (data, rest) \<Longrightarrow> length rest < length stream"
  by (auto simp: read_frame_def Let_def split: if_splits)

text \<open>The record loop over one message: the closing SOA ends it and is not kept.\<close>

fun take_answers :: "rr list \<Rightarrow> rr list \<Rightarrow> nat \<Rightarrow> rr list \<times> nat" where
  "take_answers [] records soa_seen = (records, soa_seen)"
| "take_answers (r # rs) records soa_seen =
     (if rr_rtype r = TYPE_SOA then
        if soa_seen + 1 = 2 then (records, 2)
        else take_answers rs (records @ [r]) (soa_seen + 1)
      else take_answers rs (records @ [r]) soa_seen)"

text \<open>
  \<open>clock k\<close> is the time read for the \<open>k\<close>-th message.  The result is the MAC the next
  message chains on; the outer \<open>None\<close> is a panic inside \<open>verify\<close>.
\<close>

definition chain_mac ::
  "hmac_check \<Rightarrow> tsig_key option \<Rightarrow> key_ring \<Rightarrow> u64 \<Rightarrow> bytes \<Rightarrow> message \<Rightarrow> bytes \<Rightarrow> (tsig_error + bytes) option" where
  "chain_mac check key keyring now prior_mac m data =
     (if key \<noteq> None \<and> m_tsig m \<noteq> None then tsig_verify check m data keyring now (Some prior_mac)
      else Some (Inr prior_mac))"

function pull_loop ::
  "hmac_check \<Rightarrow> tsig_key option \<Rightarrow> key_ring \<Rightarrow> (nat \<Rightarrow> u64) \<Rightarrow> u16 \<Rightarrow> nat \<Rightarrow> bytes \<Rightarrow> bytes \<Rightarrow> rr list \<Rightarrow> nat \<Rightarrow>
     (xfr_error + rr list) option" where
  "pull_loop check key keyring clock qid k stream prior_mac records soa_seen =
     (if \<not> soa_seen < 2 then Some (Inr records)
      else case read_frame stream of
        None \<Rightarrow> Some (Inl XfrIo)
      | Some (data, rest) \<Rightarrow>
          (case message_parse data of
             Inl e \<Rightarrow> Some (Inl (BadAxfrMessage e))
           | Inr m \<Rightarrow>
               if m_id m \<noteq> qid \<or> \<not> fl_qr (m_flags m) then Some (Inl AxfrMismatch)
               else if fl_rcode (m_flags m) \<noteq> 0 then Some (Inl (AxfrRefused (fl_rcode (m_flags m))))
               else
                 (case chain_mac check key keyring (clock k) prior_mac m data of
                    None \<Rightarrow> None
                  | Some (Inl e) \<Rightarrow> Some (Inl (AxfrTsigFailed e))
                  | Some (Inr mac) \<Rightarrow>
                      if m_answers m = [] \<and> records = [] \<and> soa_seen = 0 then Some (Inl AxfrNoRecords)
                      else
                        let (records', soa_seen') = take_answers (m_answers m) records soa_seen
                        in pull_loop check key keyring clock qid (k + 1) rest mac records' soa_seen')))"
  by pat_completeness auto
termination
  by (relation "measure (\<lambda>(check, key, keyring, clock, qid, k, stream, prior_mac, records, soa_seen). length stream)")
    (auto dest: read_frame_shorter)

declare pull_loop.simps [simp del]

text \<open>
  \<open>exchange\<close> is the primary: from the bytes written to the connection to the
  bytes read from it, \<open>None\<close> when the connection cannot be made.
\<close>

definition axfr_pull ::
  "hmac_sign \<Rightarrow> hmac_check \<Rightarrow> (bytes \<Rightarrow> bytes option) \<Rightarrow> u64 \<Rightarrow> (nat \<Rightarrow> u64) \<Rightarrow> u16 \<Rightarrow> dns_name \<Rightarrow> tsig_key option \<Rightarrow>
     (xfr_error + zone) option" where
  "axfr_pull sign check exchange now clock i origin key =
     (let query = xfr_query i origin TYPE_AXFR;
          (wire, request_mac) = encode_signed sign query key now;
          keyring = (case key of Some k \<Rightarrow> ring_insert k Map.empty | None \<Rightarrow> Map.empty)
      in case exchange (frame_one wire) of
           None \<Rightarrow> Some (Inl XfrIo)
         | Some stream \<Rightarrow>
             (case pull_loop check key keyring clock (m_id query) 0 stream request_mac [] 0 of
                None \<Rightarrow> None
              | Some (Inl e) \<Rightarrow> Some (Inl e)
              | Some (Inr records) \<Rightarrow>
                  (case from_records origin records of
                     Inl e \<Rightarrow> Some (Inl (AxfrBadZone e))
                   | Inr z \<Rightarrow> Some (Inr z))))"

section \<open>The secondary\<close>

fun serial_of_soa :: "dns_name \<Rightarrow> rr list \<Rightarrow> u32 option" where
  "serial_of_soa origin [] = None"
| "serial_of_soa origin (r # rs) =
     (case rr_rdata r of
        RD_Soa s \<Rightarrow> if rr_name r = origin then Some (soa_serial s) else serial_of_soa origin rs
      | _ \<Rightarrow> serial_of_soa origin rs)"

definition query_soa_serial ::
  "hmac_sign \<Rightarrow> (bytes \<Rightarrow> bytes option) \<Rightarrow> u64 \<Rightarrow> u16 \<Rightarrow> dns_name \<Rightarrow> tsig_key option \<Rightarrow> xfr_error + u32" where
  "query_soa_serial sign exchange now i origin key =
     (let query = xfr_query i origin TYPE_SOA;
          (wire, mac) = encode_signed sign query key now
      in case exchange wire of
           None \<Rightarrow> Inl XfrIo
         | Some reply \<Rightarrow>
             (case message_parse (take 2048 reply) of
                Inl e \<Rightarrow> Inl (BadAxfrMessage e)
              | Inr m \<Rightarrow>
                  if m_id m \<noteq> m_id query \<or> \<not> fl_qr (m_flags m) then Inl SoaMismatch
                  else (case serial_of_soa origin (m_answers m) of
                          None \<Rightarrow> Inl NoSoaInReply
                        | Some s \<Rightarrow> Inr s)))"

definition serial_gt :: "u32 \<Rightarrow> u32 \<Rightarrow> bool" where
  "serial_gt a b \<longleftrightarrow> a \<noteq> b \<and> a - b < 0x80000000"

definition zone_refresh :: "zone \<Rightarrow> u64" where
  "zone_refresh z =
     (case rr_rdata (z_soa z) of
        RD_Soa s \<Rightarrow> min (max (ucast (soa_refresh s)) REFRESH_MIN) REFRESH_MAX
      | _ \<Rightarrow> RETRY)"

section \<open>Framing\<close>

lemma read_frame_one:
  assumes "length w < 65536"
  shows "read_frame (frame_one w @ rest) = Some (w, rest)"
  using assms
  by (simp add: read_frame_def frame_one_def to_be16_def unat_of_nat16 Let_def nth_append)

lemma frame_transfer_split: "frame_transfer records query =
    map frame_one (map (\<lambda>chunk. message_encode (transfer_message query chunk)) (chunks AXFR_CHUNK records))"
  by (simp add: frame_transfer_def)

section \<open>Reading a transfer\<close>

lemma take_answers_plain:
  "list_all (\<lambda>r. rr_rtype r \<noteq> TYPE_SOA) as \<Longrightarrow> take_answers (as @ rest) records n = take_answers rest (records @ as) n"
  by (induction as arbitrary: records) auto

lemma append_snoc_split: "xs @ ys = b @ [s] \<Longrightarrow> ys \<noteq> [] \<Longrightarrow> \<exists>tl. ys = tl @ [s] \<and> b = xs @ tl"
  by (cases ys rule: rev_cases) auto

text \<open>
  What the client accepts: the messages \<open>ms\<close> behind the wires \<open>ws\<close>, each a
  non-empty positive reply to the query whose TSIG chains on the one before.
\<close>

fun transfer_accepted ::
  "hmac_check \<Rightarrow> tsig_key option \<Rightarrow> key_ring \<Rightarrow> (nat \<Rightarrow> u64) \<Rightarrow> u16 \<Rightarrow> nat \<Rightarrow> bytes \<Rightarrow> bytes list \<Rightarrow> message list \<Rightarrow> bool" where
  "transfer_accepted check key keyring clock qid k prior [] ms \<longleftrightarrow> ms = []"
| "transfer_accepted check key keyring clock qid k prior (w # ws) ms \<longleftrightarrow>
     (\<exists>m ms' mac. ms = m # ms' \<and> length w < 65536 \<and> message_parse w = Inr m \<and> m_id m = qid \<and>
        fl_qr (m_flags m) \<and> fl_rcode (m_flags m) = 0 \<and> m_answers m \<noteq> [] \<and>
        chain_mac check key keyring (clock k) prior m w = Some (Inr mac) \<and>
        transfer_accepted check key keyring clock qid (k + 1) mac ws ms')"

lemma pull_loop_step:
  assumes "n < 2" "length w < 65536" "message_parse w = Inr m" "m_id m = qid" "fl_qr (m_flags m)"
    "fl_rcode (m_flags m) = 0" "m_answers m \<noteq> []" "chain_mac check key keyring (clock k) prior m w = Some (Inr mac)"
  shows "pull_loop check key keyring clock qid k (frame_one w @ rest) prior records n =
    (case take_answers (m_answers m) records n of
       (records', n') \<Rightarrow> pull_loop check key keyring clock qid (k + 1) rest mac records' n')"
  using assms by (subst pull_loop.simps) (simp add: read_frame_one)

lemma pull_loop_tail:
  assumes "transfer_accepted check key keyring clock qid k prior ws ms"
    and "concat (map m_answers ms) = body @ [s]" "rr_rtype s = TYPE_SOA"
    and "list_all (\<lambda>r. rr_rtype r \<noteq> TYPE_SOA) body"
  shows "pull_loop check key keyring clock qid k (concat (map frame_one ws) @ extra) prior records 1 =
    Some (Inr (records @ body))"
  using assms
proof (induction ws arbitrary: k prior ms body records)
  case (Cons w ws)
  from Cons.prems(1) obtain m ms' mac where m: "ms = m # ms'"
    "length w < 65536" "message_parse w = Inr m" "m_id m = qid" "fl_qr (m_flags m)" "fl_rcode (m_flags m) = 0"
    "m_answers m \<noteq> []" "chain_mac check key keyring (clock k) prior m w = Some (Inr mac)"
    and acc: "transfer_accepted check key keyring clock qid (k + 1) mac ws ms'" by auto
  note step = pull_loop_step [where clock = clock and k = k and n = 1, OF _ m(2-), of "concat (map frame_one ws) @ extra" records, simplified]
  show ?case
  proof (cases ms')
    case Nil
    then have "m_answers m = body @ [s]" using Cons.prems(2) m(1) by simp
    then have "take_answers (m_answers m) records 1 = (records @ body, 2)"
      using Cons.prems(3,4) by (simp add: take_answers_plain)
    then show ?thesis using step by (simp add: pull_loop.simps)
  next
    case (Cons m2 ms2)
    with acc have "m_answers m2 \<noteq> []" by (cases ws) auto
    with Cons have ne: "concat (map m_answers ms') \<noteq> []" by simp
    then obtain tl where tl: "concat (map m_answers ms') = tl @ [s]" "body = m_answers m @ tl"
      using append_snoc_split [of "m_answers m" "concat (map m_answers ms')" body s] Cons.prems(2) m(1) by auto
    have "take_answers (m_answers m) records 1 = (records @ m_answers m, 1)"
      using take_answers_plain [of "m_answers m" "[]"] Cons.prems(4) tl(2) by simp
    with step Cons.IH [OF acc tl(1) Cons.prems(3)] Cons.prems(4) tl(2) show ?thesis by simp
  qed
qed simp

lemma pull_loop_whole:
  assumes "transfer_accepted check key keyring clock qid 0 prior ws ms"
    and "concat (map m_answers ms) = s # body @ [s']" "rr_rtype s = TYPE_SOA" "rr_rtype s' = TYPE_SOA"
    and "list_all (\<lambda>r. rr_rtype r \<noteq> TYPE_SOA) body"
  shows "pull_loop check key keyring clock qid 0 (concat (map frame_one ws) @ extra) prior [] 0 = Some (Inr (s # body))"
proof -
  from assms(1,2) obtain w ws' m ms' mac where w: "ws = w # ws'" and m: "ms = m # ms'"
    "length w < 65536" "message_parse w = Inr m" "m_id m = qid" "fl_qr (m_flags m)" "fl_rcode (m_flags m) = 0"
    "m_answers m \<noteq> []" "chain_mac check key keyring (clock 0) prior m w = Some (Inr mac)"
    and acc: "transfer_accepted check key keyring clock qid 1 mac ws' ms'" by (cases ws) auto
  obtain as where as: "m_answers m = s # as" "as @ concat (map m_answers ms') = body @ [s']"
    using m(1,7) assms(2) by (cases "m_answers m") auto
  note step = pull_loop_step [where clock = clock and k = 0 and n = 0, OF _ m(2-), of "concat (map frame_one ws') @ extra" "[]", simplified]
  have first: "take_answers (m_answers m) [] 0 = take_answers as [s] 1"
    using as(1) assms(3) by simp
  show ?thesis
  proof (cases "ms' = []")
    case True
    then have "take_answers as [s] 1 = (s # body, 2)"
      using as(2) assms(4,5) by (simp add: take_answers_plain)
    then show ?thesis using step first by (simp add: w pull_loop.simps)
  next
    case False
    with acc have "concat (map m_answers ms') \<noteq> []" by (cases ws'; cases ms') auto
    then obtain tl where tl: "concat (map m_answers ms') = tl @ [s']" "body = as @ tl"
      using append_snoc_split [OF as(2)] by auto
    have "take_answers as [s] 1 = (s # as, 1)"
      using take_answers_plain [of as "[]"] assms(5) tl(2) by simp
    with step first pull_loop_tail [OF acc tl(1) assms(4), where records = "s # as"] assms(5) tl(2)
    show ?thesis by (simp add: w)
  qed
qed

section \<open>The records of a transfer\<close>

lemma all_records_split:
  assumes "wf_zone z"
  obtains body where "all_records z = z_soa z # body" "list_all (\<lambda>r. rr_rtype r \<noteq> TYPE_SOA) body"
    "filter (\<lambda>r. rr_rtype r = TYPE_SOA) (all_records z) = [z_soa z]"
proof (rule that)
  show plain: "list_all (\<lambda>r. rr_rtype r \<noteq> TYPE_SOA) (tl (all_records z))"
    by (auto simp: all_records_def list_all_iff)
  show split: "all_records z = z_soa z # tl (all_records z)" by (simp add: all_records_def)
  have "filter (\<lambda>r. rr_rtype r = TYPE_SOA) (tl (all_records z)) = []"
    using plain by (auto simp: filter_empty_conv list_all_iff)
  then show "filter (\<lambda>r. rr_rtype r = TYPE_SOA) (all_records z) = [z_soa z]"
    using wf_zone_soa(1) [OF assms] by (subst split) simp
qed

lemma from_all_records:
  assumes "wf_zone z"
  shows "\<exists>z'. from_records (z_origin z) (all_records z) = Inr z' \<and> wf_zone z' \<and> z_origin z' = z_origin z \<and>
    z_soa z' = z_soa z \<and> records_mset (z_records z') = records_mset (z_records z)"
proof -
  obtain body where b: "all_records z = z_soa z # body"
    "filter (\<lambda>r. rr_rtype r = TYPE_SOA) (all_records z) = [z_soa z]"
    using all_records_split [OF assms] by blast
  have "list_all (\<lambda>r. ends_with (rr_name r) (z_origin z)) (all_records z)"
    unfolding list_all_iff
  proof
    fix r assume "r \<in> set (all_records z)"
    then have "r \<in># records_mset (z_records z)" using all_records_mset [OF assms] by (metis set_mset_mset)
    then obtain k rrs where k: "(k, rrs) \<in> set (z_records z)" "r \<in> set rrs" by (auto simp: records_mset_def)
    then have "map_of (z_records z) k = Some rrs" using assms by (simp add: wf_zone_def nodes_ok_def)
    then have "node_ok (z_origin z) k rrs" using assms nodes_okD wf_zone_def by blast
    with k(2) show "ends_with (rr_name r) (z_origin z)" by (auto simp: node_ok_def list_all_iff)
  qed
  then obtain z' where z': "from_records (z_origin z) (all_records z) = Inr z'"
    using from_records_succeeds_iff [of "z_origin z" "all_records z"] b(2) wf_zone_soa(2) [OF assms]
    by (auto simp: is_ok_def split: sum.splits)
  then have wf: "wf_zone z'" "z_origin z' = z_origin z" "records_mset (z_records z') = mset (all_records z)"
    using from_records_wf by blast+
  have "z_soa z' \<in> set (all_records z)"
    using all_records_mset [OF wf(1)] wf(3) by (metis all_records_def list.set_intros(1) set_mset_mset)
  then have "z_soa z' \<in> set (filter (\<lambda>r. rr_rtype r = TYPE_SOA) (all_records z))"
    using wf_zone_soa(1) [OF wf(1)] by simp
  then have "z_soa z' = z_soa z" using b(2) by simp
  with z' wf all_records_mset [OF assms] show ?thesis by simp
qed

section \<open>The journal\<close>

fun record_history :: "zone list \<Rightarrow> journal \<Rightarrow> journal" where
  "record_history (z # z' # zs) j = record_history (z' # zs) (journal_record z z' j)"
| "record_history _ j = j"

fun diffs_of :: "zone list \<Rightarrow> diff list" where
  "diffs_of (z # z' # zs) = zone_diff z z' # diffs_of (z' # zs)"
| "diffs_of _ = []"

definition apply_diff :: "diff \<Rightarrow> rr set \<Rightarrow> rr set" where
  "apply_diff d S = (S - set (df_deleted d)) \<union> set (df_added d)"

lemma apply_zone_diff: "apply_diff (zone_diff a b) (set (all_records a)) = set (all_records b)"
  by (auto simp: apply_diff_def zone_diff_def)

lemma length_diffs_of [simp]: "length (diffs_of zs) = length zs - 1"
  by (induction zs rule: diffs_of.induct) auto

lemma nth_diffs_of: "i + 1 < length zs \<Longrightarrow> diffs_of zs ! i = zone_diff (zs ! i) (zs ! (i + 1))"
proof (induction zs arbitrary: i rule: diffs_of.induct)
  case (1 z z' zs)
  then show ?case by (cases i) auto
qed auto

lemma fold_diffs:
  "i < length zs \<Longrightarrow> fold apply_diff (drop i (diffs_of zs)) (set (all_records (zs ! i))) = set (all_records (last zs))"
proof (induction "length zs - 1 - i" arbitrary: i)
  case 0
  then have "i = length zs - 1" "zs \<noteq> []" by auto
  then show ?case by (simp add: last_conv_nth)
next
  case (Suc n)
  then have i: "i + 1 < length zs" by simp
  then have "drop i (diffs_of zs) = zone_diff (zs ! i) (zs ! (i + 1)) # drop (i + 1) (diffs_of zs)"
    by (simp add: nth_diffs_of flip: Cons_nth_drop_Suc)
  moreover have "n = length zs - 1 - (i + 1)" using Suc.hyps(2) by simp
  ultimately show ?case using Suc.hyps(1) [of "i + 1"] i by (simp add: apply_zone_diff)
qed

lemma drop_window:
  fixes xs :: "'a list"
  shows "drop (length (drop (length xs - n) xs @ [x]) - n) (drop (length xs - n) xs @ [x]) =
    drop (length (xs @ [x]) - n) (xs @ [x])"
  by (cases "length xs < n") (auto simp: not_less Suc_diff_le)

lemma record_history_log:
  assumes "distinct (map zone_serial zs)" "list_all (\<lambda>z. z_origin z = origin) zs"
    and "case j origin of None \<Rightarrow> log = [] | Some l \<Rightarrow> l = drop (length log - JOURNAL_DEPTH) log"
    and "1 < length zs"
  shows "record_history zs j origin =
    Some (drop (length (log @ diffs_of zs) - JOURNAL_DEPTH) (log @ diffs_of zs))"
  using assms
proof (induction zs j arbitrary: log rule: record_history.induct)
  case (1 z z' zs j)
  let ?j = "journal_record z z' j"
  have j: "?j origin = Some (drop (length (log @ [zone_diff z z']) - JOURNAL_DEPTH) (log @ [zone_diff z z']))"
    using "1.prems" drop_window [of log JOURNAL_DEPTH "zone_diff z z'"]
    by (auto simp: journal_record_def Let_def split: option.splits)
  show ?case
  proof (cases zs)
    case Nil
    then show ?thesis using j by simp
  next
    case (Cons a zs')
    then show ?thesis
      using "1.IH" [of "log @ [zone_diff z z']"] "1.prems" j by simp
  qed
qed auto

lemma find_distinct: "distinct (map f xs) \<Longrightarrow> x \<in> set xs \<Longrightarrow> find (\<lambda>y. f y = f x) xs = Some x"
  by (induction xs) (auto simp: rev_image_eqI)

lemma map_from_diffs: "map df_from (diffs_of zs) = butlast (map zone_serial zs)"
  by (induction zs rule: diffs_of.induct) (auto simp: zone_diff_def)

lemma find_diff:
  assumes "distinct (map zone_serial zs)" "i + 1 < length zs"
  shows "find (\<lambda>d. df_from d = zone_serial (zs ! i)) (drop k (diffs_of zs)) =
    (if k \<le> i then Some (diffs_of zs ! i) else None)"
proof -
  let ?ds = "diffs_of zs"
  have dist: "distinct (map df_from ?ds)"
    using assms(1) by (simp add: map_from_diffs distinct_butlast)
  have i: "i < length ?ds" using assms(2) by simp
  have src: "zone_serial (zs ! i) = df_from (?ds ! i)"
    using assms(2) by (simp add: nth_diffs_of zone_diff_def)
  show ?thesis
  proof (cases "k \<le> i")
    case True
    then have "?ds ! i \<in> set (drop k ?ds)"
      using i by (auto simp: in_set_conv_nth intro!: exI [of _ "i - k"])
    moreover have "distinct (map df_from (drop k ?ds))"
      using dist by (simp add: drop_map [symmetric])
    ultimately show ?thesis using True find_distinct [of df_from "drop k ?ds"] by (simp add: src)
  next
    case False
    then have "?ds ! i \<in> set (take k ?ds)"
      using i by (auto simp: in_set_conv_nth intro!: exI [of _ i])
    moreover have "set (map df_from (take k ?ds)) \<inter> set (map df_from (drop k ?ds)) = {}"
      using dist by (metis append_take_drop_id distinct_append map_append)
    ultimately have "df_from d \<noteq> df_from (?ds ! i)" if "d \<in> set (drop k ?ds)" for d
      using that by (metis disjoint_iff imageI list.set_map)
    then show ?thesis using False by (auto simp: find_None_iff src)
  qed
qed

lemma serial_not_last:
  assumes "distinct (map zone_serial zs)" "i + 1 < length zs"
  shows "zone_serial (zs ! i) \<noteq> zone_serial (last zs)"
proof -
  have "last zs = zs ! (length zs - 1)" using assms(2) by (intro last_conv_nth) auto
  then show ?thesis
    using nth_eq_iff_index_eq [OF assms(1), of i "length zs - 1"] assms(2) by auto
qed

lemma chain_loop_history:
  assumes "distinct (map zone_serial zs)" "k \<le> i" "i < length zs" "length out + (length zs - 1 - i) \<le> JOURNAL_DEPTH"
  shows "chain_loop (drop k (diffs_of zs)) (zone_serial (zs ! i)) (zone_serial (last zs)) out = Some (out @ drop i (diffs_of zs))"
  using assms(2-)
proof (induction "length zs - 1 - i" arbitrary: i out)
  case 0
  then have "i = length zs - 1" "zs \<noteq> []" by auto
  then show ?case by (subst chain_loop.simps) (simp add: last_conv_nth)
next
  case (Suc n)
  then have i: "i + 1 < length zs" "n = length zs - 1 - (i + 1)" by auto
  have ne: "zone_serial (zs ! i) \<noteq> zone_serial (last zs)"
    using serial_not_last [OF assms(1) i(1)] .
  have d: "diffs_of zs ! i = zone_diff (zs ! i) (zs ! (i + 1))" using i(1) by (simp add: nth_diffs_of)
  have dr: "drop i (diffs_of zs) = diffs_of zs ! i # drop (i + 1) (diffs_of zs)"
    using i(1) by (simp flip: Cons_nth_drop_Suc)
  have len: "\<not> length (out @ [diffs_of zs ! i]) > JOURNAL_DEPTH" using Suc.prems(3) i by simp
  have nx: "df_to (diffs_of zs ! i) = zone_serial (zs ! (i + 1))" by (simp add: d zone_diff_def)
  have ih: "chain_loop (drop k (diffs_of zs)) (zone_serial (zs ! (i + 1))) (zone_serial (last zs)) (out @ [diffs_of zs ! i]) =
      Some ((out @ [diffs_of zs ! i]) @ drop (i + 1) (diffs_of zs))"
    using Suc.prems i by (intro Suc.hyps(1)) auto
  show ?case
    by (subst chain_loop.simps)
      (simp only: ne find_diff [OF assms(1) i(1)] Suc.prems(1) if_True if_False option.case len nx ih dr append_assoc append.simps)
qed

lemma chain_loop_too_old:
  assumes "distinct (map zone_serial zs)" "i + 1 < length zs" "i < k"
  shows "chain_loop (drop k (diffs_of zs)) (zone_serial (zs ! i)) (zone_serial (last zs)) out = None"
  using assms(3) serial_not_last [OF assms(1,2)]
  by (subst chain_loop.simps) (simp add: find_diff [OF assms(1,2)])

lemma journal_chain_history:
  assumes "distinct (map zone_serial zs)" "list_all (\<lambda>z. z_origin z = origin) zs" "i < length zs"
  shows "journal_chain (record_history zs Map.empty) origin (zone_serial (zs ! i)) (zone_serial (last zs)) =
    (if length zs - 1 - i \<le> JOURNAL_DEPTH then Some (drop i (diffs_of zs)) else None)"
proof (cases "i + 1 < length zs")
  case False
  then have "i = length zs - 1" "zs \<noteq> []" using assms(3) by auto
  then show ?thesis by (simp add: journal_chain_def last_conv_nth)
next
  case True
  let ?k = "length (diffs_of zs) - JOURNAL_DEPTH"
  have log: "record_history zs Map.empty origin = Some (drop ?k (diffs_of zs))"
    using record_history_log [OF assms(1,2), where j = Map.empty and log = "[]"] True by simp
  have ne: "zone_serial (zs ! i) \<noteq> zone_serial (last zs)" by (rule serial_not_last [OF assms(1) True])
  show ?thesis
  proof (cases "length zs - 1 - i \<le> JOURNAL_DEPTH")
    case True
    then have "?k \<le> i" by simp
    with chain_loop_history [OF assms(1) this assms(3), of "[]"] True ne log show ?thesis
      by (simp add: journal_chain_def)
  next
    case False
    then have "i < ?k" by simp
    with chain_loop_too_old [OF assms(1) True this] False ne log show ?thesis
      by (simp add: journal_chain_def)
  qed
qed

section \<open>Transfers of well-formed records\<close>

definition transfer_query_ok :: "message \<Rightarrow> bool" where
  "transfer_query_ok q \<longleftrightarrow> unat (fl_opcode (m_flags q)) < 16 \<and> length (m_questions q) < 65536 \<and>
     list_all question_ok (m_questions q)"

lemma transfer_message_simps [simp]:
  "m_id (transfer_message q as) = m_id q" "fl_qr (m_flags (transfer_message q as))"
  "fl_rcode (m_flags (transfer_message q as)) = 0" "m_answers (transfer_message q as) = as"
  "m_tsig (transfer_message q as) = None"
  by (simp_all add: transfer_message_def response_to_def message_new_def flags_default_def Let_def)

lemma transfer_message_ok:
  assumes "transfer_query_ok q" "list_all rr_ok as" "length as \<le> AXFR_CHUNK"
  shows "message_ok (transfer_message q as)" "arcount (transfer_message q as) + 1 < 65536"
  using assms
  by (auto simp: message_ok_def transfer_message_def response_to_def message_new_def flags_default_def Let_def
        transfer_query_ok_def edns_ours_def arcount_def split: option.splits)

lemma xfr_query_ok:
  assumes "name_ok origin"
  shows "message_ok (xfr_query i origin t)" "transfer_query_ok (xfr_query i origin t)"
    "arcount (xfr_query i origin t) + 1 < 65536" "m_id (xfr_query i origin t) = i"
    "m_questions (xfr_query i origin t) = [\<lparr>q_name = origin, q_type = t, q_class = CLASS_IN\<rparr>]"
    "fl_opcode (m_flags (xfr_query i origin t)) = 0"
  using assms
  by (simp_all add: message_ok_def transfer_query_ok_def xfr_query_def message_new_def flags_default_def question_ok_def arcount_def)

text \<open>The hypotheses of a transfer: well-formed records, and messages that fit a frame.\<close>

definition transferable :: "message \<Rightarrow> rr list \<Rightarrow> bool" where
  "transferable q records \<longleftrightarrow> transfer_query_ok q \<and> list_all rr_ok records \<and>
     list_all (\<lambda>as. length (message_encode (transfer_message q as)) < 65536) (chunks AXFR_CHUNK records)"

lemma transferable_chunk:
  assumes "transferable q records" "as \<in> set (chunks AXFR_CHUNK records)"
  shows "message_ok (transfer_message q as)" "as \<noteq> []" "length (message_encode (transfer_message q as)) < 65536"
    "arcount (transfer_message q as) + 1 < 65536"
proof -
  have len: "0 < length as" "length as \<le> AXFR_CHUNK" using length_chunks [OF _ assms(2)] by auto
  have "set as \<subseteq> set records" using concat_chunks [of AXFR_CHUNK records] assms(2) by (metis UN_upper set_concat zero_less_numeral)
  then have "list_all rr_ok as" using assms(1) by (auto simp: transferable_def list_all_iff)
  with transfer_message_ok [of q as] len assms
  show "message_ok (transfer_message q as)" "as \<noteq> []" "length (message_encode (transfer_message q as)) < 65536"
    "arcount (transfer_message q as) + 1 < 65536"
    by (auto simp: transferable_def list_all_iff)
qed

lemma transfer_accepted_unsigned:
  assumes "\<forall>as \<in> set ass. message_ok (transfer_message q as) \<and> as \<noteq> [] \<and> length (message_encode (transfer_message q as)) < 65536"
  shows "transfer_accepted check key keyring clock (m_id q) k prior
    (map (\<lambda>as. message_encode (transfer_message q as)) ass) (map (transfer_message q) ass)"
  using assms
  by (induction ass arbitrary: k) (auto simp: message_encode_parse chain_mac_def)

section \<open>Serial numbers\<close>

lemma serial_gt_iff: "serial_gt a b \<longleftrightarrow> (\<exists>n. 0 < n \<and> n < 2 ^ 31 \<and> a = b + word_of_nat n)"
proof
  assume g: "serial_gt a b"
  let ?n = "unat (a - b)"
  have "0 < ?n" using g by (simp add: serial_gt_def unat_gt_0)
  moreover have "?n < 2 ^ 31" using g by (simp add: serial_gt_def word_less_nat_alt)
  moreover have "a = b + word_of_nat ?n" by simp
  ultimately show "\<exists>n. 0 < n \<and> n < 2 ^ 31 \<and> a = b + word_of_nat n" by blast
next
  assume "\<exists>n. 0 < n \<and> n < 2 ^ 31 \<and> a = b + word_of_nat n"
  then obtain n where n: "0 < n" "n < 2 ^ 31" "a = b + word_of_nat n" by blast
  have "unat (word_of_nat n :: u32) = n" using n(2) by (simp add: unat_of_nat take_bit_nat_eq_self_iff)
  then show "serial_gt a b" using n by (auto simp: serial_gt_def word_less_nat_alt)
qed

lemma serial_gt_asym: "serial_gt a b \<Longrightarrow> \<not> serial_gt b a"
proof
  assume g: "serial_gt a b" "serial_gt b a"
  have add: "unat (x + y) = (unat x + unat y) mod 2 ^ 32" for x y :: u32 by (simp add: unat_word_ariths)
  have "(unat (a - b) + unat (b - a)) mod 2 ^ 32 = 0" using add [of "a - b" "b - a"] by simp
  moreover have "unat (a - b) < 2 ^ 31" "unat (b - a) < 2 ^ 31" "0 < unat (a - b)"
    using g by (simp_all add: serial_gt_def word_less_nat_alt unat_gt_0)
  ultimately show False by simp
qed

section \<open>The incremental stream\<close>

abbreviation soa_count :: "rr list \<Rightarrow> nat" where
  "soa_count records \<equiv> length (filter (\<lambda>r. rr_rtype r = TYPE_SOA) records)"

lemma soa_with_serial_soa: "rr_rtype (z_soa z) = TYPE_SOA \<Longrightarrow> rr_rtype (soa_with_serial z s) = TYPE_SOA"
  by (auto simp: soa_with_serial_def rr_rtype_def split: rdata.splits)

lemma soa_in_diff:
  assumes "wf_zone old" "wf_zone new" "zone_serial old \<noteq> zone_serial new"
  shows "soa_count (df_deleted (zone_diff old new)) = 1" "soa_count (df_added (zone_diff old new)) = 1"
proof -
  have ne: "z_soa old \<noteq> z_soa new" using assms(3) by (auto simp: zone_serial_def)
  have *: "soa_count (filter (\<lambda>r. r \<notin> set (all_records b)) (all_records a)) = 1"
    if wf: "wf_zone a" "wf_zone b" and ne: "z_soa a \<noteq> z_soa b" for a b
  proof -
    have fa: "filter (\<lambda>r. rr_rtype r = TYPE_SOA) (all_records a) = [z_soa a]"
      and fb: "filter (\<lambda>r. rr_rtype r = TYPE_SOA) (all_records b) = [z_soa b]"
      using all_records_split [OF wf(1)] all_records_split [OF wf(2)] by blast+
    have "z_soa a \<notin> set (all_records b)"
    proof
      assume "z_soa a \<in> set (all_records b)"
      then have "z_soa a \<in> set (filter (\<lambda>r. rr_rtype r = TYPE_SOA) (all_records b))"
        using wf_zone_soa(1) [OF wf(1)] by simp
      with fb ne show False by simp
    qed
    moreover have "filter (\<lambda>r. rr_rtype r = TYPE_SOA) (filter (\<lambda>r. r \<notin> set (all_records b)) (all_records a)) =
        filter (\<lambda>r. r \<notin> set (all_records b)) [z_soa a]"
      unfolding fa [symmetric] by (simp add: conj_commute)
    ultimately show ?thesis by simp
  qed
  show "soa_count (df_deleted (zone_diff old new)) = 1" "soa_count (df_added (zone_diff old new)) = 1"
    using * [OF assms(1,2) ne] * [OF assms(2,1) ne [symmetric]] by (simp_all add: zone_diff_def)
qed

lemma ixfr_soa_count:
  assumes "wf_zone z" "list_all (\<lambda>d. soa_count (df_deleted d) = 1 \<and> soa_count (df_added d) = 1) ds"
  shows "soa_count (ixfr_records z ds) = 2 + 4 * length ds"
proof -
  let ?seg = "\<lambda>d. soa_with_serial z (df_from d) # df_deleted d @ soa_with_serial z (df_to d) # df_added d"
  have "soa_count (concat (map ?seg ds)) = 4 * length ds"
    using assms(2) soa_with_serial_soa [OF wf_zone_soa(1) [OF assms(1)]] by (induction ds) auto
  then show ?thesis using wf_zone_soa(1) [OF assms(1)] by (simp add: ixfr_records_def)
qed

lemma sample_bump_serial:
  "zone_serial (bump_serial sample_zone) \<noteq> zone_serial sample_zone" "z_origin (bump_serial sample_zone) = z_origin sample_zone"
  by (simp_all add: zone_serial_def bump_serial_def sample_zone_def sample_soa_def Let_def)

section \<open>Properties\<close>

text \<open>
  C28: The journal reaches back exactly 64 versions.  For a zone edited from
  version to version with a new serial each time, the chain from the serial of
  version \<open>i\<close> to the last one is found exactly when it has at most 64 steps,
  and then applying its deletions and additions in order to the records of
  version \<open>i\<close> gives the records of the last version.
\<close>
theorem journal_chain_complete:
  assumes "distinct (map zone_serial zs)" "list_all (\<lambda>z. z_origin z = origin) zs" "i < length zs"
  shows "case journal_chain (record_history zs Map.empty) origin (zone_serial (zs ! i)) (zone_serial (last zs)) of
      None \<Rightarrow> length zs - 1 - i > JOURNAL_DEPTH
    | Some ds \<Rightarrow> length zs - 1 - i \<le> JOURNAL_DEPTH \<and> length ds = length zs - 1 - i \<and>
        fold apply_diff ds (set (all_records (zs ! i))) = set (all_records (last zs))"
  using journal_chain_history [OF assms] fold_diffs [OF assms(3)] by simp

theorem journal_chain_complete_witness:
  "\<exists>ds. journal_chain (record_history [sample_zone, bump_serial sample_zone] Map.empty) (z_origin sample_zone)
      (zone_serial sample_zone) (zone_serial (bump_serial sample_zone)) = Some ds \<and>
    fold apply_diff ds (set (all_records sample_zone)) = set (all_records (bump_serial sample_zone))"
  using journal_chain_complete [of "[sample_zone, bump_serial sample_zone]" "z_origin sample_zone" 0] sample_bump_serial
  by (fastforce split: option.splits)

text \<open>
  An incremental transfer repeats every SOA.  RFC 1995 and the comment above
  the loop put one SOA before the deletions and one before the additions of a
  change; because the recorded deletions and additions contain the old and
  the new SOA themselves, the stream of a single recorded change holds six SOA
  records instead of four, and a client that splits the stream at its SOA
  records misreads it.
\<close>
theorem ixfr_repeats_soa:
  assumes "wf_zone old" "wf_zone new" "zone_serial old \<noteq> zone_serial new" "z_origin old = z_origin new"
  shows "ixfr_messages new query (zone_serial old) (journal_record old new Map.empty) =
      frame_transfer (ixfr_records new [zone_diff old new]) query \<and>
    soa_count (ixfr_records new [zone_diff old new]) = 6"
proof -
  have "journal_chain (journal_record old new Map.empty) (z_origin new) (zone_serial old) (zone_serial new) = Some [zone_diff old new]"
    using journal_chain_history [of "[old, new]" "z_origin new" 0] assms by simp
  then show ?thesis
    using ixfr_soa_count [OF assms(2), of "[zone_diff old new]"] soa_in_diff [OF assms(1-3)]
    by (simp add: ixfr_messages_def)
qed

theorem ixfr_repeats_soa_witness:
  "soa_count (ixfr_records (bump_serial sample_zone) [zone_diff sample_zone (bump_serial sample_zone)]) = 6"
proof -
  have "wf_zone (bump_serial sample_zone)" by (simp add: bump_serial_wf)
  then show ?thesis
    using ixfr_repeats_soa [OF sample_zone_wf, of "bump_serial sample_zone" sample_message] sample_bump_serial by simp
qed

end
