(* ===== verification/Dns_Metrics.thy ===== *)
theory Dns_Metrics
  imports Rust_Text
begin

unbundle bit_operations_syntax

text \<open>
  The statistics counters (\<open>dns-metrics/src/lib.rs\<close>).  The atomic counters of
  one name each are a function from their names; \<open>fetch_add\<close> wraps at 64 bits.
  The uptime is an argument of the snapshot.
\<close>

section \<open>State\<close>

datatype counter =
    Queries_udp | Queries_tcp | Cache_hits | Cache_misses | Upstream_queries | Upstream_failures
  | Upstream_failovers | Singleflight_merged | Rate_limited | Recursion_refused | Zone_reloads | Axfr_out
  | Axfr_in | Notify_sent | Notify_received | Rpz_blocked | Served_stale

definition BUCKETS_US :: "u64 list" where
  "BUCKETS_US = [10, 100, 1000, 10000, 100000, 1000000]"

record histogram =
  hs_buckets :: "u64 list"
  hs_overflow :: u64
  hs_sum_us :: u64
  hs_count :: u64

record metrics =
  mt_counters :: "counter \<Rightarrow> u64"
  mt_rcodes :: "u64 list"
  mt_latency :: histogram

definition metrics_new :: metrics where
  "metrics_new =
     \<lparr>mt_counters = (\<lambda>_. 0), mt_rcodes = replicate 16 0,
      mt_latency = \<lparr>hs_buckets = replicate (length BUCKETS_US) 0, hs_overflow = 0, hs_sum_us = 0, hs_count = 0\<rparr>\<rparr>"

section \<open>Operations\<close>

definition inc :: "counter \<Rightarrow> metrics \<Rightarrow> metrics" where
  "inc c m = m\<lparr>mt_counters := (mt_counters m)(c := mt_counters m c + 1)\<rparr>"

definition observe_rcode :: "byte \<Rightarrow> metrics \<Rightarrow> metrics" where
  "observe_rcode rcode m =
     (let i = unat (rcode AND 0xF) in m\<lparr>mt_rcodes := (mt_rcodes m)[i := mt_rcodes m ! i + 1]\<rparr>)"

fun position :: "('a \<Rightarrow> bool) \<Rightarrow> 'a list \<Rightarrow> nat option" where
  "position p [] = None"
| "position p (x # xs) = (if p x then Some 0 else map_option Suc (position p xs))"

text \<open>\<open>micros\<close> is \<open>as_micros\<close> of the duration, cast to 64 bits by the source.\<close>

definition histogram_observe :: "nat \<Rightarrow> histogram \<Rightarrow> histogram" where
  "histogram_observe micros h =
     (let us = word_of_nat micros :: u64;
          h1 = (case position (\<lambda>le. us \<le> le) BUCKETS_US of
                  Some i \<Rightarrow> h\<lparr>hs_buckets := (hs_buckets h)[i := hs_buckets h ! i + 1]\<rparr>
                | None \<Rightarrow> h\<lparr>hs_overflow := hs_overflow h + 1\<rparr>)
      in h1\<lparr>hs_sum_us := hs_sum_us h1 + us, hs_count := hs_count h1 + 1\<rparr>)"

definition observe_latency :: "nat \<Rightarrow> metrics \<Rightarrow> metrics" where
  "observe_latency micros m = m\<lparr>mt_latency := histogram_observe micros (mt_latency m)\<rparr>"

definition counter_names :: "(string \<times> counter) list" where
  "counter_names =
     [(''queries-udp'', Queries_udp), (''queries-tcp'', Queries_tcp), (''cache-hits'', Cache_hits),
      (''cache-misses'', Cache_misses), (''upstream-queries'', Upstream_queries),
      (''upstream-failures'', Upstream_failures), (''upstream-failovers'', Upstream_failovers),
      (''singleflight-merged'', Singleflight_merged), (''rate-limited-drops'', Rate_limited),
      (''recursion-refused'', Recursion_refused), (''zone-reloads'', Zone_reloads), (''axfr-out'', Axfr_out),
      (''axfr-in'', Axfr_in), (''notify-sent'', Notify_sent), (''notify-received'', Notify_received),
      (''rpz-blocked'', Rpz_blocked), (''served-stale'', Served_stale)]"

definition snapshot :: "u64 \<Rightarrow> metrics \<Rightarrow> (string \<times> u64) list" where
  "snapshot uptime m =
     (let h = mt_latency m in
      (''uptime-seconds'', uptime) # map (\<lambda>(n, c). (n, mt_counters m c)) counter_names @
      map (\<lambda>(rc, v). (''responses-rcode-'' @ show_nat rc, v))
        (filter (\<lambda>(rc, v). v > 0) (enumerate 0 (mt_rcodes m))) @
      [(''latency-count'', hs_count h),
       (''latency-avg-us'', if hs_count h = 0 then 0 else hs_sum_us h div hs_count h)] @
      map (\<lambda>(i, le). (''latency-le-'' @ show_nat (unat le) @ ''us'', hs_buckets h ! i)) (enumerate 0 BUCKETS_US) @
      [(''latency-overflow'', hs_overflow h)])"

section \<open>Consistency\<close>

lemma position_lt: "position p xs = Some i \<Longrightarrow> i < length xs \<and> p (xs ! i)"
  by (induction xs arbitrary: i) (auto split: if_splits)

lemma sum_list_update_word:
  fixes xs :: "'a::ab_group_add list"
  shows "i < length xs \<Longrightarrow> sum_list (xs[i := v]) = sum_list xs - xs ! i + v"
  by (induction xs arbitrary: i) (auto split: nat.splits)

text \<open>
  Every observation lands in exactly one bucket, and every response in exactly
  one of the sixteen code counters.
\<close>

definition metrics_ok :: "metrics \<Rightarrow> bool" where
  "metrics_ok m \<longleftrightarrow> length (mt_rcodes m) = 16 \<and> length (hs_buckets (mt_latency m)) = length BUCKETS_US \<and>
     sum_list (hs_buckets (mt_latency m)) + hs_overflow (mt_latency m) = hs_count (mt_latency m)"

lemma metrics_new_ok [inv_intros]: "metrics_ok metrics_new"
  by (simp add: metrics_ok_def metrics_new_def BUCKETS_US_def)

lemma inc_ok [inv_intros]: "metrics_ok m \<Longrightarrow> metrics_ok (inc c m)"
  by (simp add: metrics_ok_def inc_def)

lemma observe_rcode_ok [inv_intros]: "metrics_ok m \<Longrightarrow> metrics_ok (observe_rcode rc m)"
  by (simp add: metrics_ok_def observe_rcode_def Let_def)

lemma observe_rcode_index: "unat (rc AND 0xF :: byte) < 16"
proof -
  have "unat (rc AND 0xF) = unat rc AND 15" by (simp add: unsigned_and_eq)
  also have "unat rc AND 15 = take_bit 4 (unat rc)" by (simp add: take_bit_eq_mask mask_eq_exp_minus_1)
  also have "\<dots> < 16" by (simp add: take_bit_eq_mod)
  finally show ?thesis .
qed

lemma observe_rcode_counts:
  assumes "metrics_ok m"
  shows "sum_list (mt_rcodes (observe_rcode rc m)) = sum_list (mt_rcodes m) + 1"
  using assms observe_rcode_index [of rc]
  by (simp add: observe_rcode_def Let_def metrics_ok_def sum_list_update_word)

lemma observe_latency_ok [inv_intros]: "metrics_ok m \<Longrightarrow> metrics_ok (observe_latency us m)"
  by (auto simp: metrics_ok_def observe_latency_def histogram_observe_def Let_def sum_list_update_word
        split: option.splits dest!: position_lt)

end
