(* ===== verification/Flight.thy ===== *)
theory Flight
  imports Dns_Cache
begin

text \<open>
  Merging of identical lookups (\<open>dns-resolver/src/flight.rs\<close>).  A watch channel
  is a number; the channels on which \<open>true\<close> has been sent are remembered.  The
  map is locked for the length of one operation, so the concurrent program is
  the interleaving of these operations: taking a role, releasing the key and
  waking the followers (the two halves of the guard's drop), and a follower
  coming back from its wait.
\<close>

section \<open>Operations\<close>

record singleflight =
  sf_inflight :: "(cache_key \<times> nat) list"
  sf_sent :: "nat list"
  sf_next :: nat

datatype role = Leader nat | Follower nat

definition flight_new :: singleflight where
  "flight_new = \<lparr>sf_inflight = [], sf_sent = [], sf_next = 0\<rparr>"

definition flight_begin :: "cache_key \<Rightarrow> singleflight \<Rightarrow> singleflight \<times> role" where
  "flight_begin key f =
     (case map_of (sf_inflight f) key of
        Some rx \<Rightarrow> (f, Follower rx)
      | None \<Rightarrow>
          (f\<lparr>sf_inflight := AList.update key (sf_next f) (sf_inflight f), sf_next := sf_next f + 1\<rparr>,
           Leader (sf_next f)))"

definition guard_release :: "cache_key \<Rightarrow> singleflight \<Rightarrow> singleflight" where
  "guard_release key f = f\<lparr>sf_inflight := AList.delete key (sf_inflight f)\<rparr>"

definition guard_send :: "nat \<Rightarrow> singleflight \<Rightarrow> singleflight" where
  "guard_send tx f = f\<lparr>sf_sent := tx # sf_sent f\<rparr>"

definition guard_drop :: "cache_key \<Rightarrow> nat \<Rightarrow> singleflight \<Rightarrow> singleflight" where
  "guard_drop key tx f = guard_send tx (guard_release key f)"

section \<open>Interleavings\<close>

datatype task = Idle | Leading cache_key nat | Releasing cache_key nat | Waiting cache_key nat

record flights =
  fs_map :: singleflight
  fs_tasks :: "nat \<Rightarrow> task"

definition flights_init :: flights where
  "flights_init = \<lparr>fs_map = flight_new, fs_tasks = (\<lambda>_. Idle)\<rparr>"

inductive flight_step :: "nat \<Rightarrow> flights \<Rightarrow> flights \<Rightarrow> bool" where
  begin_leader:
    "fs_tasks s t = Idle \<Longrightarrow> flight_begin key (fs_map s) = (f, Leader c) \<Longrightarrow>
     flight_step t s \<lparr>fs_map = f, fs_tasks = (fs_tasks s)(t := Leading key c)\<rparr>"
| begin_follower:
    "fs_tasks s t = Idle \<Longrightarrow> flight_begin key (fs_map s) = (f, Follower c) \<Longrightarrow>
     flight_step t s \<lparr>fs_map = f, fs_tasks = (fs_tasks s)(t := Waiting key c)\<rparr>"
| release:
    "fs_tasks s t = Leading key c \<Longrightarrow>
     flight_step t s \<lparr>fs_map = guard_release key (fs_map s), fs_tasks = (fs_tasks s)(t := Releasing key c)\<rparr>"
| wake:
    "fs_tasks s t = Releasing key c \<Longrightarrow>
     flight_step t s \<lparr>fs_map = guard_send c (fs_map s), fs_tasks = (fs_tasks s)(t := Idle)\<rparr>"
| resume:
    "fs_tasks s t = Waiting key c \<Longrightarrow> c \<in> set (sf_sent (fs_map s)) \<Longrightarrow>
     flight_step t s (s\<lparr>fs_tasks := (fs_tasks s)(t := Idle)\<rparr>)"

inductive flight_reach :: "flights \<Rightarrow> bool" where
  init: "flight_reach flights_init"
| step: "flight_reach s \<Longrightarrow> flight_step t s s' \<Longrightarrow> flight_reach s'"

inductive_cases flight_stepE: "flight_step t s s'"

section \<open>Invariant\<close>

text \<open>The guard of channel \<open>c\<close> is alive in task \<open>t\<close>.\<close>

definition holds_guard :: "(nat \<Rightarrow> task) \<Rightarrow> nat \<Rightarrow> cache_key \<Rightarrow> nat \<Rightarrow> bool" where
  "holds_guard tasks t key c \<longleftrightarrow> tasks t = Leading key c \<or> tasks t = Releasing key c"

definition flight_inv :: "flights \<Rightarrow> bool" where
  "flight_inv s \<longleftrightarrow>
     (\<forall>t key c. fs_tasks s t = Leading key c \<longrightarrow> map_of (sf_inflight (fs_map s)) key = Some c) \<and>
     (\<forall>key c. map_of (sf_inflight (fs_map s)) key = Some c \<longrightarrow> (\<exists>t. fs_tasks s t = Leading key c)) \<and>
     (\<forall>t t' key key' c. holds_guard (fs_tasks s) t key c \<longrightarrow> holds_guard (fs_tasks s) t' key' c \<longrightarrow> t = t') \<and>
     (\<forall>t key c. holds_guard (fs_tasks s) t key c \<longrightarrow> c < sf_next (fs_map s) \<and> c \<notin> set (sf_sent (fs_map s))) \<and>
     (\<forall>t key c. fs_tasks s t = Waiting key c \<longrightarrow>
        c \<in> set (sf_sent (fs_map s)) \<or> (\<exists>t'. holds_guard (fs_tasks s) t' key c)) \<and>
     (\<forall>c \<in> set (sf_sent (fs_map s)). c < sf_next (fs_map s))"

lemma flight_invD:
  assumes "flight_inv s"
  shows leading_inflight: "fs_tasks s t = Leading key c \<Longrightarrow> map_of (sf_inflight (fs_map s)) key = Some c"
    and inflight_leading: "map_of (sf_inflight (fs_map s)) key = Some c \<Longrightarrow> \<exists>t. fs_tasks s t = Leading key c"
    and guard_unique: "holds_guard (fs_tasks s) t key c \<Longrightarrow> holds_guard (fs_tasks s) t' key' c \<Longrightarrow> t = t'"
    and guard_fresh: "holds_guard (fs_tasks s) t key c \<Longrightarrow> c < sf_next (fs_map s) \<and> c \<notin> set (sf_sent (fs_map s))"
    and waiting_woken: "fs_tasks s t = Waiting key c \<Longrightarrow>
      c \<in> set (sf_sent (fs_map s)) \<or> (\<exists>t'. holds_guard (fs_tasks s) t' key c)"
    and sent_old: "c \<in> set (sf_sent (fs_map s)) \<Longrightarrow> c < sf_next (fs_map s)"
  using assms unfolding flight_inv_def by blast+

lemma flight_invI:
  assumes "\<And>t key c. fs_tasks s t = Leading key c \<Longrightarrow> map_of (sf_inflight (fs_map s)) key = Some c"
    and "\<And>key c. map_of (sf_inflight (fs_map s)) key = Some c \<Longrightarrow> \<exists>t. fs_tasks s t = Leading key c"
    and "\<And>t t' key key' c. holds_guard (fs_tasks s) t key c \<Longrightarrow> holds_guard (fs_tasks s) t' key' c \<Longrightarrow> t = t'"
    and "\<And>t key c. holds_guard (fs_tasks s) t key c \<Longrightarrow> c < sf_next (fs_map s) \<and> c \<notin> set (sf_sent (fs_map s))"
    and "\<And>t key c. fs_tasks s t = Waiting key c \<Longrightarrow>
      c \<in> set (sf_sent (fs_map s)) \<or> (\<exists>t'. holds_guard (fs_tasks s) t' key c)"
    and "\<And>c. c \<in> set (sf_sent (fs_map s)) \<Longrightarrow> c < sf_next (fs_map s)"
  shows "flight_inv s"
  using assms unfolding flight_inv_def by blast

lemma flight_init_inv: "flight_inv flights_init"
  by (rule flight_invI) (simp_all add: flights_init_def flight_new_def holds_guard_def)

lemma guard_of_leader: "fs_tasks s t = Leading key c \<Longrightarrow> holds_guard (fs_tasks s) t key c"
  by (simp add: holds_guard_def)

lemma keep_leading:
  "\<exists>u. T u = Leading k d \<Longrightarrow> T t \<noteq> Leading k d \<Longrightarrow> \<exists>u. (T(t := x)) u = Leading k d"
  by (metis fun_upd_apply)

lemma keep_guard:
  "\<exists>u. holds_guard T u k d \<Longrightarrow> \<not> holds_guard T t k d \<Longrightarrow> \<exists>u. holds_guard (T(t := x)) u k d"
  unfolding holds_guard_def by (metis fun_upd_apply)

lemma flight_step_inv:
  assumes "flight_step t s s'" "flight_inv s"
  shows "flight_inv s'"
  using assms(1)
proof cases
  case (begin_leader key f c)
  then have none: "map_of (sf_inflight (fs_map s)) key = None" and c: "c = sf_next (fs_map s)"
    and f: "f = (fs_map s)\<lparr>sf_inflight := AList.update key c (sf_inflight (fs_map s)), sf_next := c + 1\<rparr>"
    by (auto simp: flight_begin_def split: option.splits)
  have old: "c' \<noteq> c" if "holds_guard (fs_tasks s) u k c'" for u k c'
    using guard_fresh [OF assms(2) that] c by simp
  note inv = flight_invD [OF assms(2)]
  show ?thesis
  proof (rule flight_invI, goal_cases)
    case (1 u k d)
    then show ?case
      using inv(1) [of u k d] none by (auto simp: begin_leader f update_conv split: if_splits)
  next
    case (2 k d)
    then show ?case
      using inv(2) [of k d] keep_leading [of "fs_tasks s" k d t "Leading key c"] begin_leader(2)
      by (cases "k = key") (auto simp: begin_leader(1) f update_conv)
  next
    case (3 u u' k k' d)
    then show ?case
      using inv(3) [of u k d u' k'] old by (auto simp: begin_leader(1) holds_guard_def split: if_splits)
  next
    case (4 u k d)
    then show ?case
      using inv(4) [of u k d] inv(6) [of c] c
      by (auto simp: begin_leader(1) f holds_guard_def split: if_splits)
  next
    case (5 u k d)
    then have "fs_tasks s u = Waiting k d" by (auto simp: begin_leader(1) split: if_splits)
    moreover have "\<not> holds_guard (fs_tasks s) t k d" using begin_leader(2) by (simp add: holds_guard_def)
    ultimately show ?case
      using inv(5) [of u k d] keep_guard [of "fs_tasks s" k d t "Leading key c"] by (auto simp: begin_leader(1) f)
  next
    case (6 d)
    then show ?case using inv(6) [of d] c by (auto simp: begin_leader(1) f)
  qed
next
  case (begin_follower key f c)
  then have f: "f = fs_map s" and c: "map_of (sf_inflight (fs_map s)) key = Some c"
    by (auto simp: flight_begin_def split: option.splits)
  note inv = flight_invD [OF assms(2)]
  have same: "holds_guard (fs_tasks s') = holds_guard (fs_tasks s)"
    using begin_follower(2) by (intro ext) (auto simp: begin_follower(1) holds_guard_def)
  obtain l where l: "fs_tasks s l = Leading key c" using inv(2) [OF c] by blast
  show ?thesis
  proof (rule flight_invI, unfold same, goal_cases)
    case (1 u k d)
    then show ?case using inv(1) [of u k d] by (auto simp: begin_follower(1) f split: if_splits)
  next
    case (2 k d)
    then show ?case
      using inv(2) [of k d] keep_leading [of "fs_tasks s" k d t "Waiting key c"] begin_follower(2)
      by (simp add: begin_follower(1) f)
  next
    case (5 u k d)
    then show ?case
      using inv(5) [of u k d] guard_of_leader [OF l] by (auto simp: begin_follower(1) f split: if_splits)
  qed (use inv(3,4,6) in \<open>auto simp: begin_follower(1) f\<close>)
next
  case (release key c)
  note inv = flight_invD [OF assms(2)]
  have same: "holds_guard (fs_tasks s') = holds_guard (fs_tasks s)"
    using release(2) by (intro ext) (auto simp: release(1) holds_guard_def)
  have alone: "u = t" if "fs_tasks s u = Leading key d" for u d
    using inv(3) [of u key c t key] inv(1) [OF that] inv(1) [OF release(2)] that release(2)
    by (auto simp: holds_guard_def)
  show ?thesis
  proof (rule flight_invI, unfold same, goal_cases)
    case (1 u k d)
    then have u: "fs_tasks s u = Leading k d" "u \<noteq> t" by (auto simp: release(1) split: if_splits)
    then have "k \<noteq> key" using alone by blast
    with inv(1) [OF u(1)] show ?case by (simp add: release(1) guard_release_def delete_conv')
  next
    case (2 k d)
    then have "k \<noteq> key" "map_of (sf_inflight (fs_map s)) k = Some d"
      by (auto simp: release(1) guard_release_def delete_conv' split: if_splits)
    then show ?case
      using inv(2) [of k d] keep_leading [of "fs_tasks s" k d t "Releasing key c"] release(2) by (simp add: release(1))
  next
    case (5 u k d)
    then show ?case using inv(5) [of u k d] by (auto simp: release(1) guard_release_def split: if_splits)
  qed (use inv(3,4,6) in \<open>auto simp: release(1) guard_release_def\<close>)
next
  case (wake key c)
  note inv = flight_invD [OF assms(2)]
  have t: "holds_guard (fs_tasks s) t key c" using wake(2) by (simp add: holds_guard_def)
  have sub: "holds_guard (fs_tasks s') u k d \<longleftrightarrow> u \<noteq> t \<and> holds_guard (fs_tasks s) u k d" for u k d
    by (auto simp: wake(1) holds_guard_def)
  show ?thesis
  proof (rule flight_invI, goal_cases)
    case (1 u k d)
    then show ?case using inv(1) [of u k d] by (auto simp: wake(1) guard_send_def split: if_splits)
  next
    case (2 k d)
    then show ?case
      using inv(2) [of k d] keep_leading [of "fs_tasks s" k d t Idle] wake(2) by (simp add: wake(1) guard_send_def)
  next
    case (4 u k d)
    then have u: "u \<noteq> t" "holds_guard (fs_tasks s) u k d" using sub by blast+
    then show ?case
      using inv(4) [OF u(2)] inv(3) [OF t, of u k] by (auto simp: wake(1) guard_send_def)
  next
    case (5 u k d)
    then have "fs_tasks s u = Waiting k d" by (auto simp: wake(1) split: if_splits)
    from inv(5) [OF this] show ?case
    proof
      assume "\<exists>t'. holds_guard (fs_tasks s) t' k d"
      then obtain t' where t': "holds_guard (fs_tasks s) t' k d" by blast
      then show ?case
      proof (cases "t' = t")
        case True
        then have "d = c" using t' wake(2) by (simp add: holds_guard_def)
        then show ?thesis by (simp add: wake(1) guard_send_def)
      qed (use t' sub in blast)
    qed (simp add: wake(1) guard_send_def)
  next
    case (6 d)
    then show ?case using inv(6) [of d] inv(4) [OF t] by (auto simp: wake(1) guard_send_def)
  qed (use inv(3) sub in blast)
next
  case (resume key c)
  note inv = flight_invD [OF assms(2)]
  have same: "holds_guard (fs_tasks s') = holds_guard (fs_tasks s)"
    using resume(2) by (intro ext) (auto simp: resume(1) holds_guard_def)
  show ?thesis
  proof (rule flight_invI, unfold same, goal_cases)
    case (1 u k d)
    then show ?case using inv(1) [of u k d] by (auto simp: resume(1) split: if_splits)
  next
    case (2 k d)
    then show ?case
      using inv(2) [of k d] keep_leading [of "fs_tasks s" k d t Idle] resume(2) by (simp add: resume(1))
  next
    case (5 u k d)
    then show ?case using inv(5) [of u k d] by (auto simp: resume(1) split: if_splits)
  qed (use inv(3,4,6) in \<open>auto simp: resume(1)\<close>)
qed

lemma flight_reach_inv: "flight_reach s \<Longrightarrow> flight_inv s"
  by (induction rule: flight_reach.induct) (auto intro: flight_init_inv flight_step_inv)

section \<open>Properties\<close>

text \<open>
  C10: In every interleaving a key has at most one leader, a key is in flight
  exactly while its leader works, a channel on which completion was signalled
  is no longer in the map (so a woken follower that misses the cache can
  become the next leader), and no follower waits on a channel that nobody
  will signal.
\<close>
theorem singleflight_safe:
  assumes "flight_reach s"
  shows "(fs_tasks s t = Leading key c \<and> fs_tasks s t' = Leading key c' \<longrightarrow> t = t' \<and> c = c') \<and>
    (map_of (sf_inflight (fs_map s)) key = Some c \<longleftrightarrow> (\<exists>u. fs_tasks s u = Leading key c)) \<and>
    (c \<in> set (sf_sent (fs_map s)) \<longrightarrow> map_of (sf_inflight (fs_map s)) key \<noteq> Some c) \<and>
    (fs_tasks s t = Waiting key c \<longrightarrow>
       c \<in> set (sf_sent (fs_map s)) \<or> (\<exists>u. holds_guard (fs_tasks s) u key c))"
proof -
  note inv = flight_invD [OF flight_reach_inv [OF assms]]
  have "t = t' \<and> c = c'" if "fs_tasks s t = Leading key c" "fs_tasks s t' = Leading key c'"
    using inv(1) [OF that(1)] inv(1) [OF that(2)] inv(3) [of t key c t' key] that by (simp add: holds_guard_def)
  moreover have "map_of (sf_inflight (fs_map s)) key \<noteq> Some c" if "c \<in> set (sf_sent (fs_map s))"
    using inv(2) [of key c] inv(4) that by (metis guard_of_leader)
  ultimately show ?thesis using inv(1,2,5) by blast
qed

definition sample_flight :: flights where
  "sample_flight =
     \<lparr>fs_map = fst (flight_begin sample_key flight_new), fs_tasks = (\<lambda>_. Idle)(0 := Leading sample_key 0, 1 := Waiting sample_key 0)\<rparr>"

lemma sample_flight_reach: "flight_reach sample_flight"
proof -
  let ?f = "fst (flight_begin sample_key flight_new)"
  let ?s1 = "\<lparr>fs_map = ?f, fs_tasks = (\<lambda>_. Idle)(0 := Leading sample_key 0)\<rparr>"
  have "flight_step 0 flights_init ?s1"
    using flight_step.begin_leader [of flights_init 0 sample_key ?f 0]
    by (simp add: flights_init_def flight_begin_def flight_new_def)
  moreover have "flight_step 1 ?s1 sample_flight"
    using flight_step.begin_follower [of ?s1 1 sample_key ?f 0]
    by (simp add: sample_flight_def flight_begin_def flight_new_def)
  ultimately show ?thesis by (meson flight_reach.intros)
qed

theorem singleflight_safe_witness:
  "\<exists>u. holds_guard (fs_tasks sample_flight) u sample_key 0"
  using singleflight_safe [OF sample_flight_reach, of 1 sample_key 0]
  by (simp add: sample_flight_def flight_begin_def flight_new_def)

text \<open>
  C22: A follower is never stuck: from every reachable state in which a task
  waits, at most two steps of the one task that holds the guard, followed by
  the task's own step, bring it back, and its key can then be led again.
\<close>
theorem singleflight_live:
  assumes "flight_reach s" "fs_tasks s t = Waiting key c"
  shows "\<exists>u s1 s2 s3. (s1 = s \<or> flight_step u s s1) \<and> (s2 = s1 \<or> flight_step u s1 s2) \<and> flight_step t s2 s3 \<and>
    fs_tasks s3 t = Idle \<and> map_of (sf_inflight (fs_map s3)) key \<noteq> Some c"
proof -
  have returns: "\<exists>s3. flight_step t s2 s3 \<and> fs_tasks s3 t = Idle \<and> map_of (sf_inflight (fs_map s3)) key \<noteq> Some c"
    if r: "flight_reach s2" "fs_tasks s2 t = Waiting key c" "c \<in> set (sf_sent (fs_map s2))" for s2
  proof -
    note inv = flight_invD [OF flight_reach_inv [OF r(1)]]
    have "map_of (sf_inflight (fs_map s2)) key \<noteq> Some c"
      using inv(2) [of key c] inv(4) r(3) by (metis guard_of_leader)
    with flight_step.resume [OF r(2,3)] show ?thesis by fastforce
  qed
  have woken: "\<exists>s2. flight_step u s1 s2 \<and> fs_tasks s2 t = Waiting key c \<and> c \<in> set (sf_sent (fs_map s2))"
    if "fs_tasks s1 u = Releasing key c" "fs_tasks s1 t = Waiting key c" for u s1
    using flight_step.wake [OF that(1)] that by (fastforce simp: guard_send_def)
  from waiting_woken [OF flight_reach_inv [OF assms(1)] assms(2)] show ?thesis
  proof
    assume "c \<in> set (sf_sent (fs_map s))"
    with returns [OF assms] show ?thesis by blast
  next
    assume "\<exists>u. holds_guard (fs_tasks s) u key c"
    then obtain u where "fs_tasks s u = Leading key c \<or> fs_tasks s u = Releasing key c"
      by (auto simp: holds_guard_def)
    then show ?thesis
    proof
      assume l: "fs_tasks s u = Leading key c"
      let ?s1 = "\<lparr>fs_map = guard_release key (fs_map s), fs_tasks = (fs_tasks s)(u := Releasing key c)\<rparr>"
      have st: "flight_step u s ?s1" by (rule flight_step.release [OF l])
      have "t \<noteq> u" using l assms(2) by auto
      then obtain s2 where s2: "flight_step u ?s1 s2" "fs_tasks s2 t = Waiting key c" "c \<in> set (sf_sent (fs_map s2))"
        using woken [of ?s1 u] assms(2) by auto
      have "flight_reach s2" using assms(1) st s2(1) by (meson flight_reach.step)
      from returns [OF this s2(2,3)] st s2(1) show ?thesis by blast
    next
      assume r: "fs_tasks s u = Releasing key c"
      obtain s2 where s2: "flight_step u s s2" "fs_tasks s2 t = Waiting key c" "c \<in> set (sf_sent (fs_map s2))"
        using woken [OF r assms(2)] by blast
      have "flight_reach s2" using assms(1) s2(1) by (rule flight_reach.step)
      from returns [OF this s2(2,3)] s2(1) show ?thesis by blast
    qed
  qed
qed

theorem singleflight_live_witness:
  "\<exists>u s1 s2 s3. (s1 = sample_flight \<or> flight_step u sample_flight s1) \<and> (s2 = s1 \<or> flight_step u s1 s2) \<and>
     flight_step 1 s2 s3 \<and> fs_tasks s3 1 = Idle \<and> map_of (sf_inflight (fs_map s3)) sample_key \<noteq> Some 0"
  by (rule singleflight_live [OF sample_flight_reach]) (simp add: sample_flight_def)

end
