(* ===== verification/Upstream.thy ===== *)
theory Upstream
  imports Dns_Xfr Dns_Metrics Guard
begin

text \<open>
  Forwarding (\<open>dns-resolver/src/upstream.rs\<close>).  The network is an argument: for
  a datagram sent on some attempt, the receive events before the timeout; for a
  request written to a TCP connection, the bytes that come back and the error
  met when more are wanted.  Random ids are arguments as well.
\<close>

unbundle bit_operations_syntax

section \<open>The network\<close>

type_synonym socket_addr = "ip_addr \<times> u16"

datatype forward_error = FeIo | FeTimeout | FeNoUpstream | FeBogus

datatype udp_event = Datagram bytes | UdpError

record network =
  net_udp :: "nat \<Rightarrow> socket_addr \<Rightarrow> bytes \<Rightarrow> udp_event list"
  net_tcp :: "socket_addr \<Rightarrow> bytes \<Rightarrow> bytes \<times> forward_error"

abbreviation (input) UPSTREAM_ATTEMPTS :: nat where "UPSTREAM_ATTEMPTS \<equiv> 2"

section \<open>One upstream\<close>

text \<open>The source indexes the query's first question; every query it builds has one.\<close>

definition is_reply_to :: "message \<Rightarrow> message \<Rightarrow> bool" where
  "is_reply_to m query \<longleftrightarrow> m_id m = m_id query \<and> fl_qr (m_flags m) \<and>
     (case (m_questions m, m_questions query) of
        (got # _, want # _) \<Rightarrow> q_name got = q_name want \<and> q_type got = q_type want
      | _ \<Rightarrow> False)"

text \<open>The receive loop: datagrams that do not parse or match are skipped.\<close>

fun udp_receive :: "(message \<Rightarrow> bool) \<Rightarrow> nat \<Rightarrow> udp_event list \<Rightarrow> forward_error + message" where
  "udp_receive accept cap [] = Inl FeTimeout"
| "udp_receive accept cap (UdpError # es) = Inl FeIo"
| "udp_receive accept cap (Datagram d # es) =
     (case message_parse (take cap d) of
        Inl _ \<Rightarrow> udp_receive accept cap es
      | Inr m \<Rightarrow> if accept m then Inr m else udp_receive accept cap es)"

definition udp_exchange :: "network \<Rightarrow> nat \<Rightarrow> socket_addr \<Rightarrow> bytes \<Rightarrow> message \<Rightarrow> forward_error + message" where
  "udp_exchange net attempt upstream wire query =
     udp_receive (\<lambda>m. is_reply_to m query) 2048 (net_udp net attempt upstream wire)"

text \<open>The framed exchange shared by \<open>tcp_exchange\<close> and the recursor's \<open>query_one_tcp\<close>.\<close>

definition tcp_receive :: "(message \<Rightarrow> bool) \<Rightarrow> network \<Rightarrow> socket_addr \<Rightarrow> bytes \<Rightarrow> forward_error + message" where
  "tcp_receive accept net upstream wire =
     (let (stream, failure) = net_tcp net upstream (frame_one wire) in
      case read_frame stream of
        None \<Rightarrow> Inl failure
      | Some (data, _) \<Rightarrow>
          (case message_parse data of
             Inl _ \<Rightarrow> Inl FeIo
           | Inr m \<Rightarrow> if accept m then Inr m else Inl FeIo))"

definition tcp_exchange :: "network \<Rightarrow> socket_addr \<Rightarrow> bytes \<Rightarrow> message \<Rightarrow> forward_error + message" where
  "tcp_exchange net upstream wire query = tcp_receive (\<lambda>m. is_reply_to m query) net upstream wire"

definition forward_message :: "u16 \<Rightarrow> dns_name \<Rightarrow> u16 \<Rightarrow> bool \<Rightarrow> message" where
  "forward_message i qname qtype dnssec =
     (message_new i (flags_default\<lparr>fl_rd := True, fl_cd := dnssec\<rparr>))
     \<lparr>m_questions := [\<lparr>q_name = qname, q_type = qtype, q_class = CLASS_IN\<rparr>],
      m_edns := Some (edns_ours\<lparr>ed_do_bit := dnssec\<rparr>)\<rparr>"

fun forward_attempts ::
  "network \<Rightarrow> socket_addr \<Rightarrow> bytes \<Rightarrow> message \<Rightarrow> nat list \<Rightarrow> forward_error \<Rightarrow> forward_error + message" where
  "forward_attempts net upstream wire query [] last_err = Inl last_err"
| "forward_attempts net upstream wire query (a # attempts) last_err =
     (case udp_exchange net a upstream wire query of
        Inr m \<Rightarrow> if fl_tc (m_flags m) then tcp_exchange net upstream wire query else Inr m
      | Inl e \<Rightarrow> forward_attempts net upstream wire query attempts e)"

definition forward_query ::
  "network \<Rightarrow> socket_addr \<Rightarrow> u16 \<Rightarrow> dns_name \<Rightarrow> u16 \<Rightarrow> bool \<Rightarrow> forward_error + message" where
  "forward_query net upstream i qname qtype dnssec =
     (let query = forward_message i qname qtype dnssec
      in forward_attempts net upstream (message_encode query) query [0..<UPSTREAM_ATTEMPTS] FeTimeout)"

section \<open>The pool\<close>

record upstream_pool =
  po_addrs :: "socket_addr list"
  po_preferred :: nat

definition pool_new :: "socket_addr list \<Rightarrow> upstream_pool option" where
  "pool_new addrs = (if addrs = [] then None else Some \<lparr>po_addrs = addrs, po_preferred = 0\<rparr>)"

fun query_loop ::
  "(socket_addr \<Rightarrow> nat \<Rightarrow> forward_error + message) \<Rightarrow> upstream_pool \<Rightarrow> nat \<Rightarrow> nat list \<Rightarrow> forward_error \<Rightarrow> metrics \<Rightarrow>
     (forward_error + message) \<times> upstream_pool \<times> metrics" where
  "query_loop forward pool start [] err mt = (Inl err, pool, mt)"
| "query_loop forward pool start (i # rest) err mt =
     (let idx = (start + i) mod length (po_addrs pool);
          mt1 = inc Upstream_queries mt
      in case forward (po_addrs pool ! idx) i of
           Inr m \<Rightarrow>
             if i > 0 then (Inr m, pool\<lparr>po_preferred := idx\<rparr>, inc Upstream_failovers mt1) else (Inr m, pool, mt1)
         | Inl e \<Rightarrow> query_loop forward pool start rest e (inc Upstream_failures mt1))"

definition query_inner ::
  "network \<Rightarrow> (nat \<Rightarrow> u16) \<Rightarrow> upstream_pool \<Rightarrow> dns_name \<Rightarrow> u16 \<Rightarrow> bool \<Rightarrow> metrics \<Rightarrow>
     (forward_error + message) \<times> upstream_pool \<times> metrics" where
  "query_inner net ids pool qname qtype dnssec mt =
     query_loop (\<lambda>addr i. forward_query net addr (ids i) qname qtype dnssec) pool (po_preferred pool)
       [0..<length (po_addrs pool)] FeNoUpstream mt"

text \<open>
  \<open>random_id\<close>: one step of the xorshift generator behind the query ids; its seed
  is read once from the operating system.
\<close>

definition random_id :: "u64 \<Rightarrow> u64 \<times> u16" where
  "random_id s =
     (let s1 = s XOR push_bit 13 s; s2 = s1 XOR drop_bit 7 s1; s3 = s2 XOR push_bit 17 s2
      in (s3, ucast (s3 AND 0xFFFF)))"

section \<open>What an accepted reply is\<close>

lemma udp_receive_accepts: "udp_receive accept cap es = Inr m \<Longrightarrow> accept m"
  by (induction accept cap es rule: udp_receive.induct) (auto split: sum.splits if_splits)

lemma tcp_receive_accepts: "tcp_receive accept net up wire = Inr m \<Longrightarrow> accept m"
  by (auto simp: tcp_receive_def Let_def split: option.splits sum.splits prod.splits if_splits)

lemma forward_attempts_accepts: "forward_attempts net up wire query as e = Inr m \<Longrightarrow> is_reply_to m query"
  by (induction as arbitrary: e)
    (auto simp: udp_exchange_def tcp_exchange_def split: sum.splits if_splits
       dest: udp_receive_accepts tcp_receive_accepts)

lemma forward_query_accepts:
  "forward_query net up i qname qtype dnssec = Inr m \<Longrightarrow> is_reply_to m (forward_message i qname qtype dnssec)"
  unfolding forward_query_def Let_def by (rule forward_attempts_accepts)

section \<open>Failover\<close>

definition count_failure :: "metrics \<Rightarrow> metrics" where
  "count_failure m = inc Upstream_failures (inc Upstream_queries m)"

lemma query_loop_failures:
  assumes "\<forall>i \<in> set is. \<forall>m. forward (po_addrs pool ! ((start + i) mod length (po_addrs pool))) i \<noteq> Inr m"
  shows "query_loop forward pool start (is @ js) err mt =
    query_loop forward pool start js
      (if is = [] then err else projl (forward (po_addrs pool ! ((start + last is) mod length (po_addrs pool))) (last is)))
      ((count_failure ^^ length is) mt)"
  using assms
proof (induction "is" arbitrary: err mt)
  case (Cons i "is")
  then obtain e where e: "forward (po_addrs pool ! ((start + i) mod length (po_addrs pool))) i = Inl e"
    by (cases "forward (po_addrs pool ! ((start + i) mod length (po_addrs pool))) i") auto
  then show ?case using Cons by (simp add: Let_def funpow_swap1 flip: count_failure_def)
qed simp

lemma query_loop_first:
  assumes "forward (po_addrs pool ! ((start + k) mod length (po_addrs pool))) k = Inr m"
  shows "query_loop forward pool start (k # js) err mt =
    (Inr m, if k > 0 then pool\<lparr>po_preferred := (start + k) mod length (po_addrs pool)\<rparr> else pool,
     if k > 0 then inc Upstream_failovers (inc Upstream_queries mt) else inc Upstream_queries mt)"
  using assms by (simp add: Let_def)

lemma counters_funpow:
  "mt_counters ((count_failure ^^ n) mt) c =
     mt_counters mt c + (if c = Upstream_failures \<or> c = Upstream_queries then word_of_nat n else 0)"
  by (induction n) (auto simp: inc_def count_failure_def)

section \<open>The id generator\<close>

lemma xor_zero_iff: "a XOR b = 0 \<longleftrightarrow> a = (b :: 'a::len word)"
  by (metis bit.xor_self xor_self_eq bit.xor_left_self)

lemma push_bit_fixed:
  fixes s :: "'a::len word"
  assumes "push_bit n s = s" "0 < n" shows "s = 0"
proof (rule bit_word_eqI)
  fix k assume "k < LENGTH('a)"
  have "\<not> bit s k"
  proof (induction k rule: less_induct)
    case (less k)
    then show ?case using assms by (metis bit_push_bit_iff diff_less gr_zeroI not_le le_less_trans bot_nat_0.extremum linorder_not_le)
  qed
  then show "bit s k = bit (0 :: 'a word) k" by simp
qed

lemma drop_bit_fixed:
  fixes s :: "'a::len word"
  assumes "drop_bit n s = s" "0 < n" shows "s = 0"
proof -
  have "drop_bit (n * k) s = s" for k
    by (induction k) (use assms(1) in \<open>simp_all add: drop_bit_drop_bit [symmetric]\<close>)
  from this [of "LENGTH('a)"] have "drop_bit (n * LENGTH('a)) s = s" .
  moreover have "drop_bit (n * LENGTH('a)) s = 0"
    using assms(2) by (intro bit_word_eqI) (auto simp: bit_simps dest: bit_imp_le_length)
  ultimately show ?thesis by simp
qed

lemma random_id_nonzero:
  assumes "s \<noteq> 0" shows "fst (random_id s) \<noteq> 0"
proof -
  define s1 where "s1 = s XOR push_bit 13 s"
  define s2 where "s2 = s1 XOR drop_bit 7 s1"
  have "s1 \<noteq> 0" using assms push_bit_fixed [of 13 s] by (auto simp: s1_def xor_zero_iff)
  then have "s2 \<noteq> 0" using drop_bit_fixed [of 7 s1] by (auto simp: s2_def xor_zero_iff)
  then have "s2 XOR push_bit 17 s2 \<noteq> 0" using push_bit_fixed [of 17 s2] by (auto simp: xor_zero_iff)
  then show ?thesis unfolding random_id_def Let_def s2_def s1_def by simp
qed

section \<open>Properties\<close>

text \<open>
  C33: Failover.  A query goes round the pool from the preferred upstream on.  If
  the upstream in position \<open>k\<close> of that order is the first to answer, its message
  is returned, it becomes the preferred one, and exactly \<open>k + 1\<close> queries and \<open>k\<close>
  failures are counted; if none answers, the error of the last is returned
  and the preference stays.  A returned message always echoes the id and the
  question of the query sent.
\<close>
theorem pool_failover:
  assumes n: "n = length (po_addrs pool)" "po_preferred pool < n"
    and r: "\<And>i. r i = forward_query net (po_addrs pool ! ((po_preferred pool + i) mod n)) (ids i) qname qtype dnssec"
    and res: "query_inner net ids pool qname qtype dnssec mt = (result, pool', mt')"
  shows "(\<forall>k < n. (\<forall>i < k. \<not> is_ok (r i)) \<and> is_ok (r k) \<longrightarrow>
      result = r k \<and> pool' = pool\<lparr>po_preferred := (po_preferred pool + k) mod n\<rparr> \<and>
      mt_counters mt' Upstream_queries = mt_counters mt Upstream_queries + word_of_nat (k + 1) \<and>
      mt_counters mt' Upstream_failures = mt_counters mt Upstream_failures + word_of_nat k) \<and>
    ((\<forall>i < n. \<not> is_ok (r i)) \<longrightarrow> result = r (n - 1) \<and> pool' = pool) \<and>
    (\<forall>m. result = Inr m \<longrightarrow> (\<exists>i. is_reply_to m (forward_message (ids i) qname qtype dnssec)))"
proof -
  let ?fwd = "\<lambda>addr i. forward_query net addr (ids i) qname qtype dnssec"
  have q: "query_loop ?fwd pool (po_preferred pool) [0..<n] FeNoUpstream mt = (result, pool', mt')"
    using res by (simp add: query_inner_def n(1))
  have fwd: "?fwd (po_addrs pool ! ((po_preferred pool + i) mod length (po_addrs pool))) i = r i" for i
    by (simp add: r n(1))
  have first: "result = r k \<and> pool' = pool\<lparr>po_preferred := (po_preferred pool + k) mod n\<rparr> \<and>
      mt_counters mt' Upstream_queries = mt_counters mt Upstream_queries + word_of_nat (k + 1) \<and>
      mt_counters mt' Upstream_failures = mt_counters mt Upstream_failures + word_of_nat k"
    if k: "k < n" "\<forall>i < k. \<not> is_ok (r i)" "is_ok (r k)" for k
  proof -
    have "[0..<n] = [0..<k] @ k # [Suc k..<n]" using k(1) by (metis upt_conv_Cons upt_add_eq_append le_add_diff_inverse less_imp_le_nat zero_le)
    then have s: "query_loop ?fwd pool (po_preferred pool) ([0..<k] @ k # [Suc k..<n]) FeNoUpstream mt = (result, pool', mt')"
      using q by simp
    obtain m where m: "r k = Inr m" using k(3) by (auto simp: is_ok_iff)
    have fails: "\<forall>i \<in> set [0..<k]. \<forall>m. ?fwd (po_addrs pool ! ((po_preferred pool + i) mod length (po_addrs pool))) i \<noteq> Inr m"
      using k(2) by (auto simp: fwd is_ok_iff)
    have hit: "?fwd (po_addrs pool ! ((po_preferred pool + k) mod length (po_addrs pool))) k = Inr m"
      by (simp add: fwd m)
    show ?thesis
      using s n m unfolding query_loop_failures [where forward = ?fwd, OF fails] query_loop_first [where forward = ?fwd, OF hit]
      by (auto simp: inc_def counters_funpow split: if_splits)
  qed
  have none: "result = r (n - 1) \<and> pool' = pool" if all: "\<forall>i < n. \<not> is_ok (r i)"
  proof -
    have fails: "\<forall>i \<in> set [0..<n]. \<forall>m. ?fwd (po_addrs pool ! ((po_preferred pool + i) mod length (po_addrs pool))) i \<noteq> Inr m"
      using all by (auto simp: fwd is_ok_iff)
    obtain e where e: "r (n - 1) = Inl e" using all n(2) by (cases "r (n - 1)") (auto simp: is_ok_iff)
    have l: "last [0..<n] = n - 1" using n(2) by simp
    have "query_loop ?fwd pool (po_preferred pool) ([0..<n] @ []) FeNoUpstream mt = (Inl e, pool, (count_failure ^^ n) mt)"
      unfolding query_loop_failures [where forward = ?fwd, OF fails] l fwd e using n(2) by simp
    with q e show ?thesis by simp
  qed
  have echo: "\<exists>i. is_reply_to m (forward_message (ids i) qname qtype dnssec)" if "result = Inr m" for m
  proof (cases "\<exists>k < n. is_ok (r k)")
    case True
    then obtain j where j: "j < n" "is_ok (r j)" by blast
    define k where "k = (LEAST k. is_ok (r k))"
    have "k \<le> j" "is_ok (r k)" "\<forall>i < k. \<not> is_ok (r i)"
      using j(2) by (auto simp: k_def intro: Least_le LeastI dest: not_less_Least)
    then have "r k = Inr m" using first [of k] that j(1) by simp
    then show ?thesis unfolding r using forward_query_accepts by blast
  next
    case False
    then have "result = r (n - 1)" "\<not> is_ok (r (n - 1))" using none n(2) by auto
    then show ?thesis using that by (metis is_ok_simps(2))
  qed
  show ?thesis using first none echo by blast
qed

text \<open>A network on which only the second of two upstreams answers.\<close>

definition sample_reply :: "u16 \<Rightarrow> message" where
  "sample_reply i = (response_to (forward_message i [[97]] TYPE_A False))\<lparr>m_edns := None\<rparr>"

definition sample_network :: network where
  "sample_network =
     \<lparr>net_udp = (\<lambda>a addr wire. if addr = (V4 2, 53) then [Datagram (message_encode (sample_reply 7))] else []),
      net_tcp = (\<lambda>addr wire. ([], FeIo))\<rparr>"

definition sample_pool :: upstream_pool where
  "sample_pool = \<lparr>po_addrs = [(V4 1, 53), (V4 2, 53)], po_preferred = 0\<rparr>"

lemma sample_reply_ok: "message_ok (sample_reply i)"
  by (simp add: sample_reply_def message_ok_def response_to_def forward_message_def message_new_def flags_default_def
        question_ok_def name_ok_def wf_name_def wf_label_def lower_label_def to_lower_def)

lemma sample_reply_bytes: "take 2048 (message_encode (sample_reply 7)) = message_encode (sample_reply 7)"
  by (rule take_all) code_simp

lemma sample_forward:
  "forward_query sample_network (V4 1, 53) 7 [[97]] TYPE_A False = Inl FeTimeout"
  "forward_query sample_network (V4 2, 53) 7 [[97]] TYPE_A False = Inr (sample_reply 7)"
  by (simp_all add: forward_query_def udp_exchange_def sample_network_def sample_reply_bytes numeral_2_eq_2
        message_encode_parse [OF sample_reply_ok])
    (simp_all add: sample_reply_def is_reply_to_def response_to_def forward_message_def message_new_def flags_default_def)

theorem pool_failover_witness:
  "\<exists>mt'. query_inner sample_network (\<lambda>_. 7) sample_pool [[97]] TYPE_A False metrics_new =
     (Inr (sample_reply 7), sample_pool\<lparr>po_preferred := 1\<rparr>, mt')"
proof -
  obtain res p' mt' where q: "query_inner sample_network (\<lambda>_. 7) sample_pool [[97]] TYPE_A False metrics_new = (res, p', mt')"
    by (metis prod_cases3)
  from pool_failover [OF refl _ refl q] have "res = Inr (sample_reply 7) \<and> p' = sample_pool\<lparr>po_preferred := 1\<rparr>"
    by (auto simp: sample_pool_def sample_forward less_Suc_eq dest: spec [of _ 1])
  with q show ?thesis by blast
qed

end
