(* ===== verification/Recursor.thy ===== *)
theory Recursor
  imports Upstream Dns_Cache
begin

unbundle bit_operations_syntax

text \<open>
  The iterative resolver (\<open>dns-resolver/src/recursor.rs\<close>): resolution from the
  root or the deepest known zone cut down, with query name minimisation,
  bailiwick checks on referrals and glue, and the two caches.  The clock is
  read once per resolution.  The nesting depth is counted down: a call at
  depth \<open>d\<close> of the source has \<open>25 - d\<close> levels left, so the guard
  \<open>depth > MAX_DEPTH\<close> is the case of no level left and the recursion is
  structural; the 30 referral steps are a bounded loop.
\<close>

section \<open>State\<close>

abbreviation (input) MAX_REFERRALS :: nat where "MAX_REFERRALS \<equiv> 30"
abbreviation (input) MAX_NESTING :: nat where "MAX_NESTING \<equiv> 24"

definition ROOT_HINTS :: "ipv4 list" where
  "ROOT_HINTS =
     [0xC6290004, 0xC7090EC9, 0xC021040C, 0xC7075B0D, 0xC0CBE60A, 0xC00505F1, 0xC0702404,
      0xC661BE35, 0xC0249411, 0xC03A801E, 0xC1000E81, 0xC707532A, 0xCA0C1B21]"

abbreviation (input) DELEGATION_TTL :: nat where "DELEGATION_TTL \<equiv> secs 600"

record recursor =
  rc_roots :: "socket_addr list"
  rc_delegations :: "(dns_name \<times> socket_addr list \<times> nat) list"
  rc_answers :: "((dns_name \<times> u16) \<times> message \<times> nat) list"
  rc_ctr :: u16
  rc_metrics :: metrics

definition recursor_new :: "metrics \<Rightarrow> recursor" where
  "recursor_new mt =
     \<lparr>rc_roots = map (\<lambda>ip. (V4 ip, 53)) ROOT_HINTS, rc_delegations = [], rc_answers = [], rc_ctr = 0xACE1, rc_metrics = mt\<rparr>"

definition bump_counter :: "counter \<Rightarrow> recursor \<Rightarrow> recursor" where
  "bump_counter c rs = rs\<lparr>rc_metrics := inc c (rc_metrics rs)\<rparr>"

section \<open>Known zone cuts\<close>

fun cached_from :: "recursor \<Rightarrow> nat \<Rightarrow> dns_name \<Rightarrow> nat list \<Rightarrow> (dns_name \<times> socket_addr list) option" where
  "cached_from rs now qname [] = None"
| "cached_from rs now qname (skip # skips) =
     (case from_labels (drop skip qname) of
        Inl _ \<Rightarrow> cached_from rs now qname skips
      | Inr cand \<Rightarrow>
          (case map_of (rc_delegations rs) cand of
             Some (servers, e) \<Rightarrow> if e > now then Some (cand, servers) else cached_from rs now qname skips
           | None \<Rightarrow> cached_from rs now qname skips))"

definition cached_start :: "recursor \<Rightarrow> nat \<Rightarrow> dns_name \<Rightarrow> nat \<Rightarrow> (dns_name \<times> socket_addr list) option" where
  "cached_start rs now qname min_skip = cached_from rs now qname [min_skip..<length qname]"

definition cache_delegation :: "nat \<Rightarrow> dns_name \<Rightarrow> socket_addr list \<Rightarrow> recursor \<Rightarrow> recursor" where
  "cache_delegation now zone servers rs =
     (if servers = [] \<or> is_root zone then rs
      else
        let m = (if length (rc_delegations rs) > 100000
                 then filter (\<lambda>(_, _, e). e > now) (rc_delegations rs) else rc_delegations rs)
        in rs\<lparr>rc_delegations := AList.update zone (servers, now + DELEGATION_TTL) m\<rparr>)"

section \<open>Queries\<close>

definition query_id :: "u16 \<Rightarrow> u16" where
  "query_id x = x XOR drop_bit 7 x"

definition recursor_message :: "u16 \<Rightarrow> dns_name \<Rightarrow> u16 \<Rightarrow> message" where
  "recursor_message i qname qtype =
     (message_new i (flags_default\<lparr>fl_rd := False, fl_cd := True\<rparr>))
     \<lparr>m_questions := [\<lparr>q_name = qname, q_type = qtype, q_class = CLASS_IN\<rparr>],
      m_edns := Some (edns_ours\<lparr>ed_do_bit := True\<rparr>)\<rparr>"

definition query_one :: "network \<Rightarrow> socket_addr \<Rightarrow> u16 \<Rightarrow> dns_name \<Rightarrow> u16 \<Rightarrow> forward_error + message" where
  "query_one net server i qname qtype =
     (let wire = message_encode (recursor_message i qname qtype);
          accept = (\<lambda>m. m_id m = i \<and> fl_qr (m_flags m))
      in and_then (udp_receive accept 4096 (net_udp net 0 server wire)) (\<lambda>m.
           if fl_tc (m_flags m) then tcp_receive accept net server wire else Inr m))"

fun query_servers_loop ::
  "network \<Rightarrow> socket_addr list \<Rightarrow> dns_name \<Rightarrow> u16 \<Rightarrow> recursor \<Rightarrow> message option \<times> recursor" where
  "query_servers_loop net [] qname qtype rs = (None, rs)"
| "query_servers_loop net (server # servers) qname qtype rs =
     (let i = query_id (rc_ctr rs);
          rs1 = (bump_counter Upstream_queries rs)\<lparr>rc_ctr := rc_ctr rs + 0x9E37\<rparr>
      in case query_one net server i qname qtype of
           Inr m \<Rightarrow> (Some m, rs1)
         | Inl _ \<Rightarrow> query_servers_loop net servers qname qtype (bump_counter Upstream_failures rs1))"

definition query_servers ::
  "network \<Rightarrow> socket_addr list \<Rightarrow> dns_name \<Rightarrow> u16 \<Rightarrow> recursor \<Rightarrow> message option \<times> recursor" where
  "query_servers net servers qname qtype rs = query_servers_loop net (take 4 servers) qname qtype rs"

definition finalize :: "message \<Rightarrow> dns_name \<Rightarrow> u16 \<Rightarrow> message" where
  "finalize resp qname qtype =
     resp\<lparr>m_questions := [\<lparr>q_name = qname, q_type = qtype, q_class = CLASS_IN\<rparr>],
          m_flags := (m_flags resp)\<lparr>fl_aa := False, fl_ra := True\<rparr>\<rparr>"

definition suffix_name :: "dns_name \<Rightarrow> nat \<Rightarrow> dns_name" where
  "suffix_name name keep =
     (if keep \<ge> length name then name
      else case from_labels (drop (length name - keep) name) of Inr n \<Rightarrow> n | Inl _ \<Rightarrow> name)"

section \<open>Referrals\<close>

definition a_addr :: "rr \<Rightarrow> socket_addr option" where
  "a_addr r = (case rr_rdata r of RD_A ip \<Rightarrow> Some (V4 ip, 53) | _ \<Rightarrow> None)"

definition glue_addr :: "rr \<Rightarrow> socket_addr option" where
  "glue_addr r = (case rr_rdata r of RD_A ip \<Rightarrow> Some (V4 ip, 53) | RD_Aaaa ip \<Rightarrow> Some (V6 ip, 53) | _ \<Rightarrow> None)"

definition ns_target :: "rr \<Rightarrow> dns_name option" where
  "ns_target r = (case rr_rdata r of RD_Ns n \<Rightarrow> Some n | _ \<Rightarrow> None)"

definition cname_target :: "rr \<Rightarrow> dns_name option" where
  "cname_target r = (case rr_rdata r of RD_Cname n \<Rightarrow> Some n | _ \<Rightarrow> None)"

type_synonym nested = "dns_name \<Rightarrow> u16 \<Rightarrow> recursor \<Rightarrow> (forward_error + message) \<times> recursor"

text \<open>The loop over name servers without glue; \<open>nested\<close> is the resolution one level down.\<close>

fun resolve_ns :: "nested \<Rightarrow> dns_name list \<Rightarrow> recursor \<Rightarrow> socket_addr list \<times> recursor" where
  "resolve_ns nested [] rs = ([], rs)"
| "resolve_ns nested (ns # rest) rs =
     (case nested ns TYPE_A rs of
        (Inl _, rs') \<Rightarrow> resolve_ns nested rest rs'
      | (Inr m, rs') \<Rightarrow>
          let found = List.map_filter a_addr (m_answers m)
          in if found \<noteq> [] then (found, rs') else resolve_ns nested rest rs')"

definition referral_addrs ::
  "nested \<Rightarrow> bool \<Rightarrow> message \<Rightarrow> dns_name list \<Rightarrow> dns_name \<Rightarrow> recursor \<Rightarrow> socket_addr list option \<times> recursor" where
  "referral_addrs nested at_max resp ns_names zone rs =
     (let glue = List.map_filter glue_addr
                   (filter (\<lambda>r. rr_name r \<in> set ns_names \<and> ends_with (rr_name r) zone) (m_additionals resp))
      in if glue \<noteq> [] then (Some glue, rs)
         else if at_max then (None, rs)
         else
           let (addrs, rs') = resolve_ns nested ns_names rs
           in (if addrs \<noteq> [] then Some addrs else None, rs'))"

text \<open>What one step of the loop decides: return, or go on with servers, zone, depth and mode.\<close>

datatype progress =
    Finished "forward_error + message"
  | Continue "socket_addr list" dns_name nat bool

definition chase_target :: "message \<Rightarrow> dns_name \<Rightarrow> u16 \<Rightarrow> dns_name option" where
  "chase_target resp qname qtype =
     (if qtype \<noteq> TYPE_CNAME then
        Option.bind (find (\<lambda>r. rr_name r = qname \<and> rr_rtype r = TYPE_CNAME) (m_answers resp)) (\<lambda>r.
          Option.bind (cname_target r) (\<lambda>t.
            if list_ex (\<lambda>r. rr_rtype r = qtype) (m_answers resp) then None else Some t))
      else None)"

definition answer_step :: "nested \<Rightarrow> message \<Rightarrow> dns_name \<Rightarrow> u16 \<Rightarrow> recursor \<Rightarrow> progress \<times> recursor" where
  "answer_step nested resp qname qtype rs =
     (case chase_target resp qname qtype of
        None \<Rightarrow> (Finished (Inr (finalize resp qname qtype)), rs)
      | Some target \<Rightarrow>
          (case nested target qtype rs of
             (Inl e, rs') \<Rightarrow> (Finished (Inl e), rs')
           | (Inr chased, rs') \<Rightarrow>
               (Finished (Inr (chased\<lparr>m_answers := m_answers resp @ m_answers chased,
                  m_questions := [\<lparr>q_name = qname, q_type = qtype, q_class = CLASS_IN\<rparr>]\<rparr>)), rs')))"

definition referral_step ::
  "nested \<Rightarrow> bool \<Rightarrow> nat \<Rightarrow> message \<Rightarrow> dns_name list \<Rightarrow> dns_name \<Rightarrow> dns_name \<Rightarrow> u16 \<Rightarrow>
     socket_addr list \<Rightarrow> dns_name \<Rightarrow> nat \<Rightarrow> bool \<Rightarrow> bool \<Rightarrow> recursor \<Rightarrow> progress \<times> recursor" where
  "referral_step nested at_max now resp ns_names new_zone qname qtype servers current_zone zone_depth minimize is_full rs =
     (if qtype = TYPE_DS \<and> new_zone = qname then (Finished (Inr (finalize resp qname qtype)), rs)
      else if \<not> ends_with new_zone current_zone \<or> label_count new_zone \<le> label_count current_zone then
        if minimize \<and> \<not> is_full then (Continue servers current_zone zone_depth False, rs)
        else (Finished (Inr (finalize resp qname qtype)), rs)
      else
        (case referral_addrs nested at_max resp ns_names current_zone rs of
           (None, rs') \<Rightarrow> (Finished (Inl FeTimeout), rs')
         | (Some servers', rs') \<Rightarrow>
             (Continue servers' new_zone (max (label_count new_zone) (zone_depth + 1)) minimize,
              cache_delegation now new_zone servers' rs')))"

definition response_step ::
  "nested \<Rightarrow> bool \<Rightarrow> nat \<Rightarrow> message \<Rightarrow> dns_name \<Rightarrow> u16 \<Rightarrow> dns_name \<Rightarrow>
     socket_addr list \<Rightarrow> dns_name \<Rightarrow> nat \<Rightarrow> bool \<Rightarrow> bool \<Rightarrow> recursor \<Rightarrow> progress \<times> recursor" where
  "response_step nested at_max now resp qname qtype min_name servers current_zone zone_depth minimize is_full rs =
     (let ns = filter (\<lambda>r. rr_rtype r = TYPE_NS) (m_authorities resp);
          ns_names = List.map_filter ns_target ns;
          new_zone = (case ns of r # _ \<Rightarrow> rr_name r | [] \<Rightarrow> min_name)
      in if is_full \<and> list_ex (\<lambda>r. rr_name r = qname \<and> (rr_rtype r = qtype \<or> rr_rtype r = TYPE_CNAME)) (m_answers resp)
         then answer_step nested resp qname qtype rs
         else if is_full \<and> ns_names = [] then (Finished (Inr (finalize resp qname qtype)), rs)
         else if ns_names \<noteq> [] then
           referral_step nested at_max now resp ns_names new_zone qname qtype servers current_zone zone_depth minimize is_full rs
         else if fl_rcode (m_flags resp) = RCODE_NXDOMAIN then (Continue servers current_zone zone_depth False, rs)
         else (Continue servers current_zone (zone_depth + 1)
                 (if zone_depth + 1 \<ge> label_count qname then False else minimize), rs))"

section \<open>Resolution\<close>

fun referral_loop ::
  "network \<Rightarrow> nested \<Rightarrow> bool \<Rightarrow> nat \<Rightarrow> nat \<Rightarrow> dns_name \<Rightarrow> u16 \<Rightarrow>
     socket_addr list \<Rightarrow> dns_name \<Rightarrow> nat \<Rightarrow> bool \<Rightarrow> recursor \<Rightarrow> (forward_error + message) \<times> recursor" where
  "referral_loop net nested at_max now 0 qname qtype servers current_zone zone_depth minimize rs = (Inl FeTimeout, rs)"
| "referral_loop net nested at_max now (Suc n) qname qtype servers current_zone zone_depth minimize rs =
     (let full_labels = label_count qname;
          keep = (if minimize then min (zone_depth + 1) full_labels else full_labels);
          is_full = (keep = full_labels);
          min_name = suffix_name qname keep;
          step_type = (if is_full then qtype else TYPE_NS)
      in case query_servers net servers min_name step_type rs of
           (None, rs1) \<Rightarrow> (Inl FeTimeout, rs1)
         | (Some resp, rs1) \<Rightarrow>
             (case response_step nested at_max now resp qname qtype min_name servers current_zone zone_depth minimize is_full rs1 of
                (Finished r, rs2) \<Rightarrow> (r, rs2)
              | (Continue servers' zone' depth' minimize', rs2) \<Rightarrow>
                  referral_loop net nested at_max now n qname qtype servers' zone' depth' minimize' rs2))"

text \<open>\<open>resolve_depth\<close> at depth \<open>25 - levels\<close>.\<close>

fun resolve_depth :: "network \<Rightarrow> nat \<Rightarrow> nat \<Rightarrow> nested" where
  "resolve_depth net now 0 qname qtype rs = (Inl FeTimeout, rs)"
| "resolve_depth net now (Suc levels) qname qtype rs =
     (let (servers, zone) =
        (case cached_start rs now qname (if qtype = TYPE_DS then 1 else 0) of
           Some (zone, s) \<Rightarrow> (s, zone)
         | None \<Rightarrow> (rc_roots rs, Dns_Name.root))
      in referral_loop net (resolve_depth net now levels) (levels = 0) now MAX_REFERRALS qname qtype
           servers zone (label_count zone) True rs)"

definition answer_ttl :: "message \<Rightarrow> u32" where
  "answer_ttl msg =
     min (max (case min_ttl (m_answers msg) of Some t \<Rightarrow> t | None \<Rightarrow> 300) 5) 3600"

definition resolve_and_store :: "network \<Rightarrow> nat \<Rightarrow> nested" where
  "resolve_and_store net now qname qtype rs =
     (case resolve_depth net now (MAX_NESTING + 1) qname qtype rs of
        (Inl e, rs') \<Rightarrow> (Inl e, rs')
      | (Inr msg, rs') \<Rightarrow>
          let m = (if length (rc_answers rs') > 100000
                   then filter (\<lambda>(_, _, e). e > now) (rc_answers rs') else rc_answers rs')
          in (Inr msg, rs'\<lparr>rc_answers := AList.update (qname, qtype) (msg, now + secs (unat (answer_ttl msg))) m\<rparr>))"

definition recursor_resolve :: "network \<Rightarrow> nat \<Rightarrow> nested" where
  "recursor_resolve net now qname qtype rs =
     (case map_of (rc_answers rs) (qname, qtype) of
        Some (msg, e) \<Rightarrow>
          if e > now then (Inr msg, bump_counter Cache_hits rs)
          else resolve_and_store net now qname qtype rs
      | None \<Rightarrow> resolve_and_store net now qname qtype rs)"

section \<open>What a resolution returns\<close>

definition presented :: "message \<Rightarrow> dns_name \<Rightarrow> u16 \<Rightarrow> bool" where
  "presented m qname qtype \<longleftrightarrow> m_questions m = [\<lparr>q_name = qname, q_type = qtype, q_class = CLASS_IN\<rparr>] \<and>
     \<not> fl_aa (m_flags m) \<and> fl_ra (m_flags m)"

definition nested_presents :: "nested \<Rightarrow> bool" where
  "nested_presents nested \<longleftrightarrow> (\<forall>qname qtype rs m rs'. nested qname qtype rs = (Inr m, rs') \<longrightarrow> presented m qname qtype)"

lemma presented_finalize [simp]: "presented (finalize resp qname qtype) qname qtype"
  by (simp add: presented_def finalize_def)

lemma answer_step_presented:
  assumes "nested_presents nested" "answer_step nested resp qname qtype rs = (p, rs')"
  shows "\<exists>r. p = Finished r \<and> (\<forall>m. r = Inr m \<longrightarrow> presented m qname qtype)"
  using assms(2)
proof (cases "chase_target resp qname qtype")
  case None
  then show ?thesis using assms(2) by (auto simp: answer_step_def)
next
  case (Some target)
  obtain x rs1 where n: "nested target qtype rs = (x, rs1)" by fastforce
  show ?thesis
  proof (cases x)
    case (Inl e)
    then show ?thesis using assms(2) Some n by (auto simp: answer_step_def)
  next
    case (Inr m)
    then have "presented m target qtype" using assms(1) n unfolding nested_presents_def by blast
    then show ?thesis using assms(2) Some n Inr by (auto simp: answer_step_def presented_def)
  qed
qed

lemma answer_step_finished:
  "nested_presents nested \<Longrightarrow> answer_step nested resp qname qtype rs = (Finished (Inr m), rs') \<Longrightarrow> presented m qname qtype"
  using answer_step_presented by fastforce

lemma response_step_presented:
  assumes "nested_presents nested"
    and "response_step nested at_max now resp qname qtype mn servers cz zd mi fu rs = (Finished (Inr m), rs')"
  shows "presented m qname qtype"
  using assms(2)
  by (auto dest!: answer_step_finished [OF assms(1)] simp: response_step_def referral_step_def Let_def split: if_splits prod.splits option.splits)

lemma referral_loop_presented:
  assumes "nested_presents nested"
  shows "referral_loop net nested at_max now n qname qtype servers cz zd mi rs = (Inr m, rs') \<Longrightarrow> presented m qname qtype"
proof (induction n arbitrary: servers cz zd mi rs)
  case (Suc n)
  then show ?case
    using response_step_presented [OF assms]
    by (auto simp: Let_def split: prod.splits option.splits progress.splits)
qed simp

lemma resolve_depth_presented: "nested_presents (resolve_depth net now levels)"
proof (induction levels)
  case (Suc levels)
  then show ?case
    unfolding nested_presents_def
    using referral_loop_presented [OF Suc] by (auto split: prod.splits option.splits)
qed (simp add: nested_presents_def)

section \<open>Referrals stay in bailiwick\<close>

lemma set_map_filter_iff: "a \<in> set (List.map_filter f xs) \<longleftrightarrow> (\<exists>x \<in> set xs. f x = Some a)"
  by (induction xs) (auto simp: List.map_filter_def)

lemma resolve_ns_source:
  "resolve_ns nested nss rs = (addrs, rs') \<Longrightarrow> a \<in> set addrs \<Longrightarrow>
     \<exists>ns \<in> set nss. \<exists>rs1 m rs2. nested ns TYPE_A rs1 = (Inr m, rs2) \<and> a \<in> set (List.map_filter a_addr (m_answers m))"
proof (induction nss arbitrary: rs)
  case (Cons ns nss)
  obtain x rs1 where n: "nested ns TYPE_A rs = (x, rs1)" by fastforce
  show ?case
  proof (cases x)
    case (Inl e)
    then show ?thesis using Cons n by auto
  next
    case (Inr m)
    show ?thesis
    proof (cases "List.map_filter a_addr (m_answers m) = []")
      case True
      then show ?thesis using Cons n Inr by auto
    next
      case False
      then show ?thesis using Cons.prems n Inr by (auto simp: Let_def)
    qed
  qed
qed simp

definition address_source :: "nested \<Rightarrow> message \<Rightarrow> dns_name list \<Rightarrow> dns_name \<Rightarrow> socket_addr \<Rightarrow> bool" where
  "address_source nested resp ns_names zone a \<longleftrightarrow>
     (\<exists>r \<in> set (m_additionals resp). glue_addr r = Some a \<and> rr_name r \<in> set ns_names \<and> ends_with (rr_name r) zone) \<or>
     (\<exists>ns \<in> set ns_names. \<exists>rs1 m rs2. nested ns TYPE_A rs1 = (Inr m, rs2) \<and>
        (\<exists>r \<in> set (m_answers m). a_addr r = Some a))"

lemma referral_addrs_source:
  assumes "referral_addrs nested at_max resp ns_names zone rs = (Some servers, rs')"
  shows "servers \<noteq> [] \<and> list_all (address_source nested resp ns_names zone) servers"
  using assms resolve_ns_source [of nested ns_names rs]
  by (auto simp: referral_addrs_def Let_def list_all_iff address_source_def set_map_filter_iff
        split: if_splits prod.splits)

text \<open>The learned delegations: one entry per zone, none for the root, none empty.\<close>

definition delegations_ok :: "recursor \<Rightarrow> bool" where
  "delegations_ok rs \<longleftrightarrow> distinct (map fst (rc_delegations rs)) \<and>
     list_all (\<lambda>(zone, servers, e). \<not> is_root zone \<and> servers \<noteq> []) (rc_delegations rs)"

lemma distinct_filter_fst: "distinct (map fst xs) \<Longrightarrow> distinct (map fst (filter P xs))"
  by (induction xs) auto

lemma list_all_update:
  "list_all P xs \<Longrightarrow> P (k, v) \<Longrightarrow> list_all P (AList.update k v xs)"
  by (induction xs) auto

lemma cache_delegation_ok [inv_intros]: "delegations_ok rs \<Longrightarrow> delegations_ok (cache_delegation now zone servers rs)"
  by (auto simp: delegations_ok_def cache_delegation_def Let_def distinct_filter_fst
        intro!: list_all_update distinct_update) (auto simp: list_all_iff)

lemma bump_counter_keeps [simp]: "rc_delegations (bump_counter c rs) = rc_delegations rs" "rc_roots (bump_counter c rs) = rc_roots rs"
  "rc_answers (bump_counter c rs) = rc_answers rs"
  by (simp_all add: bump_counter_def)

lemma query_servers_loop_keeps:
  "query_servers_loop net servers qname qtype rs = (r, rs') \<Longrightarrow>
     rc_delegations rs' = rc_delegations rs \<and> rc_roots rs' = rc_roots rs \<and> rc_answers rs' = rc_answers rs"
proof (induction servers arbitrary: rs)
  case (Cons a servers)
  then show ?case by (force simp: Let_def split: sum.splits)
qed simp

text \<open>What one level keeps of the state.\<close>

definition keeps :: "recursor \<Rightarrow> recursor \<Rightarrow> bool" where
  "keeps rs rs' \<longleftrightarrow> (delegations_ok rs \<longrightarrow> delegations_ok rs') \<and> rc_roots rs' = rc_roots rs \<and> rc_answers rs' = rc_answers rs"

definition nested_keeps :: "nested \<Rightarrow> bool" where
  "nested_keeps nested \<longleftrightarrow> (\<forall>qname qtype rs r rs'. nested qname qtype rs = (r, rs') \<longrightarrow> keeps rs rs')"

lemma keeps_refl [simp]: "keeps rs rs"
  by (simp add: keeps_def)

lemma keeps_trans: "keeps rs rs1 \<Longrightarrow> keeps rs1 rs2 \<Longrightarrow> keeps rs rs2"
  by (auto simp: keeps_def)

lemma keeps_delegation: "keeps rs (cache_delegation now zone servers rs)"
  using cache_delegation_ok by (auto simp: keeps_def) (auto simp: cache_delegation_def Let_def)

lemma query_servers_keeps: "query_servers net servers qname qtype rs = (r, rs') \<Longrightarrow> keeps rs rs'"
  using query_servers_loop_keeps [of net "take 4 servers" qname qtype rs]
  by (auto simp: query_servers_def keeps_def delegations_ok_def)

lemma resolve_ns_keeps:
  assumes "nested_keeps nested"
  shows "resolve_ns nested nss rs = (addrs, rs') \<Longrightarrow> keeps rs rs'"
proof (induction nss arbitrary: rs)
  case (Cons ns nss)
  obtain x rs1 where n: "nested ns TYPE_A rs = (x, rs1)" by fastforce
  then have "keeps rs rs1" using assms by (auto simp: nested_keeps_def)
  then show ?case
    using Cons n keeps_trans by (cases x) (auto simp: Let_def split: if_splits)
qed simp

lemma referral_addrs_keeps:
  assumes "nested_keeps nested" "referral_addrs nested at_max resp ns_names zone rs = (r, rs')"
  shows "keeps rs rs'"
  using assms(2) resolve_ns_keeps [OF assms(1), of ns_names rs]
  by (auto simp: referral_addrs_def Let_def split: if_splits prod.splits)

lemma response_step_keeps:
  assumes "nested_keeps nested"
    and "response_step nested at_max now resp qname qtype mn servers cz zd mi fu rs = (p, rs')"
  shows "keeps rs rs'"
proof -
  have "keeps rs rs'" if "answer_step nested resp qname qtype rs = (p, rs')"
    using that assms(1)
    by (auto simp: answer_step_def nested_keeps_def split: option.splits prod.splits sum.splits)
  moreover have "keeps rs rs'"
    if "referral_step nested at_max now resp ns_names nz qname qtype servers cz zd mi fu rs = (p, rs')" for ns_names nz
    using that referral_addrs_keeps [OF assms(1), of at_max resp ns_names cz rs] keeps_trans keeps_delegation
    by (fastforce simp: referral_step_def split: if_splits prod.splits option.splits)
  ultimately show ?thesis
    using assms(2) by (auto simp: response_step_def Let_def split: if_splits)
qed

lemma referral_loop_keeps:
  assumes "nested_keeps nested"
  shows "referral_loop net nested at_max now n qname qtype servers cz zd mi rs = (r, rs') \<Longrightarrow> keeps rs rs'"
proof (induction n arbitrary: servers cz zd mi rs)
  case (Suc n)
  define fu where "fu \<longleftrightarrow> (if mi then min (zd + 1) (label_count qname) else label_count qname) = label_count qname"
  define mn where "mn = suffix_name qname (if mi then min (zd + 1) (label_count qname) else label_count qname)"
  obtain m rs1 where q: "query_servers net servers mn (if fu then qtype else TYPE_NS) rs = (m, rs1)" by fastforce
  note k1 = query_servers_keeps [OF q]
  show ?case
  proof (cases m)
    case None
    then show ?thesis using Suc.prems q k1 by (simp add: Let_def flip: fu_def mn_def)
  next
    case (Some resp)
    obtain p rs2 where p: "response_step nested at_max now resp qname qtype mn servers cz zd mi fu rs1 = (p, rs2)" by fastforce
    note k2 = keeps_trans [OF k1 response_step_keeps [OF assms p]]
    show ?thesis
      using Suc.prems Suc.IH q Some p k2 keeps_trans
      by (cases p) (auto simp: Let_def simp flip: fu_def mn_def)
  qed
qed simp

lemma resolve_depth_keeps: "nested_keeps (resolve_depth net now levels)"
proof (induction levels)
  case (Suc levels)
  then show ?case
    unfolding nested_keeps_def
    using referral_loop_keeps [OF Suc] by (auto split: prod.splits option.splits)
qed (simp add: nested_keeps_def)

section \<open>Properties\<close>

text \<open>
  C31: Poisoning defence of the iterative resolver.  A response moves the
  resolution to other servers only for a zone inside, and with more labels
  than, the zone whose servers were asked; every address it then uses is glue
  for one of the named servers inside the zone that was asked, or an A record
  found by resolving the server's name from scratch.  Otherwise servers, zone
  and the learned delegations stay as they were.
\<close>
theorem referral_in_bailiwick:
  assumes "response_step nested at_max now resp qname qtype min_name servers zone depth minimize is_full rs =
      (Continue servers' zone' depth' minimize', rs')"
    and "ns_names = List.map_filter ns_target (filter (\<lambda>r. rr_rtype r = TYPE_NS) (m_authorities resp))"
  shows "(servers' = servers \<and> zone' = zone \<and> rs' = rs) \<or>
    (ends_with zone' zone \<and> label_count zone < label_count zone' \<and> servers' \<noteq> [] \<and>
     list_all (address_source nested resp ns_names zone) servers')"
proof -
  have ans: "answer_step nested resp qname qtype rs \<noteq> (Continue servers' zone' depth' minimize', rs')"
    by (auto simp: answer_step_def split: option.splits prod.splits sum.splits)
  show ?thesis
    using assms(1) ans
    by (auto simp: response_step_def Let_def referral_step_def not_le assms(2)
          split: if_splits prod.splits option.splits dest!: referral_addrs_source)
qed

definition sample_referral :: message where
  "sample_referral = (message_new 1 flags_default)
     \<lparr>m_authorities := [\<lparr>rr_name = [[99]], rr_class = CLASS_IN, rr_ttl = 60, rr_rdata = RD_Ns [[110], [99]]\<rparr>],
      m_additionals := [\<lparr>rr_name = [[110], [99]], rr_class = CLASS_IN, rr_ttl = 60, rr_rdata = RD_A 5\<rparr>]\<rparr>"

lemma sample_referral_step:
  "response_step nested False 0 sample_referral [[97], [99]] TYPE_A [[99]] [(V4 1, 53)] [] 0 True False (recursor_new metrics_new) =
     (Continue [(V4 5, 53)] [[99]] 1 True,
      cache_delegation 0 [[99]] [(V4 5, 53)] (recursor_new metrics_new))"
  by (simp add: response_step_def referral_step_def referral_addrs_def sample_referral_def message_new_def rr_rtype_def
        List.map_filter_def ns_target_def glue_addr_def ends_with_def label_count_def)

theorem referral_in_bailiwick_witness:
  "ends_with [[99]] [] \<and> list_all (address_source (\<lambda>_ _ rs. (Inl FeTimeout, rs)) sample_referral [[[110], [99]]] []) [(V4 5, 53)]"
  using referral_in_bailiwick [OF sample_referral_step [of "\<lambda>_ _ rs. (Inl FeTimeout, rs)"] refl]
  by (simp add: sample_referral_def message_new_def rr_rtype_def List.map_filter_def ns_target_def)

lemma answer_ttl_bounds: "5 \<le> unat (answer_ttl m)" "unat (answer_ttl m) \<le> 3600"
proof -
  have "(5 :: u32) \<le> answer_ttl m" "answer_ttl m \<le> 3600"
    by (auto simp: answer_ttl_def min_def max_def split: option.splits)
  then show "5 \<le> unat (answer_ttl m)" "unat (answer_ttl m) \<le> 3600"
    by (simp_all add: word_le_nat_alt)
qed

text \<open>
  A successful iterative resolution always returns (the depth and the
  number of referrals are bounded) a message presented for the question that
  was asked, with RA set and AA clear; it keeps the learned delegations well
  formed, and for at least five seconds the same question is answered again
  with the same message, whatever the network does.
\<close>
theorem recursor_resolve_caches:
  assumes "recursor_resolve net now qname qtype rs = (Inr m, rs')" "delegations_ok rs"
    and "\<And>msg e. map_of (rc_answers rs) (qname, qtype) = Some (msg, e) \<Longrightarrow> e \<le> now"
  shows "presented m qname qtype \<and> delegations_ok rs' \<and> rc_roots rs' = rc_roots rs \<and>
    (\<forall>net' now'. now' < now + secs 5 \<longrightarrow> recursor_resolve net' now' qname qtype rs' = (Inr m, bump_counter Cache_hits rs'))"
proof -
  have store: "resolve_and_store net now qname qtype rs = (Inr m, rs')"
    using assms(1,3) by (auto simp: recursor_resolve_def split: option.splits if_splits)
  then obtain rs1 where r: "resolve_depth net now (MAX_NESTING + 1) qname qtype rs = (Inr m, rs1)"
    by (auto simp: resolve_and_store_def Let_def split: prod.splits sum.splits)
  have "presented m qname qtype" using resolve_depth_presented r unfolding nested_presents_def by blast
  moreover have k: "keeps rs rs1" using resolve_depth_keeps r unfolding nested_keeps_def by blast
  moreover have rs': "delegations_ok rs' = delegations_ok rs1" "rc_roots rs' = rc_roots rs1"
    "map_of (rc_answers rs') (qname, qtype) = Some (m, now + secs (unat (answer_ttl m)))"
    using store r by (auto simp: resolve_and_store_def Let_def delegations_ok_def)
  moreover have "recursor_resolve net' now' qname qtype rs' = (Inr m, bump_counter Cache_hits rs')" if "now' < now + secs 5" for net' now'
  proof -
    have "secs 5 \<le> secs (unat (answer_ttl m))" using answer_ttl_bounds(1) [of m] by (simp add: secs_def)
    then show ?thesis using that rs'(3) by (simp add: recursor_resolve_def)
  qed
  ultimately show ?thesis using assms(2) by (simp add: keeps_def)
qed

definition sample_answer_from_root :: message where
  "sample_answer_from_root = (message_new (query_id 0xACE1) (flags_default\<lparr>fl_qr := True, fl_aa := True\<rparr>))
     \<lparr>m_answers := [\<lparr>rr_name = [[97]], rr_class = CLASS_IN, rr_ttl = 60, rr_rdata = RD_A 9\<rparr>]\<rparr>"

definition sample_root_network :: network where
  "sample_root_network =
     \<lparr>net_udp = (\<lambda>a addr wire. [Datagram (message_encode sample_answer_from_root)]), net_tcp = (\<lambda>addr wire. ([], FeIo))\<rparr>"

lemma sample_root_message_ok: "message_ok sample_answer_from_root"
  by (simp add: sample_answer_from_root_def message_ok_def message_new_def flags_default_def rr_ok_def
        name_ok_def wf_name_def wf_label_def lower_label_def to_lower_def)

lemma sample_root_bytes: "take 4096 (message_encode sample_answer_from_root) = message_encode sample_answer_from_root"
  by (rule take_all) code_simp

lemma sample_root_query:
  "query_one sample_root_network server (query_id 0xACE1) [[97]] TYPE_A = Inr sample_answer_from_root"
  by (simp add: query_one_def sample_root_network_def sample_root_bytes message_encode_parse [OF sample_root_message_ok])
    (simp add: sample_answer_from_root_def message_new_def flags_default_def)

lemma sample_root_response:
  "response_step nested at_max 0 sample_answer_from_root [[97]] TYPE_A mn servers zone depth mi True rs =
     (Finished (Inr (finalize sample_answer_from_root [[97]] TYPE_A)), rs)"
  by (simp add: response_step_def answer_step_def chase_target_def sample_answer_from_root_def message_new_def rr_rtype_def)

lemma sample_root_servers:
  "\<exists>rs'. query_servers sample_root_network (rc_roots (recursor_new metrics_new)) [[97]] TYPE_A (recursor_new metrics_new) =
     (Some sample_answer_from_root, rs')"
  by (simp add: query_servers_def recursor_new_def ROOT_HINTS_def sample_root_query Let_def)

lemma sample_root_resolve:
  "\<exists>rs'. recursor_resolve sample_root_network 0 [[97]] TYPE_A (recursor_new metrics_new) =
     (Inr (finalize sample_answer_from_root [[97]] TYPE_A), rs')"
proof -
  let ?rs = "recursor_new metrics_new"
  obtain rs1 where q: "query_servers sample_root_network (rc_roots ?rs) [[97]] TYPE_A ?rs = (Some sample_answer_from_root, rs1)"
    using sample_root_servers by blast
  have start: "cached_start ?rs 0 [[97]] 0 = None" by (simp add: cached_start_def recursor_new_def from_labels_def split: sum.splits)
  have n: "(24 :: nat) + 1 = Suc 24" "(30 :: nat) = Suc 29" by simp_all
  have "resolve_depth sample_root_network 0 (MAX_NESTING + 1) [[97]] TYPE_A ?rs =
      (Inr (finalize sample_answer_from_root [[97]] TYPE_A), rs1)"
    unfolding n resolve_depth.simps(2) referral_loop.simps(2)
    by (simp add: start label_count_def suffix_name_def root_def q sample_root_response del: One_nat_def)
  moreover have "rc_answers ?rs = []" by (simp add: recursor_new_def)
  ultimately show ?thesis by (simp add: recursor_resolve_def resolve_and_store_def Let_def)
qed

theorem recursor_resolve_caches_witness:
  "\<exists>m rs'. recursor_resolve sample_root_network 0 [[97]] TYPE_A (recursor_new metrics_new) = (Inr m, rs') \<and>
     presented m [[97]] TYPE_A \<and>
     recursor_resolve sample_network 1000000000 [[97]] TYPE_A rs' = (Inr m, bump_counter Cache_hits rs')"
proof -
  obtain rs' where r: "recursor_resolve sample_root_network 0 [[97]] TYPE_A (recursor_new metrics_new) =
      (Inr (finalize sample_answer_from_root [[97]] TYPE_A), rs')" using sample_root_resolve by blast
  have "delegations_ok (recursor_new metrics_new)" by (simp add: delegations_ok_def recursor_new_def)
  from recursor_resolve_caches [OF r this] r show ?thesis
    by (fastforce simp: recursor_new_def secs_def)
qed

end
