(* ===== verification/Rpz.thy ===== *)
theory Rpz
  imports Guard
begin

text \<open>
  The response policy (\<open>dns-resolver/src/rpz.rs\<close>): rules by name, the most
  specific one wins.  The text format of the rules is in \<open>Settings\<close>.
\<close>

datatype rpz_action = Block | Redirect ip_addr

type_synonym rpz = "(dns_name \<times> rpz_action) list"

definition rpz_len :: "rpz \<Rightarrow> nat" where
  "rpz_len rules = length rules"

fun rpz_from :: "rpz \<Rightarrow> dns_name \<Rightarrow> nat list \<Rightarrow> rpz_action option" where
  "rpz_from rules qname [] = None"
| "rpz_from rules qname (skip # skips) =
     (case from_labels (drop skip qname) of
        Inl _ \<Rightarrow> None
      | Inr candidate \<Rightarrow>
          (case map_of rules candidate of
             Some action \<Rightarrow> Some action
           | None \<Rightarrow> rpz_from rules qname skips))"

definition rpz_lookup :: "rpz \<Rightarrow> dns_name \<Rightarrow> rpz_action option" where
  "rpz_lookup rules qname = (if rules = [] then None else rpz_from rules qname [0..<length qname])"

section \<open>The most specific rule\<close>

lemma wf_name_drop: "wf_name n \<Longrightarrow> wf_name (drop k n)"
  using wire_len_append [of "take k n" "drop k n"]
  by (auto simp: wf_name_def list_all_iff dest: in_set_dropD) (simp add: wire_len_def)

lemma rpz_from_spec:
  assumes "wf_name qname"
  shows "rpz_from rules qname [i..<length qname] = Some action \<longleftrightarrow>
    (\<exists>k. i \<le> k \<and> k < length qname \<and> map_of rules (drop k qname) = Some action \<and>
       (\<forall>j. i \<le> j \<and> j < k \<longrightarrow> map_of rules (drop j qname) = None))"
proof (induction "length qname - i" arbitrary: i)
  case (Suc n)
  then have i: "[i..<length qname] = i # [i + 1..<length qname]" by (simp add: upt_conv_Cons)
  have c: "from_labels (drop i qname) = Inr (drop i qname)"
    by (simp add: wf_name_from_labels wf_name_drop assms)
  show ?case
  proof (cases "map_of rules (drop i qname)")
    case None
    then have "rpz_from rules qname [i..<length qname] = rpz_from rules qname [i + 1..<length qname]"
      by (simp add: i c)
    also have "\<dots> = Some action \<longleftrightarrow> (\<exists>k. i + 1 \<le> k \<and> k < length qname \<and> map_of rules (drop k qname) = Some action \<and>
        (\<forall>j. i + 1 \<le> j \<and> j < k \<longrightarrow> map_of rules (drop j qname) = None))"
      using Suc by (intro Suc.hyps(1)) simp
    also have "\<dots> \<longleftrightarrow> (\<exists>k. i \<le> k \<and> k < length qname \<and> map_of rules (drop k qname) = Some action \<and>
        (\<forall>j. i \<le> j \<and> j < k \<longrightarrow> map_of rules (drop j qname) = None))"
      using None by (metis Suc_eq_plus1 not_less_eq_eq order_antisym_conv option.distinct(1) Suc_leD)
    finally show ?thesis .
  next
    case (Some a)
    then have r: "rpz_from rules qname [i..<length qname] = Some a" by (simp add: i c)
    show ?thesis
    proof
      assume "rpz_from rules qname [i..<length qname] = Some action"
      then show "\<exists>k. i \<le> k \<and> k < length qname \<and> map_of rules (drop k qname) = Some action \<and>
          (\<forall>j. i \<le> j \<and> j < k \<longrightarrow> map_of rules (drop j qname) = None)"
        using r Some Suc by (intro exI [of _ i]) auto
    next
      assume "\<exists>k. i \<le> k \<and> k < length qname \<and> map_of rules (drop k qname) = Some action \<and>
          (\<forall>j. i \<le> j \<and> j < k \<longrightarrow> map_of rules (drop j qname) = None)"
      then obtain k where k: "i \<le> k" "map_of rules (drop k qname) = Some action"
        "\<forall>j. i \<le> j \<and> j < k \<longrightarrow> map_of rules (drop j qname) = None" by blast
      then have "k = i" using Some by (metis le_neq_implies_less option.distinct(1) order_refl)
      then show "rpz_from rules qname [i..<length qname] = Some action" using r Some k(2) by simp
    qed
  qed
qed auto

text \<open>
  C34: The response policy applies the most specific rule: the action of the
  longest suffix of the queried name that has a rule, the name itself
  included.  A rule for the root covers nothing, although a rule is meant to
  cover everything below its name.
\<close>
theorem rpz_most_specific:
  assumes "wf_name qname"
  shows "(rpz_lookup rules qname = Some action \<longleftrightarrow>
      (\<exists>k < length qname. map_of rules (drop k qname) = Some action \<and> (\<forall>j < k. map_of rules (drop j qname) = None))) \<and>
    rpz_lookup [([], action)] qname = None"
proof -
  have *: "rpz_from rules qname [0..<length qname] = Some action \<longleftrightarrow>
      (\<exists>k < length qname. map_of rules (drop k qname) = Some action \<and> (\<forall>j < k. map_of rules (drop j qname) = None))"
    for rules action using rpz_from_spec [OF assms, of rules 0 action] by auto
  have "rpz_lookup [([], action)] qname = None"
    using * [of "[([], action)]"] by (cases "rpz_lookup [([], action)] qname") (auto simp: rpz_lookup_def split: if_splits)
  then show ?thesis using * by (auto simp: rpz_lookup_def)
qed

theorem rpz_most_specific_witness:
  "rpz_lookup [([[98]], Block), ([[97], [98]], Redirect (V4 1))] [[99], [97], [98]] = Some (Redirect (V4 1))"
proof -
  let ?q = "[[99], [97], [98]] :: dns_name" and ?rules = "[([[98]], Block), ([[97], [98]], Redirect (V4 1))]"
  have "wf_name ?q" by (simp add: wf_name_def wf_label_def lower_label_def to_lower_def)
  moreover have "1 < length ?q \<and> map_of ?rules (drop 1 ?q) = Some (Redirect (V4 1)) \<and> (\<forall>j < 1. map_of ?rules (drop j ?q) = None)"
    by simp
  ultimately show ?thesis using rpz_most_specific [of ?q ?rules "Redirect (V4 1)"] by blast
qed

end
