(* ===== verification/Resolver.thy ===== *)
theory Resolver
  imports Validator Flight Recursor Rpz
begin

unbundle bit_operations_syntax

text \<open>
  The resolver (\<open>dns-resolver/src/lib.rs\<close>): authoritative zones per client
  view, response policy, cache, and the three ways out (conditional forwards,
  the iterative resolver, the default pool) with validation and merging of
  identical lookups.  The clock of a query is read once; \<open>None\<close> as a result
  stands for a panic.  During one validation the validator sees one answer
  per question, and the effect of its own fetches on the pool preference,
  the recursor's caches and the counters is not tracked.
\<close>

section \<open>State\<close>

record resolver =
  rv_zones :: "zone list"
  rv_pool :: "upstream_pool option"
  rv_forwards :: "(dns_name \<times> upstream_pool) list"
  rv_rpz :: rpz
  rv_signed :: "(dns_name \<times> signed_zone) list"
  rv_views :: "(acl \<times> zone list) list"
  rv_validator :: "trust_anchor list option"
  rv_recursor :: "recursor option"
  rv_cache :: cache
  rv_flight :: singleflight
  rv_metrics :: metrics

record resolver_options =
  ro_zones :: "zone list"
  ro_upstreams :: "socket_addr list"
  ro_forwards :: "(dns_name \<times> socket_addr list) list"
  ro_cache_size :: nat
  ro_rpz :: rpz
  ro_signed :: "(dns_name \<times> signed_zone) list"
  ro_validate :: bool
  ro_recursive :: bool
  ro_views :: "(acl \<times> zone list) list"
  ro_trust_anchors :: "trust_anchor list"

text \<open>\<open>root_anchor\<close> is the built-in root key.\<close>

definition resolver_new :: "trust_anchor \<Rightarrow> resolver_options \<Rightarrow> metrics \<Rightarrow> resolver" where
  "resolver_new root_anchor opts mt =
     \<lparr>rv_zones = ro_zones opts,
      rv_pool = pool_new (ro_upstreams opts),
      rv_forwards = List.map_filter (\<lambda>(zone, ups). map_option (Pair zone) (pool_new ups)) (ro_forwards opts),
      rv_rpz = ro_rpz opts, rv_signed = ro_signed opts, rv_views = ro_views opts,
      rv_validator = (if ro_validate opts
        then Some (if ro_trust_anchors opts = [] then [root_anchor] else ro_trust_anchors opts) else None),
      rv_recursor = (if ro_recursive opts then Some (recursor_new mt) else None),
      rv_cache = cache_new (max (ro_cache_size opts) 1), rv_flight = flight_new, rv_metrics = mt\<rparr>"

definition tick :: "counter \<Rightarrow> resolver \<Rightarrow> resolver" where
  "tick c rv = rv\<lparr>rv_metrics := inc c (rv_metrics rv)\<rparr>"

section \<open>Updates of the configuration\<close>

definition set_zones :: "zone list \<Rightarrow> resolver \<Rightarrow> resolver" where
  "set_zones zones rv = rv\<lparr>rv_zones := zones\<rparr>"

definition set_rpz :: "rpz \<Rightarrow> resolver \<Rightarrow> resolver" where
  "set_rpz rules rv = rv\<lparr>rv_rpz := rules\<rparr>"

definition set_signed :: "(dns_name \<times> signed_zone) list \<Rightarrow> resolver \<Rightarrow> resolver" where
  "set_signed sm rv = rv\<lparr>rv_signed := sm\<rparr>"

definition upsert_zone :: "zone \<Rightarrow> resolver \<Rightarrow> resolver" where
  "upsert_zone z rv =
     set_zones (case position (\<lambda>y. z_origin y = z_origin z) (rv_zones rv) of
        Some i \<Rightarrow> (rv_zones rv)[i := z]
      | None \<Rightarrow> rv_zones rv @ [z]) rv"

fun resign_map ::
  "crypto \<Rightarrow> dnssec_key list \<Rightarrow> zone list \<Rightarrow> u64 \<Rightarrow> u64 \<Rightarrow> nsec3_params option \<Rightarrow> dns_name list \<Rightarrow>
     (dns_name \<times> signed_zone) list \<Rightarrow> (dns_name \<times> signed_zone) list option" where
  "resign_map cr keys zones now validity nsec3 [] m = Some m"
| "resign_map cr keys zones now validity nsec3 (origin # origins) m =
     (case find (\<lambda>z. z_origin z = origin) zones of
        None \<Rightarrow> resign_map cr keys zones now validity nsec3 origins m
      | Some z \<Rightarrow>
          (case sign_zone cr z keys now validity nsec3 of
             None \<Rightarrow> None
           | Some sz \<Rightarrow> resign_map cr keys zones now validity nsec3 origins (AList.update origin sz m)))"

definition resign ::
  "crypto \<Rightarrow> dnssec_key list \<Rightarrow> dns_name list \<Rightarrow> u64 \<Rightarrow> u64 \<Rightarrow> nsec3_params option \<Rightarrow> resolver \<Rightarrow> resolver option" where
  "resign cr keys origins now validity nsec3 rv =
     map_option (\<lambda>m. set_signed m rv) (resign_map cr keys (rv_zones rv) now validity nsec3 origins [])"

section \<open>Routing\<close>

text \<open>\<open>Iterator::max_by_key\<close>: the last of the greatest elements.\<close>

fun max_by_key :: "('a \<Rightarrow> nat) \<Rightarrow> 'a list \<Rightarrow> 'a option" where
  "max_by_key f [] = None"
| "max_by_key f (x # xs) =
     (case max_by_key f xs of None \<Rightarrow> Some x | Some y \<Rightarrow> if f x \<le> f y then Some y else Some x)"

datatype route = Via_forward nat | Via_recursor | Via_pool

definition forward_pool_for :: "resolver \<Rightarrow> dns_name \<Rightarrow> nat option" where
  "forward_pool_for rv name =
     map_option fst (max_by_key (\<lambda>(i, zone, pool). label_count zone)
       (filter (\<lambda>(i, zone, pool). ends_with name zone) (enumerate 0 (rv_forwards rv))))"

definition can_recurse :: "resolver \<Rightarrow> dns_name \<Rightarrow> bool" where
  "can_recurse rv name \<longleftrightarrow> forward_pool_for rv name \<noteq> None \<or> rv_recursor rv \<noteq> None \<or> rv_pool rv \<noteq> None"

definition route_for :: "resolver \<Rightarrow> dns_name \<Rightarrow> route option" where
  "route_for rv name =
     (case forward_pool_for rv name of
        Some i \<Rightarrow> Some (Via_forward i)
      | None \<Rightarrow>
          if rv_recursor rv \<noteq> None then Some Via_recursor
          else if rv_pool rv \<noteq> None then Some Via_pool else None)"

fun zones_in_views :: "(acl \<times> zone list) list \<Rightarrow> ip_addr \<Rightarrow> zone list option" where
  "zones_in_views [] client = None"
| "zones_in_views ((nets, zones) # views) client =
     (if is_allowed nets client then Some zones else zones_in_views views client)"

definition zones_for :: "resolver \<Rightarrow> ip_addr \<Rightarrow> zone list" where
  "zones_for rv client = (case zones_in_views (rv_views rv) client of Some zs \<Rightarrow> zs | None \<Rightarrow> rv_zones rv)"

definition find_zone :: "zone list \<Rightarrow> dns_name \<Rightarrow> zone option" where
  "find_zone zones name =
     max_by_key (\<lambda>z. label_count (z_origin z)) (filter (\<lambda>z. ends_with name (z_origin z)) zones)"

section \<open>Answers\<close>

definition set_rcode :: "byte \<Rightarrow> message \<Rightarrow> message" where
  "set_rcode rc m = m\<lparr>m_flags := (m_flags m)\<lparr>fl_rcode := rc\<rparr>\<rparr>"

definition merge_hit :: "message \<Rightarrow> hit \<Rightarrow> bool \<Rightarrow> message" where
  "merge_hit resp h apnd =
     (let resp1 = set_rcode (hit_rcode h) resp in
      if apnd then
        resp1\<lparr>m_authorities := m_authorities resp1 @ (if hit_answers h = [] then hit_authorities h else []),
              m_answers := m_answers resp1 @ hit_answers h,
              m_flags := (m_flags resp1)\<lparr>fl_ad := fl_ad (m_flags resp1) \<and> hit_secure h\<rparr>\<rparr>
      else
        resp1\<lparr>m_answers := hit_answers h, m_authorities := hit_authorities h,
              m_flags := (m_flags resp1)\<lparr>fl_ad := hit_secure h\<rparr>\<rparr>)"

text \<open>\<open>version\<close> is the package version compiled in.\<close>

definition chaos_answer :: "string \<Rightarrow> message \<Rightarrow> question \<Rightarrow> message" where
  "chaos_answer version resp q =
     (let is_version = list_ex (\<lambda>n. parse_str n = Inr (q_name q)) [''version.bind'', ''version.server''] in
      if is_version \<and> (q_type q = TYPE_TXT \<or> q_type q = TYPE_ANY) then
        resp\<lparr>m_answers := m_answers resp @
          [\<lparr>rr_name = q_name q, rr_class = CLASS_CH, rr_ttl = 0, rr_rdata = RD_Txt [as_bytes (''rdns '' @ version)]\<rparr>]\<rparr>
      else set_rcode RCODE_REFUSED resp)"

fun attach_rrsigs :: "signed_zone \<Rightarrow> (dns_name \<times> u16) list \<Rightarrow> (dns_name \<times> u16) list \<Rightarrow> rr list" where
  "attach_rrsigs sz [] signed_sets = []"
| "attach_rrsigs sz (k # ks) signed_sets =
     (if k \<in> set signed_sets then attach_rrsigs sz ks signed_sets
      else rrsigs_for sz (fst k) (snd k) @ attach_rrsigs sz ks (signed_sets @ [k]))"

definition attach_dnssec ::
  "crypto \<Rightarrow> message \<Rightarrow> question \<Rightarrow> zone \<Rightarrow> signed_zone \<Rightarrow> bool \<Rightarrow> message option" where
  "attach_dnssec cr resp q z sz negative =
     (let resp1 = resp\<lparr>m_answers := m_answers resp @
            attach_rrsigs sz (map (\<lambda>r. (rr_name r, rr_rtype r)) (m_answers resp)) []\<rparr> in
      if negative then
        map_option (\<lambda>prf. resp1\<lparr>m_authorities := m_authorities resp1 @ rrsigs_for sz (z_origin z) TYPE_SOA @ prf\<rparr>)
          (denial_records cr sz (q_name q) (fl_rcode (m_flags resp1) = RCODE_NXDOMAIN))
      else Some resp1)"

record pending =
  pe_resp :: message
  pe_target :: dns_name
  pe_qtype :: u16
  pe_append :: bool

datatype outcome = Done message | Pending pending

text \<open>\<open>Resolver::cache_get\<close>: a lookup that counts its hits.\<close>

definition resolver_cache_get :: "cache_key \<Rightarrow> nat \<Rightarrow> resolver \<Rightarrow> hit option \<times> resolver" where
  "resolver_cache_get key now rv =
     (let (c, h) = cache_get (rv_cache rv) key now;
          rv1 = rv\<lparr>rv_cache := c\<rparr>
      in (h, if h \<noteq> None then tick Cache_hits rv1 else rv1))"

text \<open>The end of both local paths that may need more than local data.\<close>

definition from_cache_or_pending ::
  "message \<Rightarrow> dns_name \<Rightarrow> u16 \<Rightarrow> bool \<Rightarrow> nat \<Rightarrow> resolver \<Rightarrow> outcome \<times> resolver" where
  "from_cache_or_pending resp target qtype apnd now rv =
     (case resolver_cache_get \<lparr>ck_qname = target, ck_qtype = qtype\<rparr> now rv of
        (Some h, rv') \<Rightarrow> (Done (merge_hit resp h apnd), rv')
      | (None, rv') \<Rightarrow>
          (Pending \<lparr>pe_resp = resp, pe_target = target, pe_qtype = qtype, pe_append = apnd\<rparr>, rv'))"

definition zone_dnssec :: "resolver \<Rightarrow> message \<Rightarrow> zone \<Rightarrow> signed_zone option" where
  "zone_dnssec rv query z =
     (case m_edns query of
        Some e \<Rightarrow> if ed_do_bit e then map_of (rv_signed rv) (z_origin z) else None
      | None \<Rightarrow> None)"

text \<open>The records synthesized from the signing configuration at the apex.\<close>

definition synthesized :: "question \<Rightarrow> zone \<Rightarrow> signed_zone \<Rightarrow> rr list option" where
  "synthesized q z sz =
     (if q_type q = TYPE_DNSKEY \<and> q_name q = z_origin z then
        Some (fst (dnskey_records sz) @ snd (dnskey_records sz))
      else if q_type q = TYPE_NSEC3PARAM \<and> q_name q = z_origin z then
        map_option (\<lambda>rec. rec # rrsigs_for sz (z_origin z) TYPE_NSEC3PARAM) (sz_nsec3param sz)
      else None)"

definition resolve_authoritative ::
  "crypto \<Rightarrow> message \<Rightarrow> bool \<Rightarrow> question \<Rightarrow> zone \<Rightarrow> message \<Rightarrow> nat \<Rightarrow> resolver \<Rightarrow> (outcome \<times> resolver) option" where
  "resolve_authoritative cr query recursion_allowed q z resp0 now rv =
     (let resp = resp0\<lparr>m_flags := (m_flags resp0)\<lparr>fl_aa := True\<rparr>\<rparr>;
          dnssec = zone_dnssec rv query z
      in case Option.bind dnssec (synthesized q z) of
           Some records \<Rightarrow> Some (Done (resp\<lparr>m_answers := m_answers resp @ records\<rparr>), rv)
         | None \<Rightarrow>
             Option.bind (lookup z (q_name q) (q_type q)) (\<lambda>result.
             let resp1 = (set_rcode (lk_rcode result) resp)\<lparr>m_answers := lk_answers result\<rparr>;
                 resp2 = (if lk_negative result then resp1\<lparr>m_authorities := m_authorities resp1 @ [z_soa z]\<rparr> else resp1)
             in Option.bind (case dnssec of None \<Rightarrow> Some resp2 | Some sz \<Rightarrow> attach_dnssec cr resp2 q z sz (lk_negative result))
                  (\<lambda>resp3.
                     case lk_offsite result of
                       Some target \<Rightarrow>
                         if fl_rd (m_flags query) \<and> can_recurse rv target \<and> recursion_allowed
                         then Some (from_cache_or_pending resp3 target (q_type q) True now rv)
                         else Some (Done resp3, rv)
                     | None \<Rightarrow> Some (Done resp3, rv))))"

definition rpz_answer :: "rpz_action \<Rightarrow> question \<Rightarrow> message \<Rightarrow> message" where
  "rpz_answer action q resp =
     (case action of
        Block \<Rightarrow> set_rcode RCODE_NXDOMAIN resp
      | Redirect ip \<Rightarrow>
          let rd = (case ip of
              V4 v4 \<Rightarrow> if q_type q = TYPE_A \<or> q_type q = TYPE_ANY then Some (RD_A v4) else None
            | V6 v6 \<Rightarrow> if q_type q = TYPE_AAAA \<or> q_type q = TYPE_ANY then Some (RD_Aaaa v6) else None)
          in case rd of
               None \<Rightarrow> resp
             | Some d \<Rightarrow> resp\<lparr>m_answers := m_answers resp @
                 [\<lparr>rr_name = q_name q, rr_class = CLASS_IN, rr_ttl = 60, rr_rdata = d\<rparr>]\<rparr>)"

definition resolve_elsewhere :: "message \<Rightarrow> bool \<Rightarrow> question \<Rightarrow> message \<Rightarrow> nat \<Rightarrow> resolver \<Rightarrow> outcome \<times> resolver" where
  "resolve_elsewhere query recursion_allowed q resp now rv =
     (case rpz_lookup (rv_rpz rv) (q_name q) of
        Some action \<Rightarrow> (Done (rpz_answer action q resp), tick Rpz_blocked rv)
      | None \<Rightarrow>
          if \<not> fl_rd (m_flags query) \<or> \<not> can_recurse rv (q_name q) then (Done (set_rcode RCODE_REFUSED resp), rv)
          else if \<not> recursion_allowed then (Done (set_rcode RCODE_REFUSED resp), tick Recursion_refused rv)
          else from_cache_or_pending resp (q_name q) (q_type q) False now rv)"

text \<open>\<open>resolve_local\<close> behind the check of the EDNS version.\<close>

definition resolve_checked ::
  "crypto \<Rightarrow> string \<Rightarrow> message \<Rightarrow> bool \<Rightarrow> ip_addr \<Rightarrow> nat \<Rightarrow> resolver \<Rightarrow> (outcome \<times> resolver) option" where
  "resolve_checked cr version query recursion_allowed client now rv =
     (let resp = response_to query in
      if fl_opcode (m_flags query) \<noteq> 0 then Some (Done (set_rcode RCODE_NOTIMP resp), rv)
      else case m_questions query of
        [q] \<Rightarrow>
          if q_class q = CLASS_CH then Some (Done (chaos_answer version resp q), rv)
          else if q_class q \<noteq> CLASS_IN \<and> q_class q \<noteq> CLASS_ANY then Some (Done (set_rcode RCODE_NOTIMP resp), rv)
          else if q_type q = TYPE_AXFR \<or> q_type q = TYPE_IXFR then Some (Done (set_rcode RCODE_NOTIMP resp), rv)
          else
            let ra = ((rv_pool rv \<noteq> None \<or> rv_recursor rv \<noteq> None \<or> rv_forwards rv \<noteq> []) \<and> recursion_allowed);
                resp1 = resp\<lparr>m_flags := (m_flags resp)\<lparr>fl_ra := ra\<rparr>\<rparr>
            in (case find_zone (zones_for rv client) (q_name q) of
                  Some z \<Rightarrow> resolve_authoritative cr query recursion_allowed q z resp1 now rv
                | None \<Rightarrow> Some (resolve_elsewhere query recursion_allowed q resp1 now rv))
      | _ \<Rightarrow> Some (Done (set_rcode RCODE_FORMERR resp), rv))"

definition resolve_local ::
  "crypto \<Rightarrow> string \<Rightarrow> message \<Rightarrow> bool \<Rightarrow> ip_addr \<Rightarrow> nat \<Rightarrow> resolver \<Rightarrow> (outcome \<times> resolver) option" where
  "resolve_local cr version query recursion_allowed client now rv =
     (let resp = response_to query in
      case m_edns query of
        Some e \<Rightarrow>
          if ed_version e > 0
          then Some (Done (resp\<lparr>m_edns := map_option (\<lambda>re. re\<lparr>ed_ext_rcode := 1\<rparr>) (m_edns resp)\<rparr>), rv)
          else resolve_checked cr version query recursion_allowed client now rv
      | None \<Rightarrow> resolve_checked cr version query recursion_allowed client now rv)"

section \<open>Upstream resolution\<close>

text \<open>
  One question to the source on a route.  The pools and the recursor count
  into the resolver's metrics.
\<close>

record outside =
  ou_net :: network
  ou_ids :: "nat \<Rightarrow> u16"
  ou_now :: nat

definition source_query ::
  "outside \<Rightarrow> route \<Rightarrow> dns_name \<Rightarrow> u16 \<Rightarrow> bool \<Rightarrow> resolver \<Rightarrow> (forward_error + message) \<times> resolver" where
  "source_query ou via qname qtype dnssec rv =
     (case via of
        Via_forward i \<Rightarrow>
          (case query_inner (ou_net ou) (ou_ids ou) (snd (rv_forwards rv ! i)) qname qtype dnssec (rv_metrics rv) of
             (r, pool, mt) \<Rightarrow>
               (r, rv\<lparr>rv_forwards := (rv_forwards rv)[i := (fst (rv_forwards rv ! i), pool)], rv_metrics := mt\<rparr>))
      | Via_recursor \<Rightarrow>
          (case rv_recursor rv of
             None \<Rightarrow> (Inl FeNoUpstream, rv)
           | Some rc \<Rightarrow>
               (case recursor_resolve (ou_net ou) (ou_now ou) qname qtype (rc\<lparr>rc_metrics := rv_metrics rv\<rparr>) of
                  (r, rc') \<Rightarrow> (r, rv\<lparr>rv_recursor := Some rc', rv_metrics := rc_metrics rc'\<rparr>)))
      | Via_pool \<Rightarrow>
          (case rv_pool rv of
             None \<Rightarrow> (Inl FeNoUpstream, rv)
           | Some p \<Rightarrow>
               (case query_inner (ou_net ou) (ou_ids ou) p qname qtype dnssec (rv_metrics rv) of
                  (r, p', mt) \<Rightarrow> (r, rv\<lparr>rv_pool := Some p', rv_metrics := mt\<rparr>))))"

text \<open>What the validator sees of a source while it checks one answer.\<close>

definition source_fetcher :: "outside \<Rightarrow> route \<Rightarrow> resolver \<Rightarrow> fetcher" where
  "source_fetcher ou via rv name qtype =
     (case fst (source_query ou via name qtype True rv) of Inr m \<Rightarrow> Some m | Inl _ \<Rightarrow> None)"

definition fetch_validated ::
  "crypto \<Rightarrow> outside \<Rightarrow> route \<Rightarrow> dns_name \<Rightarrow> u16 \<Rightarrow> resolver \<Rightarrow> (forward_error + message \<times> bool) \<times> resolver" where
  "fetch_validated cr ou via qname qtype rv =
     (case rv_validator rv of
        None \<Rightarrow>
          (case source_query ou via qname qtype False rv of
             (Inl e, rv1) \<Rightarrow> (Inl e, rv1)
           | (Inr m, rv1) \<Rightarrow> (Inr (m, False), rv1))
      | Some anchors \<Rightarrow>
          (case source_query ou via qname qtype True rv of
             (Inl e, rv1) \<Rightarrow> (Inl e, rv1)
           | (Inr m, rv1) \<Rightarrow>
               (case validate_msg cr (source_fetcher ou via rv1) anchors m of
                  Bogus \<Rightarrow> (Inl FeBogus, rv1)
                | Secure \<Rightarrow> (Inr (m, True), rv1)
                | Insecure \<Rightarrow> (Inr (m, False), rv1))))"

definition leader_lookup ::
  "crypto \<Rightarrow> outside \<Rightarrow> dns_name \<Rightarrow> u16 \<Rightarrow> resolver \<Rightarrow> (forward_error + hit) \<times> resolver" where
  "leader_lookup cr ou qname qtype rv =
     (let rv0 = tick Cache_misses rv in
      case route_for rv0 qname of
        None \<Rightarrow> (Inl FeNoUpstream, rv0)
      | Some via \<Rightarrow>
          (case fetch_validated cr ou via qname qtype rv0 of
             (Inl e, rv1) \<Rightarrow> (Inl e, rv1)
           | (Inr (msg, secure), rv1) \<Rightarrow>
               let authorities = filter (\<lambda>r. rr_rtype r = TYPE_SOA) (m_authorities msg);
                   rcode = fl_rcode (m_flags msg)
               in (Inr \<lparr>hit_rcode = rcode, hit_answers = m_answers msg, hit_authorities = authorities, hit_secure = secure\<rparr>,
                   rv1\<lparr>rv_cache := cache_insert (rv_cache rv1) \<lparr>ck_qname = qname, ck_qtype = qtype\<rparr> rcode (m_answers msg)
                     authorities secure (ou_now ou)\<rparr>)))"

text \<open>The fallback behind the three rounds.\<close>

definition direct_lookup :: "outside \<Rightarrow> dns_name \<Rightarrow> u16 \<Rightarrow> resolver \<Rightarrow> (forward_error + hit) \<times> resolver" where
  "direct_lookup ou qname qtype rv =
     (case route_for rv qname of
        None \<Rightarrow> (Inl FeNoUpstream, rv)
      | Some via \<Rightarrow>
          (case source_query ou via qname qtype True rv of
             (Inl e, rv1) \<Rightarrow> (Inl e, rv1)
           | (Inr msg, rv1) \<Rightarrow>
               (Inr \<lparr>hit_rcode = fl_rcode (m_flags msg), hit_answers = m_answers msg, hit_authorities = [],
                     hit_secure = False\<rparr>, rv1)))"

text \<open>
  \<open>others n\<close> is what the other tasks do to the shared state while this one
  waits with \<open>n\<close> rounds left.  The leader's guard is dropped on every way out.
\<close>

fun external_rounds ::
  "crypto \<Rightarrow> outside \<Rightarrow> (nat \<Rightarrow> resolver \<Rightarrow> resolver) \<Rightarrow> nat \<Rightarrow> dns_name \<Rightarrow> u16 \<Rightarrow> resolver \<Rightarrow>
     (forward_error + hit) \<times> resolver" where
  "external_rounds cr ou others 0 qname qtype rv = direct_lookup ou qname qtype rv"
| "external_rounds cr ou others (Suc n) qname qtype rv =
     (let key = \<lparr>ck_qname = qname, ck_qtype = qtype\<rparr> in
      case resolver_cache_get key (ou_now ou) rv of
        (Some h, rv1) \<Rightarrow> (Inr h, rv1)
      | (None, rv1) \<Rightarrow>
          (case flight_begin key (rv_flight rv1) of
             (f, Leader c) \<Rightarrow>
               (case leader_lookup cr ou qname qtype (rv1\<lparr>rv_flight := f\<rparr>) of
                  (r, rv2) \<Rightarrow> (r, rv2\<lparr>rv_flight := guard_drop key c (rv_flight rv2)\<rparr>))
           | (f, Follower c) \<Rightarrow>
               external_rounds cr ou others n qname qtype
                 (others n (tick Singleflight_merged (rv1\<lparr>rv_flight := f\<rparr>)))))"

definition resolve_external ::
  "crypto \<Rightarrow> outside \<Rightarrow> (nat \<Rightarrow> resolver \<Rightarrow> resolver) \<Rightarrow> dns_name \<Rightarrow> u16 \<Rightarrow> resolver \<Rightarrow> (forward_error + hit) \<times> resolver" where
  "resolve_external cr ou others qname qtype rv = external_rounds cr ou others 3 qname qtype rv"

definition bogus_response :: "message \<Rightarrow> message" where
  "bogus_response resp =
     (let resp1 = set_rcode RCODE_SERVFAIL resp;
          e = (case m_edns resp1 of Some e \<Rightarrow> e | None \<Rightarrow> edns_ours)
      in resp1\<lparr>m_edns := Some (set_option e EDNS_EDE (ede_option 6 ''DNSSEC bogus''))\<rparr>)"

definition resolve_pending ::
  "crypto \<Rightarrow> outside \<Rightarrow> (nat \<Rightarrow> resolver \<Rightarrow> resolver) \<Rightarrow> pending \<Rightarrow> resolver \<Rightarrow> message \<times> resolver" where
  "resolve_pending cr ou others p rv =
     (case resolve_external cr ou others (pe_target p) (pe_qtype p) rv of
        (Inr h, rv1) \<Rightarrow> (merge_hit (pe_resp p) h (pe_append p), rv1)
      | (Inl e, rv1) \<Rightarrow>
          if e = FeBogus then (bogus_response (pe_resp p), tick Upstream_failures rv1)
          else
            (case cache_get_stale (rv_cache rv1) \<lparr>ck_qname = pe_target p, ck_qtype = pe_qtype p\<rparr> (ou_now ou) of
               Some h \<Rightarrow> (merge_hit (pe_resp p) h (pe_append p), tick Served_stale rv1)
             | None \<Rightarrow> (set_rcode RCODE_SERVFAIL (pe_resp p), rv1)))"

definition resolver_handle ::
  "crypto \<Rightarrow> string \<Rightarrow> outside \<Rightarrow> (nat \<Rightarrow> resolver \<Rightarrow> resolver) \<Rightarrow> message \<Rightarrow> bool \<Rightarrow> ip_addr \<Rightarrow> resolver \<Rightarrow>
     (message \<times> resolver) option" where
  "resolver_handle cr version ou others query recursion_allowed client rv =
     (case resolve_local cr version query recursion_allowed client (ou_now ou) rv of
        None \<Rightarrow> None
      | Some (Done m, rv1) \<Rightarrow> Some (m, rv1)
      | Some (Pending p, rv1) \<Rightarrow> Some (resolve_pending cr ou others p rv1))"

section \<open>Selection by the longest name\<close>

lemma max_by_key_None [simp]: "max_by_key f xs = None \<longleftrightarrow> xs = []"
  by (cases xs) (auto split: option.splits)

lemma max_by_key_Some: "max_by_key f xs = Some y \<Longrightarrow> y \<in> set xs \<and> (\<forall>x \<in> set xs. f x \<le> f y)"
  by (induction xs arbitrary: y) (auto split: option.splits if_splits)

lemma find_zone_longest:
  assumes "find_zone zones name = Some z"
  shows "z \<in> set zones" "ends_with name (z_origin z)"
    "\<And>y. y \<in> set zones \<Longrightarrow> ends_with name (z_origin y) \<Longrightarrow> label_count (z_origin y) \<le> label_count (z_origin z)"
  using max_by_key_Some [OF assms [unfolded find_zone_def]] by auto

section \<open>Sources of answers\<close>

definition echoes :: "message \<Rightarrow> dns_name \<Rightarrow> u16 \<Rightarrow> bool" where
  "echoes m qname qtype \<longleftrightarrow> (\<exists>q qs. m_questions m = q # qs \<and> q_name q = qname \<and> q_type q = qtype)"

text \<open>What the resolver relies on in a source: its answers are answers to the question asked.\<close>

locale question_source =
  fixes ask :: "dns_name \<Rightarrow> u16 \<Rightarrow> 's \<Rightarrow> (forward_error + message) \<times> 's"
    and inv :: "'s \<Rightarrow> bool"
  assumes ask_inv: "inv s \<Longrightarrow> ask qname qtype s = (r, s') \<Longrightarrow> inv s'"
    and ask_echo: "inv s \<Longrightarrow> ask qname qtype s = (Inr m, s') \<Longrightarrow> echoes m qname qtype"
begin

fun ask_all :: "(dns_name \<times> u16) list \<Rightarrow> 's \<Rightarrow> (forward_error + message) list \<times> 's" where
  "ask_all [] s = ([], s)"
| "ask_all ((n, t) # qs) s = (case ask n t s of (r, s1) \<Rightarrow> case ask_all qs s1 of (rs, s2) \<Rightarrow> (r # rs, s2))"

lemma ask_all_echo:
  "inv s \<Longrightarrow> ask_all qs s = (rs, s') \<Longrightarrow>
     inv s' \<and> list_all2 (\<lambda>(n, t) r. \<forall>m. r = Inr m \<longrightarrow> echoes m n t) qs rs"
proof (induction qs arbitrary: s rs s')
  case (Cons q qs)
  obtain n t where q: "q = (n, t)" by fastforce
  obtain r s1 where a: "ask n t s = (r, s1)" by fastforce
  obtain rs1 s2 where b: "ask_all qs s1 = (rs1, s2)" by fastforce
  have "rs = r # rs1" "s' = s2" using Cons.prems(2) a b q by auto
  then show ?case
    using Cons.IH [OF ask_inv [OF Cons.prems(1) a] b] ask_echo [OF Cons.prems(1)] a q by auto
qed simp

end

lemma presented_echoes: "presented m qname qtype \<Longrightarrow> echoes m qname qtype"
  by (simp add: presented_def echoes_def)

definition answers_ok :: "recursor \<Rightarrow> bool" where
  "answers_ok rs \<longleftrightarrow> list_all (\<lambda>((n, t), m, e). presented m n t) (rc_answers rs)"

lemma answers_ok_hit: "answers_ok rs \<Longrightarrow> map_of (rc_answers rs) (n, t) = Some (m, e) \<Longrightarrow> presented m n t"
  by (auto simp: answers_ok_def list_all_iff dest!: map_of_SomeD)

lemma resolve_and_store_ok:
  assumes "answers_ok rs" "resolve_and_store net now qname qtype rs = (r, rs')"
  shows "answers_ok rs' \<and> (\<forall>m. r = Inr m \<longrightarrow> presented m qname qtype)"
proof -
  obtain x rs1 where d: "resolve_depth net now (MAX_NESTING + 1) qname qtype rs = (x, rs1)" by fastforce
  then have "keeps rs rs1" using resolve_depth_keeps unfolding nested_keeps_def by blast
  then have ok: "answers_ok rs1" using assms(1) by (simp add: keeps_def answers_ok_def)
  show ?thesis
  proof (cases x)
    case (Inl e)
    then show ?thesis using assms(2) d ok by (auto simp: resolve_and_store_def)
  next
    case (Inr m)
    then have p: "presented m qname qtype" using d resolve_depth_presented unfolding nested_presents_def by blast
    define kept where "kept = (if length (rc_answers rs1) > 100000
      then filter (\<lambda>(_, _, e). e > now) (rc_answers rs1) else rc_answers rs1)"
    have "list_all (\<lambda>((n, t), m, e). presented m n t) kept"
      using ok by (auto simp: kept_def answers_ok_def list_all_iff)
    then have "list_all (\<lambda>((n, t), m, e). presented m n t)
        (AList.update (qname, qtype) (m, now + secs (unat (answer_ttl m))) kept)"
      using p by (intro list_all_update) auto
    then show ?thesis
      using assms(2) d Inr p by (auto simp: resolve_and_store_def Let_def answers_ok_def kept_def)
  qed
qed

interpretation recursor_source: question_source "recursor_resolve net now" answers_ok for net now
proof unfold_locales
  fix rs rs' qname qtype r
  assume ok: "answers_ok rs" and r: "recursor_resolve net now qname qtype rs = (r, rs')"
  show "answers_ok rs'"
    using r ok resolve_and_store_ok [OF ok, of net now qname qtype]
    by (auto simp: recursor_resolve_def answers_ok_def split: option.splits if_splits)
next
  fix rs rs' qname qtype m
  assume ok: "answers_ok rs" and r: "recursor_resolve net now qname qtype rs = (Inr m, rs')"
  show "echoes m qname qtype"
    using r ok resolve_and_store_ok [OF ok, of net now qname qtype "Inr m" rs'] answers_ok_hit [OF ok, of qname qtype m]
    by (auto simp: recursor_resolve_def split: option.splits if_splits intro!: presented_echoes)
qed

lemma query_loop_Inr:
  "query_loop forward pool start is err mt = (Inr m, pool', mt') \<Longrightarrow> \<exists>i. forward (po_addrs pool ! ((start + i) mod length (po_addrs pool))) i = Inr m"
  by (induction "is" arbitrary: err mt) (auto simp: Let_def split: sum.splits if_splits, metis Nat.add_0_right)

lemma query_inner_echoes:
  assumes "query_inner net ids pool qname qtype dnssec mt = (Inr m, pool', mt')"
  shows "echoes m qname qtype"
proof -
  obtain i where "forward_query net (po_addrs pool ! ((po_preferred pool + i) mod length (po_addrs pool))) (ids i)
      qname qtype dnssec = Inr m"
    using query_loop_Inr [OF assms [unfolded query_inner_def]] by blast
  from forward_query_accepts [OF this] show ?thesis
    by (auto simp: is_reply_to_def forward_message_def echoes_def split: list.splits)
qed

text \<open>A pool with its counters as the state of a source.\<close>

definition pool_ask ::
  "network \<Rightarrow> (nat \<Rightarrow> u16) \<Rightarrow> bool \<Rightarrow> dns_name \<Rightarrow> u16 \<Rightarrow> upstream_pool \<times> metrics \<Rightarrow>
     (forward_error + message) \<times> upstream_pool \<times> metrics" where
  "pool_ask net ids dnssec qname qtype s = query_inner net ids (fst s) qname qtype dnssec (snd s)"

interpretation pool_source: question_source "pool_ask net ids dnssec" "\<lambda>_. True" for net ids dnssec
  by unfold_locales (auto simp: pool_ask_def intro: query_inner_echoes)

definition recursor_ok :: "resolver \<Rightarrow> bool" where
  "recursor_ok rv \<longleftrightarrow> (case rv_recursor rv of None \<Rightarrow> True | Some rc \<Rightarrow> answers_ok rc)"

lemma source_query_echoes:
  assumes "recursor_ok rv" "source_query ou via qname qtype dnssec rv = (r, rv')"
  shows "recursor_ok rv' \<and> (\<forall>m. r = Inr m \<longrightarrow> echoes m qname qtype) \<and>
    rv_cache rv' = rv_cache rv \<and> rv_validator rv' = rv_validator rv"
proof (cases via)
  case (Via_forward i)
  then show ?thesis
    using assms by (auto simp: source_query_def recursor_ok_def split: prod.splits intro: query_inner_echoes)
next
  case Via_pool
  then show ?thesis
    using assms by (auto simp: source_query_def recursor_ok_def split: prod.splits option.splits intro: query_inner_echoes)
next
  case Via_recursor
  show ?thesis
  proof (cases "rv_recursor rv")
    case None
    then show ?thesis using assms Via_recursor by (auto simp: source_query_def)
  next
    case (Some rc)
    let ?rc = "rc\<lparr>rc_metrics := rv_metrics rv\<rparr>"
    obtain x rc' where q: "recursor_resolve (ou_net ou) (ou_now ou) qname qtype ?rc = (x, rc')" by fastforce
    have ok: "answers_ok ?rc" using assms(1) Some by (simp add: recursor_ok_def answers_ok_def)
    show ?thesis
      using assms(2) Via_recursor Some q recursor_source.ask_inv [OF ok q] recursor_source.ask_echo [OF ok]
      by (auto simp: source_query_def recursor_ok_def)
  qed
qed

section \<open>Lookups under an invariant\<close>

text \<open>
  What a lookup relies on in the parts it is made of: each of them keeps an
  invariant of the state, and what it returns for a question is known to hold
  of the answer.  The invariant is also what it relies on in the other tasks.
\<close>

locale lookup_contract =
  fixes cr :: crypto
    and inv :: "resolver \<Rightarrow> bool"
    and known :: "dns_name \<Rightarrow> u16 \<Rightarrow> hit \<Rightarrow> bool"
  assumes inv_metrics: "inv rv \<Longrightarrow> inv (rv\<lparr>rv_metrics := mt\<rparr>)"
    and inv_flight: "inv rv \<Longrightarrow> inv (rv\<lparr>rv_flight := f\<rparr>)"
    and inv_get: "inv rv \<Longrightarrow> resolver_cache_get \<lparr>ck_qname = n, ck_qtype = t\<rparr> now rv = (r, rv') \<Longrightarrow> inv rv'"
    and get_known: "inv rv \<Longrightarrow> resolver_cache_get \<lparr>ck_qname = n, ck_qtype = t\<rparr> now rv = (Some h, rv') \<Longrightarrow> known n t h"
    and inv_leader: "inv rv \<Longrightarrow> leader_lookup cr ou n t rv = (x, rv') \<Longrightarrow> inv rv'"
    and leader_known: "inv rv \<Longrightarrow> leader_lookup cr ou n t rv = (Inr h, rv') \<Longrightarrow> known n t h"
    and inv_direct: "inv rv \<Longrightarrow> direct_lookup ou n t rv = (x, rv') \<Longrightarrow> inv rv'"
    and direct_known: "inv rv \<Longrightarrow> direct_lookup ou n t rv = (Inr h, rv') \<Longrightarrow> known n t h"
    and stale_known: "inv rv \<Longrightarrow> cache_get_stale (rv_cache rv) \<lparr>ck_qname = n, ck_qtype = t\<rparr> now = Some h \<Longrightarrow> known n t h"
begin

lemma inv_tick: "inv rv \<Longrightarrow> inv (tick c rv)"
  by (simp add: tick_def inv_metrics)

lemma external_known:
  assumes "\<And>n rv. inv rv \<Longrightarrow> inv (others n rv)"
  shows "inv rv \<Longrightarrow> external_rounds cr ou others k qname qtype rv = (r, rv') \<Longrightarrow>
    inv rv' \<and> (\<forall>h. r = Inr h \<longrightarrow> known qname qtype h)"
proof (induction k arbitrary: rv)
  case 0
  then show ?case using inv_direct direct_known by auto
next
  case (Suc k)
  let ?key = "\<lparr>ck_qname = qname, ck_qtype = qtype\<rparr>"
  obtain h rv1 where g: "resolver_cache_get ?key (ou_now ou) rv = (h, rv1)" by fastforce
  note inv1 = inv_get [OF Suc.prems(1) g]
  show ?case
  proof (cases h)
    case (Some x)
    then show ?thesis using Suc.prems g inv1 get_known by (auto simp: Let_def)
  next
    case None
    obtain f role where b: "flight_begin ?key (rv_flight rv1) = (f, role)" by fastforce
    show ?thesis
    proof (cases role)
      case (Leader c)
      obtain r2 rv2 where l: "leader_lookup cr ou qname qtype (rv1\<lparr>rv_flight := f\<rparr>) = (r2, rv2)" by fastforce
      show ?thesis
        using Suc.prems(2) g None b Leader l inv_leader [OF inv_flight [OF inv1] l] leader_known [OF inv_flight [OF inv1]]
        by (auto simp: Let_def inv_flight)
    next
      case (Follower c)
      have "inv (others k (tick Singleflight_merged (rv1\<lparr>rv_flight := f\<rparr>)))" using inv1 assms by (simp add: inv_tick inv_flight)
      from Suc.IH [OF this] show ?thesis using Suc.prems(2) g None b Follower by (auto simp: Let_def)
    qed
  qed
qed

lemma pending_known:
  assumes "\<And>n rv. inv rv \<Longrightarrow> inv (others n rv)" "inv rv" "resolve_pending cr ou others p rv = (m, rv')"
  shows "inv rv'"
    and "(\<exists>h. known (pe_target p) (pe_qtype p) h \<and> m = merge_hit (pe_resp p) h (pe_append p)) \<or>
      m = bogus_response (pe_resp p) \<or> m = set_rcode RCODE_SERVFAIL (pe_resp p)"
proof -
  obtain x rv1 where e: "external_rounds cr ou others 3 (pe_target p) (pe_qtype p) rv = (x, rv1)" by fastforce
  note k = external_known [OF assms(1,2) e]
  have stale: "known (pe_target p) (pe_qtype p) h"
    if "cache_get_stale (rv_cache rv1) \<lparr>ck_qname = pe_target p, ck_qtype = pe_qtype p\<rparr> (ou_now ou) = Some h" for h
    using stale_known that k by blast
  show "inv rv'"
    using assms(3) e k
    by (auto simp: resolve_pending_def resolve_external_def inv_tick split: sum.splits if_splits option.splits)
  show "(\<exists>h. known (pe_target p) (pe_qtype p) h \<and> m = merge_hit (pe_resp p) h (pe_append p)) \<or>
      m = bogus_response (pe_resp p) \<or> m = set_rcode RCODE_SERVFAIL (pe_resp p)"
    using assms(3) e k stale
    by (auto simp: resolve_pending_def resolve_external_def split: sum.splits if_splits option.splits)
qed

lemma inv_cached: "inv rv \<Longrightarrow> from_cache_or_pending resp n t apnd now rv = (x, rv') \<Longrightarrow> inv rv'"
  by (auto simp: from_cache_or_pending_def split: prod.splits option.splits dest: inv_get)

lemma inv_local:
  assumes "inv rv" "resolve_local cr' version query allowed client now rv = Some (x, rv')"
  shows "inv rv'"
proof -
  have elsewhere: "inv rv2" if "resolve_elsewhere query allowed q resp now rv = (x, rv2)" for q resp x rv2
    using that assms(1) by (auto simp: resolve_elsewhere_def inv_tick split: option.splits if_splits dest: inv_cached)
  have authoritative: "inv rv2" if "resolve_authoritative cr' query allowed q z resp now rv = Some (x, rv2)" for q z resp x rv2
    using that assms(1)
    by (auto simp: resolve_authoritative_def Let_def bind_eq_Some_conv split: option.splits if_splits dest: inv_cached)
  show ?thesis
    using assms elsewhere authoritative
    by (auto simp: resolve_local_def resolve_checked_def Let_def split: option.splits if_splits list.splits)
qed

end

section \<open>The authenticated-data bit\<close>

definition without_ttl :: "rr \<Rightarrow> rr" where
  "without_ttl r = r\<lparr>rr_ttl := 0\<rparr>"

text \<open>
  The records were the answer section of a message for this question that the
  validator found secure, up to their remaining lifetime.
\<close>

definition validated :: "crypto \<Rightarrow> trust_anchor list \<Rightarrow> cache_key \<Rightarrow> rr list \<Rightarrow> bool" where
  "validated cr anchors key answers \<longleftrightarrow>
     (\<exists>fetch m. validate_msg cr fetch anchors m = Secure \<and> echoes m (ck_qname key) (ck_qtype key) \<and>
        map without_ttl (m_answers m) = map without_ttl answers)"

definition secure_cache :: "crypto \<Rightarrow> trust_anchor list \<Rightarrow> cache \<Rightarrow> bool" where
  "secure_cache cr anchors c \<longleftrightarrow> cache_ok c \<and>
     (\<forall>key e. map_of (ca_inner c) key = Some e \<longrightarrow> ce_secure e \<longrightarrow> validated cr anchors key (ce_answers e))"

definition resolver_ok :: "crypto \<Rightarrow> trust_anchor list \<Rightarrow> resolver \<Rightarrow> bool" where
  "resolver_ok cr anchors rv \<longleftrightarrow> rv_validator rv = Some anchors \<and> secure_cache cr anchors (rv_cache rv) \<and> recursor_ok rv"

lemma validated_aged:
  assumes "validated cr anchors key answers" "\<And>r. without_ttl (f r) = without_ttl r"
  shows "validated cr anchors key (map f answers)"
  using assms by (simp add: validated_def comp_def)

lemma without_ttl_simps [simp]:
  "without_ttl (age_record e r) = without_ttl r" "without_ttl (stale_record r) = without_ttl r"
  by (simp_all add: without_ttl_def age_record_def stale_record_def)

lemma cache_get_secure:
  assumes "secure_cache cr anchors c" "cache_get c key now = (c', h)"
  shows "secure_cache cr anchors c' \<and> (\<forall>x. h = Some x \<longrightarrow> hit_secure x \<longrightarrow> validated cr anchors key (hit_answers x))"
proof
  have c': "c' = fst (cache_get c (fst (key, now)) (snd (key, now)))" using assms(2) by simp
  have ok: "cache_ok c" using assms(1) by (simp add: secure_cache_def)
  show "secure_cache cr anchors c'"
    using assms(1) cache_store.inv_touch [OF ok, of "(key, now)"] cache_store.entry_touch [OF ok, of "(key, now)"]
    unfolding c' secure_cache_def by (metis option.distinct(1))
  show "\<forall>x. h = Some x \<longrightarrow> hit_secure x \<longrightarrow> validated cr anchors key (hit_answers x)"
    using assms by (auto simp: cache_get_def secure_cache_def Let_def split: option.splits if_splits intro!: validated_aged)
qed

lemma cache_get_stale_secure:
  "secure_cache cr anchors c \<Longrightarrow> cache_get_stale c key now = Some h \<Longrightarrow> hit_secure h \<Longrightarrow>
     validated cr anchors key (hit_answers h)"
  by (auto simp: cache_get_stale_def secure_cache_def split: option.splits if_splits intro!: validated_aged)

lemma cache_insert_secure:
  assumes "secure_cache cr anchors c" "secure \<Longrightarrow> validated cr anchors key answers"
  shows "secure_cache cr anchors (cache_insert c key rcode answers authorities secure now)"
proof (cases "cacheable rcode answers authorities")
  case True
  let ?e = "new_entry rcode answers authorities secure now"
  have ok: "cache_ok c" using assms(1) by (simp add: secure_cache_def)
  have "validated cr anchors j (ce_answers e)"
    if "map_of (ca_inner (put_entry c key ?e)) j = Some e" "ce_secure e" for j e
  proof (cases "j = key")
    case True
    then show ?thesis
      using that assms(2) cache_store.entry_store_same [OF ok, of key ?e] by (auto simp: new_entry_def)
  next
    case False
    then have "map_of (ca_inner c) j = Some e"
      using that(1) cache_store.entry_store_other [OF ok False, of ?e] by auto
    then show ?thesis using assms(1) that(2) by (auto simp: secure_cache_def)
  qed
  then show ?thesis using True cache_store.inv_store [OF ok, of key ?e] by (auto simp: cache_insert_eq secure_cache_def)
qed (use assms(1) in \<open>simp add: cache_insert_eq\<close>)

lemma resolver_ok_tick [simp]: "resolver_ok cr anchors (tick c rv) = resolver_ok cr anchors rv"
  by (simp add: resolver_ok_def tick_def recursor_ok_def)

lemma resolver_ok_flight [simp]: "resolver_ok cr anchors (rv\<lparr>rv_flight := f\<rparr>) = resolver_ok cr anchors rv"
  by (simp add: resolver_ok_def recursor_ok_def)

abbreviation hit_sound :: "crypto \<Rightarrow> trust_anchor list \<Rightarrow> dns_name \<Rightarrow> u16 \<Rightarrow> hit \<Rightarrow> bool" where
  "hit_sound cr anchors qname qtype h \<equiv>
     hit_secure h \<longrightarrow> validated cr anchors \<lparr>ck_qname = qname, ck_qtype = qtype\<rparr> (hit_answers h)"

lemma resolver_cache_get_ok:
  assumes "resolver_ok cr anchors rv" "resolver_cache_get \<lparr>ck_qname = qname, ck_qtype = qtype\<rparr> now rv = (h, rv')"
  shows "resolver_ok cr anchors rv' \<and> (\<forall>x. h = Some x \<longrightarrow> hit_sound cr anchors qname qtype x)"
proof -
  obtain c g where g: "cache_get (rv_cache rv) \<lparr>ck_qname = qname, ck_qtype = qtype\<rparr> now = (c, g)" by fastforce
  have "secure_cache cr anchors (rv_cache rv)" using assms(1) by (simp add: resolver_ok_def)
  from cache_get_secure [OF this g] assms g show ?thesis
    by (auto simp: resolver_cache_get_def resolver_ok_def recursor_ok_def tick_def Let_def split: if_splits)
qed

lemma leader_lookup_ok:
  assumes "resolver_ok cr anchors rv" "leader_lookup cr ou qname qtype rv = (r, rv')"
  shows "resolver_ok cr anchors rv' \<and> (\<forall>h. r = Inr h \<longrightarrow> hit_sound cr anchors qname qtype h)"
proof (cases "route_for (tick Cache_misses rv) qname")
  case None
  then show ?thesis using assms by (auto simp: leader_lookup_def)
next
  case (Some via)
  let ?rv = "tick Cache_misses rv"
  have ok: "resolver_ok cr anchors ?rv" using assms(1) by simp
  obtain x rv1 where q: "source_query ou via qname qtype True ?rv = (x, rv1)" by fastforce
  have s: "recursor_ok rv1" "\<forall>m. x = Inr m \<longrightarrow> echoes m qname qtype" "rv_cache rv1 = rv_cache ?rv" "rv_validator rv1 = rv_validator ?rv"
    using source_query_echoes [OF _ q] ok by (simp_all add: resolver_ok_def)
  have v: "rv_validator ?rv = Some anchors" "secure_cache cr anchors (rv_cache ?rv)" using ok by (simp_all add: resolver_ok_def)
  show ?thesis
  proof (cases x)
    case (Inl e)
    then show ?thesis
      using assms(2) Some q s v by (auto simp: leader_lookup_def fetch_validated_def resolver_ok_def Let_def)
  next
    case (Inr m)
    define secure where "secure \<longleftrightarrow> validate_msg cr (source_fetcher ou via rv1) anchors m = Secure"
    have val: "validated cr anchors \<lparr>ck_qname = qname, ck_qtype = qtype\<rparr> (m_answers m)" if secure
      using that s(2) Inr by (auto simp: validated_def secure_def)
    have ins: "secure_cache cr anchors (cache_insert (rv_cache rv1) \<lparr>ck_qname = qname, ck_qtype = qtype\<rparr> rc
        (m_answers m) auth secure now)" for rc auth now
      using s(3) v(2) val by (intro cache_insert_secure) auto
    show ?thesis
    proof (cases "validate_msg cr (source_fetcher ou via rv1) anchors m")
      case Bogus
      then show ?thesis
        using assms(2) Some q s v Inr by (auto simp: leader_lookup_def fetch_validated_def resolver_ok_def Let_def)
    next
      case Secure
      then have "secure" by (simp add: secure_def)
      with val ins show ?thesis
        using assms(2) Some q s v Inr Secure
        by (auto simp: leader_lookup_def fetch_validated_def resolver_ok_def recursor_ok_def Let_def)
    next
      case Insecure
      then have "\<not> secure" by (simp add: secure_def)
      with ins show ?thesis
        using assms(2) Some q s v Inr Insecure
        by (auto simp: leader_lookup_def fetch_validated_def resolver_ok_def recursor_ok_def Let_def)
    qed
  qed
qed

lemma direct_lookup_ok:
  assumes "resolver_ok cr anchors rv" "direct_lookup ou qname qtype rv = (r, rv')"
  shows "resolver_ok cr anchors rv' \<and> (\<forall>h. r = Inr h \<longrightarrow> hit_sound cr anchors qname qtype h)"
proof (cases "route_for rv qname")
  case None
  then show ?thesis using assms by (auto simp: direct_lookup_def)
next
  case (Some via)
  obtain x rv1 where q: "source_query ou via qname qtype True rv = (x, rv1)" by fastforce
  have "resolver_ok cr anchors rv1"
    using source_query_echoes [OF _ q] assms(1) by (simp add: resolver_ok_def)
  then show ?thesis using assms(2) Some q by (cases x) (auto simp: direct_lookup_def)
qed

interpretation validated_lookup: lookup_contract cr "resolver_ok cr anchors" "hit_sound cr anchors" for cr anchors
proof unfold_locales
  fix rv assume ok: "resolver_ok cr anchors rv"
  then show "resolver_ok cr anchors (rv\<lparr>rv_metrics := mt\<rparr>)" "resolver_ok cr anchors (rv\<lparr>rv_flight := f\<rparr>)" for mt f
    by (simp_all add: resolver_ok_def recursor_ok_def)
  show "resolver_ok cr anchors rv'" if "resolver_cache_get \<lparr>ck_qname = n, ck_qtype = t\<rparr> now rv = (r, rv')" for n t now r rv'
    using resolver_cache_get_ok [OF ok that] by blast
  show "hit_sound cr anchors n t h" if "resolver_cache_get \<lparr>ck_qname = n, ck_qtype = t\<rparr> now rv = (Some h, rv')" for n t now h rv'
    using resolver_cache_get_ok [OF ok that] by blast
  show "resolver_ok cr anchors rv'" if "leader_lookup cr ou n t rv = (x, rv')" for ou n t x rv'
    using leader_lookup_ok [OF ok that] by blast
  show "hit_sound cr anchors n t h" if "leader_lookup cr ou n t rv = (Inr h, rv')" for ou n t h rv'
    using leader_lookup_ok [OF ok that] by blast
  show "resolver_ok cr anchors rv'" if "direct_lookup ou n t rv = (x, rv')" for ou n t x rv'
    using direct_lookup_ok [OF ok that] by blast
  show "hit_sound cr anchors n t h" if "direct_lookup ou n t rv = (Inr h, rv')" for ou n t h rv'
    using direct_lookup_ok [OF ok that] by blast
  show "hit_sound cr anchors n t h"
    if "cache_get_stale (rv_cache rv) \<lparr>ck_qname = n, ck_qtype = t\<rparr> now = Some h" for n t now h
    using ok cache_get_stale_secure [OF _ that] by (simp add: resolver_ok_def)
qed

text \<open>What a message or a pending lookup says about the question when its bit AD may be set.\<close>

definition ad_sound :: "crypto \<Rightarrow> trust_anchor list \<Rightarrow> message \<Rightarrow> message \<Rightarrow> bool" where
  "ad_sound cr anchors query m \<longleftrightarrow>
     (fl_ad (m_flags m) \<longrightarrow>
        (\<exists>q. m_questions query = [q] \<and> validated cr anchors \<lparr>ck_qname = q_name q, ck_qtype = q_type q\<rparr> (m_answers m)))"

definition pending_ok :: "message \<Rightarrow> pending \<Rightarrow> bool" where
  "pending_ok query p \<longleftrightarrow> \<not> fl_ad (m_flags (pe_resp p)) \<and>
     (pe_append p \<or> (\<exists>q. m_questions query = [q] \<and> pe_target p = q_name q \<and> pe_qtype p = q_type q))"

lemma merge_hit_ad:
  assumes "pending_ok query \<lparr>pe_resp = resp, pe_target = qname, pe_qtype = qtype, pe_append = apnd\<rparr>"
    "hit_sound cr anchors qname qtype h"
  shows "ad_sound cr anchors query (merge_hit resp h apnd)"
  using assms by (auto simp: merge_hit_def ad_sound_def pending_ok_def set_rcode_def Let_def)

lemma ad_sound_clear: "\<not> fl_ad (m_flags m) \<Longrightarrow> ad_sound cr anchors query m"
  by (simp add: ad_sound_def)

definition outcome_ok :: "crypto \<Rightarrow> trust_anchor list \<Rightarrow> message \<Rightarrow> outcome \<times> resolver \<Rightarrow> bool" where
  "outcome_ok cr anchors query x \<longleftrightarrow> resolver_ok cr anchors (snd x) \<and>
     (case fst x of Done m \<Rightarrow> ad_sound cr anchors query m | Pending p \<Rightarrow> pending_ok query p)"

lemma outcome_ok_Done:
  "resolver_ok cr anchors rv \<Longrightarrow> \<not> fl_ad (m_flags m) \<Longrightarrow> outcome_ok cr anchors query (Done m, rv)"
  by (simp add: outcome_ok_def ad_sound_clear)

lemma from_cache_or_pending_ok:
  assumes "resolver_ok cr anchors rv"
    "pending_ok query \<lparr>pe_resp = resp, pe_target = target, pe_qtype = qtype, pe_append = apnd\<rparr>"
  shows "outcome_ok cr anchors query (from_cache_or_pending resp target qtype apnd now rv)"
proof -
  obtain h rv' where g: "resolver_cache_get \<lparr>ck_qname = target, ck_qtype = qtype\<rparr> now rv = (h, rv')" by fastforce
  from resolver_cache_get_ok [OF assms(1) g] merge_hit_ad [OF assms(2)] assms(2) g show ?thesis
    by (cases h) (auto simp: from_cache_or_pending_def outcome_ok_def)
qed

lemma fl_ad_simps [simp]:
  "fl_ad (m_flags (set_rcode rc m)) = fl_ad (m_flags m)"
  "fl_ad (m_flags (response_to query)) = False"
  "fl_ad (m_flags (chaos_answer version m q)) = fl_ad (m_flags m)"
  "fl_ad (m_flags (rpz_answer action q m)) = fl_ad (m_flags m)"
  by (auto simp: set_rcode_def response_to_def message_new_def flags_default_def chaos_answer_def rpz_answer_def Let_def
        split: rpz_action.splits ip_addr.splits)

lemma attach_dnssec_ad: "attach_dnssec cr resp q z sz neg = Some m \<Longrightarrow> fl_ad (m_flags m) = fl_ad (m_flags resp)"
  by (auto simp: attach_dnssec_def Let_def split: if_splits)

lemma resolve_authoritative_ok:
  assumes "resolver_ok cr anchors rv" "\<not> fl_ad (m_flags resp)"
    "resolve_authoritative cr query allowed q z resp now rv = Some x"
  shows "outcome_ok cr anchors query x"
  using assms
  by (auto simp: resolve_authoritative_def Let_def bind_eq_Some_conv pending_ok_def
        split: option.splits if_splits dest!: attach_dnssec_ad intro!: outcome_ok_Done from_cache_or_pending_ok)

lemma resolve_elsewhere_ok:
  assumes "resolver_ok cr anchors rv" "\<not> fl_ad (m_flags resp)" "m_questions query = [q]"
  shows "outcome_ok cr anchors query (resolve_elsewhere query allowed q resp now rv)"
  using assms
  by (auto simp: resolve_elsewhere_def pending_ok_def split: option.splits intro!: outcome_ok_Done from_cache_or_pending_ok)

lemma resolve_local_ok:
  assumes "resolver_ok cr anchors rv" "resolve_local cr version query allowed client now rv = Some x"
  shows "outcome_ok cr anchors query x"
proof -
  have *: "outcome_ok cr anchors query x" if "resolve_checked cr version query allowed client now rv = Some x"
    using that assms(1)
    by (auto simp: resolve_checked_def Let_def split: if_splits list.splits option.splits
        intro!: outcome_ok_Done resolve_elsewhere_ok elim!: resolve_authoritative_ok [rotated 2])
  show ?thesis
    using assms * by (auto simp: resolve_local_def Let_def split: option.splits if_splits intro!: outcome_ok_Done)
qed

lemma pending_sound:
  assumes "pending_ok query p"
    and "(\<exists>h. hit_sound cr anchors (pe_target p) (pe_qtype p) h \<and> m = merge_hit (pe_resp p) h (pe_append p)) \<or>
      m = bogus_response (pe_resp p) \<or> m = set_rcode RCODE_SERVFAIL (pe_resp p)"
  shows "ad_sound cr anchors query m"
proof -
  have p: "pending_ok query \<lparr>pe_resp = pe_resp p, pe_target = pe_target p, pe_qtype = pe_qtype p, pe_append = pe_append p\<rparr>"
    and ad: "\<not> fl_ad (m_flags (pe_resp p))"
    using assms(1) by (simp_all add: pending_ok_def)
  then have "ad_sound cr anchors query (bogus_response (pe_resp p))" "ad_sound cr anchors query (set_rcode RCODE_SERVFAIL (pe_resp p))"
    by (auto simp: bogus_response_def Let_def intro!: ad_sound_clear)
  then show ?thesis using assms(2) merge_hit_ad [OF p] by metis
qed

lemma resolve_pending_ok:
  assumes "\<And>n rv. resolver_ok cr anchors rv \<Longrightarrow> resolver_ok cr anchors (others n rv)"
    and "resolver_ok cr anchors rv" "pending_ok query p" "resolve_pending cr ou others p rv = (m, rv')"
  shows "resolver_ok cr anchors rv' \<and> ad_sound cr anchors query m"
  using validated_lookup.pending_known [OF assms(1,2,4)] pending_sound [OF assms(3)] by blast

text \<open>
  With validation enabled, whatever way a query is answered (zone data,
  policy, cache, upstream, or stale data after a failure) and whatever the
  other tasks do meanwhile within the invariant, the reply carries AD only if
  its answer section is, up to lifetimes, that of a message for this very
  question which the validator found secure; and the invariant of the
  resolver's state is kept.
\<close>
theorem ad_bit_sound:
  assumes "resolver_ok cr anchors rv" "\<And>n rv. resolver_ok cr anchors rv \<Longrightarrow> resolver_ok cr anchors (others n rv)"
    and "resolver_handle cr version ou others query allowed client rv = Some (m, rv')"
  shows "resolver_ok cr anchors rv' \<and>
    (fl_ad (m_flags m) \<longrightarrow>
       (\<exists>q. m_questions query = [q] \<and> validated cr anchors \<lparr>ck_qname = q_name q, ck_qtype = q_type q\<rparr> (m_answers m)))"
proof -
  obtain out rv1 where l: "resolve_local cr version query allowed client (ou_now ou) rv = Some (out, rv1)"
    using assms(3) by (auto simp: resolver_handle_def split: option.splits)
  note ok = resolve_local_ok [OF assms(1) l]
  show ?thesis
  proof (cases out)
    case (Done m1)
    then show ?thesis using assms(3) l ok by (simp add: resolver_handle_def outcome_ok_def ad_sound_def)
  next
    case (Pending p)
    then show ?thesis
      using assms(3) l ok resolve_pending_ok [OF assms(2), where rv = rv1 and query = query and p = p and ou = ou and m = m and rv' = rv']
      by (simp add: resolver_handle_def outcome_ok_def ad_sound_def)
  qed
qed

definition sample_asked :: message where
  "sample_asked = sample_response\<lparr>m_questions := [\<lparr>q_name = [[119], [101]], q_type = TYPE_A, q_class = CLASS_IN\<rparr>]\<rparr>"

definition sample_resolver :: resolver where
  "sample_resolver =
     (resolver_new (hd sample_anchors)
       \<lparr>ro_zones = [], ro_upstreams = po_addrs sample_pool, ro_forwards = [], ro_cache_size = 1, ro_rpz = [], ro_signed = [],
        ro_validate = True, ro_recursive = False, ro_views = [], ro_trust_anchors = []\<rparr> metrics_new)
     \<lparr>rv_cache := cache_insert (cache_new 1) \<lparr>ck_qname = [[119], [101]], ck_qtype = TYPE_A\<rparr> 0 (m_answers sample_asked) [] True 0\<rparr>"

lemma sample_asked_secure: "validate_msg sample_crypto sample_fetch sample_anchors sample_asked = Secure"
proof -
  have "m_authorities sample_response = []" by (simp add: sample_response_def message_new_def)
  moreover have "list_all (\<lambda>r. rr_rtype r = TYPE_RRSIG) (m_answers sample_response) = False"
    by (simp add: sample_response_def sample_rrset_def rr_rtype_def)
  ultimately show ?thesis
    using sample_response_secure
    by (auto simp: validate_msg_def sample_asked_def Let_def split: prod.splits if_splits)
qed

lemma secure_cache_new [simp]: "secure_cache cr anchors (cache_new n)"
  unfolding secure_cache_def by (simp add: cache_new_def cache_ok_def)

lemma sample_resolver_ok: "resolver_ok sample_crypto sample_anchors sample_resolver"
proof -
  have "validated sample_crypto sample_anchors \<lparr>ck_qname = [[119], [101]], ck_qtype = TYPE_A\<rparr> (m_answers sample_asked)"
    using sample_asked_secure unfolding validated_def by (fastforce simp: echoes_def sample_asked_def)
  then show ?thesis
    by (auto simp: resolver_ok_def sample_resolver_def resolver_new_def recursor_ok_def sample_anchors_def
        intro!: cache_insert_secure)
qed

definition sample_question :: message where
  "sample_question = forward_message 7 [[119], [101]] TYPE_A False"

lemma sample_resolver_cached:
  "\<exists>h c. cache_get (rv_cache sample_resolver) \<lparr>ck_qname = [[119], [101]], ck_qtype = TYPE_A\<rparr> 5 = (c, Some h) \<and> hit_secure h"
proof -
  obtain d f where s: "sign_rrset sample_zone_key [[119], [101]] TYPE_A sample_rrset 5 9 =
      Some \<lparr>rr_name = [[119], [101]], rr_class = CLASS_IN, rr_ttl = rr_ttl (hd sample_rrset), rr_rdata = RD_Unknown TYPE_RRSIG d\<rparr>"
    by (rule sample_signed [of sample_rrset "[[119], [101]]" TYPE_A]) (simp_all add: sample_rrset_def)
  then show ?thesis
    by (simp add: sample_resolver_def sample_asked_def sample_response_def cache_insert_eq cacheable_def sample_rrset_def
        response_ttl_def put_entry_def update_conv' cache_get_def new_entry_def secs_def Let_def)
qed

lemma sample_handle:
  "\<exists>m rv'. resolver_handle cr version (ou\<lparr>ou_now := 5\<rparr>) others sample_question True client sample_resolver = Some (m, rv') \<and>
     fl_ad (m_flags m)"
proof -
  have "can_recurse sample_resolver [[119], [101]]"
    by (simp add: can_recurse_def sample_resolver_def resolver_new_def pool_new_def sample_pool_def)
  moreover have "rv_rpz sample_resolver = []" "rv_views sample_resolver = []" "rv_zones sample_resolver = []"
    by (simp_all add: sample_resolver_def resolver_new_def)
  ultimately show ?thesis
    using sample_resolver_cached
    by (auto simp: resolver_handle_def resolve_local_def resolve_checked_def resolve_elsewhere_def sample_question_def
        forward_message_def message_new_def flags_default_def Let_def zones_for_def find_zone_def rpz_lookup_def
        edns_ours_def from_cache_or_pending_def resolver_cache_get_def merge_hit_def)
qed

theorem ad_bit_sound_witness:
  "\<exists>m rv'. resolver_handle sample_crypto ''1'' \<lparr>ou_net = sample_network, ou_ids = (\<lambda>_. 7), ou_now = 5\<rparr> (\<lambda>_ rv. rv)
       sample_question True (V4 1) sample_resolver = Some (m, rv') \<and> fl_ad (m_flags m) \<and>
     validated sample_crypto sample_anchors \<lparr>ck_qname = [[119], [101]], ck_qtype = TYPE_A\<rparr> (m_answers m)"
proof -
  let ?ou = "\<lparr>ou_net = sample_network, ou_ids = (\<lambda>_. 7), ou_now = 5\<rparr>"
  obtain m rv' where h: "resolver_handle sample_crypto ''1'' ?ou (\<lambda>_ rv. rv) sample_question True (V4 1) sample_resolver =
      Some (m, rv')" "fl_ad (m_flags m)"
    using sample_handle [of sample_crypto "''1''" ?ou "\<lambda>_ rv. rv" "V4 1"] by auto
  then show ?thesis
    using ad_bit_sound [OF sample_resolver_ok _ h(1)] by (simp add: sample_question_def forward_message_def message_new_def)
qed

section \<open>A client without recursion\<close>

lemma with_cache_simps [simp]:
  "can_recurse (rv\<lparr>rv_cache := c\<rparr>) = can_recurse rv" "zones_for (rv\<lparr>rv_cache := c\<rparr>) = zones_for rv"
  "zone_dnssec (rv\<lparr>rv_cache := c\<rparr>) = zone_dnssec rv" "tick x (rv\<lparr>rv_cache := c\<rparr>) = (tick x rv)\<lparr>rv_cache := c\<rparr>"
  by (auto simp: fun_eq_iff can_recurse_def forward_pool_for_def zones_for_def zone_dnssec_def tick_def split: option.splits)

definition done_with :: "cache \<Rightarrow> (outcome \<times> resolver) option \<Rightarrow> (outcome \<times> resolver) option" where
  "done_with c x = map_option (\<lambda>(out, rv). (out, rv\<lparr>rv_cache := c\<rparr>)) x"

lemma done_with_simps [simp]:
  "done_with c None = None" "done_with c (Some (out, rv)) = Some (out, rv\<lparr>rv_cache := c\<rparr>)"
  by (simp_all add: done_with_def)

text \<open>Refused or not asked for: nothing of the cache is read.\<close>

lemma closed_authoritative:
  assumes "\<not> allowed \<or> \<not> fl_rd (m_flags query)"
  shows "resolve_authoritative cr query allowed q z resp now' (rv\<lparr>rv_cache := c\<rparr>) =
      done_with c (resolve_authoritative cr query allowed q z resp now rv)"
    and "resolve_authoritative cr query allowed q z resp now rv = Some (out, rv') \<Longrightarrow> \<exists>m. out = Done m"
  using assms
  by (auto simp: resolve_authoritative_def Let_def done_with_def option.map_comp split: option.splits
      split: Option.bind_splits)

lemma closed_elsewhere:
  assumes "\<not> allowed \<or> \<not> fl_rd (m_flags query)"
  shows "Some (resolve_elsewhere query allowed q resp now' (rv\<lparr>rv_cache := c\<rparr>)) =
      done_with c (Some (resolve_elsewhere query allowed q resp now rv))"
    and "resolve_elsewhere query allowed q resp now rv = (out, rv') \<Longrightarrow> \<exists>m. out = Done m"
  using assms by (auto simp: resolve_elsewhere_def split: option.splits if_splits)

lemma closed_checked:
  assumes "\<not> allowed \<or> \<not> fl_rd (m_flags query)"
  shows "resolve_checked cr version query allowed client now' (rv\<lparr>rv_cache := c\<rparr>) =
      done_with c (resolve_checked cr version query allowed client now rv)"
    and "resolve_checked cr version query allowed client now rv = Some (out, rv') \<Longrightarrow> \<exists>m. out = Done m"
  using closed_authoritative [OF assms] closed_elsewhere [OF assms]
  by (auto simp: resolve_checked_def Let_def split: list.splits option.splits if_splits)

lemma closed_local:
  assumes "\<not> allowed \<or> \<not> fl_rd (m_flags query)"
  shows "resolve_local cr version query allowed client now' (rv\<lparr>rv_cache := c\<rparr>) =
      done_with c (resolve_local cr version query allowed client now rv)"
    and "resolve_local cr version query allowed client now rv = Some (out, rv') \<Longrightarrow> \<exists>m. out = Done m"
  using closed_checked [OF assms] by (auto simp: resolve_local_def Let_def split: option.splits if_splits)

text \<open>
  C8: For a client that may not use recursion, or does not ask for it, the
  reply does not depend on the cache, the clock, the network or other tasks,
  and it leaves the cache as it was: what others looked up can be neither
  observed nor changed.
\<close>
theorem closed_resolver:
  assumes "\<not> allowed \<or> \<not> fl_rd (m_flags query)"
  shows "resolver_handle cr version ou' others' query allowed client (rv\<lparr>rv_cache := c\<rparr>) =
    map_option (\<lambda>(m, rv'). (m, rv'\<lparr>rv_cache := c\<rparr>)) (resolver_handle cr version ou others query allowed client rv)"
proof (cases "resolve_local cr version query allowed client (ou_now ou) rv")
  case None
  then show ?thesis using closed_local(1) [OF assms, where now = "ou_now ou" and now' = "ou_now ou'"]
    by (simp add: resolver_handle_def)
next
  case (Some x)
  obtain out rv' where x: "x = (out, rv')" by fastforce
  then obtain m where "out = Done m" using closed_local(2) [OF assms] Some by blast
  then show ?thesis using closed_local(1) [OF assms, where now = "ou_now ou" and now' = "ou_now ou'"] Some x
    by (simp add: resolver_handle_def)
qed

theorem closed_resolver_witness:
  "resolver_handle sample_crypto ''1'' \<lparr>ou_net = sample_network, ou_ids = (\<lambda>_. 7), ou_now = 5\<rparr> (\<lambda>_ rv. rv)
       sample_question False (V4 1) (sample_resolver\<lparr>rv_cache := cache_new 1\<rparr>) =
   map_option (\<lambda>(m, rv'). (m, rv'\<lparr>rv_cache := cache_new 1\<rparr>))
     (resolver_handle sample_crypto ''1'' \<lparr>ou_net = sample_network, ou_ids = (\<lambda>_. 7), ou_now = 0\<rparr> (\<lambda>_ rv. rv)
       sample_question False (V4 1) sample_resolver)"
  using closed_resolver [of False] by blast

section \<open>The last resort of a follower\<close>

text \<open>
  A follower that is woken up three times without an entry in the cache: the
  leader gave up (as it does on a bogus answer) and another task has already
  taken the lead.
\<close>

definition next_leader :: "cache_key \<Rightarrow> nat \<Rightarrow> resolver \<Rightarrow> resolver" where
  "next_leader key n rv =
     rv\<lparr>rv_flight := fst (flight_begin key (guard_drop key (the (map_of (sf_inflight (rv_flight rv)) key)) (rv_flight rv)))\<rparr>"

definition waited :: "cache_key \<Rightarrow> resolver \<Rightarrow> resolver" where
  "waited key rv = next_leader key 0 (tick Singleflight_merged rv)"

lemma resolver_same [simp]: "rv\<lparr>rv_flight := rv_flight rv\<rparr> = rv" "rv\<lparr>rv_cache := rv_cache rv\<rparr> = (rv :: resolver)"
  by simp_all

lemma next_leader_busy: "map_of (sf_inflight (rv_flight (next_leader key n rv))) key \<noteq> None"
  by (auto simp: next_leader_def flight_begin_def guard_drop_def guard_release_def guard_send_def update_conv' delete_conv'
        split: option.splits)

lemma follower_round:
  assumes "map_of (sf_inflight (rv_flight rv)) \<lparr>ck_qname = qname, ck_qtype = qtype\<rparr> \<noteq> None"
    "map_of (ca_inner (rv_cache rv)) \<lparr>ck_qname = qname, ck_qtype = qtype\<rparr> = None"
  shows "external_rounds cr ou (next_leader \<lparr>ck_qname = qname, ck_qtype = qtype\<rparr>) (Suc n) qname qtype rv =
    external_rounds cr ou (next_leader \<lparr>ck_qname = qname, ck_qtype = qtype\<rparr>) n qname qtype
      (waited \<lparr>ck_qname = qname, ck_qtype = qtype\<rparr> rv)"
proof -
  let ?key = "\<lparr>ck_qname = qname, ck_qtype = qtype\<rparr>"
  have "resolver_cache_get ?key (ou_now ou) rv = (None, rv)"
    using assms(2) by (simp add: resolver_cache_get_def cache_get_def)
  moreover obtain c where "flight_begin ?key (rv_flight rv) = (rv_flight rv, Follower c)"
    using assms(1) by (auto simp: flight_begin_def)
  ultimately show ?thesis by (simp add: waited_def next_leader_def Let_def)
qed

lemma waited_keeps:
  "map_of (sf_inflight (rv_flight (waited key rv))) key \<noteq> None" "rv_cache (waited key rv) = rv_cache rv"
  using next_leader_busy [of key 0] by (simp_all add: waited_def) (simp add: next_leader_def tick_def)

text \<open>
  C40: A follower whose leaders fail three times in a row fetches the answer
  itself and accepts it without validation: whatever trust anchors are
  configured, the records the source returned are handed to the client (with
  checking disabled in the request), and nothing is cached.
\<close>
theorem follower_skips_validation:
  fixes qname :: dns_name and qtype :: u16 and anchors :: "trust_anchor list option"
  defines "key \<equiv> \<lparr>ck_qname = qname, ck_qtype = qtype\<rparr>"
  assumes "map_of (sf_inflight (rv_flight rv)) key \<noteq> None" "map_of (ca_inner (rv_cache rv)) key = None"
    and "rv3 = waited key (waited key (waited key (rv\<lparr>rv_validator := anchors\<rparr>)))" "route_for rv3 qname = Some via"
    and "source_query ou via qname qtype True rv3 = (Inr msg, rv4)"
  shows "resolve_external cr ou (next_leader key) qname qtype (rv\<lparr>rv_validator := anchors\<rparr>) =
    (Inr \<lparr>hit_rcode = fl_rcode (m_flags msg), hit_answers = m_answers msg, hit_authorities = [], hit_secure = False\<rparr>, rv4)"
proof -
  let ?rv = "rv\<lparr>rv_validator := anchors\<rparr>"
  have "external_rounds cr ou (next_leader key) 3 qname qtype ?rv = external_rounds cr ou (next_leader key) 0 qname qtype rv3"
    using assms(2,3) follower_round waited_keeps unfolding assms(4) key_def numeral_3_eq_3
    by (simp del: external_rounds.simps)
  then show ?thesis using assms(5,6) by (simp add: resolve_external_def direct_lookup_def)
qed

lemma sample_forward_dnssec: "forward_query sample_network (V4 2, 53) 7 [[97]] TYPE_A True = Inr (sample_reply 7)"
  by (simp add: forward_query_def udp_exchange_def sample_network_def sample_reply_bytes numeral_2_eq_2
        message_encode_parse [OF sample_reply_ok])
    (simp add: sample_reply_def is_reply_to_def response_to_def forward_message_def message_new_def flags_default_def)

definition sample_waiter :: resolver where
  "sample_waiter = sample_resolver
     \<lparr>rv_pool := pool_new [(V4 2, 53)], rv_flight := fst (flight_begin \<lparr>ck_qname = [[97]], ck_qtype = TYPE_A\<rparr> flight_new)\<rparr>"

theorem follower_skips_validation_witness:
  "\<exists>rv4. resolve_external sample_crypto \<lparr>ou_net = sample_network, ou_ids = (\<lambda>_. 7), ou_now = 5\<rparr>
       (next_leader \<lparr>ck_qname = [[97]], ck_qtype = TYPE_A\<rparr>) [[97]] TYPE_A (sample_waiter\<lparr>rv_validator := Some sample_anchors\<rparr>) =
     (Inr \<lparr>hit_rcode = fl_rcode (m_flags (sample_reply 7)), hit_answers = m_answers (sample_reply 7), hit_authorities = [],
           hit_secure = False\<rparr>, rv4)"
proof -
  let ?key = "\<lparr>ck_qname = [[97]], ck_qtype = TYPE_A\<rparr>"
  let ?ou = "\<lparr>ou_net = sample_network, ou_ids = (\<lambda>_. 7), ou_now = 5\<rparr>"
  let ?rv = "waited ?key (waited ?key (waited ?key (sample_waiter\<lparr>rv_validator := Some sample_anchors\<rparr>)))"
  have pool: "rv_pool (waited key rv) = rv_pool rv" "rv_forwards (waited key rv) = rv_forwards rv"
    "rv_recursor (waited key rv) = rv_recursor rv" for key rv
    by (simp_all add: waited_def next_leader_def tick_def)
  have "rv_pool ?rv = Some \<lparr>po_addrs = [(V4 2, 53)], po_preferred = 0\<rparr>"
    unfolding pool by (simp add: sample_waiter_def pool_new_def)
  then have "\<exists>rv4. source_query ?ou Via_pool [[97]] TYPE_A True ?rv = (Inr (sample_reply 7), rv4)"
    by (simp add: source_query_def query_inner_def sample_forward_dnssec Let_def)
  then obtain rv4 where q: "source_query ?ou Via_pool [[97]] TYPE_A True ?rv = (Inr (sample_reply 7), rv4)" by blast
  have "route_for ?rv [[97]] = Some Via_pool"
    unfolding route_for_def forward_pool_for_def pool
    by (simp add: sample_waiter_def sample_resolver_def resolver_new_def pool_new_def List.map_filter_def)
  moreover have "map_of (sf_inflight (rv_flight sample_waiter)) ?key \<noteq> None"
    by (simp add: sample_waiter_def flight_begin_def flight_new_def)
  moreover have "map_of (ca_inner (rv_cache sample_waiter)) ?key = None"
    using cache_store.entry_store_other [of "cache_new 1" ?key "\<lparr>ck_qname = [[119], [101]], ck_qtype = TYPE_A\<rparr>"]
    by (auto simp: sample_waiter_def sample_resolver_def cache_insert_eq cache_new_def cache_ok_def)
  ultimately show ?thesis
    using follower_skips_validation [OF _ _ refl _ q, of sample_crypto] by blast
qed

end
