(* ===== verification/Ip_Text.thy ===== *)
theory Ip_Text
  imports Rust_Text
begin

unbundle bit_operations_syntax

text \<open>
  Text forms of the Rust standard library used by the readers of zone files,
  networks and policies: hexadecimal numbers, IPv4 and IPv6 addresses
  (\<open>Display\<close> and \<open>FromStr\<close> of \<open>std::net\<close>).
\<close>

section \<open>Digits\<close>

definition hex_char :: "nat \<Rightarrow> char" where
  "hex_char d = (if d < 10 then digit_char d else char_of (87 + d))"

definition to_digit :: "nat \<Rightarrow> char \<Rightarrow> nat option" where
  "to_digit radix c =
     (let n = of_char c :: nat;
          v = (if 48 \<le> n \<and> n \<le> 57 then n - 48 else if 97 \<le> n \<and> n \<le> 102 then n - 87
               else if 65 \<le> n \<and> n \<le> 70 then n - 55 else radix)
      in if v < radix then Some v else None)"

fun show_hex :: "nat \<Rightarrow> string" where
  "show_hex n = (if n < 16 then [hex_char n] else show_hex (n div 16) @ [hex_char (n mod 16)])"

declare show_hex.simps [simp del]

fun digits_of :: "nat \<Rightarrow> string \<Rightarrow> nat \<Rightarrow> nat \<Rightarrow> nat \<times> nat \<times> string" where
  "digits_of radix [] acc n = (acc, n, [])"
| "digits_of radix (c # cs) acc n =
     (case to_digit radix c of
        None \<Rightarrow> (acc, n, c # cs)
      | Some d \<Rightarrow> digits_of radix cs (acc * radix + d) (n + 1))"

text \<open>\<open>Parser::read_number\<close> with a limit on the digits.\<close>

definition read_number :: "nat \<Rightarrow> nat \<Rightarrow> bool \<Rightarrow> string \<Rightarrow> (nat \<times> string) option" where
  "read_number radix max_digits allow_zero_prefix s =
     (case digits_of radix s 0 0 of
        (v, n, rest) \<Rightarrow>
          if n = 0 \<or> n > max_digits \<or> \<not> allow_zero_prefix \<and> hd s = CHR ''0'' \<and> n > 1 then None
          else Some (v, rest))"

definition read_octet :: "string \<Rightarrow> (byte \<times> string) option" where
  "read_octet s =
     (case read_number 10 3 False s of
        None \<Rightarrow> None
      | Some (v, rest) \<Rightarrow> if v \<le> 255 then Some (word_of_nat v, rest) else None)"

definition read_char :: "char \<Rightarrow> string \<Rightarrow> string option" where
  "read_char c s = (case s of d # rest \<Rightarrow> if d = c then Some rest else None | [] \<Rightarrow> None)"

text \<open>\<open>read_separator\<close>: the separator is read in front of every item but the first.\<close>

definition read_separated :: "char \<Rightarrow> bool \<Rightarrow> (string \<Rightarrow> ('a \<times> string) option) \<Rightarrow> string \<Rightarrow> ('a \<times> string) option" where
  "read_separated c first inner s = (if first then inner s else Option.bind (read_char c s) inner)"

section \<open>IPv4\<close>

definition show_ipv4 :: "u32 \<Rightarrow> string" where
  "show_ipv4 a =
     (case to_be32 a of
        [b0, b1, b2, b3] \<Rightarrow>
          show_nat (unat b0) @ ''.'' @ show_nat (unat b1) @ ''.'' @ show_nat (unat b2) @ ''.'' @ show_nat (unat b3)
      | _ \<Rightarrow> [])"

definition read_ipv4 :: "string \<Rightarrow> (u32 \<times> string) option" where
  "read_ipv4 s =
     Option.bind (read_octet s) (\<lambda>(b0, s0).
     Option.bind (read_separated CHR ''.'' False read_octet s0) (\<lambda>(b1, s1).
     Option.bind (read_separated CHR ''.'' False read_octet s1) (\<lambda>(b2, s2).
     Option.bind (read_separated CHR ''.'' False read_octet s2) (\<lambda>(b3, s3).
       Some (from_be32 b0 b1 b2 b3, s3)))))"

definition parse_ipv4 :: "string \<Rightarrow> u32 option" where
  "parse_ipv4 s =
     (if length s > 15 then None
      else case read_ipv4 s of Some (a, []) \<Rightarrow> Some a | _ \<Rightarrow> None)"

section \<open>IPv6\<close>

definition segments :: "u128 \<Rightarrow> u16 list" where
  "segments a = map (\<lambda>i. ucast (drop_bit (112 - 16 * i) a)) [0..<8]"

definition from_segments :: "u16 list \<Rightarrow> u128" where
  "from_segments gs = foldl (\<lambda>acc g. push_bit 16 acc OR ucast g) 0 gs"

text \<open>The first longest run of zero segments, as its start and length.\<close>

fun zero_runs :: "u16 list \<Rightarrow> nat \<Rightarrow> nat \<times> nat \<Rightarrow> nat \<times> nat \<Rightarrow> nat \<times> nat" where
  "zero_runs [] i current longest = longest"
| "zero_runs (g # gs) i current longest =
     (if g = 0 then
        let current' = (if snd current = 0 then (i, 1) else (fst current, snd current + 1));
            longest' = (if snd current' > snd longest then current' else longest)
        in zero_runs gs (i + 1) current' longest'
      else zero_runs gs (i + 1) (0, 0) longest)"

fun join :: "string \<Rightarrow> string list \<Rightarrow> string" where
  "join sep [] = []"
| "join sep [s] = s"
| "join sep (s # t # ss) = s @ sep @ join sep (t # ss)"

definition show_groups :: "u16 list \<Rightarrow> string" where
  "show_groups gs = join '':'' (map (\<lambda>g. show_hex (unat g)) gs)"

definition show_ipv6 :: "u128 \<Rightarrow> string" where
  "show_ipv6 a =
     (let gs = segments a; (start, len) = zero_runs gs 0 (0, 0) (0, 0) in
      if take 6 gs = [0, 0, 0, 0, 0, 0xFFFF] then ''::ffff:'' @ show_ipv4 (ucast a)
      else if len > 1 then show_groups (take start gs) @ ''::'' @ show_groups (drop (start + len) gs)
      else show_groups gs)"

function read_groups :: "nat \<Rightarrow> nat \<Rightarrow> string \<Rightarrow> u16 list \<times> bool \<times> string" where
  "read_groups limit i s =
     (if i \<ge> limit then ([], False, s)
      else
        case (if i < limit - 1 then read_separated CHR '':'' (i = 0) read_ipv4 s else None) of
          Some (a, rest) \<Rightarrow> ([ucast (drop_bit 16 a), ucast a], True, rest)
        | None \<Rightarrow>
            (case read_separated CHR '':'' (i = 0) (read_number 16 4 True) s of
               None \<Rightarrow> ([], False, s)
             | Some (g, rest) \<Rightarrow>
                 (case read_groups limit (i + 1) rest of (gs, v4, r) \<Rightarrow> (word_of_nat g # gs, v4, r))))"
  by pat_completeness auto
termination by (relation "measure (\<lambda>(limit, i, s). limit - i)") auto

declare read_groups.simps [simp del]

definition read_ipv6 :: "string \<Rightarrow> (u128 \<times> string) option" where
  "read_ipv6 s =
     (case read_groups 8 0 s of
        (head, v4, rest) \<Rightarrow>
          if length head = 8 then Some (from_segments head, rest)
          else if v4 then None
          else
            Option.bind (Option.bind (read_char CHR '':'' rest) (read_char CHR '':'')) (\<lambda>rest1.
              case read_groups (8 - (length head + 1)) 0 rest1 of
                (tail, _, rest2) \<Rightarrow>
                  Some (from_segments (head @ replicate (8 - length head - length tail) 0 @ tail), rest2)))"

definition parse_ipv6 :: "string \<Rightarrow> u128 option" where
  "parse_ipv6 s = (case read_ipv6 s of Some (a, []) \<Rightarrow> Some a | _ \<Rightarrow> None)"

section \<open>Reading digits back\<close>

lemma hex_char_digit: "d < 16 \<Longrightarrow> to_digit 16 (hex_char d) = Some d"
  by (auto simp: to_digit_def hex_char_def of_char_digit Let_def)

lemma dec_char_digit: "d < 10 \<Longrightarrow> to_digit 10 (digit_char d) = Some d"
  by (simp add: to_digit_def of_char_digit Let_def)

text \<open>The text stops being a number here.\<close>

definition no_digit :: "nat \<Rightarrow> string \<Rightarrow> bool" where
  "no_digit radix s \<longleftrightarrow> (case s of [] \<Rightarrow> True | c # _ \<Rightarrow> to_digit radix c = None)"

lemma digits_of_stop [simp]: "no_digit radix s \<Longrightarrow> digits_of radix s acc n = (acc, n, s)"
  by (cases s) (simp_all add: no_digit_def)

lemma digits_of_append:
  "digits_of radix s acc n = (v, k, []) \<Longrightarrow> digits_of radix (s @ t) acc n = digits_of radix t v k"
  by (induction radix s acc n rule: digits_of.induct) (auto split: option.splits)

lemma digits_of_hex:
  "digits_of 16 (show_hex n) 0 0 = (n, length (show_hex n), [])"
proof (induction n rule: show_hex.induct)
  case (1 n)
  show ?case
  proof (cases "n < 16")
    case True
    then show ?thesis by (simp add: show_hex.simps [of n] hex_char_digit)
  next
    case False
    have d: "to_digit 16 (hex_char (n mod 16)) = Some (n mod 16)" by (rule hex_char_digit) simp
    have "digits_of 16 (show_hex (n div 16) @ [hex_char (n mod 16)]) 0 0 =
        digits_of 16 [hex_char (n mod 16)] (n div 16) (length (show_hex (n div 16)))"
      using 1 [OF False] by (rule digits_of_append)
    then show ?thesis using False d by (simp add: show_hex.simps [of n])
  qed
qed

lemma digits_of_dec:
  "digits_of 10 (show_nat n) 0 0 = (n, length (show_nat n), [])"
proof (induction n rule: show_nat.induct)
  case (1 n)
  show ?case
  proof (cases "n < 10")
    case True
    then show ?thesis by (simp add: show_nat.simps [of n] dec_char_digit)
  next
    case False
    have d: "to_digit 10 (digit_char (n mod 10)) = Some (n mod 10)" by (rule dec_char_digit) simp
    have "digits_of 10 (show_nat (n div 10) @ [digit_char (n mod 10)]) 0 0 =
        digits_of 10 [digit_char (n mod 10)] (n div 10) (length (show_nat (n div 10)))"
      using 1 [OF False] by (rule digits_of_append)
    then show ?thesis using False d by (simp add: show_nat.simps [of n])
  qed
qed

lemma show_hex_not_Nil [simp]: "show_hex n \<noteq> []"
  by (subst show_hex.simps) simp

lemma length_show_nat: "n < 10 ^ k \<Longrightarrow> 0 < k \<Longrightarrow> length (show_nat n) \<le> k"
proof (induction k arbitrary: n)
  case (Suc k)
  show ?case
  proof (cases "n < 10")
    case False
    then have "length (show_nat (n div 10)) \<le> k" using Suc by (cases k) auto
    then show ?thesis using False by (subst show_nat.simps) simp
  qed (subst show_nat.simps, simp)
qed simp

lemma length_show_hex: "n < 16 ^ k \<Longrightarrow> 0 < k \<Longrightarrow> length (show_hex n) \<le> k"
proof (induction k arbitrary: n)
  case (Suc k)
  show ?case
  proof (cases "n < 16")
    case False
    then have "length (show_hex (n div 16)) \<le> k" using Suc by (cases k) auto
    then show ?thesis using False by (subst show_hex.simps) simp
  qed (subst show_hex.simps, simp)
qed simp

lemma show_nat_zero_prefix: "hd (show_nat n) = CHR ''0'' \<Longrightarrow> length (show_nat n) = 1"
proof (induction n rule: show_nat.induct)
  case (1 n)
  show ?case
  proof (cases "n < 10")
    case True
    then show ?thesis by (simp add: show_nat.simps [of n])
  next
    case False
    then have h: "hd (show_nat (n div 10)) = CHR ''0''" using 1(2) by (simp add: show_nat.simps [of n])
    then have "length (show_nat (n div 10)) = 1" using 1(1) [OF False] by simp
    then have "n div 10 < 10" by (subst (asm) show_nat.simps) (auto split: if_splits)
    then have "hd (show_nat (n div 10)) = digit_char (n div 10)" by (subst show_nat.simps) simp
    with h \<open>n div 10 < 10\<close> have "n div 10 = 0" using of_char_digit [of "n div 10"] by simp
    then show ?thesis using False by simp
  qed
qed

lemma read_octet_show:
  fixes b :: byte
  assumes "no_digit 10 rest"
  shows "read_octet (show_nat (unat b) @ rest) = Some (b, rest)"
proof -
  have b: "unat b \<le> 255" using unat_lt_256 [of b] by linarith
  then have len: "length (show_nat (unat b)) \<le> 3" by (intro length_show_nat) simp_all
  have "digits_of 10 (show_nat (unat b) @ rest) 0 0 = (unat b, length (show_nat (unat b)), rest)"
    using digits_of_append [OF digits_of_dec] assms by simp
  then show ?thesis
    using len b show_nat_zero_prefix [of "unat b"] by (auto simp: read_octet_def read_number_def)
qed

lemma read_group_show:
  fixes g :: u16
  assumes "no_digit 16 rest"
  shows "read_number 16 4 True (show_hex (unat g) @ rest) = Some (unat g, rest)"
proof -
  have len: "length (show_hex (unat g)) \<le> 4" using unat_lt_65536 [of g] by (intro length_show_hex) simp_all
  have "digits_of 16 (show_hex (unat g) @ rest) 0 0 = (unat g, length (show_hex (unat g)), rest)"
    using digits_of_append [OF digits_of_hex] assms by simp
  then show ?thesis using len by (simp add: read_number_def)
qed

lemma dot_no_digit [simp]: "no_digit 10 (CHR ''.'' # s)"
  by (simp add: no_digit_def to_digit_def Let_def)

lemma colon_no_digit [simp]: "no_digit 16 (CHR '':'' # s)" "no_digit 10 (CHR '':'' # s)"
  by (simp_all add: no_digit_def to_digit_def Let_def)

lemma no_digit_Nil [simp]: "no_digit radix []"
  by (simp add: no_digit_def)

lemma read_ipv4_show:
  assumes "no_digit 10 rest"
  shows "read_ipv4 (show_ipv4 a @ rest) = Some (a, rest)"
  using assms
  by (simp add: read_ipv4_def show_ipv4_def to_be32_def read_octet_show read_separated_def read_char_def)

lemma length_show_octet: "length (show_nat (unat b)) \<le> 3" for b :: byte
proof (rule length_show_nat)
  show "unat b < 10 ^ 3" by (rule less_trans [OF unat_lt_256]) simp
qed simp

lemma length_show_ipv4: "length (show_ipv4 a) \<le> 15"
  using length_show_octet [of "ucast (drop_bit 24 a)"] length_show_octet [of "ucast (drop_bit 16 a)"]
    length_show_octet [of "ucast (drop_bit 8 a)"] length_show_octet [of "ucast a"]
  by (simp add: show_ipv4_def to_be32_def)

lemma parse_show_ipv4: "parse_ipv4 (show_ipv4 a) = Some a"
  using read_ipv4_show [of "[]" a] length_show_ipv4 [of a] by (simp add: parse_ipv4_def)

section \<open>Reading IPv6 addresses back\<close>

text \<open>Groups behind the first, each with its separator.\<close>

definition show_more :: "u16 list \<Rightarrow> string" where
  "show_more gs = concat (map (\<lambda>g. CHR '':'' # show_hex (unat g)) gs)"

lemma show_more_simps [simp]:
  "show_more [] = []" "show_more (g # gs) = CHR '':'' # show_hex (unat g) @ show_more gs"
  by (simp_all add: show_more_def)

lemma show_groups_Cons: "show_groups (g # gs) = show_hex (unat g) @ show_more gs"
  by (induction gs arbitrary: g) (simp_all add: show_groups_def)

lemma show_groups_Nil [simp]: "show_groups [] = []"
  by (simp add: show_groups_def)

text \<open>What may follow the groups: the end, or the two colons of the compressed run.\<close>

definition groups_end :: "string \<Rightarrow> bool" where
  "groups_end s \<longleftrightarrow> s = [] \<or> (\<exists>r. s = CHR '':'' # CHR '':'' # r)"

lemma groups_end_no_digit: "groups_end s \<Longrightarrow> no_digit 16 s"
  by (auto simp: groups_end_def)

lemma show_more_no_digit: "groups_end rest \<Longrightarrow> no_digit 16 (show_more gs @ rest)"
  by (cases gs) (auto simp: groups_end_no_digit)

lemma read_number_none [simp]: "no_digit radix s \<Longrightarrow> read_number radix k z s = None"
  by (simp add: read_number_def)

lemma read_octet_none: "no_digit 10 s \<Longrightarrow> read_octet s = None"
  by (simp add: read_octet_def)

text \<open>A group is never taken for the first octet of an IPv4 address.\<close>

lemma to_digit_sub: "to_digit 10 c = Some d \<Longrightarrow> to_digit 16 c = Some d"
  by (auto simp: to_digit_def Let_def split: if_splits)

lemma digits_of_rest:
  "digits_of 10 s acc n = (v, k, r) \<Longrightarrow> \<exists>p. s = p @ r \<and> (\<forall>c \<in> set p. to_digit 10 c \<noteq> None)"
proof (induction "10 :: nat" s acc n rule: digits_of.induct)
  case (2 c cs acc n)
  show ?case
  proof (cases "to_digit 10 c")
    case None
    then show ?thesis using 2(2) by auto
  next
    case (Some d)
    then obtain p where "cs = p @ r" "\<forall>c \<in> set p. to_digit 10 c \<noteq> None" using 2 by auto
    then show ?thesis using Some by (intro exI [of _ "c # p"]) simp
  qed
qed simp

lemma read_octet_rest: "read_octet s = Some (b, r) \<Longrightarrow> \<exists>p. s = p @ r \<and> (\<forall>c \<in> set p. to_digit 10 c \<noteq> None)"
  by (auto simp: read_octet_def read_number_def split: option.splits prod.splits if_splits dest: digits_of_rest)

lemma hex_char_not_dot: "d < 16 \<Longrightarrow> hex_char d \<noteq> CHR ''.''"
  using hex_char_digit [of d] by (auto simp: to_digit_def Let_def)

lemma show_hex_no_dot: "CHR ''.'' \<notin> set (show_hex n)"
proof (induction n rule: show_hex.induct)
  case (1 n)
  have "hex_char (n mod 16) \<noteq> CHR ''.''" by (rule hex_char_not_dot) simp
  then show ?case using 1 hex_char_not_dot [of n] by (subst show_hex.simps) auto
qed

lemma read_ipv4_group:
  assumes "no_digit 16 rest" "\<not> (\<exists>r. rest = CHR ''.'' # r)"
  shows "read_ipv4 (show_hex (unat g) @ rest) = None"
proof (cases "read_octet (show_hex (unat g) @ rest)")
  case None
  then show ?thesis by (simp add: read_ipv4_def)
next
  case (Some br)
  obtain b r where br: "br = (b, r)" by (cases br)
  obtain p where p: "show_hex (unat g) @ rest = p @ r" "\<forall>c \<in> set p. to_digit 10 c \<noteq> None"
    using read_octet_rest Some br by blast
  have "\<not> (\<exists>r'. r = CHR ''.'' # r')"
  proof
    assume "\<exists>r'. r = CHR ''.'' # r'"
    then obtain r' where r': "r = CHR ''.'' # r'" by blast
    from p(1) [unfolded append_eq_append_conv2] consider
        us where "show_hex (unat g) = p @ us" "us @ rest = r"
      | us where "show_hex (unat g) @ us = p" "rest = us @ r" by metis
    then show False
    proof cases
      case 1
      then show False using r' assms(2) show_hex_no_dot [of "unat g"] by (cases us) auto
    next
      case 2
      show False
      proof (cases us)
        case Nil
        then show False using 2 r' assms(2) by auto
      next
        case (Cons c cs)
        then have "c \<in> set p" using 2(1) by auto
        then obtain d where "to_digit 10 c = Some d" using p(2) by auto
        then show False using assms(1) 2(2) Cons to_digit_sub by (auto simp: no_digit_def)
      qed
    qed
  qed
  then have "read_char CHR ''.'' r = None" by (cases r) (auto simp: read_char_def)
  then show ?thesis using Some br by (simp add: read_ipv4_def read_separated_def)
qed

lemma show_more_no_dot: "groups_end rest \<Longrightarrow> \<not> (\<exists>r. show_more gs @ rest = CHR ''.'' # r)"
  by (cases gs) (auto simp: groups_end_def)

lemma read_groups_stop:
  assumes "groups_end s"
  shows "read_groups limit i s = ([], False, s)"
  using assms
  by (subst read_groups.simps)
     (auto simp: groups_end_def read_separated_def read_char_def read_ipv4_def read_octet_none)

lemma read_groups_group:
  assumes "groups_end rest" "i < limit"
    "s = (if i = 0 then [] else '':'') @ show_hex (unat g) @ show_more gs @ rest"
  shows "read_groups limit i s =
    (case read_groups limit (i + 1) (show_more gs @ rest) of (hs, v4, r) \<Rightarrow> (g # hs, v4, r))"
proof -
  have n: "no_digit 16 (show_more gs @ rest)" by (rule show_more_no_digit [OF assms(1)])
  have 4: "read_ipv4 (show_hex (unat g) @ show_more gs @ rest) = None"
    by (rule read_ipv4_group [OF n show_more_no_dot [OF assms(1)]])
  have g: "read_number 16 4 True (show_hex (unat g) @ show_more gs @ rest) = Some (unat g, show_more gs @ rest)"
    by (rule read_group_show [OF n])
  show ?thesis
    using assms(2,3) 4 g
    by (subst read_groups.simps) (simp add: read_separated_def read_char_def split: prod.splits)
qed

lemma read_groups_more:
  assumes "groups_end rest" "0 < i" "i + length gs \<le> limit"
  shows "read_groups limit i (show_more gs @ rest) = (gs, False, rest)"
  using assms
proof (induction gs arbitrary: i)
  case Nil
  then show ?case by (simp add: read_groups_stop)
next
  case (Cons g gs)
  then have "read_groups limit (i + 1) (show_more gs @ rest) = (gs, False, rest)" by simp
  moreover have "read_groups limit i (show_more (g # gs) @ rest) =
      (case read_groups limit (i + 1) (show_more gs @ rest) of (hs, v4, r) \<Rightarrow> (g # hs, v4, r))"
    using Cons.prems by (intro read_groups_group) simp_all
  ultimately show ?case by (simp only: prod.case)
qed

lemma read_groups_show:
  assumes "groups_end rest" "length gs \<le> limit"
  shows "read_groups limit 0 (show_groups gs @ rest) = (gs, False, rest)"
proof (cases gs)
  case Nil
  then show ?thesis using assms by (simp add: read_groups_stop)
next
  case (Cons g gs')
  then have "read_groups limit 1 (show_more gs' @ rest) = (gs', False, rest)"
    using assms by (intro read_groups_more) simp_all
  moreover have "read_groups limit 0 (show_groups gs @ rest) =
      (case read_groups limit (0 + 1) (show_more gs' @ rest) of (hs, v4, r) \<Rightarrow> (g # hs, v4, r))"
    using assms Cons by (intro read_groups_group) (simp_all add: show_groups_Cons)
  ultimately show ?thesis using Cons by (simp only: prod.case add_0)
qed

text \<open>The chosen run is a run of zero segments.\<close>

definition zero_run :: "u16 list \<Rightarrow> nat \<times> nat \<Rightarrow> bool" where
  "zero_run gs run \<longleftrightarrow> fst run + snd run \<le> length gs \<and>
     (\<forall>k. fst run \<le> k \<and> k < fst run + snd run \<longrightarrow> gs ! k = 0)"

lemma zero_run_snoc: "zero_run ps run \<Longrightarrow> zero_run (ps @ qs) run"
  by (auto simp: zero_run_def nth_append)

lemma zero_runs_correct:
  assumes "zero_run ps current" "snd current = 0 \<or> fst current + snd current = length ps" "zero_run ps longest"
  shows "zero_run (ps @ gs) (zero_runs gs (length ps) current longest)"
  using assms
proof (induction gs arbitrary: ps current longest)
  case (Cons g gs)
  show ?case
  proof (cases "g = 0")
    case True
    let ?cur = "if snd current = 0 then (length ps, 1) else (fst current, snd current + 1)"
    let ?long = "if snd ?cur > snd longest then ?cur else longest"
    have "zero_run (ps @ [g]) ?cur"
      using Cons.prems(1,2) True by (auto simp: zero_run_def nth_append)
    moreover have "fst ?cur + snd ?cur = length (ps @ [g])" using Cons.prems(2) by auto
    moreover have "zero_run (ps @ [g]) ?long"
      using calculation(1) zero_run_snoc [OF Cons.prems(3)] by simp
    ultimately have "zero_run ((ps @ [g]) @ gs) (zero_runs gs (length (ps @ [g])) ?cur ?long)"
      by (intro Cons.IH) simp_all
    then show ?thesis using True by (simp add: Let_def)
  next
    case False
    have "zero_run (ps @ [g]) (0, 0)" by (simp add: zero_run_def)
    then have "zero_run ((ps @ [g]) @ gs) (zero_runs gs (length (ps @ [g])) (0, 0) longest)"
      using zero_run_snoc [OF Cons.prems(3)] by (intro Cons.IH) simp_all
    then show ?thesis using False by simp
  qed
qed simp

lemma zero_run_split:
  assumes "zero_run gs (start, len)"
  shows "take start gs @ replicate len 0 @ drop (start + len) gs = gs"
proof (rule nth_equalityI)
  fix k assume "k < length (take start gs @ replicate len 0 @ drop (start + len) gs)"
  then show "(take start gs @ replicate len 0 @ drop (start + len) gs) ! k = gs ! k"
    using assms by (auto simp: zero_run_def nth_append)
qed (use assms in \<open>auto simp: zero_run_def\<close>)

lemma segment_step:
  "push_bit 16 (drop_bit (k + 16) a) OR ucast (ucast (drop_bit k a) :: u16) = drop_bit k a" for a :: u128
  by (rule bit_word_eqI) (auto simp: bit_simps)

lemma segments_list:
  "segments a = [ucast (drop_bit 112 a), ucast (drop_bit 96 a), ucast (drop_bit 80 a), ucast (drop_bit 64 a),
     ucast (drop_bit 48 a), ucast (drop_bit 32 a), ucast (drop_bit 16 a), ucast a]"
  by (simp add: segments_def upt_rec)

lemma length_segments [simp]: "length (segments a) = 8"
  by (simp add: segments_def)

lemma from_segments_segments: "from_segments (segments a) = a"
proof -
  have "ucast (ucast (drop_bit 112 a) :: u16) = drop_bit 112 a"
    by (rule bit_word_eqI) (auto simp: bit_simps dest: bit_imp_le_length)
  then show ?thesis
    using segment_step [of 96 a] segment_step [of 80 a] segment_step [of 64 a] segment_step [of 48 a]
      segment_step [of 32 a] segment_step [of 16 a] segment_step [of 0 a]
    by (simp add: from_segments_def segments_list)
qed

lemma show_v4_mapped:
  assumes "take 6 (segments a) = [0, 0, 0, 0, 0, 0xFFFF]"
  shows "read_ipv6 (''::ffff:'' @ show_ipv4 (ucast a)) = Some (a, [])"
proof -
  let ?v4 = "show_ipv4 (ucast a)"
  have 0: "read_groups 8 0 (''::ffff:'' @ ?v4) = ([], False, ''::ffff:'' @ ?v4)"
    by (rule read_groups_stop) (simp add: groups_end_def)
  have "hex_char 15 = CHR ''f''" by code_simp
  then have ffff: "show_hex 0xFFFF = ''ffff''" by (simp add: show_hex.simps)
  have "read_number 16 4 True (''ffff:'' @ ?v4) = Some (0xFFFF, CHR '':'' # ?v4)"
    using read_group_show [of "CHR '':'' # ?v4" "0xFFFF"] ffff by simp
  moreover have "read_ipv4 (''ffff:'' @ ?v4) = None"
    using read_ipv4_group [of "CHR '':'' # ?v4" "0xFFFF :: u16"] ffff by simp
  moreover have "read_groups 7 1 (CHR '':'' # ?v4) =
      ([ucast (drop_bit 16 (ucast a :: u32)), ucast (ucast a :: u32)], True, [])"
    using read_ipv4_show [of "[]" "ucast a"]
    by (subst read_groups.simps) (simp add: read_separated_def read_char_def)
  ultimately have 1: "read_groups 7 0 (''ffff:'' @ ?v4) =
      ([0xFFFF, ucast (drop_bit 16 (ucast a :: u32)), ucast (ucast a :: u32)], True, [])"
    by (subst read_groups.simps) (simp add: read_separated_def)
  have low: "ucast (drop_bit 16 (ucast a :: u32)) = (ucast (drop_bit 16 a) :: u16)"
    "ucast (ucast a :: u32) = (ucast a :: u16)"
    by (rule bit_word_eqI, auto simp: bit_simps)+
  have "replicate 5 0 @ [0xFFFF, ucast (drop_bit 16 a), ucast a] = segments a"
    using assms by (simp add: segments_list eval_nat_numeral)
  moreover have "from_segments (replicate 5 0 @ [0xFFFF, ucast (drop_bit 16 (ucast a :: u32)), ucast (ucast a :: u32)]) = a"
    unfolding low calculation by (rule from_segments_segments)
  ultimately show ?thesis
    using 0 1 by (simp add: read_ipv6_def read_char_def low)
qed

lemma read_show_ipv6: "read_ipv6 (show_ipv6 a) = Some (a, [])"
proof -
  obtain start len where run: "zero_runs (segments a) 0 (0, 0) (0, 0) = (start, len)" by fastforce
  have z: "zero_run (segments a) (start, len)"
    using zero_runs_correct [of "[]" "(0, 0)" "(0, 0)" "segments a"] run by (simp add: zero_run_def)
  consider (v4) "take 6 (segments a) = [0, 0, 0, 0, 0, 0xFFFF]"
    | (short) "take 6 (segments a) \<noteq> [0, 0, 0, 0, 0, 0xFFFF]" "len > 1"
    | (long) "take 6 (segments a) \<noteq> [0, 0, 0, 0, 0, 0xFFFF]" "\<not> len > 1" by blast
  then show ?thesis
  proof cases
    case v4
    then show ?thesis using show_v4_mapped by (simp add: show_ipv6_def run Let_def)
  next
    case short
    let ?head = "take start (segments a)" and ?tail = "drop (start + len) (segments a)"
    have le: "start + len \<le> 8" using z by (simp add: zero_run_def)
    have h: "read_groups 8 0 (show_groups ?head @ ''::'' @ show_groups ?tail) =
        (?head, False, ''::'' @ show_groups ?tail)"
      by (rule read_groups_show) (simp_all add: groups_end_def)
    have t: "read_groups (8 - (start + 1)) 0 (show_groups ?tail @ []) = (?tail, False, [])"
      using short le by (intro read_groups_show) (simp_all add: groups_end_def)
    have "length ?head = start" using le by simp
    moreover have "8 - start - length ?tail = len" using le by simp
    ultimately show ?thesis
      using short h t le zero_run_split [OF z] from_segments_segments [of a]
      by (simp add: show_ipv6_def run Let_def read_ipv6_def read_char_def)
  next
    case long
    have "read_groups 8 0 (show_groups (segments a) @ []) = (segments a, False, [])"
      by (rule read_groups_show) (simp_all add: groups_end_def)
    then show ?thesis
      using long from_segments_segments [of a] by (simp add: show_ipv6_def run Let_def read_ipv6_def)
  qed
qed

lemma parse_show_ipv6: "parse_ipv6 (show_ipv6 a) = Some a"
  by (simp add: parse_ipv6_def read_show_ipv6)

end
