(* ===== verification/Utf8_Text.thy ===== *)
theory Utf8_Text
  imports Ip_Text
begin

text \<open>
  The functions of the Rust standard library on whole texts: UTF-8 decoding
  with replacement, white space, lines, splitting, and signed 64-bit numbers.
  A text is its UTF-8 bytes; white space beyond ASCII is recognised by its
  byte sequence, whose first byte never occurs inside another character.
\<close>

section \<open>UTF-8\<close>

abbreviation (input) utf8_cont :: "nat \<Rightarrow> bool" where
  "utf8_cont n \<equiv> 0x80 \<le> n \<and> n \<le> 0xBF"

text \<open>The range of the second byte behind a first byte of a character of 2, 3 or 4 bytes.\<close>

definition utf8_width :: "nat \<Rightarrow> nat" where
  "utf8_width b =
     (if b < 0x80 then 1 else if 0xC2 \<le> b \<and> b \<le> 0xDF then 2 else if 0xE0 \<le> b \<and> b \<le> 0xEF then 3
      else if 0xF0 \<le> b \<and> b \<le> 0xF4 then 4 else 0)"

definition utf8_second :: "nat \<Rightarrow> nat \<Rightarrow> bool" where
  "utf8_second b n \<longleftrightarrow>
     (if b = 0xE0 then 0xA0 \<le> n \<and> n \<le> 0xBF else if b = 0xED then 0x80 \<le> n \<and> n \<le> 0x9F
      else if b = 0xF0 then 0x90 \<le> n \<and> n \<le> 0xBF else if b = 0xF4 then 0x80 \<le> n \<and> n \<le> 0x8F
      else utf8_cont n)"

text \<open>The next chunk of \<open>Utf8Chunks\<close>: whether it is a character, and how many bytes it takes.\<close>

definition utf8_chunk :: "nat \<Rightarrow> nat list \<Rightarrow> bool \<times> nat" where
  "utf8_chunk b rest =
     (let w = utf8_width b in
      if w = 0 then (False, 1)
      else if w = 1 then (True, 1)
      else if \<not> (rest \<noteq> [] \<and> utf8_second b (rest ! 0)) then (False, 1)
      else if w = 2 then (True, 2)
      else if \<not> (length rest > 1 \<and> utf8_cont (rest ! 1)) then (False, 2)
      else if w = 3 then (True, 3)
      else if \<not> (length rest > 2 \<and> utf8_cont (rest ! 2)) then (False, 3)
      else (True, 4))"

lemma utf8_chunk_pos: "utf8_chunk b rest = (v, k) \<Longrightarrow> 0 < k"
  by (auto simp: utf8_chunk_def Let_def split: if_splits)

definition char_of_byte :: "byte \<Rightarrow> char" where
  "char_of_byte b = char_of (unat b)"

text \<open>\<open>String::from_utf8_lossy\<close>: every invalid chunk becomes U+FFFD.\<close>

function from_utf8_lossy :: "bytes \<Rightarrow> string" where
  "from_utf8_lossy [] = []"
| "from_utf8_lossy (b # bs) =
     (case utf8_chunk (unat b) (map unat bs) of
        (valid, k) \<Rightarrow>
          (if valid then map char_of_byte (take k (b # bs)) else [CHR 0xEF, CHR 0xBF, CHR 0xBD]) @
          from_utf8_lossy (drop (k - 1) bs))"
  by pat_completeness auto
termination by (relation "measure length") auto

function valid_utf8 :: "bytes \<Rightarrow> bool" where
  "valid_utf8 [] = True"
| "valid_utf8 (b # bs) =
     (case utf8_chunk (unat b) (map unat bs) of (valid, k) \<Rightarrow> valid \<and> valid_utf8 (drop (k - 1) bs))"
  by pat_completeness auto
termination by (relation "measure length") auto

lemma from_utf8_lossy_valid: "valid_utf8 bs \<Longrightarrow> from_utf8_lossy bs = map char_of_byte bs"
proof (induction bs rule: valid_utf8.induct)
  case (2 b bs)
  obtain valid k where c: "utf8_chunk (unat b) (map unat bs) = (valid, k)" by fastforce
  then obtain j where k: "k = Suc j" using utf8_chunk_pos [OF c] by (cases k) auto
  have "from_utf8_lossy (drop (k - 1) bs) = map char_of_byte (drop (k - 1) bs)"
    using 2 c by simp
  then show ?case
    using 2(2) c k by (simp flip: map_append)
qed simp

lemma as_bytes_char_of_byte [simp]: "as_bytes (map char_of_byte bs) = bs"
proof -
  have "(of_char (char_of (unat b)) :: byte) = b" for b :: byte
  proof -
    have "(of_char (char_of (unat b)) :: byte) = of_nat (of_char (char_of (unat b)))"
      by (rule of_nat_of_char [symmetric])
    also have "\<dots> = of_nat (unat b mod 256)" by (simp only: of_char_of)
    finally show ?thesis by simp
  qed
  then show ?thesis by (simp add: as_bytes_def char_of_byte_def o_def)
qed

section \<open>White space and lines\<close>

text \<open>\<open>char::is_whitespace\<close>: the length of the white space character the text starts with, or 0.\<close>

definition ws_len :: "string \<Rightarrow> nat" where
  "ws_len s =
     (case map of_char (take 3 s) :: nat list of
        [] \<Rightarrow> 0
      | a # r \<Rightarrow>
          if 9 \<le> a \<and> a \<le> 13 \<or> a = 32 then 1
          else (case r of
                  [] \<Rightarrow> 0
                | b # r' \<Rightarrow>
                    if a = 0xC2 \<and> (b = 0x85 \<or> b = 0xA0) then 2
                    else (case r' of
                            [] \<Rightarrow> 0
                          | c # _ \<Rightarrow>
                              if a = 0xE1 \<and> b = 0x9A \<and> c = 0x80 \<or>
                                 a = 0xE2 \<and> b = 0x80 \<and> (0x80 \<le> c \<and> c \<le> 0x8A \<or> c = 0xA8 \<or> c = 0xA9 \<or> c = 0xAF) \<or>
                                 a = 0xE2 \<and> b = 0x81 \<and> c = 0x9F \<or> a = 0xE3 \<and> b = 0x80 \<and> c = 0x80
                              then 3 else 0)))"

lemma ws_len_ascii:
  assumes "of_char c < (0x80 :: nat)"
  shows "ws_len (c # cs) = (if 9 \<le> (of_char c :: nat) \<and> of_char c \<le> (13 :: nat) \<or> of_char c = (32 :: nat) then 1 else 0)"
  using assms by (auto simp: ws_len_def split: list.splits)

lemma ws_len_Nil [simp]: "ws_len [] = 0"
  by (simp add: ws_len_def)

abbreviation (input) LF :: char where "LF \<equiv> CHR 0x0A"
abbreviation (input) CR :: char where "CR \<equiv> CHR 0x0D"

fun split_inclusive :: "char \<Rightarrow> string \<Rightarrow> string list" where
  "split_inclusive c [] = []"
| "split_inclusive c (x # xs) =
     (if x = c then [x] # split_inclusive c xs
      else (case split_inclusive c xs of [] \<Rightarrow> [[x]] | y # ys \<Rightarrow> (x # y) # ys))"

definition strip_line :: "string \<Rightarrow> string" where
  "strip_line l =
     (case strip_suffix LF l of
        None \<Rightarrow> l
      | Some l' \<Rightarrow> (case strip_suffix CR l' of None \<Rightarrow> l' | Some l'' \<Rightarrow> l''))"

definition text_lines :: "string \<Rightarrow> string list" where
  "text_lines s = map strip_line (split_inclusive LF s)"

definition unlines :: "string list \<Rightarrow> string" where
  "unlines ls = concat (map (\<lambda>l. l @ [LF]) ls)"

lemma split_inclusive_line: "c \<notin> set l \<Longrightarrow> split_inclusive c (l @ c # s) = (l @ [c]) # split_inclusive c s"
  by (induction l) auto

lemma text_lines_unlines:
  assumes "list_all (\<lambda>l. LF \<notin> set l \<and> (l = [] \<or> last l \<noteq> CR)) ls"
  shows "text_lines (unlines ls) = ls"
  using assms
proof (induction ls)
  case (Cons l ls)
  then have "strip_line (l @ [LF]) = l" by (auto simp: strip_line_def strip_suffix_def)
  then show ?case
    using Cons by (simp add: text_lines_def unlines_def split_inclusive_line)
qed (simp add: text_lines_def unlines_def)

definition eq_ignore_ascii_case :: "string \<Rightarrow> string \<Rightarrow> bool" where
  "eq_ignore_ascii_case a b \<longleftrightarrow> map lower_char a = map lower_char b"

fun split_once :: "char \<Rightarrow> string \<Rightarrow> (string \<times> string) option" where
  "split_once c [] = None"
| "split_once c (x # xs) = (if x = c then Some ([], xs) else map_option (apfst ((#) x)) (split_once c xs))"

lemma split_once_length: "split_once c s = Some (a, b) \<Longrightarrow> length b < length s"
  by (induction s arbitrary: a) (auto split: if_splits)

lemma split_once_append: "c \<notin> set a \<Longrightarrow> split_once c (a @ c # b) = Some (a, b)"
  by (induction a) auto

section \<open>Signed numbers\<close>

type_synonym i64 = "64 word"

text \<open>\<open>str::parse::<i64>\<close>: an optional sign and decimal digits within the range.\<close>

definition parse_i64 :: "string \<Rightarrow> i64 option" where
  "parse_i64 s =
     (case s of
        [] \<Rightarrow> None
      | c # cs \<Rightarrow>
          if c = CHR ''-'' then
            if cs = [] then None
            else (case parse_digits 0 cs of
                    Some v \<Rightarrow> if v \<le> 2 ^ 63 then Some (word_of_int (- int v)) else None
                  | None \<Rightarrow> None)
          else map_option word_of_nat (parse_uint (2 ^ 63 - 1) s))"

definition show_i64 :: "i64 \<Rightarrow> string" where
  "show_i64 v = (if sint v < 0 then CHR ''-'' # show_nat (nat (- sint v)) else show_nat (nat (sint v)))"

fun show_oct :: "nat \<Rightarrow> string" where
  "show_oct n = (if n < 8 then [digit_char n] else show_oct (n div 8) @ [digit_char (n mod 8)])"

declare show_oct.simps [simp del]

text \<open>\<open>format!("{s:0>width$}")\<close> for an ASCII text.\<close>

definition pad_zeros :: "nat \<Rightarrow> string \<Rightarrow> string" where
  "pad_zeros width s = replicate (width - length s) CHR ''0'' @ s"

text \<open>\<open>is_char_boundary\<close> in front of this byte.\<close>

definition boundary_byte :: "char \<Rightarrow> bool" where
  "boundary_byte c \<longleftrightarrow> \<not> utf8_cont (of_char c)"

end
