(* ===== verification/Zone_Text.thy ===== *)
theory Zone_Text
  imports Utf8_Text Dns_Zone "HOL-Library.Char_ord" "HOL-Library.List_Lexorder" "HOL-Library.Product_Lexorder"
begin

text \<open>
  The text form of zones (\<open>dns-zone/src/lib.rs\<close>): the tokenizer and the parser
  of master files with \<open>$ORIGIN\<close>, \<open>$TTL\<close> and \<open>$GENERATE\<close>, the text of resource
  data (\<open>RData::text\<close> in \<open>dns-proto/src/message.rs\<close>), the record sets of the
  management API and the writer \<open>to_zonefile\<close>.
\<close>

section \<open>Errors\<close>

text \<open>
  The messages of the source, one constructor each.  \<open>HexSplitsChar\<close> is not a
  message: it is the panic of a slice that ends inside a character.  In this
  theory the outer \<open>None\<close> is a reader that does not return, so the panic travels
  as an error; the callers (\<open>load_zone\<close> of \<open>Startup\<close>, the handlers of \<open>Api\<close>,
  \<open>parse_record_line\<close> of \<open>Journal_File\<close>) turn it into their \<open>None\<close>.
\<close>

datatype zone_msg =
    UnbalancedClose
  | UnterminatedQuote
  | UnclosedParen
  | UnbalancedParens
  | OriginNeedsName
  | BadOrigin name_error
  | TtlNeedsValue
  | BadValue string string
  | GenerateBeforeOrigin
  | RecordBeforeOrigin
  | NoPreviousOwner
  | MissingType
  | GenerateNeedsRange
  | GenerateNeedsLhs
  | GenerateNeedsType
  | GenerateRangeForm
  | GenerateRangeSize
  | BadName string name_error
  | FieldCount string nat nat
  | UnknownRecordType string
  | GenericNoLength
  | GenericBadHex
  | GenericLength nat nat
  | TxtEmpty
  | TxtTooLong
  | CaaTagLength
  | NeedsGenericForm string
  | UnsupportedRecordType string
  | NoOriginDirective
  | BadZone edit_error
  | HexSplitsChar

record zone_error =
  ze_line :: nat
  ze_msg :: zone_msg

definition err :: "nat \<Rightarrow> zone_msg \<Rightarrow> zone_error" where
  "err line msg = \<lparr>ze_line = line, ze_msg = msg\<rparr>"

definition map_err :: "('e \<Rightarrow> 'f) \<Rightarrow> 'e + 'a \<Rightarrow> 'f + 'a" where
  "map_err f r = (case r of Inl e \<Rightarrow> Inl (f e) | Inr x \<Rightarrow> Inr x)"

definition ok_or :: "'e \<Rightarrow> 'a option \<Rightarrow> 'e + 'a" where
  "ok_or e x = (case x of None \<Rightarrow> Inl e | Some v \<Rightarrow> Inr v)"

lemma map_err_simps [simp]: "map_err f (Inl e) = Inl (f e)" "map_err f (Inr x) = Inr x"
  by (simp_all add: map_err_def)

lemma ok_or_simps [simp]: "ok_or e None = Inl e" "ok_or e (Some x) = Inr x"
  by (simp_all add: ok_or_def)

section \<open>Tokens\<close>

datatype tok = Word string | Quoted string

fun tok_text :: "tok \<Rightarrow> string" where
  "tok_text (Word s) = s"
| "tok_text (Quoted s) = s"

abbreviation (input) DQUOTE :: char where "DQUOTE \<equiv> CHR 0x22"

definition delimiter :: "char \<Rightarrow> bool" where
  "delimiter c \<longleftrightarrow> c = CHR ''('' \<or> c = CHR '')'' \<or> c = CHR '';'' \<or> c = DQUOTE"

text \<open>The inner loop of \<open>tokenize_line\<close> over the characters of a word.\<close>

fun word_span :: "string \<Rightarrow> string \<times> string" where
  "word_span [] = ([], [])"
| "word_span (c # cs) =
     (if ws_len (c # cs) > 0 \<or> delimiter c then ([], c # cs) else apfst ((#) c) (word_span cs))"

lemma word_span_length: "length (snd (word_span s)) \<le> length s"
  by (induction s) auto

function tokenize_line :: "string \<Rightarrow> u32 \<Rightarrow> nat \<Rightarrow> zone_error + (tok list \<times> u32)" where
  "tokenize_line [] depth line_no = Inr ([], depth)"
| "tokenize_line (c # cs) depth line_no =
     (if ws_len (c # cs) > 0 then tokenize_line (drop (ws_len (c # cs)) (c # cs)) depth line_no
      else if c = CHR '';'' then Inr ([], depth)
      else if c = CHR ''('' then tokenize_line cs (depth + 1) line_no
      else if c = CHR '')'' then
        if depth = 0 then Inl (err line_no UnbalancedClose)
        else tokenize_line cs (depth - 1) line_no
      else if c = DQUOTE then
        (case split_once DQUOTE cs of
           None \<Rightarrow> Inl (err line_no UnterminatedQuote)
         | Some (q, rest) \<Rightarrow>
             and_then (tokenize_line rest depth line_no) (\<lambda>(toks, d). Inr (Quoted q # toks, d)))
      else
        and_then (tokenize_line (snd (word_span cs)) depth line_no)
          (\<lambda>(toks, d). Inr (Word (c # fst (word_span cs)) # toks, d)))"
  by pat_completeness auto
termination
  by (relation "measure (\<lambda>(s, d, l). length s)")
     (auto dest: split_once_length simp: le_imp_less_Suc word_span_length)

declare tokenize_line.simps(2) [simp del]

text \<open>\<open>logical_lines\<close>: physical lines joined while parentheses are open.\<close>

type_synonym entry = "nat \<times> bool \<times> tok list"

definition starts_blank :: "string \<Rightarrow> bool" where
  "starts_blank raw \<longleftrightarrow> (case raw of c # _ \<Rightarrow> c = CHR '' '' \<or> c = CHR 0x09 | [] \<Rightarrow> False)"

fun logical_loop ::
  "string list \<Rightarrow> nat \<Rightarrow> u32 \<Rightarrow> tok list \<Rightarrow> nat \<Rightarrow> bool \<Rightarrow> zone_error + entry list" where
  "logical_loop [] idx depth current current_line current_ws =
     (if depth \<noteq> 0 then Inl (err current_line UnclosedParen) else Inr [])"
| "logical_loop (raw # rest) idx depth current current_line current_ws =
     and_then (tokenize_line raw depth (idx + 1)) (\<lambda>(toks, depth').
       let fresh = current = [] \<and> toks \<noteq> [];
           line = (if fresh then idx + 1 else current_line);
           ws = (if fresh then starts_blank raw else current_ws);
           joined = current @ toks in
       if depth' = 0 \<and> joined \<noteq> [] then
         and_then (logical_loop rest (idx + 1) depth' [] line ws) (\<lambda>out. Inr ((line, ws, joined) # out))
       else logical_loop rest (idx + 1) depth' joined line ws)"

definition logical_lines :: "string \<Rightarrow> zone_error + entry list" where
  "logical_lines text = logical_loop (text_lines text) 0 0 [] 0 False"

section \<open>Names and numbers\<close>

definition resolve_name :: "string \<Rightarrow> dns_name \<Rightarrow> nat \<Rightarrow> zone_error + dns_name" where
  "resolve_name token origin line_no =
     (if token = ''@'' then Inr origin
      else
        and_then (map_err (\<lambda>e. err line_no (BadName token e)) (parse_str token)) (\<lambda>name.
          if token \<noteq> [] \<and> last token = CHR ''.'' then Inr name
          else map_err (\<lambda>e. err line_no (BadName token e)) (concat_name name origin)))"

definition parse_num :: "(string \<Rightarrow> 'a option) \<Rightarrow> string \<Rightarrow> nat \<Rightarrow> string \<Rightarrow> zone_error + 'a" where
  "parse_num from_str s line_no what = ok_or (err line_no (BadValue what s)) (from_str s)"

definition parse_word :: "nat \<Rightarrow> string \<Rightarrow> 'a::len word option" where
  "parse_word mx s = map_option word_of_nat (parse_uint mx s)"

abbreviation parse_u8 :: "string \<Rightarrow> byte option" where "parse_u8 \<equiv> parse_word 0xFF"
abbreviation parse_u16 :: "string \<Rightarrow> u16 option" where "parse_u16 \<equiv> parse_word 0xFFFF"
abbreviation parse_u32 :: "string \<Rightarrow> u32 option" where "parse_u32 \<equiv> parse_word 0xFFFFFFFF"
abbreviation parse_usize :: "string \<Rightarrow> nat option" where "parse_usize \<equiv> parse_uint (2 ^ 64 - 1)"

text \<open>
  \<open>decode_hex\<close>.  \<open>u8::from_str_radix\<close> takes a leading plus sign, and the
  slice of two bytes panics when it cuts through a character.
\<close>

datatype hex_error = BadHex | SplitsChar

definition hex_pair :: "char \<Rightarrow> char \<Rightarrow> byte option" where
  "hex_pair a b =
     (if a = CHR ''+'' then map_option word_of_nat (to_digit 16 b)
      else Option.bind (to_digit 16 a) (\<lambda>x. map_option (\<lambda>y. word_of_nat (16 * x + y)) (to_digit 16 b)))"

fun hex_pairs :: "string \<Rightarrow> hex_error + bytes" where
  "hex_pairs [] = Inr []"
| "hex_pairs [a] = Inl BadHex"
| "hex_pairs (a # b # rest) =
     (if \<not> boundary_byte a \<or> rest \<noteq> [] \<and> \<not> boundary_byte (hd rest) then Inl SplitsChar
      else (case hex_pair a b of
              None \<Rightarrow> Inl BadHex
            | Some v \<Rightarrow> and_then (hex_pairs rest) (\<lambda>vs. Inr (v # vs))))"

definition decode_hex :: "string \<Rightarrow> hex_error + bytes" where
  "decode_hex s = (if length s mod 2 \<noteq> 0 then Inl BadHex else hex_pairs s)"

section \<open>Resource data\<close>

definition want :: "string \<Rightarrow> tok list \<Rightarrow> nat \<Rightarrow> nat \<Rightarrow> zone_error + unit" where
  "want rtype toks line_no n =
     (if length toks = n then Inr () else Inl (err line_no (FieldCount rtype n (length toks))))"

definition parse_generic :: "string \<Rightarrow> tok list \<Rightarrow> nat \<Rightarrow> zone_error + rdata" where
  "parse_generic rtype toks line_no =
     and_then (ok_or (err line_no (UnknownRecordType rtype)) (type_code rtype)) (\<lambda>code.
       if length toks < 2 then Inl (err line_no GenericNoLength)
       else
         and_then (parse_num parse_usize (tok_text (toks ! 1)) line_no ''generic rdata length'') (\<lambda>len.
           case decode_hex (concat (map tok_text (drop 2 toks))) of
             Inl SplitsChar \<Rightarrow> Inl (err line_no HexSplitsChar)
           | Inl BadHex \<Rightarrow> Inl (err line_no GenericBadHex)
           | Inr data \<Rightarrow>
               if length data \<noteq> len then Inl (err line_no (GenericLength len (length data)))
               else Inr (RD_Unknown code data)))"

fun txt_strings :: "nat \<Rightarrow> tok list \<Rightarrow> zone_error + bytes list" where
  "txt_strings line_no [] = Inr []"
| "txt_strings line_no (t # ts) =
     (if length (as_bytes (tok_text t)) > 255 then Inl (err line_no TxtTooLong)
      else and_then (txt_strings line_no ts) (\<lambda>ss. Inr (as_bytes (tok_text t) # ss)))"

definition parse_soa_text :: "tok list \<Rightarrow> dns_name \<Rightarrow> nat \<Rightarrow> zone_error + rdata" where
  "parse_soa_text toks origin line_no =
     and_then (resolve_name (tok_text (toks ! 0)) origin line_no) (\<lambda>mname.
     and_then (resolve_name (tok_text (toks ! 1)) origin line_no) (\<lambda>rname.
     and_then (parse_num parse_u32 (tok_text (toks ! 2)) line_no ''SOA serial'') (\<lambda>serial.
     and_then (parse_num parse_u32 (tok_text (toks ! 3)) line_no ''SOA refresh'') (\<lambda>refresh.
     and_then (parse_num parse_u32 (tok_text (toks ! 4)) line_no ''SOA retry'') (\<lambda>retry.
     and_then (parse_num parse_u32 (tok_text (toks ! 5)) line_no ''SOA expire'') (\<lambda>expire.
     and_then (parse_num parse_u32 (tok_text (toks ! 6)) line_no ''SOA minimum'') (\<lambda>minimum.
       Inr (RD_Soa \<lparr>soa_mname = mname, soa_rname = rname, soa_serial = serial, soa_refresh = refresh,
                    soa_retry = retry, soa_expire = expire, soa_minimum = minimum\<rparr>))))))))"

definition parse_srv_text :: "tok list \<Rightarrow> dns_name \<Rightarrow> nat \<Rightarrow> zone_error + rdata" where
  "parse_srv_text toks origin line_no =
     and_then (parse_num parse_u16 (tok_text (toks ! 0)) line_no ''SRV priority'') (\<lambda>priority.
     and_then (parse_num parse_u16 (tok_text (toks ! 1)) line_no ''SRV weight'') (\<lambda>weight.
     and_then (parse_num parse_u16 (tok_text (toks ! 2)) line_no ''SRV port'') (\<lambda>port.
     and_then (resolve_name (tok_text (toks ! 3)) origin line_no) (\<lambda>target.
       Inr (RD_Srv priority weight port target)))))"

definition parse_caa_text :: "tok list \<Rightarrow> nat \<Rightarrow> zone_error + rdata" where
  "parse_caa_text toks line_no =
     and_then (parse_num parse_u8 (tok_text (toks ! 0)) line_no ''CAA flags'') (\<lambda>fl.
       let tag = as_bytes (tok_text (toks ! 1)) in
       if tag = [] \<or> length tag > 255 then Inl (err line_no CaaTagLength)
       else Inr (RD_Unknown TYPE_CAA ([fl, word_of_nat (length tag)] @ tag @ as_bytes (tok_text (toks ! 2)))))"

definition parse_rdata :: "string \<Rightarrow> tok list \<Rightarrow> dns_name \<Rightarrow> nat \<Rightarrow> zone_error + rdata" where
  "parse_rdata rtype toks origin line_no =
     (let check = want rtype toks line_no;
          name0 = resolve_name (tok_text (toks ! 0)) origin line_no in
      if toks \<noteq> [] \<and> tok_text (toks ! 0) = [CHR 0x5C, CHR ''#''] then parse_generic rtype toks line_no
      else if rtype = ''A'' then
        and_then (check 1) (\<lambda>_. and_then (parse_num parse_ipv4 (tok_text (toks ! 0)) line_no ''IPv4 address'') (\<lambda>ip. Inr (RD_A ip)))
      else if rtype = ''AAAA'' then
        and_then (check 1) (\<lambda>_. and_then (parse_num parse_ipv6 (tok_text (toks ! 0)) line_no ''IPv6 address'') (\<lambda>ip. Inr (RD_Aaaa ip)))
      else if rtype = ''NS'' then and_then (check 1) (\<lambda>_. and_then name0 (\<lambda>n. Inr (RD_Ns n)))
      else if rtype = ''CNAME'' then and_then (check 1) (\<lambda>_. and_then name0 (\<lambda>n. Inr (RD_Cname n)))
      else if rtype = ''PTR'' then and_then (check 1) (\<lambda>_. and_then name0 (\<lambda>n. Inr (RD_Ptr n)))
      else if rtype = ''MX'' then
        and_then (check 2) (\<lambda>_.
        and_then (parse_num parse_u16 (tok_text (toks ! 0)) line_no ''MX preference'') (\<lambda>preference.
        and_then (resolve_name (tok_text (toks ! 1)) origin line_no) (\<lambda>exchange. Inr (RD_Mx preference exchange))))
      else if rtype = ''TXT'' then
        if toks = [] then Inl (err line_no TxtEmpty)
        else and_then (txt_strings line_no toks) (\<lambda>ss. Inr (RD_Txt ss))
      else if rtype = ''SOA'' then and_then (check 7) (\<lambda>_. parse_soa_text toks origin line_no)
      else if rtype = ''SRV'' then and_then (check 4) (\<lambda>_. parse_srv_text toks origin line_no)
      else if rtype = ''CAA'' then and_then (check 3) (\<lambda>_. parse_caa_text toks line_no)
      else if type_code rtype \<noteq> None then Inl (err line_no (NeedsGenericForm rtype))
      else Inl (err line_no (UnsupportedRecordType rtype)))"

definition rdata_from_text :: "string \<Rightarrow> string \<Rightarrow> dns_name \<Rightarrow> zone_msg + rdata" where
  "rdata_from_text rtype txt origin =
     and_then (map_err ze_msg (tokenize_line txt 0 0)) (\<lambda>(toks, depth).
       if depth \<noteq> 0 then Inl UnbalancedParens
       else map_err ze_msg (parse_rdata (to_ascii_uppercase rtype) toks origin 0))"

section \<open>Generated records\<close>

text \<open>The \<open>${offset,width,base}\<close> modifier; the sum wraps, as in a release build.\<close>

definition gen_spec :: "string \<Rightarrow> i64 \<Rightarrow> string" where
  "gen_spec spec value =
     (let parts = split_on CHR '','' spec;
          offset = (case Option.bind (get_at parts 0) parse_i64 of Some v \<Rightarrow> v | None \<Rightarrow> 0);
          width = (case Option.bind (get_at parts 1) parse_usize of Some w \<Rightarrow> w | None \<Rightarrow> 0);
          base = (case get_at parts 2 of Some b \<Rightarrow> b | None \<Rightarrow> ''d'');
          v = value + offset;
          s = (if base = ''o'' then show_oct (unat v)
               else if base = ''x'' then show_hex (unat v)
               else if base = ''X'' then to_ascii_uppercase (show_hex (unat v))
               else show_i64 v) in
      pad_zeros width s)"

function gen_subst :: "string \<Rightarrow> i64 \<Rightarrow> string" where
  "gen_subst [] value = []"
| "gen_subst (c # cs) value =
     (if c \<noteq> CHR ''$'' then c # gen_subst cs value
      else
        (case (if cs \<noteq> [] \<and> hd cs = CHR ''{'' then split_once CHR ''}'' (tl cs) else None) of
           Some (spec, rest) \<Rightarrow> gen_spec spec value @ gen_subst rest value
         | None \<Rightarrow> show_i64 value @ gen_subst cs value))"
  by pat_completeness auto
termination
  by (relation "measure (\<lambda>(s, v). length s)") (auto split: if_splits dest!: split_once_length)

definition generate_one ::
  "nat \<Rightarrow> dns_name \<Rightarrow> u32 \<Rightarrow> string \<Rightarrow> string \<Rightarrow> string \<Rightarrow> i64 \<Rightarrow> zone_error + rr" where
  "generate_one line_no origin ttl rtype lhs rhs n =
     and_then (resolve_name (gen_subst lhs n) origin line_no) (\<lambda>owner.
     and_then (map_err (err line_no) (rdata_from_text rtype (gen_subst rhs n) origin)) (\<lambda>rdata.
       Inr \<lparr>rr_name = owner, rr_class = CLASS_IN, rr_ttl = ttl, rr_rdata = rdata\<rparr>))"

text \<open>The loop over the range; \<open>n += step\<close> wraps, and not to return is \<open>None\<close>.\<close>

partial_function (option) generate_loop ::
  "(i64 \<Rightarrow> zone_error + rr) \<Rightarrow> i64 \<Rightarrow> i64 \<Rightarrow> i64 \<Rightarrow> rr list \<Rightarrow> (zone_error + rr list) option" where
  "generate_loop one step stop n out =
     (if sint n \<le> sint stop then
        (case one n of
           Inl e \<Rightarrow> Some (Inl e)
         | Inr r \<Rightarrow> generate_loop one step stop (n + step) (out @ [r]))
      else Some (Inr out))"

declare generate_loop.simps [code]

text \<open>The optional TTL and class of a record, in either order.\<close>

definition all_digits :: "string \<Rightarrow> bool" where
  "all_digits t \<longleftrightarrow> t \<noteq> [] \<and> list_all (\<lambda>c. digit_val c \<noteq> None) t"

fun parse_ttl_class :: "nat \<Rightarrow> u32 \<Rightarrow> tok list \<Rightarrow> zone_error + (u32 \<times> tok list)" where
  "parse_ttl_class line_no ttl [] = Inr (ttl, [])"
| "parse_ttl_class line_no ttl (t # toks) =
     (if all_digits (tok_text t) then
        and_then (parse_num parse_u32 (tok_text t) line_no ''TTL'') (\<lambda>ttl'. parse_ttl_class line_no ttl' toks)
      else if eq_ignore_ascii_case (tok_text t) ''IN'' then parse_ttl_class line_no ttl toks
      else Inr (ttl, t # toks))"

definition parse_range :: "string \<Rightarrow> nat \<Rightarrow> zone_error + (i64 \<times> i64 \<times> i64)" where
  "parse_range spec line_no =
     and_then (case split_once CHR ''/'' spec of
                 Some (s, st) \<Rightarrow> and_then (parse_num parse_i64 st line_no ''$GENERATE step'') (\<lambda>step. Inr (s, step))
               | None \<Rightarrow> Inr (spec, 1)) (\<lambda>(span, step).
     and_then (ok_or (err line_no GenerateRangeForm) (split_once CHR ''-'' span)) (\<lambda>(start_s, stop_s).
     and_then (parse_num parse_i64 start_s line_no ''$GENERATE start'') (\<lambda>start.
     and_then (parse_num parse_i64 stop_s line_no ''$GENERATE stop'') (\<lambda>stop.
       if sint step \<le> 0 \<or> sint stop < sint start \<or> (sint stop - sint start) div sint step > 1000000
       then Inl (err line_no GenerateRangeSize)
       else Inr (start, stop, step)))))"

definition expand_generate ::
  "tok list \<Rightarrow> dns_name \<Rightarrow> u32 \<Rightarrow> nat \<Rightarrow> (zone_error + rr list) option" where
  "expand_generate toks origin default_ttl line_no =
     (case
        and_then (ok_or (err line_no GenerateNeedsRange) (get_at toks 1)) (\<lambda>spec.
        and_then (ok_or (err line_no GenerateNeedsLhs) (get_at toks 2)) (\<lambda>lhs.
        and_then (parse_ttl_class line_no default_ttl (drop 3 toks)) (\<lambda>(ttl, rest).
        and_then (ok_or (err line_no GenerateNeedsType) (get_at rest 0)) (\<lambda>ty.
        and_then (parse_range (tok_text spec) line_no) (\<lambda>bounds.
          Inr (tok_text lhs, ttl, to_ascii_uppercase (tok_text ty), join '' '' (map tok_text (drop 1 rest)), bounds))))))
      of
        Inl e \<Rightarrow> Some (Inl e)
      | Inr (lhs, ttl, rtype, rhs, start, stop, step) \<Rightarrow>
          generate_loop (generate_one line_no origin ttl rtype lhs rhs) step stop start [])"

section \<open>Zone files\<close>

record zone_parser =
  zp_origin :: "dns_name option"
  zp_default_ttl :: u32
  zp_last_name :: "dns_name option"
  zp_all :: "rr list"

definition parse_record :: "zone_parser \<Rightarrow> entry \<Rightarrow> zone_error + zone_parser" where
  "parse_record p entry =
     (case entry of (line_no, starts_ws, toks) \<Rightarrow>
     and_then (ok_or (err line_no RecordBeforeOrigin) (zp_origin p)) (\<lambda>origin.
     and_then (if starts_ws then ok_or (err line_no NoPreviousOwner) (zp_last_name p)
               else resolve_name (tok_text (toks ! 0)) origin line_no) (\<lambda>name.
     and_then (parse_ttl_class line_no (zp_default_ttl p) (drop (if starts_ws then 0 else 1) toks)) (\<lambda>(ttl, rest).
     and_then (ok_or (err line_no MissingType) (get_at rest 0)) (\<lambda>ty.
     and_then (parse_rdata (to_ascii_uppercase (tok_text ty)) (drop 1 rest) origin line_no) (\<lambda>rdata.
       Inr (p\<lparr>zp_all := zp_all p @ [\<lparr>rr_name = name, rr_class = CLASS_IN, rr_ttl = ttl, rr_rdata = rdata\<rparr>],
              zp_last_name := Some name\<rparr>)))))))"

definition zone_entry :: "zone_parser \<Rightarrow> entry \<Rightarrow> (zone_error + zone_parser) option" where
  "zone_entry p entry =
     (case entry of (line_no, starts_ws, toks) \<Rightarrow>
     let first = tok_text (toks ! 0) in
     if eq_ignore_ascii_case first ''$ORIGIN'' then
       Some (and_then (ok_or (err line_no OriginNeedsName) (get_at toks 1)) (\<lambda>arg.
             and_then (map_err (\<lambda>e. err line_no (BadOrigin e)) (parse_str (tok_text arg))) (\<lambda>n.
               Inr (p\<lparr>zp_origin := Some n\<rparr>))))
     else if eq_ignore_ascii_case first ''$TTL'' then
       Some (and_then (ok_or (err line_no TtlNeedsValue) (get_at toks 1)) (\<lambda>arg.
             and_then (parse_num parse_u32 (tok_text arg) line_no ''$TTL'') (\<lambda>ttl.
               Inr (p\<lparr>zp_default_ttl := ttl\<rparr>))))
     else if eq_ignore_ascii_case first ''$GENERATE'' then
       (case zp_origin p of
          None \<Rightarrow> Some (Inl (err line_no GenerateBeforeOrigin))
        | Some origin \<Rightarrow>
            map_option (\<lambda>res. and_then res (\<lambda>recs. Inr (p\<lparr>zp_all := zp_all p @ recs\<rparr>)))
              (expand_generate toks origin (zp_default_ttl p) line_no))
     else Some (parse_record p entry))"

fun parse_entries :: "zone_parser \<Rightarrow> entry list \<Rightarrow> (zone_error + zone_parser) option" where
  "parse_entries p [] = Some (Inr p)"
| "parse_entries p (e # es) =
     (case zone_entry p e of
        None \<Rightarrow> None
      | Some (Inl x) \<Rightarrow> Some (Inl x)
      | Some (Inr p') \<Rightarrow> parse_entries p' es)"

definition parse_zone_file :: "string \<Rightarrow> (zone_error + zone) option" where
  "parse_zone_file text =
     (case logical_lines text of
        Inl e \<Rightarrow> Some (Inl e)
      | Inr es \<Rightarrow>
          map_option (\<lambda>res.
            and_then res (\<lambda>p.
            and_then (ok_or (err 0 NoOriginDirective) (zp_origin p)) (\<lambda>origin.
              map_err (\<lambda>e. err 0 (BadZone e)) (from_records origin (zp_all p)))))
            (parse_entries \<lparr>zp_origin = None, zp_default_ttl = 3600, zp_last_name = None, zp_all = []\<rparr> es))"

section \<open>Writing\<close>

definition escape_quotes :: "string \<Rightarrow> string" where
  "escape_quotes s = concat (map (\<lambda>c. if c = DQUOTE then [CHR 0x5C, DQUOTE] else [c]) s)"

definition quote_txt :: "bytes \<Rightarrow> string" where
  "quote_txt s = [DQUOTE] @ escape_quotes (from_utf8_lossy s) @ [DQUOTE]"

definition hex2 :: "byte \<Rightarrow> string" where
  "hex2 b = [hex_char (unat b div 16), hex_char (unat b mod 16)]"

abbreviation show_word :: "'a::len word \<Rightarrow> string" where
  "show_word w \<equiv> show_nat (unat w)"

fun rdata_text :: "rdata \<Rightarrow> string" where
  "rdata_text (RD_A ip) = show_ipv4 ip"
| "rdata_text (RD_Aaaa ip) = show_ipv6 ip"
| "rdata_text (RD_Ns n) = display_name n"
| "rdata_text (RD_Cname n) = display_name n"
| "rdata_text (RD_Ptr n) = display_name n"
| "rdata_text (RD_Soa s) =
     join '' '' [display_name (soa_mname s), display_name (soa_rname s), show_word (soa_serial s),
       show_word (soa_refresh s), show_word (soa_retry s), show_word (soa_expire s), show_word (soa_minimum s)]"
| "rdata_text (RD_Mx preference exchange) = show_word preference @ '' '' @ display_name exchange"
| "rdata_text (RD_Txt strings) = join '' '' (map quote_txt strings)"
| "rdata_text (RD_Srv priority weight port target) =
     join '' '' [show_word priority, show_word weight, show_word port, display_name target]"
| "rdata_text (RD_Unknown t data) =
     [CHR 0x5C, CHR ''#'', CHR '' ''] @ show_nat (length data) @ '' '' @ concat (map hex2 data)"

record rrset =
  rs_name :: dns_name
  rs_type :: u16
  rs_ttl :: u32
  rs_contents :: "string list"

definition node_rrset :: "dns_name \<Rightarrow> rr list \<Rightarrow> u16 \<Rightarrow> rrset" where
  "node_rrset name rrs t =
     (let members = filter (\<lambda>r. rr_rtype r = t) rrs in
      \<lparr>rs_name = name, rs_type = t, rs_ttl = rr_ttl (hd members),
       rs_contents = map (\<lambda>r. rdata_text (rr_rdata r)) members\<rparr>)"

definition node_types :: "rr list \<Rightarrow> u16 list" where
  "node_types rrs = remdups_adj (sort (map rr_rtype rrs))"

definition node_rrsets :: "dns_name \<times> rr list \<Rightarrow> rrset list" where
  "node_rrsets kv = map (node_rrset (fst kv) (snd kv)) (node_types (snd kv))"

definition rrset_key :: "rrset \<Rightarrow> bool \<times> string \<times> u16" where
  "rrset_key rs = (rs_type rs \<noteq> TYPE_SOA, display_name (rs_name rs), rs_type rs)"

definition rrsets :: "zone \<Rightarrow> rrset list" where
  "rrsets z = sort_key rrset_key (concat (map node_rrsets (z_records z)))"

definition rrset_lines :: "rrset \<Rightarrow> string list" where
  "rrset_lines rs =
     map (\<lambda>content. join '' '' [display_name (rs_name rs), show_word (rs_ttl rs), ''IN'', type_name (rs_type rs), content])
       (rs_contents rs)"

definition to_zonefile :: "zone \<Rightarrow> string" where
  "to_zonefile z =
     unlines ([''; generated by rdns'', ''$ORIGIN '' @ display_name (z_origin z)] @
              concat (map rrset_lines (rrsets z)))"

section \<open>Edits by text\<close>

datatype rrset_error =
    UnsupportedType string
  | EmptyContents
  | BadContent zone_msg
  | EditRefused edit_error

fun contents_rdata :: "string \<Rightarrow> dns_name \<Rightarrow> string list \<Rightarrow> zone_msg + rdata list" where
  "contents_rdata rtype origin [] = Inr []"
| "contents_rdata rtype origin (c # cs) =
     and_then (rdata_from_text rtype c origin) (\<lambda>rd.
       and_then (contents_rdata rtype origin cs) (\<lambda>rds. Inr (rd # rds)))"

definition replace_rrset ::
  "dns_name \<Rightarrow> string \<Rightarrow> u32 \<Rightarrow> string list \<Rightarrow> zone \<Rightarrow> zone \<times> (rrset_error + unit)" where
  "replace_rrset name rtype ttl contents z =
     (case type_code rtype of
        None \<Rightarrow> (z, Inl (UnsupportedType rtype))
      | Some code \<Rightarrow>
          if \<not> ends_with name (z_origin z) then (z, Inl (EditRefused (OutsideZone name (z_origin z))))
          else if contents = [] then (z, Inl EmptyContents)
          else
            (case contents_rdata rtype (z_origin z) contents of
               Inl e \<Rightarrow> (z, Inl (BadContent e))
             | Inr rds \<Rightarrow>
                 apsnd (map_err EditRefused)
                   (replace_records name code
                      (map (\<lambda>rd. \<lparr>rr_name = name, rr_class = CLASS_IN, rr_ttl = ttl, rr_rdata = rd\<rparr>) rds) z)))"

definition delete_rrset :: "dns_name \<Rightarrow> string \<Rightarrow> zone \<Rightarrow> rrset_error + zone" where
  "delete_rrset name rtype z =
     (case type_code rtype of
        None \<Rightarrow> Inl (UnsupportedType rtype)
      | Some code \<Rightarrow> map_err EditRefused (delete_type name code z))"

section \<open>Types of parsed data\<close>

text \<open>Resource data with well-formed names and character strings that fit their length byte.\<close>

fun rdata_wf :: "rdata \<Rightarrow> bool" where
  "rdata_wf (RD_Ns n) \<longleftrightarrow> wf_name n"
| "rdata_wf (RD_Cname n) \<longleftrightarrow> wf_name n"
| "rdata_wf (RD_Ptr n) \<longleftrightarrow> wf_name n"
| "rdata_wf (RD_Soa s) \<longleftrightarrow> wf_name (soa_mname s) \<and> wf_name (soa_rname s)"
| "rdata_wf (RD_Mx _ n) \<longleftrightarrow> wf_name n"
| "rdata_wf (RD_Txt ss) \<longleftrightarrow> ss \<noteq> [] \<and> list_all (\<lambda>s. length s \<le> 255) ss"
| "rdata_wf (RD_Srv _ _ _ n) \<longleftrightarrow> wf_name n"
| "rdata_wf _ \<longleftrightarrow> True"

lemma map_err_eq_Inr_iff: "map_err f r = Inr x \<longleftrightarrow> r = Inr x"
  by (cases r) auto

lemma ok_or_eq_Inr_iff: "ok_or e v = Inr x \<longleftrightarrow> v = Some x"
  by (cases v) auto

lemmas result_iffs = and_then_eq_Inr_iff map_err_eq_Inr_iff ok_or_eq_Inr_iff

lemma concat_name_wf: "wf_name n \<Longrightarrow> wf_name m \<Longrightarrow> concat_name n m = Inr k \<Longrightarrow> wf_name k"
  by (auto simp: concat_name_def from_labels_ok_iff wf_name_def)

lemma resolve_name_wf:
  assumes "wf_name origin" "resolve_name token origin l = Inr n" shows "wf_name n"
proof (cases "token = ''@''")
  case False
  then obtain m where "parse_str token = Inr m" "n = m \<or> concat_name m origin = Inr n"
    using assms(2) by (auto simp: resolve_name_def result_iffs split: if_splits)
  then show ?thesis using concat_name_wf [OF _ assms(1)] parse_str_wf by blast
qed (use assms in \<open>simp add: resolve_name_def\<close>)

lemma txt_strings_wf:
  "txt_strings l toks = Inr ss \<Longrightarrow> length ss = length toks \<and> list_all (\<lambda>s. length s \<le> 255) ss"
  by (induction l toks arbitrary: ss rule: txt_strings.induct)
     (auto simp: result_iffs split: if_splits)

lemma parse_generic_sound:
  "parse_generic rtype toks l = Inr rd \<Longrightarrow> type_code rtype = Some (rdata_rtype rd) \<and> rdata_wf rd"
  by (cases "decode_hex (concat (map tok_text (drop 2 toks)))")
     (auto simp: parse_generic_def result_iffs split: if_splits hex_error.splits)

lemma type_code_typed:
  "type_code ''A'' = Some TYPE_A" "type_code ''AAAA'' = Some TYPE_AAAA" "type_code ''NS'' = Some TYPE_NS"
  "type_code ''CNAME'' = Some TYPE_CNAME" "type_code ''PTR'' = Some TYPE_PTR" "type_code ''MX'' = Some TYPE_MX"
  "type_code ''TXT'' = Some TYPE_TXT" "type_code ''SOA'' = Some TYPE_SOA" "type_code ''SRV'' = Some TYPE_SRV"
  "type_code ''CAA'' = Some TYPE_CAA"
  by (simp_all add: type_code_def type_codes_def upper_char_def)

lemma parse_rdata_sound:
  assumes "wf_name origin" "parse_rdata rtype toks origin l = Inr rd"
  shows "type_code rtype = Some (rdata_rtype rd)" "rdata_wf rd"
proof -
  show "type_code rtype = Some (rdata_rtype rd)"
    using assms(2)
    by (auto simp: parse_rdata_def Let_def result_iffs type_code_typed parse_soa_text_def parse_srv_text_def
        parse_caa_text_def dest: parse_generic_sound split: if_splits)
  show "rdata_wf rd"
    using assms(2) resolve_name_wf [OF assms(1)]
    by (auto simp: parse_rdata_def Let_def result_iffs parse_soa_text_def parse_srv_text_def
        parse_caa_text_def dest!: parse_generic_sound txt_strings_wf split: if_splits)
qed

lemma type_code_upper: "type_code (to_ascii_uppercase s) = type_code s"
proof -
  have "upper_char (upper_char c) = upper_char c" for c
  proof (cases "97 \<le> (of_char c :: nat) \<and> of_char c \<le> (122 :: nat)")
    case True
    then have "of_char c - 32 < (256 :: nat)" by linarith
    then have "(of_char (char_of (of_char c - 32 :: nat)) :: nat) = of_char c - 32" by (simp only: of_char_of mod_less)
    moreover have "\<not> 97 \<le> of_char c - (32 :: nat)" using True by linarith
    ultimately show ?thesis using True by (simp add: upper_char_def Let_def del: of_char_of)
  qed (auto simp: upper_char_def Let_def)
  then show ?thesis by (simp add: type_code_def o_def)
qed

lemma rdata_from_text_sound:
  assumes "wf_name origin" "rdata_from_text rtype txt origin = Inr rd"
  shows "type_code rtype = Some (rdata_rtype rd)" "rdata_wf rd"
  using assms by (auto simp: rdata_from_text_def result_iffs type_code_upper split: if_splits
      dest: parse_rdata_sound [OF assms(1)])

section \<open>Edits by text\<close>

lemma contents_rdata_sound:
  assumes "wf_name origin"
  shows "contents_rdata rtype origin cs = Inr rds \<Longrightarrow>
    length rds = length cs \<and> list_all (\<lambda>rd. type_code rtype = Some (rdata_rtype rd) \<and> rdata_wf rd) rds"
  using rdata_from_text_sound [OF assms] by (induction cs arbitrary: rds) (auto simp: result_iffs)

lemma replace_rrset_records:
  assumes "wf_name (z_origin z)" "replace_rrset name rtype ttl contents z = (z', Inr ())"
  obtains code new where "type_code rtype = Some code" "ends_with name (z_origin z)" "rrset_ok name code new"
    "replace_records name code new z = (z', Inr ())" "length new = length contents"
    "list_all (\<lambda>r. rr_class r = CLASS_IN \<and> rr_ttl r = ttl \<and> rdata_wf (rr_rdata r)) new"
proof -
  obtain code rds where c: "type_code rtype = Some code" "ends_with name (z_origin z)" "contents \<noteq> []"
    "contents_rdata rtype (z_origin z) contents = Inr rds"
    and r: "apsnd (map_err EditRefused) (replace_records name code
        (map (\<lambda>rd. \<lparr>rr_name = name, rr_class = CLASS_IN, rr_ttl = ttl, rr_rdata = rd\<rparr>) rds) z) = (z', Inr ())"
    using assms(2) by (auto simp: replace_rrset_def split: option.splits if_splits sum.splits)
  let ?new = "map (\<lambda>rd. \<lparr>rr_name = name, rr_class = CLASS_IN, rr_ttl = ttl, rr_rdata = rd\<rparr>) rds"
  have s: "length rds = length contents" "list_all (\<lambda>rd. code = rdata_rtype rd \<and> rdata_wf rd) rds"
    using contents_rdata_sound [OF assms(1) c(4)] c(1) by (auto simp: list_all_iff)
  then have "rrset_ok name code ?new"
    using c(3) by (auto simp: rrset_ok_def list_all_iff rr_rtype_def)
  moreover have "replace_records name code ?new z = (z', Inr ())"
    using r by (cases "replace_records name code ?new z") (simp add: map_err_eq_Inr_iff)
  moreover have "list_all (\<lambda>r. rr_class r = CLASS_IN \<and> rr_ttl r = ttl \<and> rdata_wf (rr_rdata r)) ?new"
    using s(2) by (auto simp: list_all_iff)
  ultimately show ?thesis using that c(1,2) s(1) by simp
qed

lemma replace_rrset_wf:
  assumes "wf_zone z" "wf_name (z_origin z)" "replace_rrset name rtype ttl contents z = (z', Inr ())"
  shows "wf_zone z'" "z_origin z' = z_origin z"
proof -
  obtain code new where n: "ends_with name (z_origin z)" "rrset_ok name code new"
    "replace_records name code new z = (z', Inr ())"
    by (rule replace_rrset_records [OF assms(2,3)])
  show "wf_zone z'" by (rule replace_records_wf [OF assms(1) n])
  show "z_origin z' = z_origin z" using replace_records_success [OF n(3)] by simp
qed

lemma delete_rrset_wf:
  assumes "wf_zone z" "delete_rrset name rtype z = Inr z'"
  shows "wf_zone z'" "z_origin z' = z_origin z"
proof -
  obtain code where d: "delete_type name code z = Inr z'"
    using assms(2) by (auto simp: delete_rrset_def map_err_eq_Inr_iff split: option.splits)
  show "wf_zone z'" by (rule delete_type_wf [OF assms(1) d])
  show "z_origin z' = z_origin z"
    using d by (auto simp: delete_type_def Let_def split: if_splits option.splits)
qed

section \<open>Generated ranges\<close>

fun collect_ok :: "('e + 'a) list \<Rightarrow> 'e + 'a list" where
  "collect_ok [] = Inr []"
| "collect_ok (r # rs) = and_then r (\<lambda>x. and_then (collect_ok rs) (\<lambda>xs. Inr (x # xs)))"

definition range_values :: "i64 \<Rightarrow> i64 \<Rightarrow> i64 \<Rightarrow> i64 list" where
  "range_values step stop n =
     (if sint stop < sint n then []
      else map (\<lambda>i. n + word_of_nat i * step) [0..<Suc (nat ((sint stop - sint n) div sint step))])"

lemma sint_add_no_wrap:
  fixes a b :: i64
  assumes "- (2 ^ 63) \<le> sint a + sint b" "sint a + sint b < 2 ^ 63"
  shows "sint (a + b) = sint a + sint b"
  using assms by (simp add: sint_word_ariths signed_take_bit_int_eq_self)

lemma range_values_step:
  assumes "0 < sint step" "sint n \<le> sint stop" "sint stop + sint step < 2 ^ 63"
  shows "range_values step stop n = n # range_values step stop (n + step)"
proof -
  have s: "sint (n + step) = sint n + sint step"
    using assms sint_greater_eq [of n] by (intro sint_add_no_wrap) simp_all
  show ?thesis
  proof (cases "sint stop < sint n + sint step")
    case True
    then have "(sint stop - sint n) div sint step = 0" using assms by (simp add: div_pos_pos_trivial)
    then show ?thesis using True s assms(2) by (simp add: range_values_def)
  next
    case False
    let ?k = "nat ((sint stop - sint (n + step)) div sint step)"
    have "(sint stop - sint n) div sint step = (sint stop - sint (n + step)) div sint step + 1"
      using assms(1) s div_add_self2 [of "sint step" "sint stop - sint (n + step)"] by (simp add: algebra_simps)
    moreover have "0 \<le> (sint stop - sint (n + step)) div sint step"
      using False s assms(1) by (simp add: pos_imp_zdiv_nonneg_iff)
    ultimately have k: "nat ((sint stop - sint n) div sint step) = Suc ?k" by (simp add: nat_add_distrib)
    have "map (\<lambda>i. n + word_of_nat i * step) [0..<Suc (Suc ?k)] =
        n # map (\<lambda>i. (n + step) + word_of_nat i * step) [0..<Suc ?k]"
      by (simp only: upt_conv_Cons [of 0 "Suc (Suc ?k)"] map_Suc_upt [symmetric] list.map map_map o_def)
         (simp add: algebra_simps)
    then show ?thesis
      using False s assms(2) unfolding range_values_def k by simp
  qed
qed

text \<open>A range that stays below the largest number is run through once.\<close>

lemma generate_loop_range:
  assumes "0 < sint step" "sint stop + sint step < 2 ^ 63"
  shows "generate_loop one step stop n out =
    Some (and_then (collect_ok (map one (range_values step stop n))) (\<lambda>rs. Inr (out @ rs)))"
proof (induction "nat (sint stop - sint n + sint step)" arbitrary: n out rule: less_induct)
  case less
  show ?case
  proof (cases "sint n \<le> sint stop")
    case False
    then show ?thesis by (subst generate_loop.simps) (simp add: range_values_def)
  next
    case True
    have "sint (n + step) = sint n + sint step"
      using assms True sint_greater_eq [of n] by (intro sint_add_no_wrap) simp_all
    then have "nat (sint stop - sint (n + step) + sint step) < nat (sint stop - sint n + sint step)"
      using assms True by simp
    note rec = less [OF this]
    show ?thesis
      using True rec unfolding range_values_step [OF assms(1) True assms(2)]
      by (subst generate_loop.simps) (cases "one n"; cases "collect_ok (map one (range_values step stop (n + step)))"; simp)
  qed
qed

text \<open>A range up to the largest number never ends while its records are valid.\<close>

lemma generate_loop_diverges:
  assumes "\<And>n. is_ok (one n)" "sint stop = 2 ^ 63 - 1"
  shows "generate_loop one step stop n out = None"
proof (rule ccontr)
  assume "generate_loop one step stop n out \<noteq> None"
  then obtain res where "generate_loop one step stop n out = Some res" by blast
  let ?P = "\<lambda>one step stop n out res. (\<forall>n. is_ok (one n)) \<longrightarrow> sint (stop :: i64) = 2 ^ 63 - 1 \<longrightarrow> False"
  have "?P one step stop n out res"
  proof (rule generate_loop.raw_induct [where P = ?P, OF _ \<open>generate_loop one step stop n out = Some res\<close>])
    fix loop :: "(i64 \<Rightarrow> zone_error + rr) \<Rightarrow> i64 \<Rightarrow> i64 \<Rightarrow> i64 \<Rightarrow> rr list \<Rightarrow> (zone_error + rr list) option"
    fix one step stop n out res
    assume rec: "\<And>one step stop n out res. loop one step stop n out = Some res \<Longrightarrow> ?P one step stop n out res"
      and body: "(if sint n \<le> sint stop
        then case one n of Inl e \<Rightarrow> Some (Inl e) | Inr r \<Rightarrow> loop one step stop (n + step) (out @ [r])
        else Some (Inr out)) = Some res"
    show "?P one step stop n out res"
    proof (intro impI)
      assume ok: "\<forall>n. is_ok (one n)" and stop: "sint stop = 2 ^ 63 - 1"
      obtain r where "one n = Inr r" using ok by (auto simp: is_ok_iff)
      moreover have "sint n \<le> sint stop" using sint_lt [of n] stop by simp
      ultimately have "loop one step stop (n + step) (out @ [r]) = Some res" using body by simp
      from rec [OF this] ok stop show False by blast
    qed
  qed
  then show False using assms by blast
qed

section \<open>Loaded zones\<close>

definition rr_typed :: "rr \<Rightarrow> bool" where
  "rr_typed r \<longleftrightarrow> wf_name (rr_name r) \<and> rr_class r = CLASS_IN \<and> rdata_wf (rr_rdata r)"

lemma generate_loop_all:
  assumes one: "\<And>n r. one n = Inr r \<Longrightarrow> Q r" and loop: "generate_loop one step stop n out = Some (Inr rs)"
    and out: "list_all Q out"
  shows "list_all Q rs"
proof -
  let ?P = "\<lambda>one' (step :: i64) (stop :: i64) (n :: i64) out (res :: zone_error + rr list). one' = one \<longrightarrow> list_all Q out \<longrightarrow> (\<forall>rs. res = Inr rs \<longrightarrow> list_all Q rs)"
  have "?P one step stop n out (Inr rs)"
  proof (rule generate_loop.raw_induct [where P = ?P, OF _ loop])
    fix loop :: "(i64 \<Rightarrow> zone_error + rr) \<Rightarrow> i64 \<Rightarrow> i64 \<Rightarrow> i64 \<Rightarrow> rr list \<Rightarrow> (zone_error + rr list) option"
    fix one' step stop n out res
    assume rec: "\<And>one' step stop n out res. loop one' step stop n out = Some res \<Longrightarrow> ?P one' step stop n out res"
      and body: "(if sint n \<le> sint stop
        then case one' n of Inl e \<Rightarrow> Some (Inl e) | Inr r \<Rightarrow> loop one' step stop (n + step) (out @ [r])
        else Some (Inr out)) = Some res"
    show "?P one' step stop n out res"
    proof (intro impI)
      assume o: "one' = one" "list_all Q out"
      show "\<forall>rs. res = Inr rs \<longrightarrow> list_all Q rs"
      proof (cases "sint n \<le> sint stop")
        case False
        then show ?thesis using body o by auto
      next
        case True
        show ?thesis
        proof (cases "one n")
          case (Inl e)
          then show ?thesis using body o True by auto
        next
          case (Inr r)
          then have "loop one' step stop (n + step) (out @ [r]) = Some res" using body o True by simp
          from rec [OF this] show ?thesis using o one [OF Inr] by simp
        qed
      qed
    qed
  qed
  then show ?thesis using out by blast
qed

lemma generate_one_typed:
  "wf_name origin \<Longrightarrow> generate_one l origin ttl rtype lhs rhs n = Inr r \<Longrightarrow> rr_typed r"
  by (auto simp: generate_one_def result_iffs rr_typed_def dest: resolve_name_wf rdata_from_text_sound)

lemma expand_generate_typed:
  assumes "wf_name origin" "expand_generate toks origin ttl l = Some (Inr rs)"
  shows "list_all rr_typed rs"
  using assms generate_loop_all [where Q = rr_typed, OF generate_one_typed [OF assms(1)]]
  by (auto simp: expand_generate_def split: sum.splits prod.splits)

definition parser_typed :: "zone_parser \<Rightarrow> bool" where
  "parser_typed p \<longleftrightarrow> list_all rr_typed (zp_all p) \<and>
     (\<forall>n. zp_origin p = Some n \<or> zp_last_name p = Some n \<longrightarrow> wf_name n)"

lemma parse_record_typed:
  assumes "parser_typed p" "parse_record p entry = Inr p'" shows "parser_typed p'"
proof -
  obtain l ws toks where e: "entry = (l, ws, toks)" by (cases entry)
  obtain origin name ttl rest ty rd where r: "zp_origin p = Some origin"
    "(if ws then ok_or (err l NoPreviousOwner) (zp_last_name p) else resolve_name (tok_text (toks ! 0)) origin l) = Inr name"
    "parse_rdata (to_ascii_uppercase (tok_text ty)) (drop 1 rest) origin l = Inr rd"
    "p' = p\<lparr>zp_all := zp_all p @ [\<lparr>rr_name = name, rr_class = CLASS_IN, rr_ttl = ttl, rr_rdata = rd\<rparr>],
            zp_last_name := Some name\<rparr>"
    using assms(2) by (auto simp: parse_record_def e result_iffs)
  have o: "wf_name origin" using assms(1) r(1) by (simp add: parser_typed_def)
  then have "wf_name name"
    using r(2) assms(1) resolve_name_wf by (auto simp: parser_typed_def ok_or_eq_Inr_iff split: if_splits)
  then show ?thesis
    using assms(1) parse_rdata_sound(2) [OF o r(3)] by (auto simp: r(4) parser_typed_def rr_typed_def)
qed

lemma zone_entry_typed:
  assumes "parser_typed p" "zone_entry p entry = Some (Inr p')" shows "parser_typed p'"
proof -
  obtain l ws toks where e: "entry = (l, ws, toks)" by (cases entry)
  let ?first = "tok_text (toks ! 0)"
  consider (origin) "eq_ignore_ascii_case ?first ''$ORIGIN''"
    | (ttl) "\<not> eq_ignore_ascii_case ?first ''$ORIGIN''" "eq_ignore_ascii_case ?first ''$TTL''"
    | (gen) "\<not> eq_ignore_ascii_case ?first ''$ORIGIN''" "\<not> eq_ignore_ascii_case ?first ''$TTL''"
        "eq_ignore_ascii_case ?first ''$GENERATE''"
    | (rec) "\<not> eq_ignore_ascii_case ?first ''$ORIGIN''" "\<not> eq_ignore_ascii_case ?first ''$TTL''"
        "\<not> eq_ignore_ascii_case ?first ''$GENERATE''" by blast
  then show ?thesis
  proof cases
    case origin
    then show ?thesis
      using assms by (auto simp: zone_entry_def e result_iffs parser_typed_def dest: parse_str_wf)
  next
    case ttl
    then show ?thesis using assms by (auto simp: zone_entry_def e result_iffs parser_typed_def)
  next
    case gen
    then obtain origin rs where "zp_origin p = Some origin"
      "expand_generate toks origin (zp_default_ttl p) l = Some (Inr rs)" "p' = p\<lparr>zp_all := zp_all p @ rs\<rparr>"
      using assms(2) by (auto simp: zone_entry_def e result_iffs split: option.splits)
    then show ?thesis using assms(1) expand_generate_typed by (auto simp: parser_typed_def)
  next
    case rec
    then have "parse_record p entry = Inr p'" using assms(2) by (simp add: zone_entry_def e)
    then show ?thesis by (rule parse_record_typed [OF assms(1)])
  qed
qed

lemma parse_entries_typed: "parse_entries p es = Some (Inr p') \<Longrightarrow> parser_typed p \<Longrightarrow> parser_typed p'"
  by (induction p es rule: parse_entries.induct) (auto split: option.splits sum.splits dest: zone_entry_typed)

lemma parse_zone_file_typed:
  assumes "parse_zone_file text = Some (Inr z)"
  shows "wf_zone z" "wf_name (z_origin z)" "\<forall>r \<in># records_mset (z_records z). rr_typed r"
proof -
  obtain es p origin where p: "parse_entries \<lparr>zp_origin = None, zp_default_ttl = 3600, zp_last_name = None, zp_all = []\<rparr> es =
      Some (Inr p)" "zp_origin p = Some origin" "from_records origin (zp_all p) = Inr z"
    using assms by (auto simp: parse_zone_file_def result_iffs split: sum.splits)
  have "parser_typed p" by (rule parse_entries_typed [OF p(1)]) (simp add: parser_typed_def)
  then show "wf_zone z" "wf_name (z_origin z)" "\<forall>r \<in># records_mset (z_records z). rr_typed r"
    using from_records_wf [OF p(3)] p(2) by (auto simp: parser_typed_def list_all_iff)
qed

section \<open>Termination\<close>

lemma range_values_length:
  "sint n \<le> sint stop \<Longrightarrow> length (range_values step stop n) = Suc (nat ((sint stop - sint n) div sint step))"
  by (simp add: range_values_def)

lemma parse_range_bounds:
  "parse_range spec l = Inr (start, stop, step) \<Longrightarrow>
    0 < sint step \<and> sint start \<le> sint stop \<and> (sint stop - sint start) div sint step \<le> 1000000"
  by (auto simp: parse_range_def result_iffs split: if_splits)

lemma collect_ok_length: "collect_ok rs = Inr xs \<Longrightarrow> length xs = length rs"
  by (induction rs arbitrary: xs) (auto simp: result_iffs)

text \<open>The range of a \<open>$GENERATE\<close> line ends below the largest number.\<close>

definition range_fits :: "entry \<Rightarrow> bool" where
  "range_fits entry \<longleftrightarrow>
     (case entry of (l, ws, toks) \<Rightarrow>
      case get_at toks 1 of
        None \<Rightarrow> True
      | Some spec \<Rightarrow>
          (case parse_range (tok_text spec) l of
             Inl e \<Rightarrow> True
           | Inr (start, stop, step) \<Rightarrow> sint stop + sint step < 2 ^ 63))"

definition is_generate :: "entry \<Rightarrow> bool" where
  "is_generate entry \<longleftrightarrow> eq_ignore_ascii_case (tok_text (snd (snd entry) ! 0)) ''$GENERATE''"

lemma expand_generate_returns:
  assumes "range_fits (l, ws, toks)"
  obtains res where "expand_generate toks origin ttl l = Some res"
    "\<And>rs. res = Inr rs \<Longrightarrow> length rs \<le> 1000001"
proof -
  let ?args = "and_then (ok_or (err l GenerateNeedsRange) (get_at toks 1)) (\<lambda>spec.
        and_then (ok_or (err l GenerateNeedsLhs) (get_at toks 2)) (\<lambda>lhs.
        and_then (parse_ttl_class l ttl (drop 3 toks)) (\<lambda>(ttl, rest).
        and_then (ok_or (err l GenerateNeedsType) (get_at rest 0)) (\<lambda>ty.
        and_then (parse_range (tok_text spec) l) (\<lambda>bounds.
          Inr (tok_text lhs, ttl, to_ascii_uppercase (tok_text ty), join '' '' (map tok_text (drop 1 rest)), bounds))))))"
  show ?thesis
  proof (cases ?args)
    case (Inl e)
    then have "expand_generate toks origin ttl l = Some (Inl e)" by (simp add: expand_generate_def)
    then show ?thesis using that by blast
  next
    case (Inr a)
    obtain lhs ttl' rtype rhs start stop step where a: "a = (lhs, ttl', rtype, rhs, start, stop, step)" by (cases a)
    have "\<exists>spec. get_at toks 1 = Some spec \<and> parse_range (tok_text spec) l = Inr (start, stop, step)"
      using Inr by (auto simp: a result_iffs)
    then have b: "0 < sint step" "sint start \<le> sint stop" "(sint stop - sint start) div sint step \<le> 1000000"
      "sint stop + sint step < 2 ^ 63"
      using assms parse_range_bounds by (auto simp: range_fits_def)
    let ?rs = "collect_ok (map (generate_one l origin ttl' rtype lhs rhs) (range_values step stop start))"
    have "expand_generate toks origin ttl l = Some ?rs"
      using Inr generate_loop_range [OF b(1,4), of "generate_one l origin ttl' rtype lhs rhs" start "[]"]
      by (cases ?rs) (simp_all add: expand_generate_def a)
    moreover have "length rs \<le> 1000001" if "?rs = Inr rs" for rs
      using collect_ok_length [OF that] range_values_length [OF b(2), of step] b(3) by simp
    ultimately show ?thesis using that by blast
  qed
qed

lemma parse_entries_return: "list_all (\<lambda>e. is_generate e \<longrightarrow> range_fits e) es \<Longrightarrow> parse_entries p es \<noteq> None"
proof (induction es arbitrary: p)
  case (Cons e es)
  obtain l ws toks where e: "e = (l, ws, toks)" by (cases e)
  have "zone_entry p e \<noteq> None"
  proof (cases "is_generate e")
    case True
    then have "range_fits (l, ws, toks)" using Cons.prems e by simp
    then have "expand_generate toks origin ttl l \<noteq> None" for origin ttl
      using expand_generate_returns by (metis option.distinct(1))
    then show ?thesis by (auto simp: zone_entry_def e Let_def split: option.splits)
  next
    case False
    then show ?thesis by (auto simp: zone_entry_def e is_generate_def Let_def)
  qed
  then show ?case using Cons by (auto split: option.splits sum.splits)
qed simp

end
