(* ===== verification/Zone_Roundtrip.thy ===== *)
theory Zone_Roundtrip
  imports Zone_Text
begin

text \<open>
  A zone written by \<open>to_zonefile\<close> and read by \<open>parse_zone_file\<close>: the text of every
  record is a sequence of tokens that the tokenizer finds again, every token
  is read back by the parser of its type, and the zone assembled from the
  records answers as the one that was written.
\<close>

section \<open>Tokens of a text\<close>

definition word_char :: "char \<Rightarrow> bool" where
  "word_char c \<longleftrightarrow> 0x21 \<le> (of_char c :: nat) \<and> of_char c \<le> (0x7E :: nat) \<and> \<not> delimiter c"

fun piece :: "tok \<Rightarrow> string" where
  "piece (Word w) = w"
| "piece (Quoted q) = [DQUOTE] @ q @ [DQUOTE]"

fun piece_ok :: "tok \<Rightarrow> bool" where
  "piece_ok (Word w) \<longleftrightarrow> w \<noteq> [] \<and> list_all word_char w"
| "piece_ok (Quoted q) \<longleftrightarrow> DQUOTE \<notin> set q"

definition blank_or_end :: "string \<Rightarrow> bool" where
  "blank_or_end s \<longleftrightarrow> s = [] \<or> (\<exists>r. s = CHR '' '' # r)"

lemma ws_len_word_char: "word_char c \<Longrightarrow> ws_len (c # cs) = 0"
  by (subst ws_len_ascii) (auto simp: word_char_def)

lemma ws_len_space: "ws_len (CHR '' '' # cs) = 1"
  by (subst ws_len_ascii) simp_all

lemma ws_len_dquote: "ws_len (DQUOTE # cs) = 0"
  by (subst ws_len_ascii) simp_all

lemma word_span_word:
  assumes "list_all word_char w" "blank_or_end rest"
  shows "word_span (w @ rest) = (w, rest)"
  using assms(1)
proof (induction w)
  case Nil
  then show ?case using assms(2) by (auto simp: blank_or_end_def ws_len_space)
next
  case (Cons c w)
  then show ?case using ws_len_word_char [of c] by (simp add: word_char_def)
qed

lemma tokenize_space: "tokenize_line (CHR '' '' # s) depth l = tokenize_line s depth l"
  by (simp add: tokenize_line.simps(2) ws_len_space)

lemma tokenize_piece:
  assumes "piece_ok t" "blank_or_end rest"
  shows "tokenize_line (piece t @ rest) depth l =
    and_then (tokenize_line rest depth l) (\<lambda>(ts, d). Inr (t # ts, d))"
proof (cases t)
  case (Word w)
  then obtain c cs where w: "w = c # cs" "word_char c" "list_all word_char cs"
    using assms(1) by (cases w) auto
  then have "\<not> delimiter c" "ws_len (c # cs @ rest) = 0"
    by (simp_all add: ws_len_word_char) (simp add: word_char_def)
  then show ?thesis
    using Word w word_span_word [OF w(3) assms(2)]
    by (simp add: tokenize_line.simps(2) delimiter_def)
next
  case (Quoted q)
  then show ?thesis
    using assms(1) split_once_append [of DQUOTE q rest] ws_len_dquote
    by (simp add: tokenize_line.simps(2))
qed

lemma join_Cons: "ss \<noteq> [] \<Longrightarrow> join sep (s # ss) = s @ sep @ join sep ss"
  by (cases ss) simp_all

lemma tokenize_pieces:
  assumes "list_all piece_ok ts" "blank_or_end rest"
  shows "tokenize_line (join '' '' (map piece ts) @ rest) depth l =
    and_then (tokenize_line rest depth l) (\<lambda>(ts', d). Inr (ts @ ts', d))"
  using assms(1)
proof (induction ts)
  case Nil
  then show ?case by (cases "tokenize_line rest depth l") auto
next
  case (Cons t ts)
  show ?case
  proof (cases "ts = []")
    case True
    then show ?thesis using tokenize_piece [of t rest depth l] Cons.prems assms(2) by simp
  next
    case False
    let ?more = "join '' '' (map piece ts) @ rest"
    have "tokenize_line (piece t @ CHR '' '' # ?more) depth l =
        and_then (tokenize_line ?more depth l) (\<lambda>(ts, d). Inr (t # ts, d))"
      using tokenize_piece [of t "CHR '' '' # ?more"] Cons.prems
      by (simp add: blank_or_end_def tokenize_space)
    then show ?thesis
      using False Cons by (cases "tokenize_line rest depth l") (auto simp: join_Cons)
  qed
qed

section \<open>Printable data\<close>

definition text_byte :: "byte \<Rightarrow> bool" where
  "text_byte b \<longleftrightarrow> plain_byte b \<and> b \<notin> {0x22, 0x28, 0x29, 0x3B}"

definition text_name :: "dns_name \<Rightarrow> bool" where
  "text_name n \<longleftrightarrow> wf_name n \<and> list_all (list_all text_byte) n"

definition text_string :: "bytes \<Rightarrow> bool" where
  "text_string s \<longleftrightarrow> valid_utf8 s \<and> length s \<le> 255 \<and> 0x22 \<notin> set s \<and> 0x0A \<notin> set s"

fun text_rdata :: "rdata \<Rightarrow> bool" where
  "text_rdata (RD_A _) \<longleftrightarrow> True"
| "text_rdata (RD_Aaaa _) \<longleftrightarrow> True"
| "text_rdata (RD_Ns n) \<longleftrightarrow> text_name n"
| "text_rdata (RD_Cname n) \<longleftrightarrow> text_name n"
| "text_rdata (RD_Ptr n) \<longleftrightarrow> text_name n"
| "text_rdata (RD_Soa s) \<longleftrightarrow> text_name (soa_mname s) \<and> text_name (soa_rname s)"
| "text_rdata (RD_Mx _ n) \<longleftrightarrow> text_name n"
| "text_rdata (RD_Txt ss) \<longleftrightarrow> ss \<noteq> [] \<and> list_all text_string ss \<and> hd ss \<noteq> [0x5C, 0x23]"
| "text_rdata (RD_Srv _ _ _ n) \<longleftrightarrow> text_name n"
| "text_rdata (RD_Unknown t data) \<longleftrightarrow>
     t \<notin> {TYPE_OPT, TYPE_IXFR, TYPE_AXFR, TYPE_TSIG, TYPE_ANY} \<and> length data \<le> 65535"

text \<open>The tokens of the text of a record, with the blank that ends an empty generic form.\<close>

fun rdata_toks :: "rdata \<Rightarrow> tok list" where
  "rdata_toks (RD_A ip) = [Word (show_ipv4 ip)]"
| "rdata_toks (RD_Aaaa ip) = [Word (show_ipv6 ip)]"
| "rdata_toks (RD_Ns n) = [Word (display_name n)]"
| "rdata_toks (RD_Cname n) = [Word (display_name n)]"
| "rdata_toks (RD_Ptr n) = [Word (display_name n)]"
| "rdata_toks (RD_Soa s) =
     [Word (display_name (soa_mname s)), Word (display_name (soa_rname s)), Word (show_word (soa_serial s)),
      Word (show_word (soa_refresh s)), Word (show_word (soa_retry s)), Word (show_word (soa_expire s)),
      Word (show_word (soa_minimum s))]"
| "rdata_toks (RD_Mx p n) = [Word (show_word p), Word (display_name n)]"
| "rdata_toks (RD_Txt ss) = map (\<lambda>s. Quoted (map char_of_byte s)) ss"
| "rdata_toks (RD_Srv p w q n) = [Word (show_word p), Word (show_word w), Word (show_word q), Word (display_name n)]"
| "rdata_toks (RD_Unknown t data) =
     [Word [CHR 0x5C, CHR ''#''], Word (show_nat (length data))] @
     (if data = [] then [] else [Word (concat (map hex2 data))])"

definition rdata_pad :: "rdata \<Rightarrow> string" where
  "rdata_pad rd = (case rd of RD_Unknown _ [] \<Rightarrow> '' '' | _ \<Rightarrow> [])"

lemma char_of_byte_eq [simp]: "char_of_byte b = char_of_byte c \<longleftrightarrow> b = c"
proof
  assume "char_of_byte b = char_of_byte c"
  then have "as_bytes (map char_of_byte [b]) = as_bytes (map char_of_byte [c])" by simp
  then show "b = c" by (simp only: as_bytes_char_of_byte list.inject)
qed simp

lemma of_char_of_byte [simp]: "(of_char (char_of_byte b) :: nat) = unat b"
  using unat_lt_256 [of b] by (simp add: char_of_byte_def of_char_of)

lemma char_of_byte_iff: "char_of_byte b = c \<longleftrightarrow> unat b = of_char c"
  by (metis of_char_of_byte of_char_eq_iff)

lemma dquote_char: "char_of_byte b = DQUOTE \<longleftrightarrow> b = 0x22"
  by (simp add: char_of_byte_iff word_unat_eq_iff)

lemma lf_char: "char_of_byte b = LF \<longleftrightarrow> b = 0x0A"
  by (simp add: char_of_byte_iff word_unat_eq_iff)

lemma text_byte_word_char: "text_byte b \<Longrightarrow> word_char (char_of_byte b)"
  by (auto simp: text_byte_def plain_byte_def word_char_def delimiter_def char_of_byte_iff word_le_nat_alt
      word_unat_eq_iff)

lemma quote_txt_piece: "text_string s \<Longrightarrow> quote_txt s = piece (Quoted (map char_of_byte s))"
proof -
  assume s: "text_string s"
  have "escape_quotes (map char_of_byte s) = map char_of_byte s"
    using s by (auto simp: escape_quotes_def text_string_def o_def dquote_char concat_map_singleton
        intro!: trans [OF arg_cong [where f = concat, OF map_cong [OF refl]] concat_map_singleton])
  then show ?thesis using s by (simp add: quote_txt_def text_string_def from_utf8_lossy_valid)
qed

lemma rdata_text_pieces:
  "text_rdata rd \<Longrightarrow> rdata_text rd = join '' '' (map piece (rdata_toks rd)) @ rdata_pad rd"
proof (cases rd)
  case (RD_Txt ss)
  assume "text_rdata rd"
  then have "map quote_txt ss = map piece (map (\<lambda>s. Quoted (map char_of_byte s)) ss)"
    using RD_Txt by (auto simp: list_all_iff quote_txt_piece)
  then show ?thesis using RD_Txt by (simp add: rdata_pad_def del: map_map map_eq_conv)
next
  case (RD_Unknown t data)
  then show ?thesis by (cases data) (auto simp: rdata_pad_def)
qed (simp_all add: rdata_pad_def)

lemma digit_word_char:
  assumes "d < 10" shows "word_char (digit_char d)"
  using assms
  by (auto simp: word_char_def delimiter_def of_char_digit dest!: arg_cong [where f = "of_char :: char \<Rightarrow> nat"])

lemma high_nibble: "unat b div 16 < 16" for b :: byte
  by (rule less_mult_imp_div_less) simp

lemma hex_word_char:
  assumes "d < 16" shows "word_char (hex_char d)"
proof (cases "d < 10")
  case True
  then show ?thesis by (simp add: hex_char_def digit_word_char)
next
  case False
  then show ?thesis
    using assms by (simp add: hex_char_def word_char_def delimiter_def char_of_eq_iff take_bit_nat_eq_self)
qed

lemma show_nat_word_char: "list_all word_char (show_nat n)"
  by (induction n rule: show_nat.induct) (subst show_nat.simps, simp add: digit_word_char)

lemma show_hex_word_char: "list_all word_char (show_hex n)"
  by (induction n rule: show_hex.induct) (subst show_hex.simps, simp add: hex_word_char)

lemma punct_word_char: "word_char CHR ''.''" "word_char CHR '':''" "word_char CHR ''#''" "word_char CHR 0x5C"
  by (simp_all add: word_char_def delimiter_def)

lemma show_ipv4_word_char: "list_all word_char (show_ipv4 a)"
  by (simp add: show_ipv4_def to_be32_def show_nat_word_char punct_word_char)

lemma show_groups_word_char: "list_all word_char (show_groups gs)"
proof -
  have "list_all word_char (show_more hs)" for hs
    by (induction hs) (simp_all add: show_hex_word_char punct_word_char)
  then show ?thesis by (cases gs) (simp_all add: show_groups_Cons show_hex_word_char)
qed

lemma show_ipv6_word_char: "list_all word_char (show_ipv6 a)"
proof -
  have "list_all word_char ''::ffff:''" by (simp add: word_char_def delimiter_def)
  then show ?thesis
    by (auto simp: show_ipv6_def Let_def show_groups_word_char show_ipv4_word_char punct_word_char split: prod.splits)
qed

lemma show_ipv4_not_Nil [simp]: "show_ipv4 a \<noteq> []"
  by (simp add: show_ipv4_def to_be32_def)

lemma show_ipv6_not_Nil [simp]: "show_ipv6 a \<noteq> []"
  using parse_show_ipv6 [of a] by (auto simp: parse_ipv6_def read_ipv6_def read_groups_stop groups_end_def read_char_def)

lemma display_name_text:
  assumes "text_name n"
  shows "list_all word_char (display_name n)" "display_name n \<noteq> []" "last (display_name n) = CHR ''.''"
    "parse_str (display_name n) = Inr n"
proof -
  have plain: "list_all (list_all plain_byte) n" using assms by (auto simp: text_name_def list_all_iff text_byte_def)
  show "parse_str (display_name n) = Inr n"
    using assms plain by (intro parse_display) (simp_all add: text_name_def)
  have "list_all word_char (concat (map display_byte l))" if "list_all text_byte l" for l
  proof -
    have "list_all plain_byte l" using that by (auto simp: list_all_iff text_byte_def)
    then have "concat (map display_byte l) = map char_of_byte l"
      by (simp add: display_plain char_of_byte_def)
    then show ?thesis using that by (auto simp: list_all_iff text_byte_word_char)
  qed
  then show "list_all word_char (display_name n)"
    using assms by (auto simp: display_name_def text_name_def list_all_iff punct_word_char)
  show "display_name n \<noteq> []" by (cases n) (simp_all add: display_name_def)
  show "last (display_name n) = CHR ''.''"
    by (cases n rule: rev_cases) (simp_all add: display_name_def)
qed

lemma hex2_word_char: "list_all word_char (hex2 b)"
  by (simp add: hex2_def hex_word_char high_nibble)

lemma not_generic_name: "text_name n \<Longrightarrow> display_name n \<noteq> [CHR 0x5C, CHR ''#'']"
  using display_name_text(3) [of n] by auto

lemma not_generic_num: "show_nat n \<noteq> [CHR 0x5C, CHR ''#'']"
proof
  assume "show_nat n = [CHR 0x5C, CHR ''#'']"
  then show False using parse_digits_show_nat [of n] by (simp add: digit_val_def)
qed

lemma not_generic_ip: "show_ipv4 a \<noteq> [CHR 0x5C, CHR ''#'']" "show_ipv6 b \<noteq> [CHR 0x5C, CHR ''#'']"
proof -
  show "show_ipv4 a \<noteq> [CHR 0x5C, CHR ''#'']"
    using parse_show_ipv4 [of a]
    by (auto simp: parse_ipv4_def read_ipv4_def read_octet_none no_digit_def to_digit_def Let_def)
  show "show_ipv6 b \<noteq> [CHR 0x5C, CHR ''#'']"
  proof
    assume "show_ipv6 b = [CHR 0x5C, CHR ''#'']"
    moreover have "read_groups 8 0 [CHR 0x5C, CHR ''#''] = ([], False, [CHR 0x5C, CHR ''#''])"
      by (subst read_groups.simps)
         (simp add: read_separated_def read_ipv4_def read_octet_none no_digit_def to_digit_def Let_def)
    ultimately show False
      using parse_show_ipv6 [of b] by (simp add: parse_ipv6_def read_ipv6_def read_char_def)
  qed
qed

lemma parse_word_show:
  fixes w :: "'a::len word"
  assumes "2 ^ LENGTH('a) = Suc mx"
  shows "parse_word mx (show_word w) = Some w"
proof -
  have "unat w < 2 ^ LENGTH('a)" by (rule unsigned_less)
  then have "unat w \<le> mx" using assms by simp
  then show ?thesis by (simp add: parse_word_def parse_uint_show_nat)
qed

text \<open>
  The contract of a field that is printed as one word and read back by
  \<open>parse_num\<close>, and its instances for numbers and addresses.
\<close>

locale field_text =
  fixes show_field :: "'a \<Rightarrow> string" and from_str :: "string \<Rightarrow> 'a option"
  assumes from_str_show: "from_str (show_field x) = Some x"
    and show_word_chars: "show_field x \<noteq> [] \<and> list_all word_char (show_field x)"
    and show_not_generic: "show_field x \<noteq> [CHR 0x5C, CHR ''#'']"
begin

lemma token_ok: "piece_ok (Word (show_field x))"
  by (simp add: show_word_chars)

lemma parse_token: "parse_num from_str (show_field x) l what = Inr x"
  by (simp add: parse_num_def from_str_show)

lemma tokenize_field:
  "blank_or_end rest \<Longrightarrow> tokenize_line (show_field x @ rest) depth l =
    and_then (tokenize_line rest depth l) (\<lambda>(ts, d). Inr (Word (show_field x) # ts, d))"
  using tokenize_piece [OF token_ok] by simp

end

interpretation u16_field: field_text show_word parse_u16
  by unfold_locales (simp_all add: parse_word_show show_nat_word_char not_generic_num)

interpretation u32_field: field_text show_word parse_u32
  by unfold_locales (simp_all add: parse_word_show show_nat_word_char not_generic_num)

interpretation ipv4_field: field_text show_ipv4 parse_ipv4
  by unfold_locales (simp_all add: parse_show_ipv4 show_ipv4_word_char not_generic_ip)

interpretation ipv6_field: field_text show_ipv6 parse_ipv6
  by unfold_locales (simp_all add: parse_show_ipv6 show_ipv6_word_char not_generic_ip)

lemmas field_tokens = u16_field.token_ok u32_field.token_ok ipv4_field.token_ok ipv6_field.token_ok
lemmas parse_shown = u16_field.parse_token u32_field.parse_token ipv4_field.parse_token ipv6_field.parse_token
lemmas not_generic = not_generic_name not_generic_num not_generic_ip

lemma rdata_toks_ok: "text_rdata rd \<Longrightarrow> list_all piece_ok (rdata_toks rd)"
proof (cases rd)
  case (RD_Txt ss)
  assume "text_rdata rd"
  then show ?thesis using RD_Txt by (auto simp: list_all_iff text_string_def dquote_char image_iff) (metis dquote_char)
next
  case (RD_Unknown t data)
  have "list_all word_char (concat (map hex2 data))"
    using hex2_word_char by (auto simp: list_all_iff)
  moreover have "data \<noteq> [] \<Longrightarrow> concat (map hex2 data) \<noteq> []" by (cases data) (simp_all add: hex2_def)
  ultimately show ?thesis using RD_Unknown by (simp add: show_nat_word_char punct_word_char)
qed (use field_tokens in \<open>simp_all add: display_name_text\<close>)

section \<open>Reading resource data back\<close>

lemma resolve_display: "text_name n \<Longrightarrow> resolve_name (display_name n) origin l = Inr n"
  using display_name_text [of n] by (auto simp: resolve_name_def)

lemma hex_pair_hex2:
  "hex_pair (hex_char (unat b div 16)) (hex_char (unat b mod 16)) = Some b"
proof -
  note d = high_nibble [of b]
  have "hex_char (unat b div 16) \<noteq> CHR ''+''" using hex_char_digit [OF d] by (auto simp: to_digit_def Let_def)
  moreover have "word_of_nat (16 * (unat b div 16) + unat b mod 16) = b"
    by (simp only: mult_div_mod_eq) simp
  ultimately show ?thesis using hex_char_digit [OF d] hex_char_digit [of "unat b mod 16"]
    by (simp add: hex_pair_def del: of_nat_add of_nat_mult)
qed

lemma hex_char_boundary: "d < 16 \<Longrightarrow> boundary_byte (hex_char d)"
  using hex_word_char [of d] by (auto simp: boundary_byte_def word_char_def)

lemma hex_pairs_hex2: "hex_pairs (concat (map hex2 data)) = Inr data"
proof (induction data)
  case (Cons b data)
  note d = high_nibble [of b]
  have "concat (map hex2 data) \<noteq> [] \<Longrightarrow> boundary_byte (hd (concat (map hex2 data)))"
    by (cases data) (auto simp: hex2_def intro!: hex_char_boundary high_nibble)
  then show ?case
    using Cons d hex_char_boundary [OF d] hex_pair_hex2 [of b] by (auto simp: hex2_def [of b])
qed simp

lemma decode_hex_hex2: "decode_hex (concat (map hex2 data)) = Inr data"
proof -
  have "length (concat (map hex2 data)) = 2 * length data" by (induction data) (simp_all add: hex2_def)
  then show ?thesis by (simp add: decode_hex_def hex_pairs_hex2)
qed

lemma txt_strings_quoted:
  "list_all text_string ss \<Longrightarrow> txt_strings l (map (\<lambda>s. Quoted (map char_of_byte s)) ss) = Inr ss"
  by (induction ss) (simp_all add: text_string_def)

lemma upper_type_name: "to_ascii_uppercase (type_name t) = type_name t"
proof (cases "map_of type_names t")
  case (Some s)
  have "list_all (\<lambda>(t, s). to_ascii_uppercase s = s) type_names"
    by (simp add: type_names_def upper_char_def)
  then show ?thesis
    using map_of_SomeD [OF Some] Some by (auto simp: list_all_iff type_name_def)
next
  case None
  have "to_ascii_uppercase ''TYPE'' = ''TYPE''" by (simp add: upper_char_def)
  then show ?thesis using None upper_show_nat by (simp add: type_name_def)
qed

lemma backslash_word: "[CHR 0x5C, CHR ''#''] \<noteq> w" if "w = [] \<or> last w = CHR ''.'' \<or> hd w \<noteq> CHR 0x5C" for w
  using that by auto

lemma type_name_typed:
  "type_name TYPE_A = ''A''" "type_name TYPE_AAAA = ''AAAA''" "type_name TYPE_NS = ''NS''"
  "type_name TYPE_CNAME = ''CNAME''" "type_name TYPE_PTR = ''PTR''" "type_name TYPE_MX = ''MX''"
  "type_name TYPE_TXT = ''TXT''" "type_name TYPE_SOA = ''SOA''" "type_name TYPE_SRV = ''SRV''"
  by (simp_all add: type_name_def type_names_def)

lemma not_generic_txt: "text_rdata (RD_Txt (s # ss)) \<Longrightarrow> map char_of_byte s \<noteq> [CHR 0x5C, CHR ''#'']"
proof
  assume "text_rdata (RD_Txt (s # ss))" "map char_of_byte s = [CHR 0x5C, CHR ''#'']"
  moreover have "as_bytes [CHR 0x5C, CHR ''#''] = [0x5C, 0x23]" by (simp add: as_bytes_def)
  ultimately show False using as_bytes_char_of_byte [of s] by simp
qed

lemma parse_generic_back:
  assumes "text_rdata (RD_Unknown t data)"
  shows "parse_generic (type_name t) (rdata_toks (RD_Unknown t data)) l = Inr (RD_Unknown t data)"
proof -
  have "type_code (type_name t) = Some t" using assms by (simp add: type_code_type_name)
  moreover have "parse_num parse_usize (show_nat (length data)) l what = Inr (length data)" for what
    using assms by (simp add: parse_num_def parse_uint_show_nat)
  moreover have "concat (map tok_text (drop 2 (rdata_toks (RD_Unknown t data)))) = concat (map hex2 data)"
    by simp
  ultimately show ?thesis by (simp add: parse_generic_def decode_hex_hex2)
qed

lemma parse_rdata_back:
  assumes "text_rdata rd"
  shows "parse_rdata (type_name (rdata_rtype rd)) (rdata_toks rd) origin l = Inr rd"
proof (cases rd)
  case (RD_Unknown t data)
  then show ?thesis using assms parse_generic_back by (simp add: parse_rdata_def)
next
  case (RD_Txt ss)
  then obtain s ss' where "ss = s # ss'" using assms by (cases ss) auto
  then show ?thesis
    using RD_Txt assms not_generic_txt [of s ss'] txt_strings_quoted [of ss l]
    by (simp add: parse_rdata_def type_name_typed want_def)
qed (use assms in \<open>simp_all add: parse_rdata_def type_name_typed want_def not_generic parse_shown resolve_display
      parse_soa_text_def parse_srv_text_def\<close>)

section \<open>Reading a record line back\<close>

definition text_rr :: "rr \<Rightarrow> bool" where
  "text_rr r \<longleftrightarrow> text_name (rr_name r) \<and> rr_class r = CLASS_IN \<and> text_rdata (rr_rdata r)"

definition rr_line :: "rr \<Rightarrow> string" where
  "rr_line r =
     join '' '' [display_name (rr_name r), show_word (rr_ttl r), ''IN'', type_name (rr_rtype r), rdata_text (rr_rdata r)]"

definition rr_toks :: "rr \<Rightarrow> tok list" where
  "rr_toks r = [Word (display_name (rr_name r)), Word (show_word (rr_ttl r)), Word ''IN'', Word (type_name (rr_rtype r))] @
     rdata_toks (rr_rdata r)"

lemma type_name_cases:
  obtains (known) "type_name t \<in> set (map snd type_names)" | (other) "type_name t = ''TYPE'' @ show_nat (unat t)"
proof (cases "map_of type_names t")
  case (Some s)
  then show ?thesis using known map_of_SomeD [OF Some] by (force simp: type_name_def)
qed (use other in \<open>simp add: type_name_def\<close>)

lemma type_name_word:
  "list_all word_char (type_name t)" "type_name t \<noteq> []"
  "\<not> all_digits (type_name t)" "\<not> eq_ignore_ascii_case (type_name t) ''IN''"
proof -
  have known: "list_all (\<lambda>s. list_all word_char s \<and> s \<noteq> [] \<and> \<not> all_digits s \<and> \<not> eq_ignore_ascii_case s ''IN'')
      (map snd type_names)"
    by (simp add: type_names_def word_char_def delimiter_def all_digits_def digit_val_def eq_ignore_ascii_case_def
        lower_char_def)
  have other: "list_all word_char (''TYPE'' @ s) \<and> \<not> all_digits (''TYPE'' @ s) \<and>
      \<not> eq_ignore_ascii_case (''TYPE'' @ s) ''IN''" if "list_all word_char s" for s
    using that by (simp add: word_char_def delimiter_def all_digits_def digit_val_def eq_ignore_ascii_case_def
        lower_char_def)
  show "list_all word_char (type_name t)" "type_name t \<noteq> []"
    "\<not> all_digits (type_name t)" "\<not> eq_ignore_ascii_case (type_name t) ''IN''"
    using known other [OF show_nat_word_char] by (cases t rule: type_name_cases; auto simp: list_all_iff)+
qed

lemma rdata_toks_not_Nil: "text_rdata rd \<Longrightarrow> rdata_toks rd \<noteq> []"
  by (cases rd) auto

lemma rr_toks_ok: "text_rr r \<Longrightarrow> list_all piece_ok (rr_toks r)"
  by (simp add: rr_toks_def text_rr_def display_name_text show_nat_word_char type_name_word rdata_toks_ok)
     (simp add: word_char_def delimiter_def)

lemma rr_line_pieces:
  assumes "text_rr r"
  shows "rr_line r = join '' '' (map piece (rr_toks r)) @ rdata_pad (rr_rdata r)"
proof -
  have "map piece (rdata_toks (rr_rdata r)) \<noteq> []"
    using assms rdata_toks_not_Nil by (simp add: text_rr_def)
  then show ?thesis
    using assms rdata_text_pieces [of "rr_rdata r"] by (simp add: rr_line_def rr_toks_def join_Cons text_rr_def)
qed

lemma tokenize_pad: "blank_or_end (rdata_pad rd)" "tokenize_line (rdata_pad rd) depth l = Inr ([], depth)"
  by (auto simp: rdata_pad_def blank_or_end_def tokenize_space split: rdata.splits list.splits)

lemma tokenize_rr_line: "text_rr r \<Longrightarrow> tokenize_line (rr_line r) depth l = Inr (rr_toks r, depth)"
  using tokenize_pieces [OF rr_toks_ok tokenize_pad(1)] by (simp add: rr_line_pieces tokenize_pad(2))

text \<open>The text of the resource data alone, as the management API passes it.\<close>

lemma rdata_from_text_back:
  assumes "text_rdata rd"
  shows "rdata_from_text (type_name (rdata_rtype rd)) (rdata_text rd) origin = Inr rd"
  using tokenize_pieces [OF rdata_toks_ok [OF assms] tokenize_pad(1), of rd 0 0] parse_rdata_back [OF assms]
  by (simp add: rdata_from_text_def rdata_text_pieces [OF assms] tokenize_pad(2) upper_type_name)

lemma show_word_digits: "all_digits (show_nat n)"
proof -
  have "list_all (\<lambda>c. digit_val c \<noteq> None) (show_nat n)"
    by (induction n rule: show_nat.induct) (subst show_nat.simps, simp add: digit_val_digit_char)
  then show ?thesis by (simp add: all_digits_def)
qed

lemma in_not_digits: "\<not> all_digits ''IN''" "eq_ignore_ascii_case ''IN'' ''IN''"
  by (simp_all add: all_digits_def digit_val_def eq_ignore_ascii_case_def)

lemma parse_rr_toks:
  assumes "text_rr r" "zp_origin p = Some origin"
  shows "zone_entry p (l, False, rr_toks r) =
    Some (Inr (p\<lparr>zp_all := zp_all p @ [r], zp_last_name := Some (rr_name r)\<rparr>))"
proof -
  have "last (display_name (rr_name r)) = CHR ''.''" "display_name (rr_name r) \<noteq> []"
    using assms(1) by (simp_all add: text_rr_def display_name_text)
  then have "last (map lower_char (display_name (rr_name r))) = CHR ''.''"
    by (simp add: last_map lower_char_def)
  then have no_directive: "\<not> eq_ignore_ascii_case (display_name (rr_name r)) d" if "last (map lower_char d) \<noteq> CHR ''.''" for d
    using that by (auto simp: eq_ignore_ascii_case_def)
  have d: "\<not> eq_ignore_ascii_case (display_name (rr_name r)) ''$ORIGIN''"
    "\<not> eq_ignore_ascii_case (display_name (rr_name r)) ''$TTL''"
    "\<not> eq_ignore_ascii_case (display_name (rr_name r)) ''$GENERATE''"
    by (rule no_directive, code_simp)+
  have "parse_ttl_class l ttl (drop 1 (rr_toks r)) = Inr (rr_ttl r, Word (type_name (rr_rtype r)) # rdata_toks (rr_rdata r))" for ttl
    by (simp add: rr_toks_def show_word_digits parse_shown in_not_digits type_name_word)
  moreover have "parse_rdata (to_ascii_uppercase (type_name (rr_rtype r))) (rdata_toks (rr_rdata r)) origin l = Inr (rr_rdata r)"
    using assms(1) by (simp only: upper_type_name rr_rtype_def text_rr_def parse_rdata_back)
  moreover have "tok_text (rr_toks r ! 0) = display_name (rr_name r)" by (simp add: rr_toks_def)
  moreover have "\<lparr>rr_name = rr_name r, rr_class = 1, rr_ttl = rr_ttl r, rr_rdata = rr_rdata r\<rparr> = r"
    using assms(1) by (simp add: text_rr_def)
  ultimately show ?thesis
    using d assms resolve_display [of "rr_name r" origin l]
    by (simp add: zone_entry_def parse_record_def text_rr_def get_at_def)
qed

section \<open>Reading the file back\<close>

lemma set_join: "set (join sep ss) \<subseteq> set sep \<union> (\<Union>s \<in> set ss. set s)"
  by (induction sep ss rule: join.induct) auto

lemma join_not_Nil: "ss \<noteq> [] \<Longrightarrow> last ss \<noteq> [] \<Longrightarrow> join sep ss \<noteq> []"
  by (induction sep ss rule: join.induct) auto

lemma last_join: "ss \<noteq> [] \<Longrightarrow> last ss \<noteq> [] \<Longrightarrow> last (join sep ss) = last (last ss)"
proof (induction sep ss rule: join.induct)
  case (3 sep s t ss)
  then show ?case using join_not_Nil [of "t # ss" sep] by simp
qed simp_all

lemma word_char_no_line: "list_all word_char w \<Longrightarrow> LF \<notin> set w \<and> CR \<notin> set w"
  by (auto simp: list_all_iff word_char_def)

lemma piece_not_Nil: "piece_ok t \<Longrightarrow> piece t \<noteq> []"
  by (cases t) auto

lemma last_piece: "piece_ok t \<Longrightarrow> last (piece t) \<noteq> CR"
proof (cases t)
  case (Word w)
  assume "piece_ok t"
  then have "last w \<in> set w" "CR \<notin> set w" using Word word_char_no_line by auto
  then show ?thesis using Word by auto
qed simp

lemma rr_toks_no_line:
  assumes "text_rr r" "t \<in> set (rr_toks r)" shows "LF \<notin> set (piece t)"
proof (cases t)
  case (Word w)
  then show ?thesis
    using assms rr_toks_ok [OF assms(1)] word_char_no_line by (auto simp: list_all_iff)
next
  case (Quoted q)
  have "\<exists>ss s. rr_rdata r = RD_Txt ss \<and> s \<in> set ss \<and> q = map char_of_byte s"
    using assms(2) Quoted by (cases "rr_rdata r") (auto simp: rr_toks_def split: if_splits)
  then obtain ss s where s: "rr_rdata r = RD_Txt ss" "s \<in> set ss" "q = map char_of_byte s" by blast
  then have "text_string s" using assms(1) by (simp add: text_rr_def list_all_iff)
  then have "char_of_byte b \<noteq> LF" if "b \<in> set s" for b
    using that by (auto simp: text_string_def lf_char)
  then show ?thesis using Quoted s by force
qed

lemma rr_line_printable:
  assumes "text_rr r"
  shows "LF \<notin> set (rr_line r)" "rr_line r = [] \<or> last (rr_line r) \<noteq> CR" "\<not> starts_blank (rr_line r)"
proof -
  let ?ts = "rr_toks r" and ?pad = "rdata_pad (rr_rdata r)"
  let ?text = "join '' '' (map piece ?ts)"
  have line: "rr_line r = ?text @ ?pad" by (rule rr_line_pieces [OF assms])
  have pad: "?pad = [] \<or> ?pad = '' ''" by (auto simp: rdata_pad_def split: rdata.splits list.splits)
  have "LF \<notin> set ?text" using set_join [of "'' ''" "map piece ?ts"] rr_toks_no_line [OF assms] by auto
  then show "LF \<notin> set (rr_line r)" using pad by (auto simp: line)
  have ne: "?ts \<noteq> []" by (simp add: rr_toks_def)
  then have ok: "piece_ok (last ?ts)" using rr_toks_ok [OF assms] by (simp add: list_all_iff)
  then have "last (map piece ?ts) \<noteq> []" using ne by (simp add: last_map piece_not_Nil)
  then have "last ?text = last (piece (last ?ts))"
    using last_join [of "map piece ?ts" "'' ''"] ne by (simp add: last_map)
  then show "rr_line r = [] \<or> last (rr_line r) \<noteq> CR" using pad last_piece [OF ok] by (auto simp: line)
  have n: "list_all word_char (display_name (rr_name r))" "display_name (rr_name r) \<noteq> []"
    using assms by (simp_all add: text_rr_def display_name_text)
  then obtain c cs where c: "display_name (rr_name r) = c # cs" "word_char c"
    by (cases "display_name (rr_name r)") auto
  then have "\<exists>more. rr_line r = c # more" by (simp add: rr_line_def)
  then show "\<not> starts_blank (rr_line r)" using c(2) by (auto simp: starts_blank_def word_char_def)
qed

abbreviation rr_entry :: "entry \<Rightarrow> rr \<Rightarrow> bool" where
  "rr_entry e r \<equiv> (\<exists>l. e = (l, False, rr_toks r))"

lemma logical_rr_lines:
  assumes "list_all text_rr rs"
  shows "\<exists>es. logical_loop (map rr_line rs) idx 0 [] cl cw = Inr es \<and> list_all2 rr_entry es rs"
  using assms
proof (induction rs arbitrary: idx cl cw)
  case (Cons r rs)
  obtain es where es: "logical_loop (map rr_line rs) (idx + 1) 0 [] (idx + 1) False = Inr es"
    "list_all2 rr_entry es rs"
    using Cons.IH [of "idx + 1" "idx + 1" False] Cons.prems by auto
  have "rr_toks r \<noteq> []" by (simp add: rr_toks_def)
  then have "logical_loop (map rr_line (r # rs)) idx 0 [] cl cw = Inr ((idx + 1, False, rr_toks r) # es)"
    using es(1) Cons.prems by (simp add: tokenize_rr_line rr_line_printable(3))
  then show ?case using es(2) by auto
qed simp

lemma parse_rr_entries:
  assumes "list_all2 rr_entry es rs" "list_all text_rr rs" "zp_origin p = Some origin"
  shows "\<exists>p'. parse_entries p es = Some (Inr p') \<and> zp_origin p' = Some origin \<and> zp_all p' = zp_all p @ rs"
  using assms
proof (induction es rs arbitrary: p rule: list_all2_induct)
  case (Cons e es r rs)
  then obtain l where "e = (l, False, rr_toks r)" by blast
  moreover let ?p = "p\<lparr>zp_all := zp_all p @ [r], zp_last_name := Some (rr_name r)\<rparr>"
  have "\<exists>p'. parse_entries ?p es = Some (Inr p') \<and> zp_origin p' = Some origin \<and> zp_all p' = zp_all ?p @ rs"
    using Cons.prems by (intro Cons.IH) simp_all
  ultimately show ?case
    using parse_rr_toks [of r p origin l] Cons.prems by auto
qed simp

text \<open>A file of record lines behind the two header lines yields exactly the records.\<close>

lemma parse_record_file:
  assumes origin: "text_name origin" and rs: "list_all text_rr rs"
  shows "parse_zone_file (unlines ([''; generated by rdns'', ''$ORIGIN '' @ display_name origin] @ map rr_line rs)) =
    Some (map_err (\<lambda>e. err 0 (BadZone e)) (from_records origin rs))"
proof -
  let ?o = "''$ORIGIN '' @ display_name origin"
  let ?toks = "[Word ''$ORIGIN'', Word (display_name origin)]"
  have "list_all piece_ok ?toks"
    using display_name_text [OF origin] by (simp add: word_char_def delimiter_def)
  then have tok: "tokenize_line ?o 0 2 = Inr (?toks, 0)"
    using tokenize_pieces [of ?toks "[]" 0 2] by (simp add: blank_or_end_def)
  have ob: "\<not> starts_blank ?o" by (simp add: starts_blank_def)
  have comment: "tokenize_line ''; generated by rdns'' 0 1 = Inr ([], 0)"
    by (simp add: tokenize_line.simps(2) ws_len_ascii)
  have "list_all (\<lambda>l. LF \<notin> set l \<and> (l = [] \<or> last l \<noteq> CR)) (''; generated by rdns'' # ?o # map rr_line rs)"
    using rs rr_line_printable display_name_text [OF origin] word_char_no_line
    by (auto simp: list_all_iff)
  then have lines: "text_lines (unlines ([''; generated by rdns'', ?o] @ map rr_line rs)) =
      ''; generated by rdns'' # ?o # map rr_line rs"
    by (simp add: text_lines_unlines)
  obtain es where es: "logical_loop (map rr_line rs) 2 0 [] 2 False = Inr es" "list_all2 rr_entry es rs"
    using logical_rr_lines [OF rs] by blast
  have "logical_lines (unlines ([''; generated by rdns'', ?o] @ map rr_line rs)) = Inr ((2, False, ?toks) # es)"
    using tok comment es(1) ob
    by (simp add: logical_lines_def lines Let_def numeral_2_eq_2 del: append_Cons)
  moreover have "zone_entry p (2, False, ?toks) = Some (Inr (p\<lparr>zp_origin := Some origin\<rparr>))" for p
    using display_name_text(4) [OF origin]
    by (simp add: zone_entry_def get_at_def eq_ignore_ascii_case_def)
  moreover obtain p' where
    "parse_entries \<lparr>zp_origin = Some origin, zp_default_ttl = 3600, zp_last_name = None, zp_all = []\<rparr> es = Some (Inr p')"
    "zp_origin p' = Some origin" "zp_all p' = rs"
    using parse_rr_entries [OF es(2) rs, of "\<lparr>zp_origin = Some origin, zp_default_ttl = 3600, zp_last_name = None, zp_all = []\<rparr>" origin]
    by auto
  ultimately show ?thesis by (simp add: parse_zone_file_def del: append_Cons append.simps)
qed

section \<open>The records of a written zone\<close>

type_synonym rr_group = "dns_name \<times> u16 \<times> rr list"

abbreviation members :: "rr_group \<Rightarrow> rr list" where "members g \<equiv> snd (snd g)"
abbreviation group_key :: "rr_group \<Rightarrow> dns_name \<times> u16" where "group_key g \<equiv> (fst g, fst (snd g))"

definition node_groups :: "dns_name \<times> rr list \<Rightarrow> rr_group list" where
  "node_groups kv = map (\<lambda>t. (fst kv, t, filter (\<lambda>r. rr_rtype r = t) (snd kv))) (node_types (snd kv))"

definition group_rrset :: "rr_group \<Rightarrow> rrset" where
  "group_rrset g = \<lparr>rs_name = fst g, rs_type = fst (snd g), rs_ttl = rr_ttl (hd (members g)),
     rs_contents = map (\<lambda>r. rdata_text (rr_rdata r)) (members g)\<rparr>"

definition written_groups :: "zone \<Rightarrow> rr_group list" where
  "written_groups z = sort_key (\<lambda>g. rrset_key (group_rrset g)) (concat (map node_groups (z_records z)))"

definition written_records :: "zone \<Rightarrow> rr list" where
  "written_records z = concat (map members (written_groups z))"

lemma insort_key_map: "insort_key k (f x) (map f xs) = map f (insort_key (\<lambda>y. k (f y)) x xs)"
  by (induction xs) auto

lemma sort_key_map: "sort_key k (map f xs) = map f (sort_key (\<lambda>y. k (f y)) xs)"
  by (induction xs) (simp_all add: insort_key_map)

lemma rrsets_groups: "rrsets z = map group_rrset (written_groups z)"
proof -
  have "node_rrsets = (\<lambda>kv. map group_rrset (node_groups kv))"
    by (rule ext) (simp add: node_rrsets_def node_rrset_def node_groups_def group_rrset_def Let_def)
  then have "concat (map node_rrsets (z_records z)) = map group_rrset (concat (map node_groups (z_records z)))"
    by (simp add: map_concat o_def)
  then show ?thesis by (simp only: rrsets_def sort_key_map written_groups_def)
qed

lemma set_node_types: "set (node_types rrs) = rr_rtype ` set rrs"
  by (simp add: node_types_def)

lemma distinct_remdups_adj_sorted: "sorted xs \<Longrightarrow> distinct (remdups_adj xs)"
  by (induction xs rule: remdups_adj.induct) auto

lemma distinct_node_types: "distinct (node_types rrs)"
  by (simp add: node_types_def distinct_remdups_adj_sorted)

text \<open>A zone whose records can be written: printable data and one TTL for each record set.\<close>

definition same_ttls :: "rr list \<Rightarrow> bool" where
  "same_ttls rrs \<longleftrightarrow> list_all (\<lambda>r. list_all (\<lambda>r'. rr_rtype r = rr_rtype r' \<longrightarrow> rr_ttl r = rr_ttl r') rrs) rrs"

definition printable_zone :: "zone \<Rightarrow> bool" where
  "printable_zone z \<longleftrightarrow> text_name (z_origin z) \<and>
     list_all (\<lambda>kv. list_all text_rr (snd kv) \<and> same_ttls (snd kv)) (z_records z)"

definition group_ok :: "zone \<Rightarrow> rr_group \<Rightarrow> bool" where
  "group_ok z g \<longleftrightarrow>
     members g = filter (\<lambda>r. rr_rtype r = fst (snd g)) (node_or_default (z_records z) (fst g)) \<and> members g \<noteq> [] \<and>
     (\<forall>r \<in> set (members g). (rr_name r, rr_rtype r) = group_key g)"

lemma written_groups_mset: "mset (written_groups z) = mset (concat (map node_groups (z_records z)))"
  by (simp add: written_groups_def)

lemma written_groups_set: "set (written_groups z) = set (concat (map node_groups (z_records z)))"
  by (simp add: written_groups_def)

lemma zone_node:
  assumes "wf_zone z" "kv \<in> set (z_records z)"
  shows "map_of (z_records z) (fst kv) = Some (snd kv)" "node_or_default (z_records z) (fst kv) = snd kv"
    "node_ok (z_origin z) (fst kv) (snd kv)"
proof -
  show m: "map_of (z_records z) (fst kv) = Some (snd kv)"
    using assms by (simp add: wf_zone_def nodes_ok_def)
  then show "node_or_default (z_records z) (fst kv) = snd kv" by (simp add: node_or_default_def)
  show "node_ok (z_origin z) (fst kv) (snd kv)"
    using assms(1) m by (simp add: wf_zone_def nodes_ok_def)
qed

lemma written_groups_ok:
  assumes "wf_zone z" "g \<in> set (written_groups z)"
  shows "group_ok z g" "ends_with (fst g) (z_origin z)"
proof -
  have "g \<in> set (concat (map node_groups (z_records z)))"
    using assms(2) unfolding written_groups_set .
  then obtain kv t where kv: "kv \<in> set (z_records z)" "t \<in> set (node_types (snd kv))"
    "g = (fst kv, t, filter (\<lambda>r. rr_rtype r = t) (snd kv))"
    by (auto simp: node_groups_def)
  note n = zone_node [OF assms(1) kv(1)]
  have "filter (\<lambda>r. rr_rtype r = t) (snd kv) \<noteq> []" using kv(2) by (auto simp: set_node_types filter_empty_conv)
  then show "group_ok z g" using n kv(3) by (auto simp: group_ok_def node_ok_def list_all_iff)
  show "ends_with (fst g) (z_origin z)" using n(3) kv(3) by (simp add: node_ok_def)
qed

lemma written_groups_keys:
  assumes "wf_zone z"
  shows "distinct (map group_key (written_groups z))"
    "r \<in> set (node_or_default (z_records z) n) \<Longrightarrow> (n, rr_rtype r) \<in> group_key ` set (written_groups z)"
proof -
  let ?gs = "concat (map node_groups (z_records z))"
  have keys: "map group_key (node_groups kv) = map (Pair (fst kv)) (node_types (snd kv))" for kv
    by (simp add: node_groups_def)
  have "distinct (map fst kvs) \<Longrightarrow> distinct (map group_key (concat (map node_groups kvs)))" for kvs
  proof (induction kvs)
    case (Cons kv kvs)
    have "distinct (map group_key (node_groups kv))"
      by (simp add: keys distinct_map distinct_node_types inj_on_def)
    then show ?case using Cons by (auto simp: keys node_groups_def rev_image_eqI)
  qed simp
  then have "distinct (map group_key ?gs)" using assms by (simp add: wf_zone_def nodes_ok_def)
  moreover have "mset (map group_key (written_groups z)) = mset (map group_key ?gs)"
    by (simp only: mset_map written_groups_mset)
  ultimately show "distinct (map group_key (written_groups z))"
    using mset_eq_imp_distinct_iff by blast
  assume r: "r \<in> set (node_or_default (z_records z) n)"
  then obtain rrs where rrs: "map_of (z_records z) n = Some rrs" "r \<in> set rrs"
    by (cases "map_of (z_records z) n") (auto simp: node_or_default_def)
  then have "(n, rr_rtype r) \<in> group_key ` set (node_groups (n, rrs))"
    by (force simp: node_groups_def set_node_types)
  then have "(n, rr_rtype r) \<in> group_key ` set ?gs" using map_of_SomeD [OF rrs(1)] by force
  then show "(n, rr_rtype r) \<in> group_key ` set (written_groups z)" unfolding written_groups_set .
qed

lemma filter_group:
  assumes "distinct (map key gs)" "\<forall>g \<in> set gs. \<forall>r \<in> set (ms g). rkey r = key g"
  shows "g \<in> set gs \<Longrightarrow> filter (\<lambda>r. rkey r = key g) (concat (map ms gs)) = ms g"
    "k \<notin> key ` set gs \<Longrightarrow> filter (\<lambda>r. rkey r = k) (concat (map ms gs)) = []"
proof -
  show none: "filter (\<lambda>r. rkey r = k) (concat (map ms gs)) = []" if "k \<notin> key ` set gs" for k
    using that assms(2) by (auto simp: filter_empty_conv)
  show "filter (\<lambda>r. rkey r = key g) (concat (map ms gs)) = ms g" if "g \<in> set gs"
    using assms that
  proof (induction gs)
    case (Cons h gs)
    show ?case
    proof (cases "g = h")
      case True
      then have "\<forall>r \<in> set (concat (map ms gs)). rkey r \<noteq> key g" using Cons.prems by (auto simp: image_iff)
      then have "filter (\<lambda>r. rkey r = key g) (concat (map ms gs)) = []" by (simp add: filter_empty_conv)
      moreover have "filter (\<lambda>r. rkey r = key g) (ms h) = ms h" using Cons.prems True by (simp add: filter_id_conv)
      ultimately show ?thesis using True by simp
    next
      case False
      then have "g \<in> set gs" "key h \<noteq> key g" using Cons.prems by auto
      then have "filter (\<lambda>r. rkey r = key g) (ms h) = []" using Cons.prems by (auto simp: filter_empty_conv)
      then show ?thesis using Cons \<open>g \<in> set gs\<close> by simp
    qed
  qed simp
qed

text \<open>The record sets of the zone are all written, each with its records in their order.\<close>

lemma written_rrset:
  assumes "wf_zone z"
  shows "filter (\<lambda>r. rr_name r = n \<and> rr_rtype r = t) (written_records z) =
    filter (\<lambda>r. rr_rtype r = t) (node_or_default (z_records z) n)"
proof -
  let ?rkey = "\<lambda>r. (rr_name r, rr_rtype r)"
  have gs: "\<forall>g \<in> set (written_groups z). \<forall>r \<in> set (members g). ?rkey r = group_key g"
    using written_groups_ok(1) [OF assms] unfolding group_ok_def by blast
  note f = filter_group [OF written_groups_keys(1) [OF assms] gs]
  show ?thesis
  proof (cases "(n, t) \<in> group_key ` set (written_groups z)")
    case True
    then obtain g where g: "g \<in> set (written_groups z)" "group_key g = (n, t)" by auto
    have "filter (\<lambda>r. ?rkey r = (n, t)) (written_records z) = members g"
      using f(1) [OF g(1)] unfolding g(2) written_records_def .
    also have "\<dots> = filter (\<lambda>r. rr_rtype r = t) (node_or_default (z_records z) n)"
      using written_groups_ok(1) [OF assms g(1)] g(2) by (auto simp only: group_ok_def prod.inject)
    finally show ?thesis by simp
  next
    case False
    then have "\<forall>r \<in> set (node_or_default (z_records z) n). rr_rtype r \<noteq> t"
      using written_groups_keys(2) [OF assms] by auto
    then show ?thesis using f(2) [OF False] by (simp add: written_records_def filter_empty_conv)
  qed
qed

lemma written_records_mem:
  assumes "wf_zone z" "r \<in> set (written_records z)"
  shows "r \<in> set (node_or_default (z_records z) (rr_name r))" "ends_with (rr_name r) (z_origin z)"
proof -
  have "r \<in> set (filter (\<lambda>x. rr_name x = rr_name r \<and> rr_rtype x = rr_rtype r) (written_records z))"
    using assms(2) by simp
  then show m: "r \<in> set (node_or_default (z_records z) (rr_name r))"
    unfolding written_rrset [OF assms(1)] by simp
  then obtain rrs where "map_of (z_records z) (rr_name r) = Some rrs"
    by (cases "map_of (z_records z) (rr_name r)") (auto simp: node_or_default_def)
  then show "ends_with (rr_name r) (z_origin z)"
    using assms(1) by (auto simp: wf_zone_def nodes_ok_def node_ok_def)
qed

lemma printable_records:
  assumes "printable_zone z" "r \<in> set (node_or_default (z_records z) n)"
  shows "text_rr r"
    "r' \<in> set (node_or_default (z_records z) n) \<Longrightarrow> rr_rtype r = rr_rtype r' \<Longrightarrow> rr_ttl r = rr_ttl r'"
proof -
  obtain rrs where rrs: "map_of (z_records z) n = Some rrs" "node_or_default (z_records z) n = rrs"
    using assms(2) by (cases "map_of (z_records z) n") (auto simp: node_or_default_def)
  have "list_all text_rr (snd (n, rrs)) \<and> same_ttls (snd (n, rrs))"
    using assms(1) map_of_SomeD [OF rrs(1)] unfolding printable_zone_def list_all_iff [of _ "z_records z"] by blast
  then have p: "list_all text_rr rrs" "same_ttls rrs" by simp_all
  then show "text_rr r" using assms(2) rrs(2) by (simp add: list_all_iff)
  show "r' \<in> set (node_or_default (z_records z) n) \<Longrightarrow> rr_rtype r = rr_rtype r' \<Longrightarrow> rr_ttl r = rr_ttl r'"
    using p(2) assms(2) unfolding rrs(2) same_ttls_def list_all_iff by blast
qed

lemma group_lines:
  assumes "wf_zone z" "printable_zone z" "g \<in> set (written_groups z)"
  shows "rrset_lines (group_rrset g) = map rr_line (members g)"
proof -
  have ok: "group_ok z g" by (rule written_groups_ok(1) [OF assms(1,3)])
  then have mem: "r \<in> set (node_or_default (z_records z) (fst g))" if "r \<in> set (members g)" for r
    using that unfolding group_ok_def by (metis (no_types, lifting) filter_is_subset subsetD)
  have key: "rr_name r = fst g \<and> rr_rtype r = fst (snd g)" if "r \<in> set (members g)" for r
    using ok that unfolding group_ok_def by blast
  have hd: "hd (members g) \<in> set (members g)" using ok hd_in_set unfolding group_ok_def by blast
  have ttl: "rr_ttl (hd (members g)) = rr_ttl r" if "r \<in> set (members g)" for r
    using printable_records(2) [OF assms(2) mem [OF hd] mem [OF that]] key [OF hd] key [OF that] by simp
  have "join '' '' [display_name (fst g), show_word (rr_ttl (hd (members g))), ''IN'', type_name (fst (snd g)),
      rdata_text (rr_rdata r)] = rr_line r" if "r \<in> set (members g)" for r
    using key [OF that] ttl [OF that] by (simp add: rr_line_def)
  then show ?thesis by (simp add: rrset_lines_def group_rrset_def)
qed

lemma to_zonefile_lines:
  assumes "wf_zone z" "printable_zone z"
  shows "to_zonefile z = unlines ([''; generated by rdns'', ''$ORIGIN '' @ display_name (z_origin z)] @
    map rr_line (written_records z))"
proof -
  have "map rrset_lines (rrsets z) = map (\<lambda>g. map rr_line (members g)) (written_groups z)"
    unfolding rrsets_groups map_map by (rule map_cong [OF refl]) (simp add: group_lines [OF assms])
  then have "concat (map rrset_lines (rrsets z)) = map rr_line (written_records z)"
    by (simp only: written_records_def map_concat map_map o_def)
  then show ?thesis by (simp only: to_zonefile_def)
qed

section \<open>The zone read back\<close>

lemma collect_records_nodes:
  "collect_records origin rs soa recs k = Inr (soa', recs', k') \<Longrightarrow>
    node_or_default recs' n = node_or_default recs n @ filter (\<lambda>r. rr_name r = n) rs"
  by (induction origin rs soa recs k rule: collect_records.induct)
     (auto simp: push_record_def split: if_splits)

lemma from_records_nodes:
  "from_records origin rs = Inr z \<Longrightarrow> node_or_default (z_records z) n = filter (\<lambda>r. rr_name r = n) rs"
  by (auto simp: from_records_def and_then_eq_Inr_iff split: option.splits dest!: collect_records_nodes [where n = n])

text \<open>Two zones hold the same record sets in the same order within each.\<close>

definition same_rrsets :: "zone \<Rightarrow> zone \<Rightarrow> bool" where
  "same_rrsets z z' \<longleftrightarrow> z_origin z' = z_origin z \<and>
     (\<forall>n t. filter (\<lambda>r. rr_rtype r = t) (node_or_default (z_records z') n) =
            filter (\<lambda>r. rr_rtype r = t) (node_or_default (z_records z) n))"

lemma written_zone:
  assumes "wf_zone z"
  shows "\<exists>z'. from_records (z_origin z) (written_records z) = Inr z' \<and> same_rrsets z z' \<and> wf_zone z'"
proof -
  let ?soa = "\<lambda>r. rr_rtype r = TYPE_SOA"
  have soa_name: "rr_name r = z_origin z" if "r \<in> set (written_records z)" "?soa r" for r
  proof (rule ccontr)
    assume "rr_name r \<noteq> z_origin z"
    then have "filter ?soa (node_or_default (z_records z) (rr_name r)) = []"
      using assms by (simp add: wf_zone_def soas_at_def)
    then show False using written_records_mem(1) [OF assms that(1)] that(2) by (simp add: filter_empty_conv)
  qed
  then have "filter ?soa (written_records z) = filter (\<lambda>r. rr_name r = z_origin z \<and> ?soa r) (written_records z)"
    by (intro filter_cong) auto
  also have "\<dots> = [z_soa z]" using written_rrset [OF assms] assms by (simp add: wf_zone_def soas_at_def)
  finally have soa: "filter ?soa (written_records z) = [z_soa z]" .
  have "is_ok (from_records (z_origin z) (written_records z))"
    using from_records_succeeds_iff [of "z_origin z" "written_records z"] soa soa_name
      written_records_mem(2) [OF assms] wf_zone_soa(2) [OF assms]
    by (auto simp: is_ok_iff list_all_iff)
  then obtain z' where z': "from_records (z_origin z) (written_records z) = Inr z'" by (auto simp: is_ok_iff)
  have "filter (\<lambda>r. rr_rtype r = t) (node_or_default (z_records z') n) =
      filter (\<lambda>r. rr_rtype r = t) (node_or_default (z_records z) n)" for n t
    using written_rrset [OF assms, of n t] by (simp add: from_records_nodes [OF z'] conj_commute)
  then show ?thesis using z' from_records_wf [OF z'] by (simp add: same_rrsets_def)
qed

lemma same_rrsets_records:
  assumes "same_rrsets z z'"
  shows "set (node_or_default (z_records z') n) = set (node_or_default (z_records z) n)"
proof -
  have "r \<in> set (node_or_default (z_records y') n)"
    if "r \<in> set (node_or_default (z_records y) n)" "same_rrsets y y' \<or> same_rrsets y' y" for r y y'
  proof -
    have "r \<in> set (filter (\<lambda>x. rr_rtype x = rr_rtype r) (node_or_default (z_records y) n))" using that(1) by simp
    also have "filter (\<lambda>x. rr_rtype x = rr_rtype r) (node_or_default (z_records y) n) =
        filter (\<lambda>x. rr_rtype x = rr_rtype r) (node_or_default (z_records y') n)"
      using that(2) by (auto simp: same_rrsets_def)
    finally show ?thesis by simp
  qed
  then show ?thesis using assms by blast
qed

text \<open>Lookups of every type but ANY see only the record sets.\<close>

definition rrset_equiv :: "rr list option \<Rightarrow> rr list option \<Rightarrow> bool" where
  "rrset_equiv a b \<longleftrightarrow> (a = None \<longleftrightarrow> b = None) \<and>
     (\<forall>x y. a = Some x \<longrightarrow> b = Some y \<longrightarrow> (\<forall>t. filter (\<lambda>r. rr_rtype r = t) x = filter (\<lambda>r. rr_rtype r = t) y))"

lemma same_nodes:
  assumes "wf_zone z" "wf_zone z'" "same_rrsets z z'"
  shows "rrset_equiv (map_of (z_records z') n) (map_of (z_records z) n)"
proof -
  have none: "map_of (z_records y) n = None \<longleftrightarrow> node_or_default (z_records y) n = []" if "wf_zone y" for y
    using that by (auto simp: node_or_default_def wf_zone_def nodes_ok_def node_ok_def split: option.splits)
  have "node_or_default (z_records z') n = [] \<longleftrightarrow> node_or_default (z_records z) n = []"
    using same_rrsets_records [OF assms(3), of n] by (metis set_empty)
  moreover have "filter (\<lambda>r. rr_rtype r = t) (node_or_default (z_records z') n) =
      filter (\<lambda>r. rr_rtype r = t) (node_or_default (z_records z) n)" for t
    using assms(3) by (simp add: same_rrsets_def)
  ultimately show ?thesis
    using none [OF assms(1)] none [OF assms(2)]
    by (cases "map_of (z_records z') n"; cases "map_of (z_records z) n")
       (simp_all add: rrset_equiv_def node_or_default_def)
qed

lemma rrset_equiv_renamed:
  assumes "rrset_equiv (Some x) (Some y)"
  shows "rrset_equiv (Some (map (\<lambda>r. r\<lparr>rr_name := n\<rparr>) x)) (Some (map (\<lambda>r. r\<lparr>rr_name := n\<rparr>) y))"
  using assms by (simp add: rrset_equiv_def filter_map o_def rr_rtype_def)

lemma wildcard_search_equiv:
  assumes "\<And>n. rrset_equiv (map_of recs' n) (map_of recs n)"
  shows "rrset_equiv (wildcard_search recs' name skips) (wildcard_search recs name skips)"
proof (induction skips)
  case (Cons skip skips)
  show ?case
  proof (cases "wildcard_at name skip")
    case None
    then show ?thesis by (simp add: rrset_equiv_def)
  next
    case (Some w)
    then show ?thesis
      using assms [of w] Cons rrset_equiv_renamed [of _ _ name]
      by (cases "map_of recs' w"; cases "map_of recs w") (auto simp: rrset_equiv_def [of _ None] rrset_equiv_def [of None])
  qed
qed (simp add: rrset_equiv_def)

lemma find_node_equiv:
  assumes "wf_zone z" "wf_zone z'" "same_rrsets z z'"
  shows "rrset_equiv (find_node z' n) (find_node z n)"
proof -
  note e = same_nodes [OF assms]
  have "z_origin z' = z_origin z" using assms(3) by (simp add: same_rrsets_def)
  then show ?thesis
    using e [of n] wildcard_search_equiv [of "z_records z'" "z_records z" n, OF e]
    by (cases "map_of (z_records z') n"; cases "map_of (z_records z) n")
       (auto simp: find_node_def rrset_equiv_def [of _ None] rrset_equiv_def [of None])
qed

lemma find_filter: "find P xs = (case filter P xs of [] \<Rightarrow> None | x # _ \<Rightarrow> Some x)"
  by (induction xs) auto

lemma lookup_loop_equiv:
  assumes "wf_zone z" "wf_zone z'" "same_rrsets z z'" "qtype \<noteq> TYPE_ANY"
  shows "lookup_loop k z' n qtype ans = lookup_loop k z n qtype ans"
proof (induction k arbitrary: n ans)
  case (Suc k)
  have origin: "z_origin z' = z_origin z" using assms(3) by (simp add: same_rrsets_def)
  have "set (map fst (z_records z')) = set (map fst (z_records z))"
    using same_nodes [OF assms(1-3)] unfolding rrset_equiv_def
    by (metis (no_types, lifting) map_of_eq_None_iff list.set_map subsetI subset_antisym)
  then have below: "has_names_below z' n = has_names_below z n" for n
    by (auto simp: has_names_below_def list_ex_iff)
  have matches: "type_matches qtype = (\<lambda>r. rr_rtype r = qtype)"
    using assms(4) by (intro ext) (auto simp: type_matches_def)
  show ?case
  proof (cases "find_node z n")
    case None
    then show ?thesis using find_node_equiv [OF assms(1-3), of n] below by (simp add: rrset_equiv_def)
  next
    case (Some x)
    then obtain y where y: "find_node z' n = Some y" "\<And>t. filter (\<lambda>r. rr_rtype r = t) y = filter (\<lambda>r. rr_rtype r = t) x"
      using find_node_equiv [OF assms(1-3), of n] by (auto simp: rrset_equiv_def)
    then have "find (\<lambda>r. rr_rtype r = TYPE_CNAME) y = find (\<lambda>r. rr_rtype r = TYPE_CNAME) x"
      by (simp only: find_filter)
    then show ?thesis using Some y Suc origin
      by (simp add: matches Let_def split: option.splits rdata.splits)
  qed
qed simp

lemma same_rrsets_soa:
  assumes "wf_zone z" "wf_zone z'" "same_rrsets z z'"
  shows "z_soa z' = z_soa z"
proof -
  have "filter (\<lambda>r. rr_rtype r = TYPE_SOA) (node_or_default (z_records z') (z_origin z)) = [z_soa z']"
    using assms(2,3) by (simp add: wf_zone_def soas_at_def same_rrsets_def)
  moreover have "filter (\<lambda>r. rr_rtype r = TYPE_SOA) (node_or_default (z_records z) (z_origin z)) = [z_soa z]"
    using assms(1) by (simp add: wf_zone_def soas_at_def)
  ultimately show ?thesis using assms(3) by (simp add: same_rrsets_def)
qed

lemma zonefile_back:
  assumes "wf_zone z" "printable_zone z"
  shows "\<exists>z'. parse_zone_file (to_zonefile z) = Some (Inr z') \<and> wf_zone z' \<and> same_rrsets z z'"
proof -
  have "list_all text_rr (written_records z)"
    using printable_records(1) [OF assms(2)] written_records_mem(1) [OF assms(1)]
    unfolding list_all_iff by blast
  moreover have "text_name (z_origin z)" using assms(2) by (simp add: printable_zone_def)
  moreover obtain z' where "from_records (z_origin z) (written_records z) = Inr z'" "same_rrsets z z'" "wf_zone z'"
    using written_zone [OF assms(1)] by blast
  ultimately show ?thesis
    using parse_record_file [of "z_origin z" "written_records z"] unfolding to_zonefile_lines [OF assms] by auto
qed

section \<open>Properties\<close>

lemma sample_zone_printable: "printable_zone sample_zone"
  by (simp add: printable_zone_def sample_zone_def sample_defs text_rr_def text_name_def same_ttls_def text_byte_def
      plain_byte_def wf_name_def wf_label_def lower_label_def to_lower_def)

text \<open>
  C11: A zone of printable names and data, with one TTL for each record set,
  is read back from the file \<open>to_zonefile\<close> writes: the parser returns a
  well-formed zone with the same origin, SOA and record sets, each with its
  records in their order, and it answers every query of a type other than ANY
  as the zone that was written.
\<close>
theorem zonefile_roundtrip:
  assumes "wf_zone z" "printable_zone z"
  shows "\<exists>z'. parse_zone_file (to_zonefile z) = Some (Inr z') \<and> wf_zone z' \<and> same_rrsets z z' \<and>
    z_soa z' = z_soa z \<and> (\<forall>qname qtype. qtype \<noteq> TYPE_ANY \<longrightarrow> lookup z' qname qtype = lookup z qname qtype)"
proof -
  obtain z' where z': "parse_zone_file (to_zonefile z) = Some (Inr z')" "wf_zone z'" "same_rrsets z z'"
    using zonefile_back [OF assms] by blast
  then show ?thesis
    using same_rrsets_soa [OF assms(1) z'(2,3)] lookup_loop_equiv [OF assms(1) z'(2,3)]
    unfolding lookup_def by blast
qed

theorem zonefile_roundtrip_witness:
  "\<exists>z'. parse_zone_file (to_zonefile sample_zone) = Some (Inr z') \<and> lookup z' [[119], [101]] TYPE_A = lookup sample_zone [[119], [101]] TYPE_A"
  using zonefile_roundtrip [OF sample_zone_wf sample_zone_printable] by auto

text \<open>Names that a decoder follows, and data other than generic or very long text.\<close>

fun rdata_names :: "rdata \<Rightarrow> dns_name list" where
  "rdata_names (RD_Ns n) = [n]"
| "rdata_names (RD_Cname n) = [n]"
| "rdata_names (RD_Ptr n) = [n]"
| "rdata_names (RD_Soa s) = [soa_mname s, soa_rname s]"
| "rdata_names (RD_Mx _ n) = [n]"
| "rdata_names (RD_Srv _ _ _ n) = [n]"
| "rdata_names _ = []"

definition ordinary :: "rr \<Rightarrow> bool" where
  "ordinary r \<longleftrightarrow> list_all (\<lambda>n. length n \<le> 64) (rr_name r # rdata_names (rr_rdata r)) \<and>
     (case rr_rdata r of RD_Txt ss \<Rightarrow> length (txt_bytes ss) < 65536 | RD_Unknown _ _ \<Rightarrow> False | _ \<Rightarrow> True)"

lemma ordinary_ok: "rr_typed r \<Longrightarrow> ordinary r \<Longrightarrow> rr_ok r"
  by (cases "rr_rdata r") (auto simp: rr_typed_def ordinary_def rr_ok_def name_ok_def)

text \<open>
  C17: A zone that \<open>parse_zone_file\<close> returns is well formed: one SOA at a
  well-formed origin, owners at or under it, and every record of class IN
  with a well-formed owner, well-formed names in its data and character strings
  of at most 255 bytes.  Every record whose names have at most 64 labels,
  whose data is not in generic form (as CAA always is) and whose text strings
  have less than 65536 bytes together is within what the wire format carries and
  decodes to itself.  Generic data is taken as it is.
\<close>
theorem loaded_zone_typed:
  assumes "parse_zone_file text = Some (Inr z)"
  shows "wf_zone z \<and> wf_name (z_origin z) \<and> (\<forall>r \<in># records_mset (z_records z). rr_typed r \<and> (ordinary r \<longrightarrow> rr_ok r))"
  using parse_zone_file_typed [OF assms] ordinary_ok by blast

theorem loaded_zone_typed_witness:
  "\<exists>z. parse_zone_file (to_zonefile sample_zone) = Some (Inr z) \<and> wf_zone z \<and> wf_name (z_origin z)"
proof -
  obtain z where "parse_zone_file (to_zonefile sample_zone) = Some (Inr z)"
    using zonefile_back [OF sample_zone_wf sample_zone_printable] by blast
  then show ?thesis using loaded_zone_typed by blast
qed

text \<open>
  Generic data is bounded neither by its type nor by the wire format: an A
  record of any length is accepted.
\<close>
theorem generic_any_length:
  assumes "length data < 2 ^ 64"
  shows "parse_rdata ''A'' [Word [CHR 0x5C, CHR ''#''], Word (show_nat (length data)), Word (concat (map hex2 data))] origin l =
    Inr (RD_Unknown TYPE_A data)"
proof -
  have "parse_uint (2 ^ 64 - 1) (show_nat (length data)) = Some (length data)" using assms by (intro parse_uint_show_nat) simp
  then show ?thesis
    by (simp add: parse_rdata_def parse_generic_def parse_num_def type_code_typed decode_hex_hex2 ok_or_def)
qed

theorem generic_any_length_witness:
  "parse_rdata ''A'' [Word [CHR 0x5C, CHR ''#''], Word (show_nat 70000), Word (concat (map hex2 (replicate 70000 0)))] [[101]] 1 =
    Inr (RD_Unknown TYPE_A (replicate 70000 0))"
  using generic_any_length [of "replicate 70000 0" "[[101]]" 1] by simp

text \<open>
  C18: Reading a zone file ends when the range of every \<open>$GENERATE\<close> line, one
  step further, stays within 64 bits: with a zone, with an error, or, in the
  error value \<open>HexSplitsChar\<close>, with the panic of a hexadecimal text that is cut
  inside a character.
\<close>
theorem zone_file_terminates:
  assumes "\<And>es. logical_lines text = Inr es \<Longrightarrow> list_all (\<lambda>e. is_generate e \<longrightarrow> range_fits e) es"
  shows "\<exists>res. parse_zone_file text = Some res"
proof (cases "logical_lines text")
  case (Inr es)
  then show ?thesis using parse_entries_return [OF assms [OF Inr]] by (auto simp: parse_zone_file_def)
qed (simp add: parse_zone_file_def)

definition sample_generate :: string where
  "sample_generate = unlines [''$ORIGIN e.'', ''$GENERATE 1-3 h$ A 10.0.0.$'']"

lemma sample_generate_lines:
  "logical_lines sample_generate =
     Inr [(1, False, [Word ''$ORIGIN'', Word ''e.'']),
          (2, False, [Word ''$GENERATE'', Word ''1-3'', Word ''h$'', Word ''A'', Word ''10.0.0.$''])]"
  by code_simp

lemma sample_range: "parse_range ''1-3'' l = Inr (1, 3, 1)"
  by (simp add: parse_range_def parse_num_def parse_i64_def parse_uint_def digit_val_def)

theorem zone_file_terminates_witness: "\<exists>res. parse_zone_file sample_generate = Some res"
  by (rule zone_file_terminates)
     (auto simp: sample_generate_lines is_generate_def range_fits_def get_at_def sample_range eq_ignore_ascii_case_def lower_char_def)

text \<open>
  A \<open>$GENERATE\<close> range that ends at the largest 64-bit number passes the
  size check, and reading the file never ends: the counter wraps around.
\<close>
theorem generate_wraps:
  "parse_zone_file (unlines [''$ORIGIN e.'', ''$GENERATE 9223372036854775807-9223372036854775807 h TXT x'']) = None"
proof -
  let ?m = "9223372036854775807 :: i64"
  have lines: "logical_lines (unlines [''$ORIGIN e.'', ''$GENERATE 9223372036854775807-9223372036854775807 h TXT x'']) =
     Inr [(1, False, [Word ''$ORIGIN'', Word ''e.'']),
          (2, False, [Word ''$GENERATE'', Word ''9223372036854775807-9223372036854775807'', Word ''h'', Word ''TXT'', Word ''x''])]"
    by code_simp
  have spec: "parse_range ''9223372036854775807-9223372036854775807'' 2 = Inr (?m, ?m, 1)"
    by (simp add: parse_range_def parse_num_def parse_i64_def parse_uint_def digit_val_def)
  have h: "resolve_name ''h'' [[101]] 2 = Inr [[104], [101]]" by code_simp
  have x: "rdata_from_text ''TXT'' ''x'' [[101]] = Inr (RD_Txt [[120]])" by code_simp
  have e: "parse_str ''e.'' = Inr [[101]]" by code_simp
  have one: "is_ok (generate_one 2 [[101]] 3600 ''TXT'' ''h'' ''x'' n)" for n
    by (simp add: generate_one_def h x)
  have "generate_loop (generate_one 2 [[101]] 3600 ''TXT'' ''h'' ''x'') 1 ?m ?m [] = None"
    by (rule generate_loop_diverges [OF one]) simp
  then have "expand_generate [Word ''$GENERATE'', Word ''9223372036854775807-9223372036854775807'', Word ''h'', Word ''TXT'', Word ''x'']
      [[101]] 3600 2 = None"
    by (simp add: expand_generate_def get_at_def spec all_digits_def digit_val_def eq_ignore_ascii_case_def lower_char_def upper_char_def)
  then show ?thesis
    by (simp add: parse_zone_file_def lines zone_entry_def get_at_def e eq_ignore_ascii_case_def lower_char_def)
qed

end
