(* ===== verification/Http_Text.thy ===== *)
theory Http_Text
  imports Utf8_Text
begin

text \<open>
  Reading HTTP/1.1 requests from a byte stream: the head up to the empty line,
  header lines and the body of \<open>Content-Length\<close> bytes.  DNS over HTTPS
  (\<open>rdns/src/server.rs\<close>) and the management API (\<open>rdns/src/api.rs\<close>) read their
  requests with the same loop.  A stream is the list of the chunks its reads
  return; its end, an empty chunk included, stands for a close, an error and
  a timeout.
\<close>

section \<open>Characters of a text\<close>

text \<open>The UTF-8 bytes of a text grouped into characters.\<close>

fun chars :: "string \<Rightarrow> string list" where
  "chars [] = []"
| "chars (c # cs) =
     (case chars cs of
        [] \<Rightarrow> [[c]]
      | d # ds \<Rightarrow> if boundary_byte (hd d) then [c] # d # ds else (c # d) # ds)"

definition is_whitespace :: "string \<Rightarrow> bool" where
  "is_whitespace ch \<longleftrightarrow> ws_len ch > 0"

definition trim_start :: "string \<Rightarrow> string" where
  "trim_start s = concat (dropWhile is_whitespace (chars s))"

definition trim :: "string \<Rightarrow> string" where
  "trim s = concat (rev (dropWhile is_whitespace (rev (dropWhile is_whitespace (chars s)))))"

fun split_by :: "('a \<Rightarrow> bool) \<Rightarrow> 'a list \<Rightarrow> 'a list list" where
  "split_by P [] = [[]]"
| "split_by P (x # xs) =
     (if P x then [] # split_by P xs
      else (case split_by P xs of [] \<Rightarrow> [[x]] | y # ys \<Rightarrow> (x # y) # ys))"

definition split_whitespace :: "string \<Rightarrow> string list" where
  "split_whitespace s = map concat (filter (\<lambda>w. w \<noteq> []) (split_by is_whitespace (chars s)))"

definition trim_matches :: "char \<Rightarrow> string \<Rightarrow> string" where
  "trim_matches c s = rev (dropWhile (\<lambda>d. d = c) (rev (dropWhile (\<lambda>d. d = c) s)))"

fun find_map :: "('a \<Rightarrow> 'b option) \<Rightarrow> 'a list \<Rightarrow> 'b option" where
  "find_map f [] = None"
| "find_map f (x # xs) = (case f x of Some y \<Rightarrow> Some y | None \<Rightarrow> find_map f xs)"

section \<open>Requests\<close>

text \<open>\<open>buf.windows(4).position(|w| w == b"\r\n\r\n")\<close>, as the length of the head.\<close>

abbreviation (input) head_end :: bytes where "head_end \<equiv> [0x0D, 0x0A, 0x0D, 0x0A]"

fun head_length :: "bytes \<Rightarrow> nat option" where
  "head_length [] = None"
| "head_length (b # bs) =
     (if take 4 (b # bs) = head_end then Some 4 else map_option Suc (head_length bs))"

datatype head_result = Head nat bytes "bytes list" | Too_long | Closed

fun read_head :: "nat \<Rightarrow> bytes list \<Rightarrow> bytes \<Rightarrow> head_result" where
  "read_head limit [] buf = Closed"
| "read_head limit (chunk # more) buf =
     (if chunk = [] then Closed
      else
        let buf' = buf @ chunk in
        case head_length buf' of
          Some n \<Rightarrow> Head n buf' more
        | None \<Rightarrow> if length buf' > limit then Too_long else read_head limit more buf')"

fun read_body :: "nat \<Rightarrow> bytes list \<Rightarrow> bytes \<Rightarrow> bytes option" where
  "read_body content_length [] body =
     (if length body < content_length then None else Some (take content_length body))"
| "read_body content_length (chunk # more) body =
     (if length body < content_length then
        if chunk = [] then None else read_body content_length more (body @ chunk)
      else Some (take content_length body))"

definition header_line :: "string \<Rightarrow> string \<Rightarrow> string option" where
  "header_line name l =
     (case split_once CHR '':'' l of
        None \<Rightarrow> None
      | Some (k, v) \<Rightarrow> if eq_ignore_ascii_case (trim k) name then Some (trim v) else None)"

definition header_value :: "string \<Rightarrow> string \<Rightarrow> string option" where
  "header_value headers name = find_map (header_line name) (text_lines headers)"

section \<open>The head of a stream\<close>

lemma take_head_end: "take 4 bs = head_end \<Longrightarrow> 4 \<le> length bs"
  using length_take [of 4 bs] by simp

lemma head_length_le: "head_length bs = Some n \<Longrightarrow> 4 \<le> n \<and> n \<le> length bs"
proof (induction bs arbitrary: n)
  case (Cons b bs)
  show ?case
  proof (cases "take 4 (b # bs) = head_end")
    case True
    then show ?thesis using Cons.prems take_head_end [OF True] by simp
  next
    case False
    then show ?thesis using Cons by auto
  qed
qed simp

text \<open>The head is found as soon as it is complete, and never before.\<close>

lemma head_length_append:
  assumes "head_length bs = Some n"
  shows "head_length (bs @ more) = Some n" "k < n \<Longrightarrow> head_length (take k bs) = None"
proof -
  show "head_length (bs @ more) = Some n"
    using assms
  proof (induction bs arbitrary: n)
    case (Cons b bs)
    have "4 \<le> length (b # bs)" using head_length_le [OF Cons.prems] by linarith
    then have "take 4 ((b # bs) @ more) = take 4 (b # bs)" by simp
    then show ?case using Cons by (auto split: if_splits)
  qed simp
  show "head_length (take k bs) = None" if "k < n"
    using assms that
  proof (induction bs arbitrary: n k)
    case (Cons b bs)
    show ?case
    proof (cases k)
      case (Suc j)
      show ?thesis
      proof (cases "take 4 (b # bs) = head_end")
        case True
        then have "k < 4" using Cons.prems by simp
        then have "\<not> 4 \<le> length (take k (b # bs))" by simp
        then have "take 4 (take k (b # bs)) \<noteq> head_end" using take_head_end by blast
        moreover have "head_length (take j bs) = None"
        proof (cases "head_length (take j bs)")
          case (Some m)
          then have "4 \<le> j" using head_length_le [OF Some] by simp
          then show ?thesis using \<open>k < 4\<close> Suc by simp
        qed simp
        ultimately show ?thesis using Suc by simp
      next
        case False
        then obtain m where m: "head_length bs = Some m" "n = Suc m" using Cons.prems by auto
        then have "head_length (take j bs) = None" using Cons.IH [OF m(1)] Cons.prems(2) Suc by simp
        moreover have "take 4 (b # take j bs) \<noteq> head_end"
        proof
          assume "take 4 (b # take j bs) = head_end"
          then have "take 4 (take k (b # bs)) = head_end" using Suc by simp
          moreover have "4 \<le> k" using take_head_end [OF calculation] by simp
          ultimately show False using False by (simp add: min_absorb1)
        qed
        ultimately show ?thesis using Suc by simp
      qed
    qed simp
  qed simp
qed

lemma head_length_take: "head_length bs = Some n \<Longrightarrow> head_length (take n bs) = Some n"
proof (induction bs arbitrary: n)
  case (Cons b bs)
  show ?case
  proof (cases "take 4 (b # bs) = head_end")
    case True
    then show ?thesis using Cons.prems by simp
  next
    case False
    then obtain m where m: "head_length bs = Some m" "n = Suc m" using Cons.prems by auto
    have "take 4 (take n (b # bs)) = take 4 (b # bs)" using head_length_le [OF Cons.prems] by simp
    then have "take 4 (b # take m bs) \<noteq> head_end" using m(2) False by simp
    then show ?thesis using Cons.IH [OF m(1)] m by (simp only: take_Suc_Cons head_length.simps if_False option.map)
  qed
qed simp

lemma read_head_complete:
  assumes "head_length (buf @ concat cs) = Some n" "n \<le> limit" "length buf < n" "list_all (\<lambda>c. c \<noteq> []) cs"
  shows "\<exists>buf' rest. read_head limit cs buf = Head n buf' rest \<and> buf' @ concat rest = buf @ concat cs \<and>
    n \<le> length buf' \<and> list_all (\<lambda>c. c \<noteq> []) rest"
  using assms
proof (induction cs arbitrary: buf)
  case Nil
  then show ?case using head_length_le [of buf n] by simp
next
  case (Cons c cs)
  let ?all = "buf @ concat (c # cs)"
  show ?case
  proof (cases "n \<le> length (buf @ c)")
    case True
    have "head_length (buf @ c) = Some n"
    proof (cases "head_length (buf @ c)")
      case None
      have "take n ?all = take n (buf @ c)" using True by simp
      moreover obtain m where "head_length (take n ?all) = Some m"
        using head_length_take [OF Cons.prems(1)] by blast
      ultimately have "head_length (take n (buf @ c)) = Some m" by metis
      then have "head_length (take n (buf @ c) @ drop n (buf @ c)) = Some m" by (rule head_length_append(1))
      then show ?thesis using None unfolding append_take_drop_id by simp
    next
      case (Some m)
      then show ?thesis using head_length_append(1) [OF Some, of "concat cs"] Cons.prems(1) by simp
    qed
    then show ?thesis using Cons.prems True by (auto simp: Let_def)
  next
    case False
    have "head_length (take (length (buf @ c)) ?all) = None"
      by (rule head_length_append(2) [OF Cons.prems(1)]) (use False in simp)
    then have "head_length (buf @ c) = None" by simp
    moreover have "\<exists>buf' rest. read_head limit cs (buf @ c) = Head n buf' rest \<and> buf' @ concat rest = (buf @ c) @ concat cs \<and>
        n \<le> length buf' \<and> list_all (\<lambda>c. c \<noteq> []) rest"
      using Cons.prems False by (intro Cons.IH) simp_all
    ultimately show ?thesis using Cons.prems False by (simp add: Let_def)
  qed
qed

lemma read_body_complete:
  assumes "content_length \<le> length (body @ concat cs)" "list_all (\<lambda>c. c \<noteq> []) cs"
  shows "read_body content_length cs body = Some (take content_length (body @ concat cs))"
  using assms by (induction cs arbitrary: body) auto

abbreviation (input) CRLF :: string where "CRLF \<equiv> [CR, LF]"

section \<open>Words and lines\<close>

text \<open>Printable ASCII without blanks: the characters of methods and targets.\<close>

definition visible :: "char \<Rightarrow> bool" where
  "visible c \<longleftrightarrow> 0x21 \<le> (of_char c :: nat) \<and> of_char c \<le> (0x7E :: nat)"

definition ascii :: "char \<Rightarrow> bool" where
  "ascii c \<longleftrightarrow> (of_char c :: nat) < 0x80"

lemma chars_ascii: "list_all ascii s \<Longrightarrow> chars s = map (\<lambda>c. [c]) s"
proof (induction s)
  case (Cons c s)
  then show ?case by (cases s) (auto simp: boundary_byte_def ascii_def)
qed simp

lemma is_whitespace_visible: "visible c \<Longrightarrow> \<not> is_whitespace [c]"
  by (auto simp: is_whitespace_def visible_def ws_len_ascii)

lemma is_whitespace_space: "is_whitespace ['' '' ! 0]"
  by (simp add: is_whitespace_def ws_len_ascii)

lemma split_by_word:
  "list_all (\<lambda>x. \<not> P x) w \<Longrightarrow> split_by P (w @ x # rest) = (if P x then w # split_by P rest else split_by P (w @ x # rest))"
  by (induction w) (auto split: list.splits)

lemma split_by_last: "list_all (\<lambda>x. \<not> P x) w \<Longrightarrow> split_by P w = [w]"
  by (induction w) auto

abbreviation word_text :: "string \<Rightarrow> bool" where
  "word_text w \<equiv> w \<noteq> [] \<and> list_all visible w"

lemma split_words:
  assumes "list_all word_text ws" "ws \<noteq> []"
  shows "split_by is_whitespace (map (\<lambda>c. [c]) (join '' '' ws)) = map (map (\<lambda>c. [c])) ws"
proof -
  have vis: "list_all (\<lambda>x. \<not> is_whitespace x) (map (\<lambda>c. [c]) w)" if "list_all visible w" for w
    using that by (auto simp: list_all_iff is_whitespace_visible)
  show ?thesis using assms
  proof (induction "'' ''" ws rule: join.induct)
    case (2 s)
    then show ?case using split_by_last [OF vis [of s]] by simp
  next
    case (3 s t ss)
    then show ?case
      using split_by_word [OF vis [of s], of "[CHR '' '']"] is_whitespace_space by simp
  qed simp
qed

text \<open>Words joined by single blanks are the words read.\<close>

lemma split_whitespace_join:
  assumes "list_all word_text ws"
  shows "split_whitespace (join '' '' ws) = ws"
proof (cases "ws = []")
  case False
  have "set (join '' '' ws) \<subseteq> set '' '' \<union> (\<Union>w \<in> set ws. set w)"
    by (induction "'' ''" ws rule: join.induct) auto
  then have "list_all ascii (join '' '' ws)"
    using assms by (fastforce simp: list_all_iff visible_def ascii_def)
  moreover have "concat (map (\<lambda>c. [c]) w) = w" for w :: string by (induction w) auto
  moreover have "filter (\<lambda>w. w \<noteq> []) (map (map (\<lambda>c. [c])) ws) = map (map (\<lambda>c. [c])) ws"
    using assms by (auto simp: list_all_iff filter_id_conv)
  ultimately show ?thesis
    using split_words [OF assms False] by (simp add: split_whitespace_def chars_ascii o_def)
qed (simp add: split_whitespace_def)

lemma strip_line_crlf: "strip_line (l @ [CR, LF]) = l"
  by (simp add: strip_line_def strip_suffix_def butlast_append)

lemma first_line: "LF \<notin> set l \<Longrightarrow> text_lines (l @ CRLF @ rest) = l # text_lines rest"
  using split_inclusive_line [of LF "l @ [CR]" rest] strip_line_crlf [of l] by (simp add: text_lines_def)

lemma single_line: "LF \<notin> set l \<Longrightarrow> l \<noteq> [] \<Longrightarrow> text_lines l = [l]"
proof -
  assume l: "LF \<notin> set l" "l \<noteq> []"
  then have "split_inclusive LF l = [l]"
  proof (induction l)
    case (Cons c l)
    then show ?case by (cases l) auto
  qed simp
  moreover have "last l \<noteq> LF" using l last_in_set by metis
  then have "strip_line l = l" by (simp add: strip_line_def strip_suffix_def)
  ultimately show ?thesis by (simp add: text_lines_def)
qed

end
