(* ===== verification/File_Path.thy ===== *)
theory File_Path
  imports Http_Text
begin

text \<open>
  What the sources use of \<open>std::path\<close>: joining, the parent, the stem and the
  extension of a path.  A path is its text.
\<close>

text \<open>\<open>Path::join\<close>: an absolute second part replaces the first.\<close>

definition path_join :: "string \<Rightarrow> string \<Rightarrow> string" where
  "path_join dir file =
     (if dir = [] \<or> (file \<noteq> [] \<and> hd file = CHR ''/'') then file
      else if last dir = CHR ''/'' then dir @ file
      else dir @ ''/'' @ file)"

text \<open>
  \<open>Path::parent\<close>.  The separators and the \<open>.\<close> parts at the end of a path do not
  count; the text is walked from its end.
\<close>

function trim_back :: "string \<Rightarrow> string" where
  "trim_back r =
     (case r of
        c # d # r' \<Rightarrow>
          if c = CHR ''/'' then trim_back (d # r')
          else if c = CHR ''.'' \<and> d = CHR ''/'' then trim_back (d # r')
          else r
      | _ \<Rightarrow> r)"
  by pat_completeness auto
termination by (relation "measure length") (auto split: list.splits)

declare trim_back.simps [simp del]

definition path_parent :: "string \<Rightarrow> string option" where
  "path_parent path =
     (let r = trim_back (rev path) in
      if r = [] \<or> r = ''/'' then None
      else Some (rev (trim_back (dropWhile (\<lambda>c. c \<noteq> CHR ''/'') r))))"

text \<open>\<open>Path::file_stem\<close> and \<open>Path::extension\<close> of a file name: the parts around its last dot.\<close>

definition split_extension :: "string \<Rightarrow> string \<times> string option" where
  "split_extension f =
     (let ext = takeWhile (\<lambda>c. c \<noteq> CHR ''.'') (rev f);
          before = drop (length ext + 1) (rev f)
      in if f = ''..'' \<or> before = [] then (f, None) else (rev before, Some (rev ext)))"

definition file_stem :: "string \<Rightarrow> string" where
  "file_stem f = fst (split_extension f)"

definition extension :: "string \<Rightarrow> string option" where
  "extension f = snd (split_extension f)"

definition trim_end_dots :: "string \<Rightarrow> string" where
  "trim_end_dots s = rev (dropWhile (\<lambda>c. c = CHR ''.'') (rev s))"

lemma split_extension_join:
  assumes "stem \<noteq> []" "CHR ''.'' \<notin> set ext" "ext \<noteq> []"
  shows "split_extension (stem @ CHR ''.'' # ext) = (stem, Some ext)"
proof -
  have "takeWhile (\<lambda>c. c \<noteq> CHR ''.'') (rev ext @ CHR ''.'' # rev stem) = rev ext"
    using assms(2) by (subst takeWhile_append2) auto
  moreover have "stem @ CHR ''.'' # ext \<noteq> ''..''"
    using assms by (cases stem; cases ext) auto
  ultimately show ?thesis using assms(1) by (simp add: split_extension_def)
qed

lemma split_extension_dotfile: "CHR ''.'' \<notin> set ext \<Longrightarrow> split_extension (CHR ''.'' # ext) = (CHR ''.'' # ext, None)"
proof -
  assume "CHR ''.'' \<notin> set ext"
  then have "takeWhile (\<lambda>c. c \<noteq> CHR ''.'') (rev ext @ [CHR ''.'']) = rev ext"
    by (subst takeWhile_append2) auto
  then show ?thesis by (simp add: split_extension_def)
qed

lemma trim_end_dots_once: "s \<noteq> [] \<Longrightarrow> last s \<noteq> CHR ''.'' \<Longrightarrow> trim_end_dots (s @ ''.'') = s"
  by (cases s rule: rev_cases) (simp_all add: trim_end_dots_def)

end
