(* ===== verification/Journal_File.thy ===== *)
theory Journal_File
  imports Dns_Xfr Zone_Roundtrip File_Path
begin

text \<open>
  The copy of the change journal on disk (\<open>dns-xfr/src/lib.rs\<close>): one block of
  lines for each change, appended to a file named after the zone, and the
  reading of the files when the server starts.  A directory is the list of its
  entries, a name with the text read (\<open>None\<close> when reading fails).  The outer
  \<open>None\<close> of a result stands for a panic.
\<close>

section \<open>Writing\<close>

definition journal_path :: "string \<Rightarrow> dns_name \<Rightarrow> string" where
  "journal_path dir origin = path_join dir (trim_end_dots (display_name origin) @ ''.journal'')"

definition record_line :: "string \<Rightarrow> rr \<Rightarrow> string" where
  "record_line tag r =
     tag @ '' '' @ display_name (rr_name r) @ '' '' @ show_word (rr_ttl r) @ '' '' @ type_name (rr_rtype r) @ '' '' @
     rdata_text (rr_rdata r) @ [LF]"

definition diff_text :: "diff \<Rightarrow> string" where
  "diff_text d =
     ''DELTA '' @ show_word (df_from d) @ '' '' @ show_word (df_to d) @ [LF] @
     concat (map (record_line ''DEL'') (df_deleted d)) @ concat (map (record_line ''ADD'') (df_added d)) @ ''END'' @ [LF]"

text \<open>What \<open>Journal::record\<close> appends, and to which file.\<close>

definition journal_append :: "string option \<Rightarrow> zone \<Rightarrow> zone \<Rightarrow> (string \<times> string) option" where
  "journal_append dir old new =
     (if zone_serial old = zone_serial new then None
      else map_option (\<lambda>d. (journal_path d (z_origin new), diff_text (zone_diff old new))) dir)"

section \<open>Reading\<close>

text \<open>\<open>str::splitn\<close>.\<close>

fun splitn :: "nat \<Rightarrow> char \<Rightarrow> string \<Rightarrow> string list" where
  "splitn 0 c s = []"
| "splitn (Suc 0) c s = [s]"
| "splitn (Suc (Suc n)) c s =
     (case split_once c s of None \<Rightarrow> [s] | Some (a, b) \<Rightarrow> a # splitn (Suc n) c b)"

definition parse_record_line :: "string \<Rightarrow> dns_name \<Rightarrow> rr option option" where
  "parse_record_line rest origin =
     (case splitn 4 CHR '' '' rest of
        [n, t, rtype, content] \<Rightarrow>
          (case (parse_str n, parse_u32 t) of
             (Inr name, Some ttl) \<Rightarrow>
               (case rdata_from_text rtype content origin of
                  Inl e \<Rightarrow> if e = HexSplitsChar then None else Some None
                | Inr rd \<Rightarrow> Some (Some \<lparr>rr_name = name, rr_class = CLASS_IN, rr_ttl = ttl, rr_rdata = rd\<rparr>))
           | _ \<Rightarrow> Some None)
      | _ \<Rightarrow> Some None)"

text \<open>A \<open>DEL\<close> or \<open>ADD\<close> line: the record is parsed whether or not a change is open.\<close>

definition journal_line_record ::
  "string \<Rightarrow> dns_name \<Rightarrow> (rr \<Rightarrow> diff \<Rightarrow> diff) \<Rightarrow> diff option \<Rightarrow> diff option option" where
  "journal_line_record rest origin add cur =
     map_option (\<lambda>r. case (cur, r) of (Some d, Some x) \<Rightarrow> Some (add x d) | _ \<Rightarrow> cur) (parse_record_line rest origin)"

fun journal_lines :: "dns_name \<Rightarrow> string list \<Rightarrow> diff option \<Rightarrow> diff list \<Rightarrow> diff list option option" where
  "journal_lines origin [] cur diffs = Some (Some diffs)"
| "journal_lines origin (line # lines) cur diffs =
     (case strip_prefix ''DELTA '' line of
        Some rest \<Rightarrow>
          (case map parse_u32 (split_whitespace rest) of
             Some a # Some b # _ \<Rightarrow>
               journal_lines origin lines (Some \<lparr>df_from = a, df_to = b, df_deleted = [], df_added = []\<rparr>) diffs
           | _ \<Rightarrow> Some None)
      | None \<Rightarrow>
          (case strip_prefix ''DEL '' line of
             Some rest \<Rightarrow>
               Option.bind (journal_line_record rest origin (\<lambda>r d. d\<lparr>df_deleted := df_deleted d @ [r]\<rparr>) cur)
                 (\<lambda>cur'. journal_lines origin lines cur' diffs)
           | None \<Rightarrow>
               (case strip_prefix ''ADD '' line of
                  Some rest \<Rightarrow>
                    Option.bind (journal_line_record rest origin (\<lambda>r d. d\<lparr>df_added := df_added d @ [r]\<rparr>) cur)
                      (\<lambda>cur'. journal_lines origin lines cur' diffs)
                | None \<Rightarrow>
                    if line = ''END'' then
                      (case cur of
                         Some d \<Rightarrow> journal_lines origin lines None (diffs @ [d])
                       | None \<Rightarrow> journal_lines origin lines cur diffs)
                    else journal_lines origin lines cur diffs)))"

definition load_journal_file :: "string \<Rightarrow> string option \<Rightarrow> (dns_name \<times> diff list) option option" where
  "load_journal_file file contents =
     (case parse_str (file_stem file) of
        Inl e \<Rightarrow> Some None
      | Inr origin \<Rightarrow>
          (case contents of
             None \<Rightarrow> Some None
           | Some body \<Rightarrow>
               map_option (map_option (\<lambda>diffs. (origin, drop (length diffs - JOURNAL_DEPTH) diffs)))
                 (journal_lines origin (text_lines body) None [])))"

fun journal_load :: "(string \<times> string option) list \<Rightarrow> journal \<Rightarrow> journal option" where
  "journal_load [] j = Some j"
| "journal_load ((file, contents) # entries) j =
     (if extension file \<noteq> Some ''journal'' then journal_load entries j
      else Option.bind (load_journal_file file contents)
        (\<lambda>r. journal_load entries (case r of None \<Rightarrow> j | Some (origin, diffs) \<Rightarrow> j(origin \<mapsto> diffs))))"

text \<open>\<open>Journal::with_dir\<close>; the entries are empty when the directory cannot be read.\<close>

definition journal_with_dir :: "(string \<times> string option) list \<Rightarrow> journal option" where
  "journal_with_dir entries = journal_load entries Map.empty"

section \<open>Reading what was written\<close>

definition record_text :: "rr \<Rightarrow> string" where
  "record_text r = display_name (rr_name r) @ '' '' @ show_word (rr_ttl r) @ '' '' @ type_name (rr_rtype r) @ '' '' @
     rdata_text (rr_rdata r)"

lemma word_no_space: "list_all word_char w \<Longrightarrow> CHR '' '' \<notin> set w"
  by (auto simp: list_all_iff word_char_def)

lemma splitn_record:
  assumes "CHR '' '' \<notin> set a" "CHR '' '' \<notin> set b" "CHR '' '' \<notin> set c"
  shows "splitn 4 CHR '' '' (a @ '' '' @ b @ '' '' @ c @ '' '' @ d) = [a, b, c, d]"
proof -
  have "(4 :: nat) = Suc (Suc (Suc (Suc 0)))" by simp
  then show ?thesis using assms by (simp only: splitn.simps) (simp add: split_once_append)
qed

lemma parse_record_text:
  assumes "text_rr r" shows "parse_record_line (record_text r) origin = Some (Some r)"
proof -
  have n: "text_name (rr_name r)" "rr_class r = CLASS_IN" "text_rdata (rr_rdata r)" using assms by (simp_all add: text_rr_def)
  have "splitn 4 CHR '' '' (record_text r) =
      [display_name (rr_name r), show_word (rr_ttl r), type_name (rr_rtype r), rdata_text (rr_rdata r)]"
    unfolding record_text_def
    using word_no_space display_name_text(1) [OF n(1)] show_nat_word_char type_name_word(1) by (intro splitn_record) auto
  moreover have "parse_u32 (show_word (rr_ttl r)) = Some (rr_ttl r)" by (rule parse_word_show) simp
  ultimately show ?thesis
    using display_name_text(4) [OF n(1)] n(2) rdata_from_text_back [OF n(3), of origin]
    by (simp add: parse_record_line_def rr_rtype_def)
qed

definition diff_lines :: "diff \<Rightarrow> string list" where
  "diff_lines d = (''DELTA '' @ show_word (df_from d) @ '' '' @ show_word (df_to d)) #
     map (\<lambda>r. ''DEL '' @ record_text r) (df_deleted d) @ map (\<lambda>r. ''ADD '' @ record_text r) (df_added d) @ [''END'']"

lemma diff_text_lines: "diff_text d = unlines (diff_lines d)"
proof -
  have "map (record_line tag) rs = map (\<lambda>r. (tag @ '' '' @ record_text r) @ [LF]) rs" for tag rs
    by (simp add: record_line_def record_text_def)
  then show ?thesis by (simp only: diff_text_def unlines_def diff_lines_def map_append concat_append map_map) (simp add: o_def)
qed

lemma record_text_line:
  assumes "text_rr r" shows "LF \<notin> set (record_text r)" "last (record_text r) \<noteq> CR"
proof -
  have l: "rr_line r = display_name (rr_name r) @ '' '' @ show_word (rr_ttl r) @ '' IN '' @ type_name (rr_rtype r) @ '' '' @
      rdata_text (rr_rdata r)" by (simp add: rr_line_def)
  show "LF \<notin> set (record_text r)" using rr_line_printable(1) [OF assms] by (auto simp: l record_text_def)
  show "last (record_text r) \<noteq> CR" using rr_line_printable(2) [OF assms] by (auto simp: l record_text_def split: if_splits)
qed

abbreviation text_diff :: "diff \<Rightarrow> bool" where
  "text_diff d \<equiv> list_all text_rr (df_deleted d) \<and> list_all text_rr (df_added d)"

lemma digits_visible: "list_all visible (show_nat n)"
proof -
  have "visible (digit_char d)" if "d < 10" for d using of_char_digit [OF that] that by (simp add: visible_def)
  then show ?thesis by (induction n rule: show_nat.induct) (subst show_nat.simps, simp)
qed

lemma diff_lines_printable:
  assumes "text_diff d"
  shows "list_all (\<lambda>l. LF \<notin> set l \<and> (l = [] \<or> last l \<noteq> CR)) (diff_lines d)"
proof -
  have v: "LF \<notin> set (show_nat n)" "CR \<notin> set (show_nat n)" for n
    using digits_visible [of n] by (auto simp: list_all_iff visible_def)
  have "last (show_nat n) \<noteq> CR" for n using v(2) [of n] last_in_set [OF show_nat_not_Nil, of n] by metis
  moreover have "LF \<notin> set (''DEL '' @ record_text r) \<and> last (''DEL '' @ record_text r) \<noteq> CR"
    "LF \<notin> set (''ADD '' @ record_text r) \<and> last (''ADD '' @ record_text r) \<noteq> CR" if "text_rr r" for r
    using record_text_line [OF that] by auto
  ultimately show ?thesis using assms v by (auto simp: list_all_iff diff_lines_def)
qed

lemma journal_lines_deleted:
  "list_all text_rr rs \<Longrightarrow>
     journal_lines origin (map (\<lambda>r. ''DEL '' @ record_text r) rs @ rest) (Some d) diffs =
     journal_lines origin rest (Some (d\<lparr>df_deleted := df_deleted d @ rs\<rparr>)) diffs"
  by (induction rs arbitrary: d) (simp_all add: journal_line_record_def parse_record_text)

lemma journal_lines_added:
  "list_all text_rr rs \<Longrightarrow>
     journal_lines origin (map (\<lambda>r. ''ADD '' @ record_text r) rs @ rest) (Some d) diffs =
     journal_lines origin rest (Some (d\<lparr>df_added := df_added d @ rs\<rparr>)) diffs"
  by (induction rs arbitrary: d) (simp_all add: journal_line_record_def parse_record_text)

lemma journal_lines_diff:
  assumes "text_diff d"
  shows "journal_lines origin (diff_lines d @ rest) cur diffs = journal_lines origin rest None (diffs @ [d])"
proof -
  have "split_whitespace (show_word (df_from d) @ '' '' @ show_word (df_to d)) = [show_word (df_from d), show_word (df_to d)]"
    using split_whitespace_join [of "[show_word (df_from d), show_word (df_to d)]"] digits_visible by simp
  moreover have "parse_u32 (show_word n) = Some n" for n by (rule parse_word_show) simp
  ultimately show ?thesis
    using assms journal_lines_deleted [of "df_deleted d"] journal_lines_added [of "df_added d"]
    by (cases d) (simp add: diff_lines_def)
qed

lemma journal_lines_diffs:
  "list_all text_diff ds \<Longrightarrow>
     journal_lines origin (concat (map diff_lines ds)) None diffs = Some (Some (diffs @ ds))"
  by (induction ds arbitrary: diffs) (simp_all add: journal_lines_diff)

definition window :: "'a list \<Rightarrow> 'a list" where
  "window ds = drop (length ds - JOURNAL_DEPTH) ds"

lemma window_snoc: "window (window ds @ [d]) = window (ds @ [d])"
  unfolding window_def by (rule drop_window)

lemma zone_diff_text:
  "list_all text_rr (all_records old) \<Longrightarrow> list_all text_rr (all_records new) \<Longrightarrow> text_diff (zone_diff old new)"
  unfolding zone_diff_def list_all_iff by simp

lemma zone_stem:
  assumes "text_name n" "n \<noteq> []"
  shows "trim_end_dots (display_name n) \<noteq> []" "parse_str (trim_end_dots (display_name n)) = Inr n"
proof -
  obtain ms l where n: "n = ms @ [l]" using assms(2) by (cases n rule: rev_cases) auto
  have l: "l \<noteq> []" "list_all plain_byte l"
    using assms(1) by (auto simp: n text_name_def wf_name_def wf_label_def list_all_iff text_byte_def)
  let ?l = "concat (map display_byte l)"
  have "?l = map char_of_byte l" using l(2) by (simp add: display_plain char_of_byte_def)
  moreover have "char_of_byte (last l) \<noteq> CHR ''.''"
    using l by (auto simp: plain_byte_def list_all_iff char_of_byte_iff word_unat_eq_iff)
  ultimately have e: "?l \<noteq> []" "last ?l \<noteq> CHR ''.''" using l(1) by (simp_all add: last_map)
  let ?s = "concat (map (\<lambda>l. concat (map display_byte l) @ ''.'') ms) @ ?l"
  have d: "display_name n = ?s @ ''.''" by (simp add: display_name_def n)
  have s: "?s \<noteq> []" "last ?s \<noteq> CHR ''.''" using e by simp_all
  then have t: "trim_end_dots (display_name n) = ?s" unfolding d by (rule trim_end_dots_once)
  then show "trim_end_dots (display_name n) \<noteq> []" using s by simp
  have "strip_suffix CHR ''.'' ?s = None" using s(2) by (simp add: strip_suffix_def del: last_appendR)
  moreover have "strip_suffix CHR ''.'' (display_name n) = Some ?s" unfolding d by (rule strip_suffix_snoc)
  ultimately have "parse_str ?s = parse_str (display_name n)" by (simp add: parse_str_def Let_def)
  then show "parse_str (trim_end_dots (display_name n)) = Inr n" using display_name_text(4) [OF assms(1)] t by simp
qed

text \<open>The file of a zone, and the text a list of changes has in it.\<close>

definition zone_file :: "dns_name \<Rightarrow> string" where
  "zone_file origin = trim_end_dots (display_name origin) @ ''.journal''"

definition changes_text :: "diff list \<Rightarrow> string" where
  "changes_text ds = concat (map diff_text ds)"

lemma zone_file_eq_iff:
  assumes "text_name m" "m \<noteq> []" "text_name n" "n \<noteq> []"
  shows "zone_file m = zone_file n \<longleftrightarrow> m = n"
proof
  assume "zone_file m = zone_file n"
  then have "trim_end_dots (display_name m) = trim_end_dots (display_name n)" by (simp only: zone_file_def append_same_eq)
  then have "Inr m = parse_str (trim_end_dots (display_name n))" by (simp only: zone_stem(2) [OF assms(1,2), symmetric])
  then show "m = n" by (simp only: zone_stem(2) [OF assms(3,4)] sum.inject)
qed (rule arg_cong)

lemma load_changes_text:
  assumes "text_name origin" "origin \<noteq> []" "list_all text_diff ds"
  shows "load_journal_file (zone_file origin) (Some (changes_text ds)) = Some (Some (origin, window ds))"
    and "extension (zone_file origin) = Some ''journal''"
proof -
  let ?stem = "trim_end_dots (display_name origin)"
  have lines: "list_all (\<lambda>l. LF \<notin> set l \<and> (l = [] \<or> last l \<noteq> CR)) (concat (map diff_lines ds))"
    using assms(3) diff_lines_printable unfolding list_all_iff by fastforce
  have u: "changes_text ds = unlines (concat (map diff_lines ds))"
    by (induction ds) (simp_all add: changes_text_def diff_text_lines unlines_def)
  have e: "split_extension (?stem @ ''.journal'') = (?stem, Some ''journal'')" "parse_str ?stem = Inr origin"
    using split_extension_join [OF zone_stem(1) [OF assms(1,2)], of "''journal''"] zone_stem(2) [OF assms(1,2)] by simp_all
  show "extension (zone_file origin) = Some ''journal''" using e by (simp add: extension_def zone_file_def)
  show "load_journal_file (zone_file origin) (Some (changes_text ds)) = Some (Some (origin, window ds))"
    using e journal_lines_diffs [OF assms(3), of origin "[]"] text_lines_unlines [OF lines]
    by (simp add: load_journal_file_def file_stem_def u window_def zone_file_def)
qed

section \<open>The journal in memory beside its directory\<close>

text \<open>
  Appending to a file of the directory, which is created when it is not there,
  and a call of \<open>Journal::record\<close> with both of its effects, when the append
  succeeds.
\<close>

fun append_file :: "string \<Rightarrow> string \<Rightarrow> (string \<times> string option) list \<Rightarrow> (string \<times> string option) list" where
  "append_file f body [] = [(f, Some body)]"
| "append_file f body ((g, c) # es) =
     (if g = f then (g, map_option (\<lambda>old. old @ body) c) # es else (g, c) # append_file f body es)"

definition record_both ::
  "string \<Rightarrow> journal \<times> (string \<times> string option) list \<Rightarrow> zone \<times> zone \<Rightarrow> journal \<times> (string \<times> string option) list" where
  "record_both dir s c =
     (case (s, c) of ((j, es), (old, new)) \<Rightarrow>
        (journal_record old new j,
         case journal_append (Some dir) old new of
           None \<Rightarrow> es
         | Some (path, body) \<Rightarrow> append_file (zone_file (z_origin new)) body es))"

text \<open>The zones with a file, in the order of their first change, and all the changes of each.\<close>

definition dir_entry :: "(dns_name \<Rightarrow> diff list) \<Rightarrow> dns_name \<Rightarrow> string \<times> string option" where
  "dir_entry ds n = (zone_file n, Some (changes_text (ds n)))"

definition journal_inv :: "dns_name list \<Rightarrow> (dns_name \<Rightarrow> diff list) \<Rightarrow> journal \<times> (string \<times> string option) list \<Rightarrow> bool" where
  "journal_inv ns ds s \<longleftrightarrow>
     distinct ns \<and> list_all (\<lambda>n. text_name n \<and> n \<noteq> [] \<and> list_all text_diff (ds n)) ns \<and>
     fst s = (\<lambda>n. if n \<in> set ns then Some (window (ds n)) else None) \<and> snd s = map (dir_entry ds) ns"

lemma append_file_new: "f \<notin> fst ` set es \<Longrightarrow> append_file f body es = es @ [(f, Some body)]"
  by (induction es) auto

lemma append_file_old:
  assumes "distinct ns" "n \<in> set ns" "list_all (\<lambda>n. text_name n \<and> n \<noteq> []) ns"
  shows "append_file (zone_file n) (diff_text d) (map (dir_entry ds) ns) = map (dir_entry (ds(n := ds n @ [d]))) ns"
  using assms
proof (induction ns)
  case (Cons m ns)
  have w: "text_name m" "m \<noteq> []" "text_name n" "n \<noteq> []" using Cons.prems by (auto simp: list_all_iff)
  have other: "dir_entry (ds(n := ds n @ [d])) k = dir_entry ds k" if "k \<noteq> n" for k using that by (simp add: dir_entry_def)
  show ?case
  proof (cases "m = n")
    case True
    moreover have "map (dir_entry (ds(n := ds n @ [d]))) ns = map (dir_entry ds) ns" using Cons.prems True by (auto intro!: other)
    ultimately show ?thesis by (simp add: dir_entry_def changes_text_def)
  next
    case False
    then have "zone_file m \<noteq> zone_file n" using zone_file_eq_iff [OF w] by blast
    then show ?thesis using Cons False other [OF False] by (simp add: dir_entry_def)
  qed
qed simp

lemma journal_load_entries:
  assumes "list_all (\<lambda>n. text_name n \<and> n \<noteq> [] \<and> list_all text_diff (ds n)) ns"
  shows "journal_load (map (dir_entry ds) ns) j = Some (\<lambda>n. if n \<in> set ns then Some (window (ds n)) else j n)"
  using assms
proof (induction ns arbitrary: j)
  case (Cons n ns)
  then have w: "text_name n" "n \<noteq> []" "list_all text_diff (ds n)" by simp_all
  show ?case using Cons load_changes_text [OF w] by (auto simp: dir_entry_def)
qed simp

lemma record_both_inv:
  assumes "journal_inv ns ds s" "text_name (z_origin new)" "z_origin new \<noteq> []"
    and "list_all text_rr (all_records old)" "list_all text_rr (all_records new)"
  shows "\<exists>ns' ds'. journal_inv ns' ds' (record_both dir s (old, new))"
proof (cases "zone_serial old = zone_serial new")
  case True
  then have "record_both dir s (old, new) = s"
    by (cases s) (simp add: record_both_def journal_record_def journal_append_def)
  then show ?thesis using assms(1) by auto
next
  case False
  let ?n = "z_origin new" and ?d = "zone_diff old new"
  obtain j es where s: "s = (j, es)" by (cases s)
  have inv: "distinct ns" "list_all (\<lambda>n. text_name n \<and> n \<noteq> [] \<and> list_all text_diff (ds n)) ns"
    "j = (\<lambda>n. if n \<in> set ns then Some (window (ds n)) else None)" "es = map (dir_entry ds) ns"
    using assms(1) by (auto simp: journal_inv_def s)
  have r: "record_both dir s (old, new) =
      (j(?n \<mapsto> window ((case j ?n of Some l \<Rightarrow> l | None \<Rightarrow> []) @ [?d])), append_file (zone_file ?n) (diff_text ?d) es)"
    using False by (simp add: s record_both_def journal_record_def journal_append_def Let_def window_def)
  have d: "text_diff ?d" using assms(4,5) by (rule zone_diff_text)
  show ?thesis
  proof (cases "?n \<in> set ns")
    case True
    have "list_all (\<lambda>n. text_name n \<and> n \<noteq> []) ns" using inv(2) by (simp add: list_all_iff)
    then have "snd (record_both dir s (old, new)) = map (dir_entry (ds(?n := ds ?n @ [?d]))) ns"
      using append_file_old [OF inv(1) True] by (simp add: r inv(4))
    moreover have "fst (record_both dir s (old, new)) = (\<lambda>n. if n \<in> set ns then Some (window ((ds(?n := ds ?n @ [?d])) n)) else None)"
      using True by (auto simp: r inv(3) window_snoc)
    ultimately have "journal_inv ns (ds(?n := ds ?n @ [?d])) (record_both dir s (old, new))"
      using inv(1,2) d by (auto simp: journal_inv_def list_all_iff)
    then show ?thesis by blast
  next
    case New: False
    have "zone_file m \<noteq> zone_file ?n" if "m \<in> set ns" for m
      using zone_file_eq_iff [of m ?n] inv(2) New that assms(2,3) by (auto simp only: list_all_iff)
    then have "zone_file ?n \<notin> fst ` set es" by (fastforce simp: inv(4) dir_entry_def)
    moreover have "map (dir_entry (ds(?n := [?d]))) ns = es"
      unfolding inv(4) using New by (intro map_cong) (auto simp: dir_entry_def)
    ultimately have "snd (record_both dir s (old, new)) = map (dir_entry (ds(?n := [?d]))) (ns @ [?n])"
      by (simp add: r append_file_new dir_entry_def changes_text_def)
    moreover have "fst (record_both dir s (old, new)) =
        (\<lambda>n. if n \<in> set (ns @ [?n]) then Some (window ((ds(?n := [?d])) n)) else None)"
      using New by (auto simp: r inv(3))
    ultimately have "journal_inv (ns @ [?n]) (ds(?n := [?d])) (record_both dir s (old, new))"
      using inv(1,2) d assms(2,3) New by (auto simp: journal_inv_def list_all_iff)
    then show ?thesis by blast
  qed
qed

lemma record_all_inv:
  assumes "journal_inv ns ds s"
    and "list_all (\<lambda>(old, new). text_name (z_origin new) \<and> z_origin new \<noteq> [] \<and>
      list_all text_rr (all_records old) \<and> list_all text_rr (all_records new)) cs"
  shows "\<exists>ns' ds'. journal_inv ns' ds' (foldl (record_both dir) s cs)"
  using assms
proof (induction cs arbitrary: ns ds s)
  case (Cons c cs)
  then obtain ns' ds' where "journal_inv ns' ds' (record_both dir s c)"
    using record_both_inv [OF Cons.prems(1)] by (cases c) (fastforce simp: list_all_iff)
  then show ?case using Cons.IH Cons.prems(2) by simp
qed auto

section \<open>Properties\<close>



text \<open>
  The journal of the root zone is not read back: its file is called
  \<open>.journal\<close>, a name without an extension.
\<close>
theorem root_journal_lost:
  "journal_path dir root = path_join dir ''.journal'' \<and> journal_with_dir [(''.journal'', contents)] = Some Map.empty"
proof -
  have "extension ''.journal'' = None" using split_extension_dotfile [of "''journal''"] by (simp add: extension_def)
  then show ?thesis by (simp add: journal_path_def root_def display_name_def trim_end_dots_def journal_with_dir_def)
qed

end
