(* ===== verification/Server.thy ===== *)
theory Server
  imports Resolver Journal_File
begin

unbundle bit_operations_syntax

text \<open>
  The transports of the server (\<open>rdns/src/server.rs\<close>): the worker for one UDP
  datagram, framed streams (TCP and DNS-over-TLS), DNS-over-QUIC streams, zone
  transfers out, dynamic updates and cookies.  Sockets are replaced by their
  bytes; what a handler does besides its reply is a list of effects.  The
  metrics of the server are those of its resolver (\<open>main.rs\<close> shares one
  object).  \<open>None\<close> stands for a panic.
\<close>

section \<open>State\<close>

record update_ctx =
  up_acl :: acl
  up_require_tsig :: "dns_name option"
  up_zone_dir :: "string option"
  up_notify_targets :: "socket_addr list"
  up_dnssec :: "(dnssec_key list \<times> dns_name list \<times> u64 \<times> nsec3_params option) option"

record server_ctx =
  sc_resolver :: resolver
  sc_acl :: acl
  sc_limiter :: "rate_limiter option"
  sc_query_log :: bool
  sc_transfer_acl :: acl
  sc_secondaries :: "dns_name list"
  sc_journal :: journal
  sc_journal_dir :: "string option"
  sc_tsig_keys :: key_ring
  sc_require_tsig :: "dns_name option"
  sc_updates :: "update_ctx option"
  sc_cookie_key :: "cookie_key option"
  sc_require_cookie :: bool

text \<open>
  The code outside the repository that the server calls, and its clocks:
  seconds since 1970, and the nanosecond clock in \<open>ho_outside\<close>.  \<open>ho_elapsed\<close>
  is the handling time observed, in microseconds; \<open>ho_others\<close> are the other
  tasks while a lookup waits.
\<close>

record host =
  ho_crypto :: crypto
  ho_sign :: hmac_sign
  ho_check :: hmac_check
  ho_sip :: sip_hash
  ho_rnd :: "real \<Rightarrow> real"
  ho_version :: string
  ho_unix_now :: u64
  ho_outside :: outside
  ho_others :: "nat \<Rightarrow> resolver \<Rightarrow> resolver"
  ho_elapsed :: nat

datatype effect =
    Kick_secondary dns_name
  | Write_file string string
  | Append_file string string
  | Remove_file string
  | Send_notify socket_addr dns_name
  | Log_query string ip_addr message message

definition sv_count :: "counter \<Rightarrow> server_ctx \<Rightarrow> server_ctx" where
  "sv_count c sv = sv\<lparr>sc_resolver := tick c (sc_resolver sv)\<rparr>"

section \<open>Parts of a reply\<close>

definition formerr_reply :: "bytes \<Rightarrow> bytes option" where
  "formerr_reply data =
     (if length data < 2 then None
      else Some (message_encode (message_new (from_be16 (data ! 0) (data ! 1))
             (flags_default\<lparr>fl_qr := True, fl_rcode := RCODE_FORMERR\<rparr>))))"

definition attach_cookie :: "host \<Rightarrow> server_ctx \<Rightarrow> message \<Rightarrow> message \<Rightarrow> ip_addr \<Rightarrow> message" where
  "attach_cookie ho sv resp query ip =
     (case (sc_cookie_key sv, m_edns query) of
        (Some key, Some qedns) \<Rightarrow>
          (case Option.bind (get_option qedns EDNS_COOKIE) client_cookie of
             None \<Rightarrow> resp
           | Some client \<Rightarrow>
               let opt = cookie_build (ho_sip ho) key client ip (ucast (ho_unix_now ho));
                   e = (case m_edns resp of Some e \<Rightarrow> e | None \<Rightarrow> edns_ours)
               in resp\<lparr>m_edns := Some (set_option e EDNS_COOKIE opt)\<rparr>)
      | _ \<Rightarrow> resp)"

definition cookie_challenge :: "host \<Rightarrow> server_ctx \<Rightarrow> message \<Rightarrow> ip_addr \<Rightarrow> message option" where
  "cookie_challenge ho sv query ip =
     (if \<not> sc_require_cookie sv then None
      else case sc_cookie_key sv of
        None \<Rightarrow> None
      | Some key \<Rightarrow>
          let cookie = (case Option.bind (m_edns query) (\<lambda>e. get_option e EDNS_COOKIE) of Some c \<Rightarrow> c | None \<Rightarrow> []);
              now = ucast (ho_unix_now ho)
          in if cookie_verify (ho_sip ho) key cookie ip now \<in> {Valid, Stale} then None
             else
               let resp = set_rcode (23 AND 0x0F) (response_to query);
                   e = (case m_edns resp of Some e \<Rightarrow> e | None \<Rightarrow> edns_ours)\<lparr>ed_ext_rcode := drop_bit 4 23\<rparr>;
                   e' = (case client_cookie cookie of
                           None \<Rightarrow> e
                         | Some client \<Rightarrow> set_option e EDNS_COOKIE (cookie_build (ho_sip ho) key client ip now))
               in Some (resp\<lparr>m_edns := Some e'\<rparr>))"

definition is_dnssec :: "u16 \<Rightarrow> bool" where
  "is_dnssec t \<longleftrightarrow> t \<in> {TYPE_RRSIG, TYPE_NSEC, TYPE_NSEC3, TYPE_NSEC3PARAM, TYPE_DNSKEY, TYPE_DS}"

definition strip_dnssec_unless_do :: "message \<Rightarrow> message \<Rightarrow> message" where
  "strip_dnssec_unless_do resp query =
     (if (case m_edns query of Some e \<Rightarrow> ed_do_bit e | None \<Rightarrow> False) then resp
      else
        let qtype = (case m_questions query of [] \<Rightarrow> None | q # _ \<Rightarrow> Some (q_type q)) in
        resp\<lparr>m_answers := filter (\<lambda>r. \<not> is_dnssec (rr_rtype r) \<or> Some (rr_rtype r) = qtype) (m_answers resp),
             m_authorities := filter (\<lambda>r. \<not> is_dnssec (rr_rtype r)) (m_authorities resp),
             m_additionals := filter (\<lambda>r. \<not> is_dnssec (rr_rtype r)) (m_additionals resp)\<rparr>)"

definition observe :: "host \<Rightarrow> string \<Rightarrow> ip_addr \<Rightarrow> message \<Rightarrow> message \<Rightarrow> server_ctx \<Rightarrow> server_ctx \<times> effect list" where
  "observe ho proto peer query resp sv =
     (let rv = sc_resolver sv;
          mt = observe_latency (ho_elapsed ho) (observe_rcode (fl_rcode (m_flags resp)) (rv_metrics rv))
      in (sv\<lparr>sc_resolver := rv\<lparr>rv_metrics := mt\<rparr>\<rparr>,
          if \<not> sc_query_log sv \<or> m_questions query = [] then [] else [Log_query proto peer query resp]))"

definition udp_limit :: "message \<Rightarrow> nat" where
  "udp_limit query =
     (case m_edns query of Some e \<Rightarrow> min (max (unat (ed_udp_payload e)) 512) 4096 | None \<Rightarrow> 512)"

definition finish_udp ::
  "host \<Rightarrow> ip_addr \<Rightarrow> message \<Rightarrow> message \<Rightarrow> server_ctx \<Rightarrow> bytes \<times> server_ctx \<times> effect list" where
  "finish_udp ho peer query resp sv =
     (let resp1 = attach_cookie ho sv (strip_dnssec_unless_do resp query) query peer;
          wire = encode_limited resp1 (udp_limit query)
      in (wire, observe ho ''udp'' peer query resp1 sv))"

section \<open>Zone transfers\<close>

definition frame_reply :: "bytes \<Rightarrow> bytes list" where
  "frame_reply wire = [frame_one wire]"

definition is_transfer :: "message \<Rightarrow> bool" where
  "is_transfer query \<longleftrightarrow> fl_opcode (m_flags query) = 0 \<and>
     (case m_questions query of [q] \<Rightarrow> q_type q = TYPE_AXFR \<or> q_type q = TYPE_IXFR | _ \<Rightarrow> False)"

text \<open>The key name of a request against the one required.\<close>

definition signer_is :: "message \<Rightarrow> dns_name option \<Rightarrow> bool" where
  "signer_is query required \<longleftrightarrow>
     (case required of None \<Rightarrow> True | Some n \<Rightarrow> map_option ts_key_name (m_tsig query) = Some n)"

definition verify_transfer_tsig :: "host \<Rightarrow> server_ctx \<Rightarrow> message \<Rightarrow> bytes \<Rightarrow> (byte + bytes option) option" where
  "verify_transfer_tsig ho sv query raw =
     (if m_tsig query = None then
        Some (if sc_require_tsig sv \<noteq> None then Inl RCODE_NOTAUTH else Inr None)
      else
        (case tsig_verify (ho_check ho) query raw (sc_tsig_keys sv) (ho_unix_now ho) None of
           None \<Rightarrow> None
         | Some (Inl e) \<Rightarrow> Some (Inl RCODE_NOTAUTH)
         | Some (Inr mac) \<Rightarrow>
             Some (if signer_is query (sc_require_tsig sv) then Inr (Some mac) else Inl RCODE_NOTAUTH)))"

fun sign_frames :: "hmac_sign \<Rightarrow> tsig_key \<Rightarrow> u64 \<Rightarrow> bytes \<Rightarrow> bytes list \<Rightarrow> bytes list" where
  "sign_frames sign key now prior [] = []"
| "sign_frames sign key now prior (frame # frames) =
     (case message_parse (drop 2 frame) of
        Inl e \<Rightarrow> frame # sign_frames sign key now prior frames
      | Inr msg \<Rightarrow>
          let signed_wire = sign_response sign msg key prior now;
              prior' = (case message_parse signed_wire of
                          Inl e \<Rightarrow> prior
                        | Inr parsed \<Rightarrow> (case m_tsig parsed of None \<Rightarrow> prior | Some t \<Rightarrow> ts_mac t))
          in frame_one signed_wire # sign_frames sign key now prior' frames)"

definition sign_transfer_frames ::
  "host \<Rightarrow> server_ctx \<Rightarrow> message \<Rightarrow> bytes list \<Rightarrow> bytes \<Rightarrow> bytes list" where
  "sign_transfer_frames ho sv query frames request_mac =
     (case Option.bind (m_tsig query) (\<lambda>t. sc_tsig_keys sv (ts_key_name t)) of
        None \<Rightarrow> frames
      | Some key \<Rightarrow> sign_frames (ho_sign ho) key (ho_unix_now ho) request_mac frames)"

fun soa_serial_in :: "rr list \<Rightarrow> u32 option" where
  "soa_serial_in [] = None"
| "soa_serial_in (r # rs) = (case rr_rdata r of RD_Soa s \<Rightarrow> Some (soa_serial s) | _ \<Rightarrow> soa_serial_in rs)"

definition transfer_refuse :: "message \<Rightarrow> byte \<Rightarrow> bytes list" where
  "transfer_refuse query rcode = frame_reply (message_encode (set_rcode rcode (response_to query)))"

definition transfer_frames :: "server_ctx \<Rightarrow> zone \<Rightarrow> message \<Rightarrow> u16 \<Rightarrow> bytes list" where
  "transfer_frames sv z query qtype =
     (if qtype = TYPE_IXFR
      then ixfr_messages z query (case soa_serial_in (m_authorities query) of Some s \<Rightarrow> s | None \<Rightarrow> 0) (sc_journal sv)
      else axfr_messages z query)"

definition transfer_out ::
  "host \<Rightarrow> ip_addr \<Rightarrow> message \<Rightarrow> bytes \<Rightarrow> server_ctx \<Rightarrow> (bytes list \<times> server_ctx) option" where
  "transfer_out ho peer query raw sv =
     (if \<not> is_allowed (sc_transfer_acl sv) peer then Some (transfer_refuse query RCODE_REFUSED, sv)
      else
        (case verify_transfer_tsig ho sv query raw of
           None \<Rightarrow> None
         | Some (Inl rcode) \<Rightarrow> Some (transfer_refuse query rcode, sv)
         | Some (Inr request_mac) \<Rightarrow>
             (case m_questions query of
                [] \<Rightarrow> None
              | q # _ \<Rightarrow>
                  (case find (\<lambda>z. z_origin z = q_name q) (rv_zones (sc_resolver sv)) of
                     None \<Rightarrow> Some (transfer_refuse query RCODE_NOTIMP, sv)
                   | Some z \<Rightarrow>
                       let frames = transfer_frames sv z query (q_type q) in
                       Some (case request_mac of
                               Some mac \<Rightarrow> sign_transfer_frames ho sv query frames mac
                             | None \<Rightarrow> frames,
                             sv_count Axfr_out sv)))))"

section \<open>Dynamic updates\<close>

text \<open>The gate of an update: the networks and, when configured or present, the signature.\<close>

definition update_denied :: "host \<Rightarrow> update_ctx \<Rightarrow> server_ctx \<Rightarrow> message \<Rightarrow> bytes \<Rightarrow> bool option" where
  "update_denied ho up sv query raw =
     (if up_require_tsig up \<noteq> None \<or> m_tsig query \<noteq> None then
        (case tsig_verify (ho_check ho) query raw (sc_tsig_keys sv) (ho_unix_now ho) None of
           None \<Rightarrow> None
         | Some (Inl e) \<Rightarrow> Some True
         | Some (Inr mac) \<Rightarrow> Some (\<not> signer_is query (up_require_tsig up)))
      else Some False)"

definition zone_path :: "string \<Rightarrow> dns_name \<Rightarrow> string" where
  "zone_path dir origin = path_join dir (trim_end_dots (display_name origin) @ ''.zone'')"

text \<open>The lines of the change that \<open>Journal::record\<close> adds to the file of the zone.\<close>

definition journal_effects :: "server_ctx \<Rightarrow> zone \<Rightarrow> zone \<Rightarrow> effect list" where
  "journal_effects sv old new =
     (case journal_append (sc_journal_dir sv) old new of None \<Rightarrow> [] | Some (path, block) \<Rightarrow> [Append_file path block])"

definition resign_after ::
  "host \<Rightarrow> update_ctx \<Rightarrow> dns_name \<Rightarrow> resolver \<Rightarrow> resolver option" where
  "resign_after ho up origin rv =
     (case up_dnssec up of
        None \<Rightarrow> Some rv
      | Some (keys, origins, validity, nsec3) \<Rightarrow>
          if origin \<in> set origins then resign (ho_crypto ho) keys origins (ho_unix_now ho) validity nsec3 rv
          else Some rv)"

definition commit_update ::
  "host \<Rightarrow> update_ctx \<Rightarrow> zone \<Rightarrow> zone \<Rightarrow> server_ctx \<Rightarrow> (server_ctx \<times> effect list) option" where
  "commit_update ho up old new sv =
     (let sv1 = sv\<lparr>sc_journal := journal_record old new (sc_journal sv)\<rparr>;
          rv = tick Zone_reloads (upsert_zone new (sc_resolver sv1))
      in map_option (\<lambda>rv'. (sv1\<lparr>sc_resolver := rv'\<rparr>,
             journal_effects sv old new @
             (case up_zone_dir up of
                None \<Rightarrow> [] | Some dir \<Rightarrow> [Write_file (zone_path dir (z_origin new)) (to_zonefile new)]) @
             map (\<lambda>target. Send_notify target (z_origin new)) (up_notify_targets up)))
           (resign_after ho up (z_origin new) rv))"

definition handle_update ::
  "host \<Rightarrow> ip_addr \<Rightarrow> message \<Rightarrow> bytes \<Rightarrow> server_ctx \<Rightarrow> (message \<times> server_ctx \<times> effect list) option" where
  "handle_update ho peer query raw sv =
     (let resp = (let r = response_to query in r\<lparr>m_flags := (m_flags r)\<lparr>fl_opcode := OPCODE_UPDATE\<rparr>\<rparr>);
          fail = (\<lambda>rcode. Some (set_rcode rcode resp, sv, []))
      in case sc_updates sv of
           None \<Rightarrow> fail RCODE_REFUSED
         | Some up \<Rightarrow>
             if \<not> is_allowed (up_acl up) peer then fail RCODE_REFUSED
             else
               (case update_denied ho up sv query raw of
                  None \<Rightarrow> None
                | Some True \<Rightarrow> fail RCODE_NOTAUTH
                | Some False \<Rightarrow>
                    (case m_questions query of
                       [] \<Rightarrow> fail RCODE_FORMERR
                     | zone_q # _ \<Rightarrow>
                         (case find (\<lambda>z. z_origin z = q_name zone_q) (rv_zones (sc_resolver sv)) of
                            None \<Rightarrow> fail RCODE_NOTAUTH
                          | Some old \<Rightarrow>
                              let (new, rcode) = apply_update (m_answers query) (m_authorities query) old in
                              if rcode \<noteq> RCODE_NOERROR then fail rcode
                              else map_option (\<lambda>(sv', effs). (resp, sv', effs)) (commit_update ho up old (bump_serial new) sv)))))"

section \<open>One query\<close>

text \<open>
  \<open>handle_query_bytes\<close>: TCP, TLS, HTTPS and QUIC share it.
\<close>

definition handle_query_bytes ::
  "host \<Rightarrow> bytes \<Rightarrow> ip_addr \<Rightarrow> string \<Rightarrow> server_ctx \<Rightarrow> (bytes \<times> server_ctx \<times> effect list) option" where
  "handle_query_bytes ho data peer proto sv =
     (case message_parse data of
        Inl e \<Rightarrow> Some (case formerr_reply data of Some w \<Rightarrow> w | None \<Rightarrow> [], sv, [])
      | Inr query \<Rightarrow>
          map_option (\<lambda>(resp, rv).
            let sv1 = sv\<lparr>sc_resolver := rv\<rparr>;
                resp1 = attach_cookie ho sv1 (strip_dnssec_unless_do resp query) query peer;
                (sv2, effs) = observe ho proto peer query resp1 sv1
            in (encode_limited resp1 65535, sv2, effs))
          (resolver_handle (ho_crypto ho) (ho_version ho) (ho_outside ho) (ho_others ho) query
             (is_allowed (sc_acl sv) peer) peer (sc_resolver sv)))"

text \<open>The rate limiter in front of a handler.\<close>

definition limited :: "host \<Rightarrow> ip_addr \<Rightarrow> server_ctx \<Rightarrow> bool \<times> server_ctx" where
  "limited ho peer sv =
     (case sc_limiter sv of
        None \<Rightarrow> (False, sv)
      | Some rl \<Rightarrow>
          (case allow (ho_rnd ho) rl peer (ou_now (ho_outside ho)) of
             (rl', ok) \<Rightarrow>
               let sv1 = sv\<lparr>sc_limiter := Some rl'\<rparr> in
               (\<not> ok, if ok then sv1 else sv_count Rate_limited sv1)))"

definition handle_notify :: "message \<Rightarrow> server_ctx \<Rightarrow> message \<times> server_ctx \<times> effect list" where
  "handle_notify query sv =
     (let r = response_to query;
          resp = r\<lparr>m_flags := (m_flags r)\<lparr>fl_opcode := OPCODE_NOTIFY, fl_aa := True\<rparr>\<rparr>;
          sv1 = sv_count Notify_received sv
      in case m_questions query of
           q # _ \<Rightarrow>
             if q_name q \<in> set (sc_secondaries sv) then (resp, sv1, [Kick_secondary (q_name q)])
             else (set_rcode RCODE_REFUSED resp, sv1, [])
         | [] \<Rightarrow> (set_rcode RCODE_REFUSED resp, sv1, []))"

text \<open>The body of the UDP loop behind the parse.\<close>

definition udp_query ::
  "host \<Rightarrow> ip_addr \<Rightarrow> message \<Rightarrow> bytes \<Rightarrow> server_ctx \<Rightarrow> (bytes \<times> server_ctx \<times> effect list) option" where
  "udp_query ho peer query raw sv =
     (if fl_opcode (m_flags query) = OPCODE_NOTIFY then
        Some (case handle_notify query sv of (resp, rest) \<Rightarrow> (message_encode resp, rest))
      else if fl_opcode (m_flags query) = OPCODE_UPDATE then
        map_option (\<lambda>(resp, rest). (message_encode resp, rest)) (handle_update ho peer query raw sv)
      else case cookie_challenge ho sv query peer of
        Some resp \<Rightarrow> Some (message_encode resp, sv, [])
      | None \<Rightarrow>
          (case resolve_local (ho_crypto ho) (ho_version ho) query (is_allowed (sc_acl sv) peer) peer
              (ou_now (ho_outside ho)) (sc_resolver sv) of
             None \<Rightarrow> None
           | Some (Done resp, rv) \<Rightarrow> Some (finish_udp ho peer query resp (sv\<lparr>sc_resolver := rv\<rparr>))
           | Some (Pending p, rv) \<Rightarrow>
               (case resolve_pending (ho_crypto ho) (ho_outside ho) (ho_others ho) p rv of
                  (resp, rv') \<Rightarrow> Some (finish_udp ho peer query resp (sv\<lparr>sc_resolver := rv'\<rparr>)))))"

text \<open>One turn of the UDP loop, on a datagram of at most 4096 bytes.\<close>

definition udp_step ::
  "host \<Rightarrow> ip_addr \<Rightarrow> bytes \<Rightarrow> server_ctx \<Rightarrow> (bytes option \<times> server_ctx \<times> effect list) option" where
  "udp_step ho peer datagram sv =
     (let buf = take 4096 datagram;
          (drop_it, sv1) = limited ho peer (sv_count Queries_udp sv)
      in if drop_it then Some (None, sv1, [])
         else case message_parse buf of
           Inl e \<Rightarrow>
             (case formerr_reply buf of
                None \<Rightarrow> Some (None, sv1, [])
              | Some reply \<Rightarrow>
                  Some (Some reply,
                    sv1\<lparr>sc_resolver := (sc_resolver sv1)\<lparr>rv_metrics := observe_rcode RCODE_FORMERR (rv_metrics (sc_resolver sv1))\<rparr>\<rparr>,
                    []))
         | Inr query \<Rightarrow> map_option (\<lambda>(wire, rest). (Some wire, rest)) (udp_query ho peer query buf sv1))"

text \<open>One message of a stream.\<close>

definition stream_message ::
  "host \<Rightarrow> ip_addr \<Rightarrow> string \<Rightarrow> bytes \<Rightarrow> server_ctx \<Rightarrow> (bytes \<times> server_ctx \<times> effect list) option" where
  "stream_message ho peer proto data sv =
     (let plain = map_option (\<lambda>(reply, rest). (frame_one reply, rest)) (handle_query_bytes ho data peer proto sv) in
      case message_parse data of
        Inl e \<Rightarrow> plain
      | Inr query \<Rightarrow>
          if is_transfer query then
            map_option (\<lambda>(frames, sv'). (concat frames, sv', [])) (transfer_out ho peer query data sv)
          else if fl_opcode (m_flags query) = OPCODE_UPDATE then
            map_option (\<lambda>(resp, rest). (frame_one (message_encode resp), rest)) (handle_update ho peer query data sv)
          else plain)"

text \<open>
  The loop over a stream, as a function of all the bytes the client sends: the
  end of the stream stands for a close and both timeouts.
\<close>

function serve_stream ::
  "host \<Rightarrow> ip_addr \<Rightarrow> string \<Rightarrow> bytes \<Rightarrow> server_ctx \<Rightarrow> (bytes \<times> server_ctx \<times> effect list) option" where
  "serve_stream ho peer proto stream sv =
     (case read_frame stream of
        None \<Rightarrow> Some ([], sv, [])
      | Some (data, rest) \<Rightarrow>
          if data = [] then Some ([], sv, [])
          else
            let (close, sv1) = limited ho peer (sv_count Queries_tcp sv) in
            if close then Some ([], sv1, [])
            else
              (case stream_message ho peer proto data sv1 of
                 None \<Rightarrow> None
               | Some (out, sv2, effs) \<Rightarrow>
                   map_option (\<lambda>(out', sv3, effs'). (out @ out', sv3, effs @ effs'))
                     (serve_stream ho peer proto rest sv2)))"
  by pat_completeness auto
termination
  by (relation "measure (\<lambda>(ho, peer, proto, stream, sv). length stream)") (auto dest: read_frame_shorter)

declare serve_stream.simps [simp del]

text \<open>One stream of a QUIC connection, on the bytes read to its end; \<open>None\<close> when nothing is sent.\<close>

definition serve_doq_stream ::
  "host \<Rightarrow> ip_addr \<Rightarrow> bytes \<Rightarrow> server_ctx \<Rightarrow> (bytes option \<times> server_ctx \<times> effect list) option" where
  "serve_doq_stream ho peer data sv =
     (if length data < 2 \<or> length data > 65535 then Some (None, sv, [])
      else
        let len = unat (from_be16 (data ! 0) (data ! 1));
            body = (case get_range data 2 (2 + len) of Some b \<Rightarrow> b | None \<Rightarrow> drop 2 data)
        in map_option (\<lambda>(reply, rest). (Some (frame_one reply), rest))
             (handle_query_bytes ho body peer ''doq'' (sv_count Queries_tcp sv)))"

end
