(* ===== verification/Server_Transfer.thy ===== *)
theory Server_Transfer
  imports Server
begin

text \<open>
  Zone transfers from the server of one instance to the client of another:
  what the stream loop writes in answer to a request, signed or not, is what
  \<open>axfr_pull\<close> turns back into the zone.
\<close>

section \<open>Sizes of signed messages\<close>

lemma length_encode_with_tsig:
  "length (encode_with_tsig m t) = length (message_encode m) + length (tsig_bytes t)"
proof -
  obtain rest where m: "message_encode m = header_front m @ to_be16 (word_of_nat (arcount m)) @ rest"
    by (rule message_encode_sections [where m = m]) (simp add: header_split)
  show ?thesis
    by (simp add: encode_with_tsig_def tsig_encode_rr_bytes m nth_append to_be16_def Let_def copy_from_slice_def)
qed

lemma length_tsig_bytes:
  assumes "wf_name (tk_name key)" "length mac \<le> 64"
  shows "length (tsig_bytes ((make_tsig key now i e)\<lparr>ts_mac := mac\<rparr>)) < 1024"
proof -
  have "length (fst (name_bytes (tk_name key) 0 None)) \<le> 255"
    using length_name_bytes [of "tk_name key" 0 None] assms(1) by (auto simp: wf_name_def)
  then show ?thesis
    using assms(2) alg_name_ok(3) [of "tk_algorithm key"]
    by (simp add: tsig_bytes_def tsig_rdata_def make_tsig_def to_be16_def to_be32_def to_be48_def)
qed

lemma length_xfr_query: "wf_name origin \<Longrightarrow> length (message_encode (xfr_query i origin t)) \<le> 512"
proof -
  assume "wf_name origin"
  then have "length (fst (name_bytes origin p c)) \<le> 255" for p c
    using length_name_bytes [of origin p c] by (simp add: wf_name_def)
  from this [of 12 "Some new_compressor"] show ?thesis
    by (simp add: message_encode_def xfr_query_def message_new_def question_encode_def to_wire_with_bytes)
qed

section \<open>Signed transfers\<close>

text \<open>The signed messages of a transfer, as bytes and as parsed.\<close>

fun signed_chain :: "hmac_sign \<Rightarrow> tsig_key \<Rightarrow> u64 \<Rightarrow> bytes \<Rightarrow> message list \<Rightarrow> (bytes \<times> message) list" where
  "signed_chain sign key now prior [] = []"
| "signed_chain sign key now prior (m # ms) =
     (let t = make_tsig key now (m_id m) 0;
          mac = compute_mac sign key (message_encode m) t (Some prior)
      in (encode_with_tsig m (t\<lparr>ts_mac := mac\<rparr>),
          m\<lparr>m_tsig := Some (t\<lparr>ts_mac := mac\<rparr>), m_tsig_start := Some (length (message_encode m))\<rparr>) #
         signed_chain sign key now mac ms)"

lemma transfer_acceptedI:
  "length w < 65536 \<Longrightarrow> message_parse w = Inr m \<Longrightarrow> m_id m = qid \<Longrightarrow> fl_qr (m_flags m) \<Longrightarrow> fl_rcode (m_flags m) = 0 \<Longrightarrow>
   m_answers m \<noteq> [] \<Longrightarrow> chain_mac check key keyring (clock k) prior m w = Some (Inr mac) \<Longrightarrow>
   transfer_accepted check key keyring clock qid (k + 1) mac ws ms \<Longrightarrow>
   transfer_accepted check key keyring clock qid k prior (w # ws) (m # ms)"
  by auto

text \<open>What the two ends of a signed transfer agree on.\<close>

definition shared_key :: "hmac_sign \<Rightarrow> hmac_check \<Rightarrow> tsig_key \<Rightarrow> u64 \<Rightarrow> bool" where
  "shared_key sign check key now \<longleftrightarrow>
     (\<forall>a s d tag. check a s d tag \<longleftrightarrow> tag = sign a s d) \<and> (\<forall>a s d. length (sign a s d) \<le> 64) \<and>
     wf_name (tk_name key) \<and> now < 2 ^ 48"

lemma shared_keyD:
  assumes "shared_key sign check key now"
  shows "check a s d tag \<longleftrightarrow> tag = sign a s d" "length (sign a s d) \<le> 64" "wf_name (tk_name key)" "now < 2 ^ 48"
  using assms by (auto simp: shared_key_def)

lemma shared_key_verifies:
  fixes prior :: "bytes option"
  assumes "shared_key sign check key now" "message_ok m" "arcount m + 1 < 65536"
    and "keyring (tk_name key) = Some key" "abs_diff t now \<le> 300"
  defines "ts \<equiv> make_tsig key now (m_id m) 0"
  defines "mac \<equiv> compute_mac sign key (message_encode m) ts prior"
  shows "message_parse (encode_with_tsig m (ts\<lparr>ts_mac := mac\<rparr>)) =
      Inr (m\<lparr>m_tsig := Some (ts\<lparr>ts_mac := mac\<rparr>), m_tsig_start := Some (length (message_encode m))\<rparr>)"
    and "tsig_verify check (m\<lparr>m_tsig := Some (ts\<lparr>ts_mac := mac\<rparr>), m_tsig_start := Some (length (message_encode m))\<rparr>)
      (encode_with_tsig m (ts\<lparr>ts_mac := mac\<rparr>)) keyring t prior = Some (Inr mac)"
    and "length (encode_with_tsig m (ts\<lparr>ts_mac := mac\<rparr>)) < length (message_encode m) + 1024"
proof -
  note k = shared_keyD [OF assms(1)]
  show "message_parse (encode_with_tsig m (ts\<lparr>ts_mac := mac\<rparr>)) =
      Inr (m\<lparr>m_tsig := Some (ts\<lparr>ts_mac := mac\<rparr>), m_tsig_start := Some (length (message_encode m))\<rparr>)"
    "tsig_verify check (m\<lparr>m_tsig := Some (ts\<lparr>ts_mac := mac\<rparr>), m_tsig_start := Some (length (message_encode m))\<rparr>)
      (encode_with_tsig m (ts\<lparr>ts_mac := mac\<rparr>)) keyring t prior = Some (Inr mac)"
    using signed_message_verifies [where prior = prior and check = check and sign = sign and keyring = keyring, OF assms(2,3) k(3) assms(4) k(4) assms(5) k(1,2)]
    unfolding ts_def mac_def by simp_all
  have "length mac \<le> 64" using k(2) by (simp add: mac_def compute_mac_def)
  then show "length (encode_with_tsig m (ts\<lparr>ts_mac := mac\<rparr>)) < length (message_encode m) + 1024"
    using length_tsig_bytes [OF k(3), of mac now "m_id m" 0] by (simp add: length_encode_with_tsig ts_def)
qed

lemma sign_frames_chain:
  assumes key: "shared_key sign check key now" and "\<forall>m \<in> set ms. message_ok m \<and> arcount m + 1 < 65536"
  shows "sign_frames sign key now prior (map (\<lambda>m. frame_one (message_encode m)) ms) =
    map (\<lambda>x. frame_one (fst x)) (signed_chain sign key now prior ms)"
  using assms(2)
proof (induction ms arbitrary: prior)
  case (Cons m ms)
  let ?t = "make_tsig key now (m_id m) 0"
  let ?mac = "compute_mac sign key (message_encode m) ?t (Some prior)"
  have p: "message_parse (encode_with_tsig m (?t\<lparr>ts_mac := ?mac\<rparr>)) =
      Inr (m\<lparr>m_tsig := Some (?t\<lparr>ts_mac := ?mac\<rparr>), m_tsig_start := Some (length (message_encode m))\<rparr>)"
    using shared_key_verifies(1) [OF key, where t = now and keyring = "ring_insert key Map.empty"] Cons.prems
    by (simp add: ring_insert_def abs_diff_def)
  have "message_parse (drop 2 (frame_one (message_encode m))) = Inr m"
    using Cons.prems by (simp add: frame_one_def to_be16_def message_encode_parse)
  then show ?case using Cons p by (simp add: sign_response_def Let_def)
qed simp

lemma signed_chain_accepted:
  assumes key: "shared_key sign check key now"
    and "\<forall>m \<in> set ms. message_ok m \<and> arcount m + 1 < 65536 \<and> length (message_encode m) + 1024 \<le> 65536 \<and>
      m_id m = qid \<and> fl_qr (m_flags m) \<and> fl_rcode (m_flags m) = 0 \<and> m_answers m \<noteq> []"
    and "keyring (tk_name key) = Some key" "\<And>j. abs_diff (clock j) now \<le> 300"
  shows "transfer_accepted check (Some key) keyring clock qid k prior
    (map fst (signed_chain sign key now prior ms)) (map snd (signed_chain sign key now prior ms))"
  using assms(2)
proof (induction ms arbitrary: k prior)
  case (Cons m ms)
  let ?t = "make_tsig key now (m_id m) 0"
  let ?mac = "compute_mac sign key (message_encode m) ?t (Some prior)"
  let ?w = "encode_with_tsig m (?t\<lparr>ts_mac := ?mac\<rparr>)"
  let ?m = "m\<lparr>m_tsig := Some (?t\<lparr>ts_mac := ?mac\<rparr>), m_tsig_start := Some (length (message_encode m))\<rparr>"
  have v: "message_parse ?w = Inr ?m" "tsig_verify check ?m ?w keyring (clock k) (Some prior) = Some (Inr ?mac)"
    and len: "length ?w < length (message_encode m) + 1024"
    using shared_key_verifies [where keyring = keyring and t = "clock k" and m = m and prior = "Some prior", OF key _ _ assms(3,4)]
      Cons.prems by simp_all
  then have "length ?w < 65536" using Cons.prems by simp
  moreover have "chain_mac check (Some key) keyring (clock k) prior ?m ?w = Some (Inr ?mac)" using v(2) by (simp add: chain_mac_def)
  moreover have "m_id ?m = qid" "fl_qr (m_flags ?m)" "fl_rcode (m_flags ?m) = 0" "m_answers ?m \<noteq> []" using Cons.prems by simp_all
  moreover have "transfer_accepted check (Some key) keyring clock qid (k + 1) ?mac
      (map fst (signed_chain sign key now ?mac ms)) (map snd (signed_chain sign key now ?mac ms))"
    by (rule Cons.IH) (use Cons.prems in simp)
  ultimately show ?case
    unfolding signed_chain.simps Let_def list.map fst_conv snd_conv using v(1) by (intro transfer_acceptedI)
qed simp

lemma signed_chain_answers: "map (\<lambda>x. m_answers (snd x)) (signed_chain sign key now prior ms) = map m_answers ms"
  by (induction ms arbitrary: prior) (simp_all add: Let_def)

section \<open>A transfer from end to end\<close>

text \<open>The primary as its client sees it: the bytes its stream loop writes in answer to those it reads.\<close>

definition primary_exchange :: "host \<Rightarrow> ip_addr \<Rightarrow> server_ctx \<Rightarrow> bytes \<Rightarrow> bytes option" where
  "primary_exchange ho peer sv stream = map_option fst (serve_stream ho peer ''tcp'' stream sv)"

text \<open>The zone is offered to \<open>peer\<close> and its answer to request \<open>i\<close> fits the frames, signatures included.\<close>

definition offers :: "host \<Rightarrow> ip_addr \<Rightarrow> u16 \<Rightarrow> server_ctx \<Rightarrow> zone \<Rightarrow> bool" where
  "offers ho peer i sv z \<longleftrightarrow>
     find (\<lambda>y. z_origin y = z_origin z) (rv_zones (sc_resolver sv)) = Some z \<and>
     is_allowed (sc_transfer_acl sv) peer \<and> \<not> fst (limited ho peer (sv_count Queries_tcp sv)) \<and>
     wf_zone z \<and> name_ok (z_origin z) \<and> list_all rr_ok (all_records z) \<and>
     list_all (\<lambda>as. length (message_encode (transfer_message (xfr_query i (z_origin z) TYPE_AXFR) as)) + 1024 \<le> 65536)
       (chunks AXFR_CHUNK (all_records z @ [z_soa z]))"

text \<open>The request's key is one the primary accepts, with clocks close enough.\<close>

definition accepts_key :: "host \<Rightarrow> server_ctx \<Rightarrow> u64 \<Rightarrow> (nat \<Rightarrow> u64) \<Rightarrow> tsig_key option \<Rightarrow> bool" where
  "accepts_key ho sv now clock key \<longleftrightarrow>
     (case key of
        None \<Rightarrow> sc_require_tsig sv = None
      | Some k \<Rightarrow>
          shared_key (ho_sign ho) (ho_check ho) k now \<and> shared_key (ho_sign ho) (ho_check ho) k (ho_unix_now ho) \<and>
          sc_tsig_keys sv (tk_name k) = Some k \<and>
          (sc_require_tsig sv = None \<or> sc_require_tsig sv = Some (tk_name k)) \<and>
          abs_diff (ho_unix_now ho) now \<le> 300 \<and> (\<forall>j. abs_diff (clock j) (ho_unix_now ho) \<le> 300))"

lemma frame_transfer_query: "frame_transfer rs (q\<lparr>m_tsig := t, m_tsig_start := s\<rparr>) = frame_transfer rs q"
  by (simp add: frame_transfer_def transfer_message_def response_to_def)

lemma limited_keeps:
  "sc_transfer_acl (snd (limited ho peer sv)) = sc_transfer_acl sv" "sc_tsig_keys (snd (limited ho peer sv)) = sc_tsig_keys sv"
  "sc_require_tsig (snd (limited ho peer sv)) = sc_require_tsig sv"
  "rv_zones (sc_resolver (snd (limited ho peer sv))) = rv_zones (sc_resolver sv)"
  by (auto simp: limited_def sv_count_def tick_def Let_def split: option.splits prod.splits)

lemma count_keeps:
  "sc_transfer_acl (sv_count c sv) = sc_transfer_acl sv" "sc_tsig_keys (sv_count c sv) = sc_tsig_keys sv"
  "sc_require_tsig (sv_count c sv) = sc_require_tsig sv" "rv_zones (sc_resolver (sv_count c sv)) = rv_zones (sc_resolver sv)"
  by (simp_all add: sv_count_def tick_def)

lemma primary_answers:
  assumes "message_parse w = Inr q" "is_transfer q" "length w < 65536" "w \<noteq> []" "\<not> fst (limited ho peer (sv_count Queries_tcp sv))"
    and "transfer_out ho peer q w (snd (limited ho peer (sv_count Queries_tcp sv))) = Some (frames, sv')"
  shows "primary_exchange ho peer sv (frame_one w) = Some (concat frames)"
proof -
  obtain sv1 where l: "limited ho peer (sv_count Queries_tcp sv) = (False, sv1)"
    using assms(5) by (metis (full_types) prod.collapse)
  have r: "read_frame (frame_one w) = Some (w, [])" using read_frame_one [OF assms(3), of "[]"] by simp
  have e: "serve_stream ho peer ''tcp'' [] sv' = Some ([], sv', [])" by (subst serve_stream.simps) (simp add: read_frame_def)
  have "stream_message ho peer ''tcp'' w sv1 = Some (concat frames, sv', [])"
    using assms(1,2,6) l by (simp add: stream_message_def)
  then show ?thesis
    using r l e assms(4) by (simp add: primary_exchange_def serve_stream.simps [of ho peer "''tcp''" "frame_one w"])
qed

lemma transfer_out_axfr:
  assumes "offers ho peer i sv z" "verify_transfer_tsig ho sv1 q w = Some (Inr mac)"
    and "m_questions q = [\<lparr>q_name = z_origin z, q_type = TYPE_AXFR, q_class = CLASS_IN\<rparr>]"
    and "sv1 = snd (limited ho peer (sv_count Queries_tcp sv))"
  shows "\<exists>sv'. transfer_out ho peer q w sv1 =
    Some (case mac of Some m \<Rightarrow> sign_transfer_frames ho sv1 q (axfr_messages z q) m | None \<Rightarrow> axfr_messages z q, sv')"
  using assms
  by (simp add: transfer_out_def offers_def limited_keeps count_keeps transfer_frames_def Let_def split: option.splits)

lemma axfr_body:
  assumes "wf_zone z"
  obtains body where "concat (chunks AXFR_CHUNK (all_records z @ [z_soa z])) = z_soa z # body @ [z_soa z]"
    "list_all (\<lambda>r. rr_rtype r \<noteq> TYPE_SOA) body" "all_records z = z_soa z # body" "rr_rtype (z_soa z) = TYPE_SOA"
proof -
  obtain body where b: "all_records z = z_soa z # body" "list_all (\<lambda>r. rr_rtype r \<noteq> TYPE_SOA) body"
    using all_records_split [OF assms] by blast
  have "concat (chunks AXFR_CHUNK (all_records z @ [z_soa z])) = all_records z @ [z_soa z]" by (simp add: concat_chunks)
  then show ?thesis using that b wf_zone_soa(1) [OF assms] by simp
qed

lemma offers_chunk:
  assumes "offers ho peer i sv z" "as \<in> set (chunks AXFR_CHUNK (all_records z @ [z_soa z]))"
  defines "m \<equiv> transfer_message (xfr_query i (z_origin z) TYPE_AXFR) as"
  shows "message_ok m" "arcount m + 1 < 65536" "length (message_encode m) + 1024 \<le> 65536" "as \<noteq> []"
proof -
  have "transferable (xfr_query i (z_origin z) TYPE_AXFR) (all_records z @ [z_soa z])"
    using assms(1) xfr_query_ok(2)
    by (auto simp: transferable_def offers_def list_all_iff all_records_def)
  from transferable_chunk [OF this assms(2)] assms
  show "message_ok m" "arcount m + 1 < 65536" "length (message_encode m) + 1024 \<le> 65536" "as \<noteq> []"
    by (auto simp: m_def offers_def list_all_iff)
qed

lemma pull_whole_zone:
  assumes "wf_zone z" "transfer_accepted check key keyring clock i 0 prior ws ms"
    and "map m_answers ms = chunks AXFR_CHUNK (all_records z @ [z_soa z])"
  shows "pull_loop check key keyring clock i 0 (concat (map frame_one ws)) prior [] 0 = Some (Inr (all_records z))"
proof -
  obtain body where b: "concat (chunks AXFR_CHUNK (all_records z @ [z_soa z])) = z_soa z # body @ [z_soa z]"
    "list_all (\<lambda>r. rr_rtype r \<noteq> TYPE_SOA) body" "all_records z = z_soa z # body" "rr_rtype (z_soa z) = TYPE_SOA"
    by (rule axfr_body [OF assms(1)])
  from pull_loop_whole [OF assms(2), of "z_soa z" body "z_soa z" "[]"] b assms(3) show ?thesis by simp
qed

lemma primary_unsigned:
  fixes i :: u16 and z :: zone
  assumes "offers ho peer i sv z" "sc_require_tsig sv = None"
  defines "q \<equiv> xfr_query i (z_origin z) TYPE_AXFR"
  shows "primary_exchange ho peer sv (frame_one (message_encode q)) =
    Some (concat (map frame_one (map (\<lambda>as. message_encode (transfer_message q as)) (chunks AXFR_CHUNK (all_records z @ [z_soa z])))))"
proof -
  let ?sv = "snd (limited ho peer (sv_count Queries_tcp sv))"
  have n: "name_ok (z_origin z)" "wf_name (z_origin z)" using assms(1) by (simp_all add: offers_def name_ok_def)
  have tsig: "m_tsig q = None" by (simp add: q_def xfr_query_def message_new_def)
  have v: "verify_transfer_tsig ho ?sv q (message_encode q) = Some (Inr None)"
    using assms(2) by (simp add: verify_transfer_tsig_def tsig limited_keeps count_keeps)
  have quest: "m_questions q = [\<lparr>q_name = z_origin z, q_type = TYPE_AXFR, q_class = CLASS_IN\<rparr>]"
    using xfr_query_ok(5) [OF n(1)] by (simp add: q_def)
  obtain sv' where t: "transfer_out ho peer q (message_encode q) ?sv = Some (axfr_messages z q, sv')"
    using transfer_out_axfr [OF assms(1) v quest refl] by auto
  have len: "length (message_encode q) \<le> 512" using length_xfr_query [OF n(2)] by (simp add: q_def)
  have parse: "message_parse (message_encode q) = Inr q"
    using message_encode_parse [OF xfr_query_ok(1) [OF n(1)]] by (simp add: q_def)
  then have ne: "message_encode q \<noteq> []" using signed_body(2) [of q] by auto
  have tr: "is_transfer q" using quest xfr_query_ok(6) [OF n(1)] by (simp add: is_transfer_def q_def)
  have "\<not> fst (limited ho peer (sv_count Queries_tcp sv))" using assms(1) by (simp add: offers_def)
  from primary_answers [OF parse tr _ ne this t] len show ?thesis
    by (simp add: axfr_messages_def frame_transfer_def comp_def)
qed

lemma primary_signed:
  fixes i :: u16 and z :: zone and k :: tsig_key
  assumes "offers ho peer i sv z" "accepts_key ho sv now clock (Some k)"
  defines "q \<equiv> xfr_query i (z_origin z) TYPE_AXFR"
  defines "mac \<equiv> snd (sign_request (ho_sign ho) q k now)"
  shows "primary_exchange ho peer sv (frame_one (fst (sign_request (ho_sign ho) q k now))) =
    Some (concat (map frame_one (map fst (signed_chain (ho_sign ho) k (ho_unix_now ho) mac
      (map (transfer_message q) (chunks AXFR_CHUNK (all_records z @ [z_soa z])))))))"
proof -
  let ?sv = "snd (limited ho peer (sv_count Queries_tcp sv))"
  let ?w = "fst (sign_request (ho_sign ho) q k now)"
  have n: "name_ok (z_origin z)" "wf_name (z_origin z)" using assms(1) by (simp_all add: offers_def name_ok_def)
  have k: "shared_key (ho_sign ho) (ho_check ho) k now" "shared_key (ho_sign ho) (ho_check ho) k (ho_unix_now ho)"
    "sc_tsig_keys sv (tk_name k) = Some k" "abs_diff (ho_unix_now ho) now \<le> 300"
    "sc_require_tsig sv = None \<or> sc_require_tsig sv = Some (tk_name k)"
    using assms(2) by (simp_all add: accepts_key_def)
  define ts where "ts = (make_tsig k now (m_id q) 0)\<lparr>ts_mac := mac\<rparr>"
  define q' where "q' = q\<lparr>m_tsig := Some ts, m_tsig_start := Some (length (message_encode q))\<rparr>"
  have w: "?w = encode_with_tsig q ts" and mac: "mac = compute_mac (ho_sign ho) k (message_encode q) (make_tsig k now (m_id q) 0) None"
    by (simp_all add: sign_request_def ts_def mac_def Let_def)
  have v: "message_parse ?w = Inr q'" "tsig_verify (ho_check ho) q' ?w (sc_tsig_keys sv) (ho_unix_now ho) None = Some (Inr mac)"
    "length ?w < length (message_encode q) + 1024"
    using shared_key_verifies [where m = q and prior = None and keyring = "sc_tsig_keys sv", OF k(1) _ _ k(3,4)] xfr_query_ok(1,3) [OF n(1)]
    unfolding w q'_def ts_def mac by (simp_all add: q_def)
  have quest: "m_questions q' = [\<lparr>q_name = z_origin z, q_type = TYPE_AXFR, q_class = CLASS_IN\<rparr>]"
    using xfr_query_ok(5) [OF n(1)] by (simp add: q'_def q_def)
  have ver: "verify_transfer_tsig ho ?sv q' ?w = Some (Inr (Some mac))"
    using v(2) k(5) by (auto simp: verify_transfer_tsig_def limited_keeps count_keeps signer_is_def q'_def ts_def make_tsig_def)
  let ?ms = "map (transfer_message q) (chunks AXFR_CHUNK (all_records z @ [z_soa z]))"
  have msgs: "axfr_messages z q' = map (\<lambda>m. frame_one (message_encode m)) ?ms"
    unfolding q'_def by (simp add: axfr_messages_def frame_transfer_query) (simp add: frame_transfer_def)
  have signing: "sign_transfer_frames ho ?sv q' frames mac = sign_frames (ho_sign ho) k (ho_unix_now ho) mac frames" for frames
    using k(3) by (simp add: sign_transfer_frames_def q'_def ts_def make_tsig_def limited_keeps count_keeps)
  have ok: "\<forall>m \<in> set ?ms. message_ok m \<and> arcount m + 1 < 65536"
    using offers_chunk(1,2) [OF assms(1)] by (auto simp: q_def)
  have frames: "sign_transfer_frames ho ?sv q' (axfr_messages z q') mac =
      map (\<lambda>x. frame_one (fst x)) (signed_chain (ho_sign ho) k (ho_unix_now ho) mac ?ms)"
    unfolding signing msgs by (rule sign_frames_chain [OF k(2) ok])
  obtain sv' where t: "transfer_out ho peer q' ?w ?sv = Some (sign_transfer_frames ho ?sv q' (axfr_messages z q') mac, sv')"
    using transfer_out_axfr [OF assms(1) ver quest refl] by auto
  have tr: "is_transfer q'" using quest xfr_query_ok(6) [OF n(1)] by (simp add: is_transfer_def q'_def q_def)
  have ne: "?w \<noteq> []" using signed_body(1) [of q ts] signed_body(2) [of q] by (auto simp: w)
  have len: "length ?w < 65536" using v(3) length_xfr_query [OF n(2), of i TYPE_AXFR] by (simp add: q_def)
  have "\<not> fst (limited ho peer (sv_count Queries_tcp sv))" using assms(1) by (simp add: offers_def)
  from primary_answers [OF v(1) tr len ne this t] show ?thesis unfolding frames by (simp add: comp_def)
qed

lemma axfr_whole_zone:
  assumes "offers ho peer i sv z" "accepts_key ho sv now clock key"
  shows "\<exists>z'. axfr_pull (ho_sign ho) (ho_check ho) (primary_exchange ho peer sv) now clock i (z_origin z) key = Some (Inr z') \<and>
    wf_zone z' \<and> z_origin z' = z_origin z \<and> z_soa z' = z_soa z \<and> records_mset (z_records z') = records_mset (z_records z)"
proof -
  let ?q = "xfr_query i (z_origin z) TYPE_AXFR"
  let ?chunks = "chunks AXFR_CHUNK (all_records z @ [z_soa z])"
  have wf: "wf_zone z" "name_ok (z_origin z)" using assms(1) by (simp_all add: offers_def)
  have i: "m_id ?q = i" using xfr_query_ok(4) [OF wf(2)] by simp
  have pull: "\<exists>stream. primary_exchange ho peer sv (frame_one (fst (encode_signed (ho_sign ho) ?q key now))) = Some stream \<and>
      pull_loop (ho_check ho) key (case key of Some k \<Rightarrow> ring_insert k Map.empty | None \<Rightarrow> Map.empty) clock i 0 stream
        (snd (encode_signed (ho_sign ho) ?q key now)) [] 0 = Some (Inr (all_records z))"
  proof (cases key)
    case None
    then have "sc_require_tsig sv = None" using assms(2) by (simp add: accepts_key_def)
    note primary_unsigned [OF assms(1) this]
    moreover have acc: "transfer_accepted (ho_check ho) key Map.empty clock (m_id ?q) 0 []
        (map (\<lambda>as. message_encode (transfer_message ?q as)) ?chunks) (map (transfer_message ?q) ?chunks)"
      using offers_chunk [OF assms(1)] by (intro transfer_accepted_unsigned) fastforce
    ultimately show ?thesis
      using pull_whole_zone [OF wf(1) acc [unfolded i]] None by (simp add: encode_signed_def comp_def)
  next
    case (Some k)
    let ?mac = "snd (sign_request (ho_sign ho) ?q k now)"
    let ?chain = "signed_chain (ho_sign ho) k (ho_unix_now ho) ?mac (map (transfer_message ?q) ?chunks)"
    have k: "shared_key (ho_sign ho) (ho_check ho) k (ho_unix_now ho)" "abs_diff (clock j) (ho_unix_now ho) \<le> 300" for j
      using assms(2) Some by (simp_all add: accepts_key_def)
    have acc: "transfer_accepted (ho_check ho) (Some k) (ring_insert k Map.empty) clock i 0 ?mac (map fst ?chain) (map snd ?chain)"
      using offers_chunk [OF assms(1)] i
      by (intro signed_chain_accepted [OF k(1) _ _ k(2)]) (auto simp: ring_insert_def)
    have "map m_answers (map snd ?chain) = ?chunks"
      using signed_chain_answers [of "ho_sign ho" k "ho_unix_now ho" ?mac "map (transfer_message ?q) ?chunks"] by (simp add: comp_def)
    from pull_whole_zone [OF wf(1) acc this] primary_signed [OF assms(1) assms(2) [unfolded Some]] Some
    show ?thesis by (simp add: encode_signed_def comp_def)
  qed
  obtain z' where z': "from_records (z_origin z) (all_records z) = Inr z'" "wf_zone z'" "z_origin z' = z_origin z"
    "z_soa z' = z_soa z" "records_mset (z_records z') = records_mset (z_records z)"
    using from_all_records [OF wf(1)] by blast
  show ?thesis using pull z' i by (auto simp: axfr_pull_def Let_def split: prod.splits)
qed

text \<open>
  C3: A zone transfer is complete from end to end.  When a primary offers a
  well-formed zone to a client (the networks, the rate limiter and the
  required key allow it, and every message of the answer fits its frame), the
  client that pulls it over the primary's stream loop ends up with a
  well-formed zone of the same origin, the same SOA and the same records,
  with or without a TSIG key; with one, the request and every message of the
  chain verify under clocks that differ by at most five minutes.
\<close>
theorem axfr_end_to_end:
  assumes "offers ho peer i sv z" "accepts_key ho sv now clock key"
  shows "\<exists>z'. axfr_pull (ho_sign ho) (ho_check ho) (primary_exchange ho peer sv) now clock i (z_origin z) key = Some (Inr z') \<and>
    wf_zone z' \<and> z_origin z' = z_origin z \<and> z_soa z' = z_soa z \<and> records_mset (z_records z') = records_mset (z_records z)"
  by (rule axfr_whole_zone [OF assms])

definition sample_host :: host where
  "sample_host =
     \<lparr>ho_crypto = sample_crypto, ho_sign = (\<lambda>a s d. take 32 (s @ d)), ho_check = (\<lambda>a s d tag. tag = take 32 (s @ d)),
      ho_sip = (\<lambda>k0 k1 ws. k0 + k1 + word_of_nat (length ws)), ho_rnd = (\<lambda>x. x), ho_version = ''1'', ho_unix_now = 1000,
      ho_outside = \<lparr>ou_net = sample_network, ou_ids = (\<lambda>_. 7), ou_now = 5\<rparr>, ho_others = (\<lambda>_ rv. rv), ho_elapsed = 0\<rparr>"

definition sample_everyone :: acl where
  "sample_everyone = [\<lparr>ci_net = V4 0, ci_prefix = 0\<rparr>]"

definition sample_server :: server_ctx where
  "sample_server =
     \<lparr>sc_resolver = sample_resolver\<lparr>rv_zones := [sample_zone]\<rparr>, sc_acl = [], sc_limiter = None, sc_query_log = False,
      sc_transfer_acl = sample_everyone, sc_secondaries = [], sc_journal = Map.empty, sc_journal_dir = None,
      sc_tsig_keys = ring_insert sample_tsig_key Map.empty, sc_require_tsig = Some (tk_name sample_tsig_key),
      sc_updates = Some \<lparr>up_acl = sample_everyone, up_require_tsig = None, up_zone_dir = None, up_notify_targets = [],
        up_dnssec = None\<rparr>,
      sc_cookie_key = Some \<lparr>ck_k0 = 3, ck_k1 = 4\<rparr>, sc_require_cookie = True\<rparr>"

lemma sample_shared_key: "shared_key (ho_sign sample_host) (ho_check sample_host) sample_tsig_key 1000"
proof -
  have "length (take 32 (s @ d)) \<le> 64" for s d :: bytes by (simp del: take_append)
  then show ?thesis
    by (simp add: shared_key_def sample_host_def sample_tsig_key_def wf_name_def wf_label_def lower_label_def to_lower_def
        del: take_append length_take)
qed

lemma sample_everyone_allowed: "is_allowed sample_everyone (V4 a)"
  by (simp add: is_allowed_def sample_everyone_def prefix_mask_u32_def)

lemma sample_transfer_small:
  "length (message_encode (transfer_message (xfr_query 7 [[101]] TYPE_AXFR) (all_records sample_zone @ [z_soa sample_zone]))) \<le> 1000"
  by code_simp

lemma sample_records_ok: "list_all rr_ok (all_records sample_zone)"
  by (simp add: all_records_def sample_zone_def sample_defs rr_ok_def name_ok_def wf_name_def wf_label_def lower_label_def to_lower_def)

lemma sample_offers: "offers sample_host (V4 1) 7 sample_server sample_zone"
proof -
  have o: "z_origin sample_zone = [[101]]" by (simp add: sample_zone_def)
  have "chunks AXFR_CHUNK (all_records sample_zone @ [z_soa sample_zone]) = [all_records sample_zone @ [z_soa sample_zone]]"
    by (simp add: all_records_def sample_zone_def sample_defs chunks.simps)
  then show ?thesis
    using sample_transfer_small sample_records_ok
    by (simp add: offers_def o sample_server_def sample_everyone_allowed limited_def sv_count_def tick_def
        name_ok_def wf_name_def wf_label_def lower_label_def to_lower_def)
qed

theorem axfr_end_to_end_witness:
  "\<exists>z'. axfr_pull (ho_sign sample_host) (ho_check sample_host) (primary_exchange sample_host (V4 1) sample_server) 1000
      (\<lambda>_. 1000) 7 (z_origin sample_zone) (Some sample_tsig_key) = Some (Inr z') \<and> z_soa z' = z_soa sample_zone"
proof -
  have "accepts_key sample_host sample_server 1000 (\<lambda>_. 1000) (Some sample_tsig_key)"
    using sample_shared_key
    by (simp add: accepts_key_def sample_server_def ring_insert_def abs_diff_def) (simp add: sample_host_def)
  from axfr_end_to_end [OF sample_offers this] show ?thesis by blast
qed

end
