(* ===== verification/Server_Gates.thy ===== *)
theory Server_Gates
  imports Server_Transfer
begin

text \<open>
  Who may do what at the server: dynamic updates and what they commit, the
  cookie challenge on UDP, and zone transfers.
\<close>

section \<open>Dynamic updates\<close>

lemma position_Some: "position p xs = Some i \<Longrightarrow> i < length xs \<and> p (xs ! i) \<and> (\<forall>j < i. \<not> p (xs ! j))"
  by (induction xs arbitrary: i) (auto split: if_splits simp: less_Suc_eq_0_disj)

lemma find_list_update:
  "position p xs = Some i \<Longrightarrow> (\<And>x. p x \<Longrightarrow> \<not> q x) \<Longrightarrow> \<not> q y \<Longrightarrow> find q (xs[i := y]) = find q xs"
  "position p xs = Some i \<Longrightarrow> p y \<Longrightarrow> find p (xs[i := y]) = Some y"
  by (induction xs arbitrary: i) (auto split: if_splits)

lemma find_append: "find p (xs @ ys) = (case find p xs of Some x \<Rightarrow> Some x | None \<Rightarrow> find p ys)"
  by (induction xs) auto

lemma position_None: "position p xs = None \<longleftrightarrow> find p xs = None"
  by (induction xs) auto

text \<open>After \<open>upsert_zone\<close> the zone is the one found under its origin; the others stay.\<close>

lemma upsert_zone_find:
  "find (\<lambda>y. z_origin y = origin) (rv_zones (upsert_zone z rv)) =
     (if origin = z_origin z then Some z else find (\<lambda>y. z_origin y = origin) (rv_zones rv))"
  using find_list_update(1) [of "\<lambda>y. z_origin y = z_origin z" "rv_zones rv" _ "\<lambda>y. z_origin y = origin" z]
    find_list_update(2) [of "\<lambda>y. z_origin y = z_origin z" "rv_zones rv" _ z]
  by (auto simp: upsert_zone_def set_zones_def find_append position_None split: option.splits)

lemma upsert_zone_wf: "wf_zone z \<Longrightarrow> list_all wf_zone (rv_zones rv) \<Longrightarrow> list_all wf_zone (rv_zones (upsert_zone z rv))"
  by (auto simp: upsert_zone_def set_zones_def list_all_iff split: option.splits dest!: set_update_subset_insert [THEN subsetD])

text \<open>The request passed the gate of the update handler.\<close>

definition update_allowed :: "host \<Rightarrow> ip_addr \<Rightarrow> message \<Rightarrow> bytes \<Rightarrow> server_ctx \<Rightarrow> bool" where
  "update_allowed ho peer query raw sv \<longleftrightarrow>
     (\<exists>up. sc_updates sv = Some up \<and> is_allowed (up_acl up) peer \<and>
       (up_require_tsig up = None \<and> m_tsig query = None \<or>
        (\<exists>mac. tsig_verify (ho_check ho) query raw (sc_tsig_keys sv) (ho_unix_now ho) None = Some (Inr mac)) \<and>
          (case up_require_tsig up of None \<Rightarrow> True | Some n \<Rightarrow> map_option ts_key_name (m_tsig query) = Some n)))"

lemma resign_keeps: "resign cr keys origins now validity nsec3 rv = Some rv' \<Longrightarrow> rv_zones rv' = rv_zones rv"
  by (auto simp: resign_def set_signed_def)

lemma resign_after_keeps: "resign_after ho up origin rv = Some rv' \<Longrightarrow> rv_zones rv' = rv_zones rv"
  by (auto simp: resign_after_def split: option.splits if_splits dest: resign_keeps)

lemma commit_update_zones:
  assumes "commit_update ho up old new sv = Some (sv', effs)"
  shows "find (\<lambda>y. z_origin y = origin) (rv_zones (sc_resolver sv')) =
      (if origin = z_origin new then Some new else find (\<lambda>y. z_origin y = origin) (rv_zones (sc_resolver sv)))"
    and "sc_journal sv' = journal_record old new (sc_journal sv)"
proof -
  obtain rv' where r: "resign_after ho up (z_origin new) (tick Zone_reloads (upsert_zone new (sc_resolver sv))) = Some rv'"
    "sv' = sv\<lparr>sc_journal := journal_record old new (sc_journal sv), sc_resolver := rv'\<rparr>"
    using assms by (auto simp: commit_update_def Let_def)
  show "sc_journal sv' = journal_record old new (sc_journal sv)" using r(2) by simp
  show "find (\<lambda>y. z_origin y = origin) (rv_zones (sc_resolver sv')) =
      (if origin = z_origin new then Some new else find (\<lambda>y. z_origin y = origin) (rv_zones (sc_resolver sv)))"
    using resign_after_keeps [OF r(1)] r(2) upsert_zone_find [of origin new "sc_resolver sv"] by (simp add: tick_def)
qed

lemma apply_update_origin:
  assumes "nodes_ok (z_origin z) (z_records z)" "apply_update prereqs updates z = (z', rc)"
  shows "z_origin z' = z_origin z"
proof (cases "check_prereqs z prereqs = None \<and> list_all (\<lambda>u. ends_with (rr_name u) (z_origin z)) updates")
  case True
  then have "apply_updates z updates = (z', rc)" using assms(2) by (simp add: apply_update_def list_ex_iff list_all_iff)
  with apply_updates_nodes [OF assms(1)] True show ?thesis by blast
next
  case False
  then show ?thesis using assms(2)
    by (cases "check_prereqs z prereqs") (simp_all add: apply_update_def list_ex_iff list_all_iff)
qed

lemma bump_serial_origin [simp]: "z_origin (bump_serial z) = z_origin z"
  by (auto simp: bump_serial_def Let_def split: rdata.splits option.splits)

lemma journal_record_last:
  "zone_serial old \<noteq> zone_serial new \<Longrightarrow>
     \<exists>log. journal_record old new j (z_origin new) = Some (log @ [zone_diff old new])"
  by (auto simp: journal_record_def Let_def intro: exI [of _ "drop _ _"])

lemma apply_update_soa: "apply_update prereqs updates z = (z', rc) \<Longrightarrow> z_soa z' = z_soa z"
proof -
  have "apply_updates z us = (z', rc) \<Longrightarrow> z_soa z' = z_soa z" for us
    by (induction us arbitrary: z) (auto split: option.splits)
  then show "apply_update prereqs updates z = (z', rc) \<Longrightarrow> z_soa z' = z_soa z"
    by (auto simp: apply_update_def split: option.splits if_splits)
qed

lemma update_serial:
  assumes "rr_rdata (z_soa old) = RD_Soa s" "apply_update prereqs updates old = (upd, rc)"
  shows "zone_serial (bump_serial upd) = soa_serial s + 1" "zone_serial (bump_serial upd) \<noteq> zone_serial old"
  using assms apply_update_soa [OF assms(2)]
  by (auto simp: zone_serial_def bump_serial_def Let_def split: option.splits)

text \<open>
  C7: Only an authorised update changes anything.  If the state of the server
  or the outside is touched, updates are enabled, the client's network is
  allowed, and the request is signed by a key of the ring (by the required
  key, when one is configured) unless neither side uses signatures.  The
  reply is then NOERROR, the zone of the request is the old one with the
  update applied and its serial one higher, every other zone is the same, and
  the change is the newest entry of the zone's journal.
\<close>
theorem update_authorised:
  assumes "handle_update ho peer query raw sv = Some (resp, sv', effs)" "(sv', effs) \<noteq> (sv, [])"
    and "\<And>z. z \<in> set (rv_zones (sc_resolver sv)) \<Longrightarrow> nodes_ok (z_origin z) (z_records z)"
  shows "update_allowed ho peer query raw sv \<and> fl_rcode (m_flags resp) = RCODE_NOERROR \<and>
    (\<exists>old upd. old \<in> set (rv_zones (sc_resolver sv)) \<and>
       (\<exists>q qs. m_questions query = q # qs \<and> q_name q = z_origin old) \<and>
       apply_update (m_answers query) (m_authorities query) old = (upd, RCODE_NOERROR) \<and>
       (\<forall>origin. find (\<lambda>y. z_origin y = origin) (rv_zones (sc_resolver sv')) =
          (if origin = z_origin old then Some (bump_serial upd) else find (\<lambda>y. z_origin y = origin) (rv_zones (sc_resolver sv)))) \<and>
       (\<forall>s. rr_rdata (z_soa old) = RD_Soa s \<longrightarrow> zone_serial (bump_serial upd) = soa_serial s + 1 \<and>
          (\<exists>log. sc_journal sv' (z_origin old) = Some (log @ [zone_diff old (bump_serial upd)]))))"
proof -
  from assms(1,2) obtain up zq qs old upd where u:
    "sc_updates sv = Some up" "is_allowed (up_acl up) peer" "update_denied ho up sv query raw = Some False"
    "m_questions query = zq # qs" "find (\<lambda>z. z_origin z = q_name zq) (rv_zones (sc_resolver sv)) = Some old"
    "apply_update (m_answers query) (m_authorities query) old = (upd, RCODE_NOERROR)"
    "commit_update ho up old (bump_serial upd) sv = Some (sv', effs)"
    "fl_rcode (m_flags resp) = RCODE_NOERROR"
    by (auto simp: handle_update_def Let_def response_to_def message_new_def flags_default_def
        split: option.splits if_splits bool.splits list.splits prod.splits)
  have old: "old \<in> set (rv_zones (sc_resolver sv))" "z_origin old = q_name zq"
    using u(5) by (auto simp: find_Some_iff)
  have o: "z_origin (bump_serial upd) = z_origin old" using apply_update_origin [OF assms(3) u(6)] old(1) by simp
  have "update_allowed ho peer query raw sv"
    using u(1-3) by (auto simp: update_allowed_def update_denied_def signer_is_def split: if_splits option.splits sum.splits)
  moreover have "find (\<lambda>y. z_origin y = origin) (rv_zones (sc_resolver sv')) =
      (if origin = z_origin old then Some (bump_serial upd) else find (\<lambda>y. z_origin y = origin) (rv_zones (sc_resolver sv)))" for origin
    using commit_update_zones(1) [OF u(7)] o by simp
  moreover have "zone_serial (bump_serial upd) = soa_serial s + 1 \<and>
      (\<exists>log. sc_journal sv' (z_origin old) = Some (log @ [zone_diff old (bump_serial upd)]))"
    if "rr_rdata (z_soa old) = RD_Soa s" for s
    using update_serial [OF that u(6)] commit_update_zones(2) [OF u(7)]
      journal_record_last [of old "bump_serial upd" "sc_journal sv"] o by auto
  ultimately show ?thesis using u(4,6,8) old by (intro conjI exI [of _ old] exI [of _ upd]) simp_all
qed

definition sample_update :: message where
  "sample_update =
     (message_new 9 (flags_default\<lparr>fl_opcode := OPCODE_UPDATE\<rparr>))
     \<lparr>m_questions := [\<lparr>q_name = [[101]], q_type = TYPE_SOA, q_class = CLASS_IN\<rparr>],
      m_authorities := [sample_rr 120 (RD_A 1)]\<rparr>"

lemma sample_apply_update:
  obtains upd where "apply_update [] [sample_rr 120 (RD_A 1)] sample_zone = (upd, RCODE_NOERROR)"
proof -
  have "snd (apply_update [] [sample_rr 120 (RD_A 1)] sample_zone) = RCODE_NOERROR"
    by (simp add: apply_update_def update_one_def sample_zone_def sample_defs Let_def)
  then show ?thesis using that by (metis prod.collapse)
qed

lemma sample_update_handled:
  obtains resp sv' effs upd diffs where "handle_update sample_host (V4 1) sample_update [] sample_server = Some (resp, sv', effs)"
    "sc_journal sv' [[101]] = Some (diffs @ [zone_diff sample_zone (bump_serial upd)])" "(sv', effs) \<noteq> (sample_server, [])"
proof -
  obtain upd where upd: "apply_update [] [sample_rr 120 (RD_A 1)] sample_zone = (upd, RCODE_NOERROR)"
    by (rule sample_apply_update)
  have zone: "z_origin sample_zone = [[101]]" "rr_rdata (z_soa sample_zone) = RD_Soa
      \<lparr>soa_mname = [[110], [101]], soa_rname = [[104], [101]], soa_serial = 1, soa_refresh = 7200,
       soa_retry = 3600, soa_expire = 1209600, soa_minimum = 300\<rparr>"
    by (simp_all add: sample_zone_def sample_soa_def)
  have parts: "m_questions sample_update = [\<lparr>q_name = [[101]], q_type = TYPE_SOA, q_class = CLASS_IN\<rparr>]"
    "m_answers sample_update = []" "m_authorities sample_update = [sample_rr 120 (RD_A 1)]" "m_tsig sample_update = None"
    by (simp_all add: sample_update_def message_new_def)
  obtain resp sv' effs where h: "handle_update sample_host (V4 1) sample_update [] sample_server = Some (resp, sv', effs)"
    "sc_journal sv' = journal_record sample_zone (bump_serial upd) Map.empty"
    using upd by (simp add: handle_update_def sample_server_def sample_everyone_allowed update_denied_def parts zone
        commit_update_def resign_after_def Let_def)
  have "z_origin (bump_serial upd) = [[101]]"
    using apply_update_origin [OF _ upd] sample_zone_wf zone(1) by (simp add: wf_zone_def)
  then obtain diffs where j: "sc_journal sv' [[101]] = Some (diffs @ [zone_diff sample_zone (bump_serial upd)])"
    using journal_record_last [of sample_zone "bump_serial upd" Map.empty] update_serial(2) [OF zone(2) upd] h(2) by auto
  then have "(sv', effs) \<noteq> (sample_server, [])" by (auto simp: sample_server_def)
  with that h(1) j show ?thesis by blast
qed

theorem update_authorised_witness:
  "\<exists>resp sv' effs. handle_update sample_host (V4 1) sample_update [] sample_server = Some (resp, sv', effs) \<and>
     fl_rcode (m_flags resp) = RCODE_NOERROR \<and> sc_journal sv' [[101]] \<noteq> None"
proof -
  obtain resp sv' effs upd diffs where h:
    "handle_update sample_host (V4 1) sample_update [] sample_server = Some (resp, sv', effs)"
    "sc_journal sv' [[101]] = Some (diffs @ [zone_diff sample_zone (bump_serial upd)])" "(sv', effs) \<noteq> (sample_server, [])"
    by (rule sample_update_handled)
  have nodes: "nodes_ok (z_origin z) (z_records z)" if "z \<in> set (rv_zones (sc_resolver sample_server))" for z
    using that sample_zone_wf by (simp add: sample_server_def wf_zone_def)
  from update_authorised [OF h(1,3) nodes] h(1,2) show ?thesis by auto
qed

section \<open>Cookies\<close>

text \<open>The COOKIE option of a query, if there is one, and whether it makes the query welcome.\<close>

definition cookie_option :: "message \<Rightarrow> bytes option" where
  "cookie_option query = Option.bind (m_edns query) (\<lambda>e. get_option e EDNS_COOKIE)"

definition cookie_accepted :: "host \<Rightarrow> cookie_key \<Rightarrow> ip_addr \<Rightarrow> bytes option \<Rightarrow> bool" where
  "cookie_accepted ho key ip opt \<longleftrightarrow>
     (case opt of None \<Rightarrow> False | Some c \<Rightarrow> cookie_verify (ho_sip ho) key c ip (ucast (ho_unix_now ho)) \<in> {Valid, Stale})"

abbreviation issued_cookie :: "host \<Rightarrow> cookie_key \<Rightarrow> ip_addr \<Rightarrow> bytes option \<Rightarrow> bytes option" where
  "issued_cookie ho key ip opt \<equiv>
     map_option (\<lambda>client. cookie_build (ho_sip ho) key client ip (ucast (ho_unix_now ho))) (Option.bind opt client_cookie)"

lemma cookie_challenge_iff:
  assumes "sc_require_cookie sv" "sc_cookie_key sv = Some key"
  shows "cookie_challenge ho sv query ip = None \<longleftrightarrow> cookie_accepted ho key ip (cookie_option query)"
proof -
  have "cookie_verify sip key [] ip now = Absent" for sip now by (simp add: cookie_verify_def)
  then show ?thesis using assms
    by (auto simp: cookie_challenge_def cookie_accepted_def cookie_option_def Let_def split: option.splits)
qed

lemma cookie_challenge_Some:
  assumes "sc_require_cookie sv" "sc_cookie_key sv = Some key" "\<not> cookie_accepted ho key ip (cookie_option query)"
  shows "\<exists>resp e. cookie_challenge ho sv query ip = Some resp \<and> m_answers resp = [] \<and> m_authorities resp = [] \<and>
    m_additionals resp = [] \<and> fl_rcode (m_flags resp) = 7 \<and> m_edns resp = Some e \<and> ed_ext_rcode e = 1 \<and>
    get_option e EDNS_COOKIE = issued_cookie ho key ip (cookie_option query)"
proof -
  let ?ck = "\<lambda>client. cookie_build (ho_sip ho) key client ip (ucast (ho_unix_now ho))"
  let ?resp = "set_rcode 7 (response_to query)"
  let ?e = "edns_ours\<lparr>ed_ext_rcode := 1\<rparr>"
  let ?client = "Option.bind (cookie_option query) client_cookie"
  let ?e' = "case ?client of None \<Rightarrow> ?e | Some client \<Rightarrow> set_option ?e EDNS_COOKIE (?ck client)"
  have e: "(case m_edns ?resp of Some e \<Rightarrow> e | None \<Rightarrow> edns_ours) = edns_ours"
    by (simp add: response_to_def message_new_def set_rcode_def split: option.splits)
  have "client_cookie [] = None" by (simp add: client_cookie_def get_range_def)
  then have client: "client_cookie (case cookie_option query of Some c \<Rightarrow> c | None \<Rightarrow> []) = ?client"
    by (cases "cookie_option query") simp_all
  have "cookie_challenge ho sv query ip \<noteq> None" using cookie_challenge_iff [OF assms(1,2)] assms(3) by blast
  then have c: "cookie_challenge ho sv query ip = Some (?resp\<lparr>m_edns := Some ?e'\<rparr>)"
    using assms(1,2) client
    by (cases ?client) (simp_all add: e cookie_challenge_def cookie_option_def [symmetric] Let_def split: if_splits)
  have "get_option ?e' EDNS_COOKIE = issued_cookie ho key ip (cookie_option query)"
  proof (cases ?client)
    case None
    then show ?thesis by (simp add: edns_ours_def get_option_def get_option_loop.simps [of "[]"])
  next
    case (Some client)
    then have "length client = 8" by (auto simp: client_cookie_def get_range_def bind_eq_Some_conv split: if_splits)
    then have "length (?ck client) < 65536" using cookie_layout(1) by simp
    moreover have "edns_ok ?e" using edns_ours_ok by (simp add: edns_ok_def)
    ultimately show ?thesis using Some by (simp add: edns_store.get_put)
  qed
  moreover have "ed_ext_rcode ?e' = 1" by (simp add: set_option_def remove_option_def Let_def split: option.splits)
  moreover have "fl_rcode (m_flags (?resp\<lparr>m_edns := x\<rparr>)) = 7" "m_answers (?resp\<lparr>m_edns := x\<rparr>) = []"
    "m_authorities (?resp\<lparr>m_edns := x\<rparr>) = []" "m_additionals (?resp\<lparr>m_edns := x\<rparr>) = []" "m_edns (?resp\<lparr>m_edns := x\<rparr>) = x" for x
    by (simp_all add: set_rcode_def response_to_def message_new_def)
  ultimately show ?thesis using c by blast
qed

lemma issued_cookie_accepted:
  assumes "issued_cookie ho key ip opt = Some ck" "ho_sip later = ho_sip ho"
    and "ucast (ho_unix_now ho) \<le> (ucast (ho_unix_now later) :: u32)"
      "ucast (ho_unix_now later) - (ucast (ho_unix_now ho) :: u32) \<le> 3600"
  shows "cookie_accepted later key ip (Some ck)"
proof -
  obtain c where "8 \<le> length c" "ck = cookie_build (ho_sip ho) key (take 8 c) ip (ucast (ho_unix_now ho))"
    using assms(1) by (auto simp: client_cookie_def get_range_def bind_eq_Some_conv split: if_splits)
  moreover from this(1) have "length (take 8 c) = 8" by simp
  ultimately show ?thesis
    using assms(2-4) order_trans [of "ucast (ho_unix_now later) - ucast (ho_unix_now ho) :: u32" 3600 7200]
    by (simp add: cookie_accepted_def cookie_verify_built not_less)
qed

text \<open>
  C29: With cookies required, a query over UDP that is neither a notification
  nor an update and carries no COOKIE option at all, or one whose cookie the
  server did not issue to this address in time, is answered by a challenge alone:
  BADCOOKIE (extended code 23), no records, nothing looked up and no state
  touched.  The challenge has a server cookie exactly when the option has a
  client cookie in it, and a query from the same address that presents that
  server cookie within the hour is not challenged.
\<close>
theorem cookie_handshake:
  assumes "sc_require_cookie sv" "sc_cookie_key sv = Some key"
    and "fl_opcode (m_flags query) \<noteq> OPCODE_NOTIFY" "fl_opcode (m_flags query) \<noteq> OPCODE_UPDATE"
    and "case cookie_option query of
        None \<Rightarrow> True
      | Some c \<Rightarrow> cookie_verify (ho_sip ho) key c peer (ucast (ho_unix_now ho)) \<notin> {Valid, Stale}"
  shows "\<exists>resp e. udp_query ho peer query raw sv = Some (message_encode resp, sv, []) \<and>
    m_answers resp = [] \<and> m_authorities resp = [] \<and> m_additionals resp = [] \<and>
    fl_rcode (m_flags resp) = 7 \<and> m_edns resp = Some e \<and> ed_ext_rcode e = 1 \<and>
    (get_option e EDNS_COOKIE \<noteq> None \<longleftrightarrow> (\<exists>c. cookie_option query = Some c \<and> 8 \<le> length c)) \<and>
    (\<forall>later query'. cookie_option query' = get_option e EDNS_COOKIE \<and> cookie_option query' \<noteq> None \<and> ho_sip later = ho_sip ho \<and>
       ucast (ho_unix_now ho) \<le> (ucast (ho_unix_now later) :: u32) \<and>
       ucast (ho_unix_now later) - (ucast (ho_unix_now ho) :: u32) \<le> 3600 \<longrightarrow>
       cookie_challenge later sv query' peer = None)"
proof -
  have "\<not> cookie_accepted ho key peer (cookie_option query)" using assms(5) by (auto simp: cookie_accepted_def split: option.splits)
  then obtain resp e where r: "cookie_challenge ho sv query peer = Some resp" "m_answers resp = []" "m_authorities resp = []"
    "m_additionals resp = []" "fl_rcode (m_flags resp) = 7" "m_edns resp = Some e" "ed_ext_rcode e = 1"
    "get_option e EDNS_COOKIE = issued_cookie ho key peer (cookie_option query)"
    using cookie_challenge_Some [OF assms(1,2)] by blast
  have u: "udp_query ho peer query raw sv = Some (message_encode resp, sv, [])"
    using r(1) assms(3,4) by (simp add: udp_query_def)
  have client: "client_cookie c \<noteq> None \<longleftrightarrow> 8 \<le> length c" for c by (simp add: client_cookie_def get_range_def)
  have "get_option e EDNS_COOKIE \<noteq> None \<longleftrightarrow> (\<exists>c. cookie_option query = Some c \<and> 8 \<le> length c)"
    using client by (cases "cookie_option query") (auto simp: r(8))
  moreover have "cookie_challenge later sv query' peer = None"
    if later: "cookie_option query' = get_option e EDNS_COOKIE" "cookie_option query' \<noteq> None" "ho_sip later = ho_sip ho"
      "ucast (ho_unix_now ho) \<le> (ucast (ho_unix_now later) :: u32)"
      "ucast (ho_unix_now later) - (ucast (ho_unix_now ho) :: u32) \<le> 3600" for later query'
  proof -
    obtain ck where "cookie_option query' = Some ck" "issued_cookie ho key peer (cookie_option query) = Some ck"
      using later(1,2) r(8) by auto
    then show ?thesis
      using issued_cookie_accepted [OF _ later(3-5)] cookie_challenge_iff [OF assms(1,2), of later query' peer] by (simp only:)
  qed
  ultimately show ?thesis using u r(2-7) by blast
qed

definition sample_cookie_query :: message where
  "sample_cookie_query = (forward_message 7 [[97]] TYPE_A False)
     \<lparr>m_edns := Some (set_option edns_ours EDNS_COOKIE [1, 2, 3, 4, 5, 6, 7, 8])\<rparr>"

text \<open>A query without a COOKIE option, and one with a client cookie.\<close>

theorem cookie_handshake_witness:
  "(\<exists>resp e. udp_query sample_host (V4 1) (forward_message 7 [[97]] TYPE_A False) [] sample_server =
       Some (message_encode resp, sample_server, []) \<and>
     fl_rcode (m_flags resp) = 7 \<and> m_edns resp = Some e \<and> get_option e EDNS_COOKIE = None) \<and>
   (\<exists>resp e. udp_query sample_host (V4 1) sample_cookie_query [] sample_server = Some (message_encode resp, sample_server, []) \<and>
     fl_rcode (m_flags resp) = 7 \<and> m_edns resp = Some e \<and> get_option e EDNS_COOKIE \<noteq> None)"
proof
  let ?key = "\<lparr>ck_k0 = 3, ck_k1 = 4\<rparr> :: cookie_key"
  have sv: "sc_require_cookie sample_server" "sc_cookie_key sample_server = Some ?key" by (simp_all add: sample_server_def)
  let ?q = "forward_message 7 [[97]] TYPE_A False"
  have q: "fl_opcode (m_flags ?q) \<noteq> OPCODE_NOTIFY" "fl_opcode (m_flags ?q) \<noteq> OPCODE_UPDATE" "cookie_option ?q = None"
    by (simp_all add: forward_message_def message_new_def flags_default_def cookie_option_def edns_ours_def get_option_def get_option_loop.simps [of "[]"])
  then show "\<exists>resp e. udp_query sample_host (V4 1) ?q [] sample_server = Some (message_encode resp, sample_server, []) \<and>
      fl_rcode (m_flags resp) = 7 \<and> m_edns resp = Some e \<and> get_option e EDNS_COOKIE = None"
    using cookie_handshake [OF sv q(1,2), of sample_host "V4 1" "[]"] by auto
  have c: "fl_opcode (m_flags sample_cookie_query) \<noteq> OPCODE_NOTIFY" "fl_opcode (m_flags sample_cookie_query) \<noteq> OPCODE_UPDATE"
    "cookie_option sample_cookie_query = Some [1, 2, 3, 4, 5, 6, 7, 8]"
    using q(1,2) by (simp_all add: sample_cookie_query_def cookie_option_def edns_store.get_put)
  then show "\<exists>resp e. udp_query sample_host (V4 1) sample_cookie_query [] sample_server = Some (message_encode resp, sample_server, []) \<and>
      fl_rcode (m_flags resp) = 7 \<and> m_edns resp = Some e \<and> get_option e EDNS_COOKIE \<noteq> None"
    using cookie_handshake [OF sv c(1,2), of sample_host "V4 1" "[]"] by (auto simp: cookie_verify_def)
qed

section \<open>Who gets a zone\<close>

text \<open>
  C30: Zone data leaves the server only to a client on the transfer list whose
  request is signed by a key of the ring, by the required key if one is
  configured (an unsigned request is enough when none is); everyone else gets
  one message with an error code and no records, and nothing is counted.
\<close>
theorem transfer_gate:
  assumes "transfer_out ho peer query raw sv = Some (frames, sv')"
  shows "(\<exists>rcode. rcode \<noteq> RCODE_NOERROR \<and> sv' = sv \<and>
       frames = [frame_one (message_encode ((response_to query)\<lparr>m_flags := (m_flags (response_to query))\<lparr>fl_rcode := rcode\<rparr>\<rparr>))]) \<or>
    is_allowed (sc_transfer_acl sv) peer \<and>
    (m_tsig query = None \<and> sc_require_tsig sv = None \<or>
     (\<exists>mac. tsig_verify (ho_check ho) query raw (sc_tsig_keys sv) (ho_unix_now ho) None = Some (Inr mac)) \<and>
       (case sc_require_tsig sv of None \<Rightarrow> True | Some n \<Rightarrow> map_option ts_key_name (m_tsig query) = Some n))"
proof (cases "is_allowed (sc_transfer_acl sv) peer")
  case False
  then have "frames = transfer_refuse query RCODE_REFUSED" "sv' = sv" using assms by (simp_all add: transfer_out_def)
  then show ?thesis
    by (intro disjI1 exI [of _ RCODE_REFUSED]) (simp add: transfer_refuse_def frame_reply_def set_rcode_def)
next
  case True
  then obtain v where v: "verify_transfer_tsig ho sv query raw = Some v"
    using assms by (auto simp: transfer_out_def split: option.splits)
  show ?thesis
  proof (cases v)
    case (Inl rcode)
    then have "rcode \<noteq> RCODE_NOERROR" using v by (auto simp: verify_transfer_tsig_def split: option.splits sum.splits if_splits)
    moreover have "frames = transfer_refuse query rcode" "sv' = sv" using assms True v Inl by (simp_all add: transfer_out_def)
    ultimately show ?thesis
      by (intro disjI1 exI [of _ rcode]) (simp add: transfer_refuse_def frame_reply_def set_rcode_def)
  next
    case (Inr mac)
    then show ?thesis
      using v True by (auto simp: verify_transfer_tsig_def signer_is_def split: option.splits sum.splits if_splits)
  qed
qed

theorem transfer_gate_witness:
  "\<exists>frames sv'. transfer_out sample_host (V4 1) (xfr_query 7 [[101]] TYPE_AXFR) [] sample_server = Some (frames, sv') \<and> sv' = sample_server"
proof -
  obtain frames sv' where t: "transfer_out sample_host (V4 1) (xfr_query 7 [[101]] TYPE_AXFR) [] sample_server = Some (frames, sv')"
    by (simp add: transfer_out_def sample_server_def sample_everyone_allowed verify_transfer_tsig_def xfr_query_def message_new_def)
  moreover have "m_tsig (xfr_query 7 [[101]] TYPE_AXFR) = None" "sc_require_tsig sample_server \<noteq> None"
    by (simp_all add: xfr_query_def message_new_def sample_server_def)
  ultimately show ?thesis using transfer_gate [OF t] by (auto simp: tsig_verify_def)
qed

end
