(* ===== verification/Secondary.thy ===== *)
theory Secondary
  imports Server_Gates
begin

text \<open>
  The refresh loop of a secondary zone (\<open>run_secondary\<close> of
  \<open>dns-xfr/src/lib.rs\<close>): one round over the primaries, and the rounds in
  sequence.  Each round ends in a \<open>select!\<close> between a sleep and the signal that
  the handler of an incoming NOTIFY raises; when that signal comes is a
  parameter of the round, and how long the round then waits is a result.
\<close>

section \<open>The loop\<close>

record secondary =
  se_origin :: dns_name
  se_primaries :: "socket_addr list"
  se_tsig_key :: "tsig_key option"

text \<open>
  The primaries during a round: what each answers to a datagram and on a
  stream, and the ids and clocks that the requests read.
\<close>

record primaries =
  pr_udp :: "socket_addr \<Rightarrow> bytes \<Rightarrow> bytes option"
  pr_tcp :: "socket_addr \<Rightarrow> bytes \<Rightarrow> bytes option"
  pr_soa_id :: "socket_addr \<Rightarrow> u16"
  pr_axfr_id :: "socket_addr \<Rightarrow> u16"
  pr_now :: u64
  pr_clock :: "nat \<Rightarrow> u64"

fun refresh_loop ::
  "hmac_sign \<Rightarrow> hmac_check \<Rightarrow> primaries \<Rightarrow> secondary \<Rightarrow> u32 option \<Rightarrow> socket_addr list \<Rightarrow> resolver \<Rightarrow>
     (u64 \<times> resolver) option" where
  "refresh_loop sign check pr sec current [] rv = Some (RETRY, rv)"
| "refresh_loop sign check pr sec current (p # ps) rv =
     (case query_soa_serial sign (pr_udp pr p) (pr_now pr) (pr_soa_id pr p) (se_origin sec) (se_tsig_key sec) of
        Inl e \<Rightarrow> refresh_loop sign check pr sec current ps rv
      | Inr serial \<Rightarrow>
          if (case current of None \<Rightarrow> True | Some cur \<Rightarrow> serial_gt serial cur) then
            (case axfr_pull sign check (pr_tcp pr p) (pr_now pr) (pr_clock pr) (pr_axfr_id pr p) (se_origin sec)
                (se_tsig_key sec) of
               None \<Rightarrow> None
             | Some (Inl e) \<Rightarrow> refresh_loop sign check pr sec current ps rv
             | Some (Inr z) \<Rightarrow> Some (zone_refresh z, tick Axfr_in (upsert_zone z rv)))
          else
            Some (case find (\<lambda>z. z_origin z = se_origin sec) (rv_zones rv) of
                    Some z \<Rightarrow> zone_refresh z
                  | None \<Rightarrow> RETRY, rv))"

definition refresh_round ::
  "hmac_sign \<Rightarrow> hmac_check \<Rightarrow> primaries \<Rightarrow> secondary \<Rightarrow> resolver \<Rightarrow> (u64 \<times> resolver) option" where
  "refresh_round sign check pr sec rv =
     refresh_loop sign check pr sec
       (map_option zone_serial (find (\<lambda>z. z_origin z = se_origin sec) (rv_zones rv))) (se_primaries sec) rv"

text \<open>
  The \<open>select!\<close> at the end of a round: the timer, or \<open>kick.notified()\<close> after so
  many seconds, if it comes.  A NOTIFY that arrived while the round was still
  asking the primaries has left its permit and is there after 0 seconds.
\<close>

definition secondary_pause :: "u64 \<Rightarrow> u64 option \<Rightarrow> u64" where
  "secondary_pause refresh kick = (case kick of None \<Rightarrow> refresh | Some t \<Rightarrow> if t < refresh then t else refresh)"

text \<open>The rounds, each with its surroundings; the results are the timer set and the time waited.\<close>

fun run_secondary ::
  "hmac_sign \<Rightarrow> hmac_check \<Rightarrow> (primaries \<times> u64 option) list \<Rightarrow> secondary \<Rightarrow> resolver \<Rightarrow>
     ((u64 \<times> u64) list \<times> resolver) option" where
  "run_secondary sign check [] sec rv = Some ([], rv)"
| "run_secondary sign check ((pr, kick) # rounds) sec rv =
     (case refresh_round sign check pr sec rv of
        None \<Rightarrow> None
      | Some (refresh, rv') \<Rightarrow>
          map_option (\<lambda>(ws, rv''). ((refresh, secondary_pause refresh kick) # ws, rv''))
            (run_secondary sign check rounds sec rv'))"

section \<open>What a round does\<close>

lemma zone_refresh_bounds: "15 \<le> zone_refresh z \<and> zone_refresh z \<le> 86400"
  by (auto simp: zone_refresh_def min_def max_def split: rdata.splits)

lemma axfr_pull_zone:
  assumes "axfr_pull sign check exchange now clock i origin key = Some (Inr z)"
  shows "z_origin z = origin" "wf_zone z"
proof -
  obtain rs where "from_records origin rs = Inr z"
    using assms by (auto simp: axfr_pull_def Let_def split: prod.splits option.splits sum.splits)
  then show "z_origin z = origin" "wf_zone z" using from_records_wf by blast+
qed

definition same_elsewhere :: "dns_name \<Rightarrow> resolver \<Rightarrow> resolver \<Rightarrow> bool" where
  "same_elsewhere origin rv rv' \<longleftrightarrow>
     (\<forall>n. n \<noteq> origin \<longrightarrow> find (\<lambda>z. z_origin z = n) (rv_zones rv') = find (\<lambda>z. z_origin z = n) (rv_zones rv))"

lemma refresh_loop_keeps:
  "refresh_loop sign check pr sec current ps rv = Some (wait, rv') \<Longrightarrow>
     15 \<le> wait \<and> wait \<le> 86400 \<and> same_elsewhere (se_origin sec) rv rv' \<and>
     (list_all wf_zone (rv_zones rv) \<longrightarrow> list_all wf_zone (rv_zones rv'))"
proof (induction sign check pr sec current ps rv rule: refresh_loop.induct)
  case (2 sign check pr sec current p ps rv)
  show ?case
  proof (cases "query_soa_serial sign (pr_udp pr p) (pr_now pr) (pr_soa_id pr p) (se_origin sec) (se_tsig_key sec)")
    case (Inl e)
    then show ?thesis using 2 by simp
  next
    case (Inr serial)
    let ?new = "case current of None \<Rightarrow> True | Some cur \<Rightarrow> serial_gt serial cur"
    let ?pull = "axfr_pull sign check (pr_tcp pr p) (pr_now pr) (pr_clock pr) (pr_axfr_id pr p) (se_origin sec) (se_tsig_key sec)"
    show ?thesis
    proof (cases "?new \<and> (\<exists>z. ?pull = Some (Inr z))")
      case True
      then obtain z where z: "?new" "?pull = Some (Inr z)" by blast
      have "wait = zone_refresh z" "rv' = tick Axfr_in (upsert_zone z rv)" using "2.prems" Inr z by simp_all
      then show ?thesis
        using zone_refresh_bounds [of z] axfr_pull_zone [OF z(2)] upsert_zone_find [of _ z rv] upsert_zone_wf [of z rv]
        by (simp add: same_elsewhere_def tick_def)
    next
      case False
      then show ?thesis
        using 2 Inr zone_refresh_bounds
        by (cases ?new) (auto simp: same_elsewhere_def split: option.splits sum.splits)
    qed
  qed
qed (simp add: same_elsewhere_def)

text \<open>
  C35: Whatever the primaries answer, every round of a secondary sets its timer
  between 15 seconds and a day.  Without a NOTIFY it waits exactly that long; a
  NOTIFY that comes earlier ends the wait at that moment, one that came during
  the round at once, and no NOTIFY makes it longer.  The rounds never touch
  another zone, and keep all zones of the server well formed.
\<close>
theorem secondary_rounds:
  assumes "run_secondary sign check rounds sec rv = Some (waits, rv')" "list_all wf_zone (rv_zones rv)"
  shows "list_all2 (\<lambda>(pr, kick) (timer, wait). 15 \<le> timer \<and> timer \<le> 86400 \<and> wait \<le> timer \<and>
      (kick = None \<longrightarrow> wait = timer) \<and> (\<forall>t. kick = Some t \<longrightarrow> wait = min t timer)) rounds waits \<and>
    (\<forall>n. n \<noteq> se_origin sec \<longrightarrow> find (\<lambda>z. z_origin z = n) (rv_zones rv') = find (\<lambda>z. z_origin z = n) (rv_zones rv)) \<and>
    list_all wf_zone (rv_zones rv')"
  using assms
proof (induction rounds arbitrary: rv waits)
  case (Cons round rounds)
  obtain pr kick where round: "round = (pr, kick)" by (cases round)
  obtain w rv1 ws where r: "refresh_round sign check pr sec rv = Some (w, rv1)"
    "run_secondary sign check rounds sec rv1 = Some (ws, rv')" "waits = (w, secondary_pause w kick) # ws"
    using Cons.prems(1) by (auto simp: round split: option.splits)
  note k = refresh_loop_keeps [OF r(1) [unfolded refresh_round_def]]
  have "secondary_pause w kick \<le> w \<and> (kick = None \<longrightarrow> secondary_pause w kick = w) \<and>
      (\<forall>t. kick = Some t \<longrightarrow> secondary_pause w kick = min t w)"
    by (auto simp: secondary_pause_def min_def split: option.splits)
  with Cons.IH [OF r(2)] k Cons.prems(2) r(3) show ?case by (simp add: same_elsewhere_def round)
qed simp

text \<open>
  C9: A secondary converges.  In a round where the primaries before \<open>p\<close> do not
  answer, \<open>p\<close> announces a serial that is newer than the copy (or there is no
  copy), and \<open>p\<close> is a server of this program that offers the zone, the
  secondary afterwards serves a zone with the primary's SOA and records; and a
  later round in which \<open>p\<close> announces that serial changes nothing.
\<close>
theorem secondary_converges:
  assumes "se_primaries sec = before @ p # after" "se_origin sec = z_origin z"
    and "\<forall>b \<in> set before. \<exists>e. query_soa_serial (ho_sign ho) (pr_udp pr b) (pr_now pr) (pr_soa_id pr b) (z_origin z) (se_tsig_key sec) = Inl e"
    and "query_soa_serial (ho_sign ho) (pr_udp pr p) (pr_now pr) (pr_soa_id pr p) (z_origin z) (se_tsig_key sec) = Inr serial"
    and "\<forall>y. find (\<lambda>y. z_origin y = z_origin z) (rv_zones rv) = Some y \<longrightarrow> serial_gt serial (zone_serial y)"
    and "pr_tcp pr p = primary_exchange ho peer sv" "offers ho peer (pr_axfr_id pr p) sv z"
    and "accepts_key ho sv (pr_now pr) (pr_clock pr) (se_tsig_key sec)" "serial = zone_serial z"
  shows "\<exists>wait rv' z'. refresh_round (ho_sign ho) (ho_check ho) pr sec rv = Some (wait, rv') \<and>
    find (\<lambda>y. z_origin y = z_origin z) (rv_zones rv') = Some z' \<and> z_soa z' = z_soa z \<and>
    records_mset (z_records z') = records_mset (z_records z) \<and>
    map_option snd (refresh_round (ho_sign ho) (ho_check ho) pr sec rv') = Some rv'"
proof -
  obtain z' where z': "axfr_pull (ho_sign ho) (ho_check ho) (pr_tcp pr p) (pr_now pr) (pr_clock pr) (pr_axfr_id pr p)
      (z_origin z) (se_tsig_key sec) = Some (Inr z')"
    "z_origin z' = z_origin z" "z_soa z' = z_soa z" "records_mset (z_records z') = records_mset (z_records z)"
    using axfr_whole_zone [OF assms(7,8)] assms(6) by auto
  have skip: "refresh_loop (ho_sign ho) (ho_check ho) pr sec current (before @ p # after) rv =
      refresh_loop (ho_sign ho) (ho_check ho) pr sec current (p # after) rv" for current rv
    using assms(3) by (induction before) (auto simp: assms(2))
  let ?rv = "tick Axfr_in (upsert_zone z' rv)"
  have found: "find (\<lambda>y. z_origin y = z_origin z) (rv_zones ?rv) = Some z'"
    using upsert_zone_find [of "z_origin z" z' rv] z'(2) by (simp add: tick_def)
  have "refresh_round (ho_sign ho) (ho_check ho) pr sec rv = Some (zone_refresh z', ?rv)"
    using assms(2,4,5) z'(1) by (auto simp: refresh_round_def assms(1) skip split: option.splits)
  moreover have "map_option snd (refresh_round (ho_sign ho) (ho_check ho) pr sec ?rv) = Some ?rv"
    using assms(2,4,9) found z'(3) by (simp add: refresh_round_def assms(1) skip serial_gt_def zone_serial_def)
  ultimately show ?thesis using found z'(3,4) by blast
qed

definition sample_secondary :: secondary where
  "sample_secondary = \<lparr>se_origin = [[101]], se_primaries = [(V4 1, 53)], se_tsig_key = Some sample_tsig_key\<rparr>"

definition sample_soa_reply :: message where
  "sample_soa_reply = (response_to (xfr_query 3 [[101]] TYPE_SOA))\<lparr>m_answers := [sample_soa]\<rparr>"

definition sample_primaries :: primaries where
  "sample_primaries =
     \<lparr>pr_udp = (\<lambda>p w. Some (message_encode sample_soa_reply)), pr_tcp = (\<lambda>p. primary_exchange sample_host (V4 1) sample_server),
      pr_soa_id = (\<lambda>_. 3), pr_axfr_id = (\<lambda>_. 7), pr_now = 1000, pr_clock = (\<lambda>_. 1000)\<rparr>"

theorem secondary_rounds_witness:
  "\<exists>waits rv'. run_secondary (ho_sign sample_host) (ho_check sample_host)
      [(sample_primaries\<lparr>pr_udp := (\<lambda>_ _. None)\<rparr>, None), (sample_primaries\<lparr>pr_udp := (\<lambda>_ _. None)\<rparr>, Some 2)] sample_secondary
      sample_resolver = Some (waits, rv') \<and> waits = [(60, 60), (60, 2)] \<and> list_all wf_zone (rv_zones rv')"
proof -
  have r: "run_secondary (ho_sign sample_host) (ho_check sample_host)
      [(sample_primaries\<lparr>pr_udp := (\<lambda>_ _. None)\<rparr>, None), (sample_primaries\<lparr>pr_udp := (\<lambda>_ _. None)\<rparr>, Some 2)] sample_secondary
      sample_resolver = Some ([(60, 60), (60, 2)], sample_resolver)"
    by (simp add: refresh_round_def sample_secondary_def query_soa_serial_def secondary_pause_def split: prod.splits)
  have "list_all wf_zone (rv_zones sample_resolver)" by (simp add: sample_resolver_def resolver_new_def)
  from secondary_rounds [OF r this] r show ?thesis by blast
qed

lemma sample_accepts_key: "accepts_key sample_host sample_server 1000 (\<lambda>_. 1000) (Some sample_tsig_key)"
  using sample_shared_key
  by (simp add: accepts_key_def sample_server_def ring_insert_def abs_diff_def) (simp add: sample_host_def)

lemma sample_soa_reply_small: "length (message_encode sample_soa_reply) \<le> 2048"
  unfolding sample_soa_reply_def by code_simp

lemma sample_soa_reply_ok: "message_ok sample_soa_reply"
  by (simp add: message_ok_def sample_soa_reply_def response_to_def xfr_query_def message_new_def flags_default_def sample_soa_def
      rr_ok_def question_ok_def name_ok_def wf_name_def wf_label_def lower_label_def to_lower_def)

theorem secondary_converges_witness:
  "\<exists>wait rv' z'. refresh_round (ho_sign sample_host) (ho_check sample_host) sample_primaries sample_secondary sample_resolver =
      Some (wait, rv') \<and> find (\<lambda>y. z_origin y = z_origin sample_zone) (rv_zones rv') = Some z' \<and> z_soa z' = z_soa sample_zone"
proof -
  have o: "z_origin sample_zone = [[101]]" by (simp add: sample_zone_def)
  have "message_parse (take 2048 (message_encode sample_soa_reply)) = Inr sample_soa_reply"
    using sample_soa_reply_small message_encode_parse [OF sample_soa_reply_ok] by simp
  then have soa: "query_soa_serial (ho_sign sample_host) (pr_udp sample_primaries (V4 1, 53)) (pr_now sample_primaries)
      (pr_soa_id sample_primaries (V4 1, 53)) (z_origin sample_zone) (se_tsig_key sample_secondary) = Inr 1"
    by (simp add: query_soa_serial_def sample_primaries_def o split: prod.splits)
      (simp add: sample_soa_reply_def response_to_def xfr_query_def message_new_def sample_soa_def flags_default_def)
  have "find (\<lambda>y. z_origin y = z_origin sample_zone) (rv_zones sample_resolver) = None"
    by (simp add: sample_resolver_def resolver_new_def)
  then show ?thesis
    using secondary_converges [OF _ _ _ soa, of "[]" "[]" sample_resolver "V4 1" sample_server] sample_offers sample_accepts_key o
    by (fastforce simp: sample_secondary_def sample_primaries_def zone_serial_def sample_zone_def sample_soa_def)
qed

section \<open>Transfers without a signature\<close>

text \<open>
  C39: A secondary configured with a TSIG key accepts a transfer that carries no
  TSIG at all: \<open>axfr_pull\<close> verifies only messages that are signed, so whoever
  can answer the connection, without knowing the key and whatever the HMAC
  checks would say, installs a zone of its choice.
\<close>
theorem tsig_downgrade:
  assumes "wf_zone z" "transferable (xfr_query i (z_origin z) TYPE_AXFR) (all_records z @ [z_soa z])" "name_ok (z_origin z)"
  shows "\<exists>z'. axfr_pull sign check (\<lambda>_. Some (concat (axfr_messages z (xfr_query i (z_origin z) TYPE_AXFR)))) now clock i
      (z_origin z) (Some k) = Some (Inr z') \<and>
    z_soa z' = z_soa z \<and> records_mset (z_records z') = records_mset (z_records z)"
proof -
  let ?q = "xfr_query i (z_origin z) TYPE_AXFR"
  let ?chunks = "chunks AXFR_CHUNK (all_records z @ [z_soa z])"
  have i: "m_id ?q = i" using xfr_query_ok(4) [OF assms(3)] by simp
  have acc: "transfer_accepted check (Some k) keyring clock i 0 prior
      (map (\<lambda>as. message_encode (transfer_message ?q as)) ?chunks) (map (transfer_message ?q) ?chunks)" for keyring prior
    using transfer_accepted_unsigned [of ?chunks ?q check "Some k" keyring clock 0 prior] transferable_chunk [OF assms(2)] i by simp
  have "pull_loop check (Some k) keyring clock i 0 (concat (axfr_messages z ?q)) prior [] 0 = Some (Inr (all_records z))" for keyring prior
    using pull_whole_zone [OF assms(1) acc] by (simp add: axfr_messages_def frame_transfer_def comp_def)
  then show ?thesis
    using from_all_records [OF assms(1)] i by (auto simp: axfr_pull_def Let_def split: prod.splits)
qed

theorem tsig_downgrade_witness:
  "\<exists>z'. axfr_pull (ho_sign sample_host) (\<lambda>a s d tag. False) (\<lambda>_. Some (concat (axfr_messages sample_zone (xfr_query 7 (z_origin sample_zone) TYPE_AXFR))))
      1000 (\<lambda>_. 1000) 7 (z_origin sample_zone) (Some sample_tsig_key) = Some (Inr z') \<and> z_soa z' = z_soa sample_zone"
proof -
  have "name_ok (z_origin sample_zone)" using sample_offers by (simp add: offers_def)
  moreover have "transferable (xfr_query 7 (z_origin sample_zone) TYPE_AXFR) (all_records sample_zone @ [z_soa sample_zone])"
    using sample_offers xfr_query_ok(2) [OF calculation]
    by (auto simp: offers_def transferable_def list_all_iff all_records_def)
  ultimately show ?thesis using tsig_downgrade [OF sample_zone_wf] by blast
qed

section \<open>Notifications\<close>

definition notify_message :: "u16 \<Rightarrow> dns_name \<Rightarrow> message" where
  "notify_message i origin =
     (message_new i (flags_default\<lparr>fl_opcode := OPCODE_NOTIFY, fl_aa := True\<rparr>))
     \<lparr>m_questions := [\<lparr>q_name = origin, q_type = TYPE_SOA, q_class = CLASS_IN\<rparr>]\<rparr>"

lemma notify_message_wire:
  assumes "name_ok origin"
  shows "message_parse (message_encode (notify_message i origin)) = Inr (notify_message i origin)"
    "length (message_encode (notify_message i origin)) \<le> 512"
proof -
  have "message_ok (notify_message i origin)"
    using assms by (simp add: message_ok_def notify_message_def message_new_def flags_default_def question_ok_def)
  then show "message_parse (message_encode (notify_message i origin)) = Inr (notify_message i origin)"
    by (rule message_encode_parse)
  have "length (fst (name_bytes origin 12 (Some new_compressor))) \<le> 255"
    using assms length_name_bytes [of origin 12 "Some new_compressor"] by (simp add: name_ok_def wf_name_def)
  then show "length (message_encode (notify_message i origin)) \<le> 512"
    by (simp add: message_encode_def notify_message_def message_new_def question_encode_def to_wire_with_bytes)
qed

text \<open>
  The notification a primary sends after a change, delivered as a datagram
  to a server that is secondary for the zone and does not limit the sender,
  wakes the zone's refresh loop and nothing else, and is acknowledged with
  NOERROR; for any other zone it is refused.
\<close>
theorem notify_delivered:
  assumes "name_ok origin" "\<not> fst (limited ho peer (sv_count Queries_udp sv))"
  shows "\<exists>reply sv'. udp_step ho peer (message_encode (notify_message i origin)) sv =
      Some (Some (message_encode reply), sv', if origin \<in> set (sc_secondaries sv) then [Kick_secondary origin] else []) \<and>
    m_id reply = i \<and> fl_qr (m_flags reply) \<and>
    fl_rcode (m_flags reply) = (if origin \<in> set (sc_secondaries sv) then RCODE_NOERROR else RCODE_REFUSED) \<and>
    rv_zones (sc_resolver sv') = rv_zones (sc_resolver sv) \<and> rv_cache (sc_resolver sv') = rv_cache (sc_resolver sv)"
proof -
  let ?m = "notify_message i origin"
  obtain sv1 where l: "limited ho peer (sv_count Queries_udp sv) = (False, sv1)"
    using assms(2) by (metis (full_types) prod.collapse)
  have keep: "sc_secondaries sv1 = sc_secondaries sv" "rv_zones (sc_resolver sv1) = rv_zones (sc_resolver sv)"
    "rv_cache (sc_resolver sv1) = rv_cache (sc_resolver sv)"
    using l by (auto simp: limited_def sv_count_def tick_def Let_def split: option.splits prod.splits if_splits)
  have t: "take 4096 (message_encode ?m) = message_encode ?m" using notify_message_wire(2) [OF assms(1), of i] by simp
  have n: "fl_opcode (m_flags ?m) = OPCODE_NOTIFY" "m_questions ?m = [\<lparr>q_name = origin, q_type = TYPE_SOA, q_class = CLASS_IN\<rparr>]" "m_id ?m = i"
    by (simp_all add: notify_message_def message_new_def flags_default_def)
  have "udp_step ho peer (message_encode ?m) sv =
      map_option (\<lambda>(wire, rest). (Some wire, rest)) (udp_query ho peer ?m (message_encode ?m) sv1)"
    using l notify_message_wire(1) [OF assms(1), of i] by (simp add: udp_step_def t)
  then show ?thesis
    using keep n by (auto simp: udp_query_def handle_notify_def sv_count_def tick_def Let_def set_rcode_def response_to_def message_new_def flags_default_def)
qed

theorem notify_delivered_witness:
  "\<exists>reply sv'. udp_step sample_host (V4 1) (message_encode (notify_message 5 [[101]])) (sample_server\<lparr>sc_secondaries := [[[101]]]\<rparr>) =
     Some (Some (message_encode reply), sv', [Kick_secondary [[101]]])"
proof -
  have "name_ok [[101]]" by (simp add: name_ok_def wf_name_def wf_label_def lower_label_def to_lower_def)
  moreover have "\<not> fst (limited sample_host (V4 1) (sv_count Queries_udp (sample_server\<lparr>sc_secondaries := [[[101]]]\<rparr>)))"
    by (simp add: limited_def sv_count_def sample_server_def)
  ultimately show ?thesis using notify_delivered [of "[[101]]"] by fastforce
qed

end
