(* ===== verification/Doh.thy ===== *)
theory Doh
  imports Server_Transfer Http_Text
begin

text \<open>
  DNS over HTTPS: the request parser and the reply of \<open>dns-tls/src/lib.rs\<close>, and
  the HTTP/1.1 and HTTP/2 front ends of \<open>rdns/src/server.rs\<close>.  The HTTP/2
  framing of the \<open>h2\<close> crate is replaced by the method, the target and the data
  frames of a request, and by the status, headers and data of the response.
\<close>

section \<open>Requests and replies\<close>

definition ends_with_text :: "string \<Rightarrow> string \<Rightarrow> bool" where
  "ends_with_text s suffix \<longleftrightarrow> length suffix \<le> length s \<and> drop (length s - length suffix) s = suffix"

definition parse_doh :: "string \<Rightarrow> bytes \<Rightarrow> bytes option" where
  "parse_doh head body =
     (case text_lines head of
        [] \<Rightarrow> None
      | l # _ \<Rightarrow>
          (case split_whitespace l of
             method # target # _ \<Rightarrow>
               if \<not> ends_with_text (hd (split_on CHR ''?'' target)) ''/dns-query'' then None
               else if method = ''POST'' then Some body
               else if method = ''GET'' then
                 Option.bind (split_once CHR ''?'' target) (\<lambda>(_, query).
                 Option.bind (find_map (strip_prefix ''dns='') (split_on CHR ''&'' query)) base64url_decode)
               else None
           | _ \<Rightarrow> None))"

definition doh_response :: "bytes \<Rightarrow> bytes" where
  "doh_response dns =
     as_bytes (''HTTP/1.1 200 OK'' @ CRLF @ ''Content-Type: application/dns-message'' @ CRLF @
       ''Content-Length: '' @ show_nat (length dns) @ CRLF @ ''Cache-Control: max-age=0'' @ CRLF @
       ''Connection: keep-alive'' @ CRLF @ CRLF) @ dns"

definition http_error :: "string \<Rightarrow> bytes" where
  "http_error status =
     as_bytes (''HTTP/1.1 '' @ status @ CRLF @ ''Content-Length: 0'' @ CRLF @ ''Connection: close'' @ CRLF @ CRLF)"

section \<open>HTTP/1.1\<close>

definition doh_content_length :: "string \<Rightarrow> nat" where
  "doh_content_length head =
     (case find_map (\<lambda>l. Option.bind (header_line ''content-length'' l) (parse_uint (2 ^ 64 - 1))) (text_lines head) of
        Some n \<Rightarrow> n
      | None \<Rightarrow> 0)"

text \<open>The answer to a request whose head and body are read.\<close>

definition doh_exchange ::
  "host \<Rightarrow> ip_addr \<Rightarrow> string \<Rightarrow> bytes \<Rightarrow> server_ctx \<Rightarrow> (bytes \<times> server_ctx \<times> effect list) option" where
  "doh_exchange ho peer head body sv =
     (let sv1 = sv_count Queries_tcp sv in
      case parse_doh head body of
        Some dns \<Rightarrow>
          map_option (\<lambda>(reply, rest). (doh_response reply, rest)) (handle_query_bytes ho dns peer ''doh'' sv1)
      | None \<Rightarrow> Some (http_error ''404 Not Found'', sv1, []))"

definition serve_doh_conn ::
  "host \<Rightarrow> ip_addr \<Rightarrow> bytes list \<Rightarrow> server_ctx \<Rightarrow> (bytes option \<times> server_ctx \<times> effect list) option" where
  "serve_doh_conn ho peer stream sv =
     (case read_head 8192 stream [] of
        Closed \<Rightarrow> Some (None, sv, [])
      | Too_long \<Rightarrow> Some (Some (http_error ''431 Request Header Fields Too Large''), sv, [])
      | Head n buf rest \<Rightarrow>
          let head = from_utf8_lossy (take n buf);
              content_length = doh_content_length head in
          if content_length > 65535 then Some (Some (http_error ''413 Payload Too Large''), sv, [])
          else
            (case read_body content_length rest (drop n buf) of
               None \<Rightarrow> Some (None, sv, [])
             | Some body \<Rightarrow> map_option (\<lambda>(out, rest). (Some out, rest)) (doh_exchange ho peer head body sv)))"

section \<open>HTTP/2\<close>

record h2_response =
  h2_status :: nat
  h2_headers :: "(string \<times> string) list"
  h2_data :: "bytes option"

text \<open>The data frames of a request; \<open>None\<close> is a stream error.\<close>

fun h2_body :: "bytes option list \<Rightarrow> bytes \<Rightarrow> bytes option" where
  "h2_body [] body = Some body"
| "h2_body (None # frames) body = None"
| "h2_body (Some chunk # frames) body =
     (if length (body @ chunk) > 65535 then Some (body @ chunk) else h2_body frames (body @ chunk))"

definition h2_ok :: "bytes \<Rightarrow> h2_response" where
  "h2_ok dns =
     \<lparr>h2_status = 200,
      h2_headers = [(''content-type'', ''application/dns-message''),
                    (''content-length'', show_nat (length dns)), (''cache-control'', ''max-age=0'')],
      h2_data = Some dns\<rparr>"

definition handle_h2_request ::
  "host \<Rightarrow> ip_addr \<Rightarrow> string \<Rightarrow> string option \<Rightarrow> bytes option list \<Rightarrow> server_ctx \<Rightarrow>
    (h2_response option \<times> server_ctx \<times> effect list) option" where
  "handle_h2_request ho peer method path_and_query frames sv =
     (let head = method @ '' '' @ (case path_and_query of Some p \<Rightarrow> p | None \<Rightarrow> ''/'') @ '' HTTP/2'' in
      case h2_body frames [] of
        None \<Rightarrow> Some (None, sv, [])
      | Some body \<Rightarrow>
          let sv1 = sv_count Queries_tcp sv in
          (case parse_doh head body of
             Some q \<Rightarrow>
               map_option (\<lambda>(dns, rest).
                 (Some (h2_ok dns), rest))
                 (handle_query_bytes ho q peer ''doh'' sv1)
           | None \<Rightarrow> Some (Some \<lparr>h2_status = 404, h2_headers = [], h2_data = None\<rparr>, sv1, [])))"

section \<open>The request line\<close>

lemma parse_doh_line:
  assumes "list_all visible method" "method \<noteq> []" "list_all visible target" "target \<noteq> []"
    "list_all visible version" "version \<noteq> []" "text_lines head = (method @ '' '' @ target @ '' '' @ version) # ls"
  shows "parse_doh head body =
    (if \<not> ends_with_text (hd (split_on CHR ''?'' target)) ''/dns-query'' then None
     else if method = ''POST'' then Some body
     else if method = ''GET'' then
       Option.bind (split_once CHR ''?'' target) (\<lambda>(_, query).
       Option.bind (find_map (strip_prefix ''dns='') (split_on CHR ''&'' query)) base64url_decode)
     else None)"
  using split_whitespace_join [of "[method, target, version]"] assms by (simp add: parse_doh_def)

text \<open>The unpadded URL-safe base64 of a query.\<close>

definition url64 :: "bytes \<Rightarrow> string" where
  "url64 q = map to_url (filter (\<lambda>c. c \<noteq> CHR ''='') (b64 q))"

lemma url64_chars: "list_all visible (url64 q)" "CHR ''&'' \<notin> set (url64 q)" "CHR ''?'' \<notin> set (url64 q)"
proof -
  have a: "list_all (\<lambda>c. visible (to_url c) \<and> to_url c \<noteq> CHR ''&'' \<and> to_url c \<noteq> CHR ''?'') b64_alphabet"
    by (simp add: b64_alphabet_def to_url_def visible_def)
  have "visible c \<and> c \<noteq> CHR ''&'' \<and> c \<noteq> CHR ''?''" if c: "c \<in> set (url64 q)" for c
  proof -
    obtain d where "d \<in> set (b64 q)" "d \<noteq> CHR ''=''" "c = to_url d" using c by (auto simp: url64_def)
    then show ?thesis using b64_in_alphabet [of d q] a by (auto simp: list_all_iff)
  qed
  then show "list_all visible (url64 q)" "CHR ''&'' \<notin> set (url64 q)" "CHR ''?'' \<notin> set (url64 q)"
    by (auto simp: list_all_iff)
qed

lemma url64_decode: "base64url_decode (url64 q) = Some q"
  using base64_roundtrip [of q] by (simp add: url64_def)

abbreviation (input) get_target :: "bytes \<Rightarrow> string" where
  "get_target q \<equiv> ''/dns-query?dns='' @ url64 q"

lemma get_target_parts:
  "list_all visible (get_target q)" "split_once CHR ''?'' (get_target q) = Some (''/dns-query'', ''dns='' @ url64 q)"
  "hd (split_on CHR ''?'' (get_target q)) = ''/dns-query''"
  "find_map (strip_prefix ''dns='') (split_on CHR ''&'' (''dns='' @ url64 q)) = Some (url64 q)"
proof -
  show "list_all visible (get_target q)" using url64_chars by (simp add: visible_def)
  have "CHR ''?'' \<notin> set ''/dns-query''" by simp
  from split_once_append [OF this] split_on_append [OF this]
  show "split_once CHR ''?'' (get_target q) = Some (''/dns-query'', ''dns='' @ url64 q)"
    "hd (split_on CHR ''?'' (get_target q)) = ''/dns-query''"
    by (metis append.assoc append_Cons append_Nil, metis append.assoc append_Cons append_Nil list.sel(1))
  have "CHR ''&'' \<notin> set (''dns='' @ url64 q)" using url64_chars by simp
  then have "split_on CHR ''&'' (''dns='' @ url64 q) = [''dns='' @ url64 q]" by (rule split_on_no_sep)
  then show "find_map (strip_prefix ''dns='') (split_on CHR ''&'' (''dns='' @ url64 q)) = Some (url64 q)"
    using strip_prefix_append [of "''dns=''" "url64 q"] by simp
qed

lemma visible_no_LF: "list_all visible s \<Longrightarrow> LF \<notin> set s"
  by (auto simp: list_all_iff visible_def)

text \<open>A GET with the query in its target and a POST with the query in its body are the same request.\<close>

lemma parse_doh_get:
  assumes "list_all visible version" "version \<noteq> []"
    "text_lines head = (''GET '' @ get_target q @ '' '' @ version) # ls"
  shows "parse_doh head body = Some q"
proof -
  have "list_all visible ''GET''" "list_all visible ''/dns-query''" by (simp_all add: visible_def)
  moreover have "ends_with_text ''/dns-query'' ''/dns-query''" by (simp add: ends_with_text_def)
  ultimately show ?thesis
    using parse_doh_line [of "''GET''" "get_target q" version head ls body] assms get_target_parts [of q] url64_decode [of q]
    by simp
qed

lemma parse_doh_post:
  assumes "list_all visible version" "version \<noteq> []"
    "text_lines head = (''POST /dns-query '' @ version) # ls"
  shows "parse_doh head body = Some body"
proof -
  have "list_all visible ''POST''" "list_all visible ''/dns-query''" by (simp_all add: visible_def)
  moreover have "split_on CHR ''?'' ''/dns-query'' = [''/dns-query'']" by (rule split_on_no_sep) simp
  moreover have "ends_with_text ''/dns-query'' ''/dns-query''" by (simp add: ends_with_text_def)
  ultimately show ?thesis
    using parse_doh_line [of "''POST''" "''/dns-query''" version head ls body] assms by simp
qed

text \<open>The head and the body of an HTTP/1.1 request that carries the query.\<close>

definition carries :: "bytes \<Rightarrow> bytes \<Rightarrow> bytes \<Rightarrow> bool" where
  "carries head body q \<longleftrightarrow>
     valid_utf8 head \<and> head_length head = Some (length head) \<and> length head \<le> 8192 \<and> length body \<le> 65535 \<and>
     doh_content_length (map char_of_byte head) = length body \<and>
     (case text_lines (map char_of_byte head) of
        [] \<Rightarrow> False
      | l # _ \<Rightarrow> l = ''GET '' @ get_target q @ '' HTTP/1.1'' \<and> body = [] \<or> l = ''POST /dns-query HTTP/1.1'' \<and> body = q)"

lemma carries_parse:
  assumes "carries head body q"
  shows "parse_doh (from_utf8_lossy head) body = Some q" "doh_content_length (from_utf8_lossy head) = length body"
proof -
  have head: "from_utf8_lossy head = map char_of_byte head"
    using assms from_utf8_lossy_valid by (simp add: carries_def)
  have v: "list_all visible ''HTTP/1.1''" by (simp add: visible_def)
  obtain l ls where ls: "text_lines (map char_of_byte head) = l # ls"
    using assms by (cases "text_lines (map char_of_byte head)") (auto simp: carries_def)
  then consider "l = ''GET '' @ get_target q @ '' HTTP/1.1''" | "l = ''POST /dns-query HTTP/1.1''" "body = q"
    using assms by (auto simp: carries_def)
  then show "parse_doh (from_utf8_lossy head) body = Some q"
  proof cases
    case 1
    then show ?thesis using parse_doh_get [OF v, of "map char_of_byte head" q ls] ls head by simp
  next
    case 2
    then show ?thesis using parse_doh_post [OF v, of "map char_of_byte head" ls] ls head by simp
  qed
  show "doh_content_length (from_utf8_lossy head) = length body" using assms head by (simp add: carries_def)
qed

lemma serve_doh_request:
  assumes "carries head body q" "concat stream = head @ body @ extra" "list_all (\<lambda>c. c \<noteq> []) stream"
  shows "serve_doh_conn ho peer stream sv =
    map_option (\<lambda>(out, rest). (Some out, rest)) (doh_exchange ho peer (from_utf8_lossy head) body sv)"
proof -
  have c: "head_length head = Some (length head)" "length head \<le> 8192" "length body \<le> 65535"
    using assms(1) by (simp_all add: carries_def)
  have "head_length ([] @ concat stream) = Some (length head)"
    using head_length_append(1) [OF c(1)] assms(2) by simp
  moreover have "head \<noteq> []" using head_length_le [OF c(1)] by auto
  ultimately obtain buf rest where h: "read_head 8192 stream [] = Head (length head) buf rest"
    "buf @ concat rest = head @ body @ extra" "length head \<le> length buf" "list_all (\<lambda>c. c \<noteq> []) rest"
    using read_head_complete [of "[]" stream "length head" 8192] c assms(2,3) by auto
  have take: "take (length head) buf = head"
    using arg_cong [OF h(2), of "take (length head)"] h(3) by simp
  have "drop (length head) buf @ concat rest = body @ extra"
    using arg_cong [OF h(2), of "drop (length head)"] h(3) by simp
  then have "read_body (length body) rest (drop (length head) buf) = Some body"
    using read_body_complete [of "length body" "drop (length head) buf" rest] h(4) by simp
  then show ?thesis
    using h(1) take c(3) carries_parse(2) [OF assms(1)] by (simp add: serve_doh_conn_def Let_def)
qed

lemma h2_body_frames:
  "length (body @ concat cs) \<le> 65535 \<Longrightarrow> h2_body (map Some cs) body = Some (body @ concat cs)"
  by (induction cs arbitrary: body) simp_all

abbreviation doh_answer :: "host \<Rightarrow> ip_addr \<Rightarrow> bytes \<Rightarrow> server_ctx \<Rightarrow> (bytes \<times> server_ctx \<times> effect list) option" where
  "doh_answer ho peer q sv \<equiv> handle_query_bytes ho q peer ''doh'' (sv_count Queries_tcp sv)"

section \<open>Properties\<close>

text \<open>
  C15: A query sent over HTTPS gets the reply of the shared query handler.
  Over HTTP/1.1 it does so however the stream cuts the request into reads, and
  whatever follows the request; over HTTP/2 however the body is cut into data
  frames.  A GET carries the query as URL-safe base64 in its target, a POST as
  its body.
\<close>
theorem doh_reply:
  assumes "carries head body q" "concat stream = head @ body @ extra" "list_all (\<lambda>c. c \<noteq> []) stream"
    and "concat frames = q" "length q \<le> 65535"
  shows "serve_doh_conn ho peer stream sv = map_option (\<lambda>(dns, rest). (Some (doh_response dns), rest)) (doh_answer ho peer q sv) \<and>
    handle_h2_request ho peer ''GET'' (Some (get_target q)) [] sv = map_option (\<lambda>(dns, rest). (Some (h2_ok dns), rest)) (doh_answer ho peer q sv) \<and>
    handle_h2_request ho peer ''POST'' (Some ''/dns-query'') (map Some frames) sv =
      map_option (\<lambda>(dns, rest). (Some (h2_ok dns), rest)) (doh_answer ho peer q sv)"
proof (intro conjI)
  show "serve_doh_conn ho peer stream sv = map_option (\<lambda>(dns, rest). (Some (doh_response dns), rest)) (doh_answer ho peer q sv)"
    using serve_doh_request [OF assms(1-3)] carries_parse(1) [OF assms(1)]
    by (cases "doh_answer ho peer q sv") (auto simp: doh_exchange_def)
  have v: "list_all visible ''HTTP/2''" by (simp add: visible_def)
  have "LF \<notin> set (''GET '' @ get_target q @ '' HTTP/2'')"
    using visible_no_LF [OF get_target_parts(1), of q] by auto
  then have "text_lines (''GET '' @ get_target q @ '' HTTP/2'') = [''GET '' @ get_target q @ '' HTTP/2'']"
    by (rule single_line) simp
  then have "parse_doh (''GET '' @ get_target q @ '' HTTP/2'') [] = Some q"
    using parse_doh_get [OF v, of "''GET '' @ get_target q @ '' HTTP/2''" q "[]" "[]"] by simp
  then show "handle_h2_request ho peer ''GET'' (Some (get_target q)) [] sv =
      map_option (\<lambda>(dns, rest). (Some (h2_ok dns), rest)) (doh_answer ho peer q sv)"
    by (simp add: handle_h2_request_def)
  have "text_lines ''POST /dns-query HTTP/2'' = [''POST /dns-query HTTP/2'']"
    by (rule single_line) simp_all
  then have "parse_doh ''POST /dns-query HTTP/2'' q = Some q"
    using parse_doh_post [OF v, of "''POST /dns-query HTTP/2''" "[]" q] by simp
  moreover have "h2_body (map Some frames) [] = Some q" using h2_body_frames [of "[]" frames] assms(4,5) by simp
  ultimately show "handle_h2_request ho peer ''POST'' (Some ''/dns-query'') (map Some frames) sv =
      map_option (\<lambda>(dns, rest). (Some (h2_ok dns), rest)) (doh_answer ho peer q sv)"
    by (simp add: handle_h2_request_def)
qed

definition sample_doh_head :: bytes where
  "sample_doh_head = as_bytes (''POST /dns-query HTTP/1.1'' @ CRLF @ ''Content-Length: 2'' @ CRLF @ CRLF)"

lemma sample_carries: "carries sample_doh_head [0xAB, 0xCD] [0xAB, 0xCD]"
proof -
  have chs: "map char_of_byte sample_doh_head = ''POST /dns-query HTTP/1.1'' @ CRLF @ ''Content-Length: 2'' @ CRLF @ CRLF"
    by code_simp
  have "valid_utf8 sample_doh_head" "head_length sample_doh_head = Some (length sample_doh_head)" "length sample_doh_head = 47"
    by code_simp+
  moreover have "text_lines (map char_of_byte sample_doh_head) = [''POST /dns-query HTTP/1.1'', ''Content-Length: 2'', []]"
    unfolding chs by code_simp
  moreover have "header_line ''content-length'' ''POST /dns-query HTTP/1.1'' = None"
    "header_line ''content-length'' ''Content-Length: 2'' = Some ''2''"
    by code_simp+
  ultimately show ?thesis by (simp add: carries_def doh_content_length_def parse_uint_def digit_val_def)
qed

theorem doh_reply_witness:
  "serve_doh_conn sample_host (V4 1) [take 30 sample_doh_head, drop 30 sample_doh_head @ [0xAB], [0xCD]] sample_server =
    map_option (\<lambda>(dns, rest). (Some (doh_response dns), rest))
      (doh_answer sample_host (V4 1) [0xAB, 0xCD] sample_server)"
proof -
  have "length sample_doh_head = 47" by code_simp
  then have "list_all (\<lambda>c. c \<noteq> []) [take 30 sample_doh_head, drop 30 sample_doh_head @ [0xAB], [0xCD]]" by auto
  then show ?thesis
    by (intro doh_reply [OF sample_carries, where extra = "[]" and frames = "[[0xAB, 0xCD]]", THEN conjunct1]) simp_all
qed

end
