(* ===== verification/Settings.thy ===== *)
theory Settings
  imports Secondary Zone_Roundtrip File_Path
begin

text \<open>
  The texts a server is configured with: networks of an access list
  (\<open>dns-guard/src/lib.rs\<close>), policy rules (\<open>dns-resolver/src/rpz.rs\<close>), trust
  anchors (\<open>dns-resolver/src/validator.rs\<close>), transaction keys
  (\<open>dns-tsig/src/lib.rs\<close>) and signing keys (\<open>dns-dnssec/src/lib.rs\<close>).
\<close>

section \<open>Access lists\<close>

definition parse_ip :: "string \<Rightarrow> ip_addr option" where
  "parse_ip s =
     (case parse_ipv4 s of Some a \<Rightarrow> Some (V4 a) | None \<Rightarrow> map_option V6 (parse_ipv6 s))"

datatype cidr_error =
    BadPrefix string
  | BadAddress string
  | PrefixTooLong byte string

definition cidr_from_str :: "string \<Rightarrow> cidr_error + cidr" where
  "cidr_from_str s =
     and_then (case split_once CHR ''/'' s of
         Some (a, p) \<Rightarrow> map_err (\<lambda>_. BadPrefix s) (and_then (ok_or () (parse_u8 p)) (\<lambda>n. Inr (a, Some n)))
       | None \<Rightarrow> Inr (s, None))
       (\<lambda>(addr, prefix).
          and_then (ok_or (BadAddress s) (parse_ip addr)) (\<lambda>net.
            let mx = (case net of V4 _ \<Rightarrow> 32 | V6 _ \<Rightarrow> 128);
                p = (case prefix of Some n \<Rightarrow> n | None \<Rightarrow> mx)
            in if p > mx then Inl (PrefixTooLong p s) else Inr \<lparr>ci_net = net, ci_prefix = p\<rparr>))"

fun acl_parse :: "string list \<Rightarrow> cidr_error + acl" where
  "acl_parse [] = Inr []"
| "acl_parse (e # es) =
     and_then (cidr_from_str e) (\<lambda>c. and_then (acl_parse es) (\<lambda>cs. Inr (c # cs)))"

section \<open>Policy rules\<close>

text \<open>\<open>RpzNoField\<close> is the panic of taking the first field of a line without one.\<close>

datatype rpz_error =
    RpzBadName nat string name_error
  | RpzBadAddress nat string
  | RpzTrailing nat
  | RpzNoField nat

definition rpz_line :: "string \<Rightarrow> string" where
  "rpz_line raw = trim (takeWhile (\<lambda>c. c \<noteq> CHR ''#'' \<and> c \<noteq> CHR '';'') raw)"

definition rpz_rule :: "nat \<Rightarrow> string \<Rightarrow> rpz_error + (dns_name \<times> rpz_action)" where
  "rpz_rule i line =
     (case split_whitespace line of
        [] \<Rightarrow> Inl (RpzNoField i)
      | name_str # args \<Rightarrow>
          and_then (map_err (RpzBadName (i + 1) name_str) (parse_str name_str)) (\<lambda>name.
          and_then (case args of
              [] \<Rightarrow> Inr Block
            | ip # _ \<Rightarrow> and_then (ok_or (RpzBadAddress (i + 1) ip) (parse_ip ip)) (\<lambda>a. Inr (Redirect a))) (\<lambda>action.
          if length args > 1 then Inl (RpzTrailing (i + 1)) else Inr (name, action))))"

fun rpz_lines :: "nat \<Rightarrow> string list \<Rightarrow> rpz \<Rightarrow> rpz_error + rpz" where
  "rpz_lines i [] rules = Inr rules"
| "rpz_lines i (raw # raws) rules =
     (let line = rpz_line raw in
      if line = [] then rpz_lines (i + 1) raws rules
      else and_then (rpz_rule i line) (\<lambda>(name, action). rpz_lines (i + 1) raws (AList.update name action rules)))"

definition rpz_parse :: "string \<Rightarrow> rpz_error + rpz" where
  "rpz_parse body = rpz_lines 0 (text_lines body) []"

section \<open>Trust anchors\<close>

fun hex_bytes :: "string \<Rightarrow> bytes option" where
  "hex_bytes [] = Some []"
| "hex_bytes [a] = None"
| "hex_bytes (a # b # rest) = Option.bind (hex_pair a b) (\<lambda>v. map_option ((#) v) (hex_bytes rest))"

definition root_ksk_2017 :: trust_anchor where
  "root_ksk_2017 =
     \<lparr>ta_zone = Dns_Name.root, ta_ds = to_be16 20326 @ [8, 2] @
        (case hex_bytes ''E06D44B80B8F1D39A95C0B0D7C65D08458E880409BBC683457104237C7F8EC8D'' of Some d \<Rightarrow> d | None \<Rightarrow> [])\<rparr>"

datatype anchor_error =
    NoDsRecord
  | EmptyAnchor
  | BadAnchorZone name_error
  | DsFieldCount
  | BadKeyTag
  | BadDsAlgorithm
  | BadDigestType
  | BadDigestHex

definition anchor_parse :: "string \<Rightarrow> anchor_error + trust_anchor option" where
  "anchor_parse raw =
     (let line = trim (takeWhile (\<lambda>c. c \<noteq> CHR '';'') raw) in
      if line = [] then Inr None
      else
        let toks = split_whitespace line in
        and_then (ok_or NoDsRecord (position (\<lambda>t. eq_ignore_ascii_case t ''DS'') toks)) (\<lambda>ds_pos.
        and_then (case toks of [] \<Rightarrow> Inl EmptyAnchor | t # _ \<Rightarrow> map_err BadAnchorZone (parse_str t)) (\<lambda>zone.
        case drop (ds_pos + 1) toks of
          f0 # f1 # f2 # f3 # fs \<Rightarrow>
            and_then (ok_or BadKeyTag (parse_u16 f0)) (\<lambda>tag.
            and_then (ok_or BadDsAlgorithm (parse_u8 f1)) (\<lambda>alg.
            and_then (ok_or BadDigestType (parse_u8 f2)) (\<lambda>digest_type.
            and_then (ok_or BadDigestHex (hex_bytes (concat (f3 # fs)))) (\<lambda>digest.
            Inr (Some \<lparr>ta_zone = zone, ta_ds = to_be16 tag @ [alg, digest_type] @ digest\<rparr>)))))
        | _ \<Rightarrow> Inl DsFieldCount)))"

section \<open>Transaction keys\<close>

datatype tsig_key_error = BadKeyName name_error | BadSecret

definition tsig_key_new :: "string \<Rightarrow> algorithm \<Rightarrow> string \<Rightarrow> tsig_key_error + tsig_key" where
  "tsig_key_new name algorithm secret_b64 =
     and_then (map_err BadKeyName (parse_str name)) (\<lambda>n.
     and_then (ok_or BadSecret (base64_decode secret_b64)) (\<lambda>secret.
     Inr \<lparr>tk_name = n, tk_algorithm = algorithm, tk_secret = secret\<rparr>))"

section \<open>Signing keys\<close>

text \<open>
  The key pairs of the libraries \<open>ring\<close> and \<open>rsa\<close>: loading a pair from its
  secret form gives its signing function and public key, generating one gives
  the secret as well.  A P-256 public key is an uncompressed point, its first
  byte and the rest; an RSA key has a public exponent and modulus, read by one
  library while the other loads the signing key.
\<close>

type_synonym signer = "bytes \<Rightarrow> bytes"

record key_lib =
  kl_ed25519 :: "bytes \<Rightarrow> (signer \<times> bytes) option"
  kl_p256 :: "bytes \<Rightarrow> (signer \<times> byte \<times> bytes) option"
  kl_rsa_numbers :: "bytes \<Rightarrow> (bytes \<times> bytes) option"
  kl_rsa :: "bytes \<Rightarrow> signer option"
  kl_new_seed :: "bytes option"
  kl_new_p256 :: "bytes option"
  kl_new_rsa :: "(bytes \<times> bytes \<times> bytes) option"

datatype key_error =
    NoColon
  | BadAlgorithmNumber
  | BadMaterialBase64
  | SeedLength
  | KeyRejected
  | UnsupportedAlgorithm byte
  | GenerationFailed

definition load_pair :: "key_lib \<Rightarrow> byte \<Rightarrow> bytes \<Rightarrow> key_error + (signer \<times> bytes)" where
  "load_pair kl algorithm secret =
     (if algorithm = ALG_ED25519 then
        if length secret \<noteq> 32 then Inl SeedLength else ok_or KeyRejected (kl_ed25519 kl secret)
      else if algorithm = ALG_ECDSAP256 then
        ok_or KeyRejected (map_option (\<lambda>(sg, _, xy). (sg, xy)) (kl_p256 kl secret))
      else if algorithm = ALG_RSASHA256 then
        and_then (ok_or KeyRejected (kl_rsa_numbers kl secret)) (\<lambda>(e, n).
        and_then (ok_or KeyRejected (kl_rsa kl secret)) (\<lambda>sg. Inr (sg, rsa_dnskey_public e n)))
      else Inl (UnsupportedAlgorithm algorithm))"

definition from_material :: "key_lib \<Rightarrow> dns_name \<Rightarrow> string \<Rightarrow> bool \<Rightarrow> key_error + dnssec_key" where
  "from_material kl signer_name encoded ksk =
     and_then (ok_or NoColon (split_once CHR '':'' encoded)) (\<lambda>(alg_str, b64s).
     and_then (ok_or BadAlgorithmNumber (parse_u8 alg_str)) (\<lambda>algorithm.
     and_then (ok_or BadMaterialBase64 (unb64 b64s)) (\<lambda>secret.
     and_then (load_pair kl algorithm secret) (\<lambda>(sg, pub). Inr (finish_key sg algorithm ksk signer_name pub)))))"

definition generate_key :: "key_lib \<Rightarrow> dns_name \<Rightarrow> byte \<Rightarrow> bool \<Rightarrow> key_error + (dnssec_key \<times> string)" where
  "generate_key kl signer_name algorithm ksk =
     and_then
       (if algorithm = ALG_ED25519 then
          and_then (ok_or GenerationFailed (kl_new_seed kl)) (\<lambda>seed.
          and_then (ok_or KeyRejected (kl_ed25519 kl seed)) (\<lambda>(sg, pub). Inr (sg, seed, pub)))
        else if algorithm = ALG_ECDSAP256 then
          and_then (ok_or GenerationFailed (kl_new_p256 kl)) (\<lambda>pkcs8.
          and_then (ok_or KeyRejected (kl_p256 kl pkcs8)) (\<lambda>(sg, _, xy). Inr (sg, pkcs8, xy)))
        else if algorithm = ALG_RSASHA256 then
          and_then (ok_or GenerationFailed (kl_new_rsa kl)) (\<lambda>(e, n, der).
          and_then (ok_or KeyRejected (kl_rsa kl der)) (\<lambda>sg. Inr (sg, der, rsa_dnskey_public e n)))
        else Inl (UnsupportedAlgorithm algorithm))
       (\<lambda>(sg, secret, pub).
          Inr (finish_key sg algorithm ksk signer_name pub, show_word algorithm @ '':'' @ b64 secret))"

definition hex2_upper :: "byte \<Rightarrow> string" where
  "hex2_upper b = to_ascii_uppercase (hex2 b)"

definition ds_presentation :: "crypto \<Rightarrow> dnssec_key \<Rightarrow> string" where
  "ds_presentation cr k =
     (let digest = cr_sha256 cr (name_out (dk_signer k) [] @ key_rdata k) in
      display_name (dk_signer k) @ '' IN DS '' @ show_word (dk_tag k) @ '' '' @ show_word (dk_algorithm k) @ '' 2 '' @
      concat (map hex2_upper digest))"

section \<open>Trimming\<close>

text \<open>The bytes of a text grouped into characters, and back.\<close>

definition char_groups :: "string list \<Rightarrow> bool" where
  "char_groups gs \<longleftrightarrow> list_all (\<lambda>g. g \<noteq> [] \<and> list_all (\<lambda>c. \<not> boundary_byte c) (tl g)) gs \<and>
     list_all (\<lambda>g. boundary_byte (hd g)) (tl gs)"

lemma chars_groups: "char_groups (chars s)" "concat (chars s) = s"
proof -
  show "concat (chars s) = s" by (induction s) (auto split: list.splits)
  show "char_groups (chars s)"
  proof (induction s)
    case (Cons c s)
    show ?case
    proof (cases "chars s")
      case (Cons d ds)
      then have "d \<noteq> []" using Cons.IH by (simp add: char_groups_def)
      then show ?thesis using Cons Cons.IH by (cases d) (auto simp: char_groups_def)
    qed (simp add: char_groups_def)
  qed (simp add: char_groups_def)
qed

lemma chars_of_group:
  "list_all (\<lambda>c. \<not> boundary_byte c) g \<Longrightarrow> (rest = [] \<or> boundary_byte (hd rest)) \<Longrightarrow>
     chars ((c # g) @ rest) = (c # g) # chars rest"
proof (induction g arbitrary: c)
  case Nil
  show ?case
  proof (cases rest)
    case (Cons r rs)
    obtain d ds where d: "chars rest = d # ds" using Cons by (cases "chars rest") (auto split: list.splits if_splits)
    moreover have "hd d = r" using chars_groups(2) [of rest] chars_groups(1) [of rest] d Cons by (cases d) (auto simp: char_groups_def)
    ultimately show ?thesis using Nil Cons by simp
  qed simp
qed simp

lemma chars_concat: "char_groups gs \<Longrightarrow> chars (concat gs) = gs"
proof (induction gs)
  case (Cons g gs)
  obtain c cs where g: "g = c # cs" "list_all (\<lambda>c. \<not> boundary_byte c) cs"
    using Cons.prems by (cases g) (auto simp: char_groups_def)
  have gs: "char_groups gs" using Cons.prems by (cases gs) (auto simp: char_groups_def)
  have "concat gs = [] \<or> boundary_byte (hd (concat gs))"
    using Cons.prems by (cases gs) (auto simp: char_groups_def)
  then show ?case using chars_of_group [OF g(2), of "concat gs" c] Cons.IH [OF gs] g(1) by simp
qed simp

lemma char_groups_drop: "char_groups gs \<Longrightarrow> char_groups (dropWhile P gs)"
proof (induction gs)
  case (Cons g gs)
  then have "char_groups gs" by (cases gs) (auto simp: char_groups_def)
  then show ?case using Cons by simp
qed simp

lemma char_groups_prefix: "char_groups (xs @ ys) \<Longrightarrow> char_groups xs"
  by (cases xs) (auto simp: char_groups_def)

lemma split_by_some: "x \<in> set xs \<Longrightarrow> \<not> P x \<Longrightarrow> \<exists>w \<in> set (split_by P xs). w \<noteq> []"
  by (induction xs) (fastforce split: list.splits)+

text \<open>A text that is not empty after trimming has a word.\<close>

lemma trim_has_word:
  assumes "trim s \<noteq> []" shows "split_whitespace (trim s) \<noteq> []"
proof -
  define mid where "mid = rev (dropWhile is_whitespace (rev (dropWhile is_whitespace (chars s))))"
  have t: "trim s = concat mid" by (simp add: trim_def mid_def)
  have "char_groups (dropWhile is_whitespace (chars s))" by (intro char_groups_drop chars_groups)
  moreover have "\<exists>ys. dropWhile is_whitespace (chars s) = mid @ ys"
    unfolding mid_def by (metis rev_append rev_rev_ident takeWhile_dropWhile_id)
  ultimately have g: "char_groups mid" using char_groups_prefix by metis
  have "mid \<noteq> []" using assms t by auto
  then have "\<not> is_whitespace (last mid)"
    unfolding mid_def by (simp add: last_rev hd_dropWhile)
  then obtain w where "w \<in> set (split_by is_whitespace mid)" "w \<noteq> []"
    using split_by_some [of "last mid" mid is_whitespace] \<open>mid \<noteq> []\<close> by auto
  then show ?thesis using chars_concat [OF g] by (auto simp: split_whitespace_def t filter_empty_conv)
qed

lemma trim_join:
  assumes "list_all word_text ws" shows "trim (join '' '' ws) = join '' '' ws"
proof (cases "ws = []")
  case False
  let ?s = "join '' '' ws"
  have "set ?s \<subseteq> set '' '' \<union> (\<Union>w \<in> set ws. set w)" by (induction "'' ''" ws rule: join.induct) auto
  then have c: "chars ?s = map (\<lambda>c. [c]) ?s"
    using assms by (intro chars_ascii) (fastforce simp: list_all_iff visible_def ascii_def)
  have w: "hd ws \<noteq> []" "visible (hd (hd ws))" "last ws \<noteq> []" "visible (last (last ws))"
  proof -
    have "word_text (hd ws)" "word_text (last ws)"
      using assms False hd_in_set last_in_set unfolding list_all_iff by blast+
    then show "hd ws \<noteq> []" "visible (hd (hd ws))" "last ws \<noteq> []" "visible (last (last ws))"
      by (simp_all add: list_all_iff)
  qed
  have "?s \<noteq> []" "last ?s = last (last ws)" using join_not_Nil last_join False w by auto
  moreover have "hd ?s = hd (hd ws)" using False w(1) by (cases "('' '', ws)" rule: join.cases) auto
  ultimately have e: "\<not> is_whitespace [hd ?s]" "\<not> is_whitespace [last ?s]" "?s \<noteq> []"
    using w is_whitespace_visible by simp_all
  then have "dropWhile is_whitespace (map (\<lambda>c. [c]) ?s) = map (\<lambda>c. [c]) ?s"
    by (cases ?s) simp_all
  moreover have "dropWhile is_whitespace (rev (map (\<lambda>c. [c]) ?s)) = rev (map (\<lambda>c. [c]) ?s)"
    using e by (cases ?s rule: rev_cases) simp_all
  moreover have "concat (map (\<lambda>c. [c]) w) = w" for w :: string by (induction w) auto
  ultimately show ?thesis by (simp add: trim_def c)
qed (simp add: trim_def)

section \<open>What the texts give\<close>

lemma cidr_from_str_ok:
  assumes "cidr_from_str s = Inr c" shows "cidr_ok c"
proof -
  obtain net p where c: "c = \<lparr>ci_net = net, ci_prefix = p\<rparr>" "p \<le> (case net of V4 _ \<Rightarrow> 32 | V6 _ \<Rightarrow> 128)"
    using assms unfolding cidr_from_str_def and_then_eq_Inr_iff
    by (elim exE conjE) (simp add: and_then_eq_Inr_iff Let_def not_less split: prod.splits if_splits, blast)
  show ?thesis
    using c(2) by (cases net) (simp_all add: c(1) cidr_ok_def word_le_nat_alt)
qed

lemma acl_parse_ok: "acl_parse es = Inr acl \<Longrightarrow> list_all cidr_ok acl \<and> length acl = length es"
  by (induction es arbitrary: acl) (auto simp: result_iffs cidr_from_str_ok)

text \<open>The text of a network, as the configuration writes it.\<close>

definition show_cidr :: "cidr \<Rightarrow> string" where
  "show_cidr c =
     (case ci_net c of V4 a \<Rightarrow> show_ipv4 a | V6 a \<Rightarrow> show_ipv6 a) @ ''/'' @ show_word (ci_prefix c)"

lemma rpz_never_unwraps: "rpz_lines i raws rules = Inl e \<Longrightarrow> e \<noteq> RpzNoField n"
proof (induction raws arbitrary: i rules)
  case (Cons raw raws)
  show ?case
  proof (cases "rpz_line raw = []")
    case False
    then have "split_whitespace (rpz_line raw) \<noteq> []" using trim_has_word by (simp add: rpz_line_def)
    then have "rpz_rule i (rpz_line raw) \<noteq> Inl (RpzNoField n)"
      by (cases "split_whitespace (rpz_line raw)")
         (auto simp: rpz_rule_def and_then_def map_err_def ok_or_def split: sum.splits list.splits option.splits if_splits)
    then show ?thesis using Cons False by (auto simp: and_then_def split: sum.splits)
  qed (use Cons in simp)
qed simp

lemma parse_ipv4_chars:
  assumes "parse_ipv4 s = Some a" "c \<in> set s" shows "to_digit 10 c \<noteq> None \<or> c = CHR ''.''"
proof -
  have sep: "\<exists>p. s = CHR ''.'' # p @ r \<and> (\<forall>c \<in> set p. to_digit 10 c \<noteq> None)"
    if "read_separated CHR ''.'' False read_octet s = Some (b, r)" for s b r
    using that by (auto simp: read_separated_def read_char_def dest!: read_octet_rest split: list.splits if_splits Option.bind_splits)
  obtain b0 s0 b1 s1 b2 s2 b3 where r: "read_octet s = Some (b0, s0)" "read_separated CHR ''.'' False read_octet s0 = Some (b1, s1)"
    "read_separated CHR ''.'' False read_octet s1 = Some (b2, s2)" "read_separated CHR ''.'' False read_octet s2 = Some (b3, [])"
    using assms(1) by (auto simp: parse_ipv4_def read_ipv4_def split: option.splits list.splits if_splits Option.bind_splits prod.splits)
  show ?thesis
    using read_octet_rest [OF r(1)] sep [OF r(2)] sep [OF r(3)] sep [OF r(4)] assms(2) by auto
qed

lemma show_ipv6_colon: "CHR '':'' \<in> set (show_ipv6 a)"
proof -
  obtain g h gs where "segments a = g # h # gs"
    using length_segments [of a] by (cases "segments a"; cases "tl (segments a)") auto
  then have "CHR '':'' \<in> set (show_groups (segments a))" by (simp add: show_groups_def)
  then show ?thesis by (cases "zero_runs (segments a) 0 (0, 0) (0, 0)") (auto simp: show_ipv6_def Let_def)
qed

lemma parse_ip_show: "parse_ip (show_ipv4 a) = Some (V4 a)" "parse_ip (show_ipv6 b) = Some (V6 b)"
proof -
  show "parse_ip (show_ipv4 a) = Some (V4 a)" by (simp add: parse_ip_def parse_show_ipv4)
  have "parse_ipv4 (show_ipv6 b) = None"
  proof (cases "parse_ipv4 (show_ipv6 b)")
    case (Some x)
    then show ?thesis using parse_ipv4_chars [OF Some show_ipv6_colon] by (simp add: to_digit_def Let_def)
  qed simp
  then show "parse_ip (show_ipv6 b) = Some (V6 b)" by (simp add: parse_ip_def parse_show_ipv6)
qed

lemma show_ip_no_slash: "CHR ''/'' \<notin> set (show_ipv4 a)" "CHR ''/'' \<notin> set (show_ipv6 b)"
proof -
  have four: "CHR ''/'' \<notin> set (show_ipv4 x)" for x
    using parse_ipv4_chars [OF parse_show_ipv4, of "CHR ''/''" x] by (auto simp: to_digit_def Let_def)
  have "to_digit 16 CHR ''/'' = None" by (simp add: to_digit_def)
  then have "CHR ''/'' \<noteq> hex_char d" if "d < 16" for d using hex_char_digit [OF that] by (metis option.distinct(1))
  then have "CHR ''/'' \<notin> set (show_hex n)" for n
    by (induction n rule: show_hex.induct) (subst show_hex.simps, auto)
  then have groups: "CHR ''/'' \<notin> set (show_groups gs)" for gs
    using set_join [of "'':''" "map (\<lambda>g. show_hex (unat g)) gs"] by (auto simp: show_groups_def)
  show "CHR ''/'' \<notin> set (show_ipv4 a)" by (rule four)
  show "CHR ''/'' \<notin> set (show_ipv6 b)"
    using four groups by (auto simp: show_ipv6_def Let_def split: prod.splits)
qed

lemma cidr_show:
  assumes "cidr_ok c" shows "cidr_from_str (show_cidr c) = Inr c"
proof -
  have u8: "parse_u8 (show_word n) = Some n" for n by (rule parse_word_show) simp
  have "ci_prefix c \<le> (case ci_net c of V4 _ \<Rightarrow> 32 | V6 _ \<Rightarrow> 128)"
    using assms by (cases "ci_net c") (simp_all add: cidr_ok_def word_le_nat_alt)
  moreover obtain net p where "c = \<lparr>ci_net = net, ci_prefix = p\<rparr>" by (cases c) simp
  ultimately show ?thesis
    using show_ip_no_slash parse_ip_show u8
    by (cases net) (simp_all add: cidr_from_str_def show_cidr_def split_once_append not_less)
qed

lemma acl_show: "list_all cidr_ok acl \<Longrightarrow> acl_parse (map show_cidr acl) = Inr acl"
  by (induction acl) (simp_all add: cidr_show)

lemma trim_takeWhile: "list_all word_text ws \<Longrightarrow> c \<notin> set (join '' '' ws) \<Longrightarrow>
    trim (takeWhile (\<lambda>x. x \<noteq> c) (join '' '' ws)) = join '' '' ws"
proof -
  assume "list_all word_text ws" "c \<notin> set (join '' '' ws)"
  moreover from this have "takeWhile (\<lambda>x. x \<noteq> c) (join '' '' ws) = join '' '' ws" by (intro takeWhile_eq_all_conv [THEN iffD2]) auto
  ultimately show ?thesis using trim_join [of ws] by (simp only:)
qed

lemma hex_bytes_upper: "hex_bytes (concat (map hex2_upper data)) = Some data"
proof (induction data)
  case (Cons b data)
  have up: "to_digit 16 (upper_char (hex_char d)) = Some d \<and> upper_char (hex_char d) \<noteq> CHR ''+''" if "d < 16" for d
  proof (cases "d < 10")
    case True
    moreover have "digit_char d \<noteq> CHR ''+''" using of_char_digit [OF True] by auto
    ultimately show ?thesis using hex_char_digit [OF that] by (simp add: hex_char_def upper_digit_char)
  next
    case False
    then have "upper_char (hex_char d) = char_of (55 + d)" using that by (simp add: hex_char_def upper_char_def Let_def)
    moreover have "(of_char (char_of (55 + d) :: char) :: nat) = 55 + d" using that by simp
    moreover have "char_of (55 + d) \<noteq> CHR ''+''"
      using that by (simp add: char_of_eq_iff take_bit_nat_eq_self)
    ultimately show ?thesis using that False by (simp add: to_digit_def Let_def del: of_char_of)
  qed
  have "word_of_nat (16 * (unat b div 16) + unat b mod 16) = b" by (simp only: mult_div_mod_eq) simp
  then have "hex_pair (upper_char (hex_char (unat b div 16))) (upper_char (hex_char (unat b mod 16))) = Some b"
    using up [OF high_nibble, of b] up [of "unat b mod 16"] by (simp add: hex_pair_def del: of_nat_add of_nat_mult)
  then show ?case using Cons by (simp add: hex2_upper_def hex2_def)
qed simp


lemma text_name_visible:
  assumes "text_name n" shows "word_text (display_name n)" "CHR '';'' \<notin> set (display_name n)"
proof -
  have b: "word_text (display_name n) \<and> CHR '';'' \<notin> set (display_name n)"
  proof -
    have "visible c \<and> c \<noteq> CHR '';''" if l: "l \<in> set n" "c \<in> set (concat (map display_byte l))" for l c
    proof -
      have "list_all text_byte l" using assms l(1) by (simp add: text_name_def list_all_iff)
      moreover from this have "concat (map display_byte l) = map char_of_byte l"
        by (intro display_plain [unfolded char_of_byte_def [symmetric]]) (auto simp: list_all_iff text_byte_def)
      ultimately obtain x where "text_byte x" "c = char_of_byte x" using l(2) by (auto simp: list_all_iff)
      then show ?thesis
        by (auto simp: visible_def text_byte_def plain_byte_def char_of_byte_iff word_le_nat_alt word_less_nat_alt word_unat_eq_iff)
    qed
    then show ?thesis
      using display_name_text(2) [OF assms] by (auto simp: display_name_def list_all_iff visible_def)
  qed
  then show "word_text (display_name n)" "CHR '';'' \<notin> set (display_name n)" by simp_all
qed

lemma hex_upper_visible: "list_all visible (concat (map hex2_upper data))" "CHR '';'' \<notin> set (concat (map hex2_upper data))"
proof -
  have up: "visible (upper_char (hex_char d)) \<and> upper_char (hex_char d) \<noteq> CHR '';''" if "d < 16" for d
  proof (cases "d < 10")
    case True
    then show ?thesis using of_char_digit [OF True]
      by (auto simp: hex_char_def upper_digit_char visible_def dest!: arg_cong [where f = "of_char :: char \<Rightarrow> nat"])
  next
    case False
    then have "upper_char (hex_char d) = char_of (55 + d)" using that by (simp add: hex_char_def upper_char_def Let_def)
    then show ?thesis using that False by (simp add: visible_def char_of_eq_iff take_bit_nat_eq_self)
  qed
  have "list_all (\<lambda>c. visible c \<and> c \<noteq> CHR '';'') (hex2_upper b)" for b
    using up [OF high_nibble, of b] up [of "unat b mod 16"] by (simp add: hex2_upper_def hex2_def)
  then have "visible c \<and> c \<noteq> CHR '';''" if "c \<in> set (concat (map hex2_upper data))" for c
    using that unfolding list_all_iff by auto
  then show "list_all visible (concat (map hex2_upper data))" "CHR '';'' \<notin> set (concat (map hex2_upper data))"
    unfolding list_all_iff by blast+
qed

lemma anchor_presented:
  assumes "text_name (dk_signer k)" "\<And>x. cr_sha256 cr x \<noteq> []"
  shows "anchor_parse (ds_presentation cr k) = Inr (Some \<lparr>ta_zone = dk_signer k, ta_ds = ds_rdata cr k\<rparr>)"
proof -
  define hex where "hex = concat (map hex2_upper (cr_sha256 cr (name_out (dk_signer k) [] @ key_rdata k)))"
  let ?ws = "[display_name (dk_signer k), ''IN'', ''DS'', show_word (dk_tag k), show_word (dk_algorithm k), ''2'', hex]"
  have line: "ds_presentation cr k = join '' '' ?ws" by (simp add: ds_presentation_def hex_def)
  have "hex2_upper b \<noteq> []" for b by (simp add: hex2_upper_def hex2_def)
  then have "hex \<noteq> []" using assms(2) by (cases "cr_sha256 cr (name_out (dk_signer k) [] @ key_rdata k)") (auto simp: hex_def)
  then have ok: "list_all word_text ?ws"
    using text_name_visible(1) [OF assms(1)] digits_visible hex_upper_visible(1) by (simp add: hex_def visible_def)
  have "CHR '';'' \<notin> set (show_nat n)" for n using show_word_digits [of n] by (auto simp: all_digits_def list_all_iff digit_val_def)
  then have "CHR '';'' \<notin> set (join '' '' ?ws)"
    using text_name_visible(2) [OF assms(1)] hex_upper_visible(2) by (simp add: hex_def)
  then have t: "trim (takeWhile (\<lambda>c. c \<noteq> CHR '';'') (join '' '' ?ws)) = join '' '' ?ws" by (rule trim_takeWhile [OF ok])
  have ne: "join '' '' ?ws \<noteq> []" by simp
  have dot: "\<not> eq_ignore_ascii_case (display_name (dk_signer k)) ''DS''"
  proof
    assume "eq_ignore_ascii_case (display_name (dk_signer k)) ''DS''"
    then have "last (map lower_char (display_name (dk_signer k))) = lower_char CHR ''S''"
      by (simp add: eq_ignore_ascii_case_def)
    moreover have "lower_char CHR ''.'' \<noteq> lower_char CHR ''S''" by code_simp
    ultimately show False using display_name_text(2,3) [OF assms(1)] by (simp add: last_map)
  qed
  have pos: "position (\<lambda>t. eq_ignore_ascii_case t ''DS'') ?ws = Some 2"
    using dot by (simp add: eq_ignore_ascii_case_def lower_char_def)
  have num: "parse_u16 (show_word (dk_tag k)) = Some (dk_tag k)" "parse_u8 (show_word (dk_algorithm k)) = Some (dk_algorithm k)"
    by (rule parse_word_show, simp)+
  have two: "parse_u8 ''2'' = Some 2" by (simp add: parse_word_def parse_uint_def digit_val_def)
  have "drop (2 + 1) ?ws = [show_word (dk_tag k), show_word (dk_algorithm k), ''2'', hex]" by (simp add: numeral_3_eq_3)
  then show ?thesis
    unfolding line anchor_parse_def Let_def t split_whitespace_join [OF ok] pos
    using ne num two display_name_text(4) [OF assms(1)] hex_bytes_upper by (simp add: hex_def ds_rdata_def)
qed

text \<open>
  What the key libraries promise: a generated secret loads again as the same
  pair, and Ed25519 seeds have 32 bytes.
\<close>

definition reloads :: "key_lib \<Rightarrow> bool" where
  "reloads kl \<longleftrightarrow>
     (\<forall>seed. kl_new_seed kl = Some seed \<longrightarrow> length seed = 32) \<and>
     (\<forall>e n der. kl_new_rsa kl = Some (e, n, der) \<longrightarrow> kl_rsa_numbers kl der = Some (e, n))"

lemma material_back:
  assumes "reloads kl" "generate_key kl sname algorithm ksk = Inr (key, material)"
  shows "from_material kl sname material ksk = Inr key"
proof -
  obtain secret sg pub where g: "key = finish_key sg algorithm ksk sname pub" "material = show_word algorithm @ '':'' @ b64 secret"
    "load_pair kl algorithm secret = Inr (sg, pub)"
    using assms by (auto simp: generate_key_def load_pair_def reloads_def result_iffs split: if_splits prod.splits)
  have "parse_u8 (show_word algorithm) = Some algorithm" by (rule parse_word_show) simp
  moreover have "CHR '':'' \<notin> set (show_word algorithm)"
    using show_word_digits [of "unat algorithm"] by (auto simp: all_digits_def list_all_iff digit_val_def)
  ultimately show ?thesis
    using g unb64_b64 [of secret] by (simp add: from_material_def split_once_append)
qed

section \<open>Properties\<close>

text \<open>
  The DS line printed for a signing key is a trust anchor for it: parsing
  what \<open>ds_presentation\<close> prints gives the zone of the key and the DS data, tag,
  algorithm, digest type and digest, that authenticates its DNSKEY.
\<close>
theorem trust_anchor_roundtrip:
  assumes "text_name (dk_signer k)" "\<And>x. length (cr_sha256 cr x) = 32"
  shows "anchor_parse (ds_presentation cr k) = Inr (Some \<lparr>ta_zone = dk_signer k, ta_ds = ds_rdata cr k\<rparr>)"
proof (rule anchor_presented [OF assms(1)])
  show "cr_sha256 cr x \<noteq> []" for x using assms(2) [of x] by auto
qed

definition sample_ds_key :: dnssec_key where
  "sample_ds_key = finish_key (\<lambda>d. d) ALG_ED25519 True [[101]] [7]"

theorem trust_anchor_roundtrip_witness:
  "anchor_parse (ds_presentation sample_crypto sample_ds_key) =
     Inr (Some \<lparr>ta_zone = [[101]], ta_ds = ds_rdata sample_crypto sample_ds_key\<rparr>)"
proof -
  have "dk_signer sample_ds_key = [[101]]" by (simp add: sample_ds_key_def finish_key_def Let_def)
  then show ?thesis
    using trust_anchor_roundtrip [of sample_ds_key sample_crypto]
    by (simp add: text_name_def text_byte_def plain_byte_def wf_name_def wf_label_def lower_label_def to_lower_def sample_crypto_def
        wire_len_def)
qed

text \<open>
  The networks of an access list are what its text says: every list of
  networks is read back from its text, every list read has prefixes within the
  width of their addresses, and it has one network for each entry.
\<close>
theorem acl_text:
  "(list_all cidr_ok acl \<longrightarrow> acl_parse (map show_cidr acl) = Inr acl) \<and>
   (acl_parse es = Inr acl \<longrightarrow> list_all cidr_ok acl \<and> length acl = length es)"
  using acl_show acl_parse_ok by blast

theorem acl_text_witness:
  "acl_parse [show_cidr \<lparr>ci_net = V4 0x7F000000, ci_prefix = 8\<rparr>] = Inr [\<lparr>ci_net = V4 0x7F000000, ci_prefix = 8\<rparr>]"
  using acl_text [of "[\<lparr>ci_net = V4 0x7F000000, ci_prefix = 8\<rparr>]"] by (simp add: cidr_ok_def)

end
