(* ===== verification/Api.thy ===== *)
theory Api
  imports Server_Gates
begin

text \<open>
  The management API (\<open>rdns/src/api.rs\<close>): reading a request, the key, the
  routes, and the handlers that list, create, change and delete zones.  The
  state is that of the server, whose resolver and journal the API shares; what
  a handler does to files and to other servers is a list of effects.  JSON is
  read and written by a library: its functions are the fields of \<open>api_env\<close>.
  \<open>None\<close> stands for a panic.
\<close>

section \<open>Data\<close>

record rrset_in =
  ri_name :: string
  ri_type :: string
  ri_ttl :: "u32 option"
  ri_changetype :: "string option"
  ri_records :: "string list"

record zone_create =
  zc_name :: string
  zc_rrsets :: "rrset_in list"

record zone_summary =
  zs_name :: string
  zs_serial :: u32
  zs_records :: nat

record rrset_out =
  rs_out_name :: string
  rs_out_type :: string
  rs_out_ttl :: u32
  rs_out_records :: "string list"

record zone_detail =
  zd_name :: string
  zd_serial :: u32
  zd_rrsets :: "rrset_out list"

datatype change_error =
    BadOwner name_error
  | UnsupportedChange string
  | RrsetRefused rrset_error

datatype api_error =
    Unauthorized
  | NoEndpoint
  | UnsupportedMethod
  | InvalidZoneName
  | NoSuchZone
  | BadJson string
  | ZoneExists
  | NoSoaRrset
  | SoaRrsetCount
  | BadSoa zone_msg
  | ZoneRefused edit_error
  | ChangeRefused change_error

datatype api_body =
    Error_body api_error
  | Statistics_body "(string \<times> u64) list"
  | Zones_body "zone_summary list"
  | Zone_body zone_detail
  | Created_body string
  | Patched_body string u32
  | Deleted_body string

record reply =
  rp_status :: string
  rp_body :: api_body

record api_ctx =
  ap_key :: string
  ap_zone_dir :: "string option"
  ap_notify_targets :: "socket_addr list"
  ap_dnssec :: "(dnssec_key list \<times> dns_name list \<times> u64 \<times> nsec3_params option) option"

text \<open>Reading a zone and a list of changes from JSON, the text of a body, and the uptime of the server.\<close>

record api_env =
  ae_create :: "bytes \<Rightarrow> string + zone_create"
  ae_patch :: "bytes \<Rightarrow> string + rrset_in list"
  ae_text :: "api_body \<Rightarrow> string"
  ae_uptime :: u64

definition reply_ok :: "api_body \<Rightarrow> reply" where
  "reply_ok body = \<lparr>rp_status = ''200 OK'', rp_body = body\<rparr>"

definition reply_error :: "string \<Rightarrow> api_error \<Rightarrow> reply" where
  "reply_error status e = \<lparr>rp_status = status, rp_body = Error_body e\<rparr>"

section \<open>Changes\<close>

text \<open>One change; a slice inside a character of a generic form is a panic.\<close>

definition apply_rrset :: "rrset_in \<Rightarrow> zone \<Rightarrow> (change_error + zone) option" where
  "apply_rrset r z =
     (case parse_str (ri_name r) of
        Inl e \<Rightarrow> Some (Inl (BadOwner e))
      | Inr owner \<Rightarrow>
          let change = to_ascii_uppercase (case ri_changetype r of Some c \<Rightarrow> c | None \<Rightarrow> ''REPLACE'') in
          if change = ''REPLACE'' then
            (case replace_rrset owner (ri_type r) (case ri_ttl r of Some t \<Rightarrow> t | None \<Rightarrow> 3600) (ri_records r) z of
               (z', Inr _) \<Rightarrow> Some (Inr z')
             | (z', Inl e) \<Rightarrow> if e = BadContent HexSplitsChar then None else Some (Inl (RrsetRefused e)))
          else if change = ''DELETE'' then
            Some (map_err RrsetRefused (delete_rrset owner (ri_type r) z))
          else Some (Inl (UnsupportedChange change)))"

fun apply_rrsets :: "rrset_in list \<Rightarrow> zone \<Rightarrow> (change_error + zone) option" where
  "apply_rrsets [] z = Some (Inr z)"
| "apply_rrsets (r # rs) z =
     (case apply_rrset r z of
        None \<Rightarrow> None
      | Some (Inl e) \<Rightarrow> Some (Inl e)
      | Some (Inr z') \<Rightarrow> apply_rrsets rs z')"

definition after_change ::
  "host \<Rightarrow> api_ctx \<Rightarrow> zone option \<Rightarrow> zone \<Rightarrow> server_ctx \<Rightarrow> (server_ctx \<times> effect list) option" where
  "after_change ho ap old new sv =
     (let (sv1, effs) = (case old of
            None \<Rightarrow> (sv, [])
          | Some o' \<Rightarrow> (sv\<lparr>sc_journal := journal_record o' new (sc_journal sv)\<rparr>, journal_effects sv o' new))
      in case ap_dnssec ap of
           None \<Rightarrow> Some (sv1, effs)
         | Some (keys, origins, validity, nsec3) \<Rightarrow>
             if z_origin new \<in> set origins
             then map_option (\<lambda>rv. (sv1\<lparr>sc_resolver := rv\<rparr>, effs))
                    (resign (ho_crypto ho) keys origins (ho_unix_now ho) validity nsec3 (sc_resolver sv1))
             else Some (sv1, effs))"

definition api_zone_path :: "api_ctx \<Rightarrow> dns_name \<Rightarrow> string option" where
  "api_zone_path ap origin =
     map_option (\<lambda>dir. path_join dir (trim_end_dots (display_name origin) @ ''.zone'')) (ap_zone_dir ap)"

definition persist :: "api_ctx \<Rightarrow> zone \<Rightarrow> effect list" where
  "persist ap z =
     (case api_zone_path ap (z_origin z) of None \<Rightarrow> [] | Some path \<Rightarrow> [Write_file path (to_zonefile z)])"

definition notify_secondaries :: "api_ctx \<Rightarrow> dns_name \<Rightarrow> effect list" where
  "notify_secondaries ap origin = map (\<lambda>target. Send_notify target origin) (ap_notify_targets ap)"

text \<open>The end of both handlers that change a zone.\<close>

definition commit_zones ::
  "host \<Rightarrow> api_ctx \<Rightarrow> zone list \<Rightarrow> zone option \<Rightarrow> zone \<Rightarrow> dns_name \<Rightarrow> server_ctx \<Rightarrow> (server_ctx \<times> effect list) option" where
  "commit_zones ho ap zones old new origin sv =
     map_option (\<lambda>(sv', effs). (sv', effs @ persist ap new @ notify_secondaries ap origin))
       (after_change ho ap old new (sv\<lparr>sc_resolver := set_zones zones (sc_resolver sv)\<rparr>))"

section \<open>Handlers\<close>

definition statistics :: "api_env \<Rightarrow> server_ctx \<Rightarrow> reply" where
  "statistics ae sv =
     (let rv = sc_resolver sv in
      reply_ok (Statistics_body (snapshot (ae_uptime ae) (rv_metrics rv) @
        [(''cache-entries'', word_of_nat (cache_len (rv_cache rv))), (''zones'', word_of_nat (length (rv_zones rv)))])))"

definition list_zones :: "server_ctx \<Rightarrow> reply" where
  "list_zones sv =
     reply_ok (Zones_body (map (\<lambda>z. \<lparr>zs_name = display_name (z_origin z), zs_serial = zone_serial z,
       zs_records = z_record_count z\<rparr>) (rv_zones (sc_resolver sv))))"

definition get_zone :: "string \<Rightarrow> server_ctx \<Rightarrow> reply" where
  "get_zone name sv =
     (case parse_str name of
        Inl e \<Rightarrow> reply_error ''400 Bad Request'' InvalidZoneName
      | Inr origin \<Rightarrow>
          (case find (\<lambda>z. z_origin z = origin) (rv_zones (sc_resolver sv)) of
             None \<Rightarrow> reply_error ''404 Not Found'' NoSuchZone
           | Some z \<Rightarrow>
               reply_ok (Zone_body \<lparr>zd_name = display_name (z_origin z), zd_serial = zone_serial z,
                 zd_rrsets = map (\<lambda>r. \<lparr>rs_out_name = display_name (rs_name r), rs_out_type = type_name (rs_type r),
                   rs_out_ttl = rs_ttl r, rs_out_records = rs_contents r\<rparr>) (rrsets z)\<rparr>)))"

text \<open>The zone of a request: the SOA first, the other record sets as changes to the shell around it.\<close>

definition is_soa_rrset :: "rrset_in \<Rightarrow> bool" where
  "is_soa_rrset r = eq_ignore_ascii_case (ri_type r) ''SOA''"

definition build_zone :: "dns_name \<Rightarrow> rrset_in list \<Rightarrow> (api_error + zone) option" where
  "build_zone origin rs =
     (case find is_soa_rrset rs of
        None \<Rightarrow> Some (Inl NoSoaRrset)
      | Some soa_in \<Rightarrow>
          (case ri_records soa_in of
             [content] \<Rightarrow>
               (case rdata_from_text ''SOA'' content origin of
                  Inl e \<Rightarrow> if e = HexSplitsChar then None else Some (Inl (BadSoa e))
                | Inr rd \<Rightarrow>
                    (case from_records origin
                       [\<lparr>rr_name = origin, rr_class = CLASS_IN, rr_ttl = (case ri_ttl soa_in of Some t \<Rightarrow> t | None \<Rightarrow> 3600),
                         rr_rdata = rd\<rparr>] of
                       Inl e \<Rightarrow> Some (Inl (ZoneRefused e))
                     | Inr z \<Rightarrow>
                         map_option (map_err ChangeRefused) (apply_rrsets (filter (\<lambda>r. \<not> is_soa_rrset r) rs) z)))
           | _ \<Rightarrow> Some (Inl SoaRrsetCount)))"

definition create_zone ::
  "host \<Rightarrow> api_env \<Rightarrow> api_ctx \<Rightarrow> bytes \<Rightarrow> server_ctx \<Rightarrow> (reply \<times> server_ctx \<times> effect list) option" where
  "create_zone ho ae ap body sv =
     (let fail = (\<lambda>status e. Some (reply_error status e, sv, [])) in
      case ae_create ae body of
        Inl e \<Rightarrow> fail ''400 Bad Request'' (BadJson e)
      | Inr req \<Rightarrow>
          (case parse_str (zc_name req) of
             Inl e \<Rightarrow> fail ''400 Bad Request'' InvalidZoneName
           | Inr origin \<Rightarrow>
               let current = rv_zones (sc_resolver sv) in
               if list_ex (\<lambda>z. z_origin z = origin) current then fail ''409 Conflict'' ZoneExists
               else
                 (case build_zone origin (zc_rrsets req) of
                    None \<Rightarrow> None
                  | Some (Inl e) \<Rightarrow> fail ''400 Bad Request'' e
                  | Some (Inr z) \<Rightarrow>
                      map_option (\<lambda>(sv', effs).
                          (\<lparr>rp_status = ''201 Created'', rp_body = Created_body (display_name origin)\<rparr>, sv', effs))
                        (commit_zones ho ap (current @ [z]) None z origin sv))))"

definition patch_zone ::
  "host \<Rightarrow> api_env \<Rightarrow> api_ctx \<Rightarrow> string \<Rightarrow> bytes \<Rightarrow> server_ctx \<Rightarrow> (reply \<times> server_ctx \<times> effect list) option" where
  "patch_zone ho ae ap name body sv =
     (let fail = (\<lambda>status e. Some (reply_error status e, sv, [])) in
      case ae_patch ae body of
        Inl e \<Rightarrow> fail ''400 Bad Request'' (BadJson e)
      | Inr req \<Rightarrow>
          (case parse_str name of
             Inl e \<Rightarrow> fail ''400 Bad Request'' InvalidZoneName
           | Inr origin \<Rightarrow>
               let current = rv_zones (sc_resolver sv) in
               (case position (\<lambda>z. z_origin z = origin) current of
                  None \<Rightarrow> fail ''404 Not Found'' NoSuchZone
                | Some idx \<Rightarrow>
                    (case apply_rrsets req (current ! idx) of
                       None \<Rightarrow> None
                     | Some (Inl e) \<Rightarrow> fail ''400 Bad Request'' (ChangeRefused e)
                     | Some (Inr z) \<Rightarrow>
                         let new = bump_serial z in
                         map_option (\<lambda>(sv', effs).
                             (reply_ok (Patched_body (display_name origin) (zone_serial new)), sv', effs))
                           (commit_zones ho ap (current[idx := new]) (Some (current ! idx)) new origin sv)))))"

definition delete_zone :: "api_ctx \<Rightarrow> string \<Rightarrow> server_ctx \<Rightarrow> reply \<times> server_ctx \<times> effect list" where
  "delete_zone ap name sv =
     (case parse_str name of
        Inl e \<Rightarrow> (reply_error ''400 Bad Request'' InvalidZoneName, sv, [])
      | Inr origin \<Rightarrow>
          let current = rv_zones (sc_resolver sv) in
          (case position (\<lambda>z. z_origin z = origin) current of
             None \<Rightarrow> (reply_error ''404 Not Found'' NoSuchZone, sv, [])
           | Some idx \<Rightarrow>
               (reply_ok (Deleted_body (display_name origin)),
                sv\<lparr>sc_resolver := set_zones (take idx current @ drop (idx + 1) current) (sc_resolver sv)\<rparr>,
                case api_zone_path ap origin of None \<Rightarrow> [] | Some path \<Rightarrow> [Remove_file path])))"

section \<open>Requests\<close>

definition route ::
  "host \<Rightarrow> api_env \<Rightarrow> api_ctx \<Rightarrow> string \<Rightarrow> string \<Rightarrow> bytes \<Rightarrow> server_ctx \<Rightarrow> (reply \<times> server_ctx \<times> effect list) option" where
  "route ho ae ap method path body sv =
     (let segments = split_on CHR ''/'' (trim_matches CHR ''/'' path);
          zone = (case segments of
              [a, v, zs, name] \<Rightarrow> if [a, v, zs] = [''api'', ''v1'', ''zones''] then Some name else None
            | _ \<Rightarrow> None);
          read = (\<lambda>r. Some (r, sv, []))
      in if method = ''GET'' \<and> segments = [''api'', ''v1'', ''statistics''] then read (statistics ae sv)
         else if method = ''GET'' \<and> segments = [''api'', ''v1'', ''zones''] then read (list_zones sv)
         else if method = ''POST'' \<and> segments = [''api'', ''v1'', ''zones''] then create_zone ho ae ap body sv
         else if method = ''GET'' \<and> zone \<noteq> None then read (get_zone (the zone) sv)
         else if method = ''PATCH'' \<and> zone \<noteq> None then patch_zone ho ae ap (the zone) body sv
         else if method = ''DELETE'' \<and> zone \<noteq> None then Some (delete_zone ap (the zone) sv)
         else if method \<in> {''GET'', ''POST'', ''PATCH'', ''DELETE'', ''PUT''} then read (reply_error ''404 Not Found'' NoEndpoint)
         else read (reply_error ''405 Method Not Allowed'' UnsupportedMethod))"

definition MAX_BODY :: nat where
  "MAX_BODY = 2 ^ 20"

definition read_request :: "bytes list \<Rightarrow> (string \<times> string \<times> string \<times> bytes) option" where
  "read_request stream =
     (case read_head 16384 stream [] of
        Head header_end buf more_chunks \<Rightarrow>
          (case text_lines (from_utf8_lossy (take header_end buf)) of
             [] \<Rightarrow> None
           | request_line # ls \<Rightarrow>
               (case split_whitespace request_line of
                  method # path # _ \<Rightarrow>
                    let headers = join [LF] ls;
                        content_length = (case Option.bind (header_value headers ''content-length'') (parse_uint (2 ^ 64 - 1)) of
                          Some n \<Rightarrow> n | None \<Rightarrow> 0)
                    in if content_length > MAX_BODY then None
                       else map_option (\<lambda>body. (method, path, headers, body))
                         (read_body content_length more_chunks (drop header_end buf))
                | _ \<Rightarrow> None))
      | _ \<Rightarrow> None)"

definition reply_bytes :: "api_env \<Rightarrow> reply \<Rightarrow> bytes" where
  "reply_bytes ae r =
     (let body = ae_text ae (rp_body r) in
      as_bytes (''HTTP/1.1 '' @ rp_status r @ CRLF @ ''Content-Type: application/json'' @ CRLF @
        ''Content-Length: '' @ show_nat (length body) @ CRLF @ ''Connection: close'' @ CRLF @ CRLF @ body))"

definition serve_conn ::
  "host \<Rightarrow> api_env \<Rightarrow> api_ctx \<Rightarrow> bytes list \<Rightarrow> server_ctx \<Rightarrow> (bytes option \<times> server_ctx \<times> effect list) option" where
  "serve_conn ho ae ap stream sv =
     (case read_request stream of
        None \<Rightarrow> Some (None, sv, [])
      | Some (method, path, headers, body) \<Rightarrow>
          map_option (\<lambda>(r, rest). (Some (reply_bytes ae r), rest))
            (if header_value headers ''x-api-key'' \<noteq> Some (ap_key ap)
             then Some (reply_error ''401 Unauthorized'' Unauthorized, sv, [])
             else route ho ae ap method path body sv))"

section \<open>The zone set\<close>

text \<open>Every zone is well formed under a well-formed name, and no two zones have the same name.\<close>

definition zones_ok :: "zone list \<Rightarrow> bool" where
  "zones_ok zs \<longleftrightarrow> list_all (\<lambda>z. wf_zone z \<and> wf_name (z_origin z)) zs \<and> distinct (map z_origin zs)"

lemma apply_rrset_wf:
  assumes "apply_rrset r z = Some (Inr z')" "wf_zone z" "wf_name (z_origin z)"
  shows "wf_zone z' \<and> z_origin z' = z_origin z"
proof -
  obtain owner where
    "(\<exists>ttl. replace_rrset owner (ri_type r) ttl (ri_records r) z = (z', Inr ())) \<or> delete_rrset owner (ri_type r) z = Inr z'"
    using assms(1)
    by (auto simp: apply_rrset_def Let_def map_err_eq_Inr_iff split: sum.splits if_splits prod.splits)
  then show ?thesis using replace_rrset_wf [OF assms(2,3)] delete_rrset_wf [OF assms(2)] by blast
qed

lemma apply_rrsets_wf:
  "apply_rrsets rs z = Some (Inr z') \<Longrightarrow> wf_zone z \<Longrightarrow> wf_name (z_origin z) \<Longrightarrow> wf_zone z' \<and> z_origin z' = z_origin z"
proof (induction rs arbitrary: z)
  case (Cons r rs)
  then obtain z1 where z1: "apply_rrset r z = Some (Inr z1)" "apply_rrsets rs z1 = Some (Inr z')"
    by (auto split: option.splits sum.splits)
  then show ?case using apply_rrset_wf [OF z1(1)] Cons by metis
qed simp

lemma build_zone_wf:
  assumes "build_zone origin rs = Some (Inr z)" "wf_name origin"
  shows "wf_zone z \<and> z_origin z = origin"
proof -
  obtain soa z1 where z1: "from_records origin [soa] = Inr z1"
    "apply_rrsets (filter (\<lambda>r. \<not> is_soa_rrset r) rs) z1 = Some (Inr z)"
    using assms(1)
    by (auto simp: build_zone_def map_err_eq_Inr_iff split: option.splits list.splits sum.splits if_splits)
  have "wf_zone z1" "z_origin z1 = origin"
    using from_records_wf [OF z1(1)] z1(1) by (auto simp: from_records_def and_then_eq_Inr_iff split: option.splits)
  then show ?thesis using apply_rrsets_wf [OF z1(2)] assms(2) by simp
qed

lemma after_change_state:
  assumes "after_change ho ap old new sv = Some (sv', effs)"
  shows "rv_zones (sc_resolver sv') = rv_zones (sc_resolver sv)"
    "sc_journal sv' = (case old of None \<Rightarrow> sc_journal sv | Some z \<Rightarrow> journal_record z new (sc_journal sv))"
    "effs = (case old of None \<Rightarrow> [] | Some z \<Rightarrow> journal_effects sv z new)"
  using assms by (auto simp: after_change_def Let_def split: option.splits if_splits prod.splits dest: resign_keeps)

lemma commit_zones_state:
  assumes "commit_zones ho ap zones old new origin sv = Some (sv', effs)"
  shows "rv_zones (sc_resolver sv') = zones"
    "sc_journal sv' = (case old of None \<Rightarrow> sc_journal sv | Some z \<Rightarrow> journal_record z new (sc_journal sv))"
    "effs = (case old of None \<Rightarrow> [] | Some z \<Rightarrow> journal_effects sv z new) @ persist ap new @ notify_secondaries ap origin"
proof -
  obtain effs' where c: "after_change ho ap old new (sv\<lparr>sc_resolver := set_zones zones (sc_resolver sv)\<rparr>) = Some (sv', effs')"
    "effs = effs' @ persist ap new @ notify_secondaries ap origin"
    using assms by (auto simp: commit_zones_def)
  note after_change_state [OF c(1)]
  then show "rv_zones (sc_resolver sv') = zones"
    "sc_journal sv' = (case old of None \<Rightarrow> sc_journal sv | Some z \<Rightarrow> journal_record z new (sc_journal sv))"
    "effs = (case old of None \<Rightarrow> [] | Some z \<Rightarrow> journal_effects sv z new) @ persist ap new @ notify_secondaries ap origin"
    using c(2) by (simp_all add: set_zones_def journal_effects_def split: option.splits)
qed

text \<open>What a handler leaves: the reply with nothing touched, or a commit.\<close>

lemma create_zone_cases:
  assumes "create_zone ho ae ap body sv = Some (r, sv', effs)"
  obtains (refused) "sv' = sv" "effs = []" "rp_status r \<noteq> ''201 Created''"
  | (created) origin req z where "ae_create ae body = Inr req" "parse_str (zc_name req) = Inr origin"
      "\<not> list_ex (\<lambda>z. z_origin z = origin) (rv_zones (sc_resolver sv))" "build_zone origin (zc_rrsets req) = Some (Inr z)"
      "commit_zones ho ap (rv_zones (sc_resolver sv) @ [z]) None z origin sv = Some (sv', effs)"
      "rp_status r = ''201 Created''"
  using assms by (auto simp: create_zone_def reply_error_def Let_def split: sum.splits option.splits if_splits)

lemma patch_zone_cases:
  assumes "patch_zone ho ae ap name body sv = Some (r, sv', effs)"
  obtains (refused) "sv' = sv" "effs = []" "rp_status r \<noteq> ''200 OK''"
  | (patched) req origin idx z where "ae_patch ae body = Inr req" "parse_str name = Inr origin"
      "position (\<lambda>z. z_origin z = origin) (rv_zones (sc_resolver sv)) = Some idx"
      "apply_rrsets req (rv_zones (sc_resolver sv) ! idx) = Some (Inr z)"
      "commit_zones ho ap ((rv_zones (sc_resolver sv))[idx := bump_serial z]) (Some (rv_zones (sc_resolver sv) ! idx))
         (bump_serial z) origin sv = Some (sv', effs)"
      "r = reply_ok (Patched_body (display_name origin) (zone_serial (bump_serial z)))"
  using assms by (auto simp: patch_zone_def reply_error_def Let_def split: sum.splits option.splits if_splits)

lemma distinct_list_update_same:
  "distinct (map f xs) \<Longrightarrow> i < length xs \<Longrightarrow> f y = f (xs ! i) \<Longrightarrow> distinct (map f (xs[i := y]))"
  using list_update_id [of "map f xs" i] by (simp add: map_update)

lemma create_zone_ok:
  assumes "create_zone ho ae ap body sv = Some (r, sv', effs)" "zones_ok (rv_zones (sc_resolver sv))"
  shows "zones_ok (rv_zones (sc_resolver sv'))"
  using assms(1)
proof (cases rule: create_zone_cases)
  case (created origin req z)
  have "wf_name origin" using parse_str_wf [OF created(2)] .
  then have "wf_zone z \<and> z_origin z = origin" by (rule build_zone_wf [OF created(4)])
  then show ?thesis
    using commit_zones_state(1) [OF created(5)] assms(2) created(3) \<open>wf_name origin\<close>
    by (auto simp: zones_ok_def list_all_iff list_ex_iff)
qed (use assms(2) in simp)

lemma patch_zone_ok:
  assumes "patch_zone ho ae ap name body sv = Some (r, sv', effs)" "zones_ok (rv_zones (sc_resolver sv))"
  shows "zones_ok (rv_zones (sc_resolver sv'))"
  using assms(1)
proof (cases rule: patch_zone_cases)
  case (patched req origin idx z)
  let ?zs = "rv_zones (sc_resolver sv)"
  have i: "idx < length ?zs" using position_Some [OF patched(3)] by simp
  then have old: "wf_zone (?zs ! idx)" "wf_name (z_origin (?zs ! idx))" using assms(2) by (auto simp: zones_ok_def list_all_length)
  then have "wf_zone z \<and> z_origin z = z_origin (?zs ! idx)" by (rule apply_rrsets_wf [OF patched(4)])
  then have new: "wf_zone (bump_serial z)" "z_origin (bump_serial z) = z_origin (?zs ! idx)"
    using bump_serial_wf [of z] by simp_all
  have "set (?zs[idx := bump_serial z]) \<subseteq> insert (bump_serial z) (set ?zs)" by (rule set_update_subset_insert)
  then have "list_all (\<lambda>z. wf_zone z \<and> wf_name (z_origin z)) (?zs[idx := bump_serial z])"
    using assms(2) new old by (auto simp: zones_ok_def list_all_iff)
  then show ?thesis
    using commit_zones_state(1) [OF patched(5)] assms(2) distinct_list_update_same [OF _ i new(2)] by (simp add: zones_ok_def)
qed (use assms(2) in simp)

lemma delete_zone_ok:
  assumes "delete_zone ap name sv = (r, sv', effs)" "zones_ok (rv_zones (sc_resolver sv))"
  shows "zones_ok (rv_zones (sc_resolver sv'))"
proof -
  have "zones_ok (take i zs @ drop (i + 1) zs)" if "zones_ok zs" for i and zs :: "zone list"
    using that set_take_subset [of i zs] set_drop_subset [of "i + 1" zs]
      set_take_disj_set_drop_if_distinct [of "map z_origin zs" i "i + 1"]
      distinct_take [of "map z_origin zs" i] distinct_drop [of "map z_origin zs" "i + 1"]
    by (auto simp: zones_ok_def list_all_iff take_map drop_map)
  then show ?thesis using assms by (auto simp: delete_zone_def set_zones_def Let_def split: sum.splits option.splits)
qed

lemma route_cases:
  assumes "route ho ae ap method path body sv = Some (r, sv', effs)"
  shows "sv' = sv \<and> effs = [] \<or> create_zone ho ae ap body sv = Some (r, sv', effs) \<or>
    (\<exists>name. patch_zone ho ae ap name body sv = Some (r, sv', effs)) \<or> (\<exists>name. delete_zone ap name sv = (r, sv', effs))"
  using assms unfolding route_def Let_def by (simp split: if_splits) blast+


lemma patch_zone_effect:
  assumes "patch_zone ho ae ap name body sv = Some (r, sv', effs)" "zones_ok (rv_zones (sc_resolver sv))"
  shows "if rp_status r \<noteq> ''200 OK'' then sv' = sv \<and> effs = []
    else \<exists>req origin old z. ae_patch ae body = Inr req \<and> parse_str name = Inr origin \<and>
      find (\<lambda>y. z_origin y = origin) (rv_zones (sc_resolver sv)) = Some old \<and>
      apply_rrsets req old = Some (Inr z) \<and>
      (\<forall>n. find (\<lambda>y. z_origin y = n) (rv_zones (sc_resolver sv')) =
         (if n = origin then Some (bump_serial z) else find (\<lambda>y. z_origin y = n) (rv_zones (sc_resolver sv)))) \<and>
      rp_body r = Patched_body (display_name origin) (zone_serial (bump_serial z)) \<and>
      sc_journal sv' = journal_record old (bump_serial z) (sc_journal sv) \<and>
      (\<forall>path. api_zone_path ap origin = Some path \<longrightarrow> Write_file path (to_zonefile (bump_serial z)) \<in> set effs) \<and>
      (\<forall>target \<in> set (ap_notify_targets ap). Send_notify target origin \<in> set effs)"
  using assms(1)
proof (cases rule: patch_zone_cases)
  case (patched req origin idx z)
  let ?zs = "rv_zones (sc_resolver sv)"
  have i: "idx < length ?zs" "z_origin (?zs ! idx) = origin" using position_Some [OF patched(3)] by simp_all
  have "wf_zone (?zs ! idx)" "wf_name (z_origin (?zs ! idx))" using assms(2) i(1) by (auto simp: zones_ok_def list_all_length)
  then have o: "z_origin (bump_serial z) = origin" using apply_rrsets_wf [OF patched(4)] i(2) by simp
  have u: "find (\<lambda>y. z_origin y = origin) ?zs = Some (?zs ! idx)"
    "find (\<lambda>y. z_origin y = n) (?zs[idx := bump_serial z]) =
       (if n = origin then Some (bump_serial z) else find (\<lambda>y. z_origin y = n) ?zs)" for n
    using find_list_update [of "\<lambda>y. z_origin y = origin" ?zs idx] position_Some [OF patched(3)] patched(3) o
    by (auto simp: find_Some_iff)
  note c = commit_zones_state [OF patched(5)]
  show ?thesis
    using patched(1,2,4,6) u c(1,2) c(3) o
    by (simp add: reply_ok_def persist_def notify_secondaries_def split: option.splits)
qed simp

text \<open>Whatever a connection sends, the zone set stays well formed.\<close>

lemma serve_conn_ok:
  assumes "serve_conn ho ae ap stream sv = Some (out, sv', effs)" "zones_ok (rv_zones (sc_resolver sv))"
  shows "zones_ok (rv_zones (sc_resolver sv'))"
proof -
  have "sv' = sv \<or> (\<exists>method path headers body r. route ho ae ap method path body sv = Some (r, sv', effs))"
    using assms(1) by (auto simp: serve_conn_def split: option.splits if_splits)
  then show ?thesis
    using assms(2) route_cases create_zone_ok patch_zone_ok delete_zone_ok by metis
qed

section \<open>Properties\<close>

text \<open>
  C19: Nothing happens without the key.  When a connection to the management
  API changes the server, touches a file, sends a notification, or gets a reply
  other than 401, its request was read completely and carries the configured
  key in \<open>X-API-Key\<close>, and the outcome is that of the route of its method and path.
\<close>
theorem api_needs_key:
  assumes "serve_conn ho ae ap stream sv = Some (out, sv', effs)"
    and "(sv', effs) \<noteq> (sv, []) \<or> out \<notin> {None, Some (reply_bytes ae (reply_error ''401 Unauthorized'' Unauthorized))}"
  shows "\<exists>method path headers body r. read_request stream = Some (method, path, headers, body) \<and>
    header_value headers ''x-api-key'' = Some (ap_key ap) \<and>
    route ho ae ap method path body sv = Some (r, sv', effs) \<and> out = Some (reply_bytes ae r)"
  using assms by (auto simp: serve_conn_def split: option.splits if_splits)

text \<open>
  C14: A change through the API is all or nothing.  A PATCH that is not answered
  with 200 leaves the server, the files and the secondaries alone.  Otherwise
  the zone it names is the old one with all the changes applied in order and a
  new serial, which the reply tells; every other zone is the same; the journal
  has the change; the zone is written to its file when a directory is
  configured; and every configured secondary is notified.
\<close>
theorem patch_atomic:
  assumes "patch_zone ho ae ap name body sv = Some (r, sv', effs)" "zones_ok (rv_zones (sc_resolver sv))"
  shows "if rp_status r \<noteq> ''200 OK'' then sv' = sv \<and> effs = []
    else \<exists>req origin old z. ae_patch ae body = Inr req \<and> parse_str name = Inr origin \<and>
      find (\<lambda>y. z_origin y = origin) (rv_zones (sc_resolver sv)) = Some old \<and>
      apply_rrsets req old = Some (Inr z) \<and>
      (\<forall>n. find (\<lambda>y. z_origin y = n) (rv_zones (sc_resolver sv')) =
         (if n = origin then Some (bump_serial z) else find (\<lambda>y. z_origin y = n) (rv_zones (sc_resolver sv)))) \<and>
      rp_body r = Patched_body (display_name origin) (zone_serial (bump_serial z)) \<and>
      sc_journal sv' = journal_record old (bump_serial z) (sc_journal sv) \<and>
      (\<forall>path. api_zone_path ap origin = Some path \<longrightarrow> Write_file path (to_zonefile (bump_serial z)) \<in> set effs) \<and>
      (\<forall>target \<in> set (ap_notify_targets ap). Send_notify target origin \<in> set effs)"
  by (rule patch_zone_effect [OF assms])

text \<open>
  The file of a zone is not always in the zone directory: a name that begins
  with a slash, which \<open>parse_str\<close> accepts, names a file anywhere.
\<close>

theorem zone_path_escapes:
  "parse_str ''/etc/x'' = Inr [as_bytes ''/etc/x''] \<and>
   api_zone_path (ap\<lparr>ap_zone_dir := Some dir\<rparr>) [as_bytes ''/etc/x''] = Some ''/etc/x.zone''"
proof -
  have "parse_str ''/etc/x'' = Inr [as_bytes ''/etc/x'']"
    "trim_end_dots (display_name [as_bytes ''/etc/x'']) @ ''.zone'' = ''/etc/x.zone''"
    by code_simp+
  then show ?thesis by (simp add: api_zone_path_def path_join_def)
qed

section \<open>Examples\<close>

definition sample_api :: api_ctx where
  "sample_api = \<lparr>ap_key = ''k'', ap_zone_dir = Some ''/z'', ap_notify_targets = [], ap_dnssec = None\<rparr>"

definition sample_change :: rrset_in where
  "sample_change = \<lparr>ri_name = ''w.e.'', ri_type = ''A'', ri_ttl = None, ri_changetype = None, ri_records = [''10.0.0.9'']\<rparr>"

definition sample_api_env :: api_env where
  "sample_api_env = \<lparr>ae_create = (\<lambda>_. Inl ''-''), ae_patch = (\<lambda>_. Inr [sample_change]), ae_text = (\<lambda>_. ''{}''), ae_uptime = 0\<rparr>"

definition sample_delete :: bytes where
  "sample_delete = as_bytes (''DELETE /api/v1/zones/e HTTP/1.1'' @ CRLF @ ''X-API-Key: k'' @ CRLF @ CRLF)"

lemma sample_delete_read:
  "read_request [sample_delete] = Some (''DELETE'', ''/api/v1/zones/e'', ''X-API-Key: k'' @ [LF], [])"
  "header_value (''X-API-Key: k'' @ [LF]) ''x-api-key'' = Some ''k''"
proof -
  have h: "head_length sample_delete = Some 49" "length sample_delete = 49" by code_simp+
  have t: "text_lines (from_utf8_lossy (take 49 sample_delete)) = [''DELETE /api/v1/zones/e HTTP/1.1'', ''X-API-Key: k'', []]"
    "split_whitespace ''DELETE /api/v1/zones/e HTTP/1.1'' = [''DELETE'', ''/api/v1/zones/e'', ''HTTP/1.1'']"
    "header_value (''X-API-Key: k'' @ [LF]) ''content-length'' = None"
    by code_simp+
  show "read_request [sample_delete] = Some (''DELETE'', ''/api/v1/zones/e'', ''X-API-Key: k'' @ [LF], [])"
    using h t by (auto simp: read_request_def Let_def)
  show "header_value (''X-API-Key: k'' @ [LF]) ''x-api-key'' = Some ''k''" by code_simp
qed

lemma sample_zones_ok: "zones_ok (rv_zones (sc_resolver sample_server))"
  using sample_zone_printable
  by (simp add: zones_ok_def sample_server_def sample_resolver_def printable_zone_def text_name_def)

lemma sample_patch: "\<exists>z. apply_rrsets [sample_change] sample_zone = Some (Inr z)"
proof -
  have "(case apply_rrsets [sample_change] sample_zone of Some (Inr z) \<Rightarrow> True | _ \<Rightarrow> False)" by code_simp
  then show ?thesis by (auto split: option.splits sum.splits)
qed

lemma sample_patch_zone:
  "\<exists>r sv' effs. patch_zone sample_host sample_api_env sample_api ''e'' [] sample_server = Some (r, sv', effs) \<and> rp_status r = ''200 OK''"
proof -
  obtain z where "apply_rrsets [sample_change] sample_zone = Some (Inr z)" using sample_patch by blast
  moreover have "parse_str ''e'' = Inr [[101]]" "z_origin sample_zone = [[101]]" by code_simp+
  ultimately show ?thesis
    by (simp add: patch_zone_def sample_api_env_def sample_server_def sample_resolver_def commit_zones_def after_change_def
        sample_api_def reply_ok_def Let_def set_zones_def)
qed

abbreviation sample_served :: "bytes option \<times> server_ctx \<times> effect list" where
  "sample_served \<equiv> (Some (reply_bytes sample_api_env (reply_ok (Deleted_body (display_name [[101]])))),
     sample_server\<lparr>sc_resolver := set_zones [] (sc_resolver sample_server)\<rparr>, [Remove_file ''/z/e.zone''])"

lemma sample_delete_served: "serve_conn sample_host sample_api_env sample_api [sample_delete] sample_server = Some sample_served"
proof -
  have "parse_str ''e'' = Inr [[101]]" "z_origin sample_zone = [[101]]"
    "split_on CHR ''/'' (trim_matches CHR ''/'' ''/api/v1/zones/e'') = [''api'', ''v1'', ''zones'', ''e'']"
    "api_zone_path sample_api [[101]] = Some ''/z/e.zone''"
    by code_simp+
  then have "route sample_host sample_api_env sample_api ''DELETE'' ''/api/v1/zones/e'' [] sample_server =
      Some (reply_ok (Deleted_body (display_name [[101]])), snd sample_served)"
    by (simp add: route_def delete_zone_def sample_server_def sample_resolver_def Let_def set_zones_def)
  then show ?thesis using sample_delete_read by (simp add: serve_conn_def sample_api_def)
qed

theorem api_needs_key_witness:
  "\<exists>method path headers body. read_request [sample_delete] = Some (method, path, headers, body) \<and>
    header_value headers ''x-api-key'' = Some ''k''"
  using api_needs_key [OF sample_delete_served] by (auto simp: sample_api_def)

theorem patch_atomic_witness:
  "\<exists>r sv' effs z. patch_zone sample_host sample_api_env sample_api ''e'' [] sample_server = Some (r, sv', effs) \<and>
    apply_rrsets [sample_change] sample_zone = Some (Inr z) \<and>
    find (\<lambda>y. z_origin y = [[101]]) (rv_zones (sc_resolver sv')) = Some (bump_serial z) \<and>
    Write_file ''/z/e.zone'' (to_zonefile (bump_serial z)) \<in> set effs"
proof -
  have parts: "parse_str ''e'' = Inr [[101]]" "z_origin sample_zone = [[101]]" "api_zone_path sample_api [[101]] = Some ''/z/e.zone''"
    by code_simp+
  obtain r sv' effs where s: "patch_zone sample_host sample_api_env sample_api ''e'' [] sample_server = Some (r, sv', effs)"
    "rp_status r = ''200 OK''"
    using sample_patch_zone by blast
  then show ?thesis
    using patch_atomic [OF s(1) sample_zones_ok] parts by (auto simp: sample_api_env_def sample_server_def)
qed

end
