(* ===== verification/Startup.thy ===== *)
theory Startup
  imports Settings Api
begin

text \<open>
  The start of the program (\<open>rdns/src/main.rs\<close>, \<open>rdns/src/config.rs\<close>): the
  configuration and its defaults, loading zones with their included files, the
  policy, the keys, the state the listeners share, and the reload on SIGHUP.
  Files are the fields of \<open>file_system\<close>; TOML is read by a library, an
  argument of \<open>config_load\<close>.  The outer \<open>None\<close> of a result stands for a panic
  and for a zone file whose reading never ends.
\<close>

section \<open>Configuration\<close>

record recursion_cfg =
  rn_enabled :: bool
  rn_mode :: string
  rn_upstreams :: "socket_addr list"
  rn_allow :: "string list"
  rn_validate :: bool
  rn_trust_anchor_file :: "string option"

record rate_limit_cfg =
  rt_qps :: u32
  rt_burst :: u32

record api_cfg =
  ac_listen :: socket_addr
  ac_key :: string

record transfer_cfg =
  tr_allow :: "string list"
  tr_notify :: "socket_addr list"
  tr_require_tsig :: "string option"

record secondary_cfg =
  sd_zone :: string
  sd_primaries :: "socket_addr list"
  sd_tsig_key :: "string option"

record forward_cfg =
  fw_zone :: string
  fw_upstreams :: "socket_addr list"

record tsig_key_cfg =
  tg_name :: string
  tg_algorithm :: string
  tg_secret :: string

record dnssec_cfg =
  ds_key_file :: "string option"
  ds_zones :: "string list"
  ds_validity_days :: u64
  ds_algorithm :: string
  ds_nsec3 :: bool
  ds_nsec3_iterations :: u16
  ds_nsec3_salt :: string

record tls_cfg =
  tl_cert :: "string option"
  tl_key :: "string option"
  tl_self_signed_names :: "string list"
  tl_dot_listen :: "socket_addr option"
  tl_doh_listen :: "socket_addr option"
  tl_doq_listen :: "socket_addr option"

record update_cfg =
  ud_allow :: "string list"
  ud_require_tsig :: "string option"

record cookie_cfg =
  co_enabled :: bool
  co_require :: bool

record view_cfg =
  vw_match_clients :: "string list"
  vw_zones :: "string list"
  vw_zone_dir :: "string option"

record config =
  cf_listen :: socket_addr
  cf_workers :: nat
  cf_zones :: "string list"
  cf_zone_dir :: "string option"
  cf_journal_dir :: "string option"
  cf_query_log :: bool
  cf_recursion :: recursion_cfg
  cf_max_entries :: nat
  cf_rate_limit :: rate_limit_cfg
  cf_api :: "api_cfg option"
  cf_transfer :: transfer_cfg
  cf_secondaries :: "secondary_cfg list"
  cf_forwards :: "forward_cfg list"
  cf_rpz_file :: "string option"
  cf_tsig_keys :: "tsig_key_cfg list"
  cf_dnssec :: dnssec_cfg
  cf_tls :: "tls_cfg option"
  cf_update :: update_cfg
  cf_cookies :: cookie_cfg
  cf_views :: "view_cfg list"

definition default_tsig_alg :: string where
  "default_tsig_alg = ''hmac-sha256''"

definition default_dnssec_alg :: string where
  "default_dnssec_alg = ''ecdsap256''"

definition default_validity_days :: u64 where
  "default_validity_days = 14"

definition default_recursion_mode :: string where
  "default_recursion_mode = ''forward''"

text \<open>The addresses are those that the constant texts of the source parse to.\<close>

definition recursion_default :: recursion_cfg where
  "recursion_default =
     \<lparr>rn_enabled = True, rn_mode = default_recursion_mode, rn_upstreams = [(V4 0x01010101, 53), (V4 0x08080808, 53)],
      rn_allow = [''127.0.0.0/8'', ''::1/128''], rn_validate = False, rn_trust_anchor_file = None\<rparr>"

definition cookie_default :: cookie_cfg where
  "cookie_default = \<lparr>co_enabled = True, co_require = False\<rparr>"

definition tls_default :: tls_cfg where
  "tls_default =
     \<lparr>tl_cert = None, tl_key = None, tl_self_signed_names = [''localhost''], tl_dot_listen = None, tl_doh_listen = None,
      tl_doq_listen = None\<rparr>"

text \<open>
  \<open>DnssecCfg\<close> derives its default: without a section its algorithm is empty and
  its validity zero; the named defaults are those of fields missing in a
  section that is there.
\<close>

definition dnssec_default :: dnssec_cfg where
  "dnssec_default =
     \<lparr>ds_key_file = None, ds_zones = [], ds_validity_days = 0, ds_algorithm = [], ds_nsec3 = False, ds_nsec3_iterations = 0,
      ds_nsec3_salt = []\<rparr>"

definition config_default :: config where
  "config_default =
     \<lparr>cf_listen = (V4 0x7F000001, 5300), cf_workers = 0, cf_zones = [], cf_zone_dir = None, cf_journal_dir = None,
      cf_query_log = True, cf_recursion = recursion_default, cf_max_entries = 100000,
      cf_rate_limit = \<lparr>rt_qps = 0, rt_burst = 0\<rparr>, cf_api = None,
      cf_transfer = \<lparr>tr_allow = [], tr_notify = [], tr_require_tsig = None\<rparr>, cf_secondaries = [], cf_forwards = [],
      cf_rpz_file = None, cf_tsig_keys = [], cf_dnssec = dnssec_default, cf_tls = None,
      cf_update = \<lparr>ud_allow = [], ud_require_tsig = None\<rparr>, cf_cookies = cookie_default, cf_views = []\<rparr>"

text \<open>
  The file system: the text of a file (\<open>None\<close> when it cannot be read as
  UTF-8), the names in a directory, whether a path exists, and whether a
  directory can be made or a file written.
\<close>

record file_system =
  fs_read :: "string \<Rightarrow> string option"
  fs_dir :: "string \<Rightarrow> string list option"
  fs_exists :: "string \<Rightarrow> bool"
  fs_make_dir :: "string \<Rightarrow> bool"
  fs_writable :: "string \<Rightarrow> bool"

datatype start_error =
    CannotRead string
  | BadToml string string
  | InZoneFile string zone_error
  | DuplicateZone string dns_name
  | IncludeTooDeep
  | IncludeNeedsFile
  | IncludeUnreadable string
  | InFile string start_error
  | BadNetwork cidr_error
  | BadRpz rpz_error
  | BadAnchor string anchor_error
  | BadForwardZone name_error
  | JournalDir string
  | UnknownTsigAlgorithm string
  | BadTsigKey tsig_key_error
  | BadDnssecZone string name_error
  | UnknownDnssecAlgorithm string
  | BadSigningKey key_error
  | CannotWrite string
  | BadSalt
  | BadSecondaryZone name_error
  | UnknownTsigKey dns_name string
  | BadTransferTsig name_error
  | BadUpdateTsig name_error

definition config_load :: "(string \<Rightarrow> string + config) \<Rightarrow> file_system \<Rightarrow> string option \<Rightarrow> start_error + config" where
  "config_load toml fs path =
     (case path of
        None \<Rightarrow> Inr config_default
      | Some p \<Rightarrow> and_then (ok_or (CannotRead p) (fs_read fs p)) (\<lambda>body. map_err (BadToml p) (toml body)))"

section \<open>Zones\<close>

definition or_else :: "'a option \<Rightarrow> 'a option \<Rightarrow> 'a option" where
  "or_else a b = (case a of Some x \<Rightarrow> Some x | None \<Rightarrow> b)"

definition include_rest :: "string \<Rightarrow> string option" where
  "include_rest line =
     (let trimmed = trim_start line in or_else (strip_prefix ''$INCLUDE'' trimmed) (strip_prefix ''$include'' trimmed))"

function expand_lines :: "file_system \<Rightarrow> nat \<Rightarrow> string \<Rightarrow> string list \<Rightarrow> start_error + string" where
  "expand_lines fs depth base [] = Inr []"
| "expand_lines fs depth base (line # lines) =
     (case include_rest line of
        None \<Rightarrow> and_then (expand_lines fs depth base lines) (\<lambda>out. Inr (line @ [LF] @ out))
      | Some rest \<Rightarrow>
          (case split_whitespace rest of
             [] \<Rightarrow> Inl IncludeNeedsFile
           | word # parts \<Rightarrow>
               let inc_path = path_join base (trim_matches DQUOTE word) in
               (case fs_read fs inc_path of
                  None \<Rightarrow> Inl (IncludeUnreadable inc_path)
                | Some inc_text \<Rightarrow>
                    let inc_base = (case path_parent inc_path of Some p \<Rightarrow> p | None \<Rightarrow> []) in
                    and_then (if depth + 1 > 8 then Inl IncludeTooDeep
                              else expand_lines fs (depth + 1) inc_base (text_lines inc_text)) (\<lambda>expanded.
                    and_then (expand_lines fs depth base lines) (\<lambda>out.
                      Inr ((case parts of o' # _ \<Rightarrow> ''$ORIGIN '' @ o' @ [LF] | [] \<Rightarrow> []) @ expanded @ [LF] @ out))))))"
  by pat_completeness auto
termination
  by (relation "measures [\<lambda>(_, depth, _, _). 9 - depth, \<lambda>(_, _, _, lines). length lines]") auto

definition expand_includes :: "file_system \<Rightarrow> string \<Rightarrow> string \<Rightarrow> nat \<Rightarrow> start_error + string" where
  "expand_includes fs body base depth =
     (if depth > 8 then Inl IncludeTooDeep else expand_lines fs depth base (text_lines body))"

definition zone_paths :: "file_system \<Rightarrow> string list \<Rightarrow> string option \<Rightarrow> start_error + string list" where
  "zone_paths fs explicit zone_dir =
     (case zone_dir of
        None \<Rightarrow> Inr explicit
      | Some dir \<Rightarrow>
          and_then (ok_or (CannotRead dir) (fs_dir fs dir)) (\<lambda>names.
            Inr (explicit @ map (path_join dir) (filter (\<lambda>f. extension f = Some ''zone'') names))))"

definition load_zone :: "file_system \<Rightarrow> string \<Rightarrow> (start_error + zone) option" where
  "load_zone fs path =
     (case fs_read fs path of
        None \<Rightarrow> Some (Inl (CannotRead path))
      | Some body \<Rightarrow>
          (case expand_includes fs body (case path_parent path of Some p \<Rightarrow> p | None \<Rightarrow> []) 0 of
             Inl e \<Rightarrow> Some (Inl (InFile path e))
           | Inr expanded \<Rightarrow>
               (case parse_zone_file expanded of
                  None \<Rightarrow> None
                | Some (Inl e) \<Rightarrow> if ze_msg e = HexSplitsChar then None else Some (Inl (InZoneFile path e))
                | Some (Inr z) \<Rightarrow> Some (Inr z))))"

fun load_paths :: "file_system \<Rightarrow> string list \<Rightarrow> zone list \<Rightarrow> (start_error + zone list) option" where
  "load_paths fs [] zones = Some (Inr zones)"
| "load_paths fs (path # paths) zones =
     (case load_zone fs path of
        None \<Rightarrow> None
      | Some (Inl e) \<Rightarrow> Some (Inl e)
      | Some (Inr z) \<Rightarrow>
          if list_ex (\<lambda>y. z_origin y = z_origin z) zones then Some (Inl (DuplicateZone path (z_origin z)))
          else load_paths fs paths (zones @ [z]))"

definition load_zones :: "file_system \<Rightarrow> string list \<Rightarrow> string option \<Rightarrow> (start_error + zone list) option" where
  "load_zones fs explicit zone_dir =
     (case zone_paths fs explicit zone_dir of
        Inl e \<Rightarrow> Some (Inl e)
      | Inr paths \<Rightarrow> load_paths fs paths [])"

section \<open>Policy, anchors and views\<close>

definition load_rpz :: "file_system \<Rightarrow> config \<Rightarrow> start_error + rpz" where
  "load_rpz fs cfg =
     (case cf_rpz_file cfg of
        None \<Rightarrow> Inr []
      | Some path \<Rightarrow> and_then (ok_or (CannotRead path) (fs_read fs path)) (\<lambda>body. map_err BadRpz (rpz_parse body)))"

fun anchor_lines :: "string \<Rightarrow> string list \<Rightarrow> start_error + trust_anchor list" where
  "anchor_lines path [] = Inr []"
| "anchor_lines path (line # lines) =
     and_then (map_err (BadAnchor path) (anchor_parse line)) (\<lambda>a.
     and_then (anchor_lines path lines) (\<lambda>anchors.
       Inr ((case a of Some x \<Rightarrow> [x] | None \<Rightarrow> []) @ anchors)))"

definition load_anchors :: "file_system \<Rightarrow> config \<Rightarrow> start_error + trust_anchor list" where
  "load_anchors fs cfg =
     (case rn_trust_anchor_file (cf_recursion cfg) of
        None \<Rightarrow> Inr []
      | Some path \<Rightarrow> and_then (ok_or (CannotRead path) (fs_read fs path)) (\<lambda>body. anchor_lines path (text_lines body)))"

fun load_forwards :: "forward_cfg list \<Rightarrow> start_error + (dns_name \<times> socket_addr list) list" where
  "load_forwards [] = Inr []"
| "load_forwards (f # fs) =
     and_then (map_err BadForwardZone (parse_str (fw_zone f))) (\<lambda>zone.
     and_then (load_forwards fs) (\<lambda>rest. Inr ((zone, fw_upstreams f) # rest)))"

fun load_views :: "file_system \<Rightarrow> view_cfg list \<Rightarrow> (start_error + (acl \<times> zone list) list) option" where
  "load_views fs [] = Some (Inr [])"
| "load_views fs (v # vs) =
     (case acl_parse (vw_match_clients v) of
        Inl e \<Rightarrow> Some (Inl (BadNetwork e))
      | Inr acl \<Rightarrow>
          (case load_zones fs (vw_zones v) (vw_zone_dir v) of
             None \<Rightarrow> None
           | Some (Inl e) \<Rightarrow> Some (Inl e)
           | Some (Inr zones) \<Rightarrow> map_option (\<lambda>r. and_then r (\<lambda>rest. Inr ((acl, zones) # rest))) (load_views fs vs)))"

section \<open>Keys\<close>

fun ring_keys :: "tsig_key_cfg list \<Rightarrow> key_ring \<Rightarrow> start_error + key_ring" where
  "ring_keys [] ring = Inr ring"
| "ring_keys (k # ks) ring =
     (let alg = map lower_char (tg_algorithm k) in
      and_then (if alg = ''hmac-sha256'' then Inr HmacSha256
                else if alg = ''hmac-sha512'' then Inr HmacSha512
                else Inl (UnknownTsigAlgorithm alg)) (\<lambda>algo.
      and_then (map_err BadTsigKey (tsig_key_new (tg_name k) algo (tg_secret k))) (\<lambda>key.
        ring_keys ks (ring_insert key ring))))"

definition build_keyring :: "config \<Rightarrow> start_error + key_ring" where
  "build_keyring cfg = ring_keys (cf_tsig_keys cfg) Map.empty"

text \<open>The salt: trimmed; a slice inside a character is a panic.\<close>

definition decode_salt :: "string \<Rightarrow> bytes option option" where
  "decode_salt s =
     (case decode_hex (trim s) of Inr b \<Rightarrow> Some (Some b) | Inl BadHex \<Rightarrow> Some None | Inl SplitsChar \<Rightarrow> None)"

fun parse_origins :: "string list \<Rightarrow> start_error + dns_name list" where
  "parse_origins [] = Inr []"
| "parse_origins (z # zs) =
     and_then (map_err (BadDnssecZone z) (parse_str z)) (\<lambda>n. and_then (parse_origins zs) (\<lambda>ns. Inr (n # ns)))"

definition key_line :: "string \<Rightarrow> bool \<times> string" where
  "key_line line =
     (case split_once CHR '' '' line of
        Some (role, m) \<Rightarrow>
          if role = ''ksk'' then (True, trim m) else if role = ''zsk'' then (False, trim m) else (True, line)
      | None \<Rightarrow> (True, line))"

fun read_keys :: "key_lib \<Rightarrow> dns_name \<Rightarrow> string list \<Rightarrow> start_error + dnssec_key list" where
  "read_keys kl sname [] = Inr []"
| "read_keys kl sname (line # lines) =
     (case key_line line of
        (ksk, material) \<Rightarrow>
          and_then (map_err BadSigningKey (from_material kl sname material ksk)) (\<lambda>key.
          and_then (read_keys kl sname lines) (\<lambda>keys. Inr (key # keys))))"

definition signing_algorithm :: "string \<Rightarrow> start_error + byte" where
  "signing_algorithm name =
     (let alg = map lower_char name in
      if alg = ''ed25519'' then Inr ALG_ED25519
      else if alg \<in> {''ecdsap256'', ''ecdsa''} then Inr ALG_ECDSAP256
      else if alg \<in> {''rsasha256'', ''rsa''} then Inr ALG_RSASHA256
      else Inl (UnknownDnssecAlgorithm alg))"

text \<open>The keys to sign with: a new one, which goes to the key file, or those of the file.\<close>

definition fresh_key :: "key_lib \<Rightarrow> file_system \<Rightarrow> string option \<Rightarrow> dns_name \<Rightarrow> byte \<Rightarrow> start_error + dnssec_key list \<times> effect list" where
  "fresh_key kl fs key_file sname alg =
     and_then (map_err BadSigningKey (generate_key kl sname alg True)) (\<lambda>(key, material).
       case key_file of
         None \<Rightarrow> Inr ([key], [])
       | Some path \<Rightarrow>
           if fs_writable fs path then Inr ([key], [Write_file path (''ksk '' @ material @ [LF])])
           else Inl (CannotWrite path))"

definition file_keys :: "key_lib \<Rightarrow> file_system \<Rightarrow> string \<Rightarrow> dns_name \<Rightarrow> start_error + dnssec_key list" where
  "file_keys kl fs path sname =
     and_then (ok_or (CannotRead path) (fs_read fs path)) (\<lambda>body.
       read_keys kl sname (filter (\<lambda>l. l \<noteq> []) (map trim (text_lines body))))"

definition filter_exists :: "file_system \<Rightarrow> string option \<Rightarrow> string option" where
  "filter_exists fs path = (case path of Some p \<Rightarrow> if fs_exists fs p then Some p else None | None \<Rightarrow> None)"

definition load_dnssec_keys ::
  "key_lib \<Rightarrow> file_system \<Rightarrow> dnssec_cfg \<Rightarrow> start_error + (dnssec_key list \<times> dns_name list) option \<times> effect list" where
  "load_dnssec_keys kl fs cfg =
     (if ds_zones cfg = [] then Inr (None, [])
      else
        and_then (parse_origins (ds_zones cfg)) (\<lambda>origins.
        and_then (signing_algorithm (ds_algorithm cfg)) (\<lambda>alg.
        and_then (case filter_exists fs (ds_key_file cfg) of
                    Some path \<Rightarrow> and_then (file_keys kl fs path (hd origins)) (\<lambda>keys. Inr (keys, []))
                  | None \<Rightarrow> fresh_key kl fs (ds_key_file cfg) (hd origins) alg) (\<lambda>(keys, effs).
          Inr (Some (keys, origins), effs)))))"

section \<open>The state of the server\<close>

definition secondary_key :: "config \<Rightarrow> dns_name \<Rightarrow> secondary_cfg \<Rightarrow> start_error + tsig_key option" where
  "secondary_key cfg origin sd =
     (case sd_tsig_key sd of
        None \<Rightarrow> Inr None
      | Some name \<Rightarrow>
          and_then (ok_or (UnknownTsigKey origin name) (find (\<lambda>k. tg_name k = name) (cf_tsig_keys cfg))) (\<lambda>k.
          and_then (map_err BadTsigKey (tsig_key_new (tg_name k)
              (if map lower_char (tg_algorithm k) = ''hmac-sha512'' then HmacSha512 else HmacSha256) (tg_secret k))) (\<lambda>key.
            Inr (Some key))))"

fun load_secondaries :: "config \<Rightarrow> secondary_cfg list \<Rightarrow> start_error + secondary list" where
  "load_secondaries cfg [] = Inr []"
| "load_secondaries cfg (sd # sds) =
     and_then (map_err BadSecondaryZone (parse_str (sd_zone sd))) (\<lambda>origin.
     and_then (secondary_key cfg origin sd) (\<lambda>key.
     and_then (load_secondaries cfg sds) (\<lambda>rest.
       Inr (\<lparr>se_origin = origin, se_primaries = sd_primaries sd, se_tsig_key = key\<rparr> # rest))))"

definition required_key :: "(name_error \<Rightarrow> start_error) \<Rightarrow> string option \<Rightarrow> start_error + dns_name option" where
  "required_key wrap name =
     (case name of None \<Rightarrow> Inr None | Some n \<Rightarrow> and_then (map_err wrap (parse_str n)) (\<lambda>k. Inr (Some k)))"

type_synonym signing = "(dnssec_key list \<times> dns_name list \<times> u64 \<times> nsec3_params option) option"

definition update_settings :: "config \<Rightarrow> signing \<Rightarrow> start_error + update_ctx option" where
  "update_settings cfg signing =
     (if ud_allow (cf_update cfg) = [] then Inr None
      else
        and_then (required_key BadUpdateTsig (ud_require_tsig (cf_update cfg))) (\<lambda>key.
        and_then (map_err BadNetwork (acl_parse (ud_allow (cf_update cfg)))) (\<lambda>acl.
          Inr (Some \<lparr>up_acl = acl, up_require_tsig = key, up_zone_dir = cf_zone_dir cfg,
            up_notify_targets = tr_notify (cf_transfer cfg), up_dnssec = signing\<rparr>))))"

definition start_journal :: "file_system \<Rightarrow> string option \<Rightarrow> (start_error + journal) option" where
  "start_journal fs dir =
     (case dir of
        None \<Rightarrow> Some (Inr Map.empty)
      | Some d \<Rightarrow>
          if \<not> fs_make_dir fs d then Some (Inl (JournalDir d))
          else map_option Inr (journal_with_dir
            (map (\<lambda>f. (f, fs_read fs (path_join d f))) (case fs_dir fs d of Some names \<Rightarrow> names | None \<Rightarrow> []))))"

definition nsec3_settings :: "dnssec_cfg \<Rightarrow> (start_error + nsec3_params option) option" where
  "nsec3_settings cfg =
     (if ds_nsec3 cfg then
        map_option (\<lambda>salt. and_then (ok_or BadSalt salt) (\<lambda>s. Inr (Some \<lparr>n3_iterations = ds_nsec3_iterations cfg, n3_salt = s\<rparr>)))
          (decode_salt (ds_nsec3_salt cfg))
      else Some (Inr None))"

definition start_then :: "('e + 'a) option \<Rightarrow> ('a \<Rightarrow> ('e + 'b) option) \<Rightarrow> ('e + 'b) option" where
  "start_then r f = (case r of None \<Rightarrow> None | Some (Inl e) \<Rightarrow> Some (Inl e) | Some (Inr x) \<Rightarrow> f x)"

definition load_options :: "file_system \<Rightarrow> config \<Rightarrow> (start_error + acl \<times> acl \<times> resolver_options) option" where
  "load_options fs cfg =
     (let rn = cf_recursion cfg;
          recursive = (rn_enabled rn \<and> eq_ignore_ascii_case (rn_mode rn) ''recursive'')
      in start_then (load_zones fs (cf_zones cfg) (cf_zone_dir cfg)) (\<lambda>zones.
         start_then (Some (map_err BadNetwork (acl_parse (rn_allow rn)))) (\<lambda>acl.
         start_then (Some (map_err BadNetwork (acl_parse (tr_allow (cf_transfer cfg))))) (\<lambda>transfer_acl.
         start_then (Some (load_forwards (cf_forwards cfg))) (\<lambda>forwards.
         start_then (Some (load_rpz fs cfg)) (\<lambda>rules.
         start_then (Some (load_anchors fs cfg)) (\<lambda>anchors.
         start_then (load_views fs (cf_views cfg)) (\<lambda>views.
           Some (Inr (acl, transfer_acl, \<lparr>ro_zones = zones,
             ro_upstreams = (if rn_enabled rn \<and> \<not> recursive then rn_upstreams rn else []),
             ro_forwards = forwards, ro_cache_size = cf_max_entries cfg, ro_rpz = rules, ro_signed = [],
             ro_validate = rn_validate rn, ro_recursive = recursive, ro_views = views, ro_trust_anchors = anchors\<rparr>))))))))))"

record started =
  st_server :: server_ctx
  st_api :: "api_ctx option"
  st_secondaries :: "secondary list"
  st_signing :: signing
  st_effects :: "effect list"

text \<open>
  From the configuration to the state.  \<open>cookie_key\<close> is the random key of the
  cookies.
\<close>

definition start_signing ::
  "host \<Rightarrow> key_lib \<Rightarrow> file_system \<Rightarrow> config \<Rightarrow> resolver \<Rightarrow> (start_error + resolver \<times> signing \<times> effect list) option" where
  "start_signing ho kl fs cfg rv =
     start_then (Some (load_dnssec_keys kl fs (cf_dnssec cfg))) (\<lambda>(dnssec, effs).
     let validity = ds_validity_days (cf_dnssec cfg) * 86400 in
     start_then (nsec3_settings (cf_dnssec cfg)) (\<lambda>nsec3.
       case dnssec of
         None \<Rightarrow> Some (Inr (rv, None, effs))
       | Some (keys, origins) \<Rightarrow>
           map_option (\<lambda>rv'. Inr (rv', Some (keys, origins, validity, nsec3), effs))
             (resign (ho_crypto ho) keys origins (ho_unix_now ho) validity nsec3 rv)))"

definition startup ::
  "host \<Rightarrow> key_lib \<Rightarrow> file_system \<Rightarrow> cookie_key \<Rightarrow> config \<Rightarrow> (start_error + started) option" where
  "startup ho kl fs cookie_key cfg =
     start_then (load_options fs cfg) (\<lambda>(acl, transfer_acl, opts).
     start_then (Some (build_keyring cfg)) (\<lambda>ring.
     start_then (start_journal fs (cf_journal_dir cfg)) (\<lambda>journal.
     start_then (start_signing ho kl fs cfg (resolver_new root_ksk_2017 opts metrics_new)) (\<lambda>(rv, signing, effs).
     start_then (Some (load_secondaries cfg (cf_secondaries cfg))) (\<lambda>secondaries.
     start_then (Some (required_key BadTransferTsig (tr_require_tsig (cf_transfer cfg)))) (\<lambda>require_tsig.
     start_then (Some (update_settings cfg signing)) (\<lambda>updates.
       Some (Inr
         \<lparr>st_server =
            \<lparr>sc_resolver = rv, sc_acl = acl,
             sc_limiter = (if rt_qps (cf_rate_limit cfg) > 0
               then Some (limiter_new (rt_qps (cf_rate_limit cfg)) (rt_burst (cf_rate_limit cfg))) else None),
             sc_query_log = cf_query_log cfg, sc_transfer_acl = transfer_acl, sc_secondaries = map se_origin secondaries,
             sc_journal = journal, sc_journal_dir = cf_journal_dir cfg, sc_tsig_keys = ring, sc_require_tsig = require_tsig,
             sc_updates = updates,
             sc_cookie_key = (if co_enabled (cf_cookies cfg) then Some cookie_key else None),
             sc_require_cookie = (co_enabled (cf_cookies cfg) \<and> co_require (cf_cookies cfg))\<rparr>,
          st_api = map_option (\<lambda>a. \<lparr>ap_key = ac_key a, ap_zone_dir = cf_zone_dir cfg,
            ap_notify_targets = tr_notify (cf_transfer cfg), ap_dnssec = signing\<rparr>) (cf_api cfg),
          st_secondaries = secondaries, st_signing = signing, st_effects = effs\<rparr>))))))))"

record args =
  ar_listen :: "socket_addr option"
  ar_zone :: "string list"
  ar_no_forward :: bool

definition apply_args :: "args \<Rightarrow> config \<Rightarrow> config" where
  "apply_args ar cfg =
     (let cfg1 = (case ar_listen ar of Some l \<Rightarrow> cfg\<lparr>cf_listen := l\<rparr> | None \<Rightarrow> cfg);
          cfg2 = cfg1\<lparr>cf_zones := cf_zones cfg1 @ ar_zone ar\<rparr>
      in if ar_no_forward ar then cfg2\<lparr>cf_recursion := (cf_recursion cfg2)\<lparr>rn_enabled := False\<rparr>\<rparr> else cfg2)"

datatype listener = Udp_listener | Tcp_listener | Dot_listener | Doh_listener | Doq_listener | Api_listener

text \<open>The listeners that are opened, with as many UDP workers as configured or as the machine has cores.\<close>

definition listeners :: "nat \<Rightarrow> config \<Rightarrow> (listener \<times> socket_addr) list" where
  "listeners cores cfg =
     (let optional = (\<lambda>l a. case a of Some addr \<Rightarrow> [(l, addr)] | None \<Rightarrow> []) in
      replicate (if cf_workers cfg = 0 then cores else cf_workers cfg) (Udp_listener, cf_listen cfg) @
      [(Tcp_listener, cf_listen cfg)] @
      (case cf_tls cfg of
         None \<Rightarrow> []
       | Some t \<Rightarrow> optional Dot_listener (tl_dot_listen t) @ optional Doh_listener (tl_doh_listen t) @
           optional Doq_listener (tl_doq_listen t)) @
      optional Api_listener (map_option ac_listen (cf_api cfg)))"

section \<open>Reload\<close>

text \<open>SIGHUP.  A zone set or a policy that cannot be loaded leaves the current one in place.\<close>

definition reload :: "host \<Rightarrow> file_system \<Rightarrow> config \<Rightarrow> signing \<Rightarrow> resolver \<Rightarrow> resolver option" where
  "reload ho fs cfg signing rv =
     Option.bind (load_zones fs (cf_zones cfg) (cf_zone_dir cfg)) (\<lambda>zones.
     let rv1 = (case zones of Inr zs \<Rightarrow> tick Zone_reloads (set_zones zs rv) | Inl e \<Rightarrow> rv);
         rv2 = (case load_rpz fs cfg of Inr rules \<Rightarrow> set_rpz rules rv1 | Inl e \<Rightarrow> rv1)
     in case signing of
          None \<Rightarrow> Some rv2
        | Some (keys, origins, validity, nsec3) \<Rightarrow>
            resign (ho_crypto ho) keys origins (ho_unix_now ho) validity nsec3 rv2)"

text \<open>The timer that renews the signatures before they expire.\<close>

definition resign_interval :: "u64 \<Rightarrow> u64" where
  "resign_interval validity = max (validity div 3) 3600"

definition resign_tick :: "host \<Rightarrow> signing \<Rightarrow> resolver \<Rightarrow> resolver option" where
  "resign_tick ho signing rv =
     (case signing of
        None \<Rightarrow> Some rv
      | Some (keys, origins, validity, nsec3) \<Rightarrow>
          map_option (tick Zone_reloads) (resign (ho_crypto ho) keys origins (ho_unix_now ho) validity nsec3 rv))"

end
