(* ===== verification/Running.thy ===== *)
theory Running
  imports Startup
begin

text \<open>
  A server from its start on: the zones it loads, the files it writes and reads
  again, the states it runs through between requests to the management API,
  reloads and renewals of its signatures, and the properties that span these
  parts.
\<close>

section \<open>Loaded zones\<close>

lemma load_zone_typed: "load_zone fs path = Some (Inr z) \<Longrightarrow> wf_zone z \<and> wf_name (z_origin z)"
  by (auto simp: load_zone_def split: option.splits sum.splits if_splits dest: parse_zone_file_typed)

lemma load_paths_ok: "load_paths fs paths zs = Some (Inr zs') \<Longrightarrow> zones_ok zs \<Longrightarrow> zones_ok zs'"
proof (induction paths arbitrary: zs)
  case (Cons path paths)
  obtain z where z: "load_zone fs path = Some (Inr z)" "\<not> list_ex (\<lambda>y. z_origin y = z_origin z) zs"
    "load_paths fs paths (zs @ [z]) = Some (Inr zs')"
    using Cons.prems(1) by (auto split: option.splits sum.splits if_splits)
  have "zones_ok (zs @ [z])"
    using Cons.prems(2) load_zone_typed [OF z(1)] z(2) by (auto simp: zones_ok_def list_ex_iff)
  then show ?case by (rule Cons.IH [OF z(3)])
qed simp

lemma load_zones_ok: "load_zones fs paths dir = Some (Inr zs) \<Longrightarrow> zones_ok zs"
  by (auto simp: load_zones_def zones_ok_def [of "[]"] split: sum.splits intro: load_paths_ok)

lemma start_then_Inr: "start_then r f = Some (Inr y) \<longleftrightarrow> (\<exists>x. r = Some (Inr x) \<and> f x = Some (Inr y))"
  by (auto simp: start_then_def split: option.splits sum.splits)

lemma start_signing_zones:
  "start_signing ho kl fs cfg rv = Some (Inr (rv', signing, effs)) \<Longrightarrow> rv_zones rv' = rv_zones rv"
  by (auto simp: start_signing_def start_then_Inr Let_def split: option.splits prod.splits dest: resign_keeps)

lemma startup_zones:
  assumes "startup ho kl fs ck cfg = Some (Inr st)"
  shows "load_zones fs (cf_zones cfg) (cf_zone_dir cfg) = Some (Inr (rv_zones (sc_resolver (st_server st))))"
proof -
  obtain acl tacl opts rv signing effs where
    o: "load_options fs cfg = Some (Inr (acl, tacl, opts))"
    and s: "start_signing ho kl fs cfg (resolver_new root_ksk_2017 opts metrics_new) = Some (Inr (rv, signing, effs))"
    "sc_resolver (st_server st) = rv"
    using assms by (auto simp: startup_def start_then_Inr split: prod.splits)
  have "load_zones fs (cf_zones cfg) (cf_zone_dir cfg) = Some (Inr (ro_zones opts))"
    using o by (auto simp: load_options_def Let_def start_then_Inr)
  then show ?thesis using start_signing_zones [OF s(1)] s(2) by (simp add: resolver_new_def)
qed

section \<open>Files written by the server\<close>

definition plain_owners :: "zone \<Rightarrow> bool" where
  "plain_owners z \<longleftrightarrow> list_all (\<lambda>(n, _). hd (display_name n) \<noteq> CHR ''$'') (z_records z)"

lemma trim_start_visible:
  assumes "visible c" shows "trim_start (c # s) = c # s"
proof -
  have "\<exists>g gs. chars (c # s) = (c # g) # gs"
    by (cases "chars s"; cases "boundary_byte (hd (hd (chars s)))") auto
  then obtain g gs where g: "chars (c # s) = (c # g) # gs" by blast
  have "\<not> is_whitespace (c # g)" using assms by (auto simp: is_whitespace_def visible_def ws_len_ascii)
  then show ?thesis using g chars_groups(2) [of "c # s"] by (simp add: trim_start_def)
qed

lemma not_include: "visible c \<Longrightarrow> c \<noteq> CHR ''$'' \<Longrightarrow> include_rest (c # s) = None"
  by (simp add: include_rest_def trim_start_visible or_else_def)

lemma expand_plain:
  "list_all (\<lambda>l. include_rest l = None) ls \<Longrightarrow> expand_lines fs depth base ls = Inr (unlines ls)"
  by (induction ls) (simp_all add: unlines_def)

lemma rr_line_plain:
  assumes "text_rr r" "hd (display_name (rr_name r)) \<noteq> CHR ''$''" shows "include_rest (rr_line r) = None"
proof -
  have "word_text (display_name (rr_name r))" using assms(1) text_name_visible(1) by (simp add: text_rr_def)
  then obtain c cs where c: "display_name (rr_name r) = c # cs" "visible c" by (cases "display_name (rr_name r)") auto
  then have "\<exists>s. rr_line r = c # s" by (simp add: rr_line_def)
  then show ?thesis using not_include c assms(2) by auto
qed

lemma zonefile_expands:
  assumes "wf_zone z" "printable_zone z" "plain_owners z"
  shows "expand_includes fs (to_zonefile z) base 0 = Inr (to_zonefile z)"
proof -
  let ?ls = "[''; generated by rdns'', ''$ORIGIN '' @ display_name (z_origin z)] @ map rr_line (written_records z)"
  have written: "text_rr r" "rr_name r \<in> fst ` set (z_records z)" if "r \<in> set (written_records z)" for r
  proof -
    show "text_rr r"
      using printable_records(1) [OF assms(2)] written_records_mem(1) [OF assms(1) that] by blast
    have "r \<in> set (node_or_default (z_records z) (rr_name r))" by (rule written_records_mem(1) [OF assms(1) that])
    then show "rr_name r \<in> fst ` set (z_records z)"
      by (cases "map_of (z_records z) (rr_name r)") (auto simp: node_or_default_def dest!: map_of_SomeD intro: rev_image_eqI)
  qed
  have "visible CHR '';''" "visible CHR ''$''" by (simp_all add: visible_def)
  then have "include_rest ''; generated by rdns'' = None" "include_rest (''$ORIGIN '' @ display_name (z_origin z)) = None"
    using not_include [of "CHR '';''"] by (simp_all add: include_rest_def trim_start_visible or_else_def)
  moreover have "include_rest (rr_line r) = None" if "r \<in> set (written_records z)" for r
    using rr_line_plain [OF written(1) [OF that]] written(2) [OF that] assms(3) by (auto simp: plain_owners_def list_all_iff)
  ultimately have plain: "list_all (\<lambda>l. include_rest l = None) ?ls" by (simp add: list_all_iff)
  have "LF \<notin> set (display_name (z_origin z)) \<and> last (display_name (z_origin z)) \<noteq> CR \<and> display_name (z_origin z) \<noteq> []"
    using display_name_text [of "z_origin z"] assms(2) word_char_no_line by (auto simp: printable_zone_def)
  then have "list_all (\<lambda>l. LF \<notin> set l \<and> (l = [] \<or> last l \<noteq> CR)) ?ls"
    using rr_line_printable written(1) by (auto simp: list_all_iff)
  then have "text_lines (to_zonefile z) = ?ls" unfolding to_zonefile_lines [OF assms(1,2)] by (rule text_lines_unlines)
  then show ?thesis using expand_plain [OF plain] to_zonefile_lines [OF assms(1,2)] by (simp add: expand_includes_def)
qed

lemma load_written:
  assumes "wf_zone z" "printable_zone z" "plain_owners z" "fs_read fs path = Some (to_zonefile z)"
  shows "\<exists>z'. load_zone fs path = Some (Inr z') \<and> wf_zone z' \<and> same_rrsets z z'"
  using zonefile_back [OF assms(1,2)] assms(4) by (auto simp: load_zone_def zonefile_expands [OF assms(1-3)])

lemma load_written_paths:
  assumes "list_all (\<lambda>z. wf_zone z \<and> printable_zone z \<and> plain_owners z \<and> fs_read fs (p z) = Some (to_zonefile z)) zs"
    and "distinct (map z_origin (ys @ zs))"
  shows "\<exists>zs'. load_paths fs (map p zs) ys = Some (Inr (ys @ zs')) \<and>
    list_all2 (\<lambda>z z'. wf_zone z' \<and> same_rrsets z z') zs zs'"
  using assms
proof (induction zs arbitrary: ys)
  case (Cons z zs)
  obtain z' where z': "load_zone fs (p z) = Some (Inr z')" "wf_zone z'" "same_rrsets z z'"
    using load_written [of z fs "p z"] Cons.prems(1) by auto
  have o: "z_origin z' = z_origin z" using z'(3) by (simp add: same_rrsets_def)
  obtain zs' where zs': "load_paths fs (map p zs) (ys @ [z']) = Some (Inr ((ys @ [z']) @ zs'))"
    "list_all2 (\<lambda>z z'. wf_zone z' \<and> same_rrsets z z') zs zs'"
    using Cons.IH [of "ys @ [z']"] Cons.prems o by auto
  have "\<not> list_ex (\<lambda>y. z_origin y = z_origin z') ys"
    using Cons.prems(2) o unfolding list_ex_iff by (simp, metis imageI)
  then show ?case using z' zs' by (intro exI [of _ "z' # zs'"]) simp
qed simp

lemma load_paths_all:
  "load_paths fs paths zs = Some (Inr zs') \<Longrightarrow> set zs \<subseteq> set zs' \<and> (\<forall>p \<in> set paths. \<exists>z \<in> set zs'. load_zone fs p = Some (Inr z))"
proof (induction paths arbitrary: zs)
  case (Cons path paths)
  obtain z where z: "load_zone fs path = Some (Inr z)" "load_paths fs paths (zs @ [z]) = Some (Inr zs')"
    using Cons.prems(1) by (auto split: option.splits sum.splits if_splits)
  then show ?case using Cons.IH [OF z(2)] by auto
qed simp

lemma find_distinct_origin:
  "zones_ok zs \<Longrightarrow> z \<in> set zs \<Longrightarrow> find (\<lambda>y. z_origin y = z_origin z) zs = Some z"
  unfolding zones_ok_def by (intro find_distinct) simp

lemma reload_zones:
  assumes "reload ho fs cfg signing rv = Some rv'"
  shows "rv_zones rv' = (case load_zones fs (cf_zones cfg) (cf_zone_dir cfg) of Some (Inr zs) \<Rightarrow> zs | _ \<Rightarrow> rv_zones rv)"
proof -
  obtain zones where z: "load_zones fs (cf_zones cfg) (cf_zone_dir cfg) = Some zones" using assms by (auto simp: reload_def split: Option.bind_splits)
  define rv2 where "rv2 = (let rv1 = (case zones of Inr zs \<Rightarrow> tick Zone_reloads (set_zones zs rv) | Inl e \<Rightarrow> rv) in
    case load_rpz fs cfg of Inr rules \<Rightarrow> set_rpz rules rv1 | Inl e \<Rightarrow> rv1)"
  have "rv_zones rv2 = (case zones of Inr zs \<Rightarrow> zs | Inl e \<Rightarrow> rv_zones rv)"
    by (simp add: rv2_def Let_def set_rpz_def set_zones_def tick_def split: sum.splits)
  moreover have "rv_zones rv' = rv_zones rv2"
    using assms z by (auto simp: reload_def Let_def rv2_def split: option.splits dest: resign_keeps)
  ultimately show ?thesis using z by (simp split: sum.splits)
qed

section \<open>The running server\<close>

text \<open>
  The states of a started server between its requests to the management API,
  the reloads, each with the files of its time, and the timer that renews the
  signatures.
\<close>

inductive running :: "api_env \<Rightarrow> config \<Rightarrow> started \<Rightarrow> server_ctx \<Rightarrow> bool" for ae cfg st where
  started: "running ae cfg st (st_server st)"
| request: "running ae cfg st sv \<Longrightarrow> st_api st = Some ap \<Longrightarrow> serve_conn ho ae ap stream sv = Some (out, sv', effs) \<Longrightarrow>
    running ae cfg st sv'"
| hangup: "running ae cfg st sv \<Longrightarrow> reload ho fs cfg (st_signing st) (sc_resolver sv) = Some rv \<Longrightarrow>
    running ae cfg st (sv\<lparr>sc_resolver := rv\<rparr>)"
| timer: "running ae cfg st sv \<Longrightarrow> resign_tick ho (st_signing st) (sc_resolver sv) = Some rv \<Longrightarrow>
    running ae cfg st (sv\<lparr>sc_resolver := rv\<rparr>)"

lemma running_ok:
  assumes "running ae cfg st sv" "zones_ok (rv_zones (sc_resolver (st_server st)))"
  shows "zones_ok (rv_zones (sc_resolver sv))"
  using assms
proof (induction rule: running.induct)
  case (request sv ap ho stream out sv' effs)
  then show ?case using serve_conn_ok by blast
next
  case (hangup sv ho fs rv)
  then show ?case using reload_zones [OF hangup.hyps(2)] by (auto split: option.splits sum.splits dest: load_zones_ok)
next
  case (timer sv ho rv)
  then have "rv_zones rv = rv_zones (sc_resolver sv)"
    by (auto simp: resign_tick_def tick_def split: option.splits dest: resign_keeps)
  then show ?case using timer by simp
qed

section \<open>The key file\<close>

lemma material_text:
  assumes "generate_key kl sname alg ksk = Inr (key, material)" shows "word_text material"
proof -
  obtain secret where m: "material = show_word alg @ '':'' @ b64 secret"
    using assms by (auto simp: generate_key_def result_iffs split: prod.splits)
  have "list_all visible b64_alphabet" "visible CHR ''=''" by (simp_all add: b64_alphabet_def visible_def)
  then have "list_all visible (b64 secret)" using b64_in_alphabet by (fastforce simp: list_all_iff)
  then show ?thesis using digits_visible by (simp add: m visible_def)
qed

lemma read_key_back:
  assumes "reloads kl" "generate_key kl sname alg True = Inr (key, material)"
  shows "read_keys kl sname (filter (\<lambda>l. l \<noteq> []) (map trim (text_lines (''ksk '' @ material @ [LF])))) = Inr [key]"
proof -
  note m = material_text [OF assms(2)]
  have ks: "list_all word_text [''ksk'', material]" using m by (simp add: visible_def)
  have "LF \<notin> set material" "CR \<notin> set material" using m by (auto simp: list_all_iff visible_def)
  then have "LF \<notin> set (''ksk '' @ material) \<and> last (''ksk '' @ material) \<noteq> CR"
    using m last_in_set [of material] by (auto, metis)
  then have "text_lines (unlines [''ksk '' @ material]) = [''ksk '' @ material]" by (intro text_lines_unlines) simp
  then have lines: "text_lines (''ksk '' @ material @ [LF]) = [''ksk '' @ material]" by (simp add: unlines_def)
  have t: "trim (''ksk '' @ material) = ''ksk '' @ material" "trim material = material"
    using trim_join [OF ks] trim_join [of "[material]"] m by simp_all
  have "CHR '' '' \<notin> set ''ksk''" by simp
  then have "split_once CHR '' '' (''ksk'' @ CHR '' '' # material) = Some (''ksk'', material)" by (rule split_once_append)
  then have "key_line (''ksk '' @ material) = (True, material)" using t(2) by (simp add: key_line_def)
  then show ?thesis using lines t(1) material_back [OF assms] by simp
qed

lemma key_file_back:
  assumes "load_dnssec_keys kl fs cfg = Inr (Some (keys, origins), [Write_file path body])" "reloads kl"
    and "fs_exists fs' path" "fs_read fs' path = Some body"
  shows "load_dnssec_keys kl fs' cfg = Inr (Some (keys, origins), [])"
proof -
  obtain alg where o: "ds_zones cfg \<noteq> []" "parse_origins (ds_zones cfg) = Inr origins"
    "signing_algorithm (ds_algorithm cfg) = Inr alg"
    and f: "(case filter_exists fs (ds_key_file cfg) of
        Some path \<Rightarrow> and_then (file_keys kl fs path (hd origins)) (\<lambda>keys. Inr (keys, []))
      | None \<Rightarrow> fresh_key kl fs (ds_key_file cfg) (hd origins) alg) = Inr (keys, [Write_file path body])"
    using assms(1) by (auto simp: load_dnssec_keys_def and_then_eq_Inr_iff split: if_splits)
  then have "fresh_key kl fs (ds_key_file cfg) (hd origins) alg = Inr (keys, [Write_file path body])"
    by (simp add: and_then_eq_Inr_iff split: option.splits)
  then have "\<exists>key material. generate_key kl (hd origins) alg True = Inr (key, material) \<and> ds_key_file cfg = Some path \<and>
      keys = [key] \<and> body = ''ksk '' @ material @ [LF]"
    by (cases "generate_key kl (hd origins) alg True"; cases "ds_key_file cfg")
       (simp_all add: fresh_key_def split: prod.splits if_splits)
  then obtain key material where g: "generate_key kl (hd origins) alg True = Inr (key, material)"
    "ds_key_file cfg = Some path" "keys = [key]" "body = ''ksk '' @ material @ [LF]" by blast
  then show ?thesis
    using o assms(3,4) read_key_back [OF assms(2) g(1)]
    by (simp add: load_dnssec_keys_def filter_exists_def file_keys_def)
qed

section \<open>Properties\<close>

text \<open>
  The zones of a running server are always well formed.  From a successful
  start, through any sequence of connections to the management API, reloads
  with whatever files there are by then, and renewals of the signatures, every
  zone has one SOA at a well-formed origin with its owners at or under it, and
  no two zones share an origin.
\<close>
theorem running_zones_ok:
  assumes "startup ho kl fs ck cfg = Some (Inr st)" "running ae cfg st sv"
  shows "zones_ok (rv_zones (sc_resolver sv))"
  using running_ok [OF assms(2)] load_zones_ok [OF startup_zones [OF assms(1)]] by simp

text \<open>
  C13: A change through the management API survives a reload.  When a PATCH
  succeeded, its zone is printable and not the root, no owner begins with a
  dollar sign, the file it wrote is on disk and listed in the zone directory,
  and the directory loads, then the server has after SIGHUP a zone of that name
  that answers every query of a type other than ANY as the changed zone did.
\<close>
theorem patch_survives_reload:
  assumes "patch_zone ho ae ap name body sv = Some (r, sv', effs)" "rp_status r = ''200 OK''"
    and "zones_ok (rv_zones (sc_resolver sv))" "parse_str name = Inr origin" "origin \<noteq> []"
    and "find (\<lambda>z. z_origin z = origin) (rv_zones (sc_resolver sv')) = Some new" "printable_zone new" "plain_owners new"
    and "ap_zone_dir ap = Some dir" "cf_zone_dir cfg = Some dir"
    and "\<And>path content. Write_file path content \<in> set effs \<Longrightarrow> fs_read fs path = Some content"
    and "fs_dir fs dir = Some names" "trim_end_dots (display_name origin) @ ''.zone'' \<in> set names"
    and "load_zones fs (cf_zones cfg) (Some dir) = Some (Inr zs)" "reload ho' fs cfg signing rv = Some rv'"
  shows "\<exists>z'. find (\<lambda>z. z_origin z = origin) (rv_zones rv') = Some z' \<and>
    (\<forall>qname qtype. qtype \<noteq> TYPE_ANY \<longrightarrow> lookup z' qname qtype = lookup new qname qtype)"
proof -
  have ok: "zones_ok (rv_zones (sc_resolver sv'))" by (rule patch_zone_ok [OF assms(1,3)])
  then have new: "wf_zone new" "z_origin new = origin" using assms(6) by (auto simp: zones_ok_def list_all_iff find_Some_iff)
  have printable: "text_name origin" using assms(7) new(2) by (simp add: printable_zone_def)
  let ?path = "path_join dir (trim_end_dots (display_name origin) @ ''.zone'')"
  have "Write_file ?path (to_zonefile new) \<in> set effs"
    using patch_zone_effect [OF assms(1,3)] assms(2,4,6,9) by (auto simp: api_zone_path_def)
  then have "fs_read fs ?path = Some (to_zonefile new)" by (rule assms(11))
  then obtain z' where z': "load_zone fs ?path = Some (Inr z')" "wf_zone z'" "same_rrsets new z'"
    using load_written [OF new(1) assms(7,8)] by blast
  have "extension (trim_end_dots (display_name origin) @ ''.zone'') = Some ''zone''"
    using split_extension_join [OF zone_stem(1) [OF printable assms(5)], of "''zone''"] by (simp add: extension_def)
  then have "?path \<in> set (map (path_join dir) (filter (\<lambda>f. extension f = Some ''zone'') names))" using assms(13) by auto
  moreover have "load_paths fs (cf_zones cfg @ map (path_join dir) (filter (\<lambda>f. extension f = Some ''zone'') names)) [] = Some (Inr zs)"
    using assms(12,14) by (simp add: load_zones_def zone_paths_def)
  ultimately obtain y where "y \<in> set zs" "load_zone fs ?path = Some (Inr y)" using load_paths_all by (metis Un_iff set_append)
  then have "z' \<in> set zs" using z'(1) by simp
  moreover have "rv_zones rv' = zs" using reload_zones [OF assms(15)] assms(10,14) by simp
  ultimately have "find (\<lambda>z. z_origin z = origin) (rv_zones rv') = Some z'"
    using find_distinct_origin [OF load_zones_ok [OF assms(14)], of z'] z'(3) new(2) by (simp add: same_rrsets_def)
  then show ?thesis using lookup_loop_equiv [OF new(1) z'(2,3)] by (auto simp: lookup_def)
qed

text \<open>
  A signing key survives a restart.  When the first start generated a key
  and wrote the key file, the next start with that file signs with the same key
  for the same zones, and writes nothing.
\<close>
theorem key_file_restart:
  assumes "load_dnssec_keys kl fs cfg = Inr (Some (keys, origins), [Write_file path body])" "reloads kl"
    and "fs_exists fs' path" "fs_read fs' path = Some body"
  shows "load_dnssec_keys kl fs' cfg = Inr (Some (keys, origins), [])"
  by (rule key_file_back [OF assms])

text \<open>
  A reload forgets the zones that are not in files.  Whatever the resolver
  held, after a reload that could read the files its zones are exactly those of
  the files: zones mirrored from a primary are gone until their next refresh.
\<close>
theorem reload_forgets:
  assumes "load_zones fs (cf_zones cfg) (cf_zone_dir cfg) = Some (Inr zs)" "reload ho fs cfg signing rv = Some rv'"
  shows "rv_zones rv' = zs"
  using reload_zones [OF assms(2)] assms(1) by simp

text \<open>
  The origin given to an \<open>$INCLUDE\<close> line is not limited to the included
  file: the expansion sets it in front of the file and does not set the old
  origin again behind it, so the names that follow are relative to it.
\<close>
theorem include_keeps_origin:
  assumes "fs_read fs ''f'' = Some ''x A 10.0.0.1''"
  shows "expand_includes fs (unlines [''$ORIGIN e.'', ''$INCLUDE f s.e.'', ''w A 10.0.0.2'']) [] 0 =
    Inr (unlines [''$ORIGIN e.'', ''$ORIGIN s.e.'', ''x A 10.0.0.1'', [], ''w A 10.0.0.2''])"
proof -
  have l: "text_lines (unlines [''$ORIGIN e.'', ''$INCLUDE f s.e.'', ''w A 10.0.0.2'']) =
      [''$ORIGIN e.'', ''$INCLUDE f s.e.'', ''w A 10.0.0.2'']" "text_lines ''x A 10.0.0.1'' = [''x A 10.0.0.1'']"
    by code_simp+
  have i: "include_rest ''$ORIGIN e.'' = None" "include_rest ''$INCLUDE f s.e.'' = Some '' f s.e.''"
    "include_rest ''w A 10.0.0.2'' = None" "include_rest ''x A 10.0.0.1'' = None"
    by code_simp+
  have w: "split_whitespace '' f s.e.'' = [''f'', ''s.e.'']" "trim_matches DQUOTE ''f'' = ''f''" "path_join [] ''f'' = ''f''"
    by code_simp+
  have "expand_lines fs 0 [] [''$ORIGIN e.'', ''$INCLUDE f s.e.'', ''w A 10.0.0.2''] =
      Inr (unlines [''$ORIGIN e.'', ''$ORIGIN s.e.'', ''x A 10.0.0.1'', [], ''w A 10.0.0.2''])"
    using assms by (simp add: l(2) i w unlines_def)
  then show ?thesis by (simp add: expand_includes_def l(1) del: expand_lines.simps)
qed

section \<open>Examples\<close>

definition sample_files :: file_system where
  "sample_files =
     \<lparr>fs_read = (\<lambda>p. if p = ''/z/e.zone'' then Some (to_zonefile sample_zone) else None), fs_dir = (\<lambda>d. Some [''e.zone'']),
      fs_exists = (\<lambda>_. False), fs_make_dir = (\<lambda>_. True), fs_writable = (\<lambda>_. True)\<rparr>"

definition sample_config :: config where
  "sample_config = config_default\<lparr>cf_zone_dir := Some ''/z''\<rparr>"

lemma sample_plain_owners: "plain_owners sample_zone"
  by code_simp

lemma sample_loads:
  "\<exists>z. load_zones sample_files [] (Some ''/z'') = Some (Inr [z]) \<and> wf_zone z \<and> same_rrsets sample_zone z"
proof -
  have p: "extension ''e.zone'' = Some ''zone''" "path_join ''/z'' ''e.zone'' = ''/z/e.zone''" by code_simp+
  obtain z where "load_zone sample_files ''/z/e.zone'' = Some (Inr z)" "wf_zone z" "same_rrsets sample_zone z"
    using load_written [OF sample_zone_wf sample_zone_printable sample_plain_owners, of sample_files "''/z/e.zone''"]
    by (auto simp: sample_files_def)
  then show ?thesis using p by (simp add: load_zones_def zone_paths_def) (simp add: sample_files_def)
qed

lemma sample_networks:
  "acl_parse [''127.0.0.0/8'', ''::1/128''] = Inr [\<lparr>ci_net = V4 0x7F000000, ci_prefix = 8\<rparr>, \<lparr>ci_net = V6 1, ci_prefix = 128\<rparr>]"
  by code_simp

lemma sample_startup: "\<exists>st. startup ho kl sample_files ck sample_config = Some (Inr st)"
proof -
  obtain z where "load_zones sample_files [] (Some ''/z'') = Some (Inr [z])" using sample_loads by blast
  then show ?thesis
    using sample_networks
    by (simp add: startup_def load_options_def start_then_def sample_config_def config_default_def recursion_default_def
        load_rpz_def load_anchors_def build_keyring_def start_journal_def start_signing_def load_dnssec_keys_def dnssec_default_def
        nsec3_settings_def required_key_def update_settings_def Let_def)
qed

definition sample_keys :: key_lib where
  "sample_keys =
     \<lparr>kl_ed25519 = (\<lambda>_. None), kl_p256 = (\<lambda>s. Some (\<lambda>d. d, 4, s)), kl_rsa_numbers = (\<lambda>_. None), kl_rsa = (\<lambda>_. None),
      kl_new_seed = None, kl_new_p256 = Some [1, 2], kl_new_rsa = None\<rparr>"

theorem running_zones_ok_witness:
  "\<exists>st. startup sample_host sample_keys sample_files \<lparr>ck_k0 = 3, ck_k1 = 4\<rparr> sample_config = Some (Inr st) \<and>
    zones_ok (rv_zones (sc_resolver (st_server st)))"
  using sample_startup running_zones_ok [OF _ running.started] by blast

lemma sample_bumped: "printable_zone (bump_serial sample_zone)" "plain_owners (bump_serial sample_zone)"
proof -
  show "printable_zone (bump_serial sample_zone)"
    by (simp add: printable_zone_def sample_zone_def sample_defs bump_serial_def Let_def text_rr_def text_name_def same_ttls_def
        text_byte_def plain_byte_def wf_name_def wf_label_def lower_label_def to_lower_def)
  show "plain_owners (bump_serial sample_zone)" by code_simp
qed

theorem patch_survives_reload_witness:
  "\<exists>r sv' effs zs rv' z'.
    patch_zone sample_host (sample_api_env\<lparr>ae_patch := (\<lambda>_. Inr [])\<rparr>) sample_api ''e'' [] sample_server = Some (r, sv', effs) \<and>
    reload sample_host
      (sample_files\<lparr>fs_read := (\<lambda>p. if p = ''/z/e.zone'' then Some (to_zonefile (bump_serial sample_zone)) else None)\<rparr>)
      sample_config None (sc_resolver sv') = Some rv' \<and>
    find (\<lambda>z. z_origin z = [[101]]) (rv_zones rv') = Some z' \<and>
    lookup z' [[119], [101]] TYPE_A = lookup (bump_serial sample_zone) [[119], [101]] TYPE_A"
proof -
  let ?fs = "sample_files\<lparr>fs_read := (\<lambda>p. if p = ''/z/e.zone'' then Some (to_zonefile (bump_serial sample_zone)) else None)\<rparr>"
  let ?env = "sample_api_env\<lparr>ae_patch := (\<lambda>_. Inr [])\<rparr>"
  have parts: "parse_str ''e'' = Inr [[101]]" "z_origin sample_zone = [[101]]"
    "path_join ''/z'' (trim_end_dots (display_name [[101]]) @ ''.zone'') = ''/z/e.zone''"
    "trim_end_dots (display_name [[101]]) @ ''.zone'' = ''e.zone''"
    by code_simp+
  obtain r sv' effs where s: "patch_zone sample_host ?env sample_api ''e'' [] sample_server = Some (r, sv', effs)"
    "rp_status r = ''200 OK''" "rv_zones (sc_resolver sv') = [bump_serial sample_zone]"
    "effs = [Write_file ''/z/e.zone'' (to_zonefile (bump_serial sample_zone))]"
    using parts by (simp add: patch_zone_def sample_api_env_def sample_server_def sample_resolver_def commit_zones_def after_change_def
        sample_api_def reply_ok_def Let_def set_zones_def persist_def api_zone_path_def notify_secondaries_def journal_effects_def
        journal_append_def)
  have "wf_zone (bump_serial sample_zone)" using bump_serial_wf [OF sample_zone_wf] by simp
  from load_written [OF this sample_bumped, of ?fs "''/z/e.zone''"]
  obtain z where z: "load_zone ?fs ''/z/e.zone'' = Some (Inr z)" by auto
  have "extension ''e.zone'' = Some ''zone''" by code_simp
  then have l: "load_zones ?fs (cf_zones sample_config) (Some ''/z'') = Some (Inr [z])"
    using z parts by (simp add: load_zones_def zone_paths_def sample_config_def config_default_def) (simp add: sample_files_def)
  then obtain rv' where rv: "reload sample_host ?fs sample_config None (sc_resolver sv') = Some rv'"
    by (simp add: reload_def Let_def sample_config_def config_default_def)
  have "\<exists>z'. find (\<lambda>z. z_origin z = [[101]]) (rv_zones rv') = Some z' \<and>
      (\<forall>qname qtype. qtype \<noteq> TYPE_ANY \<longrightarrow> lookup z' qname qtype = lookup (bump_serial sample_zone) qname qtype)"
    by (rule patch_survives_reload [OF s(1,2) sample_zones_ok parts(1) _ _ sample_bumped, where names = "[''e.zone'']" and dir = "''/z''"
          and fs = ?fs and cfg = sample_config and zs = "[z]", OF _ _ _ _ _ _ _ l rv])
       (use parts s(3,4) in \<open>simp_all add: sample_api_def sample_config_def sample_files_def\<close>)
  then show ?thesis using s(1) rv by auto
qed

definition sample_dnssec :: dnssec_cfg where
  "sample_dnssec =
     \<lparr>ds_key_file = Some ''/k'', ds_zones = [''e''], ds_validity_days = 14, ds_algorithm = ''ecdsap256'', ds_nsec3 = False,
      ds_nsec3_iterations = 0, ds_nsec3_salt = []\<rparr>"

theorem key_file_restart_witness:
  "\<exists>keys body. load_dnssec_keys sample_keys sample_files sample_dnssec =
      Inr (Some (keys, [[[101]]]), [Write_file ''/k'' body]) \<and>
    load_dnssec_keys sample_keys (sample_files\<lparr>fs_exists := (\<lambda>_. True), fs_read := (\<lambda>_. Some body)\<rparr>) sample_dnssec =
      Inr (Some (keys, [[[101]]]), [])"
proof -
  have p: "parse_str ''e'' = Inr [[101]]" "signing_algorithm ''ecdsap256'' = Inr ALG_ECDSAP256" by code_simp+
  have "reloads sample_keys" by (simp add: reloads_def sample_keys_def)
  moreover obtain keys body where f: "load_dnssec_keys sample_keys sample_files sample_dnssec =
      Inr (Some (keys, [[[101]]]), [Write_file ''/k'' body])"
    using p by (simp add: load_dnssec_keys_def sample_dnssec_def filter_exists_def sample_files_def fresh_key_def generate_key_def
        sample_keys_def)
  ultimately show ?thesis
    using key_file_restart [OF f, of "sample_files\<lparr>fs_exists := (\<lambda>_. True), fs_read := (\<lambda>_. Some body)\<rparr>"] by auto
qed

theorem reload_forgets_witness:
  "\<exists>z rv'. reload sample_host sample_files sample_config None sample_resolver = Some rv' \<and> rv_zones rv' = [z]"
proof -
  obtain z where "load_zones sample_files [] (Some ''/z'') = Some (Inr [z])" using sample_loads by blast
  then have l: "load_zones sample_files (cf_zones sample_config) (cf_zone_dir sample_config) = Some (Inr [z])"
    by (simp add: sample_config_def config_default_def)
  then obtain rv' where "reload sample_host sample_files sample_config None sample_resolver = Some rv'" by (simp add: reload_def Let_def)
  then show ?thesis using reload_forgets [OF l] by blast
qed

theorem include_keeps_origin_witness:
  "expand_includes (sample_files\<lparr>fs_read := (\<lambda>_. Some ''x A 10.0.0.1'')\<rparr>) (unlines [''$ORIGIN e.'', ''$INCLUDE f s.e.'', ''w A 10.0.0.2'']) [] 0 =
    Inr (unlines [''$ORIGIN e.'', ''$ORIGIN s.e.'', ''x A 10.0.0.1'', [], ''w A 10.0.0.2''])"
  by (rule include_keeps_origin) simp

end
