(* ===== verification/Zone_Sane.thy ===== *)
theory Zone_Sane
  imports Api
begin

text \<open>
  What stays true of a zone under every operation of the server, dynamic
  updates included: an update may add and delete SOA records, so the apex need
  not agree with the cached SOA, but every node is at or under the origin, is
  not empty and holds records of its own name, the count is right, and the
  cached SOA belongs to the origin.
\<close>

section \<open>One zone\<close>

definition zone_sane :: "zone \<Rightarrow> bool" where
  "zone_sane z \<longleftrightarrow> wf_name (z_origin z) \<and> nodes_ok (z_origin z) (z_records z) \<and>
     z_record_count z = size (records_mset (z_records z)) \<and> rr_name (z_soa z) = z_origin z"

lemma wf_zone_sane: "wf_zone z \<Longrightarrow> wf_name (z_origin z) \<Longrightarrow> zone_sane z"
  using wf_zone_soa(2) by (simp add: zone_sane_def wf_zone_def)

lemma zone_sane_recount:
  "wf_name (z_origin z) \<Longrightarrow> nodes_ok (z_origin z) (z_records z) \<Longrightarrow> rr_name (z_soa z) = z_origin z \<Longrightarrow> zone_sane (recount z)"
  by (simp add: zone_sane_def)

lemma apply_updates_count:
  "apply_updates z us = (z', RCODE_NOERROR) \<Longrightarrow> z_record_count z' = size (records_mset (z_records z'))"
  by (induction us arbitrary: z) (auto split: option.splits)

lemma apply_update_sane:
  assumes "zone_sane z" "apply_update prereqs updates z = (z', RCODE_NOERROR)"
  shows "zone_sane z'"
proof -
  note inv = assms(1) [unfolded zone_sane_def]
  have soa: "z_soa z' = z_soa z" by (rule apply_update_soa [OF assms(2)])
  show ?thesis
  proof (cases "check_prereqs z prereqs = None \<and> list_all (\<lambda>u. ends_with (rr_name u) (z_origin z)) updates")
    case True
    then have u: "apply_updates z updates = (z', RCODE_NOERROR)"
      using assms(2) by (simp add: apply_update_def list_ex_iff list_all_iff)
    have "nodes_ok (z_origin z) (z_records z') \<and> z_origin z' = z_origin z"
      using apply_updates_nodes [OF _ _ u] True inv by blast
    then show ?thesis using inv soa apply_updates_count [OF u] by (simp add: zone_sane_def)
  next
    case False
    then have "z' = z" using assms(2)
      by (cases "check_prereqs z prereqs") (simp_all add: apply_update_def list_ex_iff list_all_iff)
    then show ?thesis using assms(1) by simp
  qed
qed

lemma records_mset_size_update:
  assumes "distinct (map fst recs)" "map_of recs k = Some node" "length v = length node"
  shows "size (records_mset (AList.update k v recs)) = size (records_mset recs)"
  using arg_cong [OF records_mset_update [OF assms(1), of k v], of size] assms(2,3) by (simp add: node_or_default_def)

lemma bump_serial_sane:
  assumes "zone_sane z" shows "zone_sane (bump_serial z)"
proof (cases "rr_rdata (z_soa z)")
  case (RD_Soa s)
  define fresh where "fresh = (z_soa z)\<lparr>rr_rdata := RD_Soa (s\<lparr>soa_serial := soa_serial s + 1\<rparr>)\<rparr>"
  have inv: "wf_name (z_origin z)" "nodes_ok (z_origin z) (z_records z)"
    "z_record_count z = size (records_mset (z_records z))" "rr_name fresh = z_origin z"
    using assms by (simp_all add: zone_sane_def fresh_def)
  show ?thesis
  proof (cases "map_of (z_records z) (z_origin z)")
    case None
    then show ?thesis using inv RD_Soa by (simp add: bump_serial_def zone_sane_def fresh_def)
  next
    case (Some node)
    let ?node = "map (\<lambda>r. if rr_rtype r = TYPE_SOA then fresh else r) node"
    have "node_ok (z_origin z) (z_origin z) ?node"
      using nodes_okD [OF inv(2) Some] inv(4) by (auto simp: node_ok_def list_all_iff)
    moreover have "size (records_mset (AList.update (z_origin z) ?node (z_records z))) = size (records_mset (z_records z))"
      using inv(2) Some by (intro records_mset_size_update) (auto simp: nodes_ok_def)
    moreover have "bump_serial z = z\<lparr>z_soa := fresh, z_records := AList.update (z_origin z) ?node (z_records z)\<rparr>"
      unfolding fresh_def using RD_Soa Some by (simp add: bump_serial_def Let_def)
    ultimately show ?thesis using inv nodes_ok_update [OF inv(2)] by (simp add: zone_sane_def)
  qed
qed (use assms in \<open>simp_all add: bump_serial_def\<close>)

lemma replace_rrset_sane:
  assumes "zone_sane z" "replace_rrset name rtype ttl contents z = (z', Inr ())"
  shows "zone_sane z'" "z_origin z' = z_origin z"
proof -
  have inv: "wf_name (z_origin z)" "nodes_ok (z_origin z) (z_records z)" "rr_name (z_soa z) = z_origin z"
    using assms(1) by (simp_all add: zone_sane_def)
  obtain code new where n: "ends_with name (z_origin z)" "rrset_ok name code new"
    "replace_records name code new z = (z', Inr ())"
    by (rule replace_rrset_records [OF inv(1) assms(2)])
  note s = replace_records_success [OF n(3)]
  show "z_origin z' = z_origin z" by (rule s(1))
  have "node_ok (z_origin z) name (filter (\<lambda>r. rr_rtype r \<noteq> code) (node_or_default (z_records z) name) @ new)"
    using n(1,2) node_or_default_owner [OF inv(2), of name] by (auto simp: node_ok_def rrset_ok_def list_all_iff)
  then have "nodes_ok (z_origin z) (z_records z')" using inv(2) by (simp add: s(2) nodes_ok_update)
  moreover have "rr_name (z_soa z') = z_origin z"
    using s(3,5) n(2) inv(3) by (cases new) (auto simp: rrset_ok_def)
  ultimately show "zone_sane z'" using inv(1) s(1,4) by (simp add: zone_sane_def)
qed

lemma delete_rrset_sane:
  assumes "zone_sane z" "delete_rrset name rtype z = Inr z'"
  shows "zone_sane z'" "z_origin z' = z_origin z"
proof -
  have inv: "wf_name (z_origin z)" "nodes_ok (z_origin z) (z_records z)" "rr_name (z_soa z) = z_origin z"
    using assms(1) by (simp_all add: zone_sane_def)
  obtain code where d: "delete_type name code z = Inr z'"
    using assms(2) by (auto simp: delete_rrset_def map_err_eq_Inr_iff split: option.splits)
  have nodes: "nodes_ok (z_origin z) (z_records z')"
  proof (cases "map_of (z_records z) name")
    case (Some node)
    then have "filter (\<lambda>r. rr_rtype r \<noteq> code) node \<noteq> [] \<Longrightarrow>
        node_ok (z_origin z) name (filter (\<lambda>r. rr_rtype r \<noteq> code) node)"
      using nodes_okD [OF inv(2) Some] by (auto simp: node_ok_def list_all_iff)
    then show ?thesis
      using d Some inv(2) by (auto simp: delete_type_def Let_def nodes_ok_update nodes_ok_delete split: if_splits)
  qed (use d inv(2) in \<open>auto simp: delete_type_def split: if_splits\<close>)
  have frame: "z_origin z' = z_origin z" "z_soa z' = z_soa z" "z_record_count z' = size (records_mset (z_records z'))"
    using d by (auto simp: delete_type_def Let_def split: if_splits option.splits)
  then show "zone_sane z'" "z_origin z' = z_origin z" using inv nodes by (simp_all add: zone_sane_def)
qed

lemma apply_rrset_sane:
  assumes "apply_rrset r z = Some (Inr z')" "zone_sane z"
  shows "zone_sane z' \<and> z_origin z' = z_origin z"
proof -
  obtain owner where
    "(\<exists>ttl. replace_rrset owner (ri_type r) ttl (ri_records r) z = (z', Inr ())) \<or> delete_rrset owner (ri_type r) z = Inr z'"
    using assms(1)
    by (auto simp: apply_rrset_def Let_def map_err_eq_Inr_iff split: sum.splits if_splits prod.splits)
  then show ?thesis using replace_rrset_sane [OF assms(2)] delete_rrset_sane [OF assms(2)] by blast
qed

lemma apply_rrsets_sane:
  "apply_rrsets rs z = Some (Inr z') \<Longrightarrow> zone_sane z \<Longrightarrow> zone_sane z' \<and> z_origin z' = z_origin z"
proof (induction rs arbitrary: z)
  case (Cons r rs)
  then obtain z1 where z1: "apply_rrset r z = Some (Inr z1)" "apply_rrsets rs z1 = Some (Inr z')"
    by (auto split: option.splits sum.splits)
  then show ?case using apply_rrset_sane [OF z1(1)] Cons by metis
qed simp

section \<open>The zone set\<close>

definition zones_sane :: "zone list \<Rightarrow> bool" where
  "zones_sane zs \<longleftrightarrow> list_all zone_sane zs \<and> distinct (map z_origin zs)"

lemma zones_ok_sane: "zones_ok zs \<Longrightarrow> zones_sane zs"
  by (auto simp: zones_ok_def zones_sane_def list_all_iff intro: wf_zone_sane)

lemma zones_sane_find: "zones_sane zs \<Longrightarrow> find P zs = Some z \<Longrightarrow> zone_sane z"
  by (auto simp: zones_sane_def list_all_iff find_Some_iff)

lemma zones_sane_snoc:
  "zones_sane zs \<Longrightarrow> zone_sane z \<Longrightarrow> \<not> list_ex (\<lambda>y. z_origin y = z_origin z) zs \<Longrightarrow> zones_sane (zs @ [z])"
  by (auto simp: zones_sane_def list_ex_iff)

lemma zones_sane_replace:
  assumes "zones_sane zs" "i < length zs" "zone_sane z" "z_origin z = z_origin (zs ! i)"
  shows "zones_sane (zs[i := z])"
proof -
  have "set (zs[i := z]) \<subseteq> insert z (set zs)" by (rule set_update_subset_insert)
  then have "list_all zone_sane (zs[i := z])" using assms(1,3) by (auto simp: zones_sane_def list_all_iff)
  then show ?thesis using assms distinct_list_update_same [of z_origin zs i z] by (simp add: zones_sane_def)
qed

lemma zones_sane_remove: "zones_sane zs \<Longrightarrow> zones_sane (take i zs @ drop (i + 1) zs)"
  using set_take_subset [of i zs] set_drop_subset [of "i + 1" zs]
    set_take_disj_set_drop_if_distinct [of "map z_origin zs" i "i + 1"]
    distinct_take [of "map z_origin zs" i] distinct_drop [of "map z_origin zs" "i + 1"]
  by (auto simp: zones_sane_def list_all_iff take_map drop_map)

text \<open>The list that \<open>upsert_zone\<close> writes.\<close>

definition upsert_list :: "zone \<Rightarrow> zone list \<Rightarrow> zone list" where
  "upsert_list z zs =
     (case position (\<lambda>y. z_origin y = z_origin z) zs of Some i \<Rightarrow> zs[i := z] | None \<Rightarrow> zs @ [z])"

lemma upsert_zone_list: "upsert_zone z rv = set_zones (upsert_list z (rv_zones rv)) rv"
  by (simp add: upsert_zone_def upsert_list_def)

lemma upsert_list_sane: "zones_sane zs \<Longrightarrow> zone_sane z \<Longrightarrow> zones_sane (upsert_list z zs)"
  by (auto simp: upsert_list_def position_None find_None_iff list_ex_iff split: option.splits dest: position_Some
      intro!: zones_sane_snoc zones_sane_replace)

section \<open>The journal\<close>

definition journal_ok :: "journal \<Rightarrow> bool" where
  "journal_ok j \<longleftrightarrow> (\<forall>origin log. j origin = Some log \<longrightarrow> length log \<le> JOURNAL_DEPTH)"

lemma journal_record_ok: "journal_ok j \<Longrightarrow> journal_ok (journal_record old new j)"
  by (auto simp: journal_ok_def journal_record_def Let_def)

lemma journal_load_ok: "journal_load entries j = Some j' \<Longrightarrow> journal_ok j \<Longrightarrow> journal_ok j'"
proof (induction entries arbitrary: j)
  case (Cons entry entries)
  obtain f contents where e: "entry = (f, contents)" by fastforce
  have "length log \<le> JOURNAL_DEPTH" if "load_journal_file f contents = Some (Some (origin, log))" for origin log
    using that by (auto simp: load_journal_file_def split: sum.splits option.splits)
  then have "journal_ok (case r of None \<Rightarrow> j | Some (origin, ds) \<Rightarrow> j(origin \<mapsto> ds))"
    if "load_journal_file f contents = Some r" for r
    using that Cons.prems(2) by (auto simp: journal_ok_def split: option.splits)
  then show ?case using Cons e by (auto simp: bind_eq_Some_conv split: if_splits)
qed simp

end
