(* ===== verification/Zone_Writers.thy ===== *)
theory Zone_Writers
  imports Zone_Sane
begin

text \<open>
  The tasks that write the zone set at the same time: dynamic updates
  (\<open>handle_update\<close> in \<open>rdns/src/server.rs\<close>), zones transferred by a secondary
  (\<open>run_secondary\<close> in \<open>dns-xfr/src/lib.rs\<close>) and the handlers of the management
  API (\<open>rdns/src/api.rs\<close>), which hold its write lock.  A step is one access to
  what the tasks share: the snapshot \<open>zones()\<close>, the assignment \<open>set_zones\<close>,
  \<open>Journal::record\<close>, and the lock.
\<close>

section \<open>Changes of the management API\<close>

datatype api_change =
    Create_zone dns_name "rrset_in list"
  | Patch_zone dns_name "rrset_in list"
  | Delete_zone dns_name

text \<open>
  The list a handler assigns, computed from its snapshot, and the change it
  journals; \<open>None\<close> when it refuses or panics.
\<close>

fun api_edit :: "api_change \<Rightarrow> zone list \<Rightarrow> (zone list \<times> (zone \<times> zone) option) option" where
  "api_edit (Create_zone origin rs) zs =
     (if list_ex (\<lambda>z. z_origin z = origin) zs then None
      else case build_zone origin rs of Some (Inr z) \<Rightarrow> Some (zs @ [z], None) | _ \<Rightarrow> None)"
| "api_edit (Patch_zone origin rs) zs =
     (case position (\<lambda>z. z_origin z = origin) zs of
        None \<Rightarrow> None
      | Some i \<Rightarrow>
          (case apply_rrsets rs (zs ! i) of
             Some (Inr z) \<Rightarrow> Some (zs[i := bump_serial z], Some (zs ! i, bump_serial z))
           | _ \<Rightarrow> None))"
| "api_edit (Delete_zone origin) zs =
     map_option (\<lambda>i. (take i zs @ drop (i + 1) zs, None)) (position (\<lambda>z. z_origin z = origin) zs)"

definition edited :: "api_change \<Rightarrow> zone list \<Rightarrow> zone list" where
  "edited c zs = (case api_edit c zs of Some (zs', _) \<Rightarrow> zs' | None \<Rightarrow> zs)"

text \<open>The handlers as they are written, run alone, assign that list.\<close>

lemma create_zone_edit:
  assumes "create_zone ho ae ap body sv = Some (r, sv', effs)"
  shows "rv_zones (sc_resolver sv') = rv_zones (sc_resolver sv) \<or>
    (\<exists>origin rs. rv_zones (sc_resolver sv') = edited (Create_zone origin rs) (rv_zones (sc_resolver sv)))"
  using assms
proof (cases rule: create_zone_cases)
  case (created origin req z)
  then have "rv_zones (sc_resolver sv') = edited (Create_zone origin (zc_rrsets req)) (rv_zones (sc_resolver sv))"
    using commit_zones_state(1) [OF created(5)] by (simp add: edited_def)
  then show ?thesis by blast
qed simp

lemma patch_zone_edit:
  assumes "patch_zone ho ae ap name body sv = Some (r, sv', effs)"
  shows "rv_zones (sc_resolver sv') = rv_zones (sc_resolver sv) \<or>
    (\<exists>origin rs. rv_zones (sc_resolver sv') = edited (Patch_zone origin rs) (rv_zones (sc_resolver sv)))"
  using assms
proof (cases rule: patch_zone_cases)
  case (patched req origin idx z)
  then have "rv_zones (sc_resolver sv') = edited (Patch_zone origin req) (rv_zones (sc_resolver sv))"
    using commit_zones_state(1) [OF patched(5)] by (simp add: edited_def)
  then show ?thesis by blast
qed simp

lemma delete_zone_edit:
  assumes "delete_zone ap name sv = (r, sv', effs)"
  shows "rv_zones (sc_resolver sv') = rv_zones (sc_resolver sv) \<or>
    (\<exists>origin. rv_zones (sc_resolver sv') = edited (Delete_zone origin) (rv_zones (sc_resolver sv)))"
proof (cases "parse_str name")
  case (Inr origin)
  then have "rv_zones (sc_resolver sv') = edited (Delete_zone origin) (rv_zones (sc_resolver sv))"
    using assms by (auto simp: delete_zone_def edited_def set_zones_def Let_def split: option.splits)
  then show ?thesis by blast
qed (use assms in \<open>simp add: delete_zone_def\<close>)

lemma route_edit:
  assumes "route ho ae ap method path body sv = Some (r, sv', effs)"
  shows "rv_zones (sc_resolver sv') = rv_zones (sc_resolver sv) \<or>
    (\<exists>c. rv_zones (sc_resolver sv') = edited c (rv_zones (sc_resolver sv)))"
  using route_cases [OF assms] create_zone_edit patch_zone_edit delete_zone_edit by metis

lemma api_edit_sane:
  assumes "zones_sane zs" "api_edit c zs = Some (zs', d)"
    and "\<And>origin rs. c = Create_zone origin rs \<Longrightarrow> wf_name origin"
  shows "zones_sane zs'"
proof (cases c)
  case (Create_zone origin rs)
  then obtain z where z: "build_zone origin rs = Some (Inr z)" "zs' = zs @ [z]" "\<not> list_ex (\<lambda>z. z_origin z = origin) zs"
    using assms(2) by (auto split: if_splits option.splits sum.splits)
  then have "zone_sane z" "z_origin z = origin"
    using build_zone_wf [OF z(1)] assms(3) [OF Create_zone] wf_zone_sane [of z] by auto
  then show ?thesis using assms(1) z(2,3) by (auto intro: zones_sane_snoc)
next
  case (Patch_zone origin rs)
  then obtain i z where z: "position (\<lambda>z. z_origin z = origin) zs = Some i" "apply_rrsets rs (zs ! i) = Some (Inr z)"
    "zs' = zs[i := bump_serial z]"
    using assms(2) by (auto split: option.splits sum.splits)
  have i: "i < length zs" using position_Some [OF z(1)] by simp
  then have "zone_sane (zs ! i)" using assms(1) by (auto simp: zones_sane_def list_all_length)
  then have "zone_sane z" "z_origin z = z_origin (zs ! i)" using apply_rrsets_sane [OF z(2)] by auto
  then show ?thesis using assms(1) z(3) i bump_serial_sane by (auto intro: zones_sane_replace)
next
  case (Delete_zone origin)
  then show ?thesis using assms(1,2) zones_sane_remove by auto
qed

section \<open>The steps\<close>

datatype writer =
    Update_start "rr list" "rr list" dns_name
  | Update_commit zone zone
  | Upsert_start zone
  | Upsert_write "zone list"
  | Api_start api_change
  | Api_locked api_change
  | Api_write "zone list" "(zone \<times> zone) option"
  | Api_journal "(zone \<times> zone) option"
  | Settled

record shared =
  sh_zones :: "zone list"
  sh_journal :: journal
  sh_lock :: "nat option"
  sh_writers :: "writer list"

definition set_writer :: "nat \<Rightarrow> writer \<Rightarrow> shared \<Rightarrow> shared" where
  "set_writer i w s = s\<lparr>sh_writers := (sh_writers s)[i := w]\<rparr>"

abbreviation writer_at :: "shared \<Rightarrow> nat \<Rightarrow> writer \<Rightarrow> bool" where
  "writer_at s i w \<equiv> i < length (sh_writers s) \<and> sh_writers s ! i = w"

definition record_delta :: "(zone \<times> zone) option \<Rightarrow> journal \<Rightarrow> journal" where
  "record_delta d j = (case d of Some (old, new) \<Rightarrow> journal_record old new j | None \<Rightarrow> j)"

definition update_result :: "rr list \<Rightarrow> rr list \<Rightarrow> dns_name \<Rightarrow> zone list \<Rightarrow> (zone \<times> zone) option" where
  "update_result prereqs updates origin zs =
     (case find (\<lambda>z. z_origin z = origin) zs of
        None \<Rightarrow> None
      | Some old \<Rightarrow>
          (case apply_update prereqs updates old of
             (new, rcode) \<Rightarrow> if rcode = RCODE_NOERROR then Some (old, bump_serial new) else None))"

inductive write_step :: "shared \<Rightarrow> shared \<Rightarrow> bool" where
  update_read: "writer_at s i (Update_start prereqs updates origin) \<Longrightarrow>
    write_step s (set_writer i (case update_result prereqs updates origin (sh_zones s) of
      Some (old, new) \<Rightarrow> Update_commit old new | None \<Rightarrow> Settled) s)"
| update_journal: "writer_at s i (Update_commit old new) \<Longrightarrow>
    write_step s (set_writer i (Upsert_start new) (s\<lparr>sh_journal := journal_record old new (sh_journal s)\<rparr>))"
| upsert_read: "writer_at s i (Upsert_start z) \<Longrightarrow> write_step s (set_writer i (Upsert_write (upsert_list z (sh_zones s))) s)"
| upsert_write: "writer_at s i (Upsert_write zs) \<Longrightarrow> write_step s (set_writer i Settled (s\<lparr>sh_zones := zs\<rparr>))"
| api_lock: "writer_at s i (Api_start c) \<Longrightarrow> sh_lock s = None \<Longrightarrow>
    write_step s (set_writer i (Api_locked c) (s\<lparr>sh_lock := Some i\<rparr>))"
| api_read: "writer_at s i (Api_locked c) \<Longrightarrow> api_edit c (sh_zones s) = Some (zs, d) \<Longrightarrow>
    write_step s (set_writer i (Api_write zs d) s)"
| api_refuse: "writer_at s i (Api_locked c) \<Longrightarrow> api_edit c (sh_zones s) = None \<Longrightarrow>
    write_step s (set_writer i Settled (s\<lparr>sh_lock := None\<rparr>))"
| api_write: "writer_at s i (Api_write zs d) \<Longrightarrow>
    write_step s (set_writer i (Api_journal d) (s\<lparr>sh_zones := zs\<rparr>))"
| api_finish: "writer_at s i (Api_journal d) \<Longrightarrow>
    write_step s (set_writer i Settled (s\<lparr>sh_journal := record_delta d (sh_journal s), sh_lock := None\<rparr>))"

lemma set_writer_simps [simp]:
  "sh_zones (set_writer i w s) = sh_zones s" "sh_journal (set_writer i w s) = sh_journal s"
  "sh_lock (set_writer i w s) = sh_lock s" "sh_writers (set_writer i w s) = (sh_writers s)[i := w]"
  by (simp_all add: set_writer_def)

section \<open>What no interleaving breaks\<close>

fun critical :: "writer \<Rightarrow> bool" where
  "critical (Api_locked c) = True"
| "critical (Api_write zs d) = True"
| "critical (Api_journal d) = True"
| "critical w = False"

fun writer_ok :: "writer \<Rightarrow> bool" where
  "writer_ok (Update_commit old new) = zone_sane new"
| "writer_ok (Upsert_start z) = zone_sane z"
| "writer_ok (Upsert_write zs) = zones_sane zs"
| "writer_ok (Api_start (Create_zone origin rs)) = wf_name origin"
| "writer_ok (Api_locked (Create_zone origin rs)) = wf_name origin"
| "writer_ok (Api_write zs d) = zones_sane zs"
| "writer_ok w = True"

text \<open>What a task is when it begins: an authorised update, a zone just transferred, a request to the API.\<close>

fun begins :: "writer \<Rightarrow> bool" where
  "begins (Update_start prereqs updates origin) = True"
| "begins (Upsert_start z) = zone_sane z"
| "begins (Api_start (Create_zone origin rs)) = wf_name origin"
| "begins (Api_start c) = True"
| "begins w = False"

definition lock_ok :: "shared \<Rightarrow> bool" where
  "lock_ok s \<longleftrightarrow> (\<forall>i < length (sh_writers s). critical (sh_writers s ! i) \<longleftrightarrow> sh_lock s = Some i)"

definition shared_ok :: "shared \<Rightarrow> bool" where
  "shared_ok s \<longleftrightarrow> zones_sane (sh_zones s) \<and> journal_ok (sh_journal s) \<and> list_all writer_ok (sh_writers s)"

lemma begins_ok: "begins w \<Longrightarrow> writer_ok w \<and> \<not> critical w"
  by (induction w rule: begins.induct) auto

lemma update_result_sane:
  assumes "zones_sane zs" "update_result prereqs updates origin zs = Some (old, new)"
  shows "zone_sane new"
proof -
  obtain upd where u: "find (\<lambda>z. z_origin z = origin) zs = Some old" "apply_update prereqs updates old = (upd, RCODE_NOERROR)"
    "new = bump_serial upd"
    using assms(2) by (simp add: update_result_def split: option.splits prod.splits if_splits)
  then show ?thesis using bump_serial_sane apply_update_sane zones_sane_find assms(1) by metis
qed

lemma list_all_set: "list_all P xs \<Longrightarrow> P x \<Longrightarrow> list_all P (xs[i := x])"
  using set_update_subset_insert [of xs i x] by (auto simp: list_all_iff)

lemma shared_ok_at: "shared_ok s \<Longrightarrow> writer_at s i w \<Longrightarrow> writer_ok w"
  by (auto simp: shared_ok_def list_all_length)

lemma shared_ok_set:
  "shared_ok s \<Longrightarrow> writer_ok w \<Longrightarrow> zones_sane zs \<Longrightarrow> journal_ok j \<Longrightarrow>
     shared_ok (set_writer i w (s\<lparr>sh_zones := zs, sh_journal := j, sh_lock := l\<rparr>))"
  by (simp add: shared_ok_def list_all_set)

lemma shared_ok_parts: "shared_ok s \<Longrightarrow> zones_sane (sh_zones s)" "shared_ok s \<Longrightarrow> journal_ok (sh_journal s)"
  by (simp_all add: shared_ok_def)

lemma write_step_lock: "write_step s t \<Longrightarrow> lock_ok s \<Longrightarrow> lock_ok t"
  by (induction rule: write_step.induct) (auto simp: lock_ok_def nth_list_update split: option.splits)

lemma write_step_ok:
  assumes "write_step s t" "shared_ok s" shows "shared_ok t"
proof -
  note parts = shared_ok_parts [OF assms(2)] and put = shared_ok_set [OF assms(2)]
  have same: "shared_ok (set_writer i w s)" if "writer_ok w" for i w
    using put [OF that parts, of i "sh_lock s"] by simp
  show ?thesis
    using assms(1)
  proof cases
    case (update_read i prereqs updates origin)
    then show ?thesis using update_result_sane [OF parts(1)] by (auto intro!: same split: option.splits)
  next
    case (update_journal i old new)
    then show ?thesis
      using put [of "Upsert_start new" "sh_zones s" "journal_record old new (sh_journal s)" i "sh_lock s"] parts
        shared_ok_at [OF assms(2), of i "Update_commit old new"] by (simp add: journal_record_ok)
  next
    case (upsert_read i z)
    then show ?thesis using upsert_list_sane [OF parts(1), of z] shared_ok_at [OF assms(2), of i "Upsert_start z"] by (auto intro!: same)
  next
    case (upsert_write i zs)
    then show ?thesis
      using put [of Settled zs "sh_journal s" i "sh_lock s"] parts shared_ok_at [OF assms(2), of i "Upsert_write zs"] by simp
  next
    case (api_lock i c)
    then have "writer_ok (Api_locked c)" using shared_ok_at [OF assms(2), of i "Api_start c"] by (cases c) simp_all
    then show ?thesis using api_lock put [of "Api_locked c" "sh_zones s" "sh_journal s" i "Some i"] parts by simp
  next
    case (api_read i c zs d)
    then have "writer_ok (Api_locked c)" using shared_ok_at [OF assms(2)] by blast
    then have "zones_sane zs" by (intro api_edit_sane [OF parts(1) api_read(3)]) simp
    then show ?thesis using api_read by (auto intro!: same)
  next
    case (api_refuse i c)
    then show ?thesis using put [of Settled "sh_zones s" "sh_journal s" i None] parts by simp
  next
    case (api_write i zs d)
    then show ?thesis
      using put [of "Api_journal d" zs "sh_journal s" i "sh_lock s"] parts shared_ok_at [OF assms(2), of i "Api_write zs d"] by simp
  next
    case (api_finish i d)
    moreover have "journal_ok (record_delta d (sh_journal s))"
      using parts(2) by (auto simp: record_delta_def journal_record_ok split: option.splits)
    ultimately show ?thesis
      using put [of Settled "sh_zones s" "record_delta d (sh_journal s)" i None] parts by simp
  qed
qed

lemma write_steps_ok: "rtranclp write_step s t \<Longrightarrow> shared_ok s \<and> lock_ok s \<Longrightarrow> shared_ok t \<and> lock_ok t"
  by (induction rule: rtranclp_induct) (auto intro: write_step_ok write_step_lock)

section \<open>Tasks that hold the lock\<close>

fun settled :: "writer \<Rightarrow> bool" where
  "settled (Api_journal d) = True"
| "settled Settled = True"
| "settled w = False"

text \<open>Task \<open>i\<close> works on the change \<open>cs ! i\<close>; what it is about to assign is still up to date.\<close>

fun api_task :: "zone list \<Rightarrow> api_change \<Rightarrow> writer \<Rightarrow> bool" where
  "api_task zs c (Api_start c') = (c' = c)"
| "api_task zs c (Api_locked c') = (c' = c)"
| "api_task zs c (Api_write zs' d) = (api_edit c zs = Some (zs', d))"
| "api_task zs c w = settled w"

definition api_only :: "api_change list \<Rightarrow> shared \<Rightarrow> bool" where
  "api_only cs s \<longleftrightarrow> list_all2 (api_task (sh_zones s)) cs (sh_writers s)"

text \<open>The zone set is the result of the settled changes, one after the other.\<close>

definition serial :: "api_change list \<Rightarrow> zone list \<Rightarrow> shared \<Rightarrow> bool" where
  "serial cs zs0 s \<longleftrightarrow> (\<exists>is. distinct is \<and> set is = {i. i < length cs \<and> settled (sh_writers s ! i)} \<and>
     sh_zones s = foldl (\<lambda>zs i. edited (cs ! i) zs) zs0 is)"

lemma serial_same:
  assumes "serial cs zs0 s" "sh_zones t = sh_zones s" "\<And>i. i < length cs \<Longrightarrow> settled (sh_writers t ! i) = settled (sh_writers s ! i)"
  shows "serial cs zs0 t"
  using assms unfolding serial_def by (metis (mono_tags, lifting) Collect_cong)

lemma serial_add:
  assumes "serial cs zs0 s" "k < length cs" "\<not> settled (sh_writers s ! k)" "settled w" "length (sh_writers s) = length cs"
    and "sh_zones t = edited (cs ! k) (sh_zones s)" "sh_writers t = (sh_writers s)[k := w]"
  shows "serial cs zs0 t"
proof -
  obtain "is" where i: "distinct is" "set is = {i. i < length cs \<and> settled (sh_writers s ! i)}"
    "sh_zones s = foldl (\<lambda>zs i. edited (cs ! i) zs) zs0 is"
    using assms(1) by (auto simp: serial_def)
  have "set (is @ [k]) = {i. i < length cs \<and> settled (sh_writers t ! i)}"
    using i(2) assms(2,4,5,7) by (auto simp: nth_list_update)
  moreover have "distinct (is @ [k])" using i(1,2) assms(3) by auto
  moreover have "sh_zones t = foldl (\<lambda>zs i. edited (cs ! i) zs) zs0 (is @ [k])" using i(3) assms(6) by simp
  ultimately show ?thesis unfolding serial_def by blast
qed

lemma api_only_at: "api_only cs s \<Longrightarrow> writer_at s i w \<Longrightarrow> i < length cs \<and> api_task (sh_zones s) (cs ! i) w"
  by (auto simp: api_only_def list_all2_conv_all_nth)

lemma api_only_set:
  assumes "api_only cs s" "i < length cs" "api_task (sh_zones s) (cs ! i) w"
    "sh_zones t = sh_zones s" "sh_writers t = (sh_writers s)[i := w]"
  shows "api_only cs t"
  using assms by (auto simp: api_only_def list_all2_conv_all_nth nth_list_update)

text \<open>A task that may assign the zone set has the lock, so nobody else is about to.\<close>

lemma api_only_write:
  assumes "api_only cs s" "lock_ok s" "writer_at s i (Api_write zs d)"
  shows "api_only cs (set_writer i (Api_journal d) (s\<lparr>sh_zones := zs\<rparr>))"
proof -
  have len: "length (sh_writers s) = length cs" using assms(1) by (simp add: api_only_def list_all2_lengthD)
  have "\<not> critical (sh_writers s ! j)" if "j < length cs" "j \<noteq> i" for j
    using that assms(2,3) len by (auto simp: lock_ok_def)
  then have "api_task zs (cs ! j) (sh_writers s ! j)" if "j < length cs" "j \<noteq> i" for j
    using that assms(1) len by (cases "sh_writers s ! j") (fastforce simp: api_only_def list_all2_conv_all_nth)+
  then show ?thesis using len assms(3) by (auto simp: api_only_def list_all2_conv_all_nth nth_list_update)
qed

lemma api_only_step:
  assumes "write_step s t" "api_only cs s" "lock_ok s" shows "api_only cs t"
  using assms(1)
proof cases
  case (api_lock i c)
  then show ?thesis
    using api_only_at [OF assms(2), of i "Api_start c"] by (intro api_only_set [OF assms(2), of i "Api_locked c"]) auto
next
  case (api_read i c zs d)
  then show ?thesis
    using api_only_at [OF assms(2), of i "Api_locked c"] by (intro api_only_set [OF assms(2), of i "Api_write zs d"]) auto
next
  case (api_refuse i c)
  then show ?thesis
    using api_only_at [OF assms(2), of i "Api_locked c"] by (intro api_only_set [OF assms(2), of i Settled]) auto
next
  case (api_write i zs d)
  then show ?thesis using api_only_write [OF assms(2,3)] by simp
next
  case (api_finish i d)
  then show ?thesis
    using api_only_at [OF assms(2), of i "Api_journal d"] by (intro api_only_set [OF assms(2), of i Settled]) auto
qed (use api_only_at [OF assms(2)] in fastforce)+

lemma serial_keep:
  assumes "serial cs zs0 s" "i < length (sh_writers s)" "settled w = settled (sh_writers s ! i)"
    "sh_zones t = sh_zones s" "sh_writers t = (sh_writers s)[i := w]"
  shows "serial cs zs0 t"
  using assms by (intro serial_same [OF assms(1)]) (auto simp: nth_list_update)

lemma serial_step:
  assumes "write_step s t" "api_only cs s" "serial cs zs0 s" shows "serial cs zs0 t"
  using assms(1)
proof cases
  case (api_lock i c)
  then show ?thesis by (intro serial_keep [OF assms(3), of i "Api_locked c"]) auto
next
  case (api_read i c zs d)
  then show ?thesis by (intro serial_keep [OF assms(3), of i "Api_write zs d"]) auto
next
  case (api_finish i d)
  then show ?thesis by (intro serial_keep [OF assms(3), of i Settled]) auto
next
  case (api_refuse i c)
  then have "i < length cs" "edited (cs ! i) (sh_zones s) = sh_zones s"
    using api_only_at [OF assms(2), of i "Api_locked c"] by (auto simp: edited_def)
  then show ?thesis
    using api_refuse assms(2) by (intro serial_add [OF assms(3), of i Settled]) (auto simp: api_only_def list_all2_lengthD)
next
  case (api_write i zs d)
  then have "i < length cs" "edited (cs ! i) (sh_zones s) = zs"
    using api_only_at [OF assms(2), of i "Api_write zs d"] by (auto simp: edited_def)
  then show ?thesis
    using api_write assms(2) by (intro serial_add [OF assms(3), of i "Api_journal d"]) (auto simp: api_only_def list_all2_lengthD)
qed (use api_only_at [OF assms(2)] in fastforce)+

lemma api_steps_serial:
  assumes "rtranclp write_step s t" "api_only cs s" "lock_ok s" "serial cs zs0 s"
  shows "api_only cs t \<and> lock_ok t \<and> serial cs zs0 t"
  using assms by (induction rule: rtranclp_induct) (auto intro: api_only_step write_step_lock serial_step)

section \<open>One update alone\<close>

definition shared_of :: "server_ctx \<Rightarrow> writer list \<Rightarrow> shared" where
  "shared_of sv ws = \<lparr>sh_zones = rv_zones (sc_resolver sv), sh_journal = sc_journal sv, sh_lock = None, sh_writers = ws\<rparr>"

lemma write_step_eq: "write_step s t \<Longrightarrow> t = t' \<Longrightarrow> write_step s t'"
  by simp

lemma update_read_commit:
  assumes "writer_at s i (Update_start prereqs updates origin)" "update_result prereqs updates origin (sh_zones s) = Some (old, new)"
    "t = set_writer i (Update_commit old new) s"
  shows "write_step s t"
  using write_step.update_read [OF assms(1)] assms(2,3) by simp

lemmas write_steps_to = update_read_commit
  write_step_eq [OF write_step.update_journal] write_step_eq [OF write_step.upsert_read] write_step_eq [OF write_step.upsert_write]

lemma update_steps:
  assumes "update_result prereqs updates origin zs = Some (old, new)"
  shows "rtranclp write_step \<lparr>sh_zones = zs, sh_journal = j, sh_lock = l, sh_writers = [Update_start prereqs updates origin]\<rparr>
    \<lparr>sh_zones = upsert_list new zs, sh_journal = journal_record old new j, sh_lock = l, sh_writers = [Settled]\<rparr>"
proof -
  let ?s = "\<lambda>zs j w. \<lparr>sh_zones = zs, sh_journal = j, sh_lock = l, sh_writers = [w]\<rparr>"
  have "write_step (?s zs j (Update_start prereqs updates origin)) (?s zs j (Update_commit old new))"
    by (rule write_steps_to(1) [where i = 0 and prereqs = prereqs and updates = updates and origin = origin])
      (simp_all add: assms set_writer_def)
  moreover have "write_step (?s zs j (Update_commit old new)) (?s zs (journal_record old new j) (Upsert_start new))"
    by (rule write_steps_to(2) [where i = 0 and old = old and new = new]) (simp_all add: set_writer_def)
  moreover have "write_step (?s zs j' (Upsert_start new)) (?s zs j' (Upsert_write (upsert_list new zs)))" for j'
    by (rule write_steps_to(3) [where i = 0 and z = new]) (simp_all add: set_writer_def)
  moreover have "write_step (?s zs j' (Upsert_write zs')) (?s zs' j' Settled)" for j' zs'
    by (rule write_steps_to(4) [where i = 0 and zs = zs']) (simp_all add: set_writer_def)
  ultimately show ?thesis by (meson converse_rtranclp_into_rtranclp rtranclp.rtrancl_refl)
qed

text \<open>Two updates that read the zone set before either writes it.\<close>

lemma update_race:
  assumes "update_result p1 u1 o1 zs = Some (old1, new1)" "update_result p2 u2 o2 zs = Some (old2, new2)"
  shows "rtranclp write_step
    \<lparr>sh_zones = zs, sh_journal = j, sh_lock = l, sh_writers = [Update_start p1 u1 o1, Update_start p2 u2 o2]\<rparr>
    \<lparr>sh_zones = upsert_list new2 (upsert_list new1 zs), sh_journal = journal_record old2 new2 (journal_record old1 new1 j),
     sh_lock = l, sh_writers = [Settled, Settled]\<rparr>"
proof -
  let ?s = "\<lambda>zs j w1 w2. \<lparr>sh_zones = zs, sh_journal = j, sh_lock = l, sh_writers = [w1, w2]\<rparr>"
  have "write_step (?s zs j (Update_start p1 u1 o1) w) (?s zs j (Update_commit old1 new1) w)" for w
    by (rule write_steps_to(1) [where i = 0 and prereqs = p1 and updates = u1 and origin = o1]) (simp_all add: assms set_writer_def)
  moreover have "write_step (?s zs j w (Update_start p2 u2 o2)) (?s zs j w (Update_commit old2 new2))" for w
    by (rule write_steps_to(1) [where i = 1 and prereqs = p2 and updates = u2 and origin = o2]) (simp_all add: assms set_writer_def)
  moreover have "write_step (?s zs j (Update_commit old1 new1) w) (?s zs (journal_record old1 new1 j) (Upsert_start new1) w)" for j w
    by (rule write_steps_to(2) [where i = 0 and old = old1 and new = new1]) (simp_all add: set_writer_def)
  moreover have "write_step (?s zs j w (Update_commit old2 new2)) (?s zs (journal_record old2 new2 j) w (Upsert_start new2))" for zs j w
    by (rule write_steps_to(2) [where i = 1 and old = old2 and new = new2]) (simp_all add: set_writer_def)
  moreover have "write_step (?s zs j (Upsert_start z) w) (?s zs j (Upsert_write (upsert_list z zs)) w)" for zs j z w
    by (rule write_steps_to(3) [where i = 0 and z = z]) (simp_all add: set_writer_def)
  moreover have "write_step (?s zs j w (Upsert_start z)) (?s zs j w (Upsert_write (upsert_list z zs)))" for zs j z w
    by (rule write_steps_to(3) [where i = 1 and z = z]) (simp_all add: set_writer_def)
  moreover have "write_step (?s zs j (Upsert_write zs') w) (?s zs' j Settled w)" for zs zs' j w
    by (rule write_steps_to(4) [where i = 0 and zs = zs']) (simp_all add: set_writer_def)
  moreover have "write_step (?s zs j w (Upsert_write zs')) (?s zs' j w Settled)" for zs zs' j w
    by (rule write_steps_to(4) [where i = 1 and zs = zs']) (simp_all add: set_writer_def)
  ultimately show ?thesis by (meson converse_rtranclp_into_rtranclp rtranclp.rtrancl_refl)
qed

lemma handle_update_commit:
  assumes "handle_update ho peer query raw sv = Some (resp, sv', effs)"
  shows "(sv', effs) = (sv, []) \<or>
    (\<exists>up origin old upd. sc_updates sv = Some up \<and> find (\<lambda>z. z_origin z = origin) (rv_zones (sc_resolver sv)) = Some old \<and>
       apply_update (m_answers query) (m_authorities query) old = (upd, RCODE_NOERROR) \<and>
       commit_update ho up old (bump_serial upd) sv = Some (sv', effs))"
  using assms
  by (simp add: handle_update_def Let_def split: option.splits if_splits bool.splits list.splits prod.splits) blast+

lemma commit_update_lists:
  assumes "commit_update ho up old new sv = Some (sv', effs)"
  shows "rv_zones (sc_resolver sv') = upsert_list new (rv_zones (sc_resolver sv))"
    "sc_journal sv' = journal_record old new (sc_journal sv)"
  using assms
  by (auto simp: commit_update_def Let_def upsert_zone_list set_zones_def tick_def dest!: resign_after_keeps)

section \<open>Properties\<close>

text \<open>
  C21: No interleaving of updates, transfers and requests to the management API
  damages the zone set: the zones keep distinct origins and their shape, the
  journal its bound, and at most one request is behind the lock of the API.
\<close>
theorem zone_writers_safe:
  assumes "zones_sane zones" "journal_ok j" "list_all begins ws"
    and "rtranclp write_step \<lparr>sh_zones = zones, sh_journal = j, sh_lock = None, sh_writers = ws\<rparr> t"
  shows "zones_sane (sh_zones t) \<and> journal_ok (sh_journal t) \<and>
    (\<forall>i k. writer_at t i (sh_writers t ! i) \<and> writer_at t k (sh_writers t ! k) \<and>
       critical (sh_writers t ! i) \<and> critical (sh_writers t ! k) \<longrightarrow> i = k)"
proof -
  let ?s = "\<lparr>sh_zones = zones, sh_journal = j, sh_lock = None, sh_writers = ws\<rparr>"
  have "shared_ok ?s \<and> lock_ok ?s"
    using assms(1-3) begins_ok by (auto simp: shared_ok_def lock_ok_def list_all_length)
  from write_steps_ok [OF assms(4) this] show ?thesis by (auto simp: shared_ok_def lock_ok_def)
qed

lemma sample_zone_sane: "zone_sane sample_zone"
  using wf_zone_sane [OF sample_zone_wf] sample_zone_printable by (simp add: printable_zone_def text_name_def)

lemma sample_update_steps:
  "rtranclp write_step
    \<lparr>sh_zones = [sample_zone], sh_journal = Map.empty, sh_lock = None, sh_writers = [Update_start [] [sample_rr 120 (RD_A 1)] [[101]]]\<rparr>
    \<lparr>sh_zones = upsert_list (bump_serial (fst (apply_update [] [sample_rr 120 (RD_A 1)] sample_zone))) [sample_zone],
     sh_journal = journal_record sample_zone (bump_serial (fst (apply_update [] [sample_rr 120 (RD_A 1)] sample_zone))) Map.empty,
     sh_lock = None, sh_writers = [Settled]\<rparr>"
  by (rule update_steps) (simp add: update_result_def apply_update_def update_one_def sample_zone_def sample_defs)

theorem zone_writers_safe_witness:
  "zones_sane (upsert_list (bump_serial (fst (apply_update [] [sample_rr 120 (RD_A 1)] sample_zone))) [sample_zone])"
proof -
  have "zones_sane [sample_zone]" "journal_ok Map.empty" using sample_zone_sane by (simp_all add: zones_sane_def journal_ok_def)
  from zone_writers_safe [OF this _ sample_update_steps] show ?thesis by simp
qed

text \<open>
  C20: Changes through the management API are never lost.  Whatever requests
  run at the same time and however they interleave, once all are settled the
  zone set is the result of applying every change exactly once, one after the
  other, in some order.
\<close>
theorem api_changes_serialised:
  assumes "rtranclp write_step \<lparr>sh_zones = zones, sh_journal = j, sh_lock = None, sh_writers = map Api_start cs\<rparr> t"
    and "list_all settled (sh_writers t)"
  shows "\<exists>is. mset is = mset [0..<length cs] \<and> sh_zones t = foldl (\<lambda>zs i. edited (cs ! i) zs) zones is"
proof -
  let ?s = "\<lparr>sh_zones = zones, sh_journal = j, sh_lock = None, sh_writers = map Api_start cs\<rparr>"
  have "api_only cs ?s" "lock_ok ?s" by (auto simp: api_only_def lock_ok_def list_all2_conv_all_nth)
  moreover have "serial cs zones ?s" by (auto simp: serial_def intro: exI [of _ "[]"])
  ultimately have t: "api_only cs t" "serial cs zones t" using api_steps_serial [OF assms(1)] by blast+
  then have "{i. i < length cs \<and> settled (sh_writers t ! i)} = set [0..<length cs]"
    using assms(2) by (auto simp: list_all_length api_only_def list_all2_lengthD)
  then obtain "is" where "distinct is" "set is = set [0..<length cs]" "sh_zones t = foldl (\<lambda>zs i. edited (cs ! i) zs) zones is"
    using t(2) by (auto simp: serial_def)
  then show ?thesis using set_eq_iff_mset_eq_distinct [of "is" "[0..<length cs]"] by auto
qed

theorem api_changes_serialised_witness:
  "\<exists>is. mset is = mset [0..<1] \<and> [] = foldl (\<lambda>zs i. edited ([Delete_zone [[101]]] ! i) zs) [sample_zone] is"
proof -
  let ?s = "\<lambda>zs l w. \<lparr>sh_zones = zs, sh_journal = Map.empty, sh_lock = l, sh_writers = [w]\<rparr>"
  have e: "api_edit (Delete_zone [[101]]) [sample_zone] = Some ([], None)" by (simp add: sample_zone_def)
  have "write_step (?s [sample_zone] None (Api_start (Delete_zone [[101]]))) (?s [sample_zone] (Some 0) (Api_locked (Delete_zone [[101]])))"
    by (rule write_step_eq [OF write_step.api_lock [where i = 0 and c = "Delete_zone [[101]]"]]) (simp_all add: set_writer_def)
  moreover have "write_step (?s [sample_zone] (Some 0) (Api_locked (Delete_zone [[101]]))) (?s [sample_zone] (Some 0) (Api_write [] None))"
    by (rule write_step_eq [OF write_step.api_read [where i = 0 and c = "Delete_zone [[101]]" and zs = "[]" and d = None]])
       (simp_all add: e set_writer_def del: api_edit.simps)
  moreover have "write_step (?s [sample_zone] (Some 0) (Api_write [] None)) (?s [] (Some 0) (Api_journal None))"
    by (rule write_step_eq [OF write_step.api_write [where i = 0 and zs = "[]" and d = None]]) (simp_all add: set_writer_def)
  ultimately have "rtranclp write_step (?s [sample_zone] None (Api_start (Delete_zone [[101]]))) (?s [] (Some 0) (Api_journal None))"
    by (meson converse_rtranclp_into_rtranclp rtranclp.rtrancl_refl)
  then show ?thesis using api_changes_serialised [of "[sample_zone]" Map.empty "[Delete_zone [[101]]]" "?s [] (Some 0) (Api_journal None)"] by simp
qed

text \<open>
  The steps of a dynamic update that nobody disturbs are the handler as a
  whole: they lead from the zones and the journal before it to those after it.
\<close>
theorem update_steps_refine:
  assumes "handle_update ho peer query raw sv = Some (resp, sv', effs)" "(sv', effs) \<noteq> (sv, [])"
  shows "\<exists>origin. rtranclp write_step (shared_of sv [Update_start (m_answers query) (m_authorities query) origin])
    (shared_of sv' [Settled])"
proof -
  obtain up origin old upd where u:
    "find (\<lambda>z. z_origin z = origin) (rv_zones (sc_resolver sv)) = Some old"
    "apply_update (m_answers query) (m_authorities query) old = (upd, RCODE_NOERROR)"
    "commit_update ho up old (bump_serial upd) sv = Some (sv', effs)"
    using handle_update_commit [OF assms(1)] assms(2) by blast
  then have "update_result (m_answers query) (m_authorities query) origin (rv_zones (sc_resolver sv)) = Some (old, bump_serial upd)"
    by (simp add: update_result_def)
  from update_steps [OF this] show ?thesis using commit_update_lists [OF u(3)] unfolding shared_of_def by metis
qed

theorem update_steps_refine_witness:
  "\<exists>resp sv' effs origin. handle_update sample_host (V4 1) sample_update [] sample_server = Some (resp, sv', effs) \<and>
    rtranclp write_step (shared_of sample_server [Update_start (m_answers sample_update) (m_authorities sample_update) origin])
      (shared_of sv' [Settled])"
proof -
  obtain resp sv' effs upd ds where h:
    "handle_update sample_host (V4 1) sample_update [] sample_server = Some (resp, sv', effs)"
    "sc_journal sv' [[101]] = Some (ds @ [zone_diff sample_zone (bump_serial upd)])" "(sv', effs) \<noteq> (sample_server, [])"
    by (rule sample_update_handled)
  from update_steps_refine [OF h(1,3)] h(1) show ?thesis by blast
qed

text \<open>
  C37: Concurrent dynamic updates can be lost.  Two updates of one zone that
  both read the zone before either writes it are both journalled and
  acknowledged, but the zone ends up with the second change only.
\<close>
theorem updates_get_lost:
  "\<exists>t. rtranclp write_step \<lparr>sh_zones = [sample_zone], sh_journal = Map.empty, sh_lock = None,
      sh_writers = [Update_start [] [sample_rr 120 (RD_A 1)] [[101]], Update_start [] [sample_rr 121 (RD_A 1)] [[101]]]\<rparr> t \<and>
    sh_writers t = [Settled, Settled] \<and>
    map (\<lambda>z. (map_of (z_records z) [[120], [101]], map_of (z_records z) [[121], [101]])) (sh_zones t) =
      [(None, Some [sample_rr 121 (RD_A 1)])] \<and>
    (\<exists>d1 d2. sh_journal t [[101]] = Some [d1, d2] \<and> df_from d1 = df_from d2 \<and> df_to d1 = df_to d2)"
proof -
  let ?new = "\<lambda>b. bump_serial (fst (apply_update [] [sample_rr b (RD_A 1)] sample_zone))"
  let ?j = "journal_record sample_zone (?new 121) (journal_record sample_zone (?new 120) Map.empty)"
  have o: "z_origin sample_zone = [[101]]" "z_origin (?new b) = [[101]]" "zone_serial (?new b) = zone_serial sample_zone + 1" for b
    by (simp_all add: bump_serial_def apply_update_def update_one_def sample_zone_def sample_defs zone_serial_def Let_def)
  have "update_result [] [sample_rr b (RD_A 1)] [[101]] [sample_zone] = Some (sample_zone, ?new b)" for b
    by (simp add: update_result_def apply_update_def update_one_def sample_zone_def sample_defs)
  note race = update_race [OF this [of 120] this [of 121], of Map.empty None]
  have up: "upsert_list (?new 121) (upsert_list (?new 120) [sample_zone]) = [?new 121]"
    using o by (simp add: upsert_list_def)
  have recs: "map_of (z_records (?new 121)) [[120], [101]] = None"
    "map_of (z_records (?new 121)) [[121], [101]] = Some [sample_rr 121 (RD_A 1)]"
    by code_simp+
  have "?j [[101]] = Some [zone_diff sample_zone (?new 120), zone_diff sample_zone (?new 121)]"
    using o by (simp add: journal_record_def)
  then have "\<exists>d1 d2. ?j [[101]] = Some [d1, d2] \<and> df_from d1 = df_from d2 \<and> df_to d1 = df_to d2"
    using o by (simp add: zone_diff_def)
  then show ?thesis using recs by (intro exI [of _ "\<lparr>sh_zones = _, sh_journal = ?j, sh_lock = None, sh_writers = [Settled, Settled]\<rparr>"])
    (auto simp: up intro: race [unfolded up])
qed

end
