(* ===== verification/Tls_Setup.thy ===== *)
theory Tls_Setup
  imports Startup
begin

text \<open>
  The certificates of the encrypted listeners (\<open>dns-tls/src/lib.rs\<close>) and the
  listeners that \<open>main\<close> opens with them.  The crates \<open>rustls\<close>, \<open>rustls_pemfile\<close>,
  \<open>rcgen\<close> and \<open>quinn\<close> are the fields of \<open>tls_lib\<close>; certificates and keys are
  their encodings.  Every listener draws its own self-signed certificate, so it
  has its own \<open>tls_lib\<close>.
\<close>

record server_config =
  tc_certs :: "bytes list"
  tc_key :: bytes
  tc_alpn :: "bytes list"

record tls_lib =
  tb_certs :: "bytes \<Rightarrow> (string + bytes) list"
  tb_private_key :: "bytes \<Rightarrow> string + bytes option"
  tb_self_signed :: "string list \<Rightarrow> string + bytes \<times> bytes"
  tb_key_der :: "bytes \<Rightarrow> string + bytes"
  tb_single_cert :: "bytes list \<Rightarrow> bytes \<Rightarrow> string + unit"
  tb_quic :: "server_config \<Rightarrow> string + unit"

datatype tls_error =
    CannotReadPem string
  | BadCertificatePem string
  | NoCertificates
  | BadKeyPem string
  | NoPrivateKey
  | Rcgen string
  | KeyDer string
  | TlsConfig string
  | QuicConfig string

section \<open>Certificates\<close>

definition load_pem :: "tls_lib \<Rightarrow> (string \<Rightarrow> bytes option) \<Rightarrow> string \<Rightarrow> string \<Rightarrow> tls_error + bytes list \<times> bytes" where
  "load_pem tb files cert_path key_path =
     and_then (ok_or (CannotReadPem cert_path) (files cert_path)) (\<lambda>cert_pem.
     and_then (ok_or (CannotReadPem key_path) (files key_path)) (\<lambda>key_pem.
     and_then (map_err BadCertificatePem (collect_ok (tb_certs tb cert_pem))) (\<lambda>certs.
     if certs = [] then Inl NoCertificates
     else
       and_then (map_err BadKeyPem (tb_private_key tb key_pem)) (\<lambda>key.
       and_then (ok_or NoPrivateKey key) (\<lambda>k. Inr (certs, k))))))"

definition generate_self_signed :: "tls_lib \<Rightarrow> string list \<Rightarrow> tls_error + bytes list \<times> bytes" where
  "generate_self_signed tb names =
     and_then (map_err Rcgen (tb_self_signed tb (if names = [] then [''localhost''] else names))) (\<lambda>(cert, key).
     and_then (map_err KeyDer (tb_key_der tb key)) (\<lambda>k. Inr ([cert], k)))"

text \<open>The certificate chain and the key, from files when both are given.\<close>

definition tls_identity ::
  "tls_lib \<Rightarrow> (string \<Rightarrow> bytes option) \<Rightarrow> string option \<Rightarrow> string option \<Rightarrow> string list \<Rightarrow> tls_error + bytes list \<times> bytes" where
  "tls_identity tb files cert_path key_path names =
     (case (cert_path, key_path) of
        (Some c, Some k) \<Rightarrow> load_pem tb files c k
      | _ \<Rightarrow> generate_self_signed tb names)"

definition acceptor ::
  "tls_lib \<Rightarrow> (string \<Rightarrow> bytes option) \<Rightarrow> string option \<Rightarrow> string option \<Rightarrow> string list \<Rightarrow> bytes list \<Rightarrow> tls_error + server_config" where
  "acceptor tb files cert_path key_path names alpn =
     and_then (tls_identity tb files cert_path key_path names) (\<lambda>(certs, key).
     and_then (map_err TlsConfig (tb_single_cert tb certs key)) (\<lambda>_.
       Inr \<lparr>tc_certs = certs, tc_key = key, tc_alpn = alpn\<rparr>))"

definition quic_server_config ::
  "tls_lib \<Rightarrow> (string \<Rightarrow> bytes option) \<Rightarrow> string option \<Rightarrow> string option \<Rightarrow> string list \<Rightarrow> tls_error + server_config" where
  "quic_server_config tb files cert_path key_path names =
     and_then (tls_identity tb files cert_path key_path names) (\<lambda>(certs, key).
     and_then (map_err TlsConfig (tb_single_cert tb certs key)) (\<lambda>_.
     let tls = \<lparr>tc_certs = certs, tc_key = key, tc_alpn = [as_bytes ''doq'']\<rparr> in
     and_then (map_err QuicConfig (tb_quic tb tls)) (\<lambda>_. Inr tls)))"

section \<open>Encrypted listeners\<close>

definition open_when :: "socket_addr option \<Rightarrow> listener \<Rightarrow> tls_error + server_config \<Rightarrow>
    tls_error + (listener \<times> socket_addr \<times> server_config) list" where
  "open_when addr l config =
     (case addr of None \<Rightarrow> Inr [] | Some a \<Rightarrow> and_then config (\<lambda>c. Inr [(l, a, c)]))"

definition tls_listeners ::
  "(listener \<Rightarrow> tls_lib) \<Rightarrow> (string \<Rightarrow> bytes option) \<Rightarrow> config \<Rightarrow> tls_error + (listener \<times> socket_addr \<times> server_config) list" where
  "tls_listeners tbs files cfg =
     (case cf_tls cfg of
        None \<Rightarrow> Inr []
      | Some t \<Rightarrow>
          and_then (open_when (tl_dot_listen t) Dot_listener
            (acceptor (tbs Dot_listener) files (tl_cert t) (tl_key t) (tl_self_signed_names t) [])) (\<lambda>dot.
          and_then (open_when (tl_doh_listen t) Doh_listener
            (acceptor (tbs Doh_listener) files (tl_cert t) (tl_key t) (tl_self_signed_names t)
              [as_bytes ''h2'', as_bytes ''http/1.1''])) (\<lambda>doh.
          and_then (open_when (tl_doq_listen t) Doq_listener
            (quic_server_config (tbs Doq_listener) files (tl_cert t) (tl_key t) (tl_self_signed_names t))) (\<lambda>doq.
            Inr (dot @ doh @ doq)))))"

section \<open>Properties\<close>

lemma tls_identity_pem:
  "tls_identity tb files (Some c) (Some k) names = Inr (certs, key) \<Longrightarrow>
     \<exists>cert_pem key_pem. files c = Some cert_pem \<and> files k = Some key_pem \<and>
       collect_ok (tb_certs tb cert_pem) = Inr certs \<and> certs \<noteq> [] \<and> tb_private_key tb key_pem = Inr (Some key)"
  by (auto simp: tls_identity_def load_pem_def result_iffs split: if_splits)

fun alpn_of :: "listener \<Rightarrow> bytes list" where
  "alpn_of Doh_listener = [as_bytes ''h2'', as_bytes ''http/1.1'']"
| "alpn_of Doq_listener = [as_bytes ''doq'']"
| "alpn_of l = []"

lemma open_when_mem:
  "open_when addr l config = Inr ls \<Longrightarrow> (l', a, c) \<in> set ls \<Longrightarrow> l' = l \<and> addr = Some a \<and> config = Inr c"
  by (auto simp: open_when_def and_then_eq_Inr_iff split: option.splits)

lemma tls_listener_identity:
  assumes "tls_listeners tbs files cfg = Inr ls" "(l, a, sc) \<in> set ls"
  shows "\<exists>t. cf_tls cfg = Some t \<and> tc_alpn sc = alpn_of l \<and>
    tls_identity (tbs l) files (tl_cert t) (tl_key t) (tl_self_signed_names t) = Inr (tc_certs sc, tc_key sc)"
proof -
  obtain t dot doh doq where t: "cf_tls cfg = Some t" "ls = dot @ doh @ doq"
    "open_when (tl_dot_listen t) Dot_listener
       (acceptor (tbs Dot_listener) files (tl_cert t) (tl_key t) (tl_self_signed_names t) []) = Inr dot"
    "open_when (tl_doh_listen t) Doh_listener
       (acceptor (tbs Doh_listener) files (tl_cert t) (tl_key t) (tl_self_signed_names t)
         [as_bytes ''h2'', as_bytes ''http/1.1'']) = Inr doh"
    "open_when (tl_doq_listen t) Doq_listener
       (quic_server_config (tbs Doq_listener) files (tl_cert t) (tl_key t) (tl_self_signed_names t)) = Inr doq"
    using assms by (auto simp: tls_listeners_def and_then_eq_Inr_iff split: option.splits)
  consider "(l, a, sc) \<in> set dot" | "(l, a, sc) \<in> set doh" | "(l, a, sc) \<in> set doq" using assms(2) t(2) by auto
  then have "acceptor (tbs l) files (tl_cert t) (tl_key t) (tl_self_signed_names t) (alpn_of l) = Inr sc \<or>
    l = Doq_listener \<and> quic_server_config (tbs l) files (tl_cert t) (tl_key t) (tl_self_signed_names t) = Inr sc"
  proof cases
    case 1
    then show ?thesis using open_when_mem [OF t(3) 1] by simp
  next
    case 2
    then show ?thesis using open_when_mem [OF t(4) 2] by simp
  next
    case 3
    then show ?thesis using open_when_mem [OF t(5) 3] by simp
  qed
  then show ?thesis
    using t(1) by (auto simp: acceptor_def quic_server_config_def and_then_eq_Inr_iff Let_def)
qed

text \<open>
  C32: Every encrypted listener that is opened shows the configured identity.
  When a certificate file and a key file are configured, its chain is the
  whole content of the one, not empty, and its key the key of the other; it
  offers the protocols of its transport and no others.
\<close>
theorem tls_identity_configured:
  assumes "tls_listeners tbs files cfg = Inr ls" "(l, a, sc) \<in> set ls"
    and "cf_tls cfg = Some t" "tl_cert t = Some c" "tl_key t = Some k"
  shows "tc_alpn sc = alpn_of l \<and> (\<exists>cert_pem key_pem. files c = Some cert_pem \<and> files k = Some key_pem \<and>
    collect_ok (tb_certs (tbs l) cert_pem) = Inr (tc_certs sc) \<and> tc_certs sc \<noteq> [] \<and>
    tb_private_key (tbs l) key_pem = Inr (Some (tc_key sc)))"
  using tls_listener_identity [OF assms(1,2)] tls_identity_pem assms(3-5) by fastforce

definition sample_tls_lib :: tls_lib where
  "sample_tls_lib =
     \<lparr>tb_certs = (\<lambda>pem. [Inr pem]), tb_private_key = (\<lambda>pem. Inr (Some pem)), tb_self_signed = (\<lambda>names. Inr ([1], [2])),
      tb_key_der = Inr, tb_single_cert = (\<lambda>_ _. Inr ()), tb_quic = (\<lambda>_. Inr ())\<rparr>"

definition sample_tls :: tls_cfg where
  "sample_tls = tls_default\<lparr>tl_cert := Some ''c'', tl_key := Some ''k'', tl_doh_listen := Some (V4 1, 443)\<rparr>"

theorem tls_identity_configured_witness:
  "tls_listeners (\<lambda>_. sample_tls_lib) (\<lambda>path. Some (as_bytes path)) (config_default\<lparr>cf_tls := Some sample_tls\<rparr>) =
     Inr [(Doh_listener, (V4 1, 443), \<lparr>tc_certs = [as_bytes ''c''], tc_key = as_bytes ''k'',
       tc_alpn = [as_bytes ''h2'', as_bytes ''http/1.1'']\<rparr>)] \<and> tc_alpn \<lparr>tc_certs = [as_bytes ''c''], tc_key = as_bytes ''k'',
       tc_alpn = [as_bytes ''h2'', as_bytes ''http/1.1'']\<rparr> = alpn_of Doh_listener"
proof -
  let ?sc = "\<lparr>tc_certs = [as_bytes ''c''], tc_key = as_bytes ''k'', tc_alpn = [as_bytes ''h2'', as_bytes ''http/1.1'']\<rparr>"
  have l: "tls_listeners (\<lambda>_. sample_tls_lib) (\<lambda>path. Some (as_bytes path)) (config_default\<lparr>cf_tls := Some sample_tls\<rparr>) =
      Inr [(Doh_listener, (V4 1, 443), ?sc)]"
    by (simp add: tls_listeners_def open_when_def acceptor_def tls_identity_def load_pem_def sample_tls_lib_def sample_tls_def
        tls_default_def ok_or_def)
  from tls_identity_configured [OF l, of Doh_listener "(V4 1, 443)" ?sc sample_tls "''c''" "''k''"] show ?thesis
    using l by (simp add: sample_tls_def)
qed

text \<open>
  A certificate without a key, or a key without a certificate, is not an
  error: the listener gets a self-signed certificate instead.
\<close>

theorem half_pair_ignored:
  "acceptor tb files (Some c) None names alpn = acceptor tb files None None names alpn \<and>
   acceptor tb files None (Some k) names alpn = acceptor tb files None None names alpn"
  by (simp add: acceptor_def tls_identity_def)

end
