(* ===== verification/Listeners.thy ===== *)
theory Listeners
  imports Tls_Setup Doh "HOL-Library.Multiset"
begin

text \<open>
  The accept loops (\<open>run_tcp\<close>, \<open>run_dot\<close>, \<open>run_doh\<close>, \<open>run_doq\<close> in
  \<open>rdns/src/server.rs\<close>, \<open>run\<close> in \<open>rdns/src/api.rs\<close>) and the tasks they spawn.  A
  connection is the list of the chunks the client sends; TLS, HTTP/2 and QUIC
  are the fields of \<open>net_lib\<close>, which give what those libraries hand to the
  program: the decrypted stream with the protocol that was agreed on, the
  requests of a connection, the streams of a connection.
\<close>

section \<open>Connections\<close>

record tls_session =
  tv_alpn :: "bytes option"
  tv_stream :: "bytes list"

record h2_request =
  hq_method :: string
  hq_path :: "string option"
  hq_frames :: "bytes option list"

text \<open>
  \<open>None\<close> is a failed handshake.  Among the requests of an HTTP/2 connection
  \<open>None\<close> is an error of the connection.
\<close>

record net_lib =
  nl_tls :: "server_config \<Rightarrow> bytes list \<Rightarrow> tls_session option"
  nl_h2 :: "bytes list \<Rightarrow> h2_request option list option"
  nl_quic :: "server_config \<Rightarrow> bytes list \<Rightarrow> bytes list option"

datatype conn_task =
    Stream_task ip_addr string bytes
  | Http_task ip_addr "bytes list"
  | H2_task ip_addr h2_request
  | Doq_task ip_addr bytes
  | Api_task "bytes list"

definition serve_tcp_conn :: "ip_addr \<Rightarrow> bytes list \<Rightarrow> conn_task list" where
  "serve_tcp_conn peer parts = [Stream_task peer ''tcp'' (concat parts)]"

definition dot_conn :: "net_lib \<Rightarrow> server_config \<Rightarrow> ip_addr \<Rightarrow> bytes list \<Rightarrow> conn_task list" where
  "dot_conn nl sc peer parts =
     (case nl_tls nl sc parts of
        Some tls \<Rightarrow> [Stream_task peer ''dot'' (concat (tv_stream tls))]
      | None \<Rightarrow> [])"

text \<open>The loop over the requests ends at the first error.\<close>

fun h2_requests :: "h2_request option list \<Rightarrow> h2_request list" where
  "h2_requests (Some req # reqs) = req # h2_requests reqs"
| "h2_requests _ = []"

definition serve_doh_h2 :: "net_lib \<Rightarrow> ip_addr \<Rightarrow> bytes list \<Rightarrow> conn_task list" where
  "serve_doh_h2 nl peer stream =
     (case nl_h2 nl stream of
        None \<Rightarrow> []
      | Some reqs \<Rightarrow> map (H2_task peer) (h2_requests reqs))"

definition doh_conn :: "net_lib \<Rightarrow> server_config \<Rightarrow> ip_addr \<Rightarrow> bytes list \<Rightarrow> conn_task list" where
  "doh_conn nl sc peer parts =
     (case nl_tls nl sc parts of
        None \<Rightarrow> []
      | Some tls \<Rightarrow>
          if tv_alpn tls = Some (as_bytes ''h2'') then serve_doh_h2 nl peer (tv_stream tls)
          else [Http_task peer (tv_stream tls)])"

definition doq_conn :: "net_lib \<Rightarrow> server_config \<Rightarrow> ip_addr \<Rightarrow> bytes list \<Rightarrow> conn_task list" where
  "doq_conn nl sc peer parts =
     (case nl_quic nl sc parts of
        None \<Rightarrow> []
      | Some streams \<Rightarrow> map (Doq_task peer) streams)"

text \<open>The tasks spawned for a connection to a listener.\<close>

fun accept_conn :: "net_lib \<Rightarrow> listener \<Rightarrow> server_config \<Rightarrow> ip_addr \<Rightarrow> bytes list \<Rightarrow> conn_task list" where
  "accept_conn nl Udp_listener sc peer parts = []"
| "accept_conn nl Tcp_listener sc peer parts = serve_tcp_conn peer parts"
| "accept_conn nl Dot_listener sc peer parts = dot_conn nl sc peer parts"
| "accept_conn nl Doh_listener sc peer parts = doh_conn nl sc peer parts"
| "accept_conn nl Doq_listener sc peer parts = doq_conn nl sc peer parts"
| "accept_conn nl Api_listener sc peer parts = [Api_task parts]"

section \<open>Tasks\<close>

text \<open>One turn of the loop of \<open>serve_stream\<close>: what remains to be read, unless the loop ends, and what is sent.\<close>

definition stream_turn ::
  "host \<Rightarrow> ip_addr \<Rightarrow> string \<Rightarrow> bytes \<Rightarrow> server_ctx \<Rightarrow> (bytes option \<times> bytes \<times> server_ctx \<times> effect list) option" where
  "stream_turn ho peer proto stream sv =
     (case read_frame stream of
        None \<Rightarrow> Some (None, [], sv, [])
      | Some (data, rest) \<Rightarrow>
          if data = [] then Some (None, [], sv, [])
          else
            let (close, sv1) = limited ho peer (sv_count Queries_tcp sv) in
            if close then Some (None, [], sv1, [])
            else map_option (\<lambda>(out, sv2, effs). (Some rest, out, sv2, effs)) (stream_message ho peer proto data sv1))"

text \<open>
  What a task does without giving way to another one that shares its state: a
  turn of a stream, or a whole request elsewhere.  The result is what the task
  has left to do, and the new state.
\<close>

fun task_turn ::
  "host \<Rightarrow> api_env \<Rightarrow> api_ctx \<Rightarrow> conn_task \<Rightarrow> server_ctx \<Rightarrow> (conn_task option \<times> server_ctx \<times> effect list) option" where
  "task_turn ho ae ap (Stream_task peer proto stream) sv =
     map_option (\<lambda>(rest, out, sv', effs). (map_option (Stream_task peer proto) rest, sv', effs))
       (stream_turn ho peer proto stream sv)"
| "task_turn ho ae ap (Http_task peer parts) sv =
     map_option (\<lambda>(out, rest). (None, rest)) (serve_doh_conn ho peer parts sv)"
| "task_turn ho ae ap (H2_task peer req) sv =
     map_option (\<lambda>(out, rest). (None, rest)) (handle_h2_request ho peer (hq_method req) (hq_path req) (hq_frames req) sv)"
| "task_turn ho ae ap (Doq_task peer data) sv =
     map_option (\<lambda>(out, rest). (None, rest)) (serve_doq_stream ho peer data sv)"
| "task_turn ho ae ap (Api_task parts) sv =
     map_option (\<lambda>(out, rest). (None, rest)) (serve_conn ho ae ap parts sv)"

lemma stream_turn_shorter:
  "stream_turn ho peer proto stream sv = Some (Some rest, out, sv', effs) \<Longrightarrow> length rest < length stream"
  by (auto simp: stream_turn_def Let_def split: option.splits if_splits prod.splits dest: read_frame_shorter)

lemma serve_stream_turn:
  "serve_stream ho peer proto stream sv =
     (case stream_turn ho peer proto stream sv of
        None \<Rightarrow> None
      | Some (None, out, sv', effs) \<Rightarrow> Some (out, sv', effs)
      | Some (Some rest, out, sv', effs) \<Rightarrow>
          map_option (\<lambda>(out', sv'', effs'). (out @ out', sv'', effs @ effs')) (serve_stream ho peer proto rest sv'))"
  by (subst serve_stream.simps) (simp add: stream_turn_def Let_def split: option.splits prod.splits)

text \<open>The turns of one task alone, until it is done.\<close>

inductive turns :: "host \<Rightarrow> api_env \<Rightarrow> api_ctx \<Rightarrow> conn_task \<Rightarrow> server_ctx \<Rightarrow> server_ctx \<Rightarrow> effect list \<Rightarrow> bool"
  for ho ae ap where
  last_turn: "task_turn ho ae ap t sv = Some (None, sv', effs) \<Longrightarrow> turns ho ae ap t sv sv' effs"
| next_turn: "task_turn ho ae ap t sv = Some (Some t', sv', effs) \<Longrightarrow> turns ho ae ap t' sv' sv'' effs' \<Longrightarrow>
    turns ho ae ap t sv sv'' (effs @ effs')"

lemma stream_turns:
  "serve_stream ho peer proto stream sv = Some (out, sv', effs) \<Longrightarrow>
     turns ho ae ap (Stream_task peer proto stream) sv sv' effs"
proof (induction "length stream" arbitrary: stream sv out effs rule: less_induct)
  case less
  from less.prems obtain rest out1 sv1 effs1 where t: "stream_turn ho peer proto stream sv = Some (rest, out1, sv1, effs1)"
    by (subst (asm) serve_stream_turn) (auto split: option.splits)
  show ?case
  proof (cases rest)
    case None
    then have "sv1 = sv'" "effs1 = effs" using less.prems t by (subst (asm) serve_stream_turn, simp)+
    then show ?thesis using t None by (intro last_turn) simp
  next
    case (Some r)
    then obtain out2 effs2 where r: "serve_stream ho peer proto r sv1 = Some (out2, sv', effs2)" "effs = effs1 @ effs2"
      using less.prems t by (subst (asm) serve_stream_turn) auto
    have "length r < length stream" using stream_turn_shorter t Some by blast
    from less.hyps [OF this r(1)] show ?thesis
      unfolding r(2) using t Some by (intro next_turn [of _ _ _ _ _ "Stream_task peer proto r" sv1]) simp_all
  qed
qed

end
