(* ===== verification/Serving.thy ===== *)
theory Serving
  imports Listeners Running Zone_Writers
begin

text \<open>
  The server as a whole: its state and the tasks of its connections, under
  every interleaving of datagrams, turns of the tasks, reloads, renewals of
  the signatures and refreshes of the secondary zones.  Runs go up to the
  first panic.  What is proved of all of them rests on a contract for the
  resolver, which is discharged for two invariants: the shape of the zones
  with the bound of the cache, and the soundness of the AD bit.  A turn is
  atomic but for its lookups; the finer steps of the handlers that change zones
  are those of \<open>Zone_Writers\<close>.
\<close>

section \<open>The steps of the server\<close>

record serving =
  sg_server :: server_ctx
  sg_tasks :: "conn_task multiset"

text \<open>
  A datagram, or a turn of a task, may wait for a lookup; what the others do
  meanwhile (\<open>ho_others\<close>) is itself a sequence of steps of a server with that
  resolver (\<open>sharing\<close>).  A closed connection or one that timed out is abandoned.
\<close>

inductive serving_step :: "crypto \<Rightarrow> api_env \<Rightarrow> net_lib \<Rightarrow> config \<Rightarrow> started \<Rightarrow> serving \<Rightarrow> serving \<Rightarrow> bool"
  and sharing :: "crypto \<Rightarrow> api_env \<Rightarrow> net_lib \<Rightarrow> config \<Rightarrow> started \<Rightarrow> host \<Rightarrow> bool" for cr ae nl cfg st where
  datagram: "sharing cr ae nl cfg st ho \<Longrightarrow> udp_step ho peer data (sg_server s) = Some (out, sv, effs) \<Longrightarrow>
    serving_step cr ae nl cfg st s (s\<lparr>sg_server := sv\<rparr>)"
| connect: "serving_step cr ae nl cfg st s (s\<lparr>sg_tasks := sg_tasks s + mset (accept_conn nl l sc peer parts)\<rparr>)"
| turn: "sharing cr ae nl cfg st ho \<Longrightarrow> t \<in># sg_tasks s \<Longrightarrow> (\<And>parts. t = Api_task parts \<Longrightarrow> st_api st = Some ap) \<Longrightarrow>
    task_turn ho ae ap t (sg_server s) = Some (rest, sv, effs) \<Longrightarrow>
    serving_step cr ae nl cfg st s
      \<lparr>sg_server = sv, sg_tasks = sg_tasks s - {#t#} + (case rest of Some t' \<Rightarrow> {#t'#} | None \<Rightarrow> {#})\<rparr>"
| abandon: "t \<in># sg_tasks s \<Longrightarrow> serving_step cr ae nl cfg st s (s\<lparr>sg_tasks := sg_tasks s - {#t#}\<rparr>)"
| hangup: "reload ho fs cfg (st_signing st) (sc_resolver (sg_server s)) = Some rv \<Longrightarrow>
    serving_step cr ae nl cfg st s (s\<lparr>sg_server := (sg_server s)\<lparr>sc_resolver := rv\<rparr>\<rparr>)"
| timer: "resign_tick ho (st_signing st) (sc_resolver (sg_server s)) = Some rv \<Longrightarrow>
    serving_step cr ae nl cfg st s (s\<lparr>sg_server := (sg_server s)\<lparr>sc_resolver := rv\<rparr>\<rparr>)"
| refresh: "sec \<in> set (st_secondaries st) \<Longrightarrow>
    refresh_round sign check pr sec (sc_resolver (sg_server s)) = Some (wait, rv) \<Longrightarrow>
    serving_step cr ae nl cfg st s (s\<lparr>sg_server := (sg_server s)\<lparr>sc_resolver := rv\<rparr>\<rparr>)"
| meanwhile: "ho_crypto ho = cr \<Longrightarrow>
    (\<And>n rv. \<exists>s s'. sc_resolver (sg_server s) = rv \<and> rtranclp (serving_step cr ae nl cfg st) s s' \<and>
       sc_resolver (sg_server s') = ho_others ho n rv) \<Longrightarrow>
    sharing cr ae nl cfg st ho"

definition serving_start :: "started \<Rightarrow> serving" where
  "serving_start st = \<lparr>sg_server = st_server st, sg_tasks = {#}\<rparr>"

abbreviation served :: "crypto \<Rightarrow> api_env \<Rightarrow> net_lib \<Rightarrow> config \<Rightarrow> started \<Rightarrow> serving \<Rightarrow> bool" where
  "served cr ae nl cfg st s \<equiv> rtranclp (serving_step cr ae nl cfg st) (serving_start st) s"

section \<open>The contract\<close>

text \<open>The settings: everything but the resolver, the rate limiter and the journal.\<close>

definition same_settings :: "server_ctx \<Rightarrow> server_ctx \<Rightarrow> bool" where
  "same_settings sv0 sv \<longleftrightarrow>
     sv = sv0\<lparr>sc_resolver := sc_resolver sv, sc_limiter := sc_limiter sv, sc_journal := sc_journal sv\<rparr>"

text \<open>An invariant of the resolver with one of the journal, and the settings of an earlier state.\<close>

definition journal_law :: "(journal \<Rightarrow> bool) \<Rightarrow> bool" where
  "journal_law J \<longleftrightarrow> (\<forall>old new j. J j \<longrightarrow> J (journal_record old new j))"

definition server_inv :: "(resolver \<Rightarrow> bool) \<Rightarrow> (journal \<Rightarrow> bool) \<Rightarrow> server_ctx \<Rightarrow> server_ctx \<Rightarrow> bool" where
  "server_inv P J sv0 sv \<longleftrightarrow> P (sc_resolver sv) \<and> J (sc_journal sv) \<and> journal_law J \<and> same_settings sv0 sv"

text \<open>What the surroundings of a request guarantee: the crypto provider, and other tasks within the invariant.\<close>

definition good_host :: "(resolver \<Rightarrow> bool) \<Rightarrow> crypto \<Rightarrow> host \<Rightarrow> bool" where
  "good_host P cr ho \<longleftrightarrow> ho_crypto ho = cr \<and> (\<forall>n rv. P rv \<longrightarrow> P (ho_others ho n rv))"

lemma same_settings_simps [simp]:
  "same_settings sv0 (sv\<lparr>sc_resolver := rv\<rparr>) = same_settings sv0 sv"
  "same_settings sv0 (sv\<lparr>sc_limiter := l\<rparr>) = same_settings sv0 sv"
  "same_settings sv0 (sv\<lparr>sc_journal := j\<rparr>) = same_settings sv0 sv"
  by (cases sv; cases sv0; auto simp: same_settings_def)+

lemma server_inv_simps [simp]:
  "server_inv P J sv0 (sv\<lparr>sc_resolver := rv\<rparr>) \<longleftrightarrow> P rv \<and> J (sc_journal sv) \<and> journal_law J \<and> same_settings sv0 sv"
  "server_inv P J sv0 (sv\<lparr>sc_limiter := l\<rparr>) = server_inv P J sv0 sv"
  "server_inv P J sv0 (sv\<lparr>sc_journal := j\<rparr>) \<longleftrightarrow> P (sc_resolver sv) \<and> J j \<and> journal_law J \<and> same_settings sv0 sv"
  by (simp_all add: server_inv_def)

locale server_contract = lookup_contract +
  assumes inv_zones: "inv rv \<Longrightarrow> zones_sane (rv_zones rv)"
    and inv_set_zones: "inv rv \<Longrightarrow> zones_sane zs \<Longrightarrow> inv (set_zones zs rv)"
    and inv_signed: "inv rv \<Longrightarrow> inv (set_signed sm rv)"
    and inv_rpz: "inv rv \<Longrightarrow> inv (set_rpz rules rv)"
begin

lemma inv_resign: "inv rv \<Longrightarrow> resign c keys origins now validity nsec3 rv = Some rv' \<Longrightarrow> inv rv'"
  by (auto simp: resign_def inv_signed)

lemma inv_count: "server_inv inv J sv0 sv \<Longrightarrow> server_inv inv J sv0 (sv_count c sv)"
  by (simp add: sv_count_def server_inv_def inv_tick)

lemma inv_limited: "server_inv inv J sv0 sv \<Longrightarrow> limited ho peer sv = (b, sv') \<Longrightarrow> server_inv inv J sv0 sv'"
  by (auto simp: limited_def Let_def inv_count split: option.splits prod.splits)

lemma inv_observe: "server_inv inv J sv0 sv \<Longrightarrow> observe ho proto peer query resp sv = (sv', effs) \<Longrightarrow> server_inv inv J sv0 sv'"
  by (auto simp: observe_def Let_def server_inv_def inv_metrics)

lemma inv_pending:
  "good_host inv cr ho \<Longrightarrow> inv rv \<Longrightarrow> resolve_pending (ho_crypto ho) ou (ho_others ho) p rv = (m, rv') \<Longrightarrow> inv rv'"
  by (rule pending_known(1) [of "ho_others ho" rv ou p m]) (auto simp: good_host_def)

lemma inv_resolve:
  assumes "good_host inv cr ho" "inv rv"
    and "resolver_handle (ho_crypto ho) version ou (ho_others ho) query allowed client rv = Some (m, rv')"
  shows "inv rv'"
proof -
  obtain x rv1 where l: "resolve_local (ho_crypto ho) version query allowed client (ou_now ou) rv = Some (x, rv1)"
    using assms(3) by (auto simp: resolver_handle_def split: option.splits)
  have "inv rv1" using inv_local [OF assms(2)] l assms(1) by (simp add: good_host_def)
  then show ?thesis using assms(3) l inv_pending [OF assms(1)] by (cases x) (simp_all add: resolver_handle_def)
qed

lemma inv_query_bytes:
  assumes "good_host inv cr ho" "server_inv inv J sv0 sv" "handle_query_bytes ho data peer proto sv = Some (out, sv', effs)"
  shows "server_inv inv J sv0 sv'"
proof (cases "message_parse data")
  case (Inr query)
  then obtain resp rv where r: "resolver_handle (ho_crypto ho) (ho_version ho) (ho_outside ho) (ho_others ho) query
      (is_allowed (sc_acl sv) peer) peer (sc_resolver sv) = Some (resp, rv)"
    "observe ho proto peer query (attach_cookie ho (sv\<lparr>sc_resolver := rv\<rparr>) (strip_dnssec_unless_do resp query) query peer)
      (sv\<lparr>sc_resolver := rv\<rparr>) = (sv', effs)"
    using assms(3) by (auto simp: handle_query_bytes_def Let_def split: prod.splits)
  have "server_inv inv J sv0 (sv\<lparr>sc_resolver := rv\<rparr>)"
    using inv_resolve [OF assms(1) _ r(1)] assms(2) by (simp add: server_inv_def)
  then show ?thesis using inv_observe r(2) by blast
qed (use assms in \<open>auto simp: handle_query_bytes_def\<close>)

lemma inv_update:
  assumes "server_inv inv J sv0 sv" "handle_update ho peer query raw sv = Some (resp, sv', effs)"
  shows "server_inv inv J sv0 sv'"
proof -
  have "server_inv inv J sv0 sv'"
    if c: "find (\<lambda>z. z_origin z = origin) (rv_zones (sc_resolver sv)) = Some old"
      "apply_update (m_answers query) (m_authorities query) old = (upd, RCODE_NOERROR)"
      "commit_update ho up old (bump_serial upd) sv = Some (sv', effs)" for up origin old upd
  proof -
    let ?rv = "tick Zone_reloads (upsert_zone (bump_serial upd) (sc_resolver sv))"
    have i: "inv (sc_resolver sv)" "J (sc_journal sv)" "journal_law J" "same_settings sv0 sv" using assms(1) by (simp_all add: server_inv_def)
    then have "zone_sane (bump_serial upd)"
      using zones_sane_find [OF inv_zones c(1)] apply_update_sane [OF _ c(2)] bump_serial_sane by blast
    then have "inv ?rv" using i(1) by (simp add: inv_tick upsert_zone_list inv_set_zones inv_zones upsert_list_sane)
    then show ?thesis
      using c(3) i
      by (auto simp: commit_update_def resign_after_def Let_def journal_law_def split: option.splits if_splits dest: inv_resign)
  qed
  then show ?thesis using handle_update_commit [OF assms(2)] assms(1) by blast
qed

lemma inv_udp_query:
  assumes "good_host inv cr ho" "server_inv inv J sv0 sv" "udp_query ho peer query raw sv = Some (out, sv', effs)"
  shows "server_inv inv J sv0 sv'"
proof -
  have finish: "server_inv inv J sv0 sv'" if "inv rv" "finish_udp ho peer query resp (sv\<lparr>sc_resolver := rv\<rparr>) = (out, sv', effs)" for rv resp
  proof -
    have "server_inv inv J sv0 (sv\<lparr>sc_resolver := rv\<rparr>)" using assms(2) that(1) by (simp add: server_inv_def)
    from inv_observe [OF this] that(2) show ?thesis by (simp only: finish_udp_def Let_def prod.inject) blast
  qed
  have i: "inv (sc_resolver sv)" using assms(2) by (simp add: server_inv_def)
  have local: "server_inv inv J sv0 sv'"
    if l: "resolve_local (ho_crypto ho) (ho_version ho) query (is_allowed (sc_acl sv) peer) peer (ou_now (ho_outside ho)) (sc_resolver sv) =
        Some (x, rv)"
      "(case x of Done resp \<Rightarrow> finish_udp ho peer query resp (sv\<lparr>sc_resolver := rv\<rparr>)
        | Pending p \<Rightarrow> (case resolve_pending (ho_crypto ho) (ho_outside ho) (ho_others ho) p rv of
            (resp, rv') \<Rightarrow> finish_udp ho peer query resp (sv\<lparr>sc_resolver := rv'\<rparr>))) = (out, sv', effs)" for x rv
  proof -
    have "inv rv" using inv_local [OF i] l(1) assms(1) by (simp add: good_host_def)
    then show ?thesis using l(2) finish inv_pending [OF assms(1)] by (cases x; simp split: prod.splits; blast)
  qed
  show ?thesis
    using assms(2,3) local
    by (auto simp: udp_query_def handle_notify_def Let_def inv_count split: if_splits option.splits prod.splits outcome.splits
        list.splits dest: inv_update)
qed

lemma inv_udp_step:
  assumes "good_host inv cr ho" "server_inv inv J sv0 sv" "udp_step ho peer data sv = Some (out, sv', effs)"
  shows "server_inv inv J sv0 sv'"
proof -
  obtain b sv1 where l: "limited ho peer (sv_count Queries_udp sv) = (b, sv1)" by fastforce
  have i: "server_inv inv J sv0 sv1" using inv_limited [OF inv_count [OF assms(2)] l] .
  then have "inv (sc_resolver sv1)" by (simp add: server_inv_def)
  then show ?thesis
    using assms(3) l i inv_udp_query [OF assms(1) i]
    by (auto simp: udp_step_def Let_def server_inv_def inv_metrics split: if_splits option.splits sum.splits)
qed

lemma inv_transfer: "server_inv inv J sv0 sv \<Longrightarrow> transfer_out ho peer query raw sv = Some (frames, sv') \<Longrightarrow> server_inv inv J sv0 sv'"
  by (auto simp: transfer_out_def Let_def inv_count split: if_splits option.splits sum.splits list.splits)

lemma inv_stream_message:
  assumes "good_host inv cr ho" "server_inv inv J sv0 sv" "stream_message ho peer proto data sv = Some (out, sv', effs)"
  shows "server_inv inv J sv0 sv'"
  using assms(3) inv_query_bytes [OF assms(1,2)] inv_transfer [OF assms(2)] inv_update [OF assms(2)]
  unfolding stream_message_def Let_def by (auto split: sum.splits if_splits)

lemma inv_stream_turn:
  assumes "good_host inv cr ho" "server_inv inv J sv0 sv" "stream_turn ho peer proto stream sv = Some (rest, out, sv', effs)"
  shows "server_inv inv J sv0 sv'"
proof -
  obtain b sv1 where l: "limited ho peer (sv_count Queries_tcp sv) = (b, sv1)" by fastforce
  have i: "server_inv inv J sv0 sv1" using inv_limited [OF inv_count [OF assms(2)] l] .
  show ?thesis
    using assms(2,3) l i inv_stream_message [OF assms(1) i]
    by (auto simp: stream_turn_def Let_def split: if_splits option.splits)
qed

lemma inv_doh:
  assumes "good_host inv cr ho" "server_inv inv J sv0 sv"
  shows "serve_doh_conn ho peer parts sv = Some (out, sv', effs) \<Longrightarrow> server_inv inv J sv0 sv'"
    and "handle_h2_request ho peer mt path frames sv = Some (resp, sv', effs) \<Longrightarrow> server_inv inv J sv0 sv'"
    and "serve_doq_stream ho peer data sv = Some (out, sv', effs) \<Longrightarrow> server_inv inv J sv0 sv'"
proof -
  note query = inv_query_bytes [OF assms(1) inv_count [OF assms(2)]]
  show "serve_doh_conn ho peer parts sv = Some (out, sv', effs) \<Longrightarrow> server_inv inv J sv0 sv'"
    using assms(2) query inv_count [OF assms(2)]
    by (auto simp: serve_doh_conn_def doh_exchange_def Let_def split: head_result.splits if_splits option.splits)
  show "handle_h2_request ho peer mt path frames sv = Some (resp, sv', effs) \<Longrightarrow> server_inv inv J sv0 sv'"
    using assms(2) query inv_count [OF assms(2)] by (auto simp: handle_h2_request_def Let_def split: option.splits)
  show "serve_doq_stream ho peer data sv = Some (out, sv', effs) \<Longrightarrow> server_inv inv J sv0 sv'"
    using assms(2) query by (auto simp: serve_doq_stream_def Let_def split: if_splits)
qed

lemma inv_commit:
  assumes "server_inv inv J sv0 sv" "zones_sane zs" "commit_zones ho ap zs old new origin sv = Some (sv', effs)"
  shows "server_inv inv J sv0 sv'"
proof -
  have i: "inv (set_zones zs (sc_resolver sv))" using assms(1,2) by (simp add: server_inv_def inv_set_zones)
  then show ?thesis
    using assms(1,3) inv_resign [OF i]
    by (auto simp: commit_zones_def after_change_def server_inv_def Let_def journal_law_def
        split: option.splits if_splits prod.splits)
qed

lemma inv_create:
  assumes "server_inv inv J sv0 sv" "create_zone ho ae ap body sv = Some (r, sv', effs)"
  shows "server_inv inv J sv0 sv'"
  using assms(2)
proof (cases rule: create_zone_cases)
  case (created origin req z)
  have "wf_name origin" using parse_str_wf [OF created(2)] .
  then have "zone_sane z" "z_origin z = origin" using build_zone_wf [OF created(4)] wf_zone_sane by auto
  moreover have "zones_sane (rv_zones (sc_resolver sv))" using assms(1) inv_zones by (simp add: server_inv_def)
  ultimately have "zones_sane (rv_zones (sc_resolver sv) @ [z])" using created(3) zones_sane_snoc by simp
  then show ?thesis using inv_commit [OF assms(1) _ created(5)] by blast
qed (use assms(1) in simp)

lemma inv_patch:
  assumes "server_inv inv J sv0 sv" "patch_zone ho ae ap name body sv = Some (r, sv', effs)"
  shows "server_inv inv J sv0 sv'"
  using assms(2)
proof (cases rule: patch_zone_cases)
  case (patched req origin idx z)
  let ?zs = "rv_zones (sc_resolver sv)"
  have zs: "zones_sane ?zs" using assms(1) inv_zones by (simp add: server_inv_def)
  have i: "idx < length ?zs" using position_Some [OF patched(3)] by simp
  then have "zone_sane (?zs ! idx)" using zs by (simp add: zones_sane_def list_all_length)
  then have "zone_sane (bump_serial z)" "z_origin (bump_serial z) = z_origin (?zs ! idx)"
    using apply_rrsets_sane [OF patched(4)] bump_serial_sane by simp_all
  then have "zones_sane (?zs[idx := bump_serial z])" using zones_sane_replace [OF zs i] by blast
  then show ?thesis using inv_commit [OF assms(1) _ patched(5)] by blast
qed (use assms(1) in simp)

lemma inv_delete: "server_inv inv J sv0 sv \<Longrightarrow> delete_zone ap name sv = (r, sv', effs) \<Longrightarrow> server_inv inv J sv0 sv'"
  using zones_sane_remove inv_zones
  by (auto simp: delete_zone_def Let_def server_inv_def inv_set_zones split: sum.splits option.splits)

lemma inv_api:
  assumes "server_inv inv J sv0 sv" "serve_conn ho ae ap parts sv = Some (out, sv', effs)"
  shows "server_inv inv J sv0 sv'"
proof -
  have "server_inv inv J sv0 sv1" if "route ho ae ap mt path body sv = Some (r, sv1, effs1)" for mt path body r sv1 effs1
    using route_cases [OF that] assms(1)
    by (auto dest: inv_create [OF assms(1)] inv_patch [OF assms(1)] inv_delete [OF assms(1)])
  then show ?thesis
    using assms by (auto simp: serve_conn_def split: option.splits if_splits prod.splits)
qed

lemma inv_task_turn:
  assumes "good_host inv cr ho" "server_inv inv J sv0 sv" "task_turn ho ae ap t sv = Some (rest, sv', effs)"
  shows "server_inv inv J sv0 sv'"
  using assms(3) inv_stream_turn [OF assms(1,2)] inv_doh [OF assms(1,2)] inv_api [OF assms(2)] by (cases t) auto

lemma inv_reload:
  assumes "inv rv" "reload ho fs cfg signing rv = Some rv'"
  shows "inv rv'"
proof -
  have loaded: "inv (tick Zone_reloads (set_zones zs rv))" if "load_zones fs paths dir = Some (Inr zs)" for paths dir zs
    using assms(1) load_zones_ok [OF that] zones_ok_sane by (simp add: inv_tick inv_set_zones)
  obtain zones where z: "load_zones fs (cf_zones cfg) (cf_zone_dir cfg) = Some zones"
    using assms(2) by (auto simp: reload_def bind_eq_Some_conv)
  define rv1 where "rv1 = (case zones of Inr zs \<Rightarrow> tick Zone_reloads (set_zones zs rv) | Inl e \<Rightarrow> rv)"
  define rv2 where "rv2 = (case load_rpz fs cfg of Inr rules \<Rightarrow> set_rpz rules rv1 | Inl e \<Rightarrow> rv1)"
  have "inv rv1" using assms(1) loaded z by (auto simp: rv1_def split: sum.splits)
  then have i: "inv rv2" by (auto simp: rv2_def inv_rpz split: sum.splits)
  have "case signing of None \<Rightarrow> rv' = rv2
      | Some (keys, origins, validity, nsec3) \<Rightarrow>
          resign (ho_crypto ho) keys origins (ho_unix_now ho) validity nsec3 rv2 = Some rv'"
    using assms(2) z unfolding rv1_def rv2_def by (auto simp: reload_def Let_def split: option.splits)
  then show ?thesis using i inv_resign [OF i] by (auto split: option.splits)
qed

lemma inv_resign_tick: "inv rv \<Longrightarrow> resign_tick ho signing rv = Some rv' \<Longrightarrow> inv rv'"
  by (auto simp: resign_tick_def inv_tick split: option.splits dest: inv_resign)

lemma inv_refresh:
  assumes "inv rv" "wf_name (se_origin sec)" "refresh_round sign check pr sec rv = Some (wait, rv')"
  shows "inv rv'"
proof -
  have "inv rv'" if "inv rv" "refresh_loop sign check pr sec current ps rv = Some (wait, rv')" for current ps
    using that
  proof (induction ps)
    case (Cons p ps)
    have pulled: "inv (tick Axfr_in (upsert_zone z rv))"
      if "axfr_pull sign check ex now clock i (se_origin sec) key = Some (Inr z)" for z ex now clock i key
    proof -
      have "zone_sane z" using axfr_pull_zone [OF that] assms(2) wf_zone_sane by simp
      then show ?thesis
        using Cons.prems(1) by (simp add: inv_tick upsert_zone_list inv_set_zones inv_zones upsert_list_sane)
    qed
    show ?case
      using Cons pulled by (auto split: sum.splits if_splits option.splits)
  qed simp
  then show ?thesis using assms(1,3) by (simp add: refresh_round_def)
qed

text \<open>
  Every step keeps the invariant when the tasks in between do, and they do, as
  they take such steps themselves.
\<close>

lemma inv_step:
  assumes "\<And>sec. sec \<in> set (st_secondaries st) \<Longrightarrow> wf_name (se_origin sec)"
  shows "serving_step cr ae nl cfg st s s' \<Longrightarrow>
      (\<And>J sv0. server_inv inv J sv0 (sg_server s) \<Longrightarrow> server_inv inv J sv0 (sg_server s'))"
    and "sharing cr ae nl cfg st ho \<Longrightarrow> good_host inv cr ho"
proof (induction rule: serving_step_sharing.inducts)
  case (datagram ho peer data s out sv effs)
  then show ?case using inv_udp_step by (simp; blast)
next
  case (turn ho t s ap rest sv effs)
  then show ?case using inv_task_turn by (simp; blast)
next
  case (hangup ho fs s rv)
  then show ?case using inv_reload by (simp add: server_inv_def; blast)
next
  case (timer ho s rv)
  then show ?case using inv_resign_tick by (simp add: server_inv_def; blast)
next
  case (refresh sec sign check pr s wait rv)
  then show ?case using inv_refresh assms by (simp add: server_inv_def; blast)
next
  case (meanwhile ho)
  have "inv (ho_others ho n rv)" if "inv rv" for n rv
  proof -
    obtain s s' where s: "sc_resolver (sg_server s) = rv" "sc_resolver (sg_server s') = ho_others ho n rv"
      "rtranclp (\<lambda>s s'. serving_step cr ae nl cfg st s s' \<and>
         (\<forall>J sv0. server_inv inv J sv0 (sg_server s) \<longrightarrow> server_inv inv J sv0 (sg_server s'))) s s'"
      using meanwhile by blast
    have "server_inv inv (\<lambda>_. True) (sg_server s) (sg_server s')"
      using s(3)
    proof (induction rule: rtranclp_induct)
      case base
      then show ?case using that s(1) by (simp add: server_inv_def journal_law_def same_settings_def)
    qed blast
    then show ?thesis using s(2) by (simp add: server_inv_def)
  qed
  then show ?case using meanwhile(1) by (simp add: good_host_def)
qed simp_all

lemma inv_served:
  assumes "served cr ae nl cfg st s" "server_inv inv J sv0 (st_server st)"
    and "\<And>sec. sec \<in> set (st_secondaries st) \<Longrightarrow> wf_name (se_origin sec)"
  shows "server_inv inv J sv0 (sg_server s)"
  using assms(1)
proof (induction rule: rtranclp_induct)
  case base
  then show ?case using assms(2) by (simp add: serving_start_def)
next
  case (step s s')
  then show ?case using inv_step(1) [OF assms(3)] by blast
qed

end

section \<open>The shape of the state\<close>

text \<open>Lookups leave the zones alone, and the capacity of the cache.\<close>

lemma source_query_keeps:
  "source_query ou via n t dnssec rv = (r, rv') \<Longrightarrow> rv_zones rv' = rv_zones rv \<and> rv_cache rv' = rv_cache rv"
  by (auto simp: source_query_def split: route.splits option.splits prod.splits)

lemma fetch_validated_keeps:
  "fetch_validated c ou via n t rv = (r, rv') \<Longrightarrow> rv_zones rv' = rv_zones rv \<and> rv_cache rv' = rv_cache rv"
  by (auto simp: fetch_validated_def split: option.splits prod.splits sum.splits security.splits dest: source_query_keeps)

lemma leader_lookup_keeps:
  "leader_lookup c ou n t rv = (r, rv') \<Longrightarrow> rv_zones rv' = rv_zones rv \<and>
     (rv_cache rv' = rv_cache rv \<or> (\<exists>k rc as au sec now. rv_cache rv' = cache_insert (rv_cache rv) k rc as au sec now))"
  by (fastforce simp: leader_lookup_def Let_def tick_def split: option.splits prod.splits sum.splits dest!: fetch_validated_keeps)

lemma direct_lookup_keeps:
  "direct_lookup ou n t rv = (r, rv') \<Longrightarrow> rv_zones rv' = rv_zones rv \<and> rv_cache rv' = rv_cache rv"
  by (auto simp: direct_lookup_def split: option.splits prod.splits sum.splits dest: source_query_keeps)

lemma cache_get_keeps:
  "resolver_cache_get k now rv = (r, rv') \<Longrightarrow> rv_zones rv' = rv_zones rv \<and> rv_cache rv' = fst (cache_get (rv_cache rv) k now)"
  by (auto simp: resolver_cache_get_def Let_def tick_def split: prod.splits if_splits)

lemma cache_capacity [simp]:
  "ca_max_entries (fst (cache_get c k now)) = ca_max_entries c"
  "ca_max_entries (cache_insert c k rc as au sec now) = ca_max_entries c"
  by (auto simp: cache_get_def cache_insert_def Let_def split: option.splits if_splits)

definition shape :: "nat \<Rightarrow> resolver \<Rightarrow> bool" where
  "shape cap rv \<longleftrightarrow> zones_sane (rv_zones rv) \<and> cache_ok (rv_cache rv) \<and> ca_max_entries (rv_cache rv) = cap"

interpretation shape_serving: server_contract cr "shape cap" "\<lambda>_ _ _. True" for cr cap
proof unfold_locales
  fix rv assume ok: "shape cap rv"
  then show "shape cap (rv\<lparr>rv_metrics := mt\<rparr>)" "shape cap (rv\<lparr>rv_flight := f\<rparr>)" "shape cap (set_signed sm rv)"
    "shape cap (set_rpz rules rv)" "zones_sane (rv_zones rv)" "zones_sane zs \<Longrightarrow> shape cap (set_zones zs rv)" for mt f sm rules zs
    by (simp_all add: shape_def set_signed_def set_rpz_def set_zones_def)
  show "shape cap rv'" if "resolver_cache_get \<lparr>ck_qname = n, ck_qtype = t\<rparr> now rv = (r, rv')" for n t now r rv'
    using cache_get_keeps [OF that] ok cache_get_ok by (simp add: shape_def)
  show "shape cap rv'" if "leader_lookup cr ou n t rv = (x, rv')" for ou n t x rv'
    using leader_lookup_keeps [OF that] ok cache_insert_ok by (auto simp: shape_def)
  show "shape cap rv'" if "direct_lookup ou n t rv = (x, rv')" for ou n t x rv'
    using direct_lookup_keeps [OF that] ok by (simp add: shape_def)
qed simp_all

section \<open>The AD bit\<close>

definition validating :: "crypto \<Rightarrow> trust_anchor list \<Rightarrow> resolver \<Rightarrow> bool" where
  "validating cr anchors rv \<longleftrightarrow> zones_sane (rv_zones rv) \<and> resolver_ok cr anchors rv"

interpretation ad_serving: server_contract cr "validating cr anchors" "hit_sound cr anchors" for cr anchors
proof unfold_locales
  fix rv assume ok: "validating cr anchors rv"
  then have r: "resolver_ok cr anchors rv" and z: "zones_sane (rv_zones rv)" by (simp_all add: validating_def)
  show "validating cr anchors (rv\<lparr>rv_metrics := mt\<rparr>)" "validating cr anchors (rv\<lparr>rv_flight := f\<rparr>)" for mt f
    using ok validated_lookup.inv_metrics validated_lookup.inv_flight by (simp_all add: validating_def)
  show "validating cr anchors (set_signed sm rv)" "validating cr anchors (set_rpz rules rv)" "zones_sane (rv_zones rv)"
    "zones_sane zs \<Longrightarrow> validating cr anchors (set_zones zs rv)" for sm rules zs
    using ok by (simp_all add: validating_def resolver_ok_def recursor_ok_def set_signed_def set_rpz_def set_zones_def)
  show "validating cr anchors rv'" if "resolver_cache_get \<lparr>ck_qname = n, ck_qtype = t\<rparr> now rv = (x, rv')" for n t now x rv'
    using cache_get_keeps [OF that] validated_lookup.inv_get [OF r that] z by (simp add: validating_def)
  show "hit_sound cr anchors n t h" if "resolver_cache_get \<lparr>ck_qname = n, ck_qtype = t\<rparr> now rv = (Some h, rv')" for n t now h rv'
    by (rule validated_lookup.get_known [OF r that])
  show "validating cr anchors rv'" if "leader_lookup cr ou n t rv = (x, rv')" for ou n t x rv'
    using leader_lookup_keeps [OF that] validated_lookup.inv_leader [OF r that] z by (simp add: validating_def)
  show "hit_sound cr anchors n t h" if "leader_lookup cr ou n t rv = (Inr h, rv')" for ou n t h rv'
    by (rule validated_lookup.leader_known [OF r that])
  show "validating cr anchors rv'" if "direct_lookup ou n t rv = (x, rv')" for ou n t x rv'
    using direct_lookup_keeps [OF that] validated_lookup.inv_direct [OF r that] z by (simp add: validating_def)
  show "hit_sound cr anchors n t h" if "direct_lookup ou n t rv = (Inr h, rv')" for ou n t h rv'
    by (rule validated_lookup.direct_known [OF r that])
  show "hit_sound cr anchors n t h"
    if "cache_get_stale (rv_cache rv) \<lparr>ck_qname = n, ck_qtype = t\<rparr> now = Some h" for n t now h
    by (rule validated_lookup.stale_known [OF r that])
qed

section \<open>From the start on\<close>

lemma load_secondaries_wf: "load_secondaries cfg sds = Inr ss \<Longrightarrow> sec \<in> set ss \<Longrightarrow> wf_name (se_origin sec)"
  by (induction sds arbitrary: ss) (use parse_str_wf in \<open>fastforce simp: and_then_eq_Inr_iff map_err_eq_Inr_iff\<close>)+

lemma start_journal_ok: "start_journal fs dir = Some (Inr j) \<Longrightarrow> journal_ok j"
  by (auto simp: start_journal_def journal_with_dir_def journal_ok_def [of Map.empty] split: option.splits if_splits intro: journal_load_ok)

lemma start_signing_keeps:
  "start_signing ho kl fs cfg rv = Some (Inr (rv', signing, effs)) \<Longrightarrow>
     rv_cache rv' = rv_cache rv \<and> rv_validator rv' = rv_validator rv \<and> rv_recursor rv' = rv_recursor rv"
  by (auto simp: start_signing_def start_then_Inr Let_def resign_def set_signed_def split: option.splits prod.splits)

lemma startup_inv:
  assumes "startup ho kl fs ck cfg = Some (Inr st)"
  shows "shape (max (cf_max_entries cfg) 1) (sc_resolver (st_server st))" "journal_ok (sc_journal (st_server st))"
    and "\<And>sec. sec \<in> set (st_secondaries st) \<Longrightarrow> wf_name (se_origin sec)"
    and "rv_validator (sc_resolver (st_server st)) = Some anchors \<Longrightarrow> validating cr anchors (sc_resolver (st_server st))"
proof -
  obtain acl tacl opts rv signing effs j where
    o: "load_options fs cfg = Some (Inr (acl, tacl, opts))"
    and s: "start_signing ho kl fs cfg (resolver_new root_ksk_2017 opts metrics_new) = Some (Inr (rv, signing, effs))"
      "sc_resolver (st_server st) = rv"
    and j: "start_journal fs (cf_journal_dir cfg) = Some (Inr j)" "sc_journal (st_server st) = j"
    and sec: "load_secondaries cfg (cf_secondaries cfg) = Inr (st_secondaries st)"
    using assms by (auto simp: startup_def start_then_Inr split: prod.splits)
  show "journal_ok (sc_journal (st_server st))" using start_journal_ok j by simp
  show "wf_name (se_origin sec)" if "sec \<in> set (st_secondaries st)" for sec by (rule load_secondaries_wf [OF sec that])
  have z: "zones_sane (rv_zones rv)" using load_zones_ok [OF startup_zones [OF assms]] zones_ok_sane s(2) by simp
  have size: "ro_cache_size opts = cf_max_entries cfg" using o by (auto simp: load_options_def Let_def start_then_Inr)
  note k = start_signing_keeps [OF s(1)]
  have c: "rv_cache rv = cache_new (max (cf_max_entries cfg) 1)" using k size by (simp add: resolver_new_def)
  then show "shape (max (cf_max_entries cfg) 1) (sc_resolver (st_server st))"
    using z s(2) by (simp add: shape_def cache_new_def cache_ok_def)
  show "validating cr anchors (sc_resolver (st_server st))" if "rv_validator (sc_resolver (st_server st)) = Some anchors"
    using z s(2) that c k by (auto simp: validating_def resolver_ok_def recursor_ok_def resolver_new_def recursor_new_def answers_ok_def)
qed

lemma ad_resolve:
  assumes "good_host (validating cr anchors) cr ho" "validating cr anchors rv"
    and "resolver_handle (ho_crypto ho) version ou (ho_others ho) query allowed client rv = Some (m, rv')"
  shows "ad_sound cr anchors query m"
proof -
  have cr: "ho_crypto ho = cr" using assms(1) by (simp add: good_host_def)
  obtain x rv1 where l: "resolve_local cr version query allowed client (ou_now ou) rv = Some (x, rv1)"
    using assms(3) cr by (auto simp: resolver_handle_def split: option.splits)
  have ok: "outcome_ok cr anchors query (x, rv1)" using resolve_local_ok [OF _ l] assms(2) by (simp add: validating_def)
  have i: "validating cr anchors rv1" by (rule ad_serving.inv_local [OF assms(2) l])
  show ?thesis
  proof (cases x)
    case (Pending p)
    then have "resolve_pending cr ou (ho_others ho) p rv1 = (m, rv')" using assms(3) l cr by (simp add: resolver_handle_def)
    note k = ad_serving.pending_known(2) [OF _ i this]
    have "pending_ok query p" using ok Pending by (simp add: outcome_ok_def)
    then show ?thesis by (rule pending_sound) (use assms(1) k in \<open>simp add: good_host_def\<close>)
  qed (use assms(3) l cr ok in \<open>simp add: resolver_handle_def outcome_ok_def\<close>)
qed

lemma attach_cookie_frame [simp]:
  "m_flags (attach_cookie ho sv resp query ip) = m_flags resp" "m_answers (attach_cookie ho sv resp query ip) = m_answers resp"
  by (auto simp: attach_cookie_def Let_def split: option.splits)

lemma strip_dnssec_frame:
  "m_flags (strip_dnssec_unless_do resp query) = m_flags resp"
  "set (m_answers (strip_dnssec_unless_do resp query)) \<subseteq> set (m_answers resp)"
  by (auto simp: strip_dnssec_unless_do_def Let_def)

text \<open>A query over UDP that is neither a NOTIFY, nor an update, nor challenged, is answered as one over a stream.\<close>

lemma udp_query_resolves:
  assumes "fl_opcode (m_flags query) \<noteq> OPCODE_NOTIFY" "fl_opcode (m_flags query) \<noteq> OPCODE_UPDATE"
    and "cookie_challenge ho sv query peer = None"
  shows "udp_query ho peer query raw sv =
    map_option (\<lambda>(resp, rv). finish_udp ho peer query resp (sv\<lparr>sc_resolver := rv\<rparr>))
      (resolver_handle (ho_crypto ho) (ho_version ho) (ho_outside ho) (ho_others ho) query (is_allowed (sc_acl sv) peer) peer
        (sc_resolver sv))"
  using assms by (auto simp: udp_query_def resolver_handle_def split: option.splits outcome.splits prod.splits)

definition ad_reply :: "crypto \<Rightarrow> trust_anchor list \<Rightarrow> message \<Rightarrow> message \<Rightarrow> bool" where
  "ad_reply cr anchors query m \<longleftrightarrow>
     (fl_ad (m_flags m) \<longrightarrow> (\<exists>q answers. m_questions query = [q] \<and> set (m_answers m) \<subseteq> set answers \<and>
        validated cr anchors \<lparr>ck_qname = q_name q, ck_qtype = q_type q\<rparr> answers))"

lemma ad_reply_finish:
  "ad_sound cr anchors query resp \<Longrightarrow> ad_reply cr anchors query (attach_cookie ho sv (strip_dnssec_unless_do resp query) query peer)"
  using strip_dnssec_frame [of resp query] by (auto simp: ad_sound_def ad_reply_def)

lemma ad_stream_query:
  assumes "good_host (validating cr anchors) cr ho" "validating cr anchors (sc_resolver sv)"
    and "message_parse data = Inr query" "handle_query_bytes ho data peer proto sv = Some (out, rest)"
  shows "\<exists>m. out = encode_limited m 65535 \<and> ad_reply cr anchors query m"
proof -
  obtain resp rv where r: "resolver_handle (ho_crypto ho) (ho_version ho) (ho_outside ho) (ho_others ho) query
      (is_allowed (sc_acl sv) peer) peer (sc_resolver sv) = Some (resp, rv)"
    "out = encode_limited (attach_cookie ho (sv\<lparr>sc_resolver := rv\<rparr>) (strip_dnssec_unless_do resp query) query peer) 65535"
    using assms(3,4) by (auto simp: handle_query_bytes_def Let_def split: prod.splits)
  then show ?thesis using ad_reply_finish [OF ad_resolve [OF assms(1,2) r(1)]] by blast
qed

lemma cookie_challenge_ad: "cookie_challenge ho sv query peer = Some resp \<Longrightarrow> \<not> fl_ad (m_flags resp)"
  by (auto simp: cookie_challenge_def Let_def response_to_def set_rcode_def flags_default_def message_new_def split: if_splits option.splits)

lemma ad_udp_query:
  assumes "good_host (validating cr anchors) cr ho" "validating cr anchors (sc_resolver sv)"
    and "fl_opcode (m_flags query) = 0" "udp_query ho peer query raw sv = Some (out, rest)"
  shows "\<exists>m. out \<in> {encode_limited m (udp_limit query), message_encode m} \<and> ad_reply cr anchors query m"
proof (cases "cookie_challenge ho sv query peer")
  case None
  then obtain resp rv where r: "resolver_handle (ho_crypto ho) (ho_version ho) (ho_outside ho) (ho_others ho) query
      (is_allowed (sc_acl sv) peer) peer (sc_resolver sv) = Some (resp, rv)"
    "finish_udp ho peer query resp (sv\<lparr>sc_resolver := rv\<rparr>) = (out, rest)"
    using assms(3,4) by (auto simp: udp_query_resolves)
  then show ?thesis using ad_reply_finish [OF ad_resolve [OF assms(1,2) r(1)]] by (auto simp: finish_udp_def Let_def)
next
  case (Some resp)
  then have "out = message_encode resp" using assms(3,4) by (simp add: udp_query_def)
  then show ?thesis using cookie_challenge_ad [OF Some] by (auto simp: ad_reply_def)
qed

section \<open>Properties\<close>

text \<open>
  C12: The state of a server in every run.  From the start on, through every
  interleaving of datagrams, turns of the tasks of TCP, DoT, DoH, DoQ and
  management connections, reloads, renewals of the signatures and refreshes of
  secondary zones, the zones are sane and have distinct origins, the cache
  never holds more entries than configured, no journal is deeper than 64
  changes, and nothing else of the server but its rate limiter has changed.
\<close>
theorem serving_invariant:
  assumes "startup ho kl fs ck cfg = Some (Inr st)" "served cr ae nl cfg st s"
  shows "zones_sane (rv_zones (sc_resolver (sg_server s))) \<and>
    cache_len (rv_cache (sc_resolver (sg_server s))) \<le> max (cf_max_entries cfg) 1 \<and>
    (\<forall>origin ds. sc_journal (sg_server s) origin = Some ds \<longrightarrow> length ds \<le> 64) \<and>
    sg_server s = (st_server st)\<lparr>sc_resolver := sc_resolver (sg_server s), sc_limiter := sc_limiter (sg_server s),
      sc_journal := sc_journal (sg_server s)\<rparr>"
proof -
  have "server_inv (shape (max (cf_max_entries cfg) 1)) journal_ok (st_server st) (st_server st)"
    using startup_inv(1,2) [OF assms(1)] by (simp add: server_inv_def journal_law_def journal_record_ok same_settings_def)
  then have "server_inv (shape (max (cf_max_entries cfg) 1)) journal_ok (st_server st) (sg_server s)"
    by (rule shape_serving.inv_served [OF assms(2) _ startup_inv(3) [OF assms(1)]])
  then show ?thesis
    by (simp add: server_inv_def shape_def cache_ok_def cache_len_def journal_ok_def same_settings_def)
qed

text \<open>
  C4: The AD bit in every run.  A server that validates against the anchors it
  was started with answers every query in any state it can come to, over UDP
  as over a stream, with the encoding of a message that has AD set only when
  its answers are among those of a message for the very question that
  validates against these anchors.
\<close>
theorem served_ad_sound:
  assumes "startup ho0 kl fs ck cfg = Some (Inr st)" "rv_validator (sc_resolver (st_server st)) = Some anchors"
    and "served cr ae nl cfg st s" "sharing cr ae nl cfg st ho"
  shows "(\<forall>data query proto out sv effs. message_parse data = Inr query \<longrightarrow>
      handle_query_bytes ho data peer proto (sg_server s) = Some (out, sv, effs) \<longrightarrow>
      (\<exists>m. out = encode_limited m 65535 \<and> ad_reply cr anchors query m)) \<and>
    (\<forall>data query out sv effs. message_parse (take 4096 data) = Inr query \<longrightarrow> fl_opcode (m_flags query) = 0 \<longrightarrow>
      udp_step ho peer data (sg_server s) = Some (Some out, sv, effs) \<longrightarrow>
      (\<exists>m. out \<in> {encode_limited m (udp_limit query), message_encode m} \<and> ad_reply cr anchors query m))"
proof -
  note start = startup_inv(3,4) [OF assms(1)]
  have "server_inv (validating cr anchors) (\<lambda>_. True) (st_server st) (st_server st)"
    using start(2) [OF assms(2)] by (simp add: server_inv_def journal_law_def same_settings_def)
  then have i: "server_inv (validating cr anchors) (\<lambda>_. True) (st_server st) (sg_server s)"
    by (rule ad_serving.inv_served [OF assms(3) _ start(1)])
  have g: "good_host (validating cr anchors) cr ho" by (rule ad_serving.inv_step(2) [OF start(1) assms(4)])
  have "\<exists>m. out \<in> {encode_limited m (udp_limit query), message_encode m} \<and> ad_reply cr anchors query m"
    if d: "message_parse (take 4096 data) = Inr query" "fl_opcode (m_flags query) = 0"
      "udp_step ho peer data (sg_server s) = Some (Some out, sv, effs)" for data query out sv effs
  proof -
    obtain b sv1 where l: "limited ho peer (sv_count Queries_udp (sg_server s)) = (b, sv1)" by fastforce
    have "server_inv (validating cr anchors) (\<lambda>_. True) (st_server st) sv1"
      by (rule ad_serving.inv_limited [OF ad_serving.inv_count [OF i] l])
    moreover obtain rest where "udp_query ho peer query (take 4096 data) sv1 = Some (out, rest)"
      using d(1,3) l by (auto simp: udp_step_def Let_def split: if_splits)
    ultimately show ?thesis using ad_udp_query [OF g _ d(2)] unfolding server_inv_def by blast
  qed
  moreover have "\<exists>m. out = encode_limited m 65535 \<and> ad_reply cr anchors query m"
    if "message_parse data = Inr query" "handle_query_bytes ho data peer proto (sg_server s) = Some (out, sv, effs)"
    for data query proto out sv effs
    using ad_stream_query [OF g _ that] i by (simp add: server_inv_def)
  ultimately show ?thesis by blast
qed

section \<open>Examples\<close>

definition sample_validating :: config where
  "sample_validating = sample_config\<lparr>cf_recursion := recursion_default\<lparr>rn_validate := True\<rparr>\<rparr>"

definition sample_net :: net_lib where
  "sample_net = \<lparr>nl_tls = (\<lambda>_ _. None), nl_h2 = (\<lambda>_. None), nl_quic = (\<lambda>_ _. None)\<rparr>"

lemma sample_validating_startup:
  "\<exists>st. startup sample_host sample_keys sample_files \<lparr>ck_k0 = 3, ck_k1 = 4\<rparr> sample_validating = Some (Inr st) \<and>
     rv_validator (sc_resolver (st_server st)) = Some [root_ksk_2017] \<and> sc_limiter (st_server st) = None"
proof -
  obtain z where "load_zones sample_files [] (Some ''/z'') = Some (Inr [z])" using sample_loads by blast
  then show ?thesis
    using sample_networks
    by (simp add: startup_def load_options_def start_then_def sample_validating_def sample_config_def config_default_def
        recursion_default_def load_rpz_def load_anchors_def build_keyring_def start_journal_def start_signing_def load_dnssec_keys_def
        dnssec_default_def nsec3_settings_def required_key_def update_settings_def resolver_new_def Let_def)
qed

lemma sample_sharing: "sharing sample_crypto ae nl cfg st sample_host"
proof (rule meanwhile)
  show "\<exists>s s'. sc_resolver (sg_server s) = rv \<and> rtranclp (serving_step sample_crypto ae nl cfg st) s s' \<and>
      sc_resolver (sg_server s') = ho_others sample_host n rv" for n rv
    by (rule exI [of _ "\<lparr>sg_server = sample_server\<lparr>sc_resolver := rv\<rparr>, sg_tasks = {#}\<rparr>"])+ (simp add: sample_host_def)
qed (simp add: sample_host_def)

text \<open>A client connects over TCP and closes the connection again.\<close>

definition sample_open :: "started \<Rightarrow> serving" where
  "sample_open st = \<lparr>sg_server = st_server st, sg_tasks = {#Stream_task (V4 1) ''tcp'' []#}\<rparr>"

lemma sample_served: "served sample_crypto ae nl cfg st (sample_open st)" "served sample_crypto ae nl cfg st (serving_start st)"
  and sample_closed: "serving_step sample_crypto ae nl cfg st (sample_open st) (serving_start st)"
proof -
  have "serving_step sample_crypto ae nl cfg st (serving_start st) (sample_open st)"
    using connect [of sample_crypto ae nl cfg st "serving_start st" Tcp_listener undefined "V4 1" "[]"]
    by (simp add: serving_start_def sample_open_def serve_tcp_conn_def)
  then show "served sample_crypto ae nl cfg st (sample_open st)" by blast
  have "task_turn sample_host ae sample_api (Stream_task (V4 1) ''tcp'' []) (st_server st) = Some (None, st_server st, [])"
    by (simp add: stream_turn_def read_frame_def)
  then show "serving_step sample_crypto ae nl cfg st (sample_open st) (serving_start st)"
    using turn [OF sample_sharing, of "Stream_task (V4 1) ''tcp'' []" "sample_open st" st sample_api ae None "st_server st" "[]" nl cfg]
    by (simp add: sample_open_def serving_start_def)
qed simp

theorem serving_invariant_witness:
  "\<exists>st. startup sample_host sample_keys sample_files \<lparr>ck_k0 = 3, ck_k1 = 4\<rparr> sample_validating = Some (Inr st) \<and>
     served sample_crypto sample_api_env sample_net sample_validating st (sample_open st) \<and>
     zones_sane (rv_zones (sc_resolver (sg_server (sample_open st))))"
  using sample_validating_startup sample_served(1) serving_invariant by blast

text \<open>An empty message is a query without a question.\<close>

lemma sample_empty_query:
  "case message_parse (replicate 12 0) of
     Inr query \<Rightarrow> m_questions query = [] \<and> m_edns query = None \<and> fl_opcode (m_flags query) = 0
   | Inl e \<Rightarrow> False"
  by code_simp

theorem served_ad_sound_witness:
  "\<exists>st query out sv effs m. startup sample_host sample_keys sample_files \<lparr>ck_k0 = 3, ck_k1 = 4\<rparr> sample_validating = Some (Inr st) \<and>
     handle_query_bytes sample_host (replicate 12 0) (V4 1) ''tcp'' (sg_server (sample_open st)) = Some (out, sv, effs) \<and>
     out = encode_limited m 65535 \<and> ad_reply sample_crypto [root_ksk_2017] query m"
proof -
  obtain st where st: "startup sample_host sample_keys sample_files \<lparr>ck_k0 = 3, ck_k1 = 4\<rparr> sample_validating = Some (Inr st)"
    "rv_validator (sc_resolver (st_server st)) = Some [root_ksk_2017]"
    using sample_validating_startup by blast
  obtain query where q: "message_parse (replicate 12 0) = Inr query" "m_questions query = []" "m_edns query = None" "fl_opcode (m_flags query) = 0"
    using sample_empty_query by (auto split: sum.splits)
  then have "handle_query_bytes sample_host (replicate 12 0) (V4 1) ''tcp'' (sg_server (sample_open st)) \<noteq> None"
    by (simp add: handle_query_bytes_def resolver_handle_def resolve_local_def resolve_checked_def Let_def)
  then obtain out sv effs where
    h: "handle_query_bytes sample_host (replicate 12 0) (V4 1) ''tcp'' (sg_server (sample_open st)) = Some (out, sv, effs)"
    by auto
  from served_ad_sound [OF st sample_served(1) [where ae = sample_api_env and nl = sample_net] sample_sharing, THEN conjunct1, rule_format, OF q(1) h]
  show ?thesis using st(1) h by blast
qed

end
