(* ===== verification/Spec2Isabelle.thy ===== *)
theory Spec2Isabelle
  imports Dns_Message Dns_Zone Dns_Cache Guard Dns_Tsig Base_N Dnssec_Rr Signed_Zone Validator
    Dns_Xfr Dns_Metrics Flight Upstream Recursor Rpz Resolver Server Server_Transfer Server_Gates Secondary
    Zone_Roundtrip Journal_File Doh Settings Api Startup Running Zone_Sane Zone_Writers
    Tls_Setup Listeners Serving
begin

text \<open>
  A verification library for \<open>rdns\<close>, a DNS server in Rust: authoritative zones
  with DNSSEC signing, zone transfers and dynamic updates, a validating
  recursive and forwarding resolver with a cache, transports over UDP, TCP,
  TLS, QUIC and HTTPS, and an HTTP interface to manage the zones.  The sources
  are the crates under \<open>src/crates\<close>.

  \<^bold>\<open>Parts of the program and the theories that model them.\<close>

  \<^item> \<open>Prelude\<close>, \<open>Rust_Text\<close>, \<open>Codec\<close>: bytes and words (\<open>u8\<close> .. \<open>u128\<close> as words of
    their width), slices and out-of-range reads, results as sums (\<open>Inl\<close> the
    error), strings as their UTF-8 bytes, and the locale of codecs whose
    decoder reads back at an offset what the encoder appended there.
  \<^item> \<open>Ip_Text\<close>, \<open>Utf8_Text\<close>, \<open>Http_Text\<close>, \<open>File_Path\<close>: what the sources use of the
    standard library on texts (addresses, UTF-8 with replacement, lines,
    splitting, paths) and the loop that reads a request head and body.
  \<^item> \<open>Dns_Name\<close> (\<open>dns-proto/src/name.rs\<close>): labels, validation, text form, the
    wire decoder with compression pointers and the encoder with its
    compressor.  \<open>Dns_Record\<close> and \<open>Dns_Message\<close> (\<open>dns-proto/src/message.rs\<close>):
    record data, records, EDNS, TSIG records, messages.
  \<^item> \<open>Dns_Zone\<close> (\<open>dns-zone/src/lib.rs\<close>): the record store, \<open>lookup\<close> with
    wildcards and the CNAME chase, assembly from records, edits, RFC 2136
    updates.  The node map is an association list.  \<open>Zone_Text\<close>: the tokenizer
    and the reader of zone files with \<open>$ORIGIN\<close>, \<open>$TTL\<close> and \<open>$GENERATE\<close>, the text of
    record data (\<open>RData::text\<close>) and the writer; \<open>Zone_Roundtrip\<close>: what one
    writes the other reads.
  \<^item> \<open>Dns_Cache\<close> (\<open>dns-cache\<close>): entries with lifetimes, stale data, eviction.
    \<open>Guard\<close> (\<open>dns-guard\<close>): networks, token buckets, cookies.  \<open>Dns_Metrics\<close>
    (\<open>dns-metrics\<close>): counters and the latency histogram.
  \<^item> \<open>Dns_Tsig\<close> (\<open>dns-tsig\<close>) and \<open>Base_N\<close> (the base64 and base32hex code of four
    crates).
  \<^item> \<open>Dnssec_Rr\<close>, \<open>Signed_Zone\<close> (\<open>dns-dnssec\<close>): DNSSEC record formats, signing and
    verification, signed zones and denial of existence.  \<open>Validator\<close>
    (\<open>dns-resolver/src/validator.rs\<close>): the chain of trust.
  \<^item> \<open>Flight\<close>, \<open>Upstream\<close>, \<open>Recursor\<close>, \<open>Rpz\<close>, \<open>Resolver\<close> (\<open>dns-resolver/src\<close>):
    merging of identical lookups, forwarding with failover, iterative
    resolution, response policy, and the resolver that composes them with
    zones, cache and validator.
  \<^item> \<open>Dns_Xfr\<close>, \<open>Secondary\<close> (\<open>dns-xfr/src/lib.rs\<close>): AXFR and IXFR answers, the
    journal, the client of a transfer, the refresh loop of a secondary.
    \<open>Journal_File\<close>: the copy of the journal on disk.
  \<^item> \<open>Server\<close>, \<open>Server_Transfer\<close>, \<open>Server_Gates\<close> (\<open>rdns/src/server.rs\<close>): the
    handlers of one datagram, one stream and one QUIC stream, transfers out,
    updates and cookies.  \<open>Doh\<close> (also \<open>dns-tls/src/lib.rs\<close>): the two HTTP front
    ends, from the bytes or frames of a request to those of the reply.
  \<^item> \<open>Settings\<close>: the texts of networks, policy rules, trust anchors, transaction
    keys and signing keys, each from the crate that reads it.
  \<^item> \<open>Api\<close> (\<open>rdns/src/api.rs\<close>): the management interface, from a connection to
    its effects on resolver, journal, files and secondaries.
  \<^item> \<open>Startup\<close>, \<open>Running\<close> (\<open>rdns/src/main.rs\<close>, \<open>rdns/src/config.rs\<close>): the
    configuration, loading with \<open>$INCLUDE\<close> expansion, keys and views, the state
    at the start, reload and renewal of signatures, and what survives them.
  \<^item> \<open>Tls_Setup\<close> (\<open>dns-tls/src/lib.rs\<close>): certificates and the encrypted listeners.
    \<open>Listeners\<close> (\<open>run_tcp\<close>, \<open>run_dot\<close>, \<open>run_doh\<close>, \<open>run_doq\<close> of \<open>rdns/src/server.rs\<close>,
    \<open>run\<close> of \<open>rdns/src/api.rs\<close>): the tasks spawned for a connection and their turns.
  \<^item> \<open>Zone_Sane\<close>, \<open>Zone_Writers\<close>: what stays true of zones under all their writers,
    and the writers (updates, transfers, API handlers with their lock) as tasks
    whose accesses to zone set and journal interleave.
  \<^item> \<open>Serving\<close>: the program as a whole, a relation \<open>serving_step\<close> on the state of the
    server and the multiset of its tasks: datagrams, connections, turns, closed
    and timed-out connections, SIGHUP, renewal of signatures, refreshes.  While a
    lookup waits, the others may take any number of such steps (\<open>sharing\<close>).

  \<^bold>\<open>State and operations.\<close>  A struct is a record with a prefix for its fields, an
  enum a datatype, a method a function that takes the record last or returns
  it updated.  A function that can panic returns an option whose \<open>None\<close> is
  the panic (in \<open>Zone_Text\<close>, where \<open>None\<close> is not returning, the one panic is the
  error value \<open>HexSplitsChar\<close>, which the callers turn into \<open>None\<close>).  Hash maps are association lists with distinct keys (or maps
  where the order cannot show).  The clock, random numbers, sockets and the
  crates \<open>ring\<close> and \<open>siphasher\<close> are parameters: a network maps a request to what
  arrives in answer (\<open>network\<close> of \<open>Upstream\<close>, \<open>primaries\<close> of \<open>Secondary\<close>), the
  crypto provider is the record \<open>crypto\<close> of \<open>Dnssec_Rr\<close>, HMAC a pair of functions.
  Reads of files go through the record \<open>file_system\<close> of \<open>Startup\<close>; writes,
  notifications and wake-ups are a list of \<open>effect\<close> values.  JSON (\<open>api_env\<close>), TOML
  (an argument of \<open>config_load\<close>) and the key pairs of \<open>ring\<close> (the key library of
  \<open>Settings\<close>) are parameters too.
  What a property needs of them is a hypothesis on the provider (a signature
  verifies under its own key; HMAC verification is equality of tags; rounding
  is monotone and exact on small integers; a key pair loads from the material
  it was exported to), and its witness has a concrete one.

  \<^bold>\<open>What the groups of lemmas show.\<close>

  \<^item> Wire formats: parsing inverts encoding for names, records, messages,
    options, signed messages, DNSSEC data, base64 and base32; the name decoder
    accepts exactly the RFC 1035 grammar; truncation fits its limit for messages
    with at most one question.
  \<^item> Zones: \<open>lookup\<close> refines an abstract CNAME chain, and panics exactly at the
    end of a chain whose CNAME is in generic form; assembly and every edit keep
    the zone invariant; prerequisites and updates are those of a specification
    on sets of names, types and data.
  \<^item> Texts: a printable zone is read back from its file and answers alike;
    whatever the reader accepts is a well-formed zone of well-formed names, and
    its records are within the wire limits but for generic and overlong text
    data; reading ends unless a \<open>$GENERATE\<close> counter wraps; the journals of any
    zones but the root, keys, anchors and access lists are read back from what
    is written.
  \<^item> DNSSEC: what is signed verifies, a signature fixes one record set, every
    record set and every denial record of a signed zone is signed, with NSEC and
    with NSEC3, NSEC denials are accepted by the validator and never deny
    existing data, \<open>Secure\<close> implies a chain of trust.
  \<^item> Resolver: histories of the cache, single flight under all interleavings
    (safety and progress), failover, bailiwick of referrals, the AD bit, and
    noninterference for clients without recursion.
  \<^item> Server: transfers end to end through both programs with the TSIG chain,
    convergence of secondaries and their waits, which a NOTIFY cuts short, the
    journal, authorisation of updates and transfers, the cookie handshake,
    queries over HTTPS in any segmentation.
  \<^item> Management: nothing without the key, changes are all or nothing and survive
    a reload; the API handlers are serialised by their lock, whatever the
    interleaving, and all writers together keep zones and journal sane.
  \<^item> The running server: in every state of every run the zones are sane with
    distinct origins, cache and journal are within their bounds, the settings
    are those of the start, and a validating server sets AD only on answers that
    validate; encrypted listeners show the configured certificate.
  \<^item> Findings: theorems that pin down where the code does not do what its
    comments or the RFCs say (unsigned transfers accepted by a keyed secondary,
    validation skipped behind three failed leaders, repeated SOA records in
    IXFR answers, wildcard signatures, DNSKEY outages, unsigned records
    beside signed ones, CNAME records in generic form, the wrapping counter of
    \<open>$GENERATE\<close>, the scope of an included origin, zones lost by a reload, files
    outside the zone directory, the journal of the root zone, concurrent updates
    that get lost, a certificate without its key, the constant cookie key, a
    prerequisite met by part of a record set, an apex SOA that is deleted, generic
    data beyond its type and the wire format, truncated replies that repeat every
    question, NSEC3 for the root zone).

  The interfaces are locales, interpreted on the model's own definitions:
  codecs (\<open>Codec\<close>), option stores (\<open>Dns_Message\<close>), lossy stores (\<open>Dns_Cache\<close>),
  sources of answers and lookups under an invariant (\<open>question_source\<close> and
  \<open>lookup_contract\<close> of \<open>Resolver\<close>), fields whose text is one token that is read
  back (\<open>Zone_Roundtrip\<close>), those of the record formats, and the contract of the
  whole server (\<open>server_contract\<close> of \<open>Serving\<close>, which extends \<open>lookup_contract\<close>):
  proved once for every handler, it is interpreted for the shape of the state
  and for the soundness of AD.

  \<^bold>\<open>Bounds and fuel.\<close>  Every loop but one is a total function; \<open>generate_loop\<close>
  of \<open>Zone_Text\<close>, which need not end, is a partial function whose \<open>None\<close> is not
  returning, and \<open>zone_file_terminates\<close> says when it returns.  \<open>lookup_loop\<close> counts the 8
  links of the source, \<open>referral_loop\<close> its 30 referrals, \<open>resolve_depth\<close> its 24
  levels of nesting, \<open>dnskeys\<close> the 20 levels of the chain, \<open>external_rounds\<close> the 3
  rounds, \<open>chain_loop\<close> the 64 entries of the journal: these are the source's own
  bounds, not fuel.  The loops over bytes (\<open>from_wire_loop\<close>, \<open>pull_loop\<close>,
  \<open>serve_stream\<close>) end by measures on the jumps or the rest of the input.

  \<^bold>\<open>Not modelled.\<close>  What only the libraries do: TLS handshakes and records, the
  framing of HTTP/2 and QUIC, JSON, TOML, hashes and signatures (parameters, as
  above), sockets, the scheduler, the lengths of timeouts (a timeout is the end
  of a connection), and tracing.  While one answer is validated, the effect of the
  validator's own fetches on pool preference, recursor caches and counters is not
  tracked.  In \<open>serving_step\<close> a turn of a task is atomic but for its lookups: an
  update, an API request or a refresh is one step there, so the runs in which an
  update gets lost are none of its runs.  The program runs on several threads;
  the interleaving inside the handlers that change zones is that of \<open>write_step\<close>
  in \<open>Zone_Writers\<close>, which has those runs, and where \<open>update_steps_refine\<close> ties
  the steps to the handler.  The unit tests are not modelled.
\<close>

end
